(* ===== verification/Wire.thy ===== *)
theory Wire
  imports Prelude
begin

text \<open>
  The proto3 wire primitives of \<^verbatim>\<open>internal/store/proto/codec.go\<close> (low-level helpers and the
  decoder \<^verbatim>\<open>dec\<close>), with the laws every message codec rests on. The decoder's pair
  \<^verbatim>\<open>(b, pos)\<close> is the list of bytes still to be read. The standard library's uvarint writer and
  UTF-8 check are written out. \<open>submessager\<close> and \<open>wire_message\<close> are the interface
  every message implements.
\<close>

section \<open>Varints\<close>

datatype wire_error = ErrTruncated | ErrInvalid | ErrNoProgress | SlicePanic

text \<open>
  The last two are not errors of the code. \<open>SlicePanic\<close> is the panic of a slice expression out of
  range; \<open>ErrNoProgress\<close> is the value of the decoding loop below for a field handler that puts bytes
  back. A \<open>clean\<close> result is a value or an error of the code.
\<close>

definition clean :: "wire_error + 'a \<Rightarrow> bool" where
  "clean r \<longleftrightarrow> (case r of Inl e \<Rightarrow> e = ErrTruncated \<or> e = ErrInvalid | Inr x \<Rightarrow> True)"

lemma clean_simps [simp]: "clean (Inr x)" "clean (Inl ErrTruncated)" "clean (Inl ErrInvalid)"
  by (simp_all add: clean_def)

lemma clean_rbind: "clean r \<Longrightarrow> (\<And>x. r = Inr x \<Longrightarrow> clean (k x)) \<Longrightarrow> clean (rbind r k)"
  by (cases r) (auto simp: clean_def)

text \<open>The slices \<^verbatim>\<open>b[:n]\<close> and \<^verbatim>\<open>b[n:]\<close>.\<close>

definition go_cut :: "nat \<Rightarrow> bytes \<Rightarrow> wire_error + (bytes \<times> bytes)" where
  "go_cut n b = (if length b < n then Inl SlicePanic else Inr (take n b, drop n b))"

lemma unat_drop_bit_7_less: "128 \<le> x \<Longrightarrow> unat (drop_bit 7 x) < unat x" for x :: u64
proof -
  assume "128 \<le> x"
  then have "0 < unat x" by (simp add: word_le_nat_alt)
  then show ?thesis by (simp only: unat_drop_bit_eq drop_bit_eq_div [of 7 "unat x"]) simp
qed

function uvarint :: "u64 \<Rightarrow> bytes" where
  "uvarint x = (if x < 128 then [ucast x] else (ucast x OR 128) # uvarint (drop_bit 7 x))"
  by pat_completeness auto
termination
  by (relation "measure unat") (auto simp: not_less intro: unat_drop_bit_7_less)

declare uvarint.simps [simp del]

definition append_uvarint :: "bytes \<Rightarrow> u64 \<Rightarrow> bytes" where
  "append_uvarint buf v = buf @ uvarint v"

definition uvarint_len :: "u64 \<Rightarrow> nat" where
  "uvarint_len v = length (uvarint v)"

fun dec_uvarint_from :: "nat \<Rightarrow> u64 \<Rightarrow> bytes \<Rightarrow> wire_error + (u64 \<times> bytes)" where
  "dec_uvarint_from shift v [] = Inl ErrTruncated"
| "dec_uvarint_from shift v (b # bs) =
     (if 64 \<le> shift then Inl ErrInvalid
      else if b < 128 then
        (if shift = 63 \<and> 1 < b then Inl ErrInvalid
         else Inr (v OR push_bit shift (ucast b), bs))
      else dec_uvarint_from (shift + 7) (v OR push_bit shift (ucast (b AND 127))) bs)"

definition dec_uvarint :: "bytes \<Rightarrow> wire_error + (u64 \<times> bytes)" where
  "dec_uvarint d = dec_uvarint_from 0 0 d"

lemma uvarint_small: "x < 128 \<Longrightarrow> uvarint x = [ucast x]"
  by (simp add: uvarint.simps [of x])

lemma uvarint_not_Nil [simp]: "uvarint x \<noteq> []"
  by (simp add: uvarint.simps [of x])

lemma uvarint_len_pos: "0 < uvarint_len x"
  by (simp add: uvarint_len_def)

lemma word_low7_step:
  "(v OR push_bit s (ucast ((ucast x OR 128 :: u8) AND 127))) OR push_bit (s + 7) (drop_bit 7 x)
    = v OR push_bit s x" for x v :: u64
proof (rule bit_word_eqI)
  fix n assume "n < LENGTH(64)"
  then have n: "n < 64" by simp
  have m: "(127 :: u8) = mask 7" by (simp add: mask_eq_exp_minus_1)
  have k: "(128 :: u8) = 2 ^ 7" by simp
  have lo: "bit ((ucast x OR 128 :: u8) AND 127) i \<longleftrightarrow> i < 7 \<and> bit x i" for i
    by (auto simp only: m k bit_simps) auto
  show "bit ((v OR push_bit s (ucast ((ucast x OR 128 :: u8) AND 127))) OR push_bit (s + 7) (drop_bit 7 x)) n
     = bit (v OR push_bit s x) n"
  proof (cases "n < s + 7")
    case True
    with n show ?thesis by (auto simp add: bit_or_iff bit_push_bit_iff bit_unsigned_iff lo)
  next
    case False
    then obtain j where "n = s + 7 + j" using le_Suc_ex not_less by blast
    with n show ?thesis
      by (auto simp add: bit_or_iff bit_push_bit_iff bit_unsigned_iff bit_drop_bit_eq lo add.commute add.left_commute)
  qed
qed

lemma dec_uvarint_from_uvarint:
  assumes "unat x * 2 ^ s < 2 ^ 64" and "s \<le> 63"
  shows "dec_uvarint_from s v (uvarint x @ rest) = Inr (v OR push_bit s x, rest)"
  using assms
proof (induction x arbitrary: s v rule: uvarint.induct)
  case (1 x)
  show ?case
  proof (cases "x < 128")
    case True
    have lt: "(ucast x :: u8) < 128"
      using True by (simp add: word_less_nat_alt unsigned_ucast_eq take_bit_eq_mod)
    have "take_bit 8 x = x"
      using True by (simp add: take_bit_word_small word_less_nat_alt)
    then have ucast_back: "ucast (ucast x :: u8) = x"
      by (simp only: word_unat_eq_iff unsigned_ucast_eq) simp
    have top: "\<not> (s = 63 \<and> 1 < (ucast x :: u8))"
    proof
      assume "s = 63 \<and> 1 < (ucast x :: u8)"
      then have "s = 63" and "1 < unat x"
        using True by (auto simp: word_less_nat_alt unsigned_ucast_eq take_bit_eq_mod)
      with "1.prems"(1) show False by simp
    qed
    show ?thesis
      using True "1.prems" lt ucast_back top by (simp add: uvarint_small)
  next
    case False
    let ?b = "ucast x OR 128 :: u8"
    have big: "128 \<le> unat x" using False by (simp add: word_less_nat_alt not_less)
    have s: "s + 7 \<le> 63"
    proof (rule ccontr)
      assume "\<not> s + 7 \<le> 63"
      then have "(2::nat) ^ 57 \<le> 2 ^ s" by (intro power_increasing) auto
      then have "(128::nat) * 2 ^ 57 \<le> unat x * 2 ^ s" using big by (rule_tac mult_mono) auto
      with "1.prems"(1) show False by simp
    qed
    have nlt: "\<not> ?b < 128" by (simp add: le_word_or1 not_less)
    have "unat (drop_bit 7 x) * 2 ^ (s + 7) \<le> unat x * 2 ^ s"
      by (simp only: unat_drop_bit_eq drop_bit_eq_div [of 7 "unat x"] power_add)
        (simp add: mult.commute mult.left_commute)
    then have "unat (drop_bit 7 x) * 2 ^ (s + 7) < 2 ^ 64" using "1.prems"(1) by linarith
    from "1.IH" [OF False this s] show ?thesis
      using False nlt s by (simp add: uvarint.simps [of x] word_low7_step)
  qed
qed

lemma dec_uvarint_uvarint [wire_simps]: "dec_uvarint (uvarint x @ rest) = Inr (x, rest)"
proof -
  have "unat x < 2 ^ 64" using unsigned_less [of x, where ?'a = nat] by simp
  then show ?thesis by (simp add: dec_uvarint_def dec_uvarint_from_uvarint)
qed


lemma length_uvarint_le: "unat x < 2 ^ (7 * k) \<Longrightarrow> 0 < k \<Longrightarrow> length (uvarint x) \<le> k"
proof (induction x arbitrary: k rule: uvarint.induct)
  case (1 x)
  show ?case
  proof (cases "x < 128")
    case True
    with "1.prems" show ?thesis by (simp add: uvarint_small)
  next
    case False
    obtain j where k: "k = Suc j" using "1.prems"(2) by (cases k) auto
    have "unat (drop_bit 7 x) = unat x div 128"
      by (simp only: unat_drop_bit_eq drop_bit_eq_div [of 7 "unat x"]) simp
    also have "\<dots> < 2 ^ (7 * j)"
      using "1.prems"(1) k by (simp add: less_mult_imp_div_less power_add mult.commute)
    finally have lt: "unat (drop_bit 7 x) < 2 ^ (7 * j)" .
    have "0 < j"
    proof (rule ccontr)
      assume "\<not> 0 < j"
      with k "1.prems"(1) False show False by (simp add: word_less_nat_alt)
    qed
    with "1.IH" [OF False lt] False k show ?thesis by (simp add: uvarint.simps [of x])
  qed
qed

lemma dec_uvarint_from_shorter:
  "dec_uvarint_from s v d = Inr (x, d') \<Longrightarrow> length d' < length d"
  by (induction s v d rule: dec_uvarint_from.induct) (auto split: if_splits)

lemma dec_uvarint_shorter: "dec_uvarint d = Inr (x, d') \<Longrightarrow> length d' < length d"
  by (simp add: dec_uvarint_def dec_uvarint_from_shorter)

lemma dec_uvarint_from_extend:
  "dec_uvarint_from s v d = Inr (x, d') \<Longrightarrow> dec_uvarint_from s v (d @ e) = Inr (x, d' @ e)"
  by (induction s v d rule: dec_uvarint_from.induct) (auto split: if_splits)

lemma dec_uvarint_extend: "dec_uvarint d = Inr (x, d') \<Longrightarrow> dec_uvarint (d @ e) = Inr (x, d' @ e)"
  by (simp add: dec_uvarint_def dec_uvarint_from_extend)

lemma dec_uvarint_from_error: "clean (dec_uvarint_from s v d)"
  by (induction s v d rule: dec_uvarint_from.induct) auto

lemma dec_uvarint_error: "clean (dec_uvarint d)"
  by (simp add: dec_uvarint_def dec_uvarint_from_error)

section \<open>Tags, length-delimited values, strings\<close>

definition wire_tag :: "u64 \<Rightarrow> u64 \<Rightarrow> u64" where
  "wire_tag num wt = push_bit 3 num OR wt"

definition dec_tag :: "bytes \<Rightarrow> wire_error + ((u64 \<times> u64) \<times> bytes)" where
  "dec_tag d = rbind (dec_uvarint d) (\<lambda>(v, d').
     let num = drop_bit 3 v; wt = v AND 7
     in if num = 0 then Inl ErrInvalid else Inr ((num, wt), d'))"

definition dec_raw :: "bytes \<Rightarrow> wire_error + (bytes \<times> bytes)" where
  "dec_raw d = rbind (dec_uvarint d) (\<lambda>(ln, d').
     if length d' < unat ln then Inl ErrTruncated
     else go_cut (unat ln) d')"

lemma dec_raw_eq:
  "dec_raw d = rbind (dec_uvarint d) (\<lambda>(ln, d').
     if length d' < unat ln then Inl ErrTruncated
     else Inr (take (unat ln) d', drop (unat ln) d'))"
  unfolding dec_raw_def go_cut_def by (rule arg_cong [where f = "rbind (dec_uvarint d)"]) auto

text \<open>\<^verbatim>\<open>utf8.Valid\<close>: well-formed UTF-8, without overlong forms, surrogates or code points past
  \<^verbatim>\<open>U+10FFFF\<close>.\<close>

definition cont :: "u8 \<Rightarrow> bool" where
  "cont b \<longleftrightarrow> 0x80 \<le> b \<and> b \<le> 0xBF"

fun utf8_valid :: "bytes \<Rightarrow> bool" where
  "utf8_valid [] = True"
| "utf8_valid (b # bs) =
     (if b < 0x80 then utf8_valid bs
      else if b < 0xC2 then False
      else if b < 0xE0 then (case bs of c # r \<Rightarrow> cont c \<and> utf8_valid r | _ \<Rightarrow> False)
      else if b < 0xF0 then
        (case bs of c # c2 # r \<Rightarrow>
           cont c \<and> (b = 0xE0 \<longrightarrow> 0xA0 \<le> c) \<and> (b = 0xED \<longrightarrow> c \<le> 0x9F) \<and> cont c2 \<and> utf8_valid r
         | _ \<Rightarrow> False)
      else if b < 0xF5 then
        (case bs of c # c2 # c3 # r \<Rightarrow>
           cont c \<and> (b = 0xF0 \<longrightarrow> 0x90 \<le> c) \<and> (b = 0xF4 \<longrightarrow> c \<le> 0x8F) \<and> cont c2 \<and> cont c3 \<and> utf8_valid r
         | _ \<Rightarrow> False)
      else False)"

definition dec_str :: "bytes \<Rightarrow> wire_error + (string \<times> bytes)" where
  "dec_str d = rbind (dec_raw d) (\<lambda>(b, d').
     if \<not> utf8_valid b then Inl ErrInvalid else Inr (string_of b, d'))"

fun le_bytes :: "nat \<Rightarrow> u64 \<Rightarrow> bytes" where
  "le_bytes 0 v = []"
| "le_bytes (Suc k) v = ucast v # le_bytes k (drop_bit 8 v)"

fun le_word :: "bytes \<Rightarrow> u64" where
  "le_word [] = 0"
| "le_word (b # bs) = ucast b OR push_bit 8 (le_word bs)"

definition dec_f64 :: "bytes \<Rightarrow> wire_error + (u64 \<times> bytes)" where
  "dec_f64 d = (if length d < 8 then Inl ErrTruncated else rbind (go_cut 8 d) (\<lambda>(b, d'). Inr (le_word b, d')))"

lemma dec_f64_eq: "dec_f64 d = (if length d < 8 then Inl ErrTruncated else Inr (le_word (take 8 d), drop 8 d))"
  by (simp add: dec_f64_def go_cut_def)

definition dec_skip :: "u64 \<Rightarrow> bytes \<Rightarrow> wire_error + bytes" where
  "dec_skip wt d =
     (if wt = 0 then rbind (dec_uvarint d) (\<lambda>(_, d'). Inr d')
      else if wt = 1 then (if length d < 8 then Inl ErrTruncated else Inr (drop 8 d))
      else if wt = 2 then rbind (dec_raw d) (\<lambda>(_, d'). Inr d')
      else if wt = 5 then (if length d < 4 then Inl ErrTruncated else Inr (drop 4 d))
      else Inl ErrInvalid)"

lemma wire_tag_field: "num < 2 ^ 61 \<Longrightarrow> wt < 8 \<Longrightarrow> drop_bit 3 (wire_tag num wt) = num"
  and wire_tag_type: "wt < 8 \<Longrightarrow> wire_tag num wt AND 7 = wt"
proof -
  have seven: "(7 :: u64) = mask 3" by (simp add: mask_eq_exp_minus_1)
  have small: "take_bit 3 wt = wt" if "wt < 8"
    using that by (simp add: take_bit_word_small word_less_nat_alt)
  have big: "take_bit 61 num = num" if "num < 2 ^ 61"
    using that by (simp add: take_bit_word_small word_less_nat_alt)
  show "drop_bit 3 (wire_tag num wt) = num" if "num < 2 ^ 61" and "wt < 8"
  proof (rule bit_word_eqI)
    fix n assume "n < LENGTH(64)"
    moreover have "\<not> bit wt (3 + n)" by (metis small that(2) bit_take_bit_iff not_add_less1)
    moreover have "bit num n \<Longrightarrow> n < 61" by (metis big that(1) bit_take_bit_iff)
    ultimately show "bit (drop_bit 3 (wire_tag num wt)) n = bit num n"
      by (auto simp: wire_tag_def bit_simps)
  qed
  show "wire_tag num wt AND 7 = wt" if "wt < 8"
  proof (rule bit_word_eqI)
    fix n assume "n < LENGTH(64)"
    moreover have "bit wt n \<Longrightarrow> n < 3" by (metis small that bit_take_bit_iff)
    ultimately show "bit (wire_tag num wt AND 7) n = bit wt n"
      by (auto simp: wire_tag_def seven bit_simps)
  qed
qed

lemma dec_tag_wire_tag:
  assumes "num \<noteq> 0" and "num < 2 ^ 61" and "wt < 8"
  shows "dec_tag (uvarint (wire_tag num wt) @ rest) = Inr ((num, wt), rest)"
  using assms by (simp add: dec_tag_def wire_simps wire_tag_field wire_tag_type)

lemma dec_raw_frame [wire_simps]:
  assumes "length b < 2 ^ 64"
  shows "dec_raw (uvarint (word_of_nat (length b)) @ b @ rest) = Inr (b, rest)"
proof -
  have "unat (word_of_nat (length b) :: u64) = length b"
    using assms by (simp add: unat_of_nat)
  then show ?thesis by (simp add: dec_raw_eq wire_simps)
qed

lemma dec_tag_shorter: "dec_tag d = Inr (t, d') \<Longrightarrow> length d' < length d"
  by (auto simp: dec_tag_def rbind_eq_Inr Let_def dest: dec_uvarint_shorter split: if_splits)

lemma dec_raw_shorter: "dec_raw d = Inr (b, d') \<Longrightarrow> length d' < length d"
  by (auto simp: dec_raw_eq rbind_eq_Inr dest!: dec_uvarint_shorter split: if_splits)

lemma dec_str_shorter: "dec_str d = Inr (s, d') \<Longrightarrow> length d' < length d"
  by (auto simp: dec_str_def rbind_eq_Inr dest: dec_raw_shorter split: if_splits)

lemma dec_f64_shorter: "dec_f64 d = Inr (x, d') \<Longrightarrow> length d' < length d"
  by (auto simp: dec_f64_eq split: if_splits)

lemma dec_skip_shorter: "dec_skip wt d = Inr d' \<Longrightarrow> length d' < length d"
  by (auto simp: dec_skip_def rbind_eq_Inr dest: dec_uvarint_shorter dec_raw_shorter split: if_splits)

lemmas shorter = dec_uvarint_shorter dec_tag_shorter dec_raw_shorter dec_str_shorter
  dec_f64_shorter dec_skip_shorter

lemma dec_tag_extend:
  assumes "dec_tag d = Inr (t, d')"
  shows "dec_tag (d @ e) = Inr (t, d' @ e)"
proof -
  obtain v where v: "dec_uvarint d = Inr (v, d')" and "drop_bit 3 v \<noteq> 0" and "t = (drop_bit 3 v, v AND 7)"
    using assms by (auto simp: dec_tag_def rbind_eq_Inr Let_def split: if_splits)
  then show ?thesis by (simp add: dec_tag_def dec_uvarint_extend [OF v])
qed

lemma dec_raw_extend:
  assumes "dec_raw d = Inr (b, d')"
  shows "dec_raw (d @ e) = Inr (b, d' @ e)"
proof -
  obtain ln d1 where ln: "dec_uvarint d = Inr (ln, d1)" and "\<not> length d1 < unat ln"
      and "b = take (unat ln) d1" and "d' = drop (unat ln) d1"
    using assms by (auto simp: dec_raw_eq rbind_eq_Inr split: if_splits)
  then show ?thesis by (simp add: dec_raw_eq dec_uvarint_extend [OF ln])
qed

lemma dec_str_extend:
  assumes "dec_str d = Inr (s, d')"
  shows "dec_str (d @ e) = Inr (s, d' @ e)"
proof -
  obtain b where b: "dec_raw d = Inr (b, d')" and "utf8_valid b" and "s = string_of b"
    using assms by (auto simp: dec_str_def rbind_eq_Inr split: if_splits)
  then show ?thesis by (simp add: dec_str_def dec_raw_extend [OF b])
qed

lemma dec_f64_extend: "dec_f64 d = Inr (x, d') \<Longrightarrow> dec_f64 (d @ e) = Inr (x, d' @ e)"
  by (auto simp: dec_f64_eq split: if_splits)

lemma dec_skip_extend:
  assumes "dec_skip wt d = Inr d'"
  shows "dec_skip wt (d @ e) = Inr (d' @ e)"
proof -
  consider v where "wt = 0" "dec_uvarint d = Inr (v, d')"
    | "wt = 1" "8 \<le> length d" "d' = drop 8 d"
    | b where "wt = 2" "dec_raw d = Inr (b, d')"
    | "wt = 5" "4 \<le> length d" "d' = drop 4 d"
    using assms by (auto simp: dec_skip_def rbind_eq_Inr split: if_splits)
  then show ?thesis
    by cases (simp_all add: dec_skip_def dec_uvarint_extend dec_raw_extend)
qed

lemma dec_tag_error: "clean (dec_tag d)"
  unfolding dec_tag_def by (rule clean_rbind [OF dec_uvarint_error]) (simp add: Let_def split: prod.split)

lemma dec_raw_error: "clean (dec_raw d)"
  unfolding dec_raw_eq by (rule clean_rbind [OF dec_uvarint_error]) (simp split: prod.split)

lemma dec_str_error: "clean (dec_str d)"
  unfolding dec_str_def by (rule clean_rbind [OF dec_raw_error]) (simp split: prod.split)

lemma dec_f64_error: "clean (dec_f64 d)"
  by (simp add: dec_f64_eq)

lemma dec_skip_error: "clean (dec_skip wt d)"
  unfolding dec_skip_def
  by (auto intro!: clean_rbind [OF dec_uvarint_error] clean_rbind [OF dec_raw_error])

lemma le_word_le_bytes: "le_word (le_bytes k v) = take_bit (8 * k) v"
proof (induction k arbitrary: v)
  case (Suc k)
  show ?case
  proof (rule bit_word_eqI)
    fix n assume "n < LENGTH(64)"
    then show "bit (le_word (le_bytes (Suc k) v)) n = bit (take_bit (8 * Suc k) v) n"
      using Suc.IH by (cases "n < 8") (auto simp: bit_simps)
  qed
qed simp

lemma length_le_bytes [simp]: "length (le_bytes k v) = k"
  by (induction k arbitrary: v) auto

lemma dec_f64_le_bytes [wire_simps]: "dec_f64 (le_bytes 8 v @ rest) = Inr (v, rest)"
  using le_word_le_bytes [of 8 v] by (simp add: dec_f64_eq take_bit_word_eq_self)

end
