(* ===== verification/Message.thy ===== *)
theory Message
  imports Wire
begin

text \<open>
  What the twenty message codecs of \<^verbatim>\<open>internal/store/proto/codec.go\<close> share: the repeated
  statements of the generated \<^verbatim>\<open>size\<close>, \<^verbatim>\<open>AppendTo\<close> and \<^verbatim>\<open>unmarshal\<close> methods (one definition per
  statement shape), the field loop of \<^verbatim>\<open>unmarshal\<close>, and the interface \<^verbatim>\<open>submessager\<close> as a
  locale with the laws every message satisfies.
\<close>

section \<open>Sizes and writers of one field\<close>

definition size_tag :: "u64 \<Rightarrow> nat" where
  "size_tag num = uvarint_len (push_bit 3 num)"

definition size_len :: "nat \<Rightarrow> nat" where
  "size_len n = uvarint_len (word_of_nat n)"

definition append_string :: "bytes \<Rightarrow> u64 \<Rightarrow> string \<Rightarrow> bytes" where
  "append_string buf num s =
     append_uvarint (append_uvarint buf (wire_tag num 2)) (word_of_nat (length s)) @ bytes_of s"

definition append_sub :: "bytes \<Rightarrow> u64 \<Rightarrow> ('m \<Rightarrow> nat) \<Rightarrow> ('m \<Rightarrow> bytes \<Rightarrow> bytes) \<Rightarrow> 'm \<Rightarrow> bytes" where
  "append_sub buf num size_of append_to m =
     append_to m (append_uvarint (append_uvarint buf (wire_tag num 2)) (word_of_nat (size_of m)))"

definition size_sub :: "nat \<Rightarrow> nat" where
  "size_sub sz = 1 + size_len sz + sz"

text \<open>
  The guarded statements. \<open>put_uint\<close> is
  \<^verbatim>\<open>if m.F != 0 { buf = AppendUvarint(buf, N<<3|0); buf = AppendUvarint(buf, m.F) }\<close>, and
  \<open>sz_uint\<close> the line of \<^verbatim>\<open>size\<close> that goes with it; likewise for the other field kinds.
\<close>

definition put_uint :: "u64 \<Rightarrow> u64 \<Rightarrow> bytes \<Rightarrow> bytes" where
  "put_uint num v buf = (if v \<noteq> 0 then append_uvarint (append_uvarint buf (wire_tag num 0)) v else buf)"

definition sz_uint :: "u64 \<Rightarrow> u64 \<Rightarrow> nat" where
  "sz_uint num v = (if v \<noteq> 0 then size_tag num + uvarint_len v else 0)"

definition put_bool :: "u64 \<Rightarrow> bool \<Rightarrow> bytes \<Rightarrow> bytes" where
  "put_bool num b buf = (if b then append_uvarint buf (wire_tag num 0) @ [1] else buf)"

definition sz_bool :: "u64 \<Rightarrow> bool \<Rightarrow> nat" where
  "sz_bool num b = (if b then size_tag num + 1 else 0)"

definition put_string :: "u64 \<Rightarrow> string \<Rightarrow> bytes \<Rightarrow> bytes" where
  "put_string num s buf = (if s \<noteq> [] then append_string buf num s else buf)"

definition sz_string :: "u64 \<Rightarrow> string \<Rightarrow> nat" where
  "sz_string num s = (if s \<noteq> [] then size_tag num + size_len (length s) + length s else 0)"

definition put_strings :: "u64 \<Rightarrow> string list \<Rightarrow> bytes \<Rightarrow> bytes" where
  "put_strings num ss buf = fold (\<lambda>s b. append_string b num s) ss buf"

definition sz_strings :: "u64 \<Rightarrow> string list \<Rightarrow> nat" where
  "sz_strings num ss = sum_list (map (\<lambda>s. size_tag num + size_len (length s) + length s) ss)"

definition put_sub :: "u64 \<Rightarrow> ('m \<Rightarrow> nat) \<Rightarrow> ('m \<Rightarrow> bytes \<Rightarrow> bytes) \<Rightarrow> 'm option \<Rightarrow> bytes \<Rightarrow> bytes" where
  "put_sub num size_of append_to mo buf =
     (case mo of None \<Rightarrow> buf | Some m \<Rightarrow> append_sub buf num size_of append_to m)"

definition sz_sub :: "('m \<Rightarrow> nat) \<Rightarrow> 'm option \<Rightarrow> nat" where
  "sz_sub size_of mo = (case mo of None \<Rightarrow> 0 | Some m \<Rightarrow> size_sub (size_of m))"

definition put_subs :: "u64 \<Rightarrow> ('m \<Rightarrow> nat) \<Rightarrow> ('m \<Rightarrow> bytes \<Rightarrow> bytes) \<Rightarrow> 'm list \<Rightarrow> bytes \<Rightarrow> bytes" where
  "put_subs num size_of append_to ms buf = fold (\<lambda>m b. append_sub b num size_of append_to m) ms buf"

definition sz_subs :: "('m \<Rightarrow> nat) \<Rightarrow> 'm list \<Rightarrow> nat" where
  "sz_subs size_of ms = sum_list (map (\<lambda>m. size_sub (size_of m)) ms)"

text \<open>
  A \<^verbatim>\<open>float64\<close> is its IEEE bit pattern (\<^verbatim>\<open>math.Float64bits\<close>); \<^verbatim>\<open>x != 0\<close> is false for both
  zeros.
\<close>

definition f64_is_zero :: "u64 \<Rightarrow> bool" where
  "f64_is_zero v \<longleftrightarrow> v = 0 \<or> v = 0x8000000000000000"

definition put_f64 :: "u64 \<Rightarrow> u64 \<Rightarrow> bytes \<Rightarrow> bytes" where
  "put_f64 num v buf = (if \<not> f64_is_zero v then append_uvarint buf (wire_tag num 1) @ le_bytes 8 v else buf)"

definition sz_f64 :: "u64 \<Rightarrow> u64 \<Rightarrow> nat" where
  "sz_f64 num v = (if \<not> f64_is_zero v then size_tag num + 8 else 0)"

section \<open>Writers append\<close>

text \<open>The bytes one statement adds, whatever is already in the buffer.\<close>

definition fld_uint :: "u64 \<Rightarrow> u64 \<Rightarrow> bytes" where
  "fld_uint num v = put_uint num v []"

definition fld_bool :: "u64 \<Rightarrow> bool \<Rightarrow> bytes" where
  "fld_bool num b = put_bool num b []"

definition fld_str :: "u64 \<Rightarrow> string \<Rightarrow> bytes" where
  "fld_str num s = append_string [] num s"

definition fld_string :: "u64 \<Rightarrow> string \<Rightarrow> bytes" where
  "fld_string num s = put_string num s []"

definition fld_strings :: "u64 \<Rightarrow> string list \<Rightarrow> bytes" where
  "fld_strings num ss = concat (map (fld_str num) ss)"

definition fld_msg :: "u64 \<Rightarrow> bytes \<Rightarrow> bytes" where
  "fld_msg num b = uvarint (wire_tag num 2) @ uvarint (word_of_nat (length b)) @ b"

definition fld_sub :: "u64 \<Rightarrow> ('m \<Rightarrow> bytes) \<Rightarrow> 'm option \<Rightarrow> bytes" where
  "fld_sub num enc mo = (case mo of None \<Rightarrow> [] | Some m \<Rightarrow> fld_msg num (enc m))"

definition fld_subs :: "u64 \<Rightarrow> ('m \<Rightarrow> bytes) \<Rightarrow> 'm list \<Rightarrow> bytes" where
  "fld_subs num enc ms = concat (map (\<lambda>m. fld_msg num (enc m)) ms)"

definition fld_f64 :: "u64 \<Rightarrow> u64 \<Rightarrow> bytes" where
  "fld_f64 num v = put_f64 num v []"

lemma put_uint_fld [put_simps]: "put_uint num v buf = buf @ fld_uint num v"
  by (simp add: put_uint_def fld_uint_def append_uvarint_def)

lemma put_bool_fld [put_simps]: "put_bool num b buf = buf @ fld_bool num b"
  by (simp add: put_bool_def fld_bool_def append_uvarint_def)

lemma append_string_fld: "append_string buf num s = buf @ fld_str num s"
  by (simp add: append_string_def fld_str_def append_uvarint_def)

lemma put_string_fld [put_simps]: "put_string num s buf = buf @ fld_string num s"
  by (simp add: put_string_def fld_string_def append_string_fld)

lemma put_strings_fld [put_simps]: "put_strings num ss buf = buf @ fld_strings num ss"
  by (induction ss arbitrary: buf) (simp_all add: put_strings_def fld_strings_def append_string_fld)

lemma put_f64_fld [put_simps]: "put_f64 num v buf = buf @ fld_f64 num v"
  by (simp add: put_f64_def fld_f64_def append_uvarint_def)

lemma or_less_128:
  fixes a b :: u64
  assumes "a < 128" and "b < 128"
  shows "a OR b < 128"
proof -
  have "take_bit 7 a = a" and "take_bit 7 b = b"
    using assms by (simp_all add: take_bit_word_small word_less_nat_alt)
  then have "a OR b = take_bit 7 (a OR b)" by (simp add: take_bit_or)
  moreover have "unat (take_bit 7 (a OR b)) < 2 ^ 7" by (simp only: unsigned_take_bit_eq take_bit_nat_less_exp)
  ultimately show ?thesis by (simp add: word_less_nat_alt)
qed

lemma push_3_less_128: "num < 16 \<Longrightarrow> push_bit 3 num < 128" for num :: u64
proof -
  assume num: "num < 16"
  have "unat (push_bit 3 num) = unat num * 8 mod 2 ^ 64"
    by (simp add: push_bit_eq_mult unat_word_ariths)
  with num show ?thesis by (simp add: word_less_nat_alt)
qed

lemma size_tag_1 [size_simps]: "num < 16 \<Longrightarrow> size_tag num = 1"
  by (simp add: size_tag_def uvarint_len_def uvarint_small push_3_less_128)

lemma length_uvarint_tag [size_simps]: "num < 16 \<Longrightarrow> wt < 8 \<Longrightarrow> length (uvarint (wire_tag num wt)) = 1"
  using order.strict_trans [of wt 8 128] by (simp add: wire_tag_def uvarint_small or_less_128 push_3_less_128)

lemma length_fld_uint [size_simps]: "num < 16 \<Longrightarrow> length (fld_uint num v) = sz_uint num v"
  by (simp add: fld_uint_def put_uint_def sz_uint_def append_uvarint_def uvarint_len_def size_simps)

lemma length_fld_bool [size_simps]: "num < 16 \<Longrightarrow> length (fld_bool num b) = sz_bool num b"
  by (simp add: fld_bool_def put_bool_def sz_bool_def append_uvarint_def size_simps)

lemma length_fld_str: "num < 16 \<Longrightarrow> length (fld_str num s) = size_tag num + size_len (length s) + length s"
  by (simp add: fld_str_def append_string_def append_uvarint_def uvarint_len_def size_len_def size_simps)

lemma length_fld_string [size_simps]: "num < 16 \<Longrightarrow> length (fld_string num s) = sz_string num s"
  by (simp add: fld_string_def put_string_def sz_string_def append_string_fld length_fld_str)

lemma length_fld_strings [size_simps]: "num < 16 \<Longrightarrow> length (fld_strings num ss) = sz_strings num ss"
  by (induction ss) (simp_all add: fld_strings_def sz_strings_def length_fld_str)

lemma length_fld_f64 [size_simps]: "num < 16 \<Longrightarrow> length (fld_f64 num v) = sz_f64 num v"
  by (simp add: fld_f64_def put_f64_def sz_f64_def append_uvarint_def size_simps)

lemma length_fld_msg: "num < 16 \<Longrightarrow> length (fld_msg num b) = size_sub (length b)"
  by (simp add: fld_msg_def size_sub_def size_len_def uvarint_len_def size_simps)

section \<open>The field loop of unmarshal\<close>

text \<open>
  Every \<^verbatim>\<open>unmarshal\<close> is the loop \<^verbatim>\<open>for d.more() { f, wt := d.tag(); switch { ... } }\<close>; a message
  gives the body of its \<^verbatim>\<open>switch\<close> as a handler, which gets the field number, the wire type, the
  unread bytes and the message so far. The loop ends because a tag has at least one byte.
\<close>

type_synonym 'm handler = "u64 \<Rightarrow> u64 \<Rightarrow> bytes \<Rightarrow> 'm \<Rightarrow> wire_error + ('m \<times> bytes)"

function dec_loop :: "'m handler \<Rightarrow> bytes \<Rightarrow> 'm \<Rightarrow> wire_error + 'm" where
  "dec_loop H d m =
     (if d = [] then Inr m
      else case dec_tag d of Inl e \<Rightarrow> Inl e
        | Inr ((f, wt), d') \<Rightarrow>
          (case H f wt d' m of Inl e \<Rightarrow> Inl e
           | Inr (m', d'') \<Rightarrow>
               if length d'' \<le> length d' then dec_loop H d'' m' else Inl ErrNoProgress))"
  by pat_completeness auto
termination
  by (relation "measure (\<lambda>(H, d, m). length d)") (auto dest: dec_tag_shorter)

declare dec_loop.simps [simp del]

text \<open>The statement shapes inside the \<^verbatim>\<open>switch\<close>: read a value, return on error, store it.\<close>

definition on_uint :: "bytes \<Rightarrow> (u64 \<Rightarrow> 'm) \<Rightarrow> wire_error + ('m \<times> bytes)" where
  "on_uint d k = rbind (dec_uvarint d) (\<lambda>(v, d'). Inr (k v, d'))"

definition on_str :: "bytes \<Rightarrow> (string \<Rightarrow> 'm) \<Rightarrow> wire_error + ('m \<times> bytes)" where
  "on_str d k = rbind (dec_str d) (\<lambda>(s, d'). Inr (k s, d'))"

definition on_f64 :: "bytes \<Rightarrow> (u64 \<Rightarrow> 'm) \<Rightarrow> wire_error + ('m \<times> bytes)" where
  "on_f64 d k = rbind (dec_f64 d) (\<lambda>(v, d'). Inr (k v, d'))"

definition on_msg :: "bytes \<Rightarrow> (bytes \<Rightarrow> wire_error + 's) \<Rightarrow> ('s \<Rightarrow> 'm) \<Rightarrow> wire_error + ('m \<times> bytes)" where
  "on_msg d dec k = rbind (dec_raw d) (\<lambda>(sub, d'). rbind (dec sub) (\<lambda>e. Inr (k e, d')))"

definition on_skip :: "u64 \<Rightarrow> bytes \<Rightarrow> 'm \<Rightarrow> wire_error + ('m \<times> bytes)" where
  "on_skip wt d m = rbind (dec_skip wt d) (\<lambda>d'. Inr (m, d'))"

text \<open>\<^verbatim>\<open>if m.F == nil { m.F = &T{} }\<close>: merge into the message already there.\<close>

definition or_new :: "'m \<Rightarrow> 'm option \<Rightarrow> 'm" where
  "or_new zero mo = (case mo of None \<Rightarrow> zero | Some m \<Rightarrow> m)"

lemma or_new_simps [simp]: "or_new z None = z" "or_new z (Some m) = m"
  by (simp_all add: or_new_def)

lemma on_progress:
  "on_uint d k = Inr (m, d') \<Longrightarrow> length d' \<le> length d"
  "on_str d ks = Inr (m, d') \<Longrightarrow> length d' \<le> length d"
  "on_f64 d k = Inr (m, d') \<Longrightarrow> length d' \<le> length d"
  "on_msg d dec kb = Inr (m, d') \<Longrightarrow> length d' \<le> length d"
  "on_skip wt d m0 = Inr (m, d') \<Longrightarrow> length d' \<le> length d"
  by (auto simp: on_uint_def on_str_def on_f64_def on_msg_def on_skip_def rbind_eq_Inr
      dest!: shorter)

lemma on_no_stuck:
  "clean (on_uint d k)"
  "clean (on_str d ks)"
  "clean (on_f64 d k)"
  "(\<And>b. clean (dec b)) \<Longrightarrow> clean (on_msg d dec kb)"
  "clean (on_skip wt d m0)"
  by (auto simp: on_uint_def on_str_def on_f64_def on_msg_def on_skip_def
      intro!: clean_rbind dec_uvarint_error dec_str_error dec_f64_error dec_raw_error dec_skip_error)

lemma on_extend:
  "on_uint d k = Inr (m, d') \<Longrightarrow> on_uint (d @ e) k = Inr (m, d' @ e)"
  "on_str d ks = Inr (m, d') \<Longrightarrow> on_str (d @ e) ks = Inr (m, d' @ e)"
  "on_f64 d k = Inr (m, d') \<Longrightarrow> on_f64 (d @ e) k = Inr (m, d' @ e)"
  "on_msg d dec kb = Inr (m, d') \<Longrightarrow> on_msg (d @ e) dec kb = Inr (m, d' @ e)"
  "on_skip wt d m0 = Inr (m, d') \<Longrightarrow> on_skip wt (d @ e) m0 = Inr (m, d' @ e)"
proof -
  show "on_uint (d @ e) k = Inr (m, d' @ e)" if h: "on_uint d k = Inr (m, d')"
  proof -
    obtain v where "dec_uvarint d = Inr (v, d')" and "k v = m"
      using h by (auto simp: on_uint_def rbind_eq_Inr)
    then show ?thesis by (simp add: on_uint_def dec_uvarint_extend)
  qed
  show "on_str (d @ e) ks = Inr (m, d' @ e)" if h: "on_str d ks = Inr (m, d')"
  proof -
    obtain v where "dec_str d = Inr (v, d')" and "ks v = m"
      using h by (auto simp: on_str_def rbind_eq_Inr)
    then show ?thesis by (simp add: on_str_def dec_str_extend)
  qed
  show "on_f64 (d @ e) k = Inr (m, d' @ e)" if h: "on_f64 d k = Inr (m, d')"
  proof -
    obtain v where "dec_f64 d = Inr (v, d')" and "k v = m"
      using h by (auto simp: on_f64_def rbind_eq_Inr)
    then show ?thesis by (simp add: on_f64_def dec_f64_extend)
  qed
  show "on_msg (d @ e) dec kb = Inr (m, d' @ e)" if h: "on_msg d dec kb = Inr (m, d')"
  proof -
    obtain b x where "dec_raw d = Inr (b, d')" and "dec b = Inr x" and "kb x = m"
      using h by (auto simp: on_msg_def rbind_eq_Inr)
    then show ?thesis by (simp add: on_msg_def dec_raw_extend)
  qed
  show "on_skip wt (d @ e) m0 = Inr (m, d' @ e)" if h: "on_skip wt d m0 = Inr (m, d')"
    using h by (auto simp: on_skip_def rbind_eq_Inr dec_skip_extend)
qed

lemma dec_loop_no_stuck:
  assumes "\<And>f wt d m. clean (H f wt d m)"
    and "\<And>f wt d m m' d'. H f wt d m = Inr (m', d') \<Longrightarrow> length d' \<le> length d"
  shows "clean (dec_loop H d m)"
proof (induction d arbitrary: m rule: length_induct)
  case (1 d)
  show ?case
  proof (cases "d = [] \<or> (\<exists>e. dec_tag d = Inl e)")
    case True
    then show ?thesis using dec_tag_error [of d] by (auto simp: dec_loop.simps [of H d] clean_def split: sum.splits)
  next
    case False
    then obtain f wt d' where "d \<noteq> []" and tag: "dec_tag d = Inr ((f, wt), d')"
      by (cases "dec_tag d") auto
    show ?thesis
    proof (cases "H f wt d' m")
      case (Inl e)
      with tag assms(1) [of f wt d' m] show ?thesis by (auto simp: dec_loop.simps [of H d] clean_def split: sum.splits)
    next
      case (Inr r)
      obtain m' d'' where r: "H f wt d' m = Inr (m', d'')" using Inr by (cases r) auto
      have le: "length d'' \<le> length d'" using r by (rule assms(2))
      with tag have "length d'' < length d" by (auto dest: dec_tag_shorter)
      with "1.IH" r tag le show ?thesis by (simp add: dec_loop.simps [of H d])
    qed
  qed
qed

lemma dec_loop_Nil [wire_simps]: "dec_loop H [] m = Inr m"
  by (simp add: dec_loop.simps)

lemma dec_loop_field:
  assumes "num \<noteq> 0" and "num < 2 ^ 61" and "wt < 8" and "H num wt (b @ rest) m = Inr (m', rest)"
  shows "dec_loop H (uvarint (wire_tag num wt) @ b @ rest) m = dec_loop H rest m'"
  using assms by (simp add: dec_loop.simps [of H "uvarint (wire_tag num wt) @ b @ rest"] dec_tag_wire_tag)


section \<open>Running a handler over the encoding of one field\<close>

definition wf_str :: "string \<Rightarrow> bool" where
  "wf_str s \<longleftrightarrow> utf8_valid (bytes_of s) \<and> length s < 2 ^ 64"

text \<open>The message a handler leaves, where it succeeds.\<close>

definition after :: "wire_error + ('m \<times> bytes) \<Rightarrow> 'm" where
  "after r = fst (projr r)"

lemma after_Inr [simp]: "after (Inr (m, d)) = m"
  by (simp add: after_def)

lemma dec_uvarint_one [wire_simps]: "dec_uvarint (1 # rest) = Inr (1, rest)"
proof -
  have "uvarint 1 = [1]" by (subst uvarint.simps) simp
  with dec_uvarint_uvarint [of 1 rest] show ?thesis by simp
qed

lemma on_uint_one [wire_simps]: "on_uint (1 # rest) k = Inr (k 1, rest)"
  by (simp add: on_uint_def wire_simps)

lemma on_uint_uvarint [wire_simps]: "on_uint (uvarint v @ rest) k = Inr (k v, rest)"
  by (simp add: on_uint_def wire_simps)

lemma on_str_frame [wire_simps]:
  "wf_str s \<Longrightarrow> on_str (uvarint (word_of_nat (length s)) @ bytes_of s @ rest) k = Inr (k s, rest)"
  using dec_raw_frame [of "bytes_of s" rest] by (simp add: on_str_def dec_str_def wf_str_def)

lemma on_str_empty [wire_simps]: "on_str (uvarint 0 @ rest) k = Inr (k [], rest)"
  using on_str_frame [of "[]" rest k] by (simp add: wf_str_def)

lemma on_f64_le_bytes [wire_simps]: "on_f64 (le_bytes 8 v @ rest) k = Inr (k v, rest)"
  by (simp add: on_f64_def wire_simps)

lemma on_msg_frame [wire_simps]:
  "length b < 2 ^ 64 \<Longrightarrow> dec b = Inr x \<Longrightarrow>
   on_msg (uvarint (word_of_nat (length b)) @ b @ rest) dec k = Inr (k x, rest)"
  by (simp add: on_msg_def wire_simps)

lemma loop_uint [wire_simps]:
  assumes "num \<noteq> 0" and "num < 16"
    and "\<exists>m'. H num 0 (uvarint v @ rest) m = Inr (m', rest)"
    and "v = 0 \<Longrightarrow> after (H num 0 (uvarint v @ rest) m) = m"
  shows "dec_loop H (fld_uint num v @ rest) m = dec_loop H rest (after (H num 0 (uvarint v @ rest) m))"
proof (cases "v = 0")
  case True
  with assms(4) show ?thesis by (simp add: fld_uint_def put_uint_def)
next
  case False
  have "num < 2 ^ 61" using assms(2) by (rule order.strict_trans) simp
  with False assms show ?thesis
    by (auto simp: fld_uint_def put_uint_def append_uvarint_def dec_loop_field)
qed

lemma loop_bool:
  assumes "num \<noteq> 0" and "num < 16"
    and "\<exists>m'. H num 0 (1 # rest) m = Inr (m', rest)"
  shows "dec_loop H (fld_bool num b @ rest) m = dec_loop H rest (if b then after (H num 0 (1 # rest) m) else m)"
proof (cases b)
  case True
  have "num < 2 ^ 61" using assms(2) by (rule order.strict_trans) simp
  with True assms show ?thesis
    using dec_loop_field [of num 0 H "[1]" rest m]
    by (auto simp: fld_bool_def put_bool_def append_uvarint_def)
qed (simp add: fld_bool_def put_bool_def)

lemma loop_msg:
  assumes "num \<noteq> 0" and "num < 16"
    and "H num 2 (uvarint (word_of_nat (length b)) @ b @ rest) m = Inr (m', rest)"
  shows "dec_loop H (fld_msg num b @ rest) m = dec_loop H rest m'"
proof -
  have "num < 2 ^ 61" using assms(2) by (rule order.strict_trans) simp
  with assms show ?thesis
    using dec_loop_field [of num 2 H "uvarint (word_of_nat (length b)) @ b" rest m m']
    by (simp add: fld_msg_def)
qed

lemma fld_str_msg: "fld_str num s = fld_msg num (bytes_of s)"
  by (simp add: fld_str_def append_string_def append_uvarint_def fld_msg_def)

lemma loop_string [wire_simps]:
  assumes "num \<noteq> 0" and "num < 16"
    and "\<exists>m'. H num 2 (uvarint (word_of_nat (length s)) @ bytes_of s @ rest) m = Inr (m', rest)"
    and "s = [] \<Longrightarrow> after (H num 2 (uvarint (word_of_nat (length s)) @ bytes_of s @ rest) m) = m"
  shows "dec_loop H (fld_string num s @ rest) m
    = dec_loop H rest (after (H num 2 (uvarint (word_of_nat (length s)) @ bytes_of s @ rest) m))"
proof (cases "s = []")
  case True
  with assms(4) show ?thesis by (simp add: fld_string_def put_string_def)
next
  case False
  obtain m' where "H num 2 (uvarint (word_of_nat (length s)) @ bytes_of s @ rest) m = Inr (m', rest)"
    using assms(3) by blast
  with False assms(1,2) show ?thesis
    by (simp add: fld_string_def put_string_def append_string_fld fld_str_msg loop_msg)
qed

lemma loop_f64:
  assumes "num \<noteq> 0" and "num < 16"
    and "\<exists>m'. H num 1 (le_bytes 8 v @ rest) m = Inr (m', rest)"
  shows "dec_loop H (fld_f64 num v @ rest) m
    = dec_loop H rest (if f64_is_zero v then m else after (H num 1 (le_bytes 8 v @ rest) m))"
proof (cases "f64_is_zero v")
  case False
  have "num < 2 ^ 61" using assms(2) by (rule order.strict_trans) simp
  obtain m' where "H num 1 (le_bytes 8 v @ rest) m = Inr (m', rest)" using assms(3) by blast
  with False assms(1) \<open>num < 2 ^ 61\<close> show ?thesis
    by (simp add: fld_f64_def put_f64_def append_uvarint_def dec_loop_field)
qed (simp add: fld_f64_def put_f64_def)

text \<open>
  A repeated field: each occurrence appends to one list; \<open>upd\<close> puts the list back into the
  message.
\<close>

lemma loop_subs:
  assumes "num \<noteq> 0" and "num < 16"
    and "\<And>x acc r. x \<in> set xs \<Longrightarrow>
      H num 2 (uvarint (word_of_nat (length (enc x))) @ enc x @ r) (upd acc) = Inr (upd (acc @ [c x]), r)"
  shows "dec_loop H (fld_subs num enc xs @ rest) (upd acc) = dec_loop H rest (upd (acc @ map c xs))"
  using assms(3)
proof (induction xs arbitrary: acc)
  case Nil
  then show ?case by (simp add: fld_subs_def)
next
  case (Cons x xs)
  have "dec_loop H (fld_msg num (enc x) @ fld_subs num enc xs @ rest) (upd acc)
      = dec_loop H (fld_subs num enc xs @ rest) (upd (acc @ [c x]))"
    by (rule loop_msg) (use assms(1,2) Cons.prems in simp_all)
  also have "\<dots> = dec_loop H rest (upd ((acc @ [c x]) @ map c xs))"
    by (rule Cons.IH) (use Cons.prems in simp)
  finally show ?case by (simp add: fld_subs_def)
qed

lemma loop_strings:
  assumes "num \<noteq> 0" and "num < 16"
    and "\<And>s acc r. s \<in> set ss \<Longrightarrow>
      H num 2 (uvarint (word_of_nat (length s)) @ bytes_of s @ r) (upd acc) = Inr (upd (acc @ [s]), r)"
  shows "dec_loop H (fld_strings num ss @ rest) (upd acc) = dec_loop H rest (upd (acc @ ss))"
proof -
  have "fld_str num = (\<lambda>s. fld_msg num (bytes_of s))"
    by (rule ext) (rule fld_str_msg)
  then have "fld_strings num ss = fld_subs num bytes_of ss"
    by (simp add: fld_strings_def fld_subs_def)
  with loop_subs [of num ss H bytes_of upd id rest acc] assms show ?thesis by simp
qed

lemma ucast_ucast_u32 [wire_simps]: "ucast (ucast x :: u64) = x" for x :: u32
  by (rule bit_word_eqI) (simp add: bit_simps)

lemma ucast_scast_u32 [wire_simps]: "ucast (scast x :: u64) = x" for x :: u32
  by (rule bit_word_eqI) (simp add: bit_simps)

lemma ucast_u32_eq_0 [wire_simps]: "ucast x = (0 :: u64) \<longleftrightarrow> x = 0" for x :: u32
  by (metis ucast_ucast_u32 unsigned_0)

lemma scast_u32_eq_0 [wire_simps]: "scast x = (0 :: u64) \<longleftrightarrow> x = 0" for x :: u32
  by (metis ucast_scast_u32 unsigned_0 signed_0)

section \<open>The interface of a message\<close>

text \<open>
  \<^verbatim>\<open>submessager\<close> of the code is \<open>size_of\<close> and \<open>append_to\<close>; \<open>ok\<close> says which messages
  the size law is claimed for (all of them, except where \<^verbatim>\<open>map_entry_size\<close> is wrong).
\<close>

locale submessager =
  fixes size_of :: "'m \<Rightarrow> nat"
    and append_to :: "'m \<Rightarrow> bytes \<Rightarrow> bytes"
    and ok :: "'m \<Rightarrow> bool"
  assumes appends: "append_to m buf = buf @ append_to m []"
    and size_exact: "ok m \<Longrightarrow> size_of m = length (append_to m [])"
begin

lemma append_sub_fld: "ok m \<Longrightarrow> append_sub buf num size_of append_to m = buf @ fld_msg num (append_to m [])"
  unfolding append_sub_def fld_msg_def append_uvarint_def
  by (subst appends) (simp add: size_exact)

lemma put_sub_fld:
  "(\<And>m. mo = Some m \<Longrightarrow> ok m) \<Longrightarrow>
   put_sub num size_of append_to mo buf = buf @ fld_sub num (\<lambda>m. append_to m []) mo"
  by (cases mo) (simp_all add: put_sub_def fld_sub_def append_sub_fld)

lemma put_subs_fld:
  "(\<And>m. m \<in> set ms \<Longrightarrow> ok m) \<Longrightarrow>
   put_subs num size_of append_to ms buf = buf @ fld_subs num (\<lambda>m. append_to m []) ms"
  by (induction ms arbitrary: buf) (simp_all add: put_subs_def fld_subs_def append_sub_fld)

lemma length_fld_sub:
  "num < 16 \<Longrightarrow> (\<And>m. mo = Some m \<Longrightarrow> ok m) \<Longrightarrow>
   length (fld_sub num (\<lambda>m. append_to m []) mo) = sz_sub size_of mo"
  by (cases mo) (simp_all add: fld_sub_def sz_sub_def length_fld_msg size_exact)

lemma length_fld_subs:
  "num < 16 \<Longrightarrow> (\<And>m. m \<in> set ms \<Longrightarrow> ok m) \<Longrightarrow>
   length (fld_subs num (\<lambda>m. append_to m []) ms) = sz_subs size_of ms"
  by (induction ms) (simp_all add: fld_subs_def sz_subs_def length_fld_msg size_exact)

end

text \<open>
  A whole message: the handler of its \<^verbatim>\<open>unmarshal\<close>, the zero value \<^verbatim>\<open>Unmarshal\<close> starts from,
  \<open>wf\<close> for what Go's types and the schema promise of a value, and \<open>canon\<close> for the value
  that survives the wire (a pointer to a zero timestamp is dropped, a map is read back sorted).
\<close>

locale wire_message = submessager +
  fixes field :: "'a handler" and zero :: 'a and wf :: "'a \<Rightarrow> bool" and canon :: "'a \<Rightarrow> 'a"
  assumes wf_ok: "wf m \<Longrightarrow> ok m"
    and wf_small: "wf m \<Longrightarrow> size_of m < 2 ^ 64"
    and field_progress: "field f wt d m = Inr (m', d') \<Longrightarrow> length d' \<le> length d"
    and field_no_stuck: "clean (field f wt d m)"
    and field_extend: "field f wt d m = Inr (m', d') \<Longrightarrow> field f wt (d @ e) m = Inr (m', d' @ e)"
    and roundtrip: "wf m \<Longrightarrow> dec_loop field (append_to m []) zero = Inr (canon m)"
begin

text \<open>Unmarshalling is total: it returns a message or one of the code's two errors.\<close>

lemma no_stuck: "clean (dec_loop field d m)"
  by (rule dec_loop_no_stuck) (rule field_no_stuck, rule field_progress)

text \<open>
  Decoding a concatenation continues from what the first part left: proto3 merging. It is why a
  message followed by fields of a newer schema still reads.
\<close>

lemma loop_append: "dec_loop field d m = Inr m' \<Longrightarrow> dec_loop field (d @ e) m = dec_loop field e m'"
proof (induction d arbitrary: m rule: length_induct)
  case (1 d)
  show ?case
  proof (cases "d = []")
    case True
    with "1.prems" show ?thesis by (simp add: wire_simps)
  next
    case False
    from False "1.prems" obtain f wt d' m1 d''
      where tag: "dec_tag d = Inr ((f, wt), d')" and fld: "field f wt d' m = Inr (m1, d'')"
        and rest: "dec_loop field d'' m1 = Inr m'" and le: "length d'' \<le> length d'"
      by (auto simp: dec_loop.simps [of field d] split: sum.splits prod.splits if_splits)
    have "length d'' < length d" using tag le by (auto dest: dec_tag_shorter)
    with "1.IH" rest have "dec_loop field (d'' @ e) m1 = dec_loop field e m'" by blast
    with False tag fld le show ?thesis
      by (simp add: dec_loop.simps [of field "d @ e"] dec_tag_extend field_extend)
  qed
qed

lemma merge: "wf m \<Longrightarrow> dec_loop field (append_to m [] @ e) zero = dec_loop field e (canon m)"
  by (rule loop_append) (rule roundtrip)

lemma same_bytes: "wf a \<Longrightarrow> wf b \<Longrightarrow> append_to a [] = append_to b [] \<Longrightarrow> canon a = canon b"
  using roundtrip [of a] roundtrip [of b] by simp

lemma on_msg_sub:
  "wf x \<Longrightarrow>
   on_msg (uvarint (word_of_nat (length (append_to x []))) @ append_to x [] @ rest)
     (\<lambda>b. dec_loop field b zero) k = Inr (k (canon x), rest)"
  using wf_small [of x] by (intro on_msg_frame) (simp_all add: roundtrip wf_ok flip: size_exact)

end

end
