(* ===== verification/Manifest_Codec.thy ===== *)
theory Manifest_Codec
  imports Message
begin

text \<open>
  The messages a manifest is made of (\<^verbatim>\<open>internal/store/proto/types.go\<close>, \<^verbatim>\<open>codec.go\<close>): timestamps,
  repository settings, log segment pointers, pack references, checkpoint pointers, and the manifest
  itself. For each message \<^verbatim>\<open>M\<close>: a record with the struct's fields in order, \<open>M_zero\<close>,
  \<open>size_M\<close>, \<open>append_M\<close> (\<^verbatim>\<open>AppendTo\<close>), \<open>marshal_M\<close>, the handler \<open>M_field\<close> (the \<^verbatim>\<open>switch\<close> of
  \<^verbatim>\<open>unmarshal\<close>), \<open>unmarshal_M\<close> (merging) and \<open>decode_M\<close> (\<^verbatim>\<open>Unmarshal\<close>, which resets first).
  Then \<open>wf_M\<close>, what Go's types and proto3 promise of a value (strings are UTF-8, lengths fit
  64 bits), \<open>canon_M\<close>, what the wire keeps of it, one decoding lemma per field that is not a
  plain number or string, and the interpretation of \<open>wire_message\<close>.

  Signed integers are kept as words (\<^verbatim>\<open>uint64(x)\<close> reinterprets, \<^verbatim>\<open>uint64(int64(n))\<close> extends the
  sign). A pointer is an option. Slices of pointers hold no nil: no code stores one and the decoder
  appends fresh objects, so the writers' \<^verbatim>\<open>if e != nil\<close> is always true.
\<close>

section \<open>Timestamp\<close>

record timestamp =
  ts_seconds :: u64
  ts_nanos :: u32

definition timestamp_zero :: timestamp where
  "timestamp_zero =
    \<lparr>ts_seconds = 0, ts_nanos = 0\<rparr>"

definition size_timestamp :: "timestamp \<Rightarrow> nat" where
  "size_timestamp m =
     sz_uint 1 (ts_seconds m)
     + sz_uint 2 (scast (ts_nanos m))"

definition append_timestamp :: "timestamp \<Rightarrow> bytes \<Rightarrow> bytes" where
  "append_timestamp m buf =
    (let buf = put_uint 1 (ts_seconds m) buf;
         buf = put_uint 2 (scast (ts_nanos m)) buf
     in buf)"

definition marshal_timestamp :: "timestamp \<Rightarrow> bytes" where
  "marshal_timestamp m = append_timestamp m []"

definition timestamp_field :: "timestamp handler" where
  "timestamp_field f wt d m =
    (if f = 1 \<and> wt = 0 then on_uint d (\<lambda>v. m\<lparr>ts_seconds := v\<rparr>)
     else if f = 2 \<and> wt = 0 then on_uint d (\<lambda>v. m\<lparr>ts_nanos := ucast v\<rparr>)
     else on_skip wt d m)"

definition unmarshal_timestamp :: "bytes \<Rightarrow> timestamp \<Rightarrow> wire_error + timestamp" where
  "unmarshal_timestamp b m = dec_loop timestamp_field b m"

definition decode_timestamp :: "bytes \<Rightarrow> wire_error + timestamp" where
  "decode_timestamp b = unmarshal_timestamp b timestamp_zero"

definition wf_timestamp :: "timestamp \<Rightarrow> bool" where
  "wf_timestamp m \<longleftrightarrow>
     size_timestamp m < 2 ^ 64"

lemma append_timestamp_fields:
  "append_timestamp m buf = buf @ fld_uint 1 (ts_seconds m)
     @ fld_uint 2 (scast (ts_nanos m))"
  by (simp add: append_timestamp_def put_simps)

lemma size_timestamp_exact: "size_timestamp m = length (append_timestamp m [])"
  by (simp add: append_timestamp_fields size_timestamp_def size_simps)

lemma timestamp_merge:
  "wf_timestamp m \<Longrightarrow> dec_loop timestamp_field (append_timestamp m [] @ rest) timestamp_zero = dec_loop timestamp_field rest (m)"
  by (cases m) (simp add: append_timestamp_fields wf_timestamp_def timestamp_zero_def wire_simps timestamp_field_def)

interpretation timestamp_msg: wire_message size_timestamp append_timestamp "\<lambda>_. True" timestamp_field timestamp_zero wf_timestamp "\<lambda>x. x"
proof
  show "append_timestamp m buf = buf @ append_timestamp m []" for m buf
    by (simp add: append_timestamp_fields)
  show "size_timestamp m = length (append_timestamp m [])" for m
    by (rule size_timestamp_exact)
  show "timestamp_field f wt d m = Inr (m', d') \<Longrightarrow> length d' \<le> length d" for f wt d m m' d'
    by (simp add: timestamp_field_def on_progress split: if_splits)
  show "clean (timestamp_field f wt d m)" for f wt d m
    by (simp add: timestamp_field_def on_no_stuck no_stuck_simps)
  show "timestamp_field f wt d m = Inr (m', d') \<Longrightarrow> timestamp_field f wt (d @ e) m = Inr (m', d' @ e)" for f wt d m m' d' e
    by (auto simp: timestamp_field_def on_extend split: if_splits)
  show "wf_timestamp m \<Longrightarrow> size_timestamp m < 2 ^ 64" for m
    by (simp add: wf_timestamp_def)
  show "wf_timestamp m \<Longrightarrow> dec_loop timestamp_field (append_timestamp m []) timestamp_zero = Inr (m)" for m
    using timestamp_merge [of m "[]"] by (simp add: wire_simps)
qed simp

lemmas timestamp_put [put_simps] = timestamp_msg.put_sub_fld timestamp_msg.put_subs_fld
lemmas timestamp_size [size_simps] = timestamp_msg.length_fld_sub timestamp_msg.length_fld_subs
lemmas timestamp_wire [wire_simps] = unmarshal_timestamp_def timestamp_msg.on_msg_sub
lemmas timestamp_total [no_stuck_simps] = unmarshal_timestamp_def timestamp_msg.no_stuck


text \<open>
  \<^verbatim>\<open>if m.F != nil && (m.F.Seconds != 0 || m.F.Nanos != 0)\<close>: a pointer to the zero timestamp is not
  written.
\<close>

definition put_time :: "u64 \<Rightarrow> timestamp option \<Rightarrow> bytes \<Rightarrow> bytes" where
  "put_time num mo buf =
     (case mo of None \<Rightarrow> buf
      | Some t \<Rightarrow> if ts_seconds t \<noteq> 0 \<or> ts_nanos t \<noteq> 0
                 then append_sub buf num size_timestamp append_timestamp t else buf)"

definition sz_time :: "timestamp option \<Rightarrow> nat" where
  "sz_time mo =
     (case mo of None \<Rightarrow> 0
      | Some t \<Rightarrow> if ts_seconds t \<noteq> 0 \<or> ts_nanos t \<noteq> 0 then size_sub (size_timestamp t) else 0)"

definition canon_time :: "timestamp option \<Rightarrow> timestamp option" where
  "canon_time mo =
     (case mo of None \<Rightarrow> None
      | Some t \<Rightarrow> if ts_seconds t \<noteq> 0 \<or> ts_nanos t \<noteq> 0 then Some t else None)"

lemma put_time_fld [put_simps]:
  "put_time num mo buf = buf @ fld_sub num (\<lambda>t. append_timestamp t []) (canon_time mo)"
  by (cases mo) (simp_all add: put_time_def canon_time_def fld_sub_def timestamp_msg.append_sub_fld)

lemma sz_time_canon [size_simps]: "sz_sub size_timestamp (canon_time mo) = sz_time mo"
  by (cases mo) (simp_all add: sz_time_def canon_time_def sz_sub_def)

lemma uvarint_len_le: "uvarint_len v \<le> 10"
  using length_uvarint_le [of v 10] unsigned_less [of v, where ?'a = nat]
  by (simp add: uvarint_len_def)

lemma wf_timestamp [wire_simps]: "wf_timestamp t"
  using uvarint_len_le [of "ts_seconds t"] uvarint_len_le [of "scast (ts_nanos t)"]
  by (simp add: wf_timestamp_def size_timestamp_def sz_uint_def size_simps)

section \<open>RepoSettings\<close>

record repo_settings =
  rs_toml :: string
  rs_revision :: u64
  rs_author :: string
  rs_updated_at :: "timestamp option"
  rs_message :: string

definition repo_settings_zero :: repo_settings where
  "repo_settings_zero =
    \<lparr>rs_toml = [], rs_revision = 0, rs_author = [], rs_updated_at = None, rs_message = []\<rparr>"

definition size_repo_settings :: "repo_settings \<Rightarrow> nat" where
  "size_repo_settings m =
     sz_string 1 (rs_toml m)
     + sz_uint 2 (rs_revision m)
     + sz_string 3 (rs_author m)
     + sz_time (rs_updated_at m)
     + sz_string 5 (rs_message m)"

definition append_repo_settings :: "repo_settings \<Rightarrow> bytes \<Rightarrow> bytes" where
  "append_repo_settings m buf =
    (let buf = put_string 1 (rs_toml m) buf;
         buf = put_uint 2 (rs_revision m) buf;
         buf = put_string 3 (rs_author m) buf;
         buf = put_time 4 (rs_updated_at m) buf;
         buf = put_string 5 (rs_message m) buf
     in buf)"

definition marshal_repo_settings :: "repo_settings \<Rightarrow> bytes" where
  "marshal_repo_settings m = append_repo_settings m []"

definition repo_settings_field :: "repo_settings handler" where
  "repo_settings_field f wt d m =
    (if f = 1 \<and> wt = 2 then on_str d (\<lambda>s. m\<lparr>rs_toml := s\<rparr>)
     else if f = 2 \<and> wt = 0 then on_uint d (\<lambda>v. m\<lparr>rs_revision := v\<rparr>)
     else if f = 3 \<and> wt = 2 then on_str d (\<lambda>s. m\<lparr>rs_author := s\<rparr>)
     else if f = 4 \<and> wt = 2 then on_msg d (\<lambda>b. unmarshal_timestamp b (or_new timestamp_zero (rs_updated_at m))) 
       (\<lambda>e. m\<lparr>rs_updated_at := Some e\<rparr>)
     else if f = 5 \<and> wt = 2 then on_str d (\<lambda>s. m\<lparr>rs_message := s\<rparr>)
     else on_skip wt d m)"

definition unmarshal_repo_settings :: "bytes \<Rightarrow> repo_settings \<Rightarrow> wire_error + repo_settings" where
  "unmarshal_repo_settings b m = dec_loop repo_settings_field b m"

definition decode_repo_settings :: "bytes \<Rightarrow> wire_error + repo_settings" where
  "decode_repo_settings b = unmarshal_repo_settings b repo_settings_zero"

definition canon_repo_settings :: "repo_settings \<Rightarrow> repo_settings" where
  "canon_repo_settings m = m\<lparr>rs_updated_at := canon_time (rs_updated_at m)\<rparr>"

definition wf_repo_settings :: "repo_settings \<Rightarrow> bool" where
  "wf_repo_settings m \<longleftrightarrow>
     size_repo_settings m < 2 ^ 64
     \<and> wf_str (rs_toml m)
     \<and> wf_str (rs_author m)
     \<and> wf_str (rs_message m)"

lemma append_repo_settings_fields:
  "append_repo_settings m buf = buf @ fld_string 1 (rs_toml m)
     @ fld_uint 2 (rs_revision m)
     @ fld_string 3 (rs_author m)
     @ fld_sub 4 (\<lambda>t. append_timestamp t []) (canon_time (rs_updated_at m))
     @ fld_string 5 (rs_message m)"
  by (simp add: append_repo_settings_def put_simps)

lemma size_repo_settings_exact: "size_repo_settings m = length (append_repo_settings m [])"
  by (simp add: append_repo_settings_fields size_repo_settings_def size_simps)

lemma repo_settings_dec_rs_updated_at [wire_simps]:
  assumes prems: "rs_updated_at m = None"
  shows "dec_loop repo_settings_field (fld_sub 4 (\<lambda>t. append_timestamp t []) mo @ rest) m = dec_loop repo_settings_field rest (m\<lparr>rs_updated_at := mo\<rparr>)"
  proof (cases mo)
  case (Some t)
  then show ?thesis
    using prems loop_msg [of 4 repo_settings_field "append_timestamp t []" rest m "m\<lparr>rs_updated_at := mo\<rparr>"]
    by (simp add: fld_sub_def repo_settings_field_def wire_simps)
qed (use prems in \<open>cases m; simp add: fld_sub_def\<close>)

lemma repo_settings_merge:
  "wf_repo_settings m \<Longrightarrow> dec_loop repo_settings_field (append_repo_settings m [] @ rest) repo_settings_zero = dec_loop repo_settings_field rest (canon_repo_settings m)"
  by (cases m) (simp add: append_repo_settings_fields wf_repo_settings_def repo_settings_zero_def canon_repo_settings_def wire_simps repo_settings_field_def)

interpretation repo_settings_msg: wire_message size_repo_settings append_repo_settings "\<lambda>_. True" repo_settings_field repo_settings_zero wf_repo_settings canon_repo_settings
proof
  show "append_repo_settings m buf = buf @ append_repo_settings m []" for m buf
    by (simp add: append_repo_settings_fields)
  show "size_repo_settings m = length (append_repo_settings m [])" for m
    by (rule size_repo_settings_exact)
  show "repo_settings_field f wt d m = Inr (m', d') \<Longrightarrow> length d' \<le> length d" for f wt d m m' d'
    by (simp add: repo_settings_field_def on_progress split: if_splits)
  show "clean (repo_settings_field f wt d m)" for f wt d m
    by (simp add: repo_settings_field_def on_no_stuck no_stuck_simps)
  show "repo_settings_field f wt d m = Inr (m', d') \<Longrightarrow> repo_settings_field f wt (d @ e) m = Inr (m', d' @ e)" for f wt d m m' d' e
    by (auto simp: repo_settings_field_def on_extend split: if_splits)
  show "wf_repo_settings m \<Longrightarrow> size_repo_settings m < 2 ^ 64" for m
    by (simp add: wf_repo_settings_def)
  show "wf_repo_settings m \<Longrightarrow> dec_loop repo_settings_field (append_repo_settings m []) repo_settings_zero = Inr (canon_repo_settings m)" for m
    using repo_settings_merge [of m "[]"] by (simp add: wire_simps)
qed simp

lemmas repo_settings_put [put_simps] = repo_settings_msg.put_sub_fld repo_settings_msg.put_subs_fld
lemmas repo_settings_size [size_simps] = repo_settings_msg.length_fld_sub repo_settings_msg.length_fld_subs
lemmas repo_settings_wire [wire_simps] = unmarshal_repo_settings_def repo_settings_msg.on_msg_sub
lemmas repo_settings_total [no_stuck_simps] = unmarshal_repo_settings_def repo_settings_msg.no_stuck

section \<open>LogSegmentRef\<close>

record log_segment_ref =
  sg_key :: string
  sg_first_seq :: u64
  sg_last_seq :: u64
  sg_size :: u64
  sg_sealed :: bool

definition log_segment_ref_zero :: log_segment_ref where
  "log_segment_ref_zero =
    \<lparr>sg_key = [], sg_first_seq = 0, sg_last_seq = 0, sg_size = 0, sg_sealed = False\<rparr>"

definition size_log_segment_ref :: "log_segment_ref \<Rightarrow> nat" where
  "size_log_segment_ref m =
     sz_string 1 (sg_key m)
     + sz_uint 2 (sg_first_seq m)
     + sz_uint 3 (sg_last_seq m)
     + sz_uint 4 (sg_size m)
     + sz_bool 5 (sg_sealed m)"

definition append_log_segment_ref :: "log_segment_ref \<Rightarrow> bytes \<Rightarrow> bytes" where
  "append_log_segment_ref m buf =
    (let buf = put_string 1 (sg_key m) buf;
         buf = put_uint 2 (sg_first_seq m) buf;
         buf = put_uint 3 (sg_last_seq m) buf;
         buf = put_uint 4 (sg_size m) buf;
         buf = put_bool 5 (sg_sealed m) buf
     in buf)"

definition marshal_log_segment_ref :: "log_segment_ref \<Rightarrow> bytes" where
  "marshal_log_segment_ref m = append_log_segment_ref m []"

definition log_segment_ref_field :: "log_segment_ref handler" where
  "log_segment_ref_field f wt d m =
    (if f = 1 \<and> wt = 2 then on_str d (\<lambda>s. m\<lparr>sg_key := s\<rparr>)
     else if f = 2 \<and> wt = 0 then on_uint d (\<lambda>v. m\<lparr>sg_first_seq := v\<rparr>)
     else if f = 3 \<and> wt = 0 then on_uint d (\<lambda>v. m\<lparr>sg_last_seq := v\<rparr>)
     else if f = 4 \<and> wt = 0 then on_uint d (\<lambda>v. m\<lparr>sg_size := v\<rparr>)
     else if f = 5 \<and> wt = 0 then on_uint d (\<lambda>v. m\<lparr>sg_sealed := (v \<noteq> 0)\<rparr>)
     else on_skip wt d m)"

definition unmarshal_log_segment_ref :: "bytes \<Rightarrow> log_segment_ref \<Rightarrow> wire_error + log_segment_ref" where
  "unmarshal_log_segment_ref b m = dec_loop log_segment_ref_field b m"

definition decode_log_segment_ref :: "bytes \<Rightarrow> wire_error + log_segment_ref" where
  "decode_log_segment_ref b = unmarshal_log_segment_ref b log_segment_ref_zero"

definition wf_log_segment_ref :: "log_segment_ref \<Rightarrow> bool" where
  "wf_log_segment_ref m \<longleftrightarrow>
     size_log_segment_ref m < 2 ^ 64
     \<and> wf_str (sg_key m)"

lemma append_log_segment_ref_fields:
  "append_log_segment_ref m buf = buf @ fld_string 1 (sg_key m)
     @ fld_uint 2 (sg_first_seq m)
     @ fld_uint 3 (sg_last_seq m)
     @ fld_uint 4 (sg_size m)
     @ fld_bool 5 (sg_sealed m)"
  by (simp add: append_log_segment_ref_def put_simps)

lemma size_log_segment_ref_exact: "size_log_segment_ref m = length (append_log_segment_ref m [])"
  by (simp add: append_log_segment_ref_fields size_log_segment_ref_def size_simps)

lemma log_segment_ref_dec_sg_sealed [wire_simps]:
  "\<not> sg_sealed m \<Longrightarrow> dec_loop log_segment_ref_field (fld_bool 5 b @ rest) m = dec_loop log_segment_ref_field rest (m\<lparr>sg_sealed := b\<rparr>)"
  by (cases b; cases m) (simp_all add: loop_bool wire_simps log_segment_ref_field_def)

lemma log_segment_ref_merge:
  "wf_log_segment_ref m \<Longrightarrow> dec_loop log_segment_ref_field (append_log_segment_ref m [] @ rest) log_segment_ref_zero = dec_loop log_segment_ref_field rest (m)"
  by (cases m) (simp add: append_log_segment_ref_fields wf_log_segment_ref_def log_segment_ref_zero_def wire_simps log_segment_ref_field_def)

interpretation log_segment_ref_msg: wire_message size_log_segment_ref append_log_segment_ref "\<lambda>_. True" log_segment_ref_field log_segment_ref_zero wf_log_segment_ref "\<lambda>x. x"
proof
  show "append_log_segment_ref m buf = buf @ append_log_segment_ref m []" for m buf
    by (simp add: append_log_segment_ref_fields)
  show "size_log_segment_ref m = length (append_log_segment_ref m [])" for m
    by (rule size_log_segment_ref_exact)
  show "log_segment_ref_field f wt d m = Inr (m', d') \<Longrightarrow> length d' \<le> length d" for f wt d m m' d'
    by (simp add: log_segment_ref_field_def on_progress split: if_splits)
  show "clean (log_segment_ref_field f wt d m)" for f wt d m
    by (simp add: log_segment_ref_field_def on_no_stuck no_stuck_simps)
  show "log_segment_ref_field f wt d m = Inr (m', d') \<Longrightarrow> log_segment_ref_field f wt (d @ e) m = Inr (m', d' @ e)" for f wt d m m' d' e
    by (auto simp: log_segment_ref_field_def on_extend split: if_splits)
  show "wf_log_segment_ref m \<Longrightarrow> size_log_segment_ref m < 2 ^ 64" for m
    by (simp add: wf_log_segment_ref_def)
  show "wf_log_segment_ref m \<Longrightarrow> dec_loop log_segment_ref_field (append_log_segment_ref m []) log_segment_ref_zero = Inr (m)" for m
    using log_segment_ref_merge [of m "[]"] by (simp add: wire_simps)
qed simp

lemmas log_segment_ref_put [put_simps] = log_segment_ref_msg.put_sub_fld log_segment_ref_msg.put_subs_fld
lemmas log_segment_ref_size [size_simps] = log_segment_ref_msg.length_fld_sub log_segment_ref_msg.length_fld_subs
lemmas log_segment_ref_wire [wire_simps] = unmarshal_log_segment_ref_def log_segment_ref_msg.on_msg_sub
lemmas log_segment_ref_total [no_stuck_simps] = unmarshal_log_segment_ref_def log_segment_ref_msg.no_stuck

section \<open>PackRef\<close>

record pack_ref =
  pk_checksum :: string
  pk_pack_size :: u64
  pk_idx_size :: u64
  pk_has_rev :: bool
  pk_has_bitmap :: bool
  pk_object_count :: u64
  pk_seq :: u64
  pk_tier :: u32
  pk_has_commit_graph :: bool
  pk_kind :: u32
  pk_derived_from :: string

definition pack_ref_zero :: pack_ref where
  "pack_ref_zero =
    \<lparr>pk_checksum = [], pk_pack_size = 0, pk_idx_size = 0, pk_has_rev = False,
     pk_has_bitmap = False, pk_object_count = 0, pk_seq = 0, pk_tier = 0,
     pk_has_commit_graph = False, pk_kind = 0, pk_derived_from = []\<rparr>"

definition size_pack_ref :: "pack_ref \<Rightarrow> nat" where
  "size_pack_ref m =
     sz_string 1 (pk_checksum m)
     + sz_uint 2 (pk_pack_size m)
     + sz_uint 3 (pk_idx_size m)
     + sz_bool 4 (pk_has_rev m)
     + sz_bool 5 (pk_has_bitmap m)
     + sz_uint 6 (pk_object_count m)
     + sz_uint 7 (pk_seq m)
     + sz_uint 8 (ucast (pk_tier m))
     + sz_bool 9 (pk_has_commit_graph m)
     + sz_uint 10 (ucast (pk_kind m))
     + sz_string 11 (pk_derived_from m)"

definition append_pack_ref :: "pack_ref \<Rightarrow> bytes \<Rightarrow> bytes" where
  "append_pack_ref m buf =
    (let buf = put_string 1 (pk_checksum m) buf;
         buf = put_uint 2 (pk_pack_size m) buf;
         buf = put_uint 3 (pk_idx_size m) buf;
         buf = put_bool 4 (pk_has_rev m) buf;
         buf = put_bool 5 (pk_has_bitmap m) buf;
         buf = put_uint 6 (pk_object_count m) buf;
         buf = put_uint 7 (pk_seq m) buf;
         buf = put_uint 8 (ucast (pk_tier m)) buf;
         buf = put_bool 9 (pk_has_commit_graph m) buf;
         buf = put_uint 10 (ucast (pk_kind m)) buf;
         buf = put_string 11 (pk_derived_from m) buf
     in buf)"

definition marshal_pack_ref :: "pack_ref \<Rightarrow> bytes" where
  "marshal_pack_ref m = append_pack_ref m []"

definition pack_ref_field :: "pack_ref handler" where
  "pack_ref_field f wt d m =
    (if f = 1 \<and> wt = 2 then on_str d (\<lambda>s. m\<lparr>pk_checksum := s\<rparr>)
     else if f = 2 \<and> wt = 0 then on_uint d (\<lambda>v. m\<lparr>pk_pack_size := v\<rparr>)
     else if f = 3 \<and> wt = 0 then on_uint d (\<lambda>v. m\<lparr>pk_idx_size := v\<rparr>)
     else if f = 4 \<and> wt = 0 then on_uint d (\<lambda>v. m\<lparr>pk_has_rev := (v \<noteq> 0)\<rparr>)
     else if f = 5 \<and> wt = 0 then on_uint d (\<lambda>v. m\<lparr>pk_has_bitmap := (v \<noteq> 0)\<rparr>)
     else if f = 6 \<and> wt = 0 then on_uint d (\<lambda>v. m\<lparr>pk_object_count := v\<rparr>)
     else if f = 7 \<and> wt = 0 then on_uint d (\<lambda>v. m\<lparr>pk_seq := v\<rparr>)
     else if f = 8 \<and> wt = 0 then on_uint d (\<lambda>v. m\<lparr>pk_tier := ucast v\<rparr>)
     else if f = 9 \<and> wt = 0 then on_uint d (\<lambda>v. m\<lparr>pk_has_commit_graph := (v \<noteq> 0)\<rparr>)
     else if f = 10 \<and> wt = 0 then on_uint d (\<lambda>v. m\<lparr>pk_kind := ucast v\<rparr>)
     else if f = 11 \<and> wt = 2 then on_str d (\<lambda>s. m\<lparr>pk_derived_from := s\<rparr>)
     else on_skip wt d m)"

definition unmarshal_pack_ref :: "bytes \<Rightarrow> pack_ref \<Rightarrow> wire_error + pack_ref" where
  "unmarshal_pack_ref b m = dec_loop pack_ref_field b m"

definition decode_pack_ref :: "bytes \<Rightarrow> wire_error + pack_ref" where
  "decode_pack_ref b = unmarshal_pack_ref b pack_ref_zero"

definition wf_pack_ref :: "pack_ref \<Rightarrow> bool" where
  "wf_pack_ref m \<longleftrightarrow>
     size_pack_ref m < 2 ^ 64
     \<and> wf_str (pk_checksum m)
     \<and> wf_str (pk_derived_from m)"

lemma append_pack_ref_fields:
  "append_pack_ref m buf = buf @ fld_string 1 (pk_checksum m)
     @ fld_uint 2 (pk_pack_size m)
     @ fld_uint 3 (pk_idx_size m)
     @ fld_bool 4 (pk_has_rev m)
     @ fld_bool 5 (pk_has_bitmap m)
     @ fld_uint 6 (pk_object_count m)
     @ fld_uint 7 (pk_seq m)
     @ fld_uint 8 (ucast (pk_tier m))
     @ fld_bool 9 (pk_has_commit_graph m)
     @ fld_uint 10 (ucast (pk_kind m))
     @ fld_string 11 (pk_derived_from m)"
  by (simp add: append_pack_ref_def put_simps)

lemma size_pack_ref_exact: "size_pack_ref m = length (append_pack_ref m [])"
  by (simp add: append_pack_ref_fields size_pack_ref_def size_simps)

lemma pack_ref_dec_pk_has_rev [wire_simps]:
  "\<not> pk_has_rev m \<Longrightarrow> dec_loop pack_ref_field (fld_bool 4 b @ rest) m = dec_loop pack_ref_field rest (m\<lparr>pk_has_rev := b\<rparr>)"
  by (cases b; cases m) (simp_all add: loop_bool wire_simps pack_ref_field_def)

lemma pack_ref_dec_pk_has_bitmap [wire_simps]:
  "\<not> pk_has_bitmap m \<Longrightarrow> dec_loop pack_ref_field (fld_bool 5 b @ rest) m = dec_loop pack_ref_field rest (m\<lparr>pk_has_bitmap := b\<rparr>)"
  by (cases b; cases m) (simp_all add: loop_bool wire_simps pack_ref_field_def)

lemma pack_ref_dec_pk_has_commit_graph [wire_simps]:
  "\<not> pk_has_commit_graph m \<Longrightarrow> dec_loop pack_ref_field (fld_bool 9 b @ rest) m = dec_loop pack_ref_field rest (m\<lparr>pk_has_commit_graph := b\<rparr>)"
  by (cases b; cases m) (simp_all add: loop_bool wire_simps pack_ref_field_def)

lemma pack_ref_merge:
  "wf_pack_ref m \<Longrightarrow> dec_loop pack_ref_field (append_pack_ref m [] @ rest) pack_ref_zero = dec_loop pack_ref_field rest (m)"
  by (cases m) (simp add: append_pack_ref_fields wf_pack_ref_def pack_ref_zero_def wire_simps pack_ref_field_def)

interpretation pack_ref_msg: wire_message size_pack_ref append_pack_ref "\<lambda>_. True" pack_ref_field pack_ref_zero wf_pack_ref "\<lambda>x. x"
proof
  show "append_pack_ref m buf = buf @ append_pack_ref m []" for m buf
    by (simp add: append_pack_ref_fields)
  show "size_pack_ref m = length (append_pack_ref m [])" for m
    by (rule size_pack_ref_exact)
  show "pack_ref_field f wt d m = Inr (m', d') \<Longrightarrow> length d' \<le> length d" for f wt d m m' d'
    by (simp add: pack_ref_field_def on_progress split: if_splits)
  show "clean (pack_ref_field f wt d m)" for f wt d m
    by (simp add: pack_ref_field_def on_no_stuck no_stuck_simps)
  show "pack_ref_field f wt d m = Inr (m', d') \<Longrightarrow> pack_ref_field f wt (d @ e) m = Inr (m', d' @ e)" for f wt d m m' d' e
    by (auto simp: pack_ref_field_def on_extend split: if_splits)
  show "wf_pack_ref m \<Longrightarrow> size_pack_ref m < 2 ^ 64" for m
    by (simp add: wf_pack_ref_def)
  show "wf_pack_ref m \<Longrightarrow> dec_loop pack_ref_field (append_pack_ref m []) pack_ref_zero = Inr (m)" for m
    using pack_ref_merge [of m "[]"] by (simp add: wire_simps)
qed simp

lemmas pack_ref_put [put_simps] = pack_ref_msg.put_sub_fld pack_ref_msg.put_subs_fld
lemmas pack_ref_size [size_simps] = pack_ref_msg.length_fld_sub pack_ref_msg.length_fld_subs
lemmas pack_ref_wire [wire_simps] = unmarshal_pack_ref_def pack_ref_msg.on_msg_sub
lemmas pack_ref_total [no_stuck_simps] = unmarshal_pack_ref_def pack_ref_msg.no_stuck

section \<open>CheckpointRef\<close>

record checkpoint_ref =
  cr_seq :: u64
  cr_key :: string
  cr_created_at :: "timestamp option"
  cr_first_state_at :: "timestamp option"
  cr_as_of :: "timestamp option"

definition checkpoint_ref_zero :: checkpoint_ref where
  "checkpoint_ref_zero =
    \<lparr>cr_seq = 0, cr_key = [], cr_created_at = None, cr_first_state_at = None,
     cr_as_of = None\<rparr>"

definition size_checkpoint_ref :: "checkpoint_ref \<Rightarrow> nat" where
  "size_checkpoint_ref m =
     sz_uint 1 (cr_seq m)
     + sz_string 2 (cr_key m)
     + sz_time (cr_created_at m)
     + sz_time (cr_first_state_at m)
     + sz_time (cr_as_of m)"

definition append_checkpoint_ref :: "checkpoint_ref \<Rightarrow> bytes \<Rightarrow> bytes" where
  "append_checkpoint_ref m buf =
    (let buf = put_uint 1 (cr_seq m) buf;
         buf = put_string 2 (cr_key m) buf;
         buf = put_time 3 (cr_created_at m) buf;
         buf = put_time 4 (cr_first_state_at m) buf;
         buf = put_time 5 (cr_as_of m) buf
     in buf)"

definition marshal_checkpoint_ref :: "checkpoint_ref \<Rightarrow> bytes" where
  "marshal_checkpoint_ref m = append_checkpoint_ref m []"

definition checkpoint_ref_field :: "checkpoint_ref handler" where
  "checkpoint_ref_field f wt d m =
    (if f = 1 \<and> wt = 0 then on_uint d (\<lambda>v. m\<lparr>cr_seq := v\<rparr>)
     else if f = 2 \<and> wt = 2 then on_str d (\<lambda>s. m\<lparr>cr_key := s\<rparr>)
     else if f = 3 \<and> wt = 2 then on_msg d (\<lambda>b. unmarshal_timestamp b (or_new timestamp_zero (cr_created_at m))) 
       (\<lambda>e. m\<lparr>cr_created_at := Some e\<rparr>)
     else if f = 4 \<and> wt = 2 then on_msg d (\<lambda>b. unmarshal_timestamp b (or_new timestamp_zero (cr_first_state_at m))) 
       (\<lambda>e. m\<lparr>cr_first_state_at := Some e\<rparr>)
     else if f = 5 \<and> wt = 2 then on_msg d (\<lambda>b. unmarshal_timestamp b (or_new timestamp_zero (cr_as_of m))) 
       (\<lambda>e. m\<lparr>cr_as_of := Some e\<rparr>)
     else on_skip wt d m)"

definition unmarshal_checkpoint_ref :: "bytes \<Rightarrow> checkpoint_ref \<Rightarrow> wire_error + checkpoint_ref" where
  "unmarshal_checkpoint_ref b m = dec_loop checkpoint_ref_field b m"

definition decode_checkpoint_ref :: "bytes \<Rightarrow> wire_error + checkpoint_ref" where
  "decode_checkpoint_ref b = unmarshal_checkpoint_ref b checkpoint_ref_zero"

definition canon_checkpoint_ref :: "checkpoint_ref \<Rightarrow> checkpoint_ref" where
  "canon_checkpoint_ref m = m\<lparr>cr_created_at := canon_time (cr_created_at m),
     cr_first_state_at := canon_time (cr_first_state_at m),
     cr_as_of := canon_time (cr_as_of m)\<rparr>"

definition wf_checkpoint_ref :: "checkpoint_ref \<Rightarrow> bool" where
  "wf_checkpoint_ref m \<longleftrightarrow>
     size_checkpoint_ref m < 2 ^ 64
     \<and> wf_str (cr_key m)"

lemma append_checkpoint_ref_fields:
  "append_checkpoint_ref m buf = buf @ fld_uint 1 (cr_seq m)
     @ fld_string 2 (cr_key m)
     @ fld_sub 3 (\<lambda>t. append_timestamp t []) (canon_time (cr_created_at m))
     @ fld_sub 4 (\<lambda>t. append_timestamp t []) (canon_time (cr_first_state_at m))
     @ fld_sub 5 (\<lambda>t. append_timestamp t []) (canon_time (cr_as_of m))"
  by (simp add: append_checkpoint_ref_def put_simps)

lemma size_checkpoint_ref_exact: "size_checkpoint_ref m = length (append_checkpoint_ref m [])"
  by (simp add: append_checkpoint_ref_fields size_checkpoint_ref_def size_simps)

lemma checkpoint_ref_dec_cr_created_at [wire_simps]:
  assumes prems: "cr_created_at m = None"
  shows "dec_loop checkpoint_ref_field (fld_sub 3 (\<lambda>t. append_timestamp t []) mo @ rest) m = dec_loop checkpoint_ref_field rest (m\<lparr>cr_created_at := mo\<rparr>)"
  proof (cases mo)
  case (Some t)
  then show ?thesis
    using prems loop_msg [of 3 checkpoint_ref_field "append_timestamp t []" rest m "m\<lparr>cr_created_at := mo\<rparr>"]
    by (simp add: fld_sub_def checkpoint_ref_field_def wire_simps)
qed (use prems in \<open>cases m; simp add: fld_sub_def\<close>)

lemma checkpoint_ref_dec_cr_first_state_at [wire_simps]:
  assumes prems: "cr_first_state_at m = None"
  shows "dec_loop checkpoint_ref_field (fld_sub 4 (\<lambda>t. append_timestamp t []) mo @ rest) m = dec_loop checkpoint_ref_field rest (m\<lparr>cr_first_state_at := mo\<rparr>)"
  proof (cases mo)
  case (Some t)
  then show ?thesis
    using prems loop_msg [of 4 checkpoint_ref_field "append_timestamp t []" rest m "m\<lparr>cr_first_state_at := mo\<rparr>"]
    by (simp add: fld_sub_def checkpoint_ref_field_def wire_simps)
qed (use prems in \<open>cases m; simp add: fld_sub_def\<close>)

lemma checkpoint_ref_dec_cr_as_of [wire_simps]:
  assumes prems: "cr_as_of m = None"
  shows "dec_loop checkpoint_ref_field (fld_sub 5 (\<lambda>t. append_timestamp t []) mo @ rest) m = dec_loop checkpoint_ref_field rest (m\<lparr>cr_as_of := mo\<rparr>)"
  proof (cases mo)
  case (Some t)
  then show ?thesis
    using prems loop_msg [of 5 checkpoint_ref_field "append_timestamp t []" rest m "m\<lparr>cr_as_of := mo\<rparr>"]
    by (simp add: fld_sub_def checkpoint_ref_field_def wire_simps)
qed (use prems in \<open>cases m; simp add: fld_sub_def\<close>)

lemma checkpoint_ref_merge:
  "wf_checkpoint_ref m \<Longrightarrow> dec_loop checkpoint_ref_field (append_checkpoint_ref m [] @ rest) checkpoint_ref_zero = dec_loop checkpoint_ref_field rest (canon_checkpoint_ref m)"
  by (cases m) (simp add: append_checkpoint_ref_fields wf_checkpoint_ref_def checkpoint_ref_zero_def canon_checkpoint_ref_def wire_simps checkpoint_ref_field_def)

interpretation checkpoint_ref_msg: wire_message size_checkpoint_ref append_checkpoint_ref "\<lambda>_. True" checkpoint_ref_field checkpoint_ref_zero wf_checkpoint_ref canon_checkpoint_ref
proof
  show "append_checkpoint_ref m buf = buf @ append_checkpoint_ref m []" for m buf
    by (simp add: append_checkpoint_ref_fields)
  show "size_checkpoint_ref m = length (append_checkpoint_ref m [])" for m
    by (rule size_checkpoint_ref_exact)
  show "checkpoint_ref_field f wt d m = Inr (m', d') \<Longrightarrow> length d' \<le> length d" for f wt d m m' d'
    by (simp add: checkpoint_ref_field_def on_progress split: if_splits)
  show "clean (checkpoint_ref_field f wt d m)" for f wt d m
    by (simp add: checkpoint_ref_field_def on_no_stuck no_stuck_simps)
  show "checkpoint_ref_field f wt d m = Inr (m', d') \<Longrightarrow> checkpoint_ref_field f wt (d @ e) m = Inr (m', d' @ e)" for f wt d m m' d' e
    by (auto simp: checkpoint_ref_field_def on_extend split: if_splits)
  show "wf_checkpoint_ref m \<Longrightarrow> size_checkpoint_ref m < 2 ^ 64" for m
    by (simp add: wf_checkpoint_ref_def)
  show "wf_checkpoint_ref m \<Longrightarrow> dec_loop checkpoint_ref_field (append_checkpoint_ref m []) checkpoint_ref_zero = Inr (canon_checkpoint_ref m)" for m
    using checkpoint_ref_merge [of m "[]"] by (simp add: wire_simps)
qed simp

lemmas checkpoint_ref_put [put_simps] = checkpoint_ref_msg.put_sub_fld checkpoint_ref_msg.put_subs_fld
lemmas checkpoint_ref_size [size_simps] = checkpoint_ref_msg.length_fld_sub checkpoint_ref_msg.length_fld_subs
lemmas checkpoint_ref_wire [wire_simps] = unmarshal_checkpoint_ref_def checkpoint_ref_msg.on_msg_sub
lemmas checkpoint_ref_total [no_stuck_simps] = unmarshal_checkpoint_ref_def checkpoint_ref_msg.no_stuck

section \<open>Manifest\<close>

record manifest =
  mf_format_version :: u32
  mf_repo :: string
  mf_object_format :: string
  mf_head_seq :: u64
  mf_min_seq :: u64
  mf_checkpoint :: "checkpoint_ref option"
  mf_log_segments :: "log_segment_ref list"
  mf_packs :: "pack_ref list"
  mf_updated_at :: "timestamp option"
  mf_writer :: string
  mf_revision :: u64
  mf_settings :: "repo_settings option"

definition manifest_zero :: manifest where
  "manifest_zero =
    \<lparr>mf_format_version = 0, mf_repo = [], mf_object_format = [], mf_head_seq = 0,
     mf_min_seq = 0, mf_checkpoint = None, mf_log_segments = [], mf_packs = [],
     mf_updated_at = None, mf_writer = [], mf_revision = 0, mf_settings = None\<rparr>"

definition size_manifest :: "manifest \<Rightarrow> nat" where
  "size_manifest m =
     sz_uint 1 (ucast (mf_format_version m))
     + sz_string 2 (mf_repo m)
     + sz_string 3 (mf_object_format m)
     + sz_uint 4 (mf_head_seq m)
     + sz_uint 5 (mf_min_seq m)
     + sz_sub size_checkpoint_ref (mf_checkpoint m)
     + sz_subs size_log_segment_ref (mf_log_segments m)
     + sz_subs size_pack_ref (mf_packs m)
     + sz_time (mf_updated_at m)
     + sz_string 10 (mf_writer m)
     + sz_uint 11 (mf_revision m)
     + sz_sub size_repo_settings (mf_settings m)"

definition append_manifest :: "manifest \<Rightarrow> bytes \<Rightarrow> bytes" where
  "append_manifest m buf =
    (let buf = put_uint 1 (ucast (mf_format_version m)) buf;
         buf = put_string 2 (mf_repo m) buf;
         buf = put_string 3 (mf_object_format m) buf;
         buf = put_uint 4 (mf_head_seq m) buf;
         buf = put_uint 5 (mf_min_seq m) buf;
         buf = put_sub 6 size_checkpoint_ref append_checkpoint_ref (mf_checkpoint m) buf;
         buf = put_subs 7 size_log_segment_ref append_log_segment_ref (mf_log_segments m) buf;
         buf = put_subs 8 size_pack_ref append_pack_ref (mf_packs m) buf;
         buf = put_time 9 (mf_updated_at m) buf;
         buf = put_string 10 (mf_writer m) buf;
         buf = put_uint 11 (mf_revision m) buf;
         buf = put_sub 12 size_repo_settings append_repo_settings (mf_settings m) buf
     in buf)"

definition marshal_manifest :: "manifest \<Rightarrow> bytes" where
  "marshal_manifest m = append_manifest m []"

definition manifest_field :: "manifest handler" where
  "manifest_field f wt d m =
    (if f = 1 \<and> wt = 0 then on_uint d (\<lambda>v. m\<lparr>mf_format_version := ucast v\<rparr>)
     else if f = 2 \<and> wt = 2 then on_str d (\<lambda>s. m\<lparr>mf_repo := s\<rparr>)
     else if f = 3 \<and> wt = 2 then on_str d (\<lambda>s. m\<lparr>mf_object_format := s\<rparr>)
     else if f = 4 \<and> wt = 0 then on_uint d (\<lambda>v. m\<lparr>mf_head_seq := v\<rparr>)
     else if f = 5 \<and> wt = 0 then on_uint d (\<lambda>v. m\<lparr>mf_min_seq := v\<rparr>)
     else if f = 6 \<and> wt = 2 then on_msg d (\<lambda>b. unmarshal_checkpoint_ref b (or_new checkpoint_ref_zero (mf_checkpoint m))) 
       (\<lambda>e. m\<lparr>mf_checkpoint := Some e\<rparr>)
     else if f = 7 \<and> wt = 2 then on_msg d (\<lambda>b. unmarshal_log_segment_ref b log_segment_ref_zero) 
       (\<lambda>e. m\<lparr>mf_log_segments := mf_log_segments m @ [e]\<rparr>)
     else if f = 8 \<and> wt = 2 then on_msg d (\<lambda>b. unmarshal_pack_ref b pack_ref_zero) 
       (\<lambda>e. m\<lparr>mf_packs := mf_packs m @ [e]\<rparr>)
     else if f = 9 \<and> wt = 2 then on_msg d (\<lambda>b. unmarshal_timestamp b (or_new timestamp_zero (mf_updated_at m))) 
       (\<lambda>e. m\<lparr>mf_updated_at := Some e\<rparr>)
     else if f = 10 \<and> wt = 2 then on_str d (\<lambda>s. m\<lparr>mf_writer := s\<rparr>)
     else if f = 11 \<and> wt = 0 then on_uint d (\<lambda>v. m\<lparr>mf_revision := v\<rparr>)
     else if f = 12 \<and> wt = 2 then on_msg d (\<lambda>b. unmarshal_repo_settings b (or_new repo_settings_zero (mf_settings m))) 
       (\<lambda>e. m\<lparr>mf_settings := Some e\<rparr>)
     else on_skip wt d m)"

definition unmarshal_manifest :: "bytes \<Rightarrow> manifest \<Rightarrow> wire_error + manifest" where
  "unmarshal_manifest b m = dec_loop manifest_field b m"

definition decode_manifest :: "bytes \<Rightarrow> wire_error + manifest" where
  "decode_manifest b = unmarshal_manifest b manifest_zero"

definition canon_manifest :: "manifest \<Rightarrow> manifest" where
  "canon_manifest m = m\<lparr>mf_checkpoint := map_option canon_checkpoint_ref (mf_checkpoint m),
     mf_updated_at := canon_time (mf_updated_at m),
     mf_settings := map_option canon_repo_settings (mf_settings m)\<rparr>"

definition wf_manifest :: "manifest \<Rightarrow> bool" where
  "wf_manifest m \<longleftrightarrow>
     size_manifest m < 2 ^ 64
     \<and> wf_str (mf_repo m)
     \<and> wf_str (mf_object_format m)
     \<and> pred_option wf_checkpoint_ref (mf_checkpoint m)
     \<and> list_all wf_log_segment_ref (mf_log_segments m)
     \<and> list_all wf_pack_ref (mf_packs m)
     \<and> wf_str (mf_writer m)
     \<and> pred_option wf_repo_settings (mf_settings m)"

lemma append_manifest_fields:
  "append_manifest m buf = buf @ fld_uint 1 (ucast (mf_format_version m))
     @ fld_string 2 (mf_repo m)
     @ fld_string 3 (mf_object_format m)
     @ fld_uint 4 (mf_head_seq m)
     @ fld_uint 5 (mf_min_seq m)
     @ fld_sub 6 (\<lambda>x. append_checkpoint_ref x []) (mf_checkpoint m)
     @ fld_subs 7 (\<lambda>x. append_log_segment_ref x []) (mf_log_segments m)
     @ fld_subs 8 (\<lambda>x. append_pack_ref x []) (mf_packs m)
     @ fld_sub 9 (\<lambda>t. append_timestamp t []) (canon_time (mf_updated_at m))
     @ fld_string 10 (mf_writer m)
     @ fld_uint 11 (mf_revision m)
     @ fld_sub 12 (\<lambda>x. append_repo_settings x []) (mf_settings m)"
  by (simp add: append_manifest_def put_simps)

lemma size_manifest_exact: "size_manifest m = length (append_manifest m [])"
  by (simp add: append_manifest_fields size_manifest_def size_simps)

lemma manifest_dec_mf_checkpoint [wire_simps]:
  assumes prems: "mf_checkpoint m = None" "pred_option wf_checkpoint_ref mo"
  shows "dec_loop manifest_field (fld_sub 6 (\<lambda>x. append_checkpoint_ref x []) mo @ rest) m
     = dec_loop manifest_field rest (m\<lparr>mf_checkpoint := map_option canon_checkpoint_ref mo\<rparr>)"
  proof (cases mo)
  case (Some x)
  then show ?thesis
    using prems loop_msg [of 6 manifest_field "append_checkpoint_ref x []" rest m "m\<lparr>mf_checkpoint := map_option canon_checkpoint_ref mo\<rparr>"]
    by (simp add: fld_sub_def manifest_field_def wire_simps)
qed (use prems in \<open>cases m; simp add: fld_sub_def\<close>)

lemma manifest_dec_mf_log_segments [wire_simps]:
  "list_all wf_log_segment_ref xs \<Longrightarrow>
   dec_loop manifest_field (fld_subs 7 (\<lambda>x. append_log_segment_ref x []) xs @ rest) m
     = dec_loop manifest_field rest (m\<lparr>mf_log_segments := mf_log_segments m @ xs\<rparr>)"
  using loop_subs [of 7 xs manifest_field "\<lambda>x. append_log_segment_ref x []" "\<lambda>l. m\<lparr>mf_log_segments := l\<rparr>" "(\<lambda>x. x)" rest "mf_log_segments m"]
  by (cases m) (simp add: manifest_field_def wire_simps list_all_iff)

lemma manifest_dec_mf_packs [wire_simps]:
  "list_all wf_pack_ref xs \<Longrightarrow>
   dec_loop manifest_field (fld_subs 8 (\<lambda>x. append_pack_ref x []) xs @ rest) m
     = dec_loop manifest_field rest (m\<lparr>mf_packs := mf_packs m @ xs\<rparr>)"
  using loop_subs [of 8 xs manifest_field "\<lambda>x. append_pack_ref x []" "\<lambda>l. m\<lparr>mf_packs := l\<rparr>" "(\<lambda>x. x)" rest "mf_packs m"]
  by (cases m) (simp add: manifest_field_def wire_simps list_all_iff)

lemma manifest_dec_mf_updated_at [wire_simps]:
  assumes prems: "mf_updated_at m = None"
  shows "dec_loop manifest_field (fld_sub 9 (\<lambda>t. append_timestamp t []) mo @ rest) m = dec_loop manifest_field rest (m\<lparr>mf_updated_at := mo\<rparr>)"
  proof (cases mo)
  case (Some t)
  then show ?thesis
    using prems loop_msg [of 9 manifest_field "append_timestamp t []" rest m "m\<lparr>mf_updated_at := mo\<rparr>"]
    by (simp add: fld_sub_def manifest_field_def wire_simps)
qed (use prems in \<open>cases m; simp add: fld_sub_def\<close>)

lemma manifest_dec_mf_settings [wire_simps]:
  assumes prems: "mf_settings m = None" "pred_option wf_repo_settings mo"
  shows "dec_loop manifest_field (fld_sub 12 (\<lambda>x. append_repo_settings x []) mo @ rest) m
     = dec_loop manifest_field rest (m\<lparr>mf_settings := map_option canon_repo_settings mo\<rparr>)"
  proof (cases mo)
  case (Some x)
  then show ?thesis
    using prems loop_msg [of 12 manifest_field "append_repo_settings x []" rest m "m\<lparr>mf_settings := map_option canon_repo_settings mo\<rparr>"]
    by (simp add: fld_sub_def manifest_field_def wire_simps)
qed (use prems in \<open>cases m; simp add: fld_sub_def\<close>)

lemma manifest_merge:
  "wf_manifest m \<Longrightarrow> dec_loop manifest_field (append_manifest m [] @ rest) manifest_zero = dec_loop manifest_field rest (canon_manifest m)"
  by (cases m) (simp add: append_manifest_fields wf_manifest_def manifest_zero_def canon_manifest_def wire_simps manifest_field_def)

interpretation manifest_msg: wire_message size_manifest append_manifest "\<lambda>_. True" manifest_field manifest_zero wf_manifest canon_manifest
proof
  show "append_manifest m buf = buf @ append_manifest m []" for m buf
    by (simp add: append_manifest_fields)
  show "size_manifest m = length (append_manifest m [])" for m
    by (rule size_manifest_exact)
  show "manifest_field f wt d m = Inr (m', d') \<Longrightarrow> length d' \<le> length d" for f wt d m m' d'
    by (simp add: manifest_field_def on_progress split: if_splits)
  show "clean (manifest_field f wt d m)" for f wt d m
    by (simp add: manifest_field_def on_no_stuck no_stuck_simps)
  show "manifest_field f wt d m = Inr (m', d') \<Longrightarrow> manifest_field f wt (d @ e) m = Inr (m', d' @ e)" for f wt d m m' d' e
    by (auto simp: manifest_field_def on_extend split: if_splits)
  show "wf_manifest m \<Longrightarrow> size_manifest m < 2 ^ 64" for m
    by (simp add: wf_manifest_def)
  show "wf_manifest m \<Longrightarrow> dec_loop manifest_field (append_manifest m []) manifest_zero = Inr (canon_manifest m)" for m
    using manifest_merge [of m "[]"] by (simp add: wire_simps)
qed simp

lemmas manifest_put [put_simps] = manifest_msg.put_sub_fld manifest_msg.put_subs_fld
lemmas manifest_size [size_simps] = manifest_msg.length_fld_sub manifest_msg.length_fld_subs
lemmas manifest_wire [wire_simps] = unmarshal_manifest_def manifest_msg.on_msg_sub
lemmas manifest_total [no_stuck_simps] = unmarshal_manifest_def manifest_msg.no_stuck

end
