(* ===== verification/Log_Codec.thy ===== *)
theory Log_Codec
  imports Manifest_Codec
begin

text \<open>
  The messages of the log and of checkpoints (\<^verbatim>\<open>internal/store/proto/types.go\<close>, \<^verbatim>\<open>codec.go\<close>): ref
  updates and transactions, log entries with their metadata map, ref snapshots, checkpoints and
  leases, in the same layout as \<^verbatim>\<open>Manifest_Codec\<close>.
\<close>


text \<open>The enums \<^verbatim>\<open>PackKind\<close> and \<^verbatim>\<open>EntryKind\<close> are 32-bit integers with named values.\<close>

abbreviation pack_kind_objects :: u32 where "pack_kind_objects \<equiv> 0"
abbreviation pack_kind_history :: u32 where "pack_kind_history \<equiv> 1"

abbreviation entry_kind_unspecified :: u32 where "entry_kind_unspecified \<equiv> 0"
abbreviation entry_kind_push :: u32 where "entry_kind_push \<equiv> 1"
abbreviation entry_kind_compact :: u32 where "entry_kind_compact \<equiv> 2"
abbreviation entry_kind_ref_update :: u32 where "entry_kind_ref_update \<equiv> 3"
abbreviation entry_kind_checkpoint :: u32 where "entry_kind_checkpoint \<equiv> 4"
abbreviation entry_kind_settings :: u32 where "entry_kind_settings \<equiv> 5"

definition entry_kind_string :: "u32 \<Rightarrow> string" where
  "entry_kind_string k =
     (if k = entry_kind_push then ''PUSH''
      else if k = entry_kind_compact then ''COMPACT''
      else if k = entry_kind_ref_update then ''REF_UPDATE''
      else if k = entry_kind_checkpoint then ''CHECKPOINT''
      else if k = entry_kind_settings then ''SETTINGS''
      else ''UNSPECIFIED'')"

section \<open>RefUpdate\<close>

record ref_update =
  ru_name :: string
  ru_old_oid :: string
  ru_new_oid :: string
  ru_new_symbolic_target :: string
  ru_new_peeled :: string

definition ref_update_zero :: ref_update where
  "ref_update_zero =
    \<lparr>ru_name = [], ru_old_oid = [], ru_new_oid = [], ru_new_symbolic_target = [],
     ru_new_peeled = []\<rparr>"

definition size_ref_update :: "ref_update \<Rightarrow> nat" where
  "size_ref_update m =
     sz_string 1 (ru_name m)
     + sz_string 2 (ru_old_oid m)
     + sz_string 3 (ru_new_oid m)
     + sz_string 4 (ru_new_symbolic_target m)
     + sz_string 5 (ru_new_peeled m)"

definition append_ref_update :: "ref_update \<Rightarrow> bytes \<Rightarrow> bytes" where
  "append_ref_update m buf =
    (let buf = put_string 1 (ru_name m) buf;
         buf = put_string 2 (ru_old_oid m) buf;
         buf = put_string 3 (ru_new_oid m) buf;
         buf = put_string 4 (ru_new_symbolic_target m) buf;
         buf = put_string 5 (ru_new_peeled m) buf
     in buf)"

definition marshal_ref_update :: "ref_update \<Rightarrow> bytes" where
  "marshal_ref_update m = append_ref_update m []"

definition ref_update_field :: "ref_update handler" where
  "ref_update_field f wt d m =
    (if f = 1 \<and> wt = 2 then on_str d (\<lambda>s. m\<lparr>ru_name := s\<rparr>)
     else if f = 2 \<and> wt = 2 then on_str d (\<lambda>s. m\<lparr>ru_old_oid := s\<rparr>)
     else if f = 3 \<and> wt = 2 then on_str d (\<lambda>s. m\<lparr>ru_new_oid := s\<rparr>)
     else if f = 4 \<and> wt = 2 then on_str d (\<lambda>s. m\<lparr>ru_new_symbolic_target := s\<rparr>)
     else if f = 5 \<and> wt = 2 then on_str d (\<lambda>s. m\<lparr>ru_new_peeled := s\<rparr>)
     else on_skip wt d m)"

definition unmarshal_ref_update :: "bytes \<Rightarrow> ref_update \<Rightarrow> wire_error + ref_update" where
  "unmarshal_ref_update b m = dec_loop ref_update_field b m"

definition decode_ref_update :: "bytes \<Rightarrow> wire_error + ref_update" where
  "decode_ref_update b = unmarshal_ref_update b ref_update_zero"

definition wf_ref_update :: "ref_update \<Rightarrow> bool" where
  "wf_ref_update m \<longleftrightarrow>
     size_ref_update m < 2 ^ 64
     \<and> wf_str (ru_name m)
     \<and> wf_str (ru_old_oid m)
     \<and> wf_str (ru_new_oid m)
     \<and> wf_str (ru_new_symbolic_target m)
     \<and> wf_str (ru_new_peeled m)"

lemma append_ref_update_fields:
  "append_ref_update m buf = buf @ fld_string 1 (ru_name m)
     @ fld_string 2 (ru_old_oid m)
     @ fld_string 3 (ru_new_oid m)
     @ fld_string 4 (ru_new_symbolic_target m)
     @ fld_string 5 (ru_new_peeled m)"
  by (simp add: append_ref_update_def put_simps)

lemma size_ref_update_exact: "size_ref_update m = length (append_ref_update m [])"
  by (simp add: append_ref_update_fields size_ref_update_def size_simps)

lemma ref_update_merge:
  "wf_ref_update m \<Longrightarrow> dec_loop ref_update_field (append_ref_update m [] @ rest) ref_update_zero = dec_loop ref_update_field rest (m)"
  by (cases m) (simp add: append_ref_update_fields wf_ref_update_def ref_update_zero_def wire_simps ref_update_field_def)

interpretation ref_update_msg: wire_message size_ref_update append_ref_update "\<lambda>_. True" ref_update_field ref_update_zero wf_ref_update "\<lambda>x. x"
proof
  show "append_ref_update m buf = buf @ append_ref_update m []" for m buf
    by (simp add: append_ref_update_fields)
  show "size_ref_update m = length (append_ref_update m [])" for m
    by (rule size_ref_update_exact)
  show "ref_update_field f wt d m = Inr (m', d') \<Longrightarrow> length d' \<le> length d" for f wt d m m' d'
    by (simp add: ref_update_field_def on_progress split: if_splits)
  show "clean (ref_update_field f wt d m)" for f wt d m
    by (simp add: ref_update_field_def on_no_stuck no_stuck_simps)
  show "ref_update_field f wt d m = Inr (m', d') \<Longrightarrow> ref_update_field f wt (d @ e) m = Inr (m', d' @ e)" for f wt d m m' d' e
    by (auto simp: ref_update_field_def on_extend split: if_splits)
  show "wf_ref_update m \<Longrightarrow> size_ref_update m < 2 ^ 64" for m
    by (simp add: wf_ref_update_def)
  show "wf_ref_update m \<Longrightarrow> dec_loop ref_update_field (append_ref_update m []) ref_update_zero = Inr (m)" for m
    using ref_update_merge [of m "[]"] by (simp add: wire_simps)
qed simp

lemmas ref_update_put [put_simps] = ref_update_msg.put_sub_fld ref_update_msg.put_subs_fld
lemmas ref_update_size [size_simps] = ref_update_msg.length_fld_sub ref_update_msg.length_fld_subs
lemmas ref_update_wire [wire_simps] = unmarshal_ref_update_def ref_update_msg.on_msg_sub
lemmas ref_update_total [no_stuck_simps] = unmarshal_ref_update_def ref_update_msg.no_stuck

section \<open>RefTransaction\<close>

record ref_transaction =
  tx_updates :: "ref_update list"
  tx_push_options :: "string list"
  tx_atomic :: bool

definition ref_transaction_zero :: ref_transaction where
  "ref_transaction_zero =
    \<lparr>tx_updates = [], tx_push_options = [], tx_atomic = False\<rparr>"

definition size_ref_transaction :: "ref_transaction \<Rightarrow> nat" where
  "size_ref_transaction m =
     sz_subs size_ref_update (tx_updates m)
     + sz_strings 2 (tx_push_options m)
     + sz_bool 3 (tx_atomic m)"

definition append_ref_transaction :: "ref_transaction \<Rightarrow> bytes \<Rightarrow> bytes" where
  "append_ref_transaction m buf =
    (let buf = put_subs 1 size_ref_update append_ref_update (tx_updates m) buf;
         buf = put_strings 2 (tx_push_options m) buf;
         buf = put_bool 3 (tx_atomic m) buf
     in buf)"

definition marshal_ref_transaction :: "ref_transaction \<Rightarrow> bytes" where
  "marshal_ref_transaction m = append_ref_transaction m []"

definition ref_transaction_field :: "ref_transaction handler" where
  "ref_transaction_field f wt d m =
    (if f = 1 \<and> wt = 2 then on_msg d (\<lambda>b. unmarshal_ref_update b ref_update_zero) 
       (\<lambda>e. m\<lparr>tx_updates := tx_updates m @ [e]\<rparr>)
     else if f = 2 \<and> wt = 2 then on_str d (\<lambda>s. m\<lparr>tx_push_options := tx_push_options m @ [s]\<rparr>)
     else if f = 3 \<and> wt = 0 then on_uint d (\<lambda>v. m\<lparr>tx_atomic := (v \<noteq> 0)\<rparr>)
     else on_skip wt d m)"

definition unmarshal_ref_transaction :: "bytes \<Rightarrow> ref_transaction \<Rightarrow> wire_error + ref_transaction" where
  "unmarshal_ref_transaction b m = dec_loop ref_transaction_field b m"

definition decode_ref_transaction :: "bytes \<Rightarrow> wire_error + ref_transaction" where
  "decode_ref_transaction b = unmarshal_ref_transaction b ref_transaction_zero"

definition wf_ref_transaction :: "ref_transaction \<Rightarrow> bool" where
  "wf_ref_transaction m \<longleftrightarrow>
     size_ref_transaction m < 2 ^ 64
     \<and> list_all wf_ref_update (tx_updates m)
     \<and> list_all wf_str (tx_push_options m)"

lemma append_ref_transaction_fields:
  "append_ref_transaction m buf = buf @ fld_subs 1 (\<lambda>x. append_ref_update x []) (tx_updates m)
     @ fld_strings 2 (tx_push_options m)
     @ fld_bool 3 (tx_atomic m)"
  by (simp add: append_ref_transaction_def put_simps)

lemma size_ref_transaction_exact: "size_ref_transaction m = length (append_ref_transaction m [])"
  by (simp add: append_ref_transaction_fields size_ref_transaction_def size_simps)

lemma ref_transaction_dec_tx_updates [wire_simps]:
  "list_all wf_ref_update xs \<Longrightarrow>
   dec_loop ref_transaction_field (fld_subs 1 (\<lambda>x. append_ref_update x []) xs @ rest) m
     = dec_loop ref_transaction_field rest (m\<lparr>tx_updates := tx_updates m @ xs\<rparr>)"
  using loop_subs [of 1 xs ref_transaction_field "\<lambda>x. append_ref_update x []" "\<lambda>l. m\<lparr>tx_updates := l\<rparr>" "(\<lambda>x. x)" rest "tx_updates m"]
  by (cases m) (simp add: ref_transaction_field_def wire_simps list_all_iff)

lemma ref_transaction_dec_tx_push_options [wire_simps]:
  "list_all wf_str ss \<Longrightarrow>
   dec_loop ref_transaction_field (fld_strings 2 ss @ rest) m = dec_loop ref_transaction_field rest (m\<lparr>tx_push_options := tx_push_options m @ ss\<rparr>)"
  using loop_strings [of 2 ss ref_transaction_field "\<lambda>l. m\<lparr>tx_push_options := l\<rparr>" rest "tx_push_options m"]
  by (cases m) (simp add: ref_transaction_field_def wire_simps list_all_iff)

lemma ref_transaction_dec_tx_atomic [wire_simps]:
  "\<not> tx_atomic m \<Longrightarrow> dec_loop ref_transaction_field (fld_bool 3 b @ rest) m = dec_loop ref_transaction_field rest (m\<lparr>tx_atomic := b\<rparr>)"
  by (cases b; cases m) (simp_all add: loop_bool wire_simps ref_transaction_field_def)

lemma ref_transaction_merge:
  "wf_ref_transaction m \<Longrightarrow> dec_loop ref_transaction_field (append_ref_transaction m [] @ rest) ref_transaction_zero = dec_loop ref_transaction_field rest (m)"
  by (cases m) (simp add: append_ref_transaction_fields wf_ref_transaction_def ref_transaction_zero_def wire_simps ref_transaction_field_def)

interpretation ref_transaction_msg: wire_message size_ref_transaction append_ref_transaction "\<lambda>_. True" ref_transaction_field ref_transaction_zero wf_ref_transaction "\<lambda>x. x"
proof
  show "append_ref_transaction m buf = buf @ append_ref_transaction m []" for m buf
    by (simp add: append_ref_transaction_fields)
  show "size_ref_transaction m = length (append_ref_transaction m [])" for m
    by (rule size_ref_transaction_exact)
  show "ref_transaction_field f wt d m = Inr (m', d') \<Longrightarrow> length d' \<le> length d" for f wt d m m' d'
    by (simp add: ref_transaction_field_def on_progress split: if_splits)
  show "clean (ref_transaction_field f wt d m)" for f wt d m
    by (simp add: ref_transaction_field_def on_no_stuck no_stuck_simps)
  show "ref_transaction_field f wt d m = Inr (m', d') \<Longrightarrow> ref_transaction_field f wt (d @ e) m = Inr (m', d' @ e)" for f wt d m m' d' e
    by (auto simp: ref_transaction_field_def on_extend split: if_splits)
  show "wf_ref_transaction m \<Longrightarrow> size_ref_transaction m < 2 ^ 64" for m
    by (simp add: wf_ref_transaction_def)
  show "wf_ref_transaction m \<Longrightarrow> dec_loop ref_transaction_field (append_ref_transaction m []) ref_transaction_zero = Inr (m)" for m
    using ref_transaction_merge [of m "[]"] by (simp add: wire_simps)
qed simp

lemmas ref_transaction_put [put_simps] = ref_transaction_msg.put_sub_fld ref_transaction_msg.put_subs_fld
lemmas ref_transaction_size [size_simps] = ref_transaction_msg.length_fld_sub ref_transaction_msg.length_fld_subs
lemmas ref_transaction_wire [wire_simps] = unmarshal_ref_transaction_def ref_transaction_msg.on_msg_sub
lemmas ref_transaction_total [no_stuck_simps] = unmarshal_ref_transaction_def ref_transaction_msg.no_stuck


section \<open>The metadata map\<close>

text \<open>
  \<^verbatim>\<open>map<string,string>\<close>: one length-delimited entry per key, in sorted key order. The declared
  length of an entry is \<open>map_entry_size\<close>, which counts two bytes of overhead per side: one for the
  tag and one for the length, so it is right only for keys and values shorter than 128 bytes.
\<close>

definition sorted_keys :: "(string \<times> string) list \<Rightarrow> string list" where
  "sorted_keys m = sort (remdups (map fst m))"

definition map_get :: "(string \<times> string) list \<Rightarrow> string \<Rightarrow> string" where
  "map_get m k = (case map_of m k of None \<Rightarrow> [] | Some v \<Rightarrow> v)"

definition map_entry_size :: "string \<Rightarrow> string \<Rightarrow> nat" where
  "map_entry_size k v = (if k \<noteq> [] then 2 + length k else 0) + (if v \<noteq> [] then 2 + length v else 0)"

definition append_map_entry :: "bytes \<Rightarrow> string \<Rightarrow> string \<Rightarrow> bytes" where
  "append_map_entry buf k v = put_string 2 v (put_string 1 k buf)"

fun map_entry_field :: "(string \<times> string) handler" where
  "map_entry_field f wt d (k, v) =
     (if f = 1 \<and> wt = 2 then on_str d (\<lambda>s. (s, v))
      else if f = 2 \<and> wt = 2 then on_str d (\<lambda>s. (k, s))
      else on_skip wt d (k, v))"

definition decode_map_entry :: "bytes \<Rightarrow> wire_error + (string \<times> string)" where
  "decode_map_entry b = dec_loop map_entry_field b ([], [])"

definition put_map :: "u64 \<Rightarrow> (string \<times> string) list \<Rightarrow> bytes \<Rightarrow> bytes" where
  "put_map num m buf =
     fold (\<lambda>k b. append_map_entry
             (append_uvarint (append_uvarint b (wire_tag num 2)) (word_of_nat (map_entry_size k (map_get m k))))
             k (map_get m k))
       (sorted_keys m) buf"

definition sz_map :: "u64 \<Rightarrow> (string \<times> string) list \<Rightarrow> nat" where
  "sz_map num m = sum_list (map (\<lambda>k. let es = map_entry_size k (map_get m k)
                                     in size_tag num + size_len es + es) (sorted_keys m))"

definition fld_map :: "u64 \<Rightarrow> (string \<times> string) list \<Rightarrow> bytes" where
  "fld_map num m = put_map num m []"

definition canon_map :: "(string \<times> string) list \<Rightarrow> (string \<times> string) list" where
  "canon_map m = map (\<lambda>k. (k, map_get m k)) (sorted_keys m)"

definition wf_map :: "(string \<times> string) list \<Rightarrow> bool" where
  "wf_map m \<longleftrightarrow> list_all (\<lambda>(k, v). wf_str k \<and> wf_str v \<and> length k < 128 \<and> length v < 128) m"

lemma append_map_entry_fields: "append_map_entry buf k v = buf @ fld_string 1 k @ fld_string 2 v"
  by (simp add: append_map_entry_def put_simps)

lemma put_map_loop:
  "fold (\<lambda>k b. append_map_entry
       (append_uvarint (append_uvarint b (wire_tag num 2)) (word_of_nat (map_entry_size k (map_get m k))))
       k (map_get m k)) ks buf
   = buf @ concat (map (\<lambda>k. uvarint (wire_tag num 2)
       @ uvarint (word_of_nat (map_entry_size k (map_get m k))) @ append_map_entry [] k (map_get m k)) ks)"
  by (induction ks arbitrary: buf) (simp_all add: append_uvarint_def append_map_entry_fields)

lemma put_map_fld [put_simps]: "put_map num m buf = buf @ fld_map num m"
  by (simp add: put_map_def fld_map_def put_map_loop)

lemma length_append_map_entry:
  assumes "length k < 128" and "length v < 128"
  shows "length (append_map_entry [] k v) = map_entry_size k v"
proof -
  have "size_len n = 1" if "n < 128" for n
    using that by (simp add: size_len_def uvarint_len_def uvarint_small word_less_nat_alt unat_of_nat)
  with assms show ?thesis
    by (simp add: append_map_entry_fields map_entry_size_def size_simps sz_string_def)
qed

lemma wf_map_get:
  "wf_map m \<Longrightarrow> k \<in> set (sorted_keys m) \<Longrightarrow>
   wf_str k \<and> wf_str (map_get m k) \<and> length k < 128 \<and> length (map_get m k) < 128"
  by (cases "map_of m k")
    (auto simp: wf_map_def sorted_keys_def map_get_def list_all_iff map_of_eq_None_iff dest: map_of_SomeD)

text \<open>With short keys and values, an entry is an ordinary length-delimited submessage.\<close>

lemma fld_map_msgs:
  assumes "wf_map m"
  shows "fld_map num m = fld_subs num (\<lambda>k. append_map_entry [] k (map_get m k)) (sorted_keys m)"
proof -
  have "uvarint (wire_tag num 2) @ uvarint (word_of_nat (map_entry_size k (map_get m k)))
      @ append_map_entry [] k (map_get m k) = fld_msg num (append_map_entry [] k (map_get m k))"
    if "k \<in> set (sorted_keys m)" for k
    using wf_map_get [OF assms that] by (simp add: fld_msg_def length_append_map_entry)
  then show ?thesis
    by (simp add: fld_map_def put_map_def put_map_loop fld_subs_def cong: map_cong)
qed

lemma length_fld_map [size_simps]:
  assumes "wf_map m" and "num < 16"
  shows "length (fld_map num m) = sz_map num m"
proof -
  have "length (fld_msg num (append_map_entry [] k (map_get m k)))
      = (let es = map_entry_size k (map_get m k) in size_tag num + size_len es + es)"
    if "k \<in> set (sorted_keys m)" for k
    using wf_map_get [OF assms(1) that] assms(2)
    by (simp add: length_fld_msg length_append_map_entry size_sub_def size_simps Let_def)
  then show ?thesis
    by (simp add: fld_map_msgs assms(1) fld_subs_def sz_map_def length_concat o_def cong: map_cong)
qed

lemma decode_append_map_entry:
  "wf_str k \<Longrightarrow> wf_str v \<Longrightarrow> decode_map_entry (append_map_entry [] k v) = Inr (k, v)"
  using loop_string [of 2 map_entry_field v "[]" "(k, [])"]
    on_str_frame [of v "[]" "Pair k"] on_str_empty [of "[]" "Pair k"]
  by (simp add: decode_map_entry_def append_map_entry_fields wire_simps)

lemma on_map_entry [wire_simps]:
  "length (append_map_entry [] k v) < 2 ^ 64 \<Longrightarrow> wf_str k \<Longrightarrow> wf_str v \<Longrightarrow>
   on_msg (uvarint (word_of_nat (length (append_map_entry [] k v))) @ append_map_entry [] k v @ r)
     decode_map_entry h = Inr (h (k, v), r)"
  by (rule on_msg_frame) (simp_all add: decode_append_map_entry)

lemma decode_map_entry_error [no_stuck_simps]: "clean (decode_map_entry b)"
proof -
  have "clean (map_entry_field f wt d m)" for f wt d m
    by (cases m) (simp add: on_no_stuck)
  moreover have "map_entry_field f wt d m = Inr (m', d') \<Longrightarrow> length d' \<le> length d" for f wt d m m' d'
    by (cases m) (auto simp: on_progress split: if_splits)
  ultimately show ?thesis
    unfolding decode_map_entry_def by (rule dec_loop_no_stuck)
qed

lemma loop_map:
  assumes "num \<noteq> 0" and "num < 16" and "wf_map m"
    and "\<And>k v acc r. length (append_map_entry [] k v) < 2 ^ 64 \<Longrightarrow> wf_str k \<Longrightarrow> wf_str v \<Longrightarrow>
      H num 2 (uvarint (word_of_nat (length (append_map_entry [] k v))) @ append_map_entry [] k v @ r) (upd acc)
        = Inr (upd (map_put k v acc), r)"
  shows "dec_loop H (fld_map num m @ rest) (upd []) = dec_loop H rest (upd (canon_map m))"
proof -
  let ?enc = "\<lambda>k. append_map_entry [] k (map_get m k)"
  have *: "dec_loop H (fld_subs num ?enc ks @ rest) (upd acc) = dec_loop H rest (upd (acc @ map (\<lambda>k. (k, map_get m k)) ks))"
    if "set ks \<subseteq> set (sorted_keys m)" and "distinct ks" and "set ks \<inter> set (map fst acc) = {}" for ks acc
    using that
  proof (induction ks arbitrary: acc)
    case Nil
    then show ?case by (simp add: fld_subs_def)
  next
    case (Cons k ks)
    have wf: "wf_str k \<and> wf_str (map_get m k) \<and> length k < 128 \<and> length (map_get m k) < 128"
      using wf_map_get [OF assms(3)] Cons.prems(1) by auto
    then have "length (?enc k) < 2 ^ 64" by (auto simp: length_append_map_entry map_entry_size_def)
    moreover have "map_put k (map_get m k) acc = acc @ [(k, map_get m k)]"
      using Cons.prems(3) by (intro map_put_fresh) auto
    ultimately have "dec_loop H (fld_msg num (?enc k) @ fld_subs num ?enc ks @ rest) (upd acc)
        = dec_loop H (fld_subs num ?enc ks @ rest) (upd (acc @ [(k, map_get m k)]))"
      using assms(1,2) assms(4) [of k "map_get m k"] wf by (intro loop_msg) auto
    also have "\<dots> = dec_loop H rest (upd ((acc @ [(k, map_get m k)]) @ map (\<lambda>k. (k, map_get m k)) ks))"
      by (rule Cons.IH) (use Cons.prems in auto)
    finally show ?case by (simp add: fld_subs_def)
  qed
  have "distinct (sorted_keys m)" by (simp add: sorted_keys_def)
  then show ?thesis
    using * [of "sorted_keys m" "[]"] by (simp add: fld_map_msgs assms(3) canon_map_def)
qed

section \<open>LogEntry\<close>

record log_entry =
  le_seq :: u64
  le_kind :: u32
  le_pack :: "pack_ref option"
  le_txn :: "ref_transaction option"
  le_supersedes :: "string list"
  le_checkpoint :: "checkpoint_ref option"
  le_created_at :: "timestamp option"
  le_writer :: string
  le_meta :: "(string \<times> string) list"
  le_settings :: "repo_settings option"

definition log_entry_zero :: log_entry where
  "log_entry_zero =
    \<lparr>le_seq = 0, le_kind = 0, le_pack = None, le_txn = None, le_supersedes = [],
     le_checkpoint = None, le_created_at = None, le_writer = [], le_meta = [],
     le_settings = None\<rparr>"

definition size_log_entry :: "log_entry \<Rightarrow> nat" where
  "size_log_entry m =
     sz_uint 1 (le_seq m)
     + sz_uint 2 (ucast (le_kind m))
     + sz_sub size_pack_ref (le_pack m)
     + sz_sub size_ref_transaction (le_txn m)
     + sz_strings 5 (le_supersedes m)
     + sz_sub size_checkpoint_ref (le_checkpoint m)
     + sz_time (le_created_at m)
     + sz_string 8 (le_writer m)
     + sz_map 9 (le_meta m)
     + sz_sub size_repo_settings (le_settings m)"

definition append_log_entry :: "log_entry \<Rightarrow> bytes \<Rightarrow> bytes" where
  "append_log_entry m buf =
    (let buf = put_uint 1 (le_seq m) buf;
         buf = put_uint 2 (ucast (le_kind m)) buf;
         buf = put_sub 3 size_pack_ref append_pack_ref (le_pack m) buf;
         buf = put_sub 4 size_ref_transaction append_ref_transaction (le_txn m) buf;
         buf = put_strings 5 (le_supersedes m) buf;
         buf = put_sub 6 size_checkpoint_ref append_checkpoint_ref (le_checkpoint m) buf;
         buf = put_time 7 (le_created_at m) buf;
         buf = put_string 8 (le_writer m) buf;
         buf = put_map 9 (le_meta m) buf;
         buf = put_sub 10 size_repo_settings append_repo_settings (le_settings m) buf
     in buf)"

definition marshal_log_entry :: "log_entry \<Rightarrow> bytes" where
  "marshal_log_entry m = append_log_entry m []"

definition log_entry_field :: "log_entry handler" where
  "log_entry_field f wt d m =
    (if f = 1 \<and> wt = 0 then on_uint d (\<lambda>v. m\<lparr>le_seq := v\<rparr>)
     else if f = 2 \<and> wt = 0 then on_uint d (\<lambda>v. m\<lparr>le_kind := ucast v\<rparr>)
     else if f = 3 \<and> wt = 2 then on_msg d (\<lambda>b. unmarshal_pack_ref b (or_new pack_ref_zero (le_pack m))) 
       (\<lambda>e. m\<lparr>le_pack := Some e\<rparr>)
     else if f = 4 \<and> wt = 2 then on_msg d (\<lambda>b. unmarshal_ref_transaction b (or_new ref_transaction_zero (le_txn m))) 
       (\<lambda>e. m\<lparr>le_txn := Some e\<rparr>)
     else if f = 5 \<and> wt = 2 then on_str d (\<lambda>s. m\<lparr>le_supersedes := le_supersedes m @ [s]\<rparr>)
     else if f = 6 \<and> wt = 2 then on_msg d (\<lambda>b. unmarshal_checkpoint_ref b (or_new checkpoint_ref_zero (le_checkpoint m))) 
       (\<lambda>e. m\<lparr>le_checkpoint := Some e\<rparr>)
     else if f = 7 \<and> wt = 2 then on_msg d (\<lambda>b. unmarshal_timestamp b (or_new timestamp_zero (le_created_at m))) 
       (\<lambda>e. m\<lparr>le_created_at := Some e\<rparr>)
     else if f = 8 \<and> wt = 2 then on_str d (\<lambda>s. m\<lparr>le_writer := s\<rparr>)
     else if f = 9 \<and> wt = 2 then on_msg d decode_map_entry (\<lambda>(k, v). m\<lparr>le_meta := map_put k v (le_meta m)\<rparr>)
     else if f = 10 \<and> wt = 2 then on_msg d (\<lambda>b. unmarshal_repo_settings b (or_new repo_settings_zero (le_settings m))) 
       (\<lambda>e. m\<lparr>le_settings := Some e\<rparr>)
     else on_skip wt d m)"

definition unmarshal_log_entry :: "bytes \<Rightarrow> log_entry \<Rightarrow> wire_error + log_entry" where
  "unmarshal_log_entry b m = dec_loop log_entry_field b m"

definition decode_log_entry :: "bytes \<Rightarrow> wire_error + log_entry" where
  "decode_log_entry b = unmarshal_log_entry b log_entry_zero"

definition canon_log_entry :: "log_entry \<Rightarrow> log_entry" where
  "canon_log_entry m = m\<lparr>le_checkpoint := map_option canon_checkpoint_ref (le_checkpoint m),
     le_created_at := canon_time (le_created_at m),
     le_meta := canon_map (le_meta m),
     le_settings := map_option canon_repo_settings (le_settings m)\<rparr>"

definition wf_log_entry :: "log_entry \<Rightarrow> bool" where
  "wf_log_entry m \<longleftrightarrow>
     size_log_entry m < 2 ^ 64
     \<and> pred_option wf_pack_ref (le_pack m)
     \<and> pred_option wf_ref_transaction (le_txn m)
     \<and> list_all wf_str (le_supersedes m)
     \<and> pred_option wf_checkpoint_ref (le_checkpoint m)
     \<and> wf_str (le_writer m)
     \<and> wf_map (le_meta m)
     \<and> pred_option wf_repo_settings (le_settings m)"

lemma append_log_entry_fields:
  "append_log_entry m buf = buf @ fld_uint 1 (le_seq m)
     @ fld_uint 2 (ucast (le_kind m))
     @ fld_sub 3 (\<lambda>x. append_pack_ref x []) (le_pack m)
     @ fld_sub 4 (\<lambda>x. append_ref_transaction x []) (le_txn m)
     @ fld_strings 5 (le_supersedes m)
     @ fld_sub 6 (\<lambda>x. append_checkpoint_ref x []) (le_checkpoint m)
     @ fld_sub 7 (\<lambda>t. append_timestamp t []) (canon_time (le_created_at m))
     @ fld_string 8 (le_writer m)
     @ fld_map 9 (le_meta m)
     @ fld_sub 10 (\<lambda>x. append_repo_settings x []) (le_settings m)"
  by (simp add: append_log_entry_def put_simps)

definition small_meta :: "log_entry \<Rightarrow> bool" where
  "small_meta m \<longleftrightarrow> wf_map (le_meta m)"

lemma size_log_entry_exact: "small_meta m \<Longrightarrow> size_log_entry m = length (append_log_entry m [])"
  by (simp add: append_log_entry_fields size_log_entry_def size_simps small_meta_def)

lemma log_entry_dec_le_pack [wire_simps]:
  assumes prems: "le_pack m = None" "pred_option wf_pack_ref mo"
  shows "dec_loop log_entry_field (fld_sub 3 (\<lambda>x. append_pack_ref x []) mo @ rest) m
     = dec_loop log_entry_field rest (m\<lparr>le_pack := mo\<rparr>)"
  proof (cases mo)
  case (Some x)
  then show ?thesis
    using prems loop_msg [of 3 log_entry_field "append_pack_ref x []" rest m "m\<lparr>le_pack := mo\<rparr>"]
    by (simp add: fld_sub_def log_entry_field_def wire_simps)
qed (use prems in \<open>cases m; simp add: fld_sub_def\<close>)

lemma log_entry_dec_le_txn [wire_simps]:
  assumes prems: "le_txn m = None" "pred_option wf_ref_transaction mo"
  shows "dec_loop log_entry_field (fld_sub 4 (\<lambda>x. append_ref_transaction x []) mo @ rest) m
     = dec_loop log_entry_field rest (m\<lparr>le_txn := mo\<rparr>)"
  proof (cases mo)
  case (Some x)
  then show ?thesis
    using prems loop_msg [of 4 log_entry_field "append_ref_transaction x []" rest m "m\<lparr>le_txn := mo\<rparr>"]
    by (simp add: fld_sub_def log_entry_field_def wire_simps)
qed (use prems in \<open>cases m; simp add: fld_sub_def\<close>)

lemma log_entry_dec_le_supersedes [wire_simps]:
  "list_all wf_str ss \<Longrightarrow>
   dec_loop log_entry_field (fld_strings 5 ss @ rest) m = dec_loop log_entry_field rest (m\<lparr>le_supersedes := le_supersedes m @ ss\<rparr>)"
  using loop_strings [of 5 ss log_entry_field "\<lambda>l. m\<lparr>le_supersedes := l\<rparr>" rest "le_supersedes m"]
  by (cases m) (simp add: log_entry_field_def wire_simps list_all_iff)

lemma log_entry_dec_le_checkpoint [wire_simps]:
  assumes prems: "le_checkpoint m = None" "pred_option wf_checkpoint_ref mo"
  shows "dec_loop log_entry_field (fld_sub 6 (\<lambda>x. append_checkpoint_ref x []) mo @ rest) m
     = dec_loop log_entry_field rest (m\<lparr>le_checkpoint := map_option canon_checkpoint_ref mo\<rparr>)"
  proof (cases mo)
  case (Some x)
  then show ?thesis
    using prems loop_msg [of 6 log_entry_field "append_checkpoint_ref x []" rest m "m\<lparr>le_checkpoint := map_option canon_checkpoint_ref mo\<rparr>"]
    by (simp add: fld_sub_def log_entry_field_def wire_simps)
qed (use prems in \<open>cases m; simp add: fld_sub_def\<close>)

lemma log_entry_dec_le_created_at [wire_simps]:
  assumes prems: "le_created_at m = None"
  shows "dec_loop log_entry_field (fld_sub 7 (\<lambda>t. append_timestamp t []) mo @ rest) m = dec_loop log_entry_field rest (m\<lparr>le_created_at := mo\<rparr>)"
  proof (cases mo)
  case (Some t)
  then show ?thesis
    using prems loop_msg [of 7 log_entry_field "append_timestamp t []" rest m "m\<lparr>le_created_at := mo\<rparr>"]
    by (simp add: fld_sub_def log_entry_field_def wire_simps)
qed (use prems in \<open>cases m; simp add: fld_sub_def\<close>)

lemma log_entry_dec_le_meta [wire_simps]:
  "le_meta m = [] \<Longrightarrow> wf_map kvs \<Longrightarrow>
   dec_loop log_entry_field (fld_map 9 kvs @ rest) m = dec_loop log_entry_field rest (m\<lparr>le_meta := canon_map kvs\<rparr>)"
  using loop_map [of 9 kvs log_entry_field "\<lambda>l. m\<lparr>le_meta := l\<rparr>" rest]
  by (cases m) (simp add: log_entry_field_def wire_simps)

lemma log_entry_dec_le_settings [wire_simps]:
  assumes prems: "le_settings m = None" "pred_option wf_repo_settings mo"
  shows "dec_loop log_entry_field (fld_sub 10 (\<lambda>x. append_repo_settings x []) mo @ rest) m
     = dec_loop log_entry_field rest (m\<lparr>le_settings := map_option canon_repo_settings mo\<rparr>)"
  proof (cases mo)
  case (Some x)
  then show ?thesis
    using prems loop_msg [of 10 log_entry_field "append_repo_settings x []" rest m "m\<lparr>le_settings := map_option canon_repo_settings mo\<rparr>"]
    by (simp add: fld_sub_def log_entry_field_def wire_simps)
qed (use prems in \<open>cases m; simp add: fld_sub_def\<close>)

lemma log_entry_merge:
  "wf_log_entry m \<Longrightarrow> dec_loop log_entry_field (append_log_entry m [] @ rest) log_entry_zero = dec_loop log_entry_field rest (canon_log_entry m)"
  by (cases m) (simp add: append_log_entry_fields wf_log_entry_def log_entry_zero_def canon_log_entry_def wire_simps log_entry_field_def)

interpretation log_entry_msg: wire_message size_log_entry append_log_entry small_meta log_entry_field log_entry_zero wf_log_entry canon_log_entry
proof
  show "append_log_entry m buf = buf @ append_log_entry m []" for m buf
    by (simp add: append_log_entry_fields)
  show "small_meta m \<Longrightarrow> size_log_entry m = length (append_log_entry m [])" for m
    by (rule size_log_entry_exact)
  show "log_entry_field f wt d m = Inr (m', d') \<Longrightarrow> length d' \<le> length d" for f wt d m m' d'
    by (simp add: log_entry_field_def on_progress split: if_splits)
  show "clean (log_entry_field f wt d m)" for f wt d m
    by (simp add: log_entry_field_def on_no_stuck no_stuck_simps)
  show "log_entry_field f wt d m = Inr (m', d') \<Longrightarrow> log_entry_field f wt (d @ e) m = Inr (m', d' @ e)" for f wt d m m' d' e
    by (auto simp: log_entry_field_def on_extend split: if_splits)
  show "wf_log_entry m \<Longrightarrow> size_log_entry m < 2 ^ 64" for m
    by (simp add: wf_log_entry_def)
  show "wf_log_entry m \<Longrightarrow> dec_loop log_entry_field (append_log_entry m []) log_entry_zero = Inr (canon_log_entry m)" for m
    using log_entry_merge [of m "[]"] by (simp add: wire_simps)
  show "wf_log_entry m \<Longrightarrow> small_meta m" for m
    by (simp add: wf_log_entry_def small_meta_def)
qed

lemmas log_entry_put [put_simps] = log_entry_msg.put_sub_fld log_entry_msg.put_subs_fld
lemmas log_entry_size [size_simps] = log_entry_msg.length_fld_sub log_entry_msg.length_fld_subs
lemmas log_entry_wire [wire_simps] = unmarshal_log_entry_def log_entry_msg.on_msg_sub
lemmas log_entry_total [no_stuck_simps] = unmarshal_log_entry_def log_entry_msg.no_stuck

section \<open>Ref\<close>

record ref =
  rf_name :: string
  rf_oid :: string
  rf_peeled :: string

definition ref_zero :: ref where
  "ref_zero =
    \<lparr>rf_name = [], rf_oid = [], rf_peeled = []\<rparr>"

definition size_ref :: "ref \<Rightarrow> nat" where
  "size_ref m =
     sz_string 1 (rf_name m)
     + sz_string 2 (rf_oid m)
     + sz_string 3 (rf_peeled m)"

definition append_ref :: "ref \<Rightarrow> bytes \<Rightarrow> bytes" where
  "append_ref m buf =
    (let buf = put_string 1 (rf_name m) buf;
         buf = put_string 2 (rf_oid m) buf;
         buf = put_string 3 (rf_peeled m) buf
     in buf)"

definition marshal_ref :: "ref \<Rightarrow> bytes" where
  "marshal_ref m = append_ref m []"

definition ref_field :: "ref handler" where
  "ref_field f wt d m =
    (if f = 1 \<and> wt = 2 then on_str d (\<lambda>s. m\<lparr>rf_name := s\<rparr>)
     else if f = 2 \<and> wt = 2 then on_str d (\<lambda>s. m\<lparr>rf_oid := s\<rparr>)
     else if f = 3 \<and> wt = 2 then on_str d (\<lambda>s. m\<lparr>rf_peeled := s\<rparr>)
     else on_skip wt d m)"

definition unmarshal_ref :: "bytes \<Rightarrow> ref \<Rightarrow> wire_error + ref" where
  "unmarshal_ref b m = dec_loop ref_field b m"

definition decode_ref :: "bytes \<Rightarrow> wire_error + ref" where
  "decode_ref b = unmarshal_ref b ref_zero"

definition wf_ref :: "ref \<Rightarrow> bool" where
  "wf_ref m \<longleftrightarrow>
     size_ref m < 2 ^ 64
     \<and> wf_str (rf_name m)
     \<and> wf_str (rf_oid m)
     \<and> wf_str (rf_peeled m)"

lemma append_ref_fields:
  "append_ref m buf = buf @ fld_string 1 (rf_name m)
     @ fld_string 2 (rf_oid m)
     @ fld_string 3 (rf_peeled m)"
  by (simp add: append_ref_def put_simps)

lemma size_ref_exact: "size_ref m = length (append_ref m [])"
  by (simp add: append_ref_fields size_ref_def size_simps)

lemma ref_merge:
  "wf_ref m \<Longrightarrow> dec_loop ref_field (append_ref m [] @ rest) ref_zero = dec_loop ref_field rest (m)"
  by (cases m) (simp add: append_ref_fields wf_ref_def ref_zero_def wire_simps ref_field_def)

interpretation ref_msg: wire_message size_ref append_ref "\<lambda>_. True" ref_field ref_zero wf_ref "\<lambda>x. x"
proof
  show "append_ref m buf = buf @ append_ref m []" for m buf
    by (simp add: append_ref_fields)
  show "size_ref m = length (append_ref m [])" for m
    by (rule size_ref_exact)
  show "ref_field f wt d m = Inr (m', d') \<Longrightarrow> length d' \<le> length d" for f wt d m m' d'
    by (simp add: ref_field_def on_progress split: if_splits)
  show "clean (ref_field f wt d m)" for f wt d m
    by (simp add: ref_field_def on_no_stuck no_stuck_simps)
  show "ref_field f wt d m = Inr (m', d') \<Longrightarrow> ref_field f wt (d @ e) m = Inr (m', d' @ e)" for f wt d m m' d' e
    by (auto simp: ref_field_def on_extend split: if_splits)
  show "wf_ref m \<Longrightarrow> size_ref m < 2 ^ 64" for m
    by (simp add: wf_ref_def)
  show "wf_ref m \<Longrightarrow> dec_loop ref_field (append_ref m []) ref_zero = Inr (m)" for m
    using ref_merge [of m "[]"] by (simp add: wire_simps)
qed simp

lemmas ref_put [put_simps] = ref_msg.put_sub_fld ref_msg.put_subs_fld
lemmas ref_size [size_simps] = ref_msg.length_fld_sub ref_msg.length_fld_subs
lemmas ref_wire [wire_simps] = unmarshal_ref_def ref_msg.on_msg_sub
lemmas ref_total [no_stuck_simps] = unmarshal_ref_def ref_msg.no_stuck

section \<open>RefSnapshot\<close>

record ref_snapshot =
  sn_seq :: u64
  sn_object_format :: string
  sn_refs :: "ref list"
  sn_head_target :: string
  sn_created_at :: "timestamp option"

definition ref_snapshot_zero :: ref_snapshot where
  "ref_snapshot_zero =
    \<lparr>sn_seq = 0, sn_object_format = [], sn_refs = [], sn_head_target = [],
     sn_created_at = None\<rparr>"

definition size_ref_snapshot :: "ref_snapshot \<Rightarrow> nat" where
  "size_ref_snapshot m =
     sz_uint 1 (sn_seq m)
     + sz_string 2 (sn_object_format m)
     + sz_subs size_ref (sn_refs m)
     + sz_string 4 (sn_head_target m)
     + sz_time (sn_created_at m)"

definition append_ref_snapshot :: "ref_snapshot \<Rightarrow> bytes \<Rightarrow> bytes" where
  "append_ref_snapshot m buf =
    (let buf = put_uint 1 (sn_seq m) buf;
         buf = put_string 2 (sn_object_format m) buf;
         buf = put_subs 3 size_ref append_ref (sn_refs m) buf;
         buf = put_string 4 (sn_head_target m) buf;
         buf = put_time 5 (sn_created_at m) buf
     in buf)"

definition marshal_ref_snapshot :: "ref_snapshot \<Rightarrow> bytes" where
  "marshal_ref_snapshot m = append_ref_snapshot m []"

definition ref_snapshot_field :: "ref_snapshot handler" where
  "ref_snapshot_field f wt d m =
    (if f = 1 \<and> wt = 0 then on_uint d (\<lambda>v. m\<lparr>sn_seq := v\<rparr>)
     else if f = 2 \<and> wt = 2 then on_str d (\<lambda>s. m\<lparr>sn_object_format := s\<rparr>)
     else if f = 3 \<and> wt = 2 then on_msg d (\<lambda>b. unmarshal_ref b ref_zero) 
       (\<lambda>e. m\<lparr>sn_refs := sn_refs m @ [e]\<rparr>)
     else if f = 4 \<and> wt = 2 then on_str d (\<lambda>s. m\<lparr>sn_head_target := s\<rparr>)
     else if f = 5 \<and> wt = 2 then on_msg d (\<lambda>b. unmarshal_timestamp b (or_new timestamp_zero (sn_created_at m))) 
       (\<lambda>e. m\<lparr>sn_created_at := Some e\<rparr>)
     else on_skip wt d m)"

definition unmarshal_ref_snapshot :: "bytes \<Rightarrow> ref_snapshot \<Rightarrow> wire_error + ref_snapshot" where
  "unmarshal_ref_snapshot b m = dec_loop ref_snapshot_field b m"

definition decode_ref_snapshot :: "bytes \<Rightarrow> wire_error + ref_snapshot" where
  "decode_ref_snapshot b = unmarshal_ref_snapshot b ref_snapshot_zero"

definition canon_ref_snapshot :: "ref_snapshot \<Rightarrow> ref_snapshot" where
  "canon_ref_snapshot m = m\<lparr>sn_created_at := canon_time (sn_created_at m)\<rparr>"

definition wf_ref_snapshot :: "ref_snapshot \<Rightarrow> bool" where
  "wf_ref_snapshot m \<longleftrightarrow>
     size_ref_snapshot m < 2 ^ 64
     \<and> wf_str (sn_object_format m)
     \<and> list_all wf_ref (sn_refs m)
     \<and> wf_str (sn_head_target m)"

lemma append_ref_snapshot_fields:
  "append_ref_snapshot m buf = buf @ fld_uint 1 (sn_seq m)
     @ fld_string 2 (sn_object_format m)
     @ fld_subs 3 (\<lambda>x. append_ref x []) (sn_refs m)
     @ fld_string 4 (sn_head_target m)
     @ fld_sub 5 (\<lambda>t. append_timestamp t []) (canon_time (sn_created_at m))"
  by (simp add: append_ref_snapshot_def put_simps)

lemma size_ref_snapshot_exact: "size_ref_snapshot m = length (append_ref_snapshot m [])"
  by (simp add: append_ref_snapshot_fields size_ref_snapshot_def size_simps)

lemma ref_snapshot_dec_sn_refs [wire_simps]:
  "list_all wf_ref xs \<Longrightarrow>
   dec_loop ref_snapshot_field (fld_subs 3 (\<lambda>x. append_ref x []) xs @ rest) m
     = dec_loop ref_snapshot_field rest (m\<lparr>sn_refs := sn_refs m @ xs\<rparr>)"
  using loop_subs [of 3 xs ref_snapshot_field "\<lambda>x. append_ref x []" "\<lambda>l. m\<lparr>sn_refs := l\<rparr>" "(\<lambda>x. x)" rest "sn_refs m"]
  by (cases m) (simp add: ref_snapshot_field_def wire_simps list_all_iff)

lemma ref_snapshot_dec_sn_created_at [wire_simps]:
  assumes prems: "sn_created_at m = None"
  shows "dec_loop ref_snapshot_field (fld_sub 5 (\<lambda>t. append_timestamp t []) mo @ rest) m = dec_loop ref_snapshot_field rest (m\<lparr>sn_created_at := mo\<rparr>)"
  proof (cases mo)
  case (Some t)
  then show ?thesis
    using prems loop_msg [of 5 ref_snapshot_field "append_timestamp t []" rest m "m\<lparr>sn_created_at := mo\<rparr>"]
    by (simp add: fld_sub_def ref_snapshot_field_def wire_simps)
qed (use prems in \<open>cases m; simp add: fld_sub_def\<close>)

lemma ref_snapshot_merge:
  "wf_ref_snapshot m \<Longrightarrow> dec_loop ref_snapshot_field (append_ref_snapshot m [] @ rest) ref_snapshot_zero = dec_loop ref_snapshot_field rest (canon_ref_snapshot m)"
  by (cases m) (simp add: append_ref_snapshot_fields wf_ref_snapshot_def ref_snapshot_zero_def canon_ref_snapshot_def wire_simps ref_snapshot_field_def)

interpretation ref_snapshot_msg: wire_message size_ref_snapshot append_ref_snapshot "\<lambda>_. True" ref_snapshot_field ref_snapshot_zero wf_ref_snapshot canon_ref_snapshot
proof
  show "append_ref_snapshot m buf = buf @ append_ref_snapshot m []" for m buf
    by (simp add: append_ref_snapshot_fields)
  show "size_ref_snapshot m = length (append_ref_snapshot m [])" for m
    by (rule size_ref_snapshot_exact)
  show "ref_snapshot_field f wt d m = Inr (m', d') \<Longrightarrow> length d' \<le> length d" for f wt d m m' d'
    by (simp add: ref_snapshot_field_def on_progress split: if_splits)
  show "clean (ref_snapshot_field f wt d m)" for f wt d m
    by (simp add: ref_snapshot_field_def on_no_stuck no_stuck_simps)
  show "ref_snapshot_field f wt d m = Inr (m', d') \<Longrightarrow> ref_snapshot_field f wt (d @ e) m = Inr (m', d' @ e)" for f wt d m m' d' e
    by (auto simp: ref_snapshot_field_def on_extend split: if_splits)
  show "wf_ref_snapshot m \<Longrightarrow> size_ref_snapshot m < 2 ^ 64" for m
    by (simp add: wf_ref_snapshot_def)
  show "wf_ref_snapshot m \<Longrightarrow> dec_loop ref_snapshot_field (append_ref_snapshot m []) ref_snapshot_zero = Inr (canon_ref_snapshot m)" for m
    using ref_snapshot_merge [of m "[]"] by (simp add: wire_simps)
qed simp

lemmas ref_snapshot_put [put_simps] = ref_snapshot_msg.put_sub_fld ref_snapshot_msg.put_subs_fld
lemmas ref_snapshot_size [size_simps] = ref_snapshot_msg.length_fld_sub ref_snapshot_msg.length_fld_subs
lemmas ref_snapshot_wire [wire_simps] = unmarshal_ref_snapshot_def ref_snapshot_msg.on_msg_sub
lemmas ref_snapshot_total [no_stuck_simps] = unmarshal_ref_snapshot_def ref_snapshot_msg.no_stuck

section \<open>Checkpoint\<close>

record checkpoint =
  cp_seq :: u64
  cp_object_format :: string
  cp_packs :: "pack_ref list"
  cp_refs_key :: string
  cp_ref_count :: u64
  cp_bundle_key :: string
  cp_created_at :: "timestamp option"
  cp_writer :: string

definition checkpoint_zero :: checkpoint where
  "checkpoint_zero =
    \<lparr>cp_seq = 0, cp_object_format = [], cp_packs = [], cp_refs_key = [],
     cp_ref_count = 0, cp_bundle_key = [], cp_created_at = None, cp_writer = []\<rparr>"

definition size_checkpoint :: "checkpoint \<Rightarrow> nat" where
  "size_checkpoint m =
     sz_uint 1 (cp_seq m)
     + sz_string 2 (cp_object_format m)
     + sz_subs size_pack_ref (cp_packs m)
     + sz_string 4 (cp_refs_key m)
     + sz_uint 5 (cp_ref_count m)
     + sz_string 6 (cp_bundle_key m)
     + sz_time (cp_created_at m)
     + sz_string 8 (cp_writer m)"

definition append_checkpoint :: "checkpoint \<Rightarrow> bytes \<Rightarrow> bytes" where
  "append_checkpoint m buf =
    (let buf = put_uint 1 (cp_seq m) buf;
         buf = put_string 2 (cp_object_format m) buf;
         buf = put_subs 3 size_pack_ref append_pack_ref (cp_packs m) buf;
         buf = put_string 4 (cp_refs_key m) buf;
         buf = put_uint 5 (cp_ref_count m) buf;
         buf = put_string 6 (cp_bundle_key m) buf;
         buf = put_time 7 (cp_created_at m) buf;
         buf = put_string 8 (cp_writer m) buf
     in buf)"

definition marshal_checkpoint :: "checkpoint \<Rightarrow> bytes" where
  "marshal_checkpoint m = append_checkpoint m []"

definition checkpoint_field :: "checkpoint handler" where
  "checkpoint_field f wt d m =
    (if f = 1 \<and> wt = 0 then on_uint d (\<lambda>v. m\<lparr>cp_seq := v\<rparr>)
     else if f = 2 \<and> wt = 2 then on_str d (\<lambda>s. m\<lparr>cp_object_format := s\<rparr>)
     else if f = 3 \<and> wt = 2 then on_msg d (\<lambda>b. unmarshal_pack_ref b pack_ref_zero) 
       (\<lambda>e. m\<lparr>cp_packs := cp_packs m @ [e]\<rparr>)
     else if f = 4 \<and> wt = 2 then on_str d (\<lambda>s. m\<lparr>cp_refs_key := s\<rparr>)
     else if f = 5 \<and> wt = 0 then on_uint d (\<lambda>v. m\<lparr>cp_ref_count := v\<rparr>)
     else if f = 6 \<and> wt = 2 then on_str d (\<lambda>s. m\<lparr>cp_bundle_key := s\<rparr>)
     else if f = 7 \<and> wt = 2 then on_msg d (\<lambda>b. unmarshal_timestamp b (or_new timestamp_zero (cp_created_at m))) 
       (\<lambda>e. m\<lparr>cp_created_at := Some e\<rparr>)
     else if f = 8 \<and> wt = 2 then on_str d (\<lambda>s. m\<lparr>cp_writer := s\<rparr>)
     else on_skip wt d m)"

definition unmarshal_checkpoint :: "bytes \<Rightarrow> checkpoint \<Rightarrow> wire_error + checkpoint" where
  "unmarshal_checkpoint b m = dec_loop checkpoint_field b m"

definition decode_checkpoint :: "bytes \<Rightarrow> wire_error + checkpoint" where
  "decode_checkpoint b = unmarshal_checkpoint b checkpoint_zero"

definition canon_checkpoint :: "checkpoint \<Rightarrow> checkpoint" where
  "canon_checkpoint m = m\<lparr>cp_created_at := canon_time (cp_created_at m)\<rparr>"

definition wf_checkpoint :: "checkpoint \<Rightarrow> bool" where
  "wf_checkpoint m \<longleftrightarrow>
     size_checkpoint m < 2 ^ 64
     \<and> wf_str (cp_object_format m)
     \<and> list_all wf_pack_ref (cp_packs m)
     \<and> wf_str (cp_refs_key m)
     \<and> wf_str (cp_bundle_key m)
     \<and> wf_str (cp_writer m)"

lemma append_checkpoint_fields:
  "append_checkpoint m buf = buf @ fld_uint 1 (cp_seq m)
     @ fld_string 2 (cp_object_format m)
     @ fld_subs 3 (\<lambda>x. append_pack_ref x []) (cp_packs m)
     @ fld_string 4 (cp_refs_key m)
     @ fld_uint 5 (cp_ref_count m)
     @ fld_string 6 (cp_bundle_key m)
     @ fld_sub 7 (\<lambda>t. append_timestamp t []) (canon_time (cp_created_at m))
     @ fld_string 8 (cp_writer m)"
  by (simp add: append_checkpoint_def put_simps)

lemma size_checkpoint_exact: "size_checkpoint m = length (append_checkpoint m [])"
  by (simp add: append_checkpoint_fields size_checkpoint_def size_simps)

lemma checkpoint_dec_cp_packs [wire_simps]:
  "list_all wf_pack_ref xs \<Longrightarrow>
   dec_loop checkpoint_field (fld_subs 3 (\<lambda>x. append_pack_ref x []) xs @ rest) m
     = dec_loop checkpoint_field rest (m\<lparr>cp_packs := cp_packs m @ xs\<rparr>)"
  using loop_subs [of 3 xs checkpoint_field "\<lambda>x. append_pack_ref x []" "\<lambda>l. m\<lparr>cp_packs := l\<rparr>" "(\<lambda>x. x)" rest "cp_packs m"]
  by (cases m) (simp add: checkpoint_field_def wire_simps list_all_iff)

lemma checkpoint_dec_cp_created_at [wire_simps]:
  assumes prems: "cp_created_at m = None"
  shows "dec_loop checkpoint_field (fld_sub 7 (\<lambda>t. append_timestamp t []) mo @ rest) m = dec_loop checkpoint_field rest (m\<lparr>cp_created_at := mo\<rparr>)"
  proof (cases mo)
  case (Some t)
  then show ?thesis
    using prems loop_msg [of 7 checkpoint_field "append_timestamp t []" rest m "m\<lparr>cp_created_at := mo\<rparr>"]
    by (simp add: fld_sub_def checkpoint_field_def wire_simps)
qed (use prems in \<open>cases m; simp add: fld_sub_def\<close>)

lemma checkpoint_merge:
  "wf_checkpoint m \<Longrightarrow> dec_loop checkpoint_field (append_checkpoint m [] @ rest) checkpoint_zero = dec_loop checkpoint_field rest (canon_checkpoint m)"
  by (cases m) (simp add: append_checkpoint_fields wf_checkpoint_def checkpoint_zero_def canon_checkpoint_def wire_simps checkpoint_field_def)

interpretation checkpoint_msg: wire_message size_checkpoint append_checkpoint "\<lambda>_. True" checkpoint_field checkpoint_zero wf_checkpoint canon_checkpoint
proof
  show "append_checkpoint m buf = buf @ append_checkpoint m []" for m buf
    by (simp add: append_checkpoint_fields)
  show "size_checkpoint m = length (append_checkpoint m [])" for m
    by (rule size_checkpoint_exact)
  show "checkpoint_field f wt d m = Inr (m', d') \<Longrightarrow> length d' \<le> length d" for f wt d m m' d'
    by (simp add: checkpoint_field_def on_progress split: if_splits)
  show "clean (checkpoint_field f wt d m)" for f wt d m
    by (simp add: checkpoint_field_def on_no_stuck no_stuck_simps)
  show "checkpoint_field f wt d m = Inr (m', d') \<Longrightarrow> checkpoint_field f wt (d @ e) m = Inr (m', d' @ e)" for f wt d m m' d' e
    by (auto simp: checkpoint_field_def on_extend split: if_splits)
  show "wf_checkpoint m \<Longrightarrow> size_checkpoint m < 2 ^ 64" for m
    by (simp add: wf_checkpoint_def)
  show "wf_checkpoint m \<Longrightarrow> dec_loop checkpoint_field (append_checkpoint m []) checkpoint_zero = Inr (canon_checkpoint m)" for m
    using checkpoint_merge [of m "[]"] by (simp add: wire_simps)
qed simp

lemmas checkpoint_put [put_simps] = checkpoint_msg.put_sub_fld checkpoint_msg.put_subs_fld
lemmas checkpoint_size [size_simps] = checkpoint_msg.length_fld_sub checkpoint_msg.length_fld_subs
lemmas checkpoint_wire [wire_simps] = unmarshal_checkpoint_def checkpoint_msg.on_msg_sub
lemmas checkpoint_total [no_stuck_simps] = unmarshal_checkpoint_def checkpoint_msg.no_stuck

section \<open>Lease\<close>

record lease =
  ls_holder :: string
  ls_purpose :: string
  ls_acquired_at :: "timestamp option"
  ls_expires_at :: "timestamp option"
  ls_epoch :: u64

definition lease_zero :: lease where
  "lease_zero =
    \<lparr>ls_holder = [], ls_purpose = [], ls_acquired_at = None, ls_expires_at = None,
     ls_epoch = 0\<rparr>"

definition size_lease :: "lease \<Rightarrow> nat" where
  "size_lease m =
     sz_string 1 (ls_holder m)
     + sz_string 2 (ls_purpose m)
     + sz_time (ls_acquired_at m)
     + sz_time (ls_expires_at m)
     + sz_uint 5 (ls_epoch m)"

definition append_lease :: "lease \<Rightarrow> bytes \<Rightarrow> bytes" where
  "append_lease m buf =
    (let buf = put_string 1 (ls_holder m) buf;
         buf = put_string 2 (ls_purpose m) buf;
         buf = put_time 3 (ls_acquired_at m) buf;
         buf = put_time 4 (ls_expires_at m) buf;
         buf = put_uint 5 (ls_epoch m) buf
     in buf)"

definition marshal_lease :: "lease \<Rightarrow> bytes" where
  "marshal_lease m = append_lease m []"

definition lease_field :: "lease handler" where
  "lease_field f wt d m =
    (if f = 1 \<and> wt = 2 then on_str d (\<lambda>s. m\<lparr>ls_holder := s\<rparr>)
     else if f = 2 \<and> wt = 2 then on_str d (\<lambda>s. m\<lparr>ls_purpose := s\<rparr>)
     else if f = 3 \<and> wt = 2 then on_msg d (\<lambda>b. unmarshal_timestamp b (or_new timestamp_zero (ls_acquired_at m))) 
       (\<lambda>e. m\<lparr>ls_acquired_at := Some e\<rparr>)
     else if f = 4 \<and> wt = 2 then on_msg d (\<lambda>b. unmarshal_timestamp b (or_new timestamp_zero (ls_expires_at m))) 
       (\<lambda>e. m\<lparr>ls_expires_at := Some e\<rparr>)
     else if f = 5 \<and> wt = 0 then on_uint d (\<lambda>v. m\<lparr>ls_epoch := v\<rparr>)
     else on_skip wt d m)"

definition unmarshal_lease :: "bytes \<Rightarrow> lease \<Rightarrow> wire_error + lease" where
  "unmarshal_lease b m = dec_loop lease_field b m"

definition decode_lease :: "bytes \<Rightarrow> wire_error + lease" where
  "decode_lease b = unmarshal_lease b lease_zero"

definition canon_lease :: "lease \<Rightarrow> lease" where
  "canon_lease m = m\<lparr>ls_acquired_at := canon_time (ls_acquired_at m),
     ls_expires_at := canon_time (ls_expires_at m)\<rparr>"

definition wf_lease :: "lease \<Rightarrow> bool" where
  "wf_lease m \<longleftrightarrow>
     size_lease m < 2 ^ 64
     \<and> wf_str (ls_holder m)
     \<and> wf_str (ls_purpose m)"

lemma append_lease_fields:
  "append_lease m buf = buf @ fld_string 1 (ls_holder m)
     @ fld_string 2 (ls_purpose m)
     @ fld_sub 3 (\<lambda>t. append_timestamp t []) (canon_time (ls_acquired_at m))
     @ fld_sub 4 (\<lambda>t. append_timestamp t []) (canon_time (ls_expires_at m))
     @ fld_uint 5 (ls_epoch m)"
  by (simp add: append_lease_def put_simps)

lemma size_lease_exact: "size_lease m = length (append_lease m [])"
  by (simp add: append_lease_fields size_lease_def size_simps)

lemma lease_dec_ls_acquired_at [wire_simps]:
  assumes prems: "ls_acquired_at m = None"
  shows "dec_loop lease_field (fld_sub 3 (\<lambda>t. append_timestamp t []) mo @ rest) m = dec_loop lease_field rest (m\<lparr>ls_acquired_at := mo\<rparr>)"
  proof (cases mo)
  case (Some t)
  then show ?thesis
    using prems loop_msg [of 3 lease_field "append_timestamp t []" rest m "m\<lparr>ls_acquired_at := mo\<rparr>"]
    by (simp add: fld_sub_def lease_field_def wire_simps)
qed (use prems in \<open>cases m; simp add: fld_sub_def\<close>)

lemma lease_dec_ls_expires_at [wire_simps]:
  assumes prems: "ls_expires_at m = None"
  shows "dec_loop lease_field (fld_sub 4 (\<lambda>t. append_timestamp t []) mo @ rest) m = dec_loop lease_field rest (m\<lparr>ls_expires_at := mo\<rparr>)"
  proof (cases mo)
  case (Some t)
  then show ?thesis
    using prems loop_msg [of 4 lease_field "append_timestamp t []" rest m "m\<lparr>ls_expires_at := mo\<rparr>"]
    by (simp add: fld_sub_def lease_field_def wire_simps)
qed (use prems in \<open>cases m; simp add: fld_sub_def\<close>)

lemma lease_merge:
  "wf_lease m \<Longrightarrow> dec_loop lease_field (append_lease m [] @ rest) lease_zero = dec_loop lease_field rest (canon_lease m)"
  by (cases m) (simp add: append_lease_fields wf_lease_def lease_zero_def canon_lease_def wire_simps lease_field_def)

interpretation lease_msg: wire_message size_lease append_lease "\<lambda>_. True" lease_field lease_zero wf_lease canon_lease
proof
  show "append_lease m buf = buf @ append_lease m []" for m buf
    by (simp add: append_lease_fields)
  show "size_lease m = length (append_lease m [])" for m
    by (rule size_lease_exact)
  show "lease_field f wt d m = Inr (m', d') \<Longrightarrow> length d' \<le> length d" for f wt d m m' d'
    by (simp add: lease_field_def on_progress split: if_splits)
  show "clean (lease_field f wt d m)" for f wt d m
    by (simp add: lease_field_def on_no_stuck no_stuck_simps)
  show "lease_field f wt d m = Inr (m', d') \<Longrightarrow> lease_field f wt (d @ e) m = Inr (m', d' @ e)" for f wt d m m' d' e
    by (auto simp: lease_field_def on_extend split: if_splits)
  show "wf_lease m \<Longrightarrow> size_lease m < 2 ^ 64" for m
    by (simp add: wf_lease_def)
  show "wf_lease m \<Longrightarrow> dec_loop lease_field (append_lease m []) lease_zero = Inr (canon_lease m)" for m
    using lease_merge [of m "[]"] by (simp add: wire_simps)
qed simp

lemmas lease_put [put_simps] = lease_msg.put_sub_fld lease_msg.put_subs_fld
lemmas lease_size [size_simps] = lease_msg.length_fld_sub lease_msg.length_fld_subs
lemmas lease_wire [wire_simps] = unmarshal_lease_def lease_msg.on_msg_sub
lemmas lease_total [no_stuck_simps] = unmarshal_lease_def lease_msg.no_stuck

end
