(* ===== verification/Catalog_Codec.thy ===== *)
theory Catalog_Codec
  imports Log_Codec
begin

text \<open>
  The remaining messages of \<^verbatim>\<open>internal/store/proto\<close>: bundle lists, fsck reports, the size catalog
  and maintainer heartbeats, in the same layout as \<^verbatim>\<open>Manifest_Codec\<close>.
\<close>

section \<open>SkippedSlot\<close>

record skipped_slot =
  sk_strategy :: string
  sk_slot :: u64
  sk_base_id :: string
  sk_as_of_seq :: u64
  sk_reason :: string
  sk_at :: "timestamp option"

definition skipped_slot_zero :: skipped_slot where
  "skipped_slot_zero =
    \<lparr>sk_strategy = [], sk_slot = 0, sk_base_id = [], sk_as_of_seq = 0, sk_reason = [],
     sk_at = None\<rparr>"

definition size_skipped_slot :: "skipped_slot \<Rightarrow> nat" where
  "size_skipped_slot m =
     sz_string 1 (sk_strategy m)
     + sz_uint 2 (sk_slot m)
     + sz_string 3 (sk_base_id m)
     + sz_uint 4 (sk_as_of_seq m)
     + sz_string 5 (sk_reason m)
     + sz_time (sk_at m)"

definition append_skipped_slot :: "skipped_slot \<Rightarrow> bytes \<Rightarrow> bytes" where
  "append_skipped_slot m buf =
    (let buf = put_string 1 (sk_strategy m) buf;
         buf = put_uint 2 (sk_slot m) buf;
         buf = put_string 3 (sk_base_id m) buf;
         buf = put_uint 4 (sk_as_of_seq m) buf;
         buf = put_string 5 (sk_reason m) buf;
         buf = put_time 6 (sk_at m) buf
     in buf)"

definition marshal_skipped_slot :: "skipped_slot \<Rightarrow> bytes" where
  "marshal_skipped_slot m = append_skipped_slot m []"

definition skipped_slot_field :: "skipped_slot handler" where
  "skipped_slot_field f wt d m =
    (if f = 1 \<and> wt = 2 then on_str d (\<lambda>s. m\<lparr>sk_strategy := s\<rparr>)
     else if f = 2 \<and> wt = 0 then on_uint d (\<lambda>v. m\<lparr>sk_slot := v\<rparr>)
     else if f = 3 \<and> wt = 2 then on_str d (\<lambda>s. m\<lparr>sk_base_id := s\<rparr>)
     else if f = 4 \<and> wt = 0 then on_uint d (\<lambda>v. m\<lparr>sk_as_of_seq := v\<rparr>)
     else if f = 5 \<and> wt = 2 then on_str d (\<lambda>s. m\<lparr>sk_reason := s\<rparr>)
     else if f = 6 \<and> wt = 2 then on_msg d (\<lambda>b. unmarshal_timestamp b (or_new timestamp_zero (sk_at m))) 
       (\<lambda>e. m\<lparr>sk_at := Some e\<rparr>)
     else on_skip wt d m)"

definition unmarshal_skipped_slot :: "bytes \<Rightarrow> skipped_slot \<Rightarrow> wire_error + skipped_slot" where
  "unmarshal_skipped_slot b m = dec_loop skipped_slot_field b m"

definition decode_skipped_slot :: "bytes \<Rightarrow> wire_error + skipped_slot" where
  "decode_skipped_slot b = unmarshal_skipped_slot b skipped_slot_zero"

definition canon_skipped_slot :: "skipped_slot \<Rightarrow> skipped_slot" where
  "canon_skipped_slot m = m\<lparr>sk_at := canon_time (sk_at m)\<rparr>"

definition wf_skipped_slot :: "skipped_slot \<Rightarrow> bool" where
  "wf_skipped_slot m \<longleftrightarrow>
     size_skipped_slot m < 2 ^ 64
     \<and> wf_str (sk_strategy m)
     \<and> wf_str (sk_base_id m)
     \<and> wf_str (sk_reason m)"

lemma append_skipped_slot_fields:
  "append_skipped_slot m buf = buf @ fld_string 1 (sk_strategy m)
     @ fld_uint 2 (sk_slot m)
     @ fld_string 3 (sk_base_id m)
     @ fld_uint 4 (sk_as_of_seq m)
     @ fld_string 5 (sk_reason m)
     @ fld_sub 6 (\<lambda>t. append_timestamp t []) (canon_time (sk_at m))"
  by (simp add: append_skipped_slot_def put_simps)

lemma size_skipped_slot_exact: "size_skipped_slot m = length (append_skipped_slot m [])"
  by (simp add: append_skipped_slot_fields size_skipped_slot_def size_simps)

lemma skipped_slot_dec_sk_at [wire_simps]:
  assumes prems: "sk_at m = None"
  shows "dec_loop skipped_slot_field (fld_sub 6 (\<lambda>t. append_timestamp t []) mo @ rest) m = dec_loop skipped_slot_field rest (m\<lparr>sk_at := mo\<rparr>)"
  proof (cases mo)
  case (Some t)
  then show ?thesis
    using prems loop_msg [of 6 skipped_slot_field "append_timestamp t []" rest m "m\<lparr>sk_at := mo\<rparr>"]
    by (simp add: fld_sub_def skipped_slot_field_def wire_simps)
qed (use prems in \<open>cases m; simp add: fld_sub_def\<close>)

lemma skipped_slot_merge:
  "wf_skipped_slot m \<Longrightarrow> dec_loop skipped_slot_field (append_skipped_slot m [] @ rest) skipped_slot_zero = dec_loop skipped_slot_field rest (canon_skipped_slot m)"
  by (cases m) (simp add: append_skipped_slot_fields wf_skipped_slot_def skipped_slot_zero_def canon_skipped_slot_def wire_simps skipped_slot_field_def)

interpretation skipped_slot_msg: wire_message size_skipped_slot append_skipped_slot "\<lambda>_. True" skipped_slot_field skipped_slot_zero wf_skipped_slot canon_skipped_slot
proof
  show "append_skipped_slot m buf = buf @ append_skipped_slot m []" for m buf
    by (simp add: append_skipped_slot_fields)
  show "size_skipped_slot m = length (append_skipped_slot m [])" for m
    by (rule size_skipped_slot_exact)
  show "skipped_slot_field f wt d m = Inr (m', d') \<Longrightarrow> length d' \<le> length d" for f wt d m m' d'
    by (simp add: skipped_slot_field_def on_progress split: if_splits)
  show "clean (skipped_slot_field f wt d m)" for f wt d m
    by (simp add: skipped_slot_field_def on_no_stuck no_stuck_simps)
  show "skipped_slot_field f wt d m = Inr (m', d') \<Longrightarrow> skipped_slot_field f wt (d @ e) m = Inr (m', d' @ e)" for f wt d m m' d' e
    by (auto simp: skipped_slot_field_def on_extend split: if_splits)
  show "wf_skipped_slot m \<Longrightarrow> size_skipped_slot m < 2 ^ 64" for m
    by (simp add: wf_skipped_slot_def)
  show "wf_skipped_slot m \<Longrightarrow> dec_loop skipped_slot_field (append_skipped_slot m []) skipped_slot_zero = Inr (canon_skipped_slot m)" for m
    using skipped_slot_merge [of m "[]"] by (simp add: wire_simps)
qed simp

lemmas skipped_slot_put [put_simps] = skipped_slot_msg.put_sub_fld skipped_slot_msg.put_subs_fld
lemmas skipped_slot_size [size_simps] = skipped_slot_msg.length_fld_sub skipped_slot_msg.length_fld_subs
lemmas skipped_slot_wire [wire_simps] = unmarshal_skipped_slot_def skipped_slot_msg.on_msg_sub
lemmas skipped_slot_total [no_stuck_simps] = unmarshal_skipped_slot_def skipped_slot_msg.no_stuck

section \<open>BundleEntry\<close>

record bundle_entry =
  be_id :: string
  be_key :: string
  be_strategy :: string
  be_kind :: string
  be_creation_token :: u64
  be_seq :: u64
  be_size :: u64
  be_base_id :: string
  be_created_at :: "timestamp option"
  be_version :: string
  be_tips :: "ref list"
  be_slot :: u64
  be_filter :: string

definition bundle_entry_zero :: bundle_entry where
  "bundle_entry_zero =
    \<lparr>be_id = [], be_key = [], be_strategy = [], be_kind = [], be_creation_token = 0,
     be_seq = 0, be_size = 0, be_base_id = [], be_created_at = None, be_version = [],
     be_tips = [], be_slot = 0, be_filter = []\<rparr>"

definition size_bundle_entry :: "bundle_entry \<Rightarrow> nat" where
  "size_bundle_entry m =
     sz_string 1 (be_id m)
     + sz_string 2 (be_key m)
     + sz_string 3 (be_strategy m)
     + sz_string 4 (be_kind m)
     + sz_uint 5 (be_creation_token m)
     + sz_uint 6 (be_seq m)
     + sz_uint 7 (be_size m)
     + sz_string 8 (be_base_id m)
     + sz_time (be_created_at m)
     + sz_string 10 (be_version m)
     + sz_subs size_ref (be_tips m)
     + sz_uint 12 (be_slot m)
     + sz_string 13 (be_filter m)"

definition append_bundle_entry :: "bundle_entry \<Rightarrow> bytes \<Rightarrow> bytes" where
  "append_bundle_entry m buf =
    (let buf = put_string 1 (be_id m) buf;
         buf = put_string 2 (be_key m) buf;
         buf = put_string 3 (be_strategy m) buf;
         buf = put_string 4 (be_kind m) buf;
         buf = put_uint 5 (be_creation_token m) buf;
         buf = put_uint 6 (be_seq m) buf;
         buf = put_uint 7 (be_size m) buf;
         buf = put_string 8 (be_base_id m) buf;
         buf = put_time 9 (be_created_at m) buf;
         buf = put_string 10 (be_version m) buf;
         buf = put_subs 11 size_ref append_ref (be_tips m) buf;
         buf = put_uint 12 (be_slot m) buf;
         buf = put_string 13 (be_filter m) buf
     in buf)"

definition marshal_bundle_entry :: "bundle_entry \<Rightarrow> bytes" where
  "marshal_bundle_entry m = append_bundle_entry m []"

definition bundle_entry_field :: "bundle_entry handler" where
  "bundle_entry_field f wt d m =
    (if f = 1 \<and> wt = 2 then on_str d (\<lambda>s. m\<lparr>be_id := s\<rparr>)
     else if f = 2 \<and> wt = 2 then on_str d (\<lambda>s. m\<lparr>be_key := s\<rparr>)
     else if f = 3 \<and> wt = 2 then on_str d (\<lambda>s. m\<lparr>be_strategy := s\<rparr>)
     else if f = 4 \<and> wt = 2 then on_str d (\<lambda>s. m\<lparr>be_kind := s\<rparr>)
     else if f = 5 \<and> wt = 0 then on_uint d (\<lambda>v. m\<lparr>be_creation_token := v\<rparr>)
     else if f = 6 \<and> wt = 0 then on_uint d (\<lambda>v. m\<lparr>be_seq := v\<rparr>)
     else if f = 7 \<and> wt = 0 then on_uint d (\<lambda>v. m\<lparr>be_size := v\<rparr>)
     else if f = 8 \<and> wt = 2 then on_str d (\<lambda>s. m\<lparr>be_base_id := s\<rparr>)
     else if f = 9 \<and> wt = 2 then on_msg d (\<lambda>b. unmarshal_timestamp b (or_new timestamp_zero (be_created_at m))) 
       (\<lambda>e. m\<lparr>be_created_at := Some e\<rparr>)
     else if f = 10 \<and> wt = 2 then on_str d (\<lambda>s. m\<lparr>be_version := s\<rparr>)
     else if f = 11 \<and> wt = 2 then on_msg d (\<lambda>b. unmarshal_ref b ref_zero) 
       (\<lambda>e. m\<lparr>be_tips := be_tips m @ [e]\<rparr>)
     else if f = 12 \<and> wt = 0 then on_uint d (\<lambda>v. m\<lparr>be_slot := v\<rparr>)
     else if f = 13 \<and> wt = 2 then on_str d (\<lambda>s. m\<lparr>be_filter := s\<rparr>)
     else on_skip wt d m)"

definition unmarshal_bundle_entry :: "bytes \<Rightarrow> bundle_entry \<Rightarrow> wire_error + bundle_entry" where
  "unmarshal_bundle_entry b m = dec_loop bundle_entry_field b m"

definition decode_bundle_entry :: "bytes \<Rightarrow> wire_error + bundle_entry" where
  "decode_bundle_entry b = unmarshal_bundle_entry b bundle_entry_zero"

definition canon_bundle_entry :: "bundle_entry \<Rightarrow> bundle_entry" where
  "canon_bundle_entry m = m\<lparr>be_created_at := canon_time (be_created_at m)\<rparr>"

definition wf_bundle_entry :: "bundle_entry \<Rightarrow> bool" where
  "wf_bundle_entry m \<longleftrightarrow>
     size_bundle_entry m < 2 ^ 64
     \<and> wf_str (be_id m)
     \<and> wf_str (be_key m)
     \<and> wf_str (be_strategy m)
     \<and> wf_str (be_kind m)
     \<and> wf_str (be_base_id m)
     \<and> wf_str (be_version m)
     \<and> list_all wf_ref (be_tips m)
     \<and> wf_str (be_filter m)"

lemma append_bundle_entry_fields:
  "append_bundle_entry m buf = buf @ fld_string 1 (be_id m)
     @ fld_string 2 (be_key m)
     @ fld_string 3 (be_strategy m)
     @ fld_string 4 (be_kind m)
     @ fld_uint 5 (be_creation_token m)
     @ fld_uint 6 (be_seq m)
     @ fld_uint 7 (be_size m)
     @ fld_string 8 (be_base_id m)
     @ fld_sub 9 (\<lambda>t. append_timestamp t []) (canon_time (be_created_at m))
     @ fld_string 10 (be_version m)
     @ fld_subs 11 (\<lambda>x. append_ref x []) (be_tips m)
     @ fld_uint 12 (be_slot m)
     @ fld_string 13 (be_filter m)"
  by (simp add: append_bundle_entry_def put_simps)

lemma size_bundle_entry_exact: "size_bundle_entry m = length (append_bundle_entry m [])"
  by (simp add: append_bundle_entry_fields size_bundle_entry_def size_simps)

lemma bundle_entry_dec_be_created_at [wire_simps]:
  assumes prems: "be_created_at m = None"
  shows "dec_loop bundle_entry_field (fld_sub 9 (\<lambda>t. append_timestamp t []) mo @ rest) m = dec_loop bundle_entry_field rest (m\<lparr>be_created_at := mo\<rparr>)"
  proof (cases mo)
  case (Some t)
  then show ?thesis
    using prems loop_msg [of 9 bundle_entry_field "append_timestamp t []" rest m "m\<lparr>be_created_at := mo\<rparr>"]
    by (simp add: fld_sub_def bundle_entry_field_def wire_simps)
qed (use prems in \<open>cases m; simp add: fld_sub_def\<close>)

lemma bundle_entry_dec_be_tips [wire_simps]:
  "list_all wf_ref xs \<Longrightarrow>
   dec_loop bundle_entry_field (fld_subs 11 (\<lambda>x. append_ref x []) xs @ rest) m
     = dec_loop bundle_entry_field rest (m\<lparr>be_tips := be_tips m @ xs\<rparr>)"
  using loop_subs [of 11 xs bundle_entry_field "\<lambda>x. append_ref x []" "\<lambda>l. m\<lparr>be_tips := l\<rparr>" "(\<lambda>x. x)" rest "be_tips m"]
  by (cases m) (simp add: bundle_entry_field_def wire_simps list_all_iff)

lemma bundle_entry_merge:
  "wf_bundle_entry m \<Longrightarrow> dec_loop bundle_entry_field (append_bundle_entry m [] @ rest) bundle_entry_zero = dec_loop bundle_entry_field rest (canon_bundle_entry m)"
  by (cases m) (simp add: append_bundle_entry_fields wf_bundle_entry_def bundle_entry_zero_def canon_bundle_entry_def wire_simps bundle_entry_field_def)

interpretation bundle_entry_msg: wire_message size_bundle_entry append_bundle_entry "\<lambda>_. True" bundle_entry_field bundle_entry_zero wf_bundle_entry canon_bundle_entry
proof
  show "append_bundle_entry m buf = buf @ append_bundle_entry m []" for m buf
    by (simp add: append_bundle_entry_fields)
  show "size_bundle_entry m = length (append_bundle_entry m [])" for m
    by (rule size_bundle_entry_exact)
  show "bundle_entry_field f wt d m = Inr (m', d') \<Longrightarrow> length d' \<le> length d" for f wt d m m' d'
    by (simp add: bundle_entry_field_def on_progress split: if_splits)
  show "clean (bundle_entry_field f wt d m)" for f wt d m
    by (simp add: bundle_entry_field_def on_no_stuck no_stuck_simps)
  show "bundle_entry_field f wt d m = Inr (m', d') \<Longrightarrow> bundle_entry_field f wt (d @ e) m = Inr (m', d' @ e)" for f wt d m m' d' e
    by (auto simp: bundle_entry_field_def on_extend split: if_splits)
  show "wf_bundle_entry m \<Longrightarrow> size_bundle_entry m < 2 ^ 64" for m
    by (simp add: wf_bundle_entry_def)
  show "wf_bundle_entry m \<Longrightarrow> dec_loop bundle_entry_field (append_bundle_entry m []) bundle_entry_zero = Inr (canon_bundle_entry m)" for m
    using bundle_entry_merge [of m "[]"] by (simp add: wire_simps)
qed simp

lemmas bundle_entry_put [put_simps] = bundle_entry_msg.put_sub_fld bundle_entry_msg.put_subs_fld
lemmas bundle_entry_size [size_simps] = bundle_entry_msg.length_fld_sub bundle_entry_msg.length_fld_subs
lemmas bundle_entry_wire [wire_simps] = unmarshal_bundle_entry_def bundle_entry_msg.on_msg_sub
lemmas bundle_entry_total [no_stuck_simps] = unmarshal_bundle_entry_def bundle_entry_msg.no_stuck

section \<open>BundleList\<close>

record bundle_list =
  bl_mode :: string
  bl_heuristic :: string
  bl_bundles :: "bundle_entry list"
  bl_updated_at :: "timestamp option"
  bl_skipped :: "skipped_slot list"

definition bundle_list_zero :: bundle_list where
  "bundle_list_zero =
    \<lparr>bl_mode = [], bl_heuristic = [], bl_bundles = [], bl_updated_at = None,
     bl_skipped = []\<rparr>"

definition size_bundle_list :: "bundle_list \<Rightarrow> nat" where
  "size_bundle_list m =
     sz_string 1 (bl_mode m)
     + sz_string 2 (bl_heuristic m)
     + sz_subs size_bundle_entry (bl_bundles m)
     + sz_time (bl_updated_at m)
     + sz_subs size_skipped_slot (bl_skipped m)"

definition append_bundle_list :: "bundle_list \<Rightarrow> bytes \<Rightarrow> bytes" where
  "append_bundle_list m buf =
    (let buf = put_string 1 (bl_mode m) buf;
         buf = put_string 2 (bl_heuristic m) buf;
         buf = put_subs 3 size_bundle_entry append_bundle_entry (bl_bundles m) buf;
         buf = put_time 4 (bl_updated_at m) buf;
         buf = put_subs 5 size_skipped_slot append_skipped_slot (bl_skipped m) buf
     in buf)"

definition marshal_bundle_list :: "bundle_list \<Rightarrow> bytes" where
  "marshal_bundle_list m = append_bundle_list m []"

definition bundle_list_field :: "bundle_list handler" where
  "bundle_list_field f wt d m =
    (if f = 1 \<and> wt = 2 then on_str d (\<lambda>s. m\<lparr>bl_mode := s\<rparr>)
     else if f = 2 \<and> wt = 2 then on_str d (\<lambda>s. m\<lparr>bl_heuristic := s\<rparr>)
     else if f = 3 \<and> wt = 2 then on_msg d (\<lambda>b. unmarshal_bundle_entry b bundle_entry_zero) 
       (\<lambda>e. m\<lparr>bl_bundles := bl_bundles m @ [e]\<rparr>)
     else if f = 4 \<and> wt = 2 then on_msg d (\<lambda>b. unmarshal_timestamp b (or_new timestamp_zero (bl_updated_at m))) 
       (\<lambda>e. m\<lparr>bl_updated_at := Some e\<rparr>)
     else if f = 5 \<and> wt = 2 then on_msg d (\<lambda>b. unmarshal_skipped_slot b skipped_slot_zero) 
       (\<lambda>e. m\<lparr>bl_skipped := bl_skipped m @ [e]\<rparr>)
     else on_skip wt d m)"

definition unmarshal_bundle_list :: "bytes \<Rightarrow> bundle_list \<Rightarrow> wire_error + bundle_list" where
  "unmarshal_bundle_list b m = dec_loop bundle_list_field b m"

definition decode_bundle_list :: "bytes \<Rightarrow> wire_error + bundle_list" where
  "decode_bundle_list b = unmarshal_bundle_list b bundle_list_zero"

definition canon_bundle_list :: "bundle_list \<Rightarrow> bundle_list" where
  "canon_bundle_list m = m\<lparr>bl_bundles := map canon_bundle_entry (bl_bundles m),
     bl_updated_at := canon_time (bl_updated_at m),
     bl_skipped := map canon_skipped_slot (bl_skipped m)\<rparr>"

definition wf_bundle_list :: "bundle_list \<Rightarrow> bool" where
  "wf_bundle_list m \<longleftrightarrow>
     size_bundle_list m < 2 ^ 64
     \<and> wf_str (bl_mode m)
     \<and> wf_str (bl_heuristic m)
     \<and> list_all wf_bundle_entry (bl_bundles m)
     \<and> list_all wf_skipped_slot (bl_skipped m)"

lemma append_bundle_list_fields:
  "append_bundle_list m buf = buf @ fld_string 1 (bl_mode m)
     @ fld_string 2 (bl_heuristic m)
     @ fld_subs 3 (\<lambda>x. append_bundle_entry x []) (bl_bundles m)
     @ fld_sub 4 (\<lambda>t. append_timestamp t []) (canon_time (bl_updated_at m))
     @ fld_subs 5 (\<lambda>x. append_skipped_slot x []) (bl_skipped m)"
  by (simp add: append_bundle_list_def put_simps)

lemma size_bundle_list_exact: "size_bundle_list m = length (append_bundle_list m [])"
  by (simp add: append_bundle_list_fields size_bundle_list_def size_simps)

lemma bundle_list_dec_bl_bundles [wire_simps]:
  "list_all wf_bundle_entry xs \<Longrightarrow>
   dec_loop bundle_list_field (fld_subs 3 (\<lambda>x. append_bundle_entry x []) xs @ rest) m
     = dec_loop bundle_list_field rest (m\<lparr>bl_bundles := bl_bundles m @ map canon_bundle_entry xs\<rparr>)"
  using loop_subs [of 3 xs bundle_list_field "\<lambda>x. append_bundle_entry x []" "\<lambda>l. m\<lparr>bl_bundles := l\<rparr>" "canon_bundle_entry" rest "bl_bundles m"]
  by (cases m) (simp add: bundle_list_field_def wire_simps list_all_iff)

lemma bundle_list_dec_bl_updated_at [wire_simps]:
  assumes prems: "bl_updated_at m = None"
  shows "dec_loop bundle_list_field (fld_sub 4 (\<lambda>t. append_timestamp t []) mo @ rest) m = dec_loop bundle_list_field rest (m\<lparr>bl_updated_at := mo\<rparr>)"
  proof (cases mo)
  case (Some t)
  then show ?thesis
    using prems loop_msg [of 4 bundle_list_field "append_timestamp t []" rest m "m\<lparr>bl_updated_at := mo\<rparr>"]
    by (simp add: fld_sub_def bundle_list_field_def wire_simps)
qed (use prems in \<open>cases m; simp add: fld_sub_def\<close>)

lemma bundle_list_dec_bl_skipped [wire_simps]:
  "list_all wf_skipped_slot xs \<Longrightarrow>
   dec_loop bundle_list_field (fld_subs 5 (\<lambda>x. append_skipped_slot x []) xs @ rest) m
     = dec_loop bundle_list_field rest (m\<lparr>bl_skipped := bl_skipped m @ map canon_skipped_slot xs\<rparr>)"
  using loop_subs [of 5 xs bundle_list_field "\<lambda>x. append_skipped_slot x []" "\<lambda>l. m\<lparr>bl_skipped := l\<rparr>" "canon_skipped_slot" rest "bl_skipped m"]
  by (cases m) (simp add: bundle_list_field_def wire_simps list_all_iff)

lemma bundle_list_merge:
  "wf_bundle_list m \<Longrightarrow> dec_loop bundle_list_field (append_bundle_list m [] @ rest) bundle_list_zero = dec_loop bundle_list_field rest (canon_bundle_list m)"
  by (cases m) (simp add: append_bundle_list_fields wf_bundle_list_def bundle_list_zero_def canon_bundle_list_def wire_simps bundle_list_field_def)

interpretation bundle_list_msg: wire_message size_bundle_list append_bundle_list "\<lambda>_. True" bundle_list_field bundle_list_zero wf_bundle_list canon_bundle_list
proof
  show "append_bundle_list m buf = buf @ append_bundle_list m []" for m buf
    by (simp add: append_bundle_list_fields)
  show "size_bundle_list m = length (append_bundle_list m [])" for m
    by (rule size_bundle_list_exact)
  show "bundle_list_field f wt d m = Inr (m', d') \<Longrightarrow> length d' \<le> length d" for f wt d m m' d'
    by (simp add: bundle_list_field_def on_progress split: if_splits)
  show "clean (bundle_list_field f wt d m)" for f wt d m
    by (simp add: bundle_list_field_def on_no_stuck no_stuck_simps)
  show "bundle_list_field f wt d m = Inr (m', d') \<Longrightarrow> bundle_list_field f wt (d @ e) m = Inr (m', d' @ e)" for f wt d m m' d' e
    by (auto simp: bundle_list_field_def on_extend split: if_splits)
  show "wf_bundle_list m \<Longrightarrow> size_bundle_list m < 2 ^ 64" for m
    by (simp add: wf_bundle_list_def)
  show "wf_bundle_list m \<Longrightarrow> dec_loop bundle_list_field (append_bundle_list m []) bundle_list_zero = Inr (canon_bundle_list m)" for m
    using bundle_list_merge [of m "[]"] by (simp add: wire_simps)
qed simp

lemmas bundle_list_put [put_simps] = bundle_list_msg.put_sub_fld bundle_list_msg.put_subs_fld
lemmas bundle_list_size [size_simps] = bundle_list_msg.length_fld_sub bundle_list_msg.length_fld_subs
lemmas bundle_list_wire [wire_simps] = unmarshal_bundle_list_def bundle_list_msg.on_msg_sub
lemmas bundle_list_total [no_stuck_simps] = unmarshal_bundle_list_def bundle_list_msg.no_stuck


text \<open>A negative zero is not written, so it is read back as zero.\<close>

definition canon_f64 :: "u64 \<Rightarrow> u64" where
  "canon_f64 v = (if f64_is_zero v then 0 else v)"

section \<open>FsckReport\<close>

record fsck_report =
  fr_seq :: u64
  fr_at :: "timestamp option"
  fr_host :: string
  fr_missing :: "string list"
  fr_missing_total :: u64
  fr_problems :: u64
  fr_elapsed_secs :: u64
  fr_repaired_seq :: u64

definition fsck_report_zero :: fsck_report where
  "fsck_report_zero =
    \<lparr>fr_seq = 0, fr_at = None, fr_host = [], fr_missing = [], fr_missing_total = 0,
     fr_problems = 0, fr_elapsed_secs = 0, fr_repaired_seq = 0\<rparr>"

definition size_fsck_report :: "fsck_report \<Rightarrow> nat" where
  "size_fsck_report m =
     sz_uint 1 (fr_seq m)
     + sz_time (fr_at m)
     + sz_string 3 (fr_host m)
     + sz_strings 4 (fr_missing m)
     + sz_uint 5 (fr_missing_total m)
     + sz_uint 6 (fr_problems m)
     + sz_f64 7 (fr_elapsed_secs m)
     + sz_uint 8 (fr_repaired_seq m)"

definition append_fsck_report :: "fsck_report \<Rightarrow> bytes \<Rightarrow> bytes" where
  "append_fsck_report m buf =
    (let buf = put_uint 1 (fr_seq m) buf;
         buf = put_time 2 (fr_at m) buf;
         buf = put_string 3 (fr_host m) buf;
         buf = put_strings 4 (fr_missing m) buf;
         buf = put_uint 5 (fr_missing_total m) buf;
         buf = put_uint 6 (fr_problems m) buf;
         buf = put_f64 7 (fr_elapsed_secs m) buf;
         buf = put_uint 8 (fr_repaired_seq m) buf
     in buf)"

definition marshal_fsck_report :: "fsck_report \<Rightarrow> bytes" where
  "marshal_fsck_report m = append_fsck_report m []"

definition fsck_report_field :: "fsck_report handler" where
  "fsck_report_field f wt d m =
    (if f = 1 \<and> wt = 0 then on_uint d (\<lambda>v. m\<lparr>fr_seq := v\<rparr>)
     else if f = 2 \<and> wt = 2 then on_msg d (\<lambda>b. unmarshal_timestamp b (or_new timestamp_zero (fr_at m))) 
       (\<lambda>e. m\<lparr>fr_at := Some e\<rparr>)
     else if f = 3 \<and> wt = 2 then on_str d (\<lambda>s. m\<lparr>fr_host := s\<rparr>)
     else if f = 4 \<and> wt = 2 then on_str d (\<lambda>s. m\<lparr>fr_missing := fr_missing m @ [s]\<rparr>)
     else if f = 5 \<and> wt = 0 then on_uint d (\<lambda>v. m\<lparr>fr_missing_total := v\<rparr>)
     else if f = 6 \<and> wt = 0 then on_uint d (\<lambda>v. m\<lparr>fr_problems := v\<rparr>)
     else if f = 7 \<and> wt = 1 then on_f64 d (\<lambda>v. m\<lparr>fr_elapsed_secs := v\<rparr>)
     else if f = 8 \<and> wt = 0 then on_uint d (\<lambda>v. m\<lparr>fr_repaired_seq := v\<rparr>)
     else on_skip wt d m)"

definition unmarshal_fsck_report :: "bytes \<Rightarrow> fsck_report \<Rightarrow> wire_error + fsck_report" where
  "unmarshal_fsck_report b m = dec_loop fsck_report_field b m"

definition decode_fsck_report :: "bytes \<Rightarrow> wire_error + fsck_report" where
  "decode_fsck_report b = unmarshal_fsck_report b fsck_report_zero"

definition canon_fsck_report :: "fsck_report \<Rightarrow> fsck_report" where
  "canon_fsck_report m = m\<lparr>fr_at := canon_time (fr_at m),
     fr_elapsed_secs := canon_f64 (fr_elapsed_secs m)\<rparr>"

definition wf_fsck_report :: "fsck_report \<Rightarrow> bool" where
  "wf_fsck_report m \<longleftrightarrow>
     size_fsck_report m < 2 ^ 64
     \<and> wf_str (fr_host m)
     \<and> list_all wf_str (fr_missing m)"

lemma append_fsck_report_fields:
  "append_fsck_report m buf = buf @ fld_uint 1 (fr_seq m)
     @ fld_sub 2 (\<lambda>t. append_timestamp t []) (canon_time (fr_at m))
     @ fld_string 3 (fr_host m)
     @ fld_strings 4 (fr_missing m)
     @ fld_uint 5 (fr_missing_total m)
     @ fld_uint 6 (fr_problems m)
     @ fld_f64 7 (fr_elapsed_secs m)
     @ fld_uint 8 (fr_repaired_seq m)"
  by (simp add: append_fsck_report_def put_simps)

lemma size_fsck_report_exact: "size_fsck_report m = length (append_fsck_report m [])"
  by (simp add: append_fsck_report_fields size_fsck_report_def size_simps)

lemma fsck_report_dec_fr_at [wire_simps]:
  assumes prems: "fr_at m = None"
  shows "dec_loop fsck_report_field (fld_sub 2 (\<lambda>t. append_timestamp t []) mo @ rest) m = dec_loop fsck_report_field rest (m\<lparr>fr_at := mo\<rparr>)"
  proof (cases mo)
  case (Some t)
  then show ?thesis
    using prems loop_msg [of 2 fsck_report_field "append_timestamp t []" rest m "m\<lparr>fr_at := mo\<rparr>"]
    by (simp add: fld_sub_def fsck_report_field_def wire_simps)
qed (use prems in \<open>cases m; simp add: fld_sub_def\<close>)

lemma fsck_report_dec_fr_missing [wire_simps]:
  "list_all wf_str ss \<Longrightarrow>
   dec_loop fsck_report_field (fld_strings 4 ss @ rest) m = dec_loop fsck_report_field rest (m\<lparr>fr_missing := fr_missing m @ ss\<rparr>)"
  using loop_strings [of 4 ss fsck_report_field "\<lambda>l. m\<lparr>fr_missing := l\<rparr>" rest "fr_missing m"]
  by (cases m) (simp add: fsck_report_field_def wire_simps list_all_iff)

lemma fsck_report_dec_fr_elapsed_secs [wire_simps]:
  "fr_elapsed_secs m = 0 \<Longrightarrow> dec_loop fsck_report_field (fld_f64 7 v @ rest) m = dec_loop fsck_report_field rest (m\<lparr>fr_elapsed_secs := canon_f64 v\<rparr>)"
  by (cases m) (simp add: loop_f64 wire_simps fsck_report_field_def canon_f64_def)

lemma fsck_report_merge:
  "wf_fsck_report m \<Longrightarrow> dec_loop fsck_report_field (append_fsck_report m [] @ rest) fsck_report_zero = dec_loop fsck_report_field rest (canon_fsck_report m)"
  by (cases m) (simp add: append_fsck_report_fields wf_fsck_report_def fsck_report_zero_def canon_fsck_report_def wire_simps fsck_report_field_def)

interpretation fsck_report_msg: wire_message size_fsck_report append_fsck_report "\<lambda>_. True" fsck_report_field fsck_report_zero wf_fsck_report canon_fsck_report
proof
  show "append_fsck_report m buf = buf @ append_fsck_report m []" for m buf
    by (simp add: append_fsck_report_fields)
  show "size_fsck_report m = length (append_fsck_report m [])" for m
    by (rule size_fsck_report_exact)
  show "fsck_report_field f wt d m = Inr (m', d') \<Longrightarrow> length d' \<le> length d" for f wt d m m' d'
    by (simp add: fsck_report_field_def on_progress split: if_splits)
  show "clean (fsck_report_field f wt d m)" for f wt d m
    by (simp add: fsck_report_field_def on_no_stuck no_stuck_simps)
  show "fsck_report_field f wt d m = Inr (m', d') \<Longrightarrow> fsck_report_field f wt (d @ e) m = Inr (m', d' @ e)" for f wt d m m' d' e
    by (auto simp: fsck_report_field_def on_extend split: if_splits)
  show "wf_fsck_report m \<Longrightarrow> size_fsck_report m < 2 ^ 64" for m
    by (simp add: wf_fsck_report_def)
  show "wf_fsck_report m \<Longrightarrow> dec_loop fsck_report_field (append_fsck_report m []) fsck_report_zero = Inr (canon_fsck_report m)" for m
    using fsck_report_merge [of m "[]"] by (simp add: wire_simps)
qed simp

lemmas fsck_report_put [put_simps] = fsck_report_msg.put_sub_fld fsck_report_msg.put_subs_fld
lemmas fsck_report_size [size_simps] = fsck_report_msg.length_fld_sub fsck_report_msg.length_fld_subs
lemmas fsck_report_wire [wire_simps] = unmarshal_fsck_report_def fsck_report_msg.on_msg_sub
lemmas fsck_report_total [no_stuck_simps] = unmarshal_fsck_report_def fsck_report_msg.no_stuck

section \<open>RepoCatalogEntry\<close>

record repo_catalog_entry =
  ce_repo :: string
  ce_size_bytes :: u64
  ce_object_count :: u64
  ce_head_seq :: u64
  ce_updated_at :: "timestamp option"
  ce_last_commit_sha :: string
  ce_last_commit_time :: "timestamp option"
  ce_last_push_at :: "timestamp option"

definition repo_catalog_entry_zero :: repo_catalog_entry where
  "repo_catalog_entry_zero =
    \<lparr>ce_repo = [], ce_size_bytes = 0, ce_object_count = 0, ce_head_seq = 0,
     ce_updated_at = None, ce_last_commit_sha = [], ce_last_commit_time = None,
     ce_last_push_at = None\<rparr>"

definition size_repo_catalog_entry :: "repo_catalog_entry \<Rightarrow> nat" where
  "size_repo_catalog_entry m =
     sz_string 1 (ce_repo m)
     + sz_uint 2 (ce_size_bytes m)
     + sz_uint 3 (ce_object_count m)
     + sz_uint 4 (ce_head_seq m)
     + sz_time (ce_updated_at m)
     + sz_string 6 (ce_last_commit_sha m)
     + sz_time (ce_last_commit_time m)
     + sz_time (ce_last_push_at m)"

definition append_repo_catalog_entry :: "repo_catalog_entry \<Rightarrow> bytes \<Rightarrow> bytes" where
  "append_repo_catalog_entry m buf =
    (let buf = put_string 1 (ce_repo m) buf;
         buf = put_uint 2 (ce_size_bytes m) buf;
         buf = put_uint 3 (ce_object_count m) buf;
         buf = put_uint 4 (ce_head_seq m) buf;
         buf = put_time 5 (ce_updated_at m) buf;
         buf = put_string 6 (ce_last_commit_sha m) buf;
         buf = put_time 7 (ce_last_commit_time m) buf;
         buf = put_time 8 (ce_last_push_at m) buf
     in buf)"

definition marshal_repo_catalog_entry :: "repo_catalog_entry \<Rightarrow> bytes" where
  "marshal_repo_catalog_entry m = append_repo_catalog_entry m []"

definition repo_catalog_entry_field :: "repo_catalog_entry handler" where
  "repo_catalog_entry_field f wt d m =
    (if f = 1 \<and> wt = 2 then on_str d (\<lambda>s. m\<lparr>ce_repo := s\<rparr>)
     else if f = 2 \<and> wt = 0 then on_uint d (\<lambda>v. m\<lparr>ce_size_bytes := v\<rparr>)
     else if f = 3 \<and> wt = 0 then on_uint d (\<lambda>v. m\<lparr>ce_object_count := v\<rparr>)
     else if f = 4 \<and> wt = 0 then on_uint d (\<lambda>v. m\<lparr>ce_head_seq := v\<rparr>)
     else if f = 5 \<and> wt = 2 then on_msg d (\<lambda>b. unmarshal_timestamp b (or_new timestamp_zero (ce_updated_at m))) 
       (\<lambda>e. m\<lparr>ce_updated_at := Some e\<rparr>)
     else if f = 6 \<and> wt = 2 then on_str d (\<lambda>s. m\<lparr>ce_last_commit_sha := s\<rparr>)
     else if f = 7 \<and> wt = 2 then on_msg d (\<lambda>b. unmarshal_timestamp b (or_new timestamp_zero (ce_last_commit_time m))) 
       (\<lambda>e. m\<lparr>ce_last_commit_time := Some e\<rparr>)
     else if f = 8 \<and> wt = 2 then on_msg d (\<lambda>b. unmarshal_timestamp b (or_new timestamp_zero (ce_last_push_at m))) 
       (\<lambda>e. m\<lparr>ce_last_push_at := Some e\<rparr>)
     else on_skip wt d m)"

definition unmarshal_repo_catalog_entry :: "bytes \<Rightarrow> repo_catalog_entry \<Rightarrow> wire_error + repo_catalog_entry" where
  "unmarshal_repo_catalog_entry b m = dec_loop repo_catalog_entry_field b m"

definition decode_repo_catalog_entry :: "bytes \<Rightarrow> wire_error + repo_catalog_entry" where
  "decode_repo_catalog_entry b = unmarshal_repo_catalog_entry b repo_catalog_entry_zero"

definition canon_repo_catalog_entry :: "repo_catalog_entry \<Rightarrow> repo_catalog_entry" where
  "canon_repo_catalog_entry m = m\<lparr>ce_updated_at := canon_time (ce_updated_at m),
     ce_last_commit_time := canon_time (ce_last_commit_time m),
     ce_last_push_at := canon_time (ce_last_push_at m)\<rparr>"

definition wf_repo_catalog_entry :: "repo_catalog_entry \<Rightarrow> bool" where
  "wf_repo_catalog_entry m \<longleftrightarrow>
     size_repo_catalog_entry m < 2 ^ 64
     \<and> wf_str (ce_repo m)
     \<and> wf_str (ce_last_commit_sha m)"

lemma append_repo_catalog_entry_fields:
  "append_repo_catalog_entry m buf = buf @ fld_string 1 (ce_repo m)
     @ fld_uint 2 (ce_size_bytes m)
     @ fld_uint 3 (ce_object_count m)
     @ fld_uint 4 (ce_head_seq m)
     @ fld_sub 5 (\<lambda>t. append_timestamp t []) (canon_time (ce_updated_at m))
     @ fld_string 6 (ce_last_commit_sha m)
     @ fld_sub 7 (\<lambda>t. append_timestamp t []) (canon_time (ce_last_commit_time m))
     @ fld_sub 8 (\<lambda>t. append_timestamp t []) (canon_time (ce_last_push_at m))"
  by (simp add: append_repo_catalog_entry_def put_simps)

lemma size_repo_catalog_entry_exact: "size_repo_catalog_entry m = length (append_repo_catalog_entry m [])"
  by (simp add: append_repo_catalog_entry_fields size_repo_catalog_entry_def size_simps)

lemma repo_catalog_entry_dec_ce_updated_at [wire_simps]:
  assumes prems: "ce_updated_at m = None"
  shows "dec_loop repo_catalog_entry_field (fld_sub 5 (\<lambda>t. append_timestamp t []) mo @ rest) m = dec_loop repo_catalog_entry_field rest (m\<lparr>ce_updated_at := mo\<rparr>)"
  proof (cases mo)
  case (Some t)
  then show ?thesis
    using prems loop_msg [of 5 repo_catalog_entry_field "append_timestamp t []" rest m "m\<lparr>ce_updated_at := mo\<rparr>"]
    by (simp add: fld_sub_def repo_catalog_entry_field_def wire_simps)
qed (use prems in \<open>cases m; simp add: fld_sub_def\<close>)

lemma repo_catalog_entry_dec_ce_last_commit_time [wire_simps]:
  assumes prems: "ce_last_commit_time m = None"
  shows "dec_loop repo_catalog_entry_field (fld_sub 7 (\<lambda>t. append_timestamp t []) mo @ rest) m = dec_loop repo_catalog_entry_field rest (m\<lparr>ce_last_commit_time := mo\<rparr>)"
  proof (cases mo)
  case (Some t)
  then show ?thesis
    using prems loop_msg [of 7 repo_catalog_entry_field "append_timestamp t []" rest m "m\<lparr>ce_last_commit_time := mo\<rparr>"]
    by (simp add: fld_sub_def repo_catalog_entry_field_def wire_simps)
qed (use prems in \<open>cases m; simp add: fld_sub_def\<close>)

lemma repo_catalog_entry_dec_ce_last_push_at [wire_simps]:
  assumes prems: "ce_last_push_at m = None"
  shows "dec_loop repo_catalog_entry_field (fld_sub 8 (\<lambda>t. append_timestamp t []) mo @ rest) m = dec_loop repo_catalog_entry_field rest (m\<lparr>ce_last_push_at := mo\<rparr>)"
  proof (cases mo)
  case (Some t)
  then show ?thesis
    using prems loop_msg [of 8 repo_catalog_entry_field "append_timestamp t []" rest m "m\<lparr>ce_last_push_at := mo\<rparr>"]
    by (simp add: fld_sub_def repo_catalog_entry_field_def wire_simps)
qed (use prems in \<open>cases m; simp add: fld_sub_def\<close>)

lemma repo_catalog_entry_merge:
  "wf_repo_catalog_entry m \<Longrightarrow> dec_loop repo_catalog_entry_field (append_repo_catalog_entry m [] @ rest) repo_catalog_entry_zero = dec_loop repo_catalog_entry_field rest (canon_repo_catalog_entry m)"
  by (cases m) (simp add: append_repo_catalog_entry_fields wf_repo_catalog_entry_def repo_catalog_entry_zero_def canon_repo_catalog_entry_def wire_simps repo_catalog_entry_field_def)

interpretation repo_catalog_entry_msg: wire_message size_repo_catalog_entry append_repo_catalog_entry "\<lambda>_. True" repo_catalog_entry_field repo_catalog_entry_zero wf_repo_catalog_entry canon_repo_catalog_entry
proof
  show "append_repo_catalog_entry m buf = buf @ append_repo_catalog_entry m []" for m buf
    by (simp add: append_repo_catalog_entry_fields)
  show "size_repo_catalog_entry m = length (append_repo_catalog_entry m [])" for m
    by (rule size_repo_catalog_entry_exact)
  show "repo_catalog_entry_field f wt d m = Inr (m', d') \<Longrightarrow> length d' \<le> length d" for f wt d m m' d'
    by (simp add: repo_catalog_entry_field_def on_progress split: if_splits)
  show "clean (repo_catalog_entry_field f wt d m)" for f wt d m
    by (simp add: repo_catalog_entry_field_def on_no_stuck no_stuck_simps)
  show "repo_catalog_entry_field f wt d m = Inr (m', d') \<Longrightarrow> repo_catalog_entry_field f wt (d @ e) m = Inr (m', d' @ e)" for f wt d m m' d' e
    by (auto simp: repo_catalog_entry_field_def on_extend split: if_splits)
  show "wf_repo_catalog_entry m \<Longrightarrow> size_repo_catalog_entry m < 2 ^ 64" for m
    by (simp add: wf_repo_catalog_entry_def)
  show "wf_repo_catalog_entry m \<Longrightarrow> dec_loop repo_catalog_entry_field (append_repo_catalog_entry m []) repo_catalog_entry_zero = Inr (canon_repo_catalog_entry m)" for m
    using repo_catalog_entry_merge [of m "[]"] by (simp add: wire_simps)
qed simp

lemmas repo_catalog_entry_put [put_simps] = repo_catalog_entry_msg.put_sub_fld repo_catalog_entry_msg.put_subs_fld
lemmas repo_catalog_entry_size [size_simps] = repo_catalog_entry_msg.length_fld_sub repo_catalog_entry_msg.length_fld_subs
lemmas repo_catalog_entry_wire [wire_simps] = unmarshal_repo_catalog_entry_def repo_catalog_entry_msg.on_msg_sub
lemmas repo_catalog_entry_total [no_stuck_simps] = unmarshal_repo_catalog_entry_def repo_catalog_entry_msg.no_stuck


lemma sz_tagged_subs [size_simps]:
  "sum_list (map (\<lambda>e. Suc (size_len (size_of e) + size_of e)) ms) = sz_subs size_of ms"
  by (simp add: sz_subs_def size_sub_def)

section \<open>RepoCatalog\<close>

record repo_catalog =
  rc_repos :: "string list"
  rc_updated_at :: "timestamp option"
  rc_entries :: "repo_catalog_entry list"

definition repo_catalog_zero :: repo_catalog where
  "repo_catalog_zero =
    \<lparr>rc_repos = [], rc_updated_at = None, rc_entries = []\<rparr>"

definition size_repo_catalog :: "repo_catalog \<Rightarrow> nat" where
  "size_repo_catalog m =
     sz_strings 1 (rc_repos m)
     + sz_time (rc_updated_at m)
     + sum_list (map (\<lambda>e. size_tag 3 + size_len (size_repo_catalog_entry e) + size_repo_catalog_entry e) (rc_entries m))"

definition append_repo_catalog :: "repo_catalog \<Rightarrow> bytes \<Rightarrow> bytes" where
  "append_repo_catalog m buf =
    (let buf = put_strings 1 (rc_repos m) buf;
         buf = put_time 2 (rc_updated_at m) buf;
         buf = put_subs 3 size_repo_catalog_entry append_repo_catalog_entry (rc_entries m) buf
     in buf)"

definition marshal_repo_catalog :: "repo_catalog \<Rightarrow> bytes" where
  "marshal_repo_catalog m = append_repo_catalog m []"

definition repo_catalog_field :: "repo_catalog handler" where
  "repo_catalog_field f wt d m =
    (if f = 1 \<and> wt = 2 then on_str d (\<lambda>s. m\<lparr>rc_repos := rc_repos m @ [s]\<rparr>)
     else if f = 2 \<and> wt = 2 then on_msg d (\<lambda>b. unmarshal_timestamp b (or_new timestamp_zero (rc_updated_at m))) 
       (\<lambda>e. m\<lparr>rc_updated_at := Some e\<rparr>)
     else if f = 3 \<and> wt = 2 then on_msg d (\<lambda>b. unmarshal_repo_catalog_entry b repo_catalog_entry_zero) 
       (\<lambda>e. m\<lparr>rc_entries := rc_entries m @ [e]\<rparr>)
     else on_skip wt d m)"

definition unmarshal_repo_catalog :: "bytes \<Rightarrow> repo_catalog \<Rightarrow> wire_error + repo_catalog" where
  "unmarshal_repo_catalog b m = dec_loop repo_catalog_field b m"

definition decode_repo_catalog :: "bytes \<Rightarrow> wire_error + repo_catalog" where
  "decode_repo_catalog b = unmarshal_repo_catalog b repo_catalog_zero"

definition canon_repo_catalog :: "repo_catalog \<Rightarrow> repo_catalog" where
  "canon_repo_catalog m = m\<lparr>rc_updated_at := canon_time (rc_updated_at m),
     rc_entries := map canon_repo_catalog_entry (rc_entries m)\<rparr>"

definition wf_repo_catalog :: "repo_catalog \<Rightarrow> bool" where
  "wf_repo_catalog m \<longleftrightarrow>
     size_repo_catalog m < 2 ^ 64
     \<and> list_all wf_str (rc_repos m)
     \<and> list_all wf_repo_catalog_entry (rc_entries m)"

lemma append_repo_catalog_fields:
  "append_repo_catalog m buf = buf @ fld_strings 1 (rc_repos m)
     @ fld_sub 2 (\<lambda>t. append_timestamp t []) (canon_time (rc_updated_at m))
     @ fld_subs 3 (\<lambda>x. append_repo_catalog_entry x []) (rc_entries m)"
  by (simp add: append_repo_catalog_def put_simps)

lemma size_repo_catalog_exact: "size_repo_catalog m = length (append_repo_catalog m [])"
  by (simp add: append_repo_catalog_fields size_repo_catalog_def size_simps)

lemma repo_catalog_dec_rc_repos [wire_simps]:
  "list_all wf_str ss \<Longrightarrow>
   dec_loop repo_catalog_field (fld_strings 1 ss @ rest) m = dec_loop repo_catalog_field rest (m\<lparr>rc_repos := rc_repos m @ ss\<rparr>)"
  using loop_strings [of 1 ss repo_catalog_field "\<lambda>l. m\<lparr>rc_repos := l\<rparr>" rest "rc_repos m"]
  by (cases m) (simp add: repo_catalog_field_def wire_simps list_all_iff)

lemma repo_catalog_dec_rc_updated_at [wire_simps]:
  assumes prems: "rc_updated_at m = None"
  shows "dec_loop repo_catalog_field (fld_sub 2 (\<lambda>t. append_timestamp t []) mo @ rest) m = dec_loop repo_catalog_field rest (m\<lparr>rc_updated_at := mo\<rparr>)"
  proof (cases mo)
  case (Some t)
  then show ?thesis
    using prems loop_msg [of 2 repo_catalog_field "append_timestamp t []" rest m "m\<lparr>rc_updated_at := mo\<rparr>"]
    by (simp add: fld_sub_def repo_catalog_field_def wire_simps)
qed (use prems in \<open>cases m; simp add: fld_sub_def\<close>)

lemma repo_catalog_dec_rc_entries [wire_simps]:
  "list_all wf_repo_catalog_entry xs \<Longrightarrow>
   dec_loop repo_catalog_field (fld_subs 3 (\<lambda>x. append_repo_catalog_entry x []) xs @ rest) m
     = dec_loop repo_catalog_field rest (m\<lparr>rc_entries := rc_entries m @ map canon_repo_catalog_entry xs\<rparr>)"
  using loop_subs [of 3 xs repo_catalog_field "\<lambda>x. append_repo_catalog_entry x []" "\<lambda>l. m\<lparr>rc_entries := l\<rparr>" "canon_repo_catalog_entry" rest "rc_entries m"]
  by (cases m) (simp add: repo_catalog_field_def wire_simps list_all_iff)

lemma repo_catalog_merge:
  "wf_repo_catalog m \<Longrightarrow> dec_loop repo_catalog_field (append_repo_catalog m [] @ rest) repo_catalog_zero = dec_loop repo_catalog_field rest (canon_repo_catalog m)"
  by (cases m) (simp add: append_repo_catalog_fields wf_repo_catalog_def repo_catalog_zero_def canon_repo_catalog_def wire_simps repo_catalog_field_def)

interpretation repo_catalog_msg: wire_message size_repo_catalog append_repo_catalog "\<lambda>_. True" repo_catalog_field repo_catalog_zero wf_repo_catalog canon_repo_catalog
proof
  show "append_repo_catalog m buf = buf @ append_repo_catalog m []" for m buf
    by (simp add: append_repo_catalog_fields)
  show "size_repo_catalog m = length (append_repo_catalog m [])" for m
    by (rule size_repo_catalog_exact)
  show "repo_catalog_field f wt d m = Inr (m', d') \<Longrightarrow> length d' \<le> length d" for f wt d m m' d'
    by (simp add: repo_catalog_field_def on_progress split: if_splits)
  show "clean (repo_catalog_field f wt d m)" for f wt d m
    by (simp add: repo_catalog_field_def on_no_stuck no_stuck_simps)
  show "repo_catalog_field f wt d m = Inr (m', d') \<Longrightarrow> repo_catalog_field f wt (d @ e) m = Inr (m', d' @ e)" for f wt d m m' d' e
    by (auto simp: repo_catalog_field_def on_extend split: if_splits)
  show "wf_repo_catalog m \<Longrightarrow> size_repo_catalog m < 2 ^ 64" for m
    by (simp add: wf_repo_catalog_def)
  show "wf_repo_catalog m \<Longrightarrow> dec_loop repo_catalog_field (append_repo_catalog m []) repo_catalog_zero = Inr (canon_repo_catalog m)" for m
    using repo_catalog_merge [of m "[]"] by (simp add: wire_simps)
qed simp

lemmas repo_catalog_put [put_simps] = repo_catalog_msg.put_sub_fld repo_catalog_msg.put_subs_fld
lemmas repo_catalog_size [size_simps] = repo_catalog_msg.length_fld_sub repo_catalog_msg.length_fld_subs
lemmas repo_catalog_wire [wire_simps] = unmarshal_repo_catalog_def repo_catalog_msg.on_msg_sub
lemmas repo_catalog_total [no_stuck_simps] = unmarshal_repo_catalog_def repo_catalog_msg.no_stuck

section \<open>MaintainerHeartbeat\<close>

record maintainer_heartbeat =
  hb_host :: string
  hb_repos :: "string list"
  hb_exclude :: "string list"
  hb_max_pack_byte :: u64
  hb_disk :: string
  hb_started_at :: "timestamp option"
  hb_last_pass_at :: "timestamp option"
  hb_last_unit :: string
  hb_passes :: u64

definition maintainer_heartbeat_zero :: maintainer_heartbeat where
  "maintainer_heartbeat_zero =
    \<lparr>hb_host = [], hb_repos = [], hb_exclude = [], hb_max_pack_byte = 0, hb_disk = [],
     hb_started_at = None, hb_last_pass_at = None, hb_last_unit = [], hb_passes = 0\<rparr>"

definition size_maintainer_heartbeat :: "maintainer_heartbeat \<Rightarrow> nat" where
  "size_maintainer_heartbeat m =
     sz_string 1 (hb_host m)
     + sz_strings 2 (hb_repos m)
     + sz_strings 3 (hb_exclude m)
     + sz_uint 4 (hb_max_pack_byte m)
     + sz_string 5 (hb_disk m)
     + sz_time (hb_started_at m)
     + sz_time (hb_last_pass_at m)
     + sz_string 8 (hb_last_unit m)
     + sz_uint 9 (hb_passes m)"

definition append_maintainer_heartbeat :: "maintainer_heartbeat \<Rightarrow> bytes \<Rightarrow> bytes" where
  "append_maintainer_heartbeat m buf =
    (let buf = put_string 1 (hb_host m) buf;
         buf = put_strings 2 (hb_repos m) buf;
         buf = put_strings 3 (hb_exclude m) buf;
         buf = put_uint 4 (hb_max_pack_byte m) buf;
         buf = put_string 5 (hb_disk m) buf;
         buf = put_time 6 (hb_started_at m) buf;
         buf = put_time 7 (hb_last_pass_at m) buf;
         buf = put_string 8 (hb_last_unit m) buf;
         buf = put_uint 9 (hb_passes m) buf
     in buf)"

definition marshal_maintainer_heartbeat :: "maintainer_heartbeat \<Rightarrow> bytes" where
  "marshal_maintainer_heartbeat m = append_maintainer_heartbeat m []"

definition maintainer_heartbeat_field :: "maintainer_heartbeat handler" where
  "maintainer_heartbeat_field f wt d m =
    (if f = 1 \<and> wt = 2 then on_str d (\<lambda>s. m\<lparr>hb_host := s\<rparr>)
     else if f = 2 \<and> wt = 2 then on_str d (\<lambda>s. m\<lparr>hb_repos := hb_repos m @ [s]\<rparr>)
     else if f = 3 \<and> wt = 2 then on_str d (\<lambda>s. m\<lparr>hb_exclude := hb_exclude m @ [s]\<rparr>)
     else if f = 4 \<and> wt = 0 then on_uint d (\<lambda>v. m\<lparr>hb_max_pack_byte := v\<rparr>)
     else if f = 5 \<and> wt = 2 then on_str d (\<lambda>s. m\<lparr>hb_disk := s\<rparr>)
     else if f = 6 \<and> wt = 2 then on_msg d (\<lambda>b. unmarshal_timestamp b (or_new timestamp_zero (hb_started_at m))) 
       (\<lambda>e. m\<lparr>hb_started_at := Some e\<rparr>)
     else if f = 7 \<and> wt = 2 then on_msg d (\<lambda>b. unmarshal_timestamp b (or_new timestamp_zero (hb_last_pass_at m))) 
       (\<lambda>e. m\<lparr>hb_last_pass_at := Some e\<rparr>)
     else if f = 8 \<and> wt = 2 then on_str d (\<lambda>s. m\<lparr>hb_last_unit := s\<rparr>)
     else if f = 9 \<and> wt = 0 then on_uint d (\<lambda>v. m\<lparr>hb_passes := v\<rparr>)
     else on_skip wt d m)"

definition unmarshal_maintainer_heartbeat :: "bytes \<Rightarrow> maintainer_heartbeat \<Rightarrow> wire_error + maintainer_heartbeat" where
  "unmarshal_maintainer_heartbeat b m = dec_loop maintainer_heartbeat_field b m"

definition decode_maintainer_heartbeat :: "bytes \<Rightarrow> wire_error + maintainer_heartbeat" where
  "decode_maintainer_heartbeat b = unmarshal_maintainer_heartbeat b maintainer_heartbeat_zero"

definition canon_maintainer_heartbeat :: "maintainer_heartbeat \<Rightarrow> maintainer_heartbeat" where
  "canon_maintainer_heartbeat m = m\<lparr>hb_started_at := canon_time (hb_started_at m),
     hb_last_pass_at := canon_time (hb_last_pass_at m)\<rparr>"

definition wf_maintainer_heartbeat :: "maintainer_heartbeat \<Rightarrow> bool" where
  "wf_maintainer_heartbeat m \<longleftrightarrow>
     size_maintainer_heartbeat m < 2 ^ 64
     \<and> wf_str (hb_host m)
     \<and> list_all wf_str (hb_repos m)
     \<and> list_all wf_str (hb_exclude m)
     \<and> wf_str (hb_disk m)
     \<and> wf_str (hb_last_unit m)"

lemma append_maintainer_heartbeat_fields:
  "append_maintainer_heartbeat m buf = buf @ fld_string 1 (hb_host m)
     @ fld_strings 2 (hb_repos m)
     @ fld_strings 3 (hb_exclude m)
     @ fld_uint 4 (hb_max_pack_byte m)
     @ fld_string 5 (hb_disk m)
     @ fld_sub 6 (\<lambda>t. append_timestamp t []) (canon_time (hb_started_at m))
     @ fld_sub 7 (\<lambda>t. append_timestamp t []) (canon_time (hb_last_pass_at m))
     @ fld_string 8 (hb_last_unit m)
     @ fld_uint 9 (hb_passes m)"
  by (simp add: append_maintainer_heartbeat_def put_simps)

lemma size_maintainer_heartbeat_exact: "size_maintainer_heartbeat m = length (append_maintainer_heartbeat m [])"
  by (simp add: append_maintainer_heartbeat_fields size_maintainer_heartbeat_def size_simps)

lemma maintainer_heartbeat_dec_hb_repos [wire_simps]:
  "list_all wf_str ss \<Longrightarrow>
   dec_loop maintainer_heartbeat_field (fld_strings 2 ss @ rest) m = dec_loop maintainer_heartbeat_field rest (m\<lparr>hb_repos := hb_repos m @ ss\<rparr>)"
  using loop_strings [of 2 ss maintainer_heartbeat_field "\<lambda>l. m\<lparr>hb_repos := l\<rparr>" rest "hb_repos m"]
  by (cases m) (simp add: maintainer_heartbeat_field_def wire_simps list_all_iff)

lemma maintainer_heartbeat_dec_hb_exclude [wire_simps]:
  "list_all wf_str ss \<Longrightarrow>
   dec_loop maintainer_heartbeat_field (fld_strings 3 ss @ rest) m = dec_loop maintainer_heartbeat_field rest (m\<lparr>hb_exclude := hb_exclude m @ ss\<rparr>)"
  using loop_strings [of 3 ss maintainer_heartbeat_field "\<lambda>l. m\<lparr>hb_exclude := l\<rparr>" rest "hb_exclude m"]
  by (cases m) (simp add: maintainer_heartbeat_field_def wire_simps list_all_iff)

lemma maintainer_heartbeat_dec_hb_started_at [wire_simps]:
  assumes prems: "hb_started_at m = None"
  shows "dec_loop maintainer_heartbeat_field (fld_sub 6 (\<lambda>t. append_timestamp t []) mo @ rest) m = dec_loop maintainer_heartbeat_field rest (m\<lparr>hb_started_at := mo\<rparr>)"
  proof (cases mo)
  case (Some t)
  then show ?thesis
    using prems loop_msg [of 6 maintainer_heartbeat_field "append_timestamp t []" rest m "m\<lparr>hb_started_at := mo\<rparr>"]
    by (simp add: fld_sub_def maintainer_heartbeat_field_def wire_simps)
qed (use prems in \<open>cases m; simp add: fld_sub_def\<close>)

lemma maintainer_heartbeat_dec_hb_last_pass_at [wire_simps]:
  assumes prems: "hb_last_pass_at m = None"
  shows "dec_loop maintainer_heartbeat_field (fld_sub 7 (\<lambda>t. append_timestamp t []) mo @ rest) m = dec_loop maintainer_heartbeat_field rest (m\<lparr>hb_last_pass_at := mo\<rparr>)"
  proof (cases mo)
  case (Some t)
  then show ?thesis
    using prems loop_msg [of 7 maintainer_heartbeat_field "append_timestamp t []" rest m "m\<lparr>hb_last_pass_at := mo\<rparr>"]
    by (simp add: fld_sub_def maintainer_heartbeat_field_def wire_simps)
qed (use prems in \<open>cases m; simp add: fld_sub_def\<close>)

lemma maintainer_heartbeat_merge:
  "wf_maintainer_heartbeat m \<Longrightarrow> dec_loop maintainer_heartbeat_field (append_maintainer_heartbeat m [] @ rest) maintainer_heartbeat_zero = dec_loop maintainer_heartbeat_field rest (canon_maintainer_heartbeat m)"
  by (cases m) (simp add: append_maintainer_heartbeat_fields wf_maintainer_heartbeat_def maintainer_heartbeat_zero_def canon_maintainer_heartbeat_def wire_simps maintainer_heartbeat_field_def)

interpretation maintainer_heartbeat_msg: wire_message size_maintainer_heartbeat append_maintainer_heartbeat "\<lambda>_. True" maintainer_heartbeat_field maintainer_heartbeat_zero wf_maintainer_heartbeat canon_maintainer_heartbeat
proof
  show "append_maintainer_heartbeat m buf = buf @ append_maintainer_heartbeat m []" for m buf
    by (simp add: append_maintainer_heartbeat_fields)
  show "size_maintainer_heartbeat m = length (append_maintainer_heartbeat m [])" for m
    by (rule size_maintainer_heartbeat_exact)
  show "maintainer_heartbeat_field f wt d m = Inr (m', d') \<Longrightarrow> length d' \<le> length d" for f wt d m m' d'
    by (simp add: maintainer_heartbeat_field_def on_progress split: if_splits)
  show "clean (maintainer_heartbeat_field f wt d m)" for f wt d m
    by (simp add: maintainer_heartbeat_field_def on_no_stuck no_stuck_simps)
  show "maintainer_heartbeat_field f wt d m = Inr (m', d') \<Longrightarrow> maintainer_heartbeat_field f wt (d @ e) m = Inr (m', d' @ e)" for f wt d m m' d' e
    by (auto simp: maintainer_heartbeat_field_def on_extend split: if_splits)
  show "wf_maintainer_heartbeat m \<Longrightarrow> size_maintainer_heartbeat m < 2 ^ 64" for m
    by (simp add: wf_maintainer_heartbeat_def)
  show "wf_maintainer_heartbeat m \<Longrightarrow> dec_loop maintainer_heartbeat_field (append_maintainer_heartbeat m []) maintainer_heartbeat_zero = Inr (canon_maintainer_heartbeat m)" for m
    using maintainer_heartbeat_merge [of m "[]"] by (simp add: wire_simps)
qed simp

lemmas maintainer_heartbeat_put [put_simps] = maintainer_heartbeat_msg.put_sub_fld maintainer_heartbeat_msg.put_subs_fld
lemmas maintainer_heartbeat_size [size_simps] = maintainer_heartbeat_msg.length_fld_sub maintainer_heartbeat_msg.length_fld_subs
lemmas maintainer_heartbeat_wire [wire_simps] = unmarshal_maintainer_heartbeat_def maintainer_heartbeat_msg.on_msg_sub
lemmas maintainer_heartbeat_total [no_stuck_simps] = unmarshal_maintainer_heartbeat_def maintainer_heartbeat_msg.no_stuck

end
