(* ===== verification/Codecs.thy ===== *)
theory Codecs
  imports Catalog_Codec
begin

text \<open>
  The properties of the message codecs that span messages: round trips, exact sizes, totality of
  the decoders, forward compatibility, and the metadata length defect.
\<close>

section \<open>Helpers\<close>

lemma marshal_roundtrip:
  "wf_manifest m \<Longrightarrow> decode_manifest (marshal_manifest m) = Inr (canon_manifest m)"
  "wf_log_entry e \<Longrightarrow> decode_log_entry (marshal_log_entry e) = Inr (canon_log_entry e)"
  by (simp_all add: decode_manifest_def unmarshal_manifest_def marshal_manifest_def manifest_msg.roundtrip
      decode_log_entry_def unmarshal_log_entry_def marshal_log_entry_def log_entry_msg.roundtrip)

lemma manifest_skips_unknown:
  assumes "num < 16" and "12 < num"
  shows "dec_loop manifest_field (fld_uint num v) m = Inr m"
proof -
  have num: "num \<noteq> 0" "num \<noteq> 1" "num \<noteq> 2" "num \<noteq> 3" "num \<noteq> 4" "num \<noteq> 5" "num \<noteq> 6" "num \<noteq> 7" "num \<noteq> 8"
    "num \<noteq> 9" "num \<noteq> 10" "num \<noteq> 11" "num \<noteq> 12" using assms(2) by auto
  have step: "manifest_field num 0 (uvarint v @ []) m = Inr (m, [])"
    using num dec_uvarint_uvarint [of v "[]"] by (simp add: manifest_field_def on_skip_def dec_skip_def)
  then have "dec_loop manifest_field (fld_uint num v @ []) m = dec_loop manifest_field [] (after (manifest_field num 0 (uvarint v @ []) m))"
    using num(1) assms(1) by (intro loop_uint) simp_all
  with step show ?thesis by (simp add: wire_simps)
qed

text \<open>The length the writer declares for a metadata entry, and the bytes it then writes.\<close>

lemma size_len_ge: "128 \<le> n \<Longrightarrow> n < 2 ^ 63 \<Longrightarrow> 2 \<le> size_len n"
proof -
  assume n: "128 \<le> n" "n < 2 ^ 63"
  then have "\<not> (word_of_nat n :: u64) < 128"
    by (simp add: word_less_nat_alt unat_of_nat)
  then show "2 \<le> size_len n"
    by (simp add: size_len_def uvarint_len_def uvarint.simps [of "word_of_nat n"] Suc_le_eq)
qed

lemma map_entry_short:
  assumes "128 \<le> length v" and "length v < 2 ^ 63"
  shows "map_entry_size k v < length (append_map_entry [] k v)"
proof -
  have "2 \<le> size_len (length v)" using assms by (rule size_len_ge)
  moreover have "1 \<le> size_len (length k)" by (simp add: size_len_def Suc_le_eq uvarint_len_pos)
  moreover have "length (append_map_entry [] k v)
      = (if k = [] then 0 else 1 + size_len (length k) + length k) + (if v = [] then 0 else 1 + size_len (length v) + length v)"
    by (simp add: append_map_entry_fields size_simps sz_string_def)
  ultimately show ?thesis
    using assms(1) by (auto simp: map_entry_size_def)
qed

lemma size_len_small: "n < 128 \<Longrightarrow> size_len n = 1"
  by (simp add: size_len_def uvarint_len_def uvarint_small word_less_nat_alt unat_of_nat)

lemma size_len_two: "128 \<le> n \<Longrightarrow> n < 16384 \<Longrightarrow> size_len n = 2"
  using length_uvarint_le [of "word_of_nat n" 2] size_len_ge [of n]
  by (simp add: size_len_def uvarint_len_def unat_of_nat)

lemma cut_map_entry:
  assumes "wf_str k" and "v \<noteq> []" and "length v < 2 ^ 64"
  shows "decode_map_entry (butlast (append_map_entry [] k v)) = Inl ErrTruncated"
proof -
  let ?n = "word_of_nat (length v) :: u64"
  have n: "unat ?n = length v" using assms(3) by (simp add: unat_of_nat)
  have cut: "butlast (append_map_entry [] k v)
      = fld_string 1 k @ uvarint (wire_tag 2 2) @ uvarint ?n @ butlast (bytes_of v)"
    using assms(2) by (simp add: append_map_entry_fields fld_string_def put_string_def append_string_fld fld_str_msg
        fld_msg_def butlast_append bytes_of_def)
  have "dec_raw (uvarint ?n @ butlast (bytes_of v)) = Inl ErrTruncated"
    using assms(2) n by (simp add: dec_raw_eq wire_simps)
  then have "dec_loop map_entry_field (uvarint (wire_tag 2 2) @ uvarint ?n @ butlast (bytes_of v)) (k, []) = Inl ErrTruncated"
    by (simp add: dec_loop.simps [of _ "uvarint (wire_tag 2 2) @ uvarint ?n @ butlast (bytes_of v)"]
        dec_tag_wire_tag on_str_def dec_str_def)
  then show ?thesis
    using assms(1) by (simp add: decode_map_entry_def cut wire_simps)
qed

lemmas sz_defs = sz_uint_def sz_string_def sz_sub_def sz_subs_def sz_strings_def sz_bool_def sz_f64_def
  f64_is_zero_def sz_time_def size_tag_1 size_len_small size_sub_def

text \<open>Messages that fit the size limits, for the concrete instances below.\<close>

lemma wf_zero:
 "wf_checkpoint checkpoint_zero" "wf_ref_snapshot ref_snapshot_zero" "wf_bundle_list bundle_list_zero" "wf_fsck_report fsck_report_zero"
 "wf_repo_catalog repo_catalog_zero" "wf_maintainer_heartbeat maintainer_heartbeat_zero" "wf_lease lease_zero"
 by (simp_all add: wf_checkpoint_def checkpoint_zero_def size_checkpoint_def
  wf_ref_snapshot_def ref_snapshot_zero_def size_ref_snapshot_def
  wf_bundle_list_def bundle_list_zero_def size_bundle_list_def
  wf_fsck_report_def fsck_report_zero_def size_fsck_report_def
  wf_repo_catalog_def repo_catalog_zero_def size_repo_catalog_def
  wf_maintainer_heartbeat_def maintainer_heartbeat_zero_def size_maintainer_heartbeat_def
  wf_lease_def lease_zero_def size_lease_def
  sz_uint_def sz_string_def sz_sub_def sz_subs_def sz_strings_def sz_bool_def sz_f64_def f64_is_zero_def sz_time_def wf_str_def)

lemma wf_manifest_sample: "wf_manifest (manifest_zero\<lparr>mf_repo := ''a/b'', mf_head_seq := 300\<rparr>)"
  using uvarint_len_le [of 300]
  by (simp add: wf_manifest_def manifest_zero_def size_manifest_def sz_defs wf_str_def bytes_of_def byte_of_char_def)

lemma wf_manifest_seq: "wf_manifest (manifest_zero\<lparr>mf_head_seq := 9\<rparr>)"
  using uvarint_len_le [of 9]
  by (simp add: wf_manifest_def manifest_zero_def size_manifest_def sz_defs wf_str_def bytes_of_def byte_of_char_def)

lemma wf_lease_sample: "wf_lease (lease_zero\<lparr>ls_holder := ''h'', ls_epoch := 2\<rparr>)"
  using uvarint_len_le [of 2]
  by (simp add: wf_lease_def lease_zero_def size_lease_def sz_defs wf_str_def bytes_of_def byte_of_char_def)

lemma wf_log_entry_sample: "wf_log_entry (log_entry_zero\<lparr>le_seq := 7, le_kind := entry_kind_push, le_meta := [(''b'', ''2''), (''a'', ''1'')],
             le_txn := Some (ref_transaction_zero\<lparr>tx_updates := [ref_update_zero\<lparr>ru_name := ''refs/heads/a''\<rparr>]\<rparr>)\<rparr>)"
  using uvarint_len_le [of 7] uvarint_len_le [of 1]
  by (simp add: wf_log_entry_def log_entry_zero_def size_log_entry_def sz_defs wf_str_def bytes_of_def byte_of_char_def wf_map_def
   sz_map_def sorted_keys_def map_get_def map_entry_size_def wf_ref_transaction_def size_ref_transaction_def ref_transaction_zero_def
   wf_ref_update_def size_ref_update_def ref_update_zero_def Let_def)

lemma long_meta_decode:
  assumes k: "wf_str k" "k \<noteq> []" "length k < 128" and v: "128 \<le> length v" "length v < 16384"
  shows "decode_log_entry (marshal_log_entry (log_entry_zero\<lparr>le_meta := [(k, v)]\<rparr>)) = Inl ErrTruncated"
proof -
  let ?b = "append_map_entry [] k v" and ?es = "map_entry_size k v"
  have vne: "v \<noteq> []" and v64: "length v < 2 ^ 64" using v by auto
  have len: "length ?b = Suc ?es"
    using k v vne by (simp add: append_map_entry_fields size_simps sz_string_def map_entry_size_def size_len_small size_len_two)
  then have bl: "?b = butlast ?b @ [last ?b]" by (simp add: append_butlast_last_id length_0_conv [symmetric] del: length_0_conv)
  have es: "length (butlast ?b) = ?es" "?es < 2 ^ 64" using len k v by (auto simp: map_entry_size_def)
  let ?d = "uvarint (word_of_nat ?es) @ butlast ?b @ [last ?b]"
  have "dec_raw ?d = Inr (butlast ?b, [last ?b])"
    using dec_raw_frame [of "butlast ?b" "[last ?b]"] es by simp
  then have h: "log_entry_field 9 2 ?d log_entry_zero = Inl ErrTruncated"
    using cut_map_entry [OF k(1) vne v64] by (simp add: log_entry_field_def on_msg_def)
  have "marshal_log_entry (log_entry_zero\<lparr>le_meta := [(k, v)]\<rparr>) = uvarint (wire_tag 9 2) @ ?d"
    using bl by (simp add: marshal_log_entry_def append_log_entry_fields log_entry_zero_def fld_uint_def put_uint_def fld_sub_def
        fld_strings_def canon_time_def fld_string_def put_string_def fld_map_def put_map_def sorted_keys_def map_get_def append_uvarint_def
        append_map_entry_fields [of "_ @ _"] flip: append_map_entry_fields [of "[]", simplified])
  with h show ?thesis
    by (simp add: decode_log_entry_def unmarshal_log_entry_def dec_loop.simps [of _ "uvarint (wire_tag 9 2) @ ?d"] dec_tag_wire_tag)
qed

section \<open>Properties\<close>

text \<open>
  C29: A manifest survives the wire: for every manifest Go can hold with UTF-8 strings, decoding its
  encoding gives it back (a pointer to a zero timestamp, which is not written, comes back nil).
\<close>

theorem manifest_roundtrip:
  assumes "wf_manifest m"
  shows "decode_manifest (marshal_manifest m) = Inr (canon_manifest m)"
  using assms by (rule marshal_roundtrip)

lemma manifest_roundtrip_witness:
  "decode_manifest (marshal_manifest (manifest_zero\<lparr>mf_repo := ''a/b'', mf_head_seq := 300\<rparr>))
   = Inr (canon_manifest (manifest_zero\<lparr>mf_repo := ''a/b'', mf_head_seq := 300\<rparr>))"
  by (rule manifest_roundtrip) (rule wf_manifest_sample)

text \<open>
  A log entry survives the wire when its metadata keys and values are shorter than 128 bytes: it
  is decoded unchanged but for zero timestamps (dropped) and the order of the metadata (sorted by key).
\<close>

theorem log_entry_roundtrip:
  assumes "wf_log_entry e"
  shows "decode_log_entry (marshal_log_entry e) = Inr (canon_log_entry e)"
  using assms by (rule marshal_roundtrip)

lemma log_entry_roundtrip_witness:
  "let e = log_entry_zero\<lparr>le_seq := 7, le_kind := entry_kind_push, le_meta := [(''b'', ''2''), (''a'', ''1'')],
             le_txn := Some (ref_transaction_zero\<lparr>tx_updates := [ref_update_zero\<lparr>ru_name := ''refs/heads/a''\<rparr>]\<rparr>)\<rparr>
   in decode_log_entry (marshal_log_entry e) = Inr (canon_log_entry e)"
  unfolding Let_def by (rule log_entry_roundtrip) (rule wf_log_entry_sample)

text \<open>
  C30: The other stored documents survive the wire in the same sense: checkpoints, ref snapshots,
  leases, bundle lists, fsck reports, the size catalog and maintainer heartbeats.
\<close>

theorem documents_roundtrip:
  assumes "wf_checkpoint cp"
    and "wf_ref_snapshot sn"
    and "wf_lease ls"
    and "wf_bundle_list bl"
    and "wf_fsck_report fr"
    and "wf_repo_catalog rc"
    and "wf_maintainer_heartbeat hb"
  shows "decode_checkpoint (marshal_checkpoint cp) = Inr (canon_checkpoint cp)
    \<and> decode_ref_snapshot (marshal_ref_snapshot sn) = Inr (canon_ref_snapshot sn)
    \<and> decode_lease (marshal_lease ls) = Inr (canon_lease ls)
    \<and> decode_bundle_list (marshal_bundle_list bl) = Inr (canon_bundle_list bl)
    \<and> decode_fsck_report (marshal_fsck_report fr) = Inr (canon_fsck_report fr)
    \<and> decode_repo_catalog (marshal_repo_catalog rc) = Inr (canon_repo_catalog rc)
    \<and> decode_maintainer_heartbeat (marshal_maintainer_heartbeat hb) = Inr (canon_maintainer_heartbeat hb)"
proof -
  show ?thesis
    using assms
    by (simp add: decode_checkpoint_def unmarshal_checkpoint_def marshal_checkpoint_def checkpoint_msg.roundtrip
      decode_ref_snapshot_def unmarshal_ref_snapshot_def marshal_ref_snapshot_def ref_snapshot_msg.roundtrip
      decode_lease_def unmarshal_lease_def marshal_lease_def lease_msg.roundtrip
      decode_bundle_list_def unmarshal_bundle_list_def marshal_bundle_list_def bundle_list_msg.roundtrip
      decode_fsck_report_def unmarshal_fsck_report_def marshal_fsck_report_def fsck_report_msg.roundtrip
      decode_repo_catalog_def unmarshal_repo_catalog_def marshal_repo_catalog_def repo_catalog_msg.roundtrip
      decode_maintainer_heartbeat_def unmarshal_maintainer_heartbeat_def marshal_maintainer_heartbeat_def maintainer_heartbeat_msg.roundtrip)
qed

lemma documents_roundtrip_witness:
  "decode_lease (marshal_lease (lease_zero\<lparr>ls_holder := ''h'', ls_epoch := 2\<rparr>)) = Inr (canon_lease (lease_zero\<lparr>ls_holder := ''h'', ls_epoch := 2\<rparr>))"
  using documents_roundtrip [OF wf_zero(1,2) wf_lease_sample wf_zero(3,4,5,6)] by blast

text \<open>
  C31: No input crashes or hangs a decoder: for every byte string, each of the twenty decoders returns
  a message or one of the codec's two errors, truncated and invalid. It never slices out of range,
  whatever lengths the input claims, and its loop always ends.
\<close>

theorem decoders_total:
  "clean (decode_timestamp b)
   \<and> clean (decode_manifest b)
   \<and> clean (decode_repo_settings b)
   \<and> clean (decode_log_segment_ref b)
   \<and> clean (decode_pack_ref b)
   \<and> clean (decode_log_entry b)
   \<and> clean (decode_ref_update b)
   \<and> clean (decode_ref_transaction b)
   \<and> clean (decode_checkpoint b)
   \<and> clean (decode_checkpoint_ref b)
   \<and> clean (decode_ref_snapshot b)
   \<and> clean (decode_ref b)
   \<and> clean (decode_lease b)
   \<and> clean (decode_bundle_list b)
   \<and> clean (decode_skipped_slot b)
   \<and> clean (decode_bundle_entry b)
   \<and> clean (decode_fsck_report b)
   \<and> clean (decode_repo_catalog_entry b)
   \<and> clean (decode_repo_catalog b)
   \<and> clean (decode_maintainer_heartbeat b)"
  by (simp add: decode_timestamp_def unmarshal_timestamp_def timestamp_msg.no_stuck
      decode_manifest_def unmarshal_manifest_def manifest_msg.no_stuck
      decode_repo_settings_def unmarshal_repo_settings_def repo_settings_msg.no_stuck
      decode_log_segment_ref_def unmarshal_log_segment_ref_def log_segment_ref_msg.no_stuck
      decode_pack_ref_def unmarshal_pack_ref_def pack_ref_msg.no_stuck
      decode_log_entry_def unmarshal_log_entry_def log_entry_msg.no_stuck
      decode_ref_update_def unmarshal_ref_update_def ref_update_msg.no_stuck
      decode_ref_transaction_def unmarshal_ref_transaction_def ref_transaction_msg.no_stuck
      decode_checkpoint_def unmarshal_checkpoint_def checkpoint_msg.no_stuck
      decode_checkpoint_ref_def unmarshal_checkpoint_ref_def checkpoint_ref_msg.no_stuck
      decode_ref_snapshot_def unmarshal_ref_snapshot_def ref_snapshot_msg.no_stuck
      decode_ref_def unmarshal_ref_def ref_msg.no_stuck
      decode_lease_def unmarshal_lease_def lease_msg.no_stuck
      decode_bundle_list_def unmarshal_bundle_list_def bundle_list_msg.no_stuck
      decode_skipped_slot_def unmarshal_skipped_slot_def skipped_slot_msg.no_stuck
      decode_bundle_entry_def unmarshal_bundle_entry_def bundle_entry_msg.no_stuck
      decode_fsck_report_def unmarshal_fsck_report_def fsck_report_msg.no_stuck
      decode_repo_catalog_entry_def unmarshal_repo_catalog_entry_def repo_catalog_entry_msg.no_stuck
      decode_repo_catalog_def unmarshal_repo_catalog_def repo_catalog_msg.no_stuck
      decode_maintainer_heartbeat_def unmarshal_maintainer_heartbeat_def maintainer_heartbeat_msg.no_stuck)

text \<open>
  C32: The size pass is exact: for every message but the log entry, the size the writer allocates and
  declares as a submessage length is the length of what it writes.
\<close>

theorem sizes_exact:
  "size_timestamp x0 = length (marshal_timestamp x0)
   \<and> size_manifest x1 = length (marshal_manifest x1)
   \<and> size_repo_settings x2 = length (marshal_repo_settings x2)
   \<and> size_log_segment_ref x3 = length (marshal_log_segment_ref x3)
   \<and> size_pack_ref x4 = length (marshal_pack_ref x4)
   \<and> size_ref_update x6 = length (marshal_ref_update x6)
   \<and> size_ref_transaction x7 = length (marshal_ref_transaction x7)
   \<and> size_checkpoint x8 = length (marshal_checkpoint x8)
   \<and> size_checkpoint_ref x9 = length (marshal_checkpoint_ref x9)
   \<and> size_ref_snapshot x10 = length (marshal_ref_snapshot x10)
   \<and> size_ref x11 = length (marshal_ref x11)
   \<and> size_lease x12 = length (marshal_lease x12)
   \<and> size_bundle_list x13 = length (marshal_bundle_list x13)
   \<and> size_skipped_slot x14 = length (marshal_skipped_slot x14)
   \<and> size_bundle_entry x15 = length (marshal_bundle_entry x15)
   \<and> size_fsck_report x16 = length (marshal_fsck_report x16)
   \<and> size_repo_catalog_entry x17 = length (marshal_repo_catalog_entry x17)
   \<and> size_repo_catalog x18 = length (marshal_repo_catalog x18)
   \<and> size_maintainer_heartbeat x19 = length (marshal_maintainer_heartbeat x19)"
  by (simp add: marshal_timestamp_def size_timestamp_exact
      marshal_manifest_def size_manifest_exact
      marshal_repo_settings_def size_repo_settings_exact
      marshal_log_segment_ref_def size_log_segment_ref_exact
      marshal_pack_ref_def size_pack_ref_exact
      marshal_ref_update_def size_ref_update_exact
      marshal_ref_transaction_def size_ref_transaction_exact
      marshal_checkpoint_def size_checkpoint_exact
      marshal_checkpoint_ref_def size_checkpoint_ref_exact
      marshal_ref_snapshot_def size_ref_snapshot_exact
      marshal_ref_def size_ref_exact
      marshal_lease_def size_lease_exact
      marshal_bundle_list_def size_bundle_list_exact
      marshal_skipped_slot_def size_skipped_slot_exact
      marshal_bundle_entry_def size_bundle_entry_exact
      marshal_fsck_report_def size_fsck_report_exact
      marshal_repo_catalog_entry_def size_repo_catalog_entry_exact
      marshal_repo_catalog_def size_repo_catalog_exact
      marshal_maintainer_heartbeat_def size_maintainer_heartbeat_exact)

text \<open>
  Manifests are forward compatible: a field number this reader does not know, written after the
  known ones by a newer writer, is skipped and the manifest reads the same.
\<close>

theorem manifest_ignores_unknown_field:
  assumes "wf_manifest m" and "12 < num" and "num < 16"
  shows "decode_manifest (marshal_manifest m @ fld_uint num v) = Inr (canon_manifest m)"
  using manifest_msg.merge [OF assms(1), of "fld_uint num v"] manifest_skips_unknown [OF assms(3,2)]
  by (simp add: decode_manifest_def unmarshal_manifest_def marshal_manifest_def)

lemma manifest_ignores_unknown_field_witness:
  "decode_manifest (marshal_manifest (manifest_zero\<lparr>mf_head_seq := 9\<rparr>) @ fld_uint 13 1)
   = Inr (canon_manifest (manifest_zero\<lparr>mf_head_seq := 9\<rparr>))"
  by (rule manifest_ignores_unknown_field) (simp_all add: wf_manifest_seq)

text \<open>
  The metadata length is wrong from 128 bytes on: for a value that long the declared entry length
  is smaller than the bytes written.
\<close>

theorem long_meta_value_undersized:
  assumes "128 \<le> length v" and "length v < 2 ^ 63"
  shows "map_entry_size k v < length (append_map_entry [] k v)"
  using assms by (rule map_entry_short)

lemma long_meta_value_undersized_witness:
  "map_entry_size ''agent'' (replicate 200 (CHR ''x'')) < length (append_map_entry [] ''agent'' (replicate 200 (CHR ''x'')))"
  by (rule long_meta_value_undersized) simp_all

text \<open>
  Such an entry cannot be read back: an entry whose metadata maps a key shorter than 128 bytes to
  a value of 128 to 16383 bytes is encoded without complaint, and decoding the encoding is the
  truncation error.
\<close>

theorem long_meta_entry_unreadable:
  assumes "wf_str k" and "k \<noteq> []" and "length k < 128" and "128 \<le> length v" and "length v < 16384"
  shows "decode_log_entry (marshal_log_entry (log_entry_zero\<lparr>le_meta := [(k, v)]\<rparr>)) = Inl ErrTruncated"
  using assms by (rule long_meta_decode)

lemma long_meta_entry_unreadable_witness:
  "decode_log_entry (marshal_log_entry (log_entry_zero\<lparr>le_meta := [(''agent'', replicate 200 (CHR ''x''))]\<rparr>)) = Inl ErrTruncated"
  by (rule long_meta_entry_unreadable) (simp_all add: wf_str_def bytes_of_def byte_of_char_def)

end
