(* ===== verification/Frames.thy ===== *)
theory Frames
  imports Log_Codec
begin

text \<open>
  Log framing: \<^verbatim>\<open>internal/store/frame.go\<close> and the typed wrappers at the end of
  \<^verbatim>\<open>internal/store/proto/codec.go\<close>. A frame is a uvarint length and that many bytes. The streaming
  reader (\<open>decode_frames\<close>, over a reader of exactly the given bytes that fails only with EOF)
  tolerates a partial tail, the sealed reader (\<open>decode_segment\<close>) does not.
  \<^verbatim>\<open>binary.ReadUvarint\<close> of the standard library is written out as \<open>read_uvarint\<close>.
\<close>

section \<open>Byte-level frames\<close>

definition max_frame_bytes :: nat where
  "max_frame_bytes = 32 * 2 ^ 20"

definition append_frame :: "bytes \<Rightarrow> bytes \<Rightarrow> bytes" where
  "append_frame buf entry_bytes = (buf @ uvarint (word_of_nat (length entry_bytes))) @ entry_bytes"

datatype read_error = EOF | UnexpectedEOF | Overflow

fun read_uvarint_from :: "nat \<Rightarrow> nat \<Rightarrow> u64 \<Rightarrow> bytes \<Rightarrow> read_error + (u64 \<times> bytes)" where
  "read_uvarint_from i s x d =
     (if 10 \<le> i then Inl Overflow
      else case d of [] \<Rightarrow> Inl (if 0 < i then UnexpectedEOF else EOF)
        | b # bs \<Rightarrow>
            if b < 128 then
              (if i = 9 \<and> 1 < b then Inl Overflow else Inr (x OR push_bit s (ucast b), bs))
            else read_uvarint_from (i + 1) (s + 7) (x OR push_bit s (ucast (b AND 127))) bs)"

declare read_uvarint_from.simps [simp del]

definition read_uvarint :: "bytes \<Rightarrow> read_error + (u64 \<times> bytes)" where
  "read_uvarint d = read_uvarint_from 0 0 0 d"

lemma read_uvarint_from_shorter:
  "read_uvarint_from i s x d = Inr (v, d') \<Longrightarrow> length d' < length d"
proof (induction d arbitrary: i s x)
  case Nil
  then show ?case by (simp add: read_uvarint_from.simps [of i] split: if_splits)
next
  case (Cons b bs)
  then show ?case
    by (fastforce simp: read_uvarint_from.simps [of i] split: if_splits)
qed

lemma read_uvarint_shorter: "read_uvarint d = Inr (v, d') \<Longrightarrow> length d' < length d"
  by (auto simp: read_uvarint_def dest: read_uvarint_from_shorter)

lemma read_uvarint_from_extend:
  "read_uvarint_from i s x d = Inr (v, d') \<Longrightarrow> read_uvarint_from i s x (d @ e) = Inr (v, d' @ e)"
proof (induction d arbitrary: i s x)
  case Nil
  then show ?case by (simp add: read_uvarint_from.simps [of i] split: if_splits)
next
  case (Cons b bs)
  then show ?case
    by (cases "b < 128") (simp_all add: read_uvarint_from.simps [of i] split: if_split_asm)
qed

lemma read_uvarint_from_dec:
  "dec_uvarint_from (7 * i) x d = Inr r \<Longrightarrow> read_uvarint_from i (7 * i) x d = Inr r"
proof (induction d arbitrary: i x)
  case (Cons b bs)
  from Cons.prems have "i < 10" by (simp split: if_split_asm)
  moreover have "read_uvarint_from (i + 1) (7 * i + 7) (x OR push_bit (7 * i) (ucast (b AND 127))) bs = Inr r"
    if "\<not> b < 128"
    using Cons.IH [of "i + 1" "x OR push_bit (7 * i) (ucast (b AND 127))"] Cons.prems that
    by (simp add: add.commute split: if_split_asm)
  ultimately show ?case
    using Cons.prems
    by (cases "b < 128") (simp_all add: read_uvarint_from.simps [of i] split: if_split_asm)
qed simp

lemma read_uvarint_uvarint [wire_simps]: "read_uvarint (uvarint x @ rest) = Inr (x, rest)"
  using read_uvarint_from_dec [of 0 0 "uvarint x @ rest"]
  by (simp add: read_uvarint_def wire_simps flip: dec_uvarint_def)

lemma read_uvarint_strict_prefix:
  assumes "k < length (uvarint x)"
  shows "\<exists>e. read_uvarint (take k (uvarint x)) = Inl e"
proof (cases "read_uvarint (take k (uvarint x))")
  case (Inr r)
  obtain v d' where r: "r = (v, d')" by (cases r)
  have "read_uvarint (take k (uvarint x) @ drop k (uvarint x)) = Inr (v, d' @ drop k (uvarint x))"
    using Inr r unfolding read_uvarint_def by (intro read_uvarint_from_extend) simp
  with read_uvarint_uvarint [of x "[]"] have "length (uvarint x) \<le> k" by auto
  with assms show ?thesis by linarith
qed simp

text \<open>
  \<^verbatim>\<open>cb\<close> is a function on the caller's state; its own error is kept in \<open>FrameCallback\<close>. The
  result is the number of complete frames, the error and the state the callbacks left.
\<close>

datatype 'e frame_error = FrameTooLong u64 | FrameCallback nat 'e

function decode_frames :: "('s \<Rightarrow> bytes \<Rightarrow> 'e + 's) \<Rightarrow> bytes \<Rightarrow> nat \<Rightarrow> 's \<Rightarrow> nat \<times> 'e frame_error option \<times> 's" where
  "decode_frames cb d n st =
     (case read_uvarint d of
        Inl EOF \<Rightarrow> (n, None, st)
      | Inl e \<Rightarrow> (n, None, st)
      | Inr (ln, d') \<Rightarrow>
          if max_frame_bytes < unat ln then (n, Some (FrameTooLong ln), st)
          else if length d' < unat ln then (n, None, st)
          else case cb st (take (unat ln) d') of
              Inl e \<Rightarrow> (n, Some (FrameCallback n e), st)
            | Inr st' \<Rightarrow> decode_frames cb (drop (unat ln) d') (n + 1) st')"
  by pat_completeness auto
termination
  by (relation "measure (\<lambda>(cb, d, n, st). length d)") (auto dest: read_uvarint_shorter)

declare decode_frames.simps [simp del]

lemma append_frame_append: "append_frame buf e = buf @ append_frame [] e"
  by (simp add: append_frame_def)

lemma unat_length_small: "n \<le> max_frame_bytes \<Longrightarrow> unat (word_of_nat n :: u64) = n"
  by (simp add: max_frame_bytes_def unat_of_nat)

lemma decode_frames_read:
  "read_uvarint d = Inr (ln, d') \<Longrightarrow>
   decode_frames cb d n st =
     (if max_frame_bytes < unat ln then (n, Some (FrameTooLong ln), st)
      else if length d' < unat ln then (n, None, st)
      else case cb st (take (unat ln) d') of
          Inl e \<Rightarrow> (n, Some (FrameCallback n e), st)
        | Inr st' \<Rightarrow> decode_frames cb (drop (unat ln) d') (n + 1) st')"
  by (simp add: decode_frames.simps [of cb d])

lemma decode_frames_frame:
  assumes "length e \<le> max_frame_bytes" and "cb st e = Inr st'"
  shows "decode_frames cb (append_frame [] e @ rest) n st = decode_frames cb rest (n + 1) st'"
proof -
  have "read_uvarint (append_frame [] e @ rest) = Inr (word_of_nat (length e), e @ rest)"
    by (simp add: append_frame_def wire_simps)
  from decode_frames_read [OF this, of cb n st] assms show ?thesis
    by (simp add: unat_length_small)
qed

lemma decode_frames_stop: "read_uvarint d = Inl e \<Longrightarrow> decode_frames cb d n st = (n, None, st)"
  by (cases e) (simp_all add: decode_frames.simps [of cb d])

lemma decode_frames_Nil: "decode_frames cb [] n st = (n, None, st)"
  by (rule decode_frames_stop [of _ EOF]) (simp add: read_uvarint_def read_uvarint_from.simps)

lemma decode_frames_partial:
  assumes "length e \<le> max_frame_bytes" and "k < length (append_frame [] e)"
  shows "decode_frames cb (take k (append_frame [] e)) n st = (n, None, st)"
proof (cases "k < length (uvarint (word_of_nat (length e)))")
  case True
  then obtain er where "read_uvarint (take k (uvarint (word_of_nat (length e)))) = Inl er"
    using read_uvarint_strict_prefix by blast
  with True show ?thesis by (simp add: append_frame_def decode_frames_stop)
next
  case False
  let ?u = "uvarint (word_of_nat (length e))"
  have rd: "read_uvarint (take k (append_frame [] e)) = Inr (word_of_nat (length e), take (k - length ?u) e)"
    using False by (simp add: append_frame_def wire_simps)
  have "k - length ?u < length e" using assms(2) False by (simp add: append_frame_def)
  with decode_frames_read [OF rd, of cb n st] assms(1) show ?thesis
    by (simp add: unat_length_small)
qed

section \<open>Typed frames\<close>

definition append_entries :: "bytes \<Rightarrow> log_entry list \<Rightarrow> bytes" where
  "append_entries buf entries = fold (\<lambda>e buf. append_frame buf (marshal_log_entry e)) entries buf"

definition encode_segment :: "log_entry list \<Rightarrow> bytes" where
  "encode_segment entries = append_entries [] entries"

text \<open>\<^verbatim>\<open>DecodeEntries\<close> with a callback that collects the entries.\<close>

definition decode_entries :: "bytes \<Rightarrow> nat \<times> wire_error frame_error option \<times> log_entry list" where
  "decode_entries d =
     decode_frames (\<lambda>es body. rbind (decode_log_entry body) (\<lambda>e. Inr (es @ [e]))) d 0 []"

text \<open>
  \<^verbatim>\<open>DecodeSegment\<close> reads the length into a signed \<^verbatim>\<open>int\<close> with no overflow check, so a
  ten-byte length can be negative: it passes both guards, and slicing with it panics.
\<close>

fun segment_len :: "nat \<Rightarrow> u64 \<Rightarrow> bytes \<Rightarrow> (u64 \<times> bytes) option" where
  "segment_len shift ln [] = None"
| "segment_len shift ln (c # bs) =
     (if 64 \<le> shift then None
      else let ln = ln OR push_bit shift (ucast (c AND 127))
           in if c < 128 then Some (ln, bs) else segment_len (shift + 7) ln bs)"

datatype segment_error = TruncatedLength | LengthTooLong int | PartialTail | BadEntry nat wire_error

datatype segment_result =
    SegOk "log_entry list"
  | SegErr "log_entry list" segment_error
  | SegPanic

lemma segment_len_shorter: "segment_len s v d = Some (ln, d') \<Longrightarrow> length d' < length d"
  by (induction s v d rule: segment_len.induct) (fastforce simp: Let_def split: if_splits)+

function decode_segment_from :: "bytes \<Rightarrow> log_entry list \<Rightarrow> segment_result" where
  "decode_segment_from b out =
     (if b = [] then SegOk out
      else case segment_len 0 0 b of
        None \<Rightarrow> SegErr out TruncatedLength
      | Some (ln, b') \<Rightarrow>
          if int max_frame_bytes < sint ln then SegErr out (LengthTooLong (sint ln))
          else if int (length b') < sint ln then SegErr out PartialTail
          else if sint ln < 0 then SegPanic
          else case decode_log_entry (take (unat ln) b') of
              Inl e \<Rightarrow> SegErr out (BadEntry (length out) e)
            | Inr e \<Rightarrow> decode_segment_from (drop (unat ln) b') (out @ [e]))"
  by pat_completeness auto
termination
  by (relation "measure (\<lambda>(b, out). length b)") (auto dest: segment_len_shorter)

declare decode_segment_from.simps [simp del]

definition decode_segment :: "bytes \<Rightarrow> segment_result" where
  "decode_segment b = decode_segment_from b []"

text \<open>What a writer must respect: every entry is well formed and fits a frame.\<close>

definition wf_entry :: "log_entry \<Rightarrow> bool" where
  "wf_entry e \<longleftrightarrow> wf_log_entry e \<and> size_log_entry e \<le> max_frame_bytes"

definition frame_of :: "log_entry \<Rightarrow> bytes" where
  "frame_of e = append_frame [] (marshal_log_entry e)"

lemma append_entries_frames: "append_entries buf es = buf @ concat (map frame_of es)"
proof (induction es arbitrary: buf)
  case (Cons e es)
  have "append_entries buf (e # es) = append_entries (append_frame buf (marshal_log_entry e)) es"
    by (simp add: append_entries_def)
  with Cons show ?case
    by (simp add: frame_of_def append_frame_append [of buf])
qed (simp add: append_entries_def)

lemma encode_segment_frames: "encode_segment es = concat (map frame_of es)"
  by (simp add: encode_segment_def append_entries_frames)

lemma wf_entry_size: "wf_entry e \<Longrightarrow> length (marshal_log_entry e) \<le> max_frame_bytes"
  by (simp add: wf_entry_def marshal_log_entry_def log_entry_msg.wf_ok flip: size_log_entry_exact)

lemma wf_entry_decode: "wf_entry e \<Longrightarrow> decode_log_entry (marshal_log_entry e) = Inr (canon_log_entry e)"
  by (simp add: wf_entry_def decode_log_entry_def unmarshal_log_entry_def marshal_log_entry_def
      log_entry_msg.roundtrip)

lemma dec_uvarint_segment_len:
  "dec_uvarint_from s v d = Inr r \<Longrightarrow> segment_len s v d = Some r"
proof (induction s v d rule: dec_uvarint_from.induct)
  case (2 shift v b bs)
  have "b AND 127 = b" if "b < 128"
  proof -
    have "(127 :: u8) = mask 7" by (simp add: mask_eq_exp_minus_1)
    moreover have "take_bit 7 b = b"
      using that by (intro take_bit_word_small) (simp add: word_less_nat_alt)
    ultimately show ?thesis by (simp only: take_bit_eq_mask)
  qed
  with 2 show ?case by (auto simp: Let_def split: if_splits)
qed simp

lemma segment_len_uvarint: "segment_len 0 0 (uvarint x @ rest) = Some (x, rest)"
  by (rule dec_uvarint_segment_len) (simp add: wire_simps flip: dec_uvarint_def)

lemma sint_length_small:
  assumes "n \<le> max_frame_bytes"
  shows "sint (word_of_nat n :: u64) = int n"
proof -
  have "int n < 2 ^ 63" using assms by (simp add: max_frame_bytes_def)
  then have "signed_take_bit 63 (int n) = int n" by (intro signed_take_bit_int_eq_self) simp_all
  then show ?thesis by (simp add: signed_of_nat)
qed

lemma decode_segment_frame:
  assumes "wf_entry e"
  shows "decode_segment_from (frame_of e @ rest) out = decode_segment_from rest (out @ [canon_log_entry e])"
proof -
  let ?b = "marshal_log_entry e"
  have "segment_len 0 0 (frame_of e @ rest) = Some (word_of_nat (length ?b), ?b @ rest)"
    by (simp add: frame_of_def append_frame_def segment_len_uvarint)
  moreover have "frame_of e \<noteq> []" by (simp add: frame_of_def append_frame_def)
  ultimately show ?thesis
    using wf_entry_size [OF assms] wf_entry_decode [OF assms]
    by (simp add: decode_segment_from.simps [of "frame_of e @ rest"] sint_length_small unat_length_small)
qed

lemma decode_segment_frames:
  "list_all wf_entry es \<Longrightarrow>
   decode_segment_from (concat (map frame_of es) @ rest) out = decode_segment_from rest (out @ map canon_log_entry es)"
  by (induction es arbitrary: out) (simp_all add: decode_segment_frame)

lemma decode_entries_frames:
  fixes cb :: "log_entry list \<Rightarrow> bytes \<Rightarrow> wire_error + log_entry list"
  assumes "cb = (\<lambda>es body. rbind (decode_log_entry body) (\<lambda>e. Inr (es @ [e])))" and "list_all wf_entry es"
  shows "decode_frames cb (concat (map frame_of es) @ rest) n st
    = decode_frames cb rest (n + length es) (st @ map canon_log_entry es)"
  using assms(2)
proof (induction es arbitrary: n st)
  case (Cons e es)
  then have "length (marshal_log_entry e) \<le> max_frame_bytes"
    and "cb st (marshal_log_entry e) = Inr (st @ [canon_log_entry e])"
    by (simp_all add: wf_entry_size wf_entry_decode assms(1))
  then have "decode_frames cb (frame_of e @ concat (map frame_of es) @ rest) n st
      = decode_frames cb (concat (map frame_of es) @ rest) (n + 1) (st @ [canon_log_entry e])"
    unfolding frame_of_def by (rule decode_frames_frame)
  with Cons show ?case by simp
qed simp

text \<open>How many whole frames fit in the first \<open>k\<close> bytes.\<close>

fun whole_frames :: "nat \<Rightarrow> log_entry list \<Rightarrow> nat" where
  "whole_frames k [] = 0"
| "whole_frames k (e # es) =
     (if length (frame_of e) \<le> k then Suc (whole_frames (k - length (frame_of e)) es) else 0)"

lemma whole_frames_le: "whole_frames k es \<le> length es"
  by (induction k es rule: whole_frames.induct) auto

lemma take_frames:
  "\<exists>tail. take k (concat (map frame_of es)) = concat (map frame_of (take (whole_frames k es) es)) @ tail
     \<and> (tail = [] \<or> (\<exists>e k'. e \<in> set es \<and> k' < length (frame_of e) \<and> tail = take k' (frame_of e)))"
proof (induction k es rule: whole_frames.induct)
  case (2 k e es)
  show ?case
  proof (cases "length (frame_of e) \<le> k")
    case True
    with 2 show ?thesis by (auto 4 3 simp: append_eq_append_conv2)
  next
    case False
    then show ?thesis by (auto intro!: exI [of _ e] exI [of _ k])
  qed
qed simp

lemma segment_len_extend: "segment_len s v d = Some (ln, d') \<Longrightarrow> segment_len s v (d @ e) = Some (ln, d' @ e)"
  by (induction s v d rule: segment_len.induct) (auto simp: Let_def split: if_splits)

lemma segment_len_strict_prefix:
  assumes "k < length (uvarint x)"
  shows "segment_len 0 0 (take k (uvarint x)) = None"
proof (cases "segment_len 0 0 (take k (uvarint x))")
  case (Some r)
  obtain v d' where r: "r = (v, d')" by (cases r)
  have "segment_len 0 0 (take k (uvarint x) @ drop k (uvarint x)) = Some (v, d' @ drop k (uvarint x))"
    using Some r by (intro segment_len_extend) simp
  with segment_len_uvarint [of x "[]"] have "length (uvarint x) \<le> k" by auto
  with assms show ?thesis by linarith
qed simp

lemma decode_segment_partial:
  assumes "wf_entry e" and "0 < k" and "k < length (frame_of e)"
  shows "\<exists>err. decode_segment_from (take k (frame_of e)) out = SegErr out err \<and> (err = TruncatedLength \<or> err = PartialTail)"
proof -
  let ?b = "marshal_log_entry e" and ?u = "uvarint (word_of_nat (length (marshal_log_entry e)))"
  have ne: "take k (frame_of e) \<noteq> []" using assms(2,3) by auto
  show ?thesis
  proof (cases "k < length ?u")
    case True
    then have "segment_len 0 0 (take k (frame_of e)) = None"
      using segment_len_strict_prefix by (simp add: frame_of_def append_frame_def)
    with ne show ?thesis by (simp add: decode_segment_from.simps [of "take k (frame_of e)"])
  next
    case False
    then have "segment_len 0 0 (take k (frame_of e)) = Some (word_of_nat (length ?b), take (k - length ?u) ?b)"
      by (simp add: frame_of_def append_frame_def segment_len_uvarint)
    moreover have "k - length ?u < length ?b"
      using assms(3) False by (simp add: frame_of_def append_frame_def)
    ultimately show ?thesis
      using ne wf_entry_size [OF assms(1)]
      by (simp add: decode_segment_from.simps [of "take k (frame_of e)"] sint_length_small)
  qed
qed

text \<open>A small entry, for the concrete instances below.\<close>

definition entry_of_seq :: "u64 \<Rightarrow> log_entry" where
  "entry_of_seq n = log_entry_zero\<lparr>le_seq := n\<rparr>"

lemma marshal_entry_of_seq: "n < 128 \<Longrightarrow> n \<noteq> 0 \<Longrightarrow> marshal_log_entry (entry_of_seq n) = [8, ucast n]"
  by (simp add: entry_of_seq_def marshal_log_entry_def append_log_entry_fields log_entry_zero_def fld_uint_def put_uint_def
      fld_sub_def fld_strings_def canon_time_def fld_string_def put_string_def fld_map_def put_map_def sorted_keys_def
      append_uvarint_def uvarint_small wire_tag_def)

lemma frame_entry_of_seq [simp]: "n < 128 \<Longrightarrow> n \<noteq> 0 \<Longrightarrow> frame_of (entry_of_seq n) = [2, 8, ucast n]"
  by (simp add: frame_of_def append_frame_def append_uvarint_def marshal_entry_of_seq uvarint_small)

lemma wf_entry_of_seq: "wf_entry (entry_of_seq n)"
proof -
  have "uvarint_len n \<le> 10"
    using length_uvarint_le [of n 10] unsigned_less [of n, where ?'a = nat] by (simp add: uvarint_len_def)
  then have "size_log_entry (entry_of_seq n) \<le> 11"
    by (simp add: entry_of_seq_def log_entry_zero_def size_log_entry_def sz_uint_def sz_sub_def sz_strings_def sz_time_def
        sz_string_def sz_map_def sorted_keys_def size_tag_1)
  then show ?thesis
    by (simp add: wf_entry_def wf_log_entry_def entry_of_seq_def log_entry_zero_def wf_str_def wf_map_def max_frame_bytes_def)
qed

section \<open>Properties\<close>

text \<open>
  C33: A sealed log segment reads back: for entries the writer accepts (well formed and within the
  frame limit), decoding the encoded segment gives the entries, in order, in the form that
  survives the wire.
\<close>

theorem segment_roundtrip:
  assumes "list_all wf_entry es"
  shows "decode_segment (encode_segment es) = SegOk (map canon_log_entry es)"
  using decode_segment_frames [OF assms, of "[]" "[]"]
  by (simp add: decode_segment_def encode_segment_frames decode_segment_from.simps)

lemma segment_roundtrip_witness:
  "decode_segment (encode_segment [entry_of_seq 7, entry_of_seq 8]) = SegOk (map canon_log_entry [entry_of_seq 7, entry_of_seq 8])"
  by (rule segment_roundtrip) (simp add: wf_entry_of_seq)

text \<open>
  A growing segment may be read at any byte: whatever prefix of it a reader gets,
  \<^verbatim>\<open>DecodeEntries\<close> yields exactly the entries whose frames are complete in that prefix, and no
  error.
\<close>

theorem growing_segment_reads_whole_frames:
  assumes "list_all wf_entry es"
  shows "decode_entries (take k (encode_segment es)) =
    (whole_frames k es, None, map canon_log_entry (take (whole_frames k es) es))"
proof -
  let ?n = "whole_frames k es"
  obtain tail where split: "take k (encode_segment es) = concat (map frame_of (take ?n es)) @ tail"
    and tail: "tail = [] \<or> (\<exists>e k'. e \<in> set es \<and> k' < length (frame_of e) \<and> tail = take k' (frame_of e))"
    using take_frames [of k es] by (auto simp: encode_segment_frames)
  have "decode_frames cb tail n st = (n, None, st)" for cb :: "log_entry list \<Rightarrow> bytes \<Rightarrow> wire_error + log_entry list" and n st
    using tail assms by (auto simp: decode_frames_Nil frame_of_def list_all_iff wf_entry_size intro!: decode_frames_partial)
  moreover have "list_all wf_entry (take ?n es)" using assms by (auto simp: list_all_iff dest: in_set_takeD)
  ultimately show ?thesis
    by (simp add: decode_entries_def split decode_entries_frames whole_frames_le min_absorb2)
qed

lemma growing_segment_reads_whole_frames_witness:
  "decode_entries (take 4 (encode_segment [entry_of_seq 7, entry_of_seq 8])) = (1, None, [canon_log_entry (entry_of_seq 7)])"
  using growing_segment_reads_whole_frames [of "[entry_of_seq 7, entry_of_seq 8]" 4]
  by (simp add: wf_entry_of_seq frame_entry_of_seq)

text \<open>
  A sealed segment that lost bytes is reported: cut anywhere but between two frames,
  \<^verbatim>\<open>DecodeSegment\<close> returns the whole entries before the cut together with an error.
\<close>

theorem sealed_segment_rejects_truncation:
  assumes "list_all wf_entry es" and "k < length (encode_segment es)"
    and "k \<noteq> length (encode_segment (take (whole_frames k es) es))"
  shows "\<exists>err. decode_segment (take k (encode_segment es))
      = SegErr (map canon_log_entry (take (whole_frames k es) es)) err
    \<and> (err = TruncatedLength \<or> err = PartialTail)"
proof -
  let ?n = "whole_frames k es"
  obtain tail where split: "take k (encode_segment es) = concat (map frame_of (take ?n es)) @ tail"
    and tail: "tail = [] \<or> (\<exists>e k'. e \<in> set es \<and> k' < length (frame_of e) \<and> tail = take k' (frame_of e))"
    using take_frames [of k es] by (auto simp: encode_segment_frames)
  have "k = length (concat (map frame_of (take ?n es)) @ tail)"
    unfolding split [symmetric] using assms(2) by simp
  then have "tail \<noteq> []" using assms(3) by (auto simp: encode_segment_frames)
  with tail obtain e k' where e: "e \<in> set es" "k' < length (frame_of e)" "tail = take k' (frame_of e)"
    by blast
  moreover have "wf_entry e" using assms(1) e(1) by (simp add: list_all_iff)
  moreover have "0 < k'" using e(3) \<open>tail \<noteq> []\<close> by (cases k') simp_all
  moreover have "list_all wf_entry (take ?n es)" using assms(1) by (auto simp: list_all_iff dest: in_set_takeD)
  ultimately show ?thesis
    using decode_segment_partial [of e k' "map canon_log_entry (take ?n es)"]
    by (simp add: decode_segment_def split decode_segment_frames)
qed

lemma sealed_segment_rejects_truncation_witness:
  "\<exists>err. decode_segment (take 4 (encode_segment [entry_of_seq 7, entry_of_seq 8])) = SegErr [canon_log_entry (entry_of_seq 7)] err
    \<and> (err = TruncatedLength \<or> err = PartialTail)"
  using sealed_segment_rejects_truncation [of "[entry_of_seq 7, entry_of_seq 8]" 4]
  by (simp add: wf_entry_of_seq frame_entry_of_seq encode_segment_frames)

text \<open>
  A frame length of 2 to the 63 passes the size check of \<^verbatim>\<open>DecodeSegment\<close>, which compares it as a
  signed integer, and the slice expression that follows panics.
\<close>

theorem negative_length_panics: "decode_segment ([128, 128, 128, 128, 128, 128, 128, 128, 128, 1] @ rest) = SegPanic"
  by (simp add: decode_segment_def decode_segment_from.simps max_frame_bytes_def)

text \<open>
  A ten-byte length that overflows 64 bits is corruption, but \<^verbatim>\<open>DecodeEntries\<close> takes it for a
  partial tail: it reports no error and no entry.
\<close>

theorem overflowing_length_is_a_tail:
  "decode_entries ([128, 128, 128, 128, 128, 128, 128, 128, 128, 2] @ rest) = (0, None, [])"
proof -
  have "read_uvarint ([128, 128, 128, 128, 128, 128, 128, 128, 128, 2] @ rest) = Inl Overflow"
    by (simp add: read_uvarint_def read_uvarint_from.simps)
  then show ?thesis by (simp only: decode_entries_def decode_frames_stop)
qed

end
