(* ===== verification/Store.thy ===== *)
theory Store
  imports Prelude "HOL-Library.Sublist"
begin

text \<open>
  The object store: the types and wrappers of \<^verbatim>\<open>internal/store/store.go\<close> and the memory backend of
  \<^verbatim>\<open>internal/store/memory.go\<close>. \<open>object_store\<close> is the contract of the Go interface
  \<^verbatim>\<open>ObjectStore\<close> that the log is built on (conditional reads, create-if-absent, compare-and-swap),
  proved for the memory backend and, for any store that keeps it, for the \<^verbatim>\<open>Prefixed\<close> wrapper.

  Every operation of the backend runs under its mutex, so one operation is one function on the
  backend's state. The latency knob is 0 (the default): no operation is cancelled. A Go error is
  \<open>go_error\<close>; the text of a cause is not kept.
\<close>

section \<open>Types and errors\<close>

type_synonym version = string

record object_meta =
  om_key :: string
  om_size :: int
  om_version :: version

record get_options =
  go_if_none_match :: version
  go_if_match :: version
  go_range :: "(int \<times> int) option"

definition get_default :: get_options where
  "get_default = \<lparr>go_if_none_match = [], go_if_match = [], go_range = None\<rparr>"

datatype get_result = NotModified version | Object object_meta bytes

datatype put_mode = PutOverwrite | PutCreate | PutUpdate

record put_options =
  po_mode :: put_mode
  po_if_version :: version
  po_content_type :: string
  po_immutable :: bool

text \<open>\<open>pb_stream\<close> holds what the reader would deliver up to its end; \<open>nil\<close> is \<open>None\<close>.\<close>

record put_body =
  pb_bytes :: "bytes option"
  pb_stream :: "bytes option"
  pb_stream_len :: int
  pb_file :: string

datatype store_error_kind =
  ErrKindNotFound | ErrKindPreconditionFailed | ErrKindRetryable | ErrKindInvalidArgument | ErrKindOther | ErrKindCorrupt

datatype go_error =
    StoreError store_error_kind string version "go_error option"
  | PlainError "go_error option"

definition new_not_found :: "string \<Rightarrow> go_error" where
  "new_not_found key = StoreError ErrKindNotFound key [] None"

definition new_precondition :: "string \<Rightarrow> version \<Rightarrow> go_error" where
  "new_precondition key cur = StoreError ErrKindPreconditionFailed key cur None"

definition new_retryable :: "string \<Rightarrow> go_error option \<Rightarrow> go_error" where
  "new_retryable key err = StoreError ErrKindRetryable key [] err"

definition new_invalid :: "string \<Rightarrow> go_error option \<Rightarrow> go_error" where
  "new_invalid key err = StoreError ErrKindInvalidArgument key [] err"

definition new_other :: "string \<Rightarrow> go_error option \<Rightarrow> go_error" where
  "new_other key err = StoreError ErrKindOther key [] err"

definition new_corrupt :: "string \<Rightarrow> go_error option \<Rightarrow> go_error" where
  "new_corrupt key err = StoreError ErrKindCorrupt key [] err"

fun kind_is :: "go_error option \<Rightarrow> store_error_kind \<Rightarrow> bool" where
  "kind_is None k = False"
| "kind_is (Some (StoreError k' key cur err)) k = (k' = k)"
| "kind_is (Some (PlainError err)) k = kind_is err k"

definition is_not_found :: "go_error \<Rightarrow> bool" where
  "is_not_found e = kind_is (Some e) ErrKindNotFound"

definition is_precondition_failed :: "go_error \<Rightarrow> bool" where
  "is_precondition_failed e = kind_is (Some e) ErrKindPreconditionFailed"

definition is_retryable :: "go_error \<Rightarrow> bool" where
  "is_retryable e = kind_is (Some e) ErrKindRetryable"

definition is_invalid_argument :: "go_error \<Rightarrow> bool" where
  "is_invalid_argument e = kind_is (Some e) ErrKindInvalidArgument"

definition is_corrupt :: "go_error \<Rightarrow> bool" where
  "is_corrupt e = kind_is (Some e) ErrKindCorrupt"

text \<open>Only the outermost error counts here: \<^verbatim>\<open>PreconditionCurrent\<close> does not unwrap.\<close>

fun precondition_current :: "go_error \<Rightarrow> version option" where
  "precondition_current (StoreError k key cur err) = (if k = ErrKindPreconditionFailed then Some cur else None)"
| "precondition_current (PlainError err) = None"

lemmas new_error_defs = new_not_found_def new_precondition_def new_retryable_def new_invalid_def
  new_other_def new_corrupt_def

lemmas is_error_defs = is_not_found_def is_precondition_failed_def is_retryable_def
  is_invalid_argument_def is_corrupt_def

section \<open>Version strings\<close>

text \<open>\<^verbatim>\<open>strconv.FormatUint(n, 10)\<close>.\<close>

definition digit :: "nat \<Rightarrow> char" where
  "digit n = char_of (48 + n)"

fun decimal :: "nat \<Rightarrow> string" where
  "decimal n = (if n < 10 then [digit n] else decimal (n div 10) @ [digit (n mod 10)])"

declare decimal.simps [simp del]

definition undecimal :: "string \<Rightarrow> nat" where
  "undecimal s = foldl (\<lambda>v c. v * 10 + (of_char c - 48)) 0 s"

lemma of_char_digit: "n < 10 \<Longrightarrow> of_char (digit n) = 48 + n"
  by (simp add: digit_def)

lemma undecimal_decimal: "undecimal (decimal n) = n"
proof (induction n rule: decimal.induct)
  case (1 n)
  show ?case
  proof (cases "n < 10")
    case True
    then show ?thesis by (simp add: decimal.simps [of n] undecimal_def of_char_digit)
  next
    case False
    with 1 have "undecimal (decimal (n div 10)) = n div 10" by simp
    with False show ?thesis
      by (simp add: decimal.simps [of n] undecimal_def of_char_digit)
  qed
qed

lemma decimal_inject: "decimal m = decimal n \<longleftrightarrow> m = n"
  by (metis undecimal_decimal)

lemma decimal_1: "decimal 1 = ''1''" "decimal (Suc 0) = ''1''"
  by code_simp+

lemma decimal_not_Nil [simp]: "decimal n \<noteq> []"
  by (simp add: decimal.simps [of n])

section \<open>The memory backend\<close>

record mem_obj =
  mo_data :: bytes
  mo_version :: version
  mo_content_type :: string

record memory =
  mem_objs :: "(string \<times> mem_obj) list"
  mem_counter :: u64
  mem_ops :: int

definition new_memory :: memory where
  "new_memory = \<lparr>mem_objs = [], mem_counter = 0, mem_ops = 0\<rparr>"

definition mem_tick :: "memory \<Rightarrow> memory" where
  "mem_tick m = m\<lparr>mem_ops := mem_ops m + 1\<rparr>"

definition get_locked :: "memory \<Rightarrow> string \<Rightarrow> mem_obj option" where
  "get_locked m key = map_of (mem_objs m) key"

definition slice :: "bytes \<Rightarrow> int \<Rightarrow> int \<Rightarrow> bytes" where
  "slice b start end = take (nat (end - start)) (drop (nat start) b)"

definition mem_get :: "string \<Rightarrow> get_options \<Rightarrow> memory \<Rightarrow> memory \<times> (go_error + get_result)" where
  "mem_get key opts m =
     (let m = mem_tick m in
      (m, case get_locked m key of
            None \<Rightarrow> Inl (new_not_found key)
          | Some obj \<Rightarrow>
              if go_if_none_match opts \<noteq> [] \<and> go_if_none_match opts = mo_version obj
              then Inr (NotModified (mo_version obj))
              else if go_if_match opts \<noteq> [] \<and> go_if_match opts \<noteq> mo_version obj
              then Inl (new_precondition key (mo_version obj))
              else
                let size = int (length (mo_data obj));
                    meta = \<lparr>om_key = key, om_size = size, om_version = mo_version obj\<rparr>
                in case go_range opts of
                     None \<Rightarrow> Inr (Object meta (slice (mo_data obj) 0 size))
                   | Some (start, end) \<Rightarrow>
                       if start < 0 \<or> end < start then Inl (new_invalid key (Some (PlainError None)))
                       else let end = (if size < end then size else end)
                            in if size < start then Inl (new_precondition key (mo_version obj))
                               else Inr (Object meta (slice (mo_data obj) start end))))"

definition mem_head :: "string \<Rightarrow> memory \<Rightarrow> memory \<times> object_meta option" where
  "mem_head key m =
     (let m = mem_tick m in
      (m, case get_locked m key of
            None \<Rightarrow> None
          | Some obj \<Rightarrow> Some \<lparr>om_key = key, om_size = int (length (mo_data obj)), om_version = mo_version obj\<rparr>))"

definition put_locked :: "string \<Rightarrow> bytes \<Rightarrow> string \<Rightarrow> memory \<Rightarrow> memory \<times> object_meta" where
  "put_locked key data content_type m =
     (let c = mem_counter m + 1;
          v = decimal (unat c)
      in (m\<lparr>mem_counter := c,
            mem_objs := map_put key \<lparr>mo_data = data, mo_version = v, mo_content_type = content_type\<rparr> (mem_objs m)\<rparr>,
          \<lparr>om_key = key, om_size = int (length data), om_version = v\<rparr>))"

text \<open>
  \<open>readPutBody\<close>. \<open>files\<close> is what \<^verbatim>\<open>os.ReadFile\<close> returns on this machine.
\<close>

definition read_put_body :: "(string \<Rightarrow> bytes option) \<Rightarrow> put_body \<Rightarrow> go_error + bytes" where
  "read_put_body files body =
     (case pb_bytes body of
        Some b \<Rightarrow> Inr b
      | None \<Rightarrow>
          (case pb_stream body of
             Some content \<Rightarrow>
               if pb_stream_len body < 0 then Inl (PlainError None)
               else if int (length content) < pb_stream_len body then Inl (PlainError (Some (PlainError None)))
               else Inr (take (nat (pb_stream_len body)) content)
           | None \<Rightarrow>
               if pb_file body \<noteq> [] then
                 (case files (pb_file body) of None \<Rightarrow> Inl (PlainError None) | Some b \<Rightarrow> Inr b)
               else Inl (PlainError None)))"

text \<open>The \<^verbatim>\<open>switch opts.Mode\<close> that guards \<^verbatim>\<open>Put\<close> and \<^verbatim>\<open>Compose\<close>.\<close>

definition check_mode :: "string \<Rightarrow> put_options \<Rightarrow> mem_obj option \<Rightarrow> go_error option" where
  "check_mode key opts cur =
     (case po_mode opts of
        PutOverwrite \<Rightarrow> None
      | PutCreate \<Rightarrow> (case cur of None \<Rightarrow> None | Some c \<Rightarrow> Some (new_precondition key (mo_version c)))
      | PutUpdate \<Rightarrow>
          (case cur of
             None \<Rightarrow> Some (new_precondition key [])
           | Some c \<Rightarrow>
               if po_if_version opts = [] \<or> po_if_version opts \<noteq> mo_version c
               then Some (new_precondition key (mo_version c)) else None))"

definition mem_put ::
  "(string \<Rightarrow> bytes option) \<Rightarrow> string \<Rightarrow> put_body \<Rightarrow> put_options \<Rightarrow> memory \<Rightarrow> memory \<times> (go_error + object_meta)" where
  "mem_put files key body opts m =
     (if key = [] then (m, Inl (new_invalid key (Some (PlainError None))))
      else let m = mem_tick m in
        case read_put_body files body of
          Inl err \<Rightarrow> (m, Inl (new_other key (Some err)))
        | Inr data \<Rightarrow>
            (case check_mode key opts (get_locked m key) of
               Some err \<Rightarrow> (m, Inl err)
             | None \<Rightarrow> let (m, meta) = put_locked key data (po_content_type opts) m in (m, Inr meta)))"

definition mem_delete :: "string \<Rightarrow> version \<Rightarrow> memory \<Rightarrow> memory \<times> go_error option" where
  "mem_delete key if_version m =
     (let m = mem_tick m in
      case get_locked m key of
        None \<Rightarrow> (m, if if_version \<noteq> [] then Some (new_not_found key) else None)
      | Some obj \<Rightarrow>
          if if_version \<noteq> [] \<and> if_version \<noteq> mo_version obj
          then (m, Some (new_precondition key (mo_version obj)))
          else (m\<lparr>mem_objs := filter (\<lambda>(k, _). k \<noteq> key) (mem_objs m)\<rparr>, None))"

definition mem_keys :: "memory \<Rightarrow> string list" where
  "mem_keys m = sort (remdups (map fst (mem_objs m)))"

text \<open>
  \<^verbatim>\<open>List\<close> and \<^verbatim>\<open>ListPrefixes\<close> take a snapshot and then run the callback on its elements in
  order; these return the snapshot.
\<close>

definition mem_list :: "string \<Rightarrow> string \<Rightarrow> memory \<Rightarrow> memory \<times> object_meta list" where
  "mem_list pre start_after m =
     (let m = mem_tick m in
      (m, map (\<lambda>k. let obj = the (get_locked m k)
                   in \<lparr>om_key = k, om_size = int (length (mo_data obj)), om_version = mo_version obj\<rparr>)
            (filter (\<lambda>k. \<not> (pre \<noteq> [] \<and> \<not> prefix pre k) \<and> \<not> (start_after \<noteq> [] \<and> k \<le> start_after))
               (mem_keys m))))"

fun collect_prefixes :: "string \<Rightarrow> string list \<Rightarrow> string list \<Rightarrow> string list" where
  "collect_prefixes pre [] out = out"
| "collect_prefixes pre (k # ks) out =
     (if pre \<noteq> [] \<and> \<not> prefix pre k then collect_prefixes pre ks out
      else let rest = drop (length pre) k in
        if CHR ''/'' \<notin> set rest then collect_prefixes pre ks out
        else let p = pre @ takeWhile (\<lambda>c. c \<noteq> CHR ''/'') rest @ ''/''
             in if p \<in> set out then collect_prefixes pre ks out
                else collect_prefixes pre ks (out @ [p]))"

definition mem_list_prefixes :: "string \<Rightarrow> memory \<Rightarrow> memory \<times> string list" where
  "mem_list_prefixes pre m =
     (let m = mem_tick m in (m, collect_prefixes pre (mem_keys m) []))"

fun concat_sources :: "memory \<Rightarrow> string list \<Rightarrow> bytes \<Rightarrow> go_error + bytes" where
  "concat_sources m [] buf = Inr buf"
| "concat_sources m (src # srcs) buf =
     (case get_locked m src of
        None \<Rightarrow> Inl (new_not_found src)
      | Some obj \<Rightarrow> concat_sources m srcs (buf @ mo_data obj))"

definition mem_compose ::
  "string \<Rightarrow> string list \<Rightarrow> put_options \<Rightarrow> memory \<Rightarrow> memory \<times> (go_error + object_meta)" where
  "mem_compose dst sources opts m =
     (if length sources < 1 \<or> 32 < length sources then (m, Inl (new_invalid dst (Some (PlainError None))))
      else let m = mem_tick m in
        case concat_sources m sources [] of
          Inl err \<Rightarrow> (m, Inl err)
        | Inr data \<Rightarrow>
            (case check_mode dst opts (get_locked m dst) of
               Some err \<Rightarrow> (m, Inl err)
             | None \<Rightarrow> let (m, meta) = put_locked dst data (po_content_type opts) m in (m, Inr meta)))"

section \<open>The contract\<close>

text \<open>
  What a client of \<^verbatim>\<open>ObjectStore\<close> relies on. \<open>look\<close> is the abstract content (version and bytes
  of a key), \<open>used\<close> the versions handed out so far, \<open>inv\<close> the backend's invariant, \<open>room n\<close> that the
  backend can mint \<open>n\<close> more versions before its counter wraps.
\<close>

definition put_admits :: "put_options \<Rightarrow> (version \<times> bytes) option \<Rightarrow> bool" where
  "put_admits opts cur \<longleftrightarrow>
     (case po_mode opts of
        PutOverwrite \<Rightarrow> True
      | PutCreate \<Rightarrow> cur = None
      | PutUpdate \<Rightarrow> po_if_version opts \<noteq> [] \<and> map_option fst cur = Some (po_if_version opts))"

definition cas :: "version \<Rightarrow> put_options" where
  "cas v = \<lparr>po_mode = PutUpdate, po_if_version = v, po_content_type = [], po_immutable = False\<rparr>"

definition create_only :: put_options where
  "create_only = \<lparr>po_mode = PutCreate, po_if_version = [], po_content_type = [], po_immutable = False\<rparr>"

datatype store_op =
    OpGet string get_options
  | OpPut string bytes put_options
  | OpDelete string version

text \<open>A sequence of operations, by any number of clients, in the order the backend serialises them.\<close>

fun run_ops ::
  "(string \<Rightarrow> get_options \<Rightarrow> 's \<Rightarrow> 's \<times> (go_error + get_result)) \<Rightarrow>
   (string \<Rightarrow> bytes \<Rightarrow> put_options \<Rightarrow> 's \<Rightarrow> 's \<times> (go_error + object_meta)) \<Rightarrow>
   (string \<Rightarrow> version \<Rightarrow> 's \<Rightarrow> 's \<times> go_error option) \<Rightarrow> store_op list \<Rightarrow> 's \<Rightarrow> 's" where
  "run_ops g p d [] s = s"
| "run_ops g p d (OpGet k opts # ops) s = run_ops g p d ops (fst (g k opts s))"
| "run_ops g p d (OpPut k b opts # ops) s = run_ops g p d ops (fst (p k b opts s))"
| "run_ops g p d (OpDelete k v # ops) s = run_ops g p d ops (fst (d k v s))"

locale object_store =
  fixes get_op :: "string \<Rightarrow> get_options \<Rightarrow> 's \<Rightarrow> 's \<times> (go_error + get_result)"
    and put_op :: "string \<Rightarrow> bytes \<Rightarrow> put_options \<Rightarrow> 's \<Rightarrow> 's \<times> (go_error + object_meta)"
    and delete_op :: "string \<Rightarrow> version \<Rightarrow> 's \<Rightarrow> 's \<times> go_error option"
    and look :: "'s \<Rightarrow> string \<Rightarrow> (version \<times> bytes) option"
    and used :: "'s \<Rightarrow> version \<Rightarrow> bool"
    and inv :: "'s \<Rightarrow> bool"
    and room :: "nat \<Rightarrow> 's \<Rightarrow> bool"
    and key_ok :: "string \<Rightarrow> bool"
  assumes look_used: "inv s \<Longrightarrow> look s k = Some (v, b) \<Longrightarrow> used s v \<and> v \<noteq> []"
    and room_less: "room (Suc n) s \<Longrightarrow> room n s"
    and get_frame: "inv s \<Longrightarrow> get_op k opts s = (s', r) \<Longrightarrow>
      inv s' \<and> look s' = look s \<and> used s' = used s \<and> (\<forall>n. room n s \<longrightarrow> room n s')"
    and get_absent: "inv s \<Longrightarrow> look s k = None \<Longrightarrow> \<exists>e. snd (get_op k opts s) = Inl e \<and> is_not_found e"
    and get_unchanged: "inv s \<Longrightarrow> look s k = Some (v, b) \<Longrightarrow>
      snd (get_op k (get_default\<lparr>go_if_none_match := v\<rparr>) s) = Inr (NotModified v)"
    and get_changed: "inv s \<Longrightarrow> look s k = Some (v, b) \<Longrightarrow> w \<noteq> v \<Longrightarrow>
      snd (get_op k (get_default\<lparr>go_if_none_match := w\<rparr>) s)
        = Inr (Object \<lparr>om_key = k, om_size = int (length b), om_version = v\<rparr> b)"
    and put_done: "inv s \<Longrightarrow> key_ok k \<Longrightarrow> put_admits po (look s k) \<Longrightarrow> put_op k b po s = (s', res) \<Longrightarrow>
      \<exists>v. res = Inr \<lparr>om_key = k, om_size = int (length b), om_version = v\<rparr> \<and> look s' = (look s)(k \<mapsto> (v, b))
        \<and> used s' v \<and> (\<forall>w. used s w \<longrightarrow> room 1 s \<longrightarrow> used s' w \<and> w \<noteq> v)
        \<and> (room 1 s \<longrightarrow> inv s') \<and> (\<forall>n. room (Suc n) s \<longrightarrow> room n s')"
    and put_refused: "inv s \<Longrightarrow> \<not> (key_ok k \<and> put_admits po (look s k)) \<Longrightarrow> put_op k b po s = (s', res) \<Longrightarrow>
      (\<exists>e. res = Inl e \<and> (key_ok k \<longrightarrow> is_precondition_failed e)) \<and> inv s' \<and> look s' = look s \<and> used s' = used s
        \<and> (\<forall>n. room n s \<longrightarrow> room n s')"
    and delete_frame: "inv s \<Longrightarrow> delete_op k v s = (s', err) \<Longrightarrow>
      inv s' \<and> used s' = used s \<and> (\<forall>n. room n s \<longrightarrow> room n s')
        \<and> look s' = (if v = [] \<or> map_option fst (look s k) = Some v then (look s)(k := None) else look s)"
begin

lemma room_1: "room (Suc n) s \<Longrightarrow> room 1 s"
  by (induction n) (auto dest: room_less)

text \<open>A compare-and-swap against the current version succeeds, against any other it is refused.\<close>

lemma cas_done:
  assumes "inv s" and "key_ok k" and "look s k = Some (v, b)"
  shows "\<exists>w. snd (put_op k b' (cas v) s) = Inr \<lparr>om_key = k, om_size = int (length b'), om_version = w\<rparr>
    \<and> look (fst (put_op k b' (cas v) s)) = (look s)(k \<mapsto> (w, b'))"
proof -
  obtain s' r where r: "put_op k b' (cas v) s = (s', r)" by (cases "put_op k b' (cas v) s")
  have "put_admits (cas v) (look s k)"
    using assms look_used by (simp add: put_admits_def cas_def)
  from put_done [OF assms(1,2) this r] r show ?thesis by auto
qed

lemma cas_refused:
  assumes "inv s" and "key_ok k" and "map_option fst (look s k) \<noteq> Some v"
  shows "(\<exists>e. snd (put_op k b (cas v) s) = Inl e \<and> is_precondition_failed e)
    \<and> look (fst (put_op k b (cas v) s)) = look s"
proof -
  obtain s' r where r: "put_op k b (cas v) s = (s', r)" by (cases "put_op k b (cas v) s")
  have "\<not> (key_ok k \<and> put_admits (cas v) (look s k))"
    using assms by (simp add: put_admits_def cas_def)
  from put_refused [OF assms(1) this r] r assms(2) show ?thesis by auto
qed

text \<open>One operation keeps the invariant and never brings back a version that was replaced.\<close>

lemma put_keeps:
  assumes "inv s" and "room (Suc n) s" and "used s v" and "map_option fst (look s k) \<noteq> Some v"
    and "put_op k' b opts s = (s', r)"
  shows "inv s' \<and> room n s' \<and> used s' v \<and> map_option fst (look s' k) \<noteq> Some v"
proof (cases "key_ok k' \<and> put_admits opts (look s k')")
  case True
  then obtain w where "look s' = (look s)(k' \<mapsto> (w, b))"
    and "\<forall>u. used s u \<longrightarrow> room 1 s \<longrightarrow> used s' u \<and> u \<noteq> w" and "room 1 s \<longrightarrow> inv s'"
    and "\<forall>n. room (Suc n) s \<longrightarrow> room n s'"
    using put_done [OF assms(1) _ _ assms(5)] by blast
  with assms room_1 show ?thesis by auto
next
  case False
  with put_refused [OF assms(1) _ assms(5)] assms room_less show ?thesis by auto
qed

lemma no_version_returns:
  assumes "inv s" and "room (length ops) s" and "used s v" and "map_option fst (look s k) \<noteq> Some v"
  shows "inv (run_ops get_op put_op delete_op ops s)
    \<and> map_option fst (look (run_ops get_op put_op delete_op ops s) k) \<noteq> Some v"
  using assms
proof (induction ops arbitrary: s)
  case (Cons op ops)
  show ?case
  proof (cases op)
    case (OpGet k' opts)
    obtain s' r where r: "get_op k' opts s = (s', r)" by (cases "get_op k' opts s")
    with get_frame [OF Cons.prems(1) r] Cons OpGet room_less show ?thesis by auto
  next
    case (OpPut k' b opts)
    obtain s' r where r: "put_op k' b opts s = (s', r)" by (cases "put_op k' b opts s")
    have "inv s' \<and> room (length ops) s' \<and> used s' v \<and> map_option fst (look s' k) \<noteq> Some v"
      using Cons.prems by (intro put_keeps [OF _ _ _ _ r]) simp_all
    with Cons.IH OpPut r show ?thesis by simp
  next
    case (OpDelete k' w)
    obtain s' r where r: "delete_op k' w s = (s', r)" by (cases "delete_op k' w s")
    with delete_frame [OF Cons.prems(1) r] Cons OpDelete room_less show ?thesis by auto
  qed
qed simp

text \<open>
  Two writers that read the same version: once one of them has swapped, the other's swap is
  refused, whatever runs in between.
\<close>

lemma one_winner:
  assumes "inv s" and "key_ok k" and "look s k = Some (v, b)" and "room (Suc (length ops)) s"
    and won: "put_op k b1 (cas v) s = (s1, Inr meta)"
  shows "look s1 = (look s)(k \<mapsto> (om_version meta, b1)) \<and> om_version meta \<noteq> v
    \<and> (let s2 = run_ops get_op put_op delete_op ops s1; (s3, r) = put_op k b2 (cas v) s2
        in (\<exists>e. r = Inl e \<and> is_precondition_failed e) \<and> look s3 = look s2)"
proof -
  have v: "used s v" "v \<noteq> []" using look_used assms(1,3) by blast+
  have "put_admits (cas v) (look s k)" using assms(3) v by (simp add: put_admits_def cas_def)
  from put_done [OF assms(1,2) this won] obtain w where w: "look s1 = (look s)(k \<mapsto> (w, b1))" "om_version meta = w"
    "\<forall>u. used s u \<longrightarrow> room 1 s \<longrightarrow> used s1 u \<and> u \<noteq> w" "room 1 s \<longrightarrow> inv s1"
    "\<forall>n. room (Suc n) s \<longrightarrow> room n s1" by auto
  have "room 1 s" using assms(4) by (rule room_1)
  with w v assms(4) have "inv s1" "room (length ops) s1" "used s1 v" "map_option fst (look s1 k) \<noteq> Some v" by auto
  from no_version_returns [OF this] have "inv (run_ops get_op put_op delete_op ops s1)"
    "map_option fst (look (run_ops get_op put_op delete_op ops s1) k) \<noteq> Some v" by auto
  from cas_refused [OF this(1) assms(2) this(2), of b2] w v \<open>room 1 s\<close> show ?thesis
    by (auto simp: Let_def split: prod.splits)
qed

end

section \<open>The memory backend keeps the contract\<close>

definition bytes_body :: "bytes \<Rightarrow> put_body" where
  "bytes_body b = \<lparr>pb_bytes = Some b, pb_stream = None, pb_stream_len = 0, pb_file = []\<rparr>"

text \<open>\<^verbatim>\<open>PutBytes\<close> on the memory backend.\<close>

definition mem_put_bytes :: "string \<Rightarrow> bytes \<Rightarrow> put_options \<Rightarrow> memory \<Rightarrow> memory \<times> (go_error + object_meta)" where
  "mem_put_bytes key b opts m = mem_put (\<lambda>_. None) key (bytes_body b) opts m"

definition mem_look :: "memory \<Rightarrow> string \<Rightarrow> (version \<times> bytes) option" where
  "mem_look m k = map_option (\<lambda>obj. (mo_version obj, mo_data obj)) (get_locked m k)"

definition mem_used :: "memory \<Rightarrow> version \<Rightarrow> bool" where
  "mem_used m v \<longleftrightarrow> undecimal v \<le> unat (mem_counter m) \<and> v = decimal (undecimal v)"

definition mem_inv :: "memory \<Rightarrow> bool" where
  "mem_inv m \<longleftrightarrow>
     distinct (map fst (mem_objs m)) \<and> list_all (\<lambda>(k, obj). k \<noteq> [] \<and> mem_used m (mo_version obj)) (mem_objs m)"

definition mem_room :: "nat \<Rightarrow> memory \<Rightarrow> bool" where
  "mem_room n m \<longleftrightarrow> unat (mem_counter m) + n < 2 ^ 64"

lemma mem_tick_frame [simp]:
  "get_locked (mem_tick m) = get_locked m" "mem_look (mem_tick m) = mem_look m"
  "mem_used (mem_tick m) = mem_used m" "mem_inv (mem_tick m) = mem_inv m"
  "mem_room n (mem_tick m) = mem_room n m"
  by (auto simp: mem_tick_def get_locked_def mem_look_def mem_used_def mem_inv_def mem_room_def fun_eq_iff
      intro: list.pred_cong)

lemma map_of_filter_key: "map_of (filter (\<lambda>(k, _). k \<noteq> key) m) = (map_of m)(key := None)"
  by (induction m) auto

lemma mem_inv_used:
  assumes "mem_inv m" and "get_locked m k = Some obj"
  shows "mem_used m (mo_version obj) \<and> k \<noteq> []"
  using assms by (fastforce simp: mem_inv_def get_locked_def list_all_iff dest: map_of_SomeD)

lemma mem_used_not_Nil: "mem_used m v \<Longrightarrow> v \<noteq> []"
  unfolding mem_used_def using decimal_not_Nil by metis

lemma put_locked_look: "mem_look (fst (put_locked k b ct m)) =
  (mem_look m)(k \<mapsto> (om_version (snd (put_locked k b ct m)), b))"
  by (auto simp: put_locked_def Let_def mem_look_def get_locked_def fun_eq_iff)

lemma unat_Suc_counter: "mem_room 1 m \<Longrightarrow> unat (mem_counter m + 1) = unat (mem_counter m) + 1"
  by (simp add: mem_room_def unat_word_ariths)

lemma put_locked_keeps:
  assumes "mem_inv m" and "k \<noteq> []" and "mem_room 1 m"
  shows "mem_inv (fst (put_locked k b ct m))"
proof -
  let ?m = "fst (put_locked k b ct m)" and ?v = "decimal (unat (mem_counter m + 1))"
  have mono: "mem_used ?m v" if "mem_used m v" for v
    using that unat_Suc_counter [OF assms(3)] by (simp add: mem_used_def put_locked_def Let_def)
  have "mem_used ?m ?v" by (simp add: mem_used_def put_locked_def Let_def undecimal_decimal)
  with assms mono show ?thesis
    using set_map_put_subset [of k _ "mem_objs m"] distinct_map_put [of "mem_objs m" k]
    by (fastforce simp: mem_inv_def list_all_iff put_locked_def Let_def)
qed

lemma mem_put_bytes_cases:
  "mem_put_bytes k b opts m =
     (if k = [] then (m, Inl (new_invalid k (Some (PlainError None))))
      else case check_mode k opts (get_locked m k) of
          Some err \<Rightarrow> (mem_tick m, Inl err)
        | None \<Rightarrow> (fst (put_locked k b (po_content_type opts) (mem_tick m)),
                   Inr (snd (put_locked k b (po_content_type opts) (mem_tick m)))))"
  by (simp add: mem_put_bytes_def mem_put_def read_put_body_def bytes_body_def Let_def
      split: option.split prod.split)

lemma check_mode_admits:
  assumes "mem_inv m"
  shows "check_mode k opts (get_locked m k) = None \<longleftrightarrow> put_admits opts (mem_look m k)"
  using mem_inv_used [OF assms, of k] mem_used_not_Nil
  by (auto simp: check_mode_def put_admits_def mem_look_def split: put_mode.split option.split)

lemma check_mode_error: "check_mode k opts cur = Some e \<Longrightarrow> is_precondition_failed e"
  by (auto simp: check_mode_def is_error_defs new_error_defs split: put_mode.splits option.splits if_splits)

lemma mem_get_look:
  "snd (mem_get k (get_default\<lparr>go_if_none_match := w\<rparr>) m) =
     (case mem_look m k of
        None \<Rightarrow> Inl (new_not_found k)
      | Some (v, b) \<Rightarrow>
          if w \<noteq> [] \<and> w = v then Inr (NotModified v)
          else Inr (Object \<lparr>om_key = k, om_size = int (length b), om_version = v\<rparr> b))"
  by (auto simp: mem_get_def mem_look_def get_default_def Let_def slice_def split: option.split)

lemma mem_get_state: "fst (mem_get k opts m) = mem_tick m"
  by (simp add: mem_get_def Let_def)

lemma mem_delete_look:
  "mem_look (fst (mem_delete k v m)) =
     (if v = [] \<or> map_option fst (mem_look m k) = Some v then (mem_look m)(k := None) else mem_look m)"
  by (auto simp: mem_delete_def mem_look_def get_locked_def map_of_filter_key mem_tick_def Let_def fun_eq_iff
      split: option.split)

lemma mem_delete_frame:
  "mem_used (fst (mem_delete k v m)) = mem_used m" "mem_room n (fst (mem_delete k v m)) = mem_room n m"
  "mem_inv m \<Longrightarrow> mem_inv (fst (mem_delete k v m))"
  by (auto simp: mem_delete_def mem_used_def mem_room_def mem_inv_def mem_tick_def get_locked_def Let_def fun_eq_iff
      distinct_filter_map_fst list_all_iff split: option.split)

lemma put_locked_room: "mem_room (Suc n) m \<Longrightarrow> mem_room n (fst (put_locked k b ct m))"
  by (simp add: put_locked_def mem_room_def Let_def unat_word_ariths)

lemma put_locked_used:
  "mem_used (fst (put_locked k b ct m)) (om_version (snd (put_locked k b ct m)))"
  "mem_room 1 m \<Longrightarrow> mem_used m w \<Longrightarrow>
    mem_used (fst (put_locked k b ct m)) w \<and> w \<noteq> om_version (snd (put_locked k b ct m))"
  using unat_Suc_counter [of m]
  by (auto simp: mem_used_def put_locked_def Let_def undecimal_decimal)

lemma put_locked_meta:
  "snd (put_locked k b ct m)
     = \<lparr>om_key = k, om_size = int (length b), om_version = om_version (snd (put_locked k b ct m))\<rparr>"
  by (simp add: put_locked_def Let_def)

lemma mem_put_bytes_done:
  assumes "mem_inv m" and "k \<noteq> []" and "put_admits opts (mem_look m k)"
  shows "mem_put_bytes k b opts m = (fst (put_locked k b (po_content_type opts) (mem_tick m)),
    Inr (snd (put_locked k b (po_content_type opts) (mem_tick m))))"
  using assms check_mode_admits [OF assms(1), of k opts] by (simp add: mem_put_bytes_cases)

interpretation mem: object_store mem_get mem_put_bytes mem_delete mem_look mem_used mem_inv mem_room "\<lambda>k. k \<noteq> []"
proof (standard, goal_cases)
  case (1 s k v b)
  then show ?case using mem_inv_used [of s k] mem_used_not_Nil by (auto simp: mem_look_def)
next
  case (2 n s)
  then show ?case by (simp add: mem_room_def)
next
  case (3 s k opts s' r)
  then have "s' = mem_tick s" using mem_get_state [of k opts s] by simp
  with 3 show ?case by simp
next
  case (4 s k opts)
  then show ?case
    by (simp add: mem_get_def mem_look_def Let_def is_not_found_def new_not_found_def)
next
  case (5 s k v b)
  then have "mem_used s v" using mem_inv_used [of s k] by (auto simp: mem_look_def)
  with 5 mem_used_not_Nil show ?case by (auto simp: mem_get_look)
next
  case (6 s k v b w)
  then show ?case by (simp add: mem_get_look)
next
  case (7 s k po b s' res)
  let ?p = "put_locked k b (po_content_type po) (mem_tick s)"
  have "s' = fst ?p" and "res = Inr (snd ?p)" using 7 mem_put_bytes_done [of s k po b] by auto
  then show ?case
    using put_locked_look [of k b "po_content_type po" "mem_tick s"] put_locked_meta [of k b _ "mem_tick s"]
      put_locked_used [where k = k and b = b and ct = "po_content_type po" and m = "mem_tick s"] put_locked_room [of _ "mem_tick s"]
      put_locked_keeps [of "mem_tick s" k b "po_content_type po"] 7(1,2)
    by (intro exI [of _ "om_version (snd ?p)"]) auto
next
  case (8 s k po b s' res)
  then show ?case
    using check_mode_admits [of s k po]
    by (auto simp: mem_put_bytes_cases check_mode_error split: if_splits option.splits)
next
  case (9 s k v s' err)
  then have "s' = fst (mem_delete k v s)" by simp
  with 9 show ?case by (simp add: mem_delete_frame mem_delete_look)
qed

section \<open>The Prefixed wrapper\<close>

text \<open>
  \<^verbatim>\<open>Prefixed\<close> over any store: a key is looked up under the prefix, and the metadata that comes
  back carries the caller's key. Errors keep the key of the inner store.
\<close>

definition trim_slash :: "string \<Rightarrow> string" where
  "trim_slash s = rev (dropWhile (\<lambda>c. c = CHR ''/'') (rev (dropWhile (\<lambda>c. c = CHR ''/'') s)))"

text \<open>\<^verbatim>\<open>NewPrefixed\<close>: an empty prefix returns the inner store itself, so it is the prefix \<open>[]\<close> here.\<close>

definition new_prefixed :: "string \<Rightarrow> string" where
  "new_prefixed pre = (let pre = trim_slash pre in if pre = [] then [] else pre @ ''/'')"

definition full_key :: "string \<Rightarrow> string \<Rightarrow> string" where
  "full_key p key = p @ key"

definition pre_get :: "string \<Rightarrow> (string \<Rightarrow> get_options \<Rightarrow> 's \<Rightarrow> 's \<times> (go_error + get_result)) \<Rightarrow>
    string \<Rightarrow> get_options \<Rightarrow> 's \<Rightarrow> 's \<times> (go_error + get_result)" where
  "pre_get p inner key opts s =
     (case inner (full_key p key) opts s of
        (s', Inr (Object meta b)) \<Rightarrow> (s', Inr (Object (meta\<lparr>om_key := key\<rparr>) b))
      | r \<Rightarrow> r)"

definition pre_head :: "string \<Rightarrow> (string \<Rightarrow> 's \<Rightarrow> 's \<times> object_meta option) \<Rightarrow> string \<Rightarrow> 's \<Rightarrow> 's \<times> object_meta option" where
  "pre_head p inner key s =
     (let (s', m) = inner (full_key p key) s in (s', map_option (\<lambda>meta. meta\<lparr>om_key := key\<rparr>) m))"

definition pre_put :: "string \<Rightarrow> (string \<Rightarrow> 'b \<Rightarrow> put_options \<Rightarrow> 's \<Rightarrow> 's \<times> (go_error + object_meta)) \<Rightarrow>
    string \<Rightarrow> 'b \<Rightarrow> put_options \<Rightarrow> 's \<Rightarrow> 's \<times> (go_error + object_meta)" where
  "pre_put p inner key body opts s =
     (case inner (full_key p key) body opts s of
        (s', Inl e) \<Rightarrow> (s', Inl e)
      | (s', Inr meta) \<Rightarrow> (s', Inr (meta\<lparr>om_key := key\<rparr>)))"

definition pre_delete :: "string \<Rightarrow> (string \<Rightarrow> version \<Rightarrow> 's \<Rightarrow> 's \<times> go_error option) \<Rightarrow>
    string \<Rightarrow> version \<Rightarrow> 's \<Rightarrow> 's \<times> go_error option" where
  "pre_delete p inner key if_version s = inner (full_key p key) if_version s"

definition trim_prefix :: "string \<Rightarrow> string \<Rightarrow> string" where
  "trim_prefix p k = (if prefix p k then drop (length p) k else k)"

definition pre_list :: "string \<Rightarrow> (string \<Rightarrow> string \<Rightarrow> 's \<Rightarrow> 's \<times> object_meta list) \<Rightarrow>
    string \<Rightarrow> string \<Rightarrow> 's \<Rightarrow> 's \<times> object_meta list" where
  "pre_list p inner pre start_after s =
     (let (s', ms) = inner (full_key p pre) (full_key p start_after) s
      in (s', map (\<lambda>m. m\<lparr>om_key := trim_prefix p (om_key m)\<rparr>) ms))"

definition pre_list_prefixes :: "string \<Rightarrow> (string \<Rightarrow> 's \<Rightarrow> 's \<times> string list) \<Rightarrow> string \<Rightarrow> 's \<Rightarrow> 's \<times> string list" where
  "pre_list_prefixes p inner pre s =
     (let (s', ps) = inner (full_key p pre) s in (s', map (trim_prefix p) ps))"

definition pre_compose :: "string \<Rightarrow> (string \<Rightarrow> string list \<Rightarrow> put_options \<Rightarrow> 's \<Rightarrow> 's \<times> (go_error + object_meta)) \<Rightarrow>
    string \<Rightarrow> string list \<Rightarrow> put_options \<Rightarrow> 's \<Rightarrow> 's \<times> (go_error + object_meta)" where
  "pre_compose p inner dst sources opts s =
     (case inner (full_key p dst) (map (full_key p) sources) opts s of
        (s', Inl e) \<Rightarrow> (s', Inl e)
      | (s', Inr meta) \<Rightarrow> (s', Inr (meta\<lparr>om_key := dst\<rparr>)))"

text \<open>Keys are control plane or bulk by their last segment and their directory.\<close>

definition last_segment :: "string \<Rightarrow> string" where
  "last_segment key = rev (takeWhile (\<lambda>c. c \<noteq> CHR ''/'') (rev key))"

definition is_bulk_key :: "string \<Rightarrow> bool" where
  "is_bulk_key key =
     (let seg = last_segment key in
      if suffix ''.pb'' seg \<or> suffix ''.json'' seg then False
      else prefix ''wal/'' key \<or> prefix ''bundles/'' key \<or> prefix ''lfs/'' key)"

text \<open>Whatever keeps the contract keeps it behind a prefix, for the keys under that prefix.\<close>

locale prefixed_store = object_store +
  fixes p :: string
begin

lemma pre_get_cases:
  "pre_get p get_op k opts s = (s', r) \<longleftrightarrow>
     (\<exists>r0. get_op (full_key p k) opts s = (s', r0)
       \<and> r = (case r0 of Inr (Object meta b) \<Rightarrow> Inr (Object (meta\<lparr>om_key := k\<rparr>) b) | _ \<Rightarrow> r0))"
  by (cases "get_op (full_key p k) opts s")
    (auto simp: pre_get_def split: sum.split get_result.split)

lemma snd_pre_get:
  "snd (pre_get p get_op k opts s) =
     (case snd (get_op (full_key p k) opts s) of
        Inr (Object meta b) \<Rightarrow> Inr (Object (meta\<lparr>om_key := k\<rparr>) b) | r0 \<Rightarrow> r0)"
  by (cases "get_op (full_key p k) opts s")
    (auto simp: pre_get_def split: sum.split get_result.split)

lemma pre_put_cases:
  "pre_put p put_op k b opts s = (s', r) \<longleftrightarrow>
     (\<exists>r0. put_op (full_key p k) b opts s = (s', r0)
       \<and> r = (case r0 of Inl e \<Rightarrow> Inl e | Inr meta \<Rightarrow> Inr (meta\<lparr>om_key := k\<rparr>)))"
  by (cases "put_op (full_key p k) b opts s") (auto simp: pre_put_def split: sum.split)

end

sublocale prefixed_store \<subseteq> pre: object_store "pre_get p get_op" "pre_put p put_op" "pre_delete p delete_op"
  "\<lambda>s k. look s (full_key p k)" used inv room "\<lambda>k. key_ok (full_key p k)"
proof (standard, goal_cases)
  case (1 s k v b)
  then show ?case by (rule look_used)
next
  case (2 n s)
  then show ?case by (rule room_less)
next
  case (3 s k opts s' r)
  then show ?case using get_frame by (fastforce simp: pre_get_cases)
next
  case (4 s k opts)
  then show ?case using get_absent [of s "full_key p k" opts] by (auto simp: snd_pre_get)
next
  case (5 s k v b)
  then show ?case using get_unchanged [of s "full_key p k" v b] by (simp add: snd_pre_get)
next
  case (6 s k v b w)
  then show ?case using get_changed [of s "full_key p k" v b w] by (simp add: snd_pre_get)
next
  case (7 s k po b s' res)
  from 7(4) obtain r0 where r0: "put_op (full_key p k) b po s = (s', r0)"
    and res: "res = (case r0 of Inl e \<Rightarrow> Inl e | Inr meta \<Rightarrow> Inr (meta\<lparr>om_key := k\<rparr>))"
    by (auto simp: pre_put_cases)
  from put_done [OF 7(1) 7(2,3) r0] res show ?case
    by (fastforce simp: full_key_def fun_eq_iff)
next
  case (8 s k po b s' res)
  from 8(3) obtain r0 where r0: "put_op (full_key p k) b po s = (s', r0)"
    and res: "res = (case r0 of Inl e \<Rightarrow> Inl e | Inr meta \<Rightarrow> Inr (meta\<lparr>om_key := k\<rparr>))"
    by (auto simp: pre_put_cases)
  from put_refused [OF 8(1) 8(2) r0] res show ?case by auto
next
  case (9 s k v s' err)
  from 9 delete_frame [of s "full_key p k" v s' err] show ?case
    by (auto simp: pre_delete_def full_key_def fun_eq_iff)
qed

interpretation pmem: prefixed_store mem_get mem_put_bytes mem_delete mem_look mem_used mem_inv mem_room "\<lambda>k. k \<noteq> []" p
  for p
  by standard

section \<open>Listing\<close>

lemma mem_keys_sorted: "sorted_wrt (<) (mem_keys m)"
  by (simp add: mem_keys_def strict_sorted_iff)

lemma set_mem_keys: "set (mem_keys m) = dom (get_locked m)"
  by (auto simp: mem_keys_def get_locked_def [abs_def] dom_map_of_conv_image_fst)

definition listed :: "string \<Rightarrow> string \<Rightarrow> string \<Rightarrow> bool" where
  "listed pre start_after k \<longleftrightarrow> prefix pre k \<and> (start_after = [] \<or> start_after < k)"

lemma mem_list_keys: "map om_key (snd (mem_list pre start_after m)) = filter (listed pre start_after) (mem_keys m)"
proof -
  have "(\<lambda>k. \<not> (pre \<noteq> [] \<and> \<not> prefix pre k) \<and> \<not> (start_after \<noteq> [] \<and> k \<le> start_after)) = listed pre start_after"
    by (auto simp: listed_def fun_eq_iff not_le)
  then show ?thesis
    by (simp add: mem_list_def Let_def o_def mem_keys_def mem_tick_def cong: map_cong)
qed

lemma mem_list_by_keys:
  "snd (mem_list pre start_after m) =
     map (\<lambda>k. let obj = the (get_locked m k)
              in \<lparr>om_key = k, om_size = int (length (mo_data obj)), om_version = mo_version obj\<rparr>)
       (filter (listed pre start_after) (mem_keys m))"
proof -
  have "(\<lambda>k. \<not> (pre \<noteq> [] \<and> \<not> prefix pre k) \<and> \<not> (start_after \<noteq> [] \<and> k \<le> start_after)) = listed pre start_after"
    by (auto simp: listed_def fun_eq_iff not_le)
  then show ?thesis by (simp add: mem_list_def Let_def mem_keys_def mem_tick_def get_locked_def)
qed

lemma filter_greater_drop:
  "sorted_wrt (<) ys \<Longrightarrow> n < length ys \<Longrightarrow> filter ((<) (ys ! n)) ys = drop (Suc n) ys"
  for ys :: "'a::linorder list"
proof (induction ys arbitrary: n)
  case (Cons y ys)
  show ?case
  proof (cases n)
    case 0
    with Cons.prems show ?thesis by (auto intro: filter_True)
  next
    case (Suc i)
    with Cons.prems have "y < ys ! i" by simp
    then have "\<not> ys ! i < y" by simp
    with Cons Suc show ?thesis by simp
  qed
qed simp

text \<open>The common prefix a delimiter listing reports for a key.\<close>

definition group_of :: "string \<Rightarrow> string \<Rightarrow> string" where
  "group_of pre k = pre @ takeWhile (\<lambda>c. c \<noteq> CHR ''/'') (drop (length pre) k) @ ''/''"

definition grouped :: "string \<Rightarrow> string \<Rightarrow> bool" where
  "grouped pre k \<longleftrightarrow> prefix pre k \<and> CHR ''/'' \<in> set (drop (length pre) k)"

lemma collect_prefixes_Cons:
  "collect_prefixes pre (k # ks) out =
     (if grouped pre k \<and> group_of pre k \<notin> set out then collect_prefixes pre ks (out @ [group_of pre k])
      else collect_prefixes pre ks out)"
  by (auto simp: grouped_def group_of_def Let_def)

declare collect_prefixes.simps(2) [simp del]

lemma set_collect_prefixes:
  "set (collect_prefixes pre ks out) = set out \<union> group_of pre ` {k \<in> set ks. grouped pre k}"
  by (induction ks arbitrary: out) (auto simp: collect_prefixes_Cons)

lemma segment_mono:
  "CHR ''/'' \<in> set r1 \<Longrightarrow> CHR ''/'' \<in> set r2 \<Longrightarrow> r1 < r2 \<Longrightarrow>
   takeWhile (\<lambda>c. c \<noteq> CHR ''/'') r1 @ ''/'' \<le> takeWhile (\<lambda>c. c \<noteq> CHR ''/'') r2 @ ''/''"
proof (induction r1 arbitrary: r2)
  case (Cons a r1)
  then show ?case by (cases r2) auto
qed simp

lemma append_less_same: "p @ r1 < p @ r2 \<longleftrightarrow> r1 < r2" for p r1 r2 :: string
  by (induction p) auto

lemma append_le_same: "p @ r1 \<le> p @ r2 \<longleftrightarrow> r1 \<le> r2" for p r1 r2 :: string
  by (induction p) auto

lemma group_mono:
  assumes "grouped pre k1" and "grouped pre k2" and "k1 < k2"
  shows "group_of pre k1 \<le> group_of pre k2"
proof -
  obtain r1 r2 where "k1 = pre @ r1" and "k2 = pre @ r2"
    using assms by (auto simp: grouped_def prefix_def)
  with assms segment_mono [of r1 r2] show ?thesis
    by (simp add: grouped_def group_of_def append_less_same append_le_same)
qed

lemma sorted_collect_prefixes:
  assumes "sorted_wrt (<) ks" and "sorted_wrt (<) out"
    and "\<And>p k. p \<in> set out \<Longrightarrow> k \<in> set ks \<Longrightarrow> grouped pre k \<Longrightarrow> p \<le> group_of pre k"
  shows "sorted_wrt (<) (collect_prefixes pre ks out)"
  using assms
proof (induction ks arbitrary: out)
  case (Cons k ks)
  show ?case
  proof (cases "grouped pre k \<and> group_of pre k \<notin> set out")
    case True
    have "p < group_of pre k" if "p \<in> set out" for p
      using Cons.prems(3) [OF that, of k] True that by (cases "p = group_of pre k") auto
    with Cons.prems(2) have "sorted_wrt (<) (out @ [group_of pre k])"
      by (simp add: sorted_wrt_append)
    moreover have "p \<le> group_of pre k'" if "p \<in> set (out @ [group_of pre k])" "k' \<in> set ks" "grouped pre k'" for p k'
      using that Cons.prems True group_mono [of pre k k'] by auto
    ultimately have "sorted_wrt (<) (collect_prefixes pre ks (out @ [group_of pre k]))"
      using Cons.prems(1) by (intro Cons.IH) auto
    with True show ?thesis by (simp add: collect_prefixes_Cons)
  next
    case False
    moreover have "sorted_wrt (<) (collect_prefixes pre ks out)"
      using Cons.prems by (intro Cons.IH) auto
    ultimately show ?thesis by (auto simp: collect_prefixes_Cons)
  qed
qed simp

section \<open>Composition\<close>

lemma concat_sources_done:
  "(\<And>src. src \<in> set srcs \<Longrightarrow> get_locked m src \<noteq> None) \<Longrightarrow>
   concat_sources m srcs buf = Inr (buf @ concat (map (\<lambda>src. mo_data (the (get_locked m src))) srcs))"
proof (induction srcs arbitrary: buf)
  case (Cons src srcs)
  then obtain obj where "get_locked m src = Some obj" by fastforce
  with Cons show ?case by simp
qed simp

lemma concat_sources_missing:
  "src \<in> set srcs \<Longrightarrow> get_locked m src = None \<Longrightarrow> \<exists>k. concat_sources m srcs buf = Inl (new_not_found k) \<and> k \<in> set srcs"
  by (induction srcs arbitrary: buf) (auto split: option.split)

section \<open>Properties\<close>

text \<open>
  C6: Compare-and-swap has one winner. Two clients of the memory backend read the same version of an
  object. Once a conditional put of the first has succeeded, its bytes are stored under a new version;
  and whatever operations ran in between, the conditional put of the second is refused with a
  precondition error and changes no object (no version ever returns, as long as fewer than
  \<open>2 ^ 64\<close> versions are minted).
\<close>

theorem memory_cas_one_winner:
  assumes "mem_inv m" and "k \<noteq> []" and "mem_look m k = Some (v, b)" and "mem_room (Suc (length ops)) m"
    and "mem_put_bytes k b1 (cas v) m = (m1, Inr meta)"
  shows "mem_look m1 = (mem_look m)(k \<mapsto> (om_version meta, b1)) \<and> om_version meta \<noteq> v
    \<and> (let m2 = run_ops mem_get mem_put_bytes mem_delete ops m1; (m3, r) = mem_put_bytes k b2 (cas v) m2
        in (\<exists>e. r = Inl e \<and> is_precondition_failed e) \<and> mem_look m3 = mem_look m2)"
  using assms by (rule mem.one_winner)

lemma memory_cas_one_winner_witness:
  "let m1 = fst (mem_put_bytes ''k'' [2] (cas ''1'') (fst (mem_put_bytes ''k'' [1] create_only new_memory)));
       m2 = run_ops mem_get mem_put_bytes mem_delete [OpDelete ''x'' []] m1; (m3, r) = mem_put_bytes ''k'' [3] (cas ''1'') m2
   in (\<exists>e. r = Inl e \<and> is_precondition_failed e) \<and> mem_look m3 = mem_look m2"
proof -
  let ?m = "fst (mem_put_bytes ''k'' [1] create_only new_memory)"
  have m: "?m = \<lparr>mem_objs = [(''k'', \<lparr>mo_data = [1], mo_version = ''1'', mo_content_type = []\<rparr>)],
      mem_counter = 1, mem_ops = 1\<rparr>"
    by (simp add: mem_put_bytes_cases create_only_def check_mode_def new_memory_def get_locked_def put_locked_def
        mem_tick_def decimal_1 Let_def)
  have "mem_used ?m ''1''"
    unfolding m by (simp add: mem_used_def undecimal_def decimal_1)
  then have "mem_inv ?m" unfolding m by (simp add: mem_inv_def)
  moreover have "mem_look ?m ''k'' = Some (''1'', [1])"
    unfolding m by (simp add: mem_look_def get_locked_def)
  moreover have "mem_room (Suc (length [OpDelete ''x'' []])) ?m"
    unfolding m by (simp add: mem_room_def)
  moreover obtain meta where "snd (mem_put_bytes ''k'' [2] (cas ''1'') ?m) = Inr meta"
    unfolding m by (simp add: mem_put_bytes_cases cas_def check_mode_def get_locked_def)
  then have "mem_put_bytes ''k'' [2] (cas ''1'') ?m = (fst (mem_put_bytes ''k'' [2] (cas ''1'') ?m), Inr meta)"
    by (simp add: prod_eq_iff)
  ultimately show ?thesis
    using memory_cas_one_winner [of ?m "''k''" "''1''" "[1]" "[OpDelete ''x'' []]" "[2]" _ meta "[3]"]
    by (simp add: Let_def del: run_ops.simps)
qed

text \<open>
  Reading back through a prefix. For the store the server runs on (the memory backend behind a
  prefix), a put whose mode admits it succeeds, and a read that knows any other version returns the
  bytes with the new version and the caller's key; keys outside the prefix keep their objects.
\<close>

theorem prefixed_put_then_get:
  assumes "mem_inv m" and "p @ k \<noteq> []" and "put_admits opts (mem_look m (p @ k))" and "mem_room 1 m"
  shows "\<exists>v. let (m', r) = pre_put p mem_put_bytes k b opts m in
    r = Inr \<lparr>om_key = k, om_size = int (length b), om_version = v\<rparr>
    \<and> (\<forall>w. w \<noteq> v \<longrightarrow> snd (pre_get p mem_get k (get_default\<lparr>go_if_none_match := w\<rparr>) m')
          = Inr (Object \<lparr>om_key = k, om_size = int (length b), om_version = v\<rparr> b))
    \<and> (\<forall>k'. \<not> prefix p k' \<longrightarrow> mem_look m' k' = mem_look m k')"
proof -
  obtain m' r where r: "pre_put p mem_put_bytes k b opts m = (m', r)" by (cases "pre_put p mem_put_bytes k b opts m")
  obtain v where "r = Inr \<lparr>om_key = k, om_size = int (length b), om_version = v\<rparr>" and "mem_inv m'"
    and look: "(\<lambda>k. mem_look m' (full_key p k)) = (\<lambda>k. mem_look m (full_key p k))(k \<mapsto> (v, b))"
    using pmem.pre.put_done [OF assms(1) _ _ r] assms by (auto simp: full_key_def)
  moreover have "mem_look m' (full_key p k) = Some (v, b)" using fun_cong [OF look, of k] by simp
  moreover have "mem_look m' k' = mem_look m k'" if "\<not> prefix p k'" for k'
  proof -
    obtain r0 where r0: "mem_put_bytes (full_key p k) b opts m = (m', r0)" using r by (auto simp: pmem.pre_put_cases)
    with mem.put_done [OF assms(1) _ _ r0] assms(2,3) that show ?thesis by (auto simp: full_key_def)
  qed
  ultimately show ?thesis
    using pmem.pre.get_changed [where p = p and s = m' and k = k and v = v and b = b] by (intro exI [of _ v]) (simp add: r)
qed

lemma prefixed_put_then_get_witness:
  "\<exists>v. let (m', r) = pre_put ''repos/'' mem_put_bytes ''x'' [7] create_only new_memory in
    r = Inr \<lparr>om_key = ''x'', om_size = 1, om_version = v\<rparr>
    \<and> (\<forall>w. w \<noteq> v \<longrightarrow> snd (pre_get ''repos/'' mem_get ''x'' (get_default\<lparr>go_if_none_match := w\<rparr>) m')
          = Inr (Object \<lparr>om_key = ''x'', om_size = 1, om_version = v\<rparr> [7]))
    \<and> (\<forall>k'. \<not> prefix ''repos/'' k' \<longrightarrow> mem_look m' k' = mem_look new_memory k')"
  using prefixed_put_then_get [of new_memory "''repos/''" "''x''" create_only "[7]"]
  by (simp add: new_memory_def mem_inv_def put_admits_def create_only_def mem_look_def get_locked_def mem_room_def)

text \<open>
  A listing can be resumed. \<^verbatim>\<open>List\<close> returns exactly the keys with the prefix that come after
  \<^verbatim>\<open>startAfter\<close>, in strictly increasing byte order, and listing again after the key of any
  returned entry yields exactly the entries that followed it: pages never skip or repeat a key.
\<close>

theorem list_resumes:
  assumes "mem_inv m" and "n < length (snd (mem_list pre start_after m))"
  shows "sorted_wrt (<) (map om_key (snd (mem_list pre start_after m)))
    \<and> set (map om_key (snd (mem_list pre start_after m)))
        = {k. get_locked m k \<noteq> None \<and> prefix pre k \<and> (start_after = [] \<or> start_after < k)}
    \<and> snd (mem_list pre (om_key (snd (mem_list pre start_after m) ! n)) m)
        = drop (Suc n) (snd (mem_list pre start_after m))"
proof (intro conjI)
  let ?ks = "filter (listed pre start_after) (mem_keys m)"
  show "sorted_wrt (<) (map om_key (snd (mem_list pre start_after m)))"
    unfolding mem_list_keys by (rule sorted_wrt_filter) (rule mem_keys_sorted)
  show "set (map om_key (snd (mem_list pre start_after m)))
      = {k. get_locked m k \<noteq> None \<and> prefix pre k \<and> (start_after = [] \<or> start_after < k)}"
    unfolding mem_list_keys by (auto simp: set_mem_keys listed_def)
  have n: "n < length ?ks" using assms(2) by (simp add: mem_list_by_keys)
  then have key: "om_key (snd (mem_list pre start_after m) ! n) = ?ks ! n"
    by (simp add: mem_list_by_keys Let_def)
  have "?ks ! n \<in> set ?ks" using n by (rule nth_mem)
  then have listed: "listed pre start_after (?ks ! n)" and "get_locked m (?ks ! n) \<noteq> None"
    by (auto simp: set_mem_keys)
  then have "?ks ! n \<noteq> []" using mem_inv_used [OF assms(1)] by blast
  with listed have "listed pre (?ks ! n) = (\<lambda>k. listed pre start_after k \<and> ?ks ! n < k)"
    by (auto simp: listed_def fun_eq_iff)
  then have "filter (listed pre (?ks ! n)) (mem_keys m) = filter ((<) (?ks ! n)) ?ks" by simp
  also have "\<dots> = drop (Suc n) ?ks"
    using n by (intro filter_greater_drop sorted_wrt_filter mem_keys_sorted)
  finally show "snd (mem_list pre (om_key (snd (mem_list pre start_after m) ! n)) m)
      = drop (Suc n) (snd (mem_list pre start_after m))"
    unfolding key by (simp add: mem_list_by_keys drop_map)
qed

lemma list_resumes_witness:
  "let m = fst (mem_put_bytes ''k'' [1] create_only new_memory) in
     snd (mem_list [] (om_key (snd (mem_list [] [] m) ! 0)) m) = drop (Suc 0) (snd (mem_list [] [] m))"
proof -
  let ?m = "fst (mem_put_bytes ''k'' [1] create_only new_memory)"
  have m: "?m = \<lparr>mem_objs = [(''k'', \<lparr>mo_data = [1], mo_version = ''1'', mo_content_type = []\<rparr>)],
      mem_counter = 1, mem_ops = 1\<rparr>"
    by (simp add: mem_put_bytes_cases create_only_def check_mode_def new_memory_def get_locked_def put_locked_def
        mem_tick_def decimal_1 Let_def)
  have "mem_inv ?m" unfolding m by (simp add: mem_inv_def mem_used_def undecimal_def decimal_1)
  moreover have "0 < length (snd (mem_list [] [] ?m))"
    unfolding m by (simp add: mem_list_def mem_keys_def mem_tick_def Let_def)
  ultimately show ?thesis
    using list_resumes [of ?m 0 "[]" "[]"] unfolding Let_def by blast
qed

text \<open>
  A delimiter listing returns each distinct group once, in strictly increasing byte order, and
  it returns exactly the groups of the stored keys.
\<close>

theorem list_prefixes_groups:
  "sorted_wrt (<) (snd (mem_list_prefixes pre m))
   \<and> set (snd (mem_list_prefixes pre m)) = group_of pre ` {k. get_locked m k \<noteq> None \<and> grouped pre k}"
proof
  show "sorted_wrt (<) (snd (mem_list_prefixes pre m))"
    using sorted_collect_prefixes [OF mem_keys_sorted, of "[]"] by (simp add: mem_list_prefixes_def Let_def mem_keys_def mem_tick_def)
  have "mem_keys (mem_tick m) = mem_keys m" by (simp add: mem_keys_def mem_tick_def)
  then show "set (snd (mem_list_prefixes pre m)) = group_of pre ` {k. get_locked m k \<noteq> None \<and> grouped pre k}"
    by (auto simp: mem_list_prefixes_def Let_def set_collect_prefixes set_mem_keys)
qed

text \<open>
  The empty key is refused by the backend but slips through the prefix wrapper: the put lands on
  the bare prefix as a key, and the wrapper's own listing never shows it.
\<close>

theorem prefixed_accepts_empty_key:
  "(\<exists>e. snd (mem_put_bytes [] b opts m) = Inl e \<and> is_invalid_argument e)
   \<and> (let (m', r) = pre_put (c # p) mem_put_bytes [] b (create_only\<lparr>po_mode := PutOverwrite\<rparr>) m in
       (\<exists>meta. r = Inr meta) \<and> mem_look m' (c # p) \<noteq> None
       \<and> [] \<notin> set (map om_key (snd (pre_list (c # p) mem_list [] [] m'))))"
proof
  show "\<exists>e. snd (mem_put_bytes [] b opts m) = Inl e \<and> is_invalid_argument e"
    by (simp add: mem_put_bytes_cases is_invalid_argument_def new_invalid_def)
  let ?p = "c # p" and ?m = "fst (put_locked (c # p) b [] (mem_tick m))"
  have "pre_put ?p mem_put_bytes [] b (create_only\<lparr>po_mode := PutOverwrite\<rparr>) m
      = (?m, Inr ((snd (put_locked ?p b [] (mem_tick m)))\<lparr>om_key := []\<rparr>))"
    by (simp add: pre_put_def full_key_def mem_put_bytes_cases check_mode_def create_only_def)
  moreover have "mem_look ?m ?p \<noteq> None" by (simp add: put_locked_look)
  moreover have "[] \<notin> set (map om_key (snd (pre_list ?p mem_list [] [] ?m)))"
  proof -
    have "map om_key (snd (pre_list ?p mem_list [] [] ?m)) = map (trim_prefix ?p) (map om_key (snd (mem_list ?p ?p ?m)))"
      by (simp add: pre_list_def full_key_def split: prod.split)
    also have "\<dots> = map (trim_prefix ?p) (filter (listed ?p ?p) (mem_keys ?m))" by (simp only: mem_list_keys)
    finally show ?thesis by (auto simp: listed_def trim_prefix_def prefix_def)
  qed
  ultimately show "let (m', r) = pre_put ?p mem_put_bytes [] b (create_only\<lparr>po_mode := PutOverwrite\<rparr>) m in
      (\<exists>meta. r = Inr meta) \<and> mem_look m' ?p \<noteq> None
      \<and> [] \<notin> set (map om_key (snd (pre_list ?p mem_list [] [] m')))"
    by simp
qed

end
