(* ===== verification/Keys.thy ===== *)
theory Keys
  imports Store
begin

text \<open>
  The bucket layout of \<^verbatim>\<open>internal/store/keys.go\<close>. Sequence numbers are rendered with sixteen
  hexadecimal digits, so the byte order of the keys is the order of the numbers; the properties
  at the end are what the log, the checkpoints and the leases rely on.
\<close>

section \<open>Sixteen hexadecimal digits\<close>

definition hex_digit :: "nat \<Rightarrow> char" where
  "hex_digit d = char_of (if d < 10 then 48 + d else 87 + d)"

fun hex_fixed :: "nat \<Rightarrow> nat \<Rightarrow> string" where
  "hex_fixed 0 n = []"
| "hex_fixed (Suc k) n = hex_digit (n div 16 ^ k mod 16) # hex_fixed k (n mod 16 ^ k)"

text \<open>\<^verbatim>\<open>fmt.Sprintf("%016x", n)\<close>: a 64-bit number never needs more than sixteen digits.\<close>

definition hex16 :: "u64 \<Rightarrow> string" where
  "hex16 w = hex_fixed 16 (unat w)"

section \<open>Keys\<close>

definition repo_prefix :: "string \<Rightarrow> string \<Rightarrow> string" where
  "repo_prefix owner name = ''repos/'' @ owner @ ''/'' @ name @ ''/''"

definition manifest_pb :: string where "manifest_pb = ''manifest.pb''"
definition log_dir :: string where "log_dir = ''log/''"
definition wal_dir :: string where "wal_dir = ''wal/''"
definition checkpoints_dir :: string where "checkpoints_dir = ''checkpoints/''"

definition log_segment_key :: "u64 \<Rightarrow> string" where
  "log_segment_key first_seq = ''log/'' @ hex16 first_seq @ ''.pb''"

definition pack_key :: "string \<Rightarrow> string" where "pack_key sha = ''wal/'' @ sha @ ''.pack''"
definition idx_key :: "string \<Rightarrow> string" where "idx_key sha = ''wal/'' @ sha @ ''.idx''"
definition rev_key :: "string \<Rightarrow> string" where "rev_key sha = ''wal/'' @ sha @ ''.rev''"
definition bitmap_key :: "string \<Rightarrow> string" where "bitmap_key sha = ''wal/'' @ sha @ ''.bitmap''"
definition commit_graph_key :: "string \<Rightarrow> string" where
  "commit_graph_key sha = ''wal/'' @ sha @ ''.commit-graph''"

definition checkpoint_dir :: "u64 \<Rightarrow> string" where
  "checkpoint_dir s = ''checkpoints/'' @ hex16 s @ ''/''"
definition checkpoint_key :: "u64 \<Rightarrow> string" where
  "checkpoint_key s = ''checkpoints/'' @ hex16 s @ ''/checkpoint.pb''"
definition checkpoint_refs_key :: "u64 \<Rightarrow> string" where
  "checkpoint_refs_key s = ''checkpoints/'' @ hex16 s @ ''/refs.pb''"
definition checkpoint_bundle_key :: "u64 \<Rightarrow> string \<Rightarrow> string" where
  "checkpoint_bundle_key s sha = ''checkpoints/'' @ hex16 s @ ''/'' @ sha @ ''.bundle''"

definition lease_key :: "string \<Rightarrow> string" where "lease_key name = ''leases/'' @ name @ ''.pb''"
definition bundle_object_key :: "string \<Rightarrow> string \<Rightarrow> string" where
  "bundle_object_key strategy name = ''bundles/'' @ strategy @ ''/'' @ name"

definition lfs_key :: "string \<Rightarrow> string" where
  "lfs_key oid =
     (let aa = (if 2 \<le> length oid then take 2 oid else []);
          bb = (if 4 \<le> length oid then take 2 (drop 2 oid) else [])
      in ''lfs/objects/'' @ aa @ ''/'' @ bb @ ''/'' @ oid)"

definition lfs_oid_ok :: "string \<Rightarrow> bool" where
  "lfs_oid_ok oid \<longleftrightarrow>
     (if length oid \<noteq> 64 then False
      else list_all (\<lambda>c. CHR ''0'' \<le> c \<and> c \<le> CHR ''9'' \<or> CHR ''a'' \<le> c \<and> c \<le> CHR ''f'') oid)"

definition maintainer_key :: "string \<Rightarrow> string" where
  "maintainer_key host = ''maintain/'' @ host @ ''.pb''"
definition policy_key :: "string \<Rightarrow> string \<Rightarrow> string" where
  "policy_key owner name = ''repos/'' @ owner @ ''/'' @ name @ ''/policy.json''"
definition stats_key :: "string \<Rightarrow> string \<Rightarrow> string" where
  "stats_key owner name = repo_prefix owner name @ ''meta/stats.json''"
definition mirror_key :: "string \<Rightarrow> string \<Rightarrow> string" where
  "mirror_key owner name = repo_prefix owner name @ ''meta/mirror.json''"
definition mirror_lease_name :: "string \<Rightarrow> string \<Rightarrow> string" where
  "mirror_lease_name owner name = ''mirror-'' @ owner @ ''-'' @ name"
definition push_mirror_lease_name :: "string \<Rightarrow> string \<Rightarrow> string" where
  "push_mirror_lease_name owner name = ''pushmirror-'' @ owner @ ''-'' @ name"

section \<open>Order and injectivity\<close>

lemma hex_digit_less: "a < 16 \<Longrightarrow> b < 16 \<Longrightarrow> hex_digit a < hex_digit b \<longleftrightarrow> a < b"
  by (auto simp: hex_digit_def less_char_def)

lemma hex_digit_inject: "a < 16 \<Longrightarrow> b < 16 \<Longrightarrow> hex_digit a = hex_digit b \<longleftrightarrow> a = b"
  using hex_digit_less [of a b] hex_digit_less [of b a] by (metis less_irrefl linorder_neqE_nat)

lemma length_hex_fixed [simp]: "length (hex_fixed k n) = k"
  by (induction k arbitrary: n) simp_all

lemma hex_fixed_less: "m < 16 ^ k \<Longrightarrow> n < 16 ^ k \<Longrightarrow> hex_fixed k m < hex_fixed k n \<longleftrightarrow> m < n"
proof (induction k arbitrary: m n)
  case (Suc k)
  have d: "m div 16 ^ k < 16" "n div 16 ^ k < 16"
    using Suc.prems by (simp_all add: less_mult_imp_div_less mult.commute)
  have split: "x < y \<longleftrightarrow> x div 16 ^ k < y div 16 ^ k \<or> x div 16 ^ k = y div 16 ^ k \<and> x mod 16 ^ k < y mod 16 ^ k"
    for x y :: nat
  proof -
    have "x div 16 ^ k < y div 16 ^ k \<Longrightarrow> x < y"
      by (metis div_le_mono leD leI)
    moreover have "x < y \<Longrightarrow> x div 16 ^ k \<le> y div 16 ^ k" by (simp add: div_le_mono)
    moreover have "x div 16 ^ k = y div 16 ^ k \<Longrightarrow> x < y \<longleftrightarrow> x mod 16 ^ k < y mod 16 ^ k"
      by (metis add_less_cancel_left mult_div_mod_eq)
    ultimately show ?thesis by (meson le_neq_implies_less)
  qed
  show ?case
    using d Suc.IH [of "m mod 16 ^ k" "n mod 16 ^ k"]
    by (auto simp: hex_digit_less hex_digit_inject split [of m n])
qed simp

lemma hex16_less: "hex16 a < hex16 b \<longleftrightarrow> a < b"
proof -
  have "unat x < 16 ^ 16" for x :: u64
    using unsigned_less [of x, where ?'a = nat] by simp
  then show ?thesis by (simp only: hex16_def hex_fixed_less word_less_nat_alt)
qed

lemma hex16_inject [simp]: "hex16 a = hex16 b \<longleftrightarrow> a = b"
  using hex16_less [of a b] hex16_less [of b a] by auto

lemma length_hex16 [simp]: "length (hex16 a) = 16"
  by (simp add: hex16_def)

lemma same_length_append_less:
  "length x = length y \<Longrightarrow> x @ s < y @ s \<longleftrightarrow> x < y" for x y :: string
  by (induction x y rule: list_induct2) auto

lemma log_segment_key_inject [simp]: "log_segment_key a = log_segment_key b \<longleftrightarrow> a = b"
  by (simp add: log_segment_key_def)

section \<open>Properties\<close>

text \<open>
  Log segments list in sequence order. The byte order of segment keys is the order of their first
  sequence numbers (so a key determines its number), and likewise for checkpoints.
\<close>

theorem segment_keys_ordered:
  "(log_segment_key a < log_segment_key b \<longleftrightarrow> a < b) \<and> (checkpoint_key a < checkpoint_key b \<longleftrightarrow> a < b)
   \<and> (log_segment_key a = log_segment_key b \<longleftrightarrow> a = b)"
  by (simp add: log_segment_key_def checkpoint_key_def append_less_same hex16_less same_length_append_less)

text \<open>
  Two mirrors can share a lease. The lease name joins owner and name with a dash, which both
  may contain, so different repositories get the same lease object.
\<close>

theorem mirror_lease_collision:
  "lease_key (mirror_lease_name ''a'' ''b-c'') = lease_key (mirror_lease_name ''a-b'' ''c'')
   \<and> mirror_key ''a'' ''b-c'' \<noteq> mirror_key ''a-b'' ''c''"
  by (simp add: lease_key_def mirror_lease_name_def mirror_key_def repo_prefix_def)

end
