(* ===== verification/Striped.thy ===== *)
theory Striped
  imports Store
begin

text \<open>
  The store as its clients see it, and striped uploads (\<^verbatim>\<open>internal/store/striped.go\<close>): a large file
  is uploaded as parts that the store composes, in two levels when there are more than 32.

  \<open>store_api\<close> is a record of the operations of a store on a state \<open>'s\<close>; \<open>mem_api\<close> is the memory
  backend. Part uploads run in parallel in the code; here they run in index order and stop at the
  first error. Sizes are Go's \<^verbatim>\<open>int64\<close> without overflow (a file size plus 1023).
\<close>

section \<open>The interface\<close>

record 's store_api =
  sa_get :: "string \<Rightarrow> get_options \<Rightarrow> 's \<Rightarrow> 's \<times> (go_error + get_result)"
  sa_head :: "string \<Rightarrow> 's \<Rightarrow> 's \<times> (go_error + object_meta option)"
  sa_put :: "string \<Rightarrow> put_body \<Rightarrow> put_options \<Rightarrow> 's \<Rightarrow> 's \<times> (go_error + object_meta)"
  sa_delete :: "string \<Rightarrow> version \<Rightarrow> 's \<Rightarrow> 's \<times> go_error option"
  sa_compose :: "string \<Rightarrow> string list \<Rightarrow> put_options \<Rightarrow> 's \<Rightarrow> 's \<times> (go_error + object_meta)"
  sa_compose_native :: bool

definition mem_api :: "memory store_api" where
  "mem_api =
     \<lparr>sa_get = mem_get, sa_head = (\<lambda>k m. map_prod id Inr (mem_head k m)), sa_put = mem_put (\<lambda>_. None),
      sa_delete = mem_delete, sa_compose = mem_compose, sa_compose_native = True\<rparr>"

text \<open>\<^verbatim>\<open>GetBytes\<close>, \<^verbatim>\<open>PutBytes\<close> and \<^verbatim>\<open>Exists\<close> of \<^verbatim>\<open>store.go\<close>. A missing object is the error of the store.\<close>

definition get_bytes :: "'s store_api \<Rightarrow> string \<Rightarrow> get_options \<Rightarrow> 's \<Rightarrow> 's \<times> (go_error + bytes option \<times> object_meta)" where
  "get_bytes api key opts s =
     (case sa_get api key opts s of
        (s', Inl e) \<Rightarrow> (s', Inl e)
      | (s', Inr (NotModified v)) \<Rightarrow> (s', Inr (None, \<lparr>om_key = key, om_size = 0, om_version = v\<rparr>))
      | (s', Inr (Object meta b)) \<Rightarrow> (s', Inr (Some b, meta)))"

definition put_bytes :: "'s store_api \<Rightarrow> string \<Rightarrow> bytes option \<Rightarrow> put_options \<Rightarrow> 's \<Rightarrow> 's \<times> (go_error + object_meta)" where
  "put_bytes api key b opts s = sa_put api key \<lparr>pb_bytes = b, pb_stream = None, pb_stream_len = 0, pb_file = []\<rparr> opts s"

definition exists_op :: "'s store_api \<Rightarrow> string \<Rightarrow> 's \<Rightarrow> 's \<times> (go_error + bool)" where
  "exists_op api key s =
     (case sa_head api key s of
        (s', Inl e) \<Rightarrow> (s', Inl e)
      | (s', Inr m) \<Rightarrow> (s', Inr (m \<noteq> None)))"

section \<open>Parts\<close>

definition part_size_for :: "int \<Rightarrow> int" where
  "part_size_for nbytes =
     (let ps = (nbytes + 1024 - 1) div 1024;
          ps = (if ps < 2 ^ 26 then 2 ^ 26 else ps)
      in if 2 ^ 30 < ps then 2 ^ 30 else ps)"

definition pad4 :: "nat \<Rightarrow> string" where
  "pad4 n = replicate (4 - length (decimal n)) (CHR ''0'') @ decimal n"

definition part_key :: "string \<Rightarrow> nat \<Rightarrow> string" where
  "part_key key i = key @ ''.part/'' @ pad4 i"

definition mid_key :: "string \<Rightarrow> nat \<Rightarrow> string" where
  "mid_key key g = key @ ''.part/mid'' @ pad4 g"

definition stream_body :: "bytes \<Rightarrow> int \<Rightarrow> put_body" where
  "stream_body content n = \<lparr>pb_bytes = None, pb_stream = Some content, pb_stream_len = n, pb_file = []\<rparr>"

definition overwrite :: put_options where
  "overwrite = \<lparr>po_mode = PutOverwrite, po_if_version = [], po_content_type = [], po_immutable = False\<rparr>"

text \<open>The parts \<open>i\<close>, \<open>i + 1\<close>, \<dots>, \<open>i + k - 1\<close>; part \<open>i\<close> is the section \<open>[i * ps, min ((i + 1) * ps) nbytes)\<close>.\<close>

fun put_parts :: "'s store_api \<Rightarrow> string \<Rightarrow> bytes \<Rightarrow> int \<Rightarrow> int \<Rightarrow> nat \<Rightarrow> nat \<Rightarrow> 's \<Rightarrow> 's \<times> go_error option" where
  "put_parts api key data nbytes ps i 0 s = (s, None)"
| "put_parts api key data nbytes ps i (Suc k) s =
     (let start = int i * ps; end = min (start + ps) nbytes in
      case sa_put api (part_key key i) (stream_body (slice data start end) (end - start)) overwrite s of
        (s', Inl e) \<Rightarrow> (s', Some e)
      | (s', Inr meta) \<Rightarrow> put_parts api key data nbytes ps (i + 1) k s')"

fun delete_keys :: "'s store_api \<Rightarrow> string list \<Rightarrow> 's \<Rightarrow> 's" where
  "delete_keys api [] s = s"
| "delete_keys api (k # ks) s = delete_keys api ks (fst (sa_delete api k [] s))"

definition part_keys :: "string \<Rightarrow> nat \<Rightarrow> string list" where
  "part_keys key n = map (part_key key) [0..<n]"

definition cleanup_parts :: "'s store_api \<Rightarrow> string \<Rightarrow> nat \<Rightarrow> 's \<Rightarrow> 's" where
  "cleanup_parts api key n s = delete_keys api (part_keys key n) s"

text \<open>The intermediates \<open>g\<close>, \dots of \<open>ng\<close>; the result lists the ones composed.\<close>

fun compose_mids ::
  "'s store_api \<Rightarrow> string \<Rightarrow> string list \<Rightarrow> nat \<Rightarrow> nat \<Rightarrow> string list \<Rightarrow> 's \<Rightarrow> 's \<times> (go_error + string list)" where
  "compose_mids api key parts g 0 mids s = (s, Inr mids)"
| "compose_mids api key parts g (Suc k) mids s =
     (let chunk = take 32 (drop (g * 32) parts); mk = mid_key key g in
      case sa_compose api mk chunk overwrite s of
        (s', Inl e) \<Rightarrow> (s', Inl e)
      | (s', Inr meta) \<Rightarrow> compose_mids api key parts (g + 1) k (mids @ [mk]) s')"

text \<open>
  \<^verbatim>\<open>composeTwoLevels\<close>: the intermediates join the keys to delete only once all of them are
  composed.
\<close>

definition compose_two_levels ::
  "'s store_api \<Rightarrow> string \<Rightarrow> nat \<Rightarrow> put_options \<Rightarrow> 's \<Rightarrow> 's \<times> (go_error + object_meta)" where
  "compose_two_levels api key n opts s =
     (let parts = part_keys key n;
          (s', res, cleanup) =
            (if length parts \<le> 32 then
               (case sa_compose api key parts opts s of (s', r) \<Rightarrow> (s', r, parts))
             else
               (case compose_mids api key parts 0 ((length parts + 31) div 32) [] s of
                  (s', Inl e) \<Rightarrow> (s', Inl e, parts)
                | (s', Inr mids) \<Rightarrow>
                    (case sa_compose api key mids opts s' of (s'', r) \<Rightarrow> (s'', r, parts @ mids))))
      in (delete_keys api cleanup s', res))"

definition put_file_parallel ::
  "'s store_api \<Rightarrow> string \<Rightarrow> bytes \<Rightarrow> int \<Rightarrow> put_options \<Rightarrow> 's \<Rightarrow> 's \<times> (go_error + object_meta)" where
  "put_file_parallel api key data nbytes opts s =
     (if \<not> sa_compose_native api \<or> nbytes \<le> 2 ^ 27 then sa_put api key (stream_body data nbytes) opts s
      else
        let ps = part_size_for nbytes; n = (nbytes + ps - 1) div ps in
        case put_parts api key data nbytes ps 0 (nat n) s of
          (s', Some e) \<Rightarrow> (cleanup_parts api key (nat n) s', Inl e)
        | (s', None) \<Rightarrow> compose_two_levels api key (nat n) opts s')"

text \<open>\<^verbatim>\<open>IsPartKey\<close>: what follows the last \<^verbatim>\<open>.part/\<close> of the key.\<close>

definition all_digits :: "string \<Rightarrow> bool" where
  "all_digits s \<longleftrightarrow> list_all (\<lambda>c. CHR ''0'' \<le> c \<and> c \<le> CHR ''9'') s \<and> 0 < length s"

fun after_last :: "string \<Rightarrow> string \<Rightarrow> string option" where
  "after_last pat [] = (if pat = [] then Some [] else None)"
| "after_last pat (c # s) =
     (case after_last pat s of
        Some r \<Rightarrow> Some r
      | None \<Rightarrow> if prefix pat (c # s) then Some (drop (length pat) (c # s)) else None)"

definition is_part_key :: "string \<Rightarrow> bool" where
  "is_part_key key =
     (case after_last ''.part/'' key of
        None \<Rightarrow> False
      | Some rest \<Rightarrow>
          if length rest = 4 \<and> all_digits rest then True
          else prefix ''mid'' rest \<and> length rest = 7 \<and> all_digits (drop 3 rest))"

end
