(* ===== verification/Refs.thy ===== *)
theory Refs
  imports Log_Codec "HOL-Library.Sublist"
begin

text \<open>
  Refs and repository names: \<^verbatim>\<open>internal/git/refs.go\<close>, \<^verbatim>\<open>contract.go\<close> and \<^verbatim>\<open>isZeroOid\<close> of
  \<^verbatim>\<open>repo.go\<close>. A ref table is a name-sorted list of entries; the file system (loose refs, the
  bytes of packed-refs and HEAD) is what the functions are given. Running git itself
  (\<^verbatim>\<open>update-ref\<close>, \<^verbatim>\<open>cat-file\<close>, \<^verbatim>\<open>pack-refs\<close>) is not modelled.

  Go ranges over a string by code points and then looks at the byte at that index; every byte these
  checks reject is ASCII, which never continues a code point, so \<open>list_all\<close> over bytes is the
  same check.
\<close>

section \<open>Object ids and names\<close>

definition is_hex_char :: "char \<Rightarrow> bool" where
  "is_hex_char c \<longleftrightarrow> CHR ''0'' \<le> c \<and> c \<le> CHR ''9'' \<or> CHR ''a'' \<le> c \<and> c \<le> CHR ''f''"

definition valid_oid :: "string \<Rightarrow> bool" where
  "valid_oid s \<longleftrightarrow>
     (if s = [] then True
      else list_all is_hex_char s \<and> (list_all (\<lambda>c. c = CHR ''0'') s \<or> length s = 40 \<or> length s = 64))"

definition is_zero_oid :: "string \<Rightarrow> bool" where
  "is_zero_oid s \<longleftrightarrow> list_all (\<lambda>c. c = CHR ''0'') s \<and> 0 < length s"

definition bad_ref_char :: "char \<Rightarrow> bool" where
  "bad_ref_char c \<longleftrightarrow>
     c \<in> set [CHR '' '', CHR 0x0A, CHR 0x0D, CHR ''~'', CHR 0x5E, CHR '':'', CHR ''?'', CHR ''*'', CHR ''['',
              CHR 0x5C, CHR 0x7F]
     \<or> c < CHR 0x20"

text \<open>\<^verbatim>\<open>ValidateRefName\<close> returns nil.\<close>

definition valid_ref_name :: "string \<Rightarrow> bool" where
  "valid_ref_name name \<longleftrightarrow>
     (if name = ''HEAD'' then True
      else if \<not> prefix ''refs/'' name then False
      else if list_ex bad_ref_char name then False
      else \<not> (sublist ''..'' name \<or> sublist [CHR ''@'', CHR ''{''] name \<or> sublist ''//'' name \<or> prefix ''/'' name
              \<or> suffix ''/'' name \<or> suffix ''.'' name \<or> suffix ''.lock'' name))"

definition valid_ref_update :: "ref_update \<Rightarrow> bool" where
  "valid_ref_update u \<longleftrightarrow>
     valid_ref_name (ru_name u) \<and> valid_oid (ru_old_oid u) \<and> valid_oid (ru_new_oid u)
     \<and> \<not> (ru_new_symbolic_target u \<noteq> [] \<and> ru_name u \<noteq> ''HEAD'')"

subsection \<open>Repository ids\<close>

record repo_id =
  ri_owner :: string
  ri_name :: string

definition char_in :: "char \<Rightarrow> char \<Rightarrow> char \<Rightarrow> bool" where
  "char_in lo hi c \<longleftrightarrow> lo \<le> c \<and> c \<le> hi"

definition is_id_char :: "char \<Rightarrow> bool" where
  "is_id_char c \<longleftrightarrow>
     char_in (CHR ''a'') (CHR ''z'') c \<or> char_in (CHR ''A'') (CHR ''Z'') c \<or> char_in (CHR ''0'') (CHR ''9'') c
     \<or> c = CHR ''.'' \<or> c = CHR ''_'' \<or> c = CHR ''-''"

definition valid_part :: "string \<Rightarrow> bool" where
  "valid_part s \<longleftrightarrow>
     \<not> (length s = 0 \<or> 100 < length s \<or> s = ''..'' \<or> hd s = CHR ''.'') \<and> list_all is_id_char s"

definition trim_git :: "string \<Rightarrow> string" where
  "trim_git s =
     (if 4 < length s \<and> drop (length s - 4) s = ''.git'' then take (length s - 4) s else s)"

datatype repo_id_error = InvalidRepoId string | RepoIdNeedsSlash string

definition parse_repo_id :: "string \<Rightarrow> repo_id_error + repo_id" where
  "parse_repo_id s =
     (let trimmed = trim_git s;
          owner = takeWhile (\<lambda>c. c \<noteq> CHR ''/'') trimmed;
          name = drop (length owner + 1) trimmed
      in if CHR ''/'' \<notin> set trimmed then Inl (RepoIdNeedsSlash s)
         else if \<not> valid_part owner \<or> \<not> valid_part name then Inl (InvalidRepoId s)
         else Inr \<lparr>ri_owner = owner, ri_name = name\<rparr>)"

definition repo_id_string :: "repo_id \<Rightarrow> string" where
  "repo_id_string r = ri_owner r @ ''/'' @ ri_name r"

definition store_prefix :: "repo_id \<Rightarrow> string" where
  "store_prefix r = ''repos/'' @ ri_owner r @ ''/'' @ ri_name r @ ''/''"

section \<open>Snapshots and packed-refs\<close>

record ref_entry =
  re_name :: string
  re_oid :: string
  re_peeled :: string

text \<open>\<^verbatim>\<open>sort.Search\<close> of the standard library.\<close>

function search :: "(nat \<Rightarrow> bool) \<Rightarrow> nat \<Rightarrow> nat \<Rightarrow> nat" where
  "search f i j =
     (if i < j then
        let h = (i + j) div 2 in if \<not> f h then search f (h + 1) j else search f i h
      else i)"
  by pat_completeness auto
termination
  by (relation "measure (\<lambda>(f, i, j). j - i)") auto

declare search.simps [simp del]

definition snapshot_get :: "ref_entry list \<Rightarrow> string \<Rightarrow> ref_entry option" where
  "snapshot_get refs name =
     (let i = search (\<lambda>i. name \<le> re_name (refs ! i)) 0 (length refs)
      in if i < length refs \<and> re_name (refs ! i) = name then Some (refs ! i) else None)"

text \<open>\<^verbatim>\<open>strings.SplitSeq(s, "\n")\<close> and \<^verbatim>\<open>strings.Cut(line, " ")\<close>.\<close>

fun split_char :: "char \<Rightarrow> string \<Rightarrow> string list" where
  "split_char c [] = [[]]"
| "split_char c (x # xs) =
     (if x = c then [] # split_char c xs
      else case split_char c xs of [] \<Rightarrow> [[x]] | l # ls \<Rightarrow> (x # l) # ls)"

definition cut_char :: "char \<Rightarrow> string \<Rightarrow> (string \<times> string) option" where
  "cut_char c s =
     (if c \<in> set s then Some (takeWhile (\<lambda>x. x \<noteq> c) s, tl (dropWhile (\<lambda>x. x \<noteq> c) s)) else None)"

fun parse_packed_lines :: "string list \<Rightarrow> ref_entry list \<Rightarrow> ref_entry list" where
  "parse_packed_lines [] refs = refs"
| "parse_packed_lines (line # lines) refs =
     (if line = [] \<or> prefix ''#'' line then parse_packed_lines lines refs
      else if prefix [CHR 0x5E] line then
        parse_packed_lines lines
          (if refs \<noteq> [] then butlast refs @ [(last refs)\<lparr>re_peeled := tl line\<rparr>] else refs)
      else case cut_char (CHR '' '') line of
          None \<Rightarrow> parse_packed_lines lines refs
        | Some (oid, name) \<Rightarrow>
            if \<not> valid_oid oid then parse_packed_lines lines refs
            else parse_packed_lines lines (refs @ [\<lparr>re_name = name, re_oid = oid, re_peeled = []\<rparr>]))"

definition parse_packed_refs :: "string \<Rightarrow> ref_entry list" where
  "parse_packed_refs data = parse_packed_lines (split_char (CHR 0x0A) data) []"

text \<open>The bytes \<^verbatim>\<open>LoadSnapshot\<close> writes to packed-refs.\<close>

definition packed_refs_line :: "ref_entry \<Rightarrow> string" where
  "packed_refs_line e =
     re_oid e @ '' '' @ re_name e @ [CHR 0x0A]
     @ (if re_peeled e \<noteq> [] then CHR 0x5E # re_peeled e @ [CHR 0x0A] else [])"

definition render_packed_refs :: "ref_entry list \<Rightarrow> string" where
  "render_packed_refs refs =
     ''# pack-refs with: peeled fully-peeled sorted'' @ [CHR 0x0A]
     @ concat (map packed_refs_line (sort_key re_name refs))"

text \<open>
  The rest of \<^verbatim>\<open>SnapshotFrom\<close>: loose refs override packed ones. A loose entry whose oid starts
  \<^verbatim>\<open>ref: \<close> resolves against what is known so far and is dropped when it cannot.
\<close>

definition is_space :: "char \<Rightarrow> bool" where
  "is_space c \<longleftrightarrow> c \<in> set [CHR '' '', CHR 0x09, CHR 0x0A, CHR 0x0B, CHR 0x0C, CHR 0x0D]"

definition trim_space :: "string \<Rightarrow> string" where
  "trim_space s = rev (dropWhile is_space (rev (dropWhile is_space s)))"

definition merge_loose_ref :: "ref_entry \<Rightarrow> (string \<times> ref_entry) list \<Rightarrow> (string \<times> ref_entry) list" where
  "merge_loose_ref e by_name =
     (if prefix ''ref: '' (re_oid e) then
        (case map_of by_name (trim_space (drop 5 (re_oid e))) of
           Some tgt \<Rightarrow> map_put (re_name e) (e\<lparr>re_oid := re_oid tgt\<rparr>) by_name
         | None \<Rightarrow> by_name)
      else map_put (re_name e) e by_name)"

definition by_name_refs :: "(string \<times> ref_entry) list \<Rightarrow> ref_entry list" where
  "by_name_refs by_name = sort_key re_name (map snd by_name)"

definition put_refs :: "ref_entry list \<Rightarrow> (string \<times> ref_entry) list \<Rightarrow> (string \<times> ref_entry) list" where
  "put_refs refs by_name = fold (\<lambda>e m. map_put (re_name e) e m) refs by_name"

definition snapshot_refs :: "string \<Rightarrow> ref_entry list \<Rightarrow> ref_entry list" where
  "snapshot_refs packed loose =
     by_name_refs (fold merge_loose_ref loose (put_refs (parse_packed_refs packed) []))"

definition snapshot_head :: "ref_entry list \<Rightarrow> string \<Rightarrow> string \<Rightarrow> string" where
  "snapshot_head refs head_target head_oid =
     (if head_target \<noteq> [] \<and> head_oid = [] then
        (case snapshot_get refs head_target of None \<Rightarrow> head_oid | Some e \<Rightarrow> re_oid e)
      else head_oid)"

section \<open>Transactions on ref tables\<close>

text \<open>\<^verbatim>\<open>ApplyRefTxnsOffline\<close>: a missing map entry reads as the zero \<^verbatim>\<open>RefEntry\<close>.\<close>

definition absent_oid :: "string \<Rightarrow> bool" where
  "absent_oid s \<longleftrightarrow> is_zero_oid s \<or> s = []"

definition offline_step :: "ref_update \<Rightarrow> (string \<times> ref_entry) list \<Rightarrow> (string \<times> ref_entry) list" where
  "offline_step u by_name =
     (if ru_name u = ''HEAD'' then by_name
      else if absent_oid (ru_new_oid u) then filter (\<lambda>(n, _). n \<noteq> ru_name u) by_name
      else
        let e = (case map_of by_name (ru_name u) of
                   None \<Rightarrow> \<lparr>re_name = [], re_oid = [], re_peeled = []\<rparr> | Some e \<Rightarrow> e);
            e = e\<lparr>re_name := ru_name u, re_oid := ru_new_oid u\<rparr>;
            e = (if ru_new_peeled u \<noteq> [] then e\<lparr>re_peeled := ru_new_peeled u\<rparr> else e)
        in map_put (ru_name u) e by_name)"

definition apply_ref_txns_offline :: "ref_entry list \<Rightarrow> ref_update list \<Rightarrow> ref_entry list" where
  "apply_ref_txns_offline refs txn = by_name_refs (fold offline_step txn (put_refs refs []))"

subsection \<open>The ref cache\<close>

record ref_fingerprint =
  fp_gen :: u64
  fp_packed_len :: u64
  fp_packed_mtime :: u64
  fp_head_mtime :: u64
  fp_refs_mtime :: u64

record git_snapshot =
  gs_gen :: u64
  gs_refs :: "ref_entry list"
  gs_head_target :: string
  gs_head_oid :: string
  gs_fp :: ref_fingerprint

record ref_cache =
  cache_base :: "git_snapshot option"
  cache_pending :: "(string \<times> string) list"

definition overlay_refs :: "(string \<times> string) list \<Rightarrow> ref_entry list \<Rightarrow> ref_entry list" where
  "overlay_refs pending refs =
     concat (map (\<lambda>e. case map_of pending (re_name e) of
                        None \<Rightarrow> [e]
                      | Some oid \<Rightarrow> if absent_oid oid then [] else [e\<lparr>re_oid := oid\<rparr>]) refs)
     @ concat (map (\<lambda>(name, oid).
                 if name \<in> set (map re_name refs) \<or> absent_oid oid then []
                 else [\<lparr>re_name = name, re_oid = oid, re_peeled = []\<rparr>]) pending)"

definition apply_pending_locked :: "ref_cache \<Rightarrow> ref_cache" where
  "apply_pending_locked c =
     (case cache_base c of
        None \<Rightarrow> c
      | Some base \<Rightarrow>
          if cache_pending c = [] then c
          else
            let refs = sort_key re_name (overlay_refs (cache_pending c) (gs_refs base));
                head_oid =
                  (if gs_head_target base \<noteq> [] then
                     (case find (\<lambda>e. re_name e = gs_head_target base) refs of
                        None \<Rightarrow> gs_head_oid base | Some e \<Rightarrow> re_oid e)
                   else gs_head_oid base)
            in c\<lparr>cache_base := Some \<lparr>gs_gen = gs_gen base + 1, gs_refs = refs, gs_head_target = gs_head_target base,
                    gs_head_oid = head_oid,
                    gs_fp = (gs_fp base)\<lparr>fp_gen := fp_gen (gs_fp base) + 1, fp_refs_mtime := 0\<rparr>\<rparr>,
                 cache_pending := []\<rparr>)"

definition pend :: "ref_update \<Rightarrow> (string \<times> string) list \<Rightarrow> (string \<times> string) list" where
  "pend u pending =
     (if ru_name u = ''HEAD'' then pending
      else if ru_new_oid u = [] \<or> is_zero_oid (ru_new_oid u) then map_put (ru_name u) [] pending
      else map_put (ru_name u) (ru_new_oid u) pending)"

definition cache_patch :: "ref_update list \<Rightarrow> ref_cache \<Rightarrow> ref_cache" where
  "cache_patch txn c =
     (if cache_base c = None then c
      else apply_pending_locked (c\<lparr>cache_pending := fold pend txn (cache_pending c)\<rparr>))"

definition ref_view :: "ref_cache \<Rightarrow> string \<Rightarrow> ref_entry option" where
  "ref_view c name =
     (case cache_base c of
        None \<Rightarrow> None
      | Some base \<Rightarrow>
          (case snapshot_get (gs_refs base) name of
             Some e \<Rightarrow>
               (case map_of (cache_pending c) name of
                  None \<Rightarrow> Some e
                | Some oid \<Rightarrow> if absent_oid oid then None else Some (e\<lparr>re_oid := oid\<rparr>))
           | None \<Rightarrow>
               (case map_of (cache_pending c) name of
                  Some oid \<Rightarrow>
                    if \<not> absent_oid oid then Some \<lparr>re_name = name, re_oid = oid, re_peeled = []\<rparr> else None
                | None \<Rightarrow> None)))"

section \<open>The update-ref script\<close>

text \<open>
  The input \<^verbatim>\<open>ApplyRefTxn\<close> writes for \<^verbatim>\<open>git update-ref --stdin\<close>, and its check of the old values
  (\<open>loose\<close> is \<^verbatim>\<open>PeekRef\<close>; the error carries the ref, what was expected and what is there).
\<close>

definition check_old :: "ref_entry list \<Rightarrow> (string \<Rightarrow> ref_entry option) \<Rightarrow> ref_update \<Rightarrow> (string \<times> string \<times> string) option" where
  "check_old refs loose u =
     (if ru_name u = ''HEAD'' then None
      else
        let cur = (case loose (ru_name u) of Some e \<Rightarrow> Some e | None \<Rightarrow> snapshot_get refs (ru_name u));
            expected = ru_old_oid u;
            actual = (case cur of None \<Rightarrow> [] | Some e \<Rightarrow> re_oid e)
        in if is_zero_oid expected \<or> expected = [] then
             (if cur \<noteq> None then Some (ru_name u, [], actual) else None)
           else if cur = None \<or> actual \<noteq> expected then Some (ru_name u, expected, actual) else None)"

definition script_line :: "bool \<Rightarrow> ref_update \<Rightarrow> string" where
  "script_line chk u =
     (let nl = [CHR 0x0A]; new_oid = ru_new_oid u in
      if ru_name u = ''HEAD'' then []
      else if ru_new_symbolic_target u \<noteq> [] then
        ''create '' @ ru_name u @ '' ref:'' @ ru_new_symbolic_target u @ nl
      else if is_zero_oid new_oid \<or> new_oid = [] then
        (if chk \<and> \<not> is_zero_oid (ru_old_oid u) \<and> ru_old_oid u \<noteq> []
         then ''delete '' @ ru_name u @ '' '' @ ru_old_oid u @ nl
         else ''delete '' @ ru_name u @ nl)
      else if is_zero_oid (ru_old_oid u) \<or> ru_old_oid u = [] then
        (if chk then ''create '' @ ru_name u @ '' '' @ new_oid @ nl
         else ''update '' @ ru_name u @ '' '' @ new_oid @ nl)
      else [])"

definition update_ref_script :: "bool \<Rightarrow> ref_update list \<Rightarrow> string" where
  "update_ref_script chk txn =
     ''start'' @ [CHR 0x0A] @ concat (map (script_line chk) txn)
     @ ''prepare'' @ [CHR 0x0A] @ ''commit'' @ [CHR 0x0A]"

section \<open>Splitting and rendering\<close>

lemma split_char_line: "c \<notin> set l \<Longrightarrow> split_char c (l @ c # rest) = l # split_char c rest"
  by (induction l) auto

lemma dropWhile_keep: "s \<noteq> [] \<Longrightarrow> \<not> P (hd s) \<Longrightarrow> dropWhile P s = s"
  by (cases s) simp_all

lemma trim_space_id: "s \<noteq> [] \<Longrightarrow> \<not> is_space (hd s) \<Longrightarrow> \<not> is_space (last s) \<Longrightarrow> trim_space s = s"
  by (simp add: trim_space_def dropWhile_keep hd_rev)

lemma cut_char_at: "c \<notin> set a \<Longrightarrow> cut_char c (a @ c # b) = Some (a, b)"
  by (induction a) (auto simp: cut_char_def)

lemma prefix_Cons_same: "prefix [c] (x # xs) \<longleftrightarrow> c = x"
  by simp

lemma valid_oid_chars: "valid_oid s \<Longrightarrow> c \<in> set s \<Longrightarrow> is_hex_char c"
  by (auto simp: valid_oid_def list_all_iff split: if_splits)

lemma not_hex: "\<not> is_hex_char (CHR '' '')" "\<not> is_hex_char (CHR 0x0A)" "\<not> is_hex_char (CHR 0x5E)" "\<not> is_hex_char (CHR ''#'')"
  by (simp_all add: is_hex_char_def)

lemma valid_ref_name_no_newline: "valid_ref_name n \<Longrightarrow> CHR 0x0A \<notin> set n"
  by (auto simp: valid_ref_name_def list_ex_iff bad_ref_char_def split: if_splits)

text \<open>What every writer of a ref table promises of an entry.\<close>

definition wf_entry_ref :: "ref_entry \<Rightarrow> bool" where
  "wf_entry_ref e \<longleftrightarrow> valid_ref_name (re_name e) \<and> valid_oid (re_oid e) \<and> re_oid e \<noteq> [] \<and> valid_oid (re_peeled e)"

lemma parse_oid_line:
  assumes "wf_entry_ref e"
  shows "parse_packed_lines ((re_oid e @ CHR '' '' # re_name e) # lines) refs =
    parse_packed_lines lines (refs @ [e\<lparr>re_peeled := []\<rparr>])"
proof -
  obtain c oid where oid: "re_oid e = c # oid" and "is_hex_char c"
    using assms valid_oid_chars by (cases "re_oid e") (fastforce simp: wf_entry_ref_def)+
  then have "c \<noteq> CHR ''#''" and "c \<noteq> CHR 0x5E" using not_hex by auto
  moreover have "CHR '' '' \<notin> set (re_oid e)"
    using assms valid_oid_chars not_hex(1) by (auto simp: wf_entry_ref_def)
  ultimately show ?thesis
    using assms oid cut_char_at [of "CHR '' ''" "re_oid e" "re_name e"]
    by (cases e) (simp add: wf_entry_ref_def)
qed

lemma parse_peeled_line:
  "parse_packed_lines ((CHR 0x5E # p) # lines) (refs @ [e]) = parse_packed_lines lines (refs @ [e\<lparr>re_peeled := p\<rparr>])"
  by simp

lemma parse_packed_entry:
  assumes "wf_entry_ref e"
  shows "parse_packed_lines (split_char (CHR 0x0A) (packed_refs_line e @ rest)) refs
    = parse_packed_lines (split_char (CHR 0x0A) rest) (refs @ [e])"
proof -
  have no_nl: "CHR 0x0A \<notin> set (re_oid e @ CHR '' '' # re_name e)" "CHR 0x0A \<notin> set (CHR 0x5E # re_peeled e)"
    using assms valid_oid_chars not_hex(2) valid_ref_name_no_newline by (auto simp: wf_entry_ref_def)
  show ?thesis
  proof (cases "re_peeled e = []")
    case True
    then have "e\<lparr>re_peeled := []\<rparr> = e" by (cases e) simp
    then have "parse_packed_lines ((re_oid e @ CHR '' '' # re_name e) # lines) refs = parse_packed_lines lines (refs @ [e])"
      for lines refs by (simp only: parse_oid_line [OF assms])
    with True split_char_line [OF no_nl(1), of rest] show ?thesis
      by (simp add: packed_refs_line_def del: parse_packed_lines.simps)
  next
    case False
    have "e\<lparr>re_peeled := []\<rparr>\<lparr>re_peeled := re_peeled e\<rparr> = e" by (cases e) simp
    with False show ?thesis
      using parse_peeled_line [of "re_peeled e" "split_char (CHR 0x0A) rest" refs "e\<lparr>re_peeled := []\<rparr>"]
        split_char_line [OF no_nl(1), of "CHR 0x5E # re_peeled e @ CHR 0x0A # rest"]
        split_char_line [OF no_nl(2), of rest] parse_oid_line [OF assms]
      by (simp add: packed_refs_line_def del: parse_packed_lines.simps)
  qed
qed

lemma parse_packed_entries:
  "list_all wf_entry_ref es \<Longrightarrow>
   parse_packed_lines (split_char (CHR 0x0A) (concat (map packed_refs_line es) @ rest)) refs
     = parse_packed_lines (split_char (CHR 0x0A) rest) (refs @ es)"
  by (induction es arbitrary: refs) (simp_all add: parse_packed_entry)

lemma parse_render:
  assumes "list_all wf_entry_ref refs"
  shows "parse_packed_refs (render_packed_refs refs) = sort_key re_name refs"
proof -
  let ?h = "''# pack-refs with: peeled fully-peeled sorted''" and ?es = "sort_key re_name refs"
  have "list_all wf_entry_ref ?es" using assms by (simp add: list_all_iff)
  then have body: "parse_packed_lines (split_char (CHR 0x0A) (concat (map packed_refs_line ?es))) [] = ?es"
    using parse_packed_entries [of ?es "[]" "[]"] by simp
  have "split_char (CHR 0x0A) (?h @ CHR 0x0A # concat (map packed_refs_line ?es))
      = ?h # split_char (CHR 0x0A) (concat (map packed_refs_line ?es))"
    by (rule split_char_line) simp
  with body show ?thesis
    by (simp add: parse_packed_refs_def render_packed_refs_def)
qed

section \<open>Name-sorted tables\<close>

lemma search_least:
  assumes "\<And>a b. i \<le> a \<Longrightarrow> a \<le> b \<Longrightarrow> b < j \<Longrightarrow> f a \<Longrightarrow> f b" and "i \<le> j"
  shows "i \<le> search f i j \<and> search f i j \<le> j \<and> (\<forall>x. i \<le> x \<longrightarrow> x < search f i j \<longrightarrow> \<not> f x)
    \<and> (search f i j < j \<longrightarrow> f (search f i j))"
  using assms
proof (induction f i j rule: search.induct)
  case (1 f i j)
  show ?case
  proof (cases "i < j")
    case False
    then have "search f i j = i" by (simp add: search.simps [of f i j])
    with False "1.prems"(2) show ?thesis by simp
  next
    case True
    let ?h = "(i + j) div 2"
    have h: "i \<le> ?h" "?h < j" using True by auto
    show ?thesis
    proof (cases "f ?h")
      case True
      have ih: "i \<le> search f i ?h \<and> search f i ?h \<le> ?h \<and> (\<forall>x. i \<le> x \<longrightarrow> x < search f i ?h \<longrightarrow> \<not> f x)
          \<and> (search f i ?h < ?h \<longrightarrow> f (search f i ?h))"
      proof (rule "1.IH"(2) [OF \<open>i < j\<close> refl])
        show "f b" if "i \<le> a" "a \<le> b" "b < ?h" "f a" for a b
          using that h by (intro "1.prems"(1) [of a b]) simp_all
      qed (use True h in simp_all)
      have "search f i j = search f i ?h"
        using True \<open>i < j\<close> by (simp add: search.simps [of f i j] Let_def)
      moreover have "f (search f i ?h)" using ih True by (cases "search f i ?h = ?h") auto
      ultimately show ?thesis using ih h by auto
    next
      case False
      have low: "\<not> f x" if "i \<le> x" "x \<le> ?h" for x
        using that False h "1.prems"(1) [of x ?h] by blast
      have "?h + 1 \<le> search f (?h + 1) j \<and> search f (?h + 1) j \<le> j
          \<and> (\<forall>x. ?h + 1 \<le> x \<longrightarrow> x < search f (?h + 1) j \<longrightarrow> \<not> f x)
          \<and> (search f (?h + 1) j < j \<longrightarrow> f (search f (?h + 1) j))"
      proof (rule "1.IH"(1) [OF \<open>i < j\<close> refl])
        show "f b" if "?h + 1 \<le> a" "a \<le> b" "b < j" "f a" for a b
          using that h by (intro "1.prems"(1) [of a b]) simp_all
      qed (use False h in simp_all)
      moreover have "search f i j = search f (?h + 1) j"
        using False \<open>i < j\<close> by (simp add: search.simps [of f i j] Let_def)
      moreover have "\<not> f x" if "i \<le> x" "x < search f (?h + 1) j" for x
        using calculation(1) low [of x] that by (cases "x \<le> ?h") auto
      ultimately show ?thesis using h by auto
    qed
  qed
qed

definition ref_table :: "ref_entry list \<Rightarrow> bool" where
  "ref_table refs \<longleftrightarrow> sorted_wrt (<) (map re_name refs)"

definition lookup_ref :: "ref_entry list \<Rightarrow> string \<Rightarrow> ref_entry option" where
  "lookup_ref refs name = map_of (map (\<lambda>e. (re_name e, e)) refs) name"

lemma lookup_ref_nth:
  "distinct (map re_name refs) \<Longrightarrow> i < length refs \<Longrightarrow> lookup_ref refs (re_name (refs ! i)) = Some (refs ! i)"
  unfolding lookup_ref_def by (rule map_of_is_SomeI) (auto simp: o_def)

lemma lookup_ref_eq_None: "lookup_ref refs n = None \<longleftrightarrow> n \<notin> set (map re_name refs)"
  by (force simp: lookup_ref_def map_of_eq_None_iff)

lemma ref_table_distinct: "ref_table refs \<Longrightarrow> distinct (map re_name refs)"
  by (simp add: ref_table_def strict_sorted_iff)

lemma snapshot_get_lookup:
  assumes "ref_table refs"
  shows "snapshot_get refs name = lookup_ref refs name"
proof -
  let ?f = "\<lambda>i. name \<le> re_name (refs ! i)" and ?i = "search (\<lambda>i. name \<le> re_name (refs ! i)) 0 (length refs)"
  have lt: "re_name (refs ! a) < re_name (refs ! b)" if "a < b" "b < length refs" for a b
    using assms that by (auto simp: ref_table_def sorted_wrt_iff_nth_less)
  have mono: "?f b" if "a \<le> b" "b < length refs" "?f a" for a b
  proof (cases "a = b")
    case False
    with that have "re_name (refs ! a) < re_name (refs ! b)" by (intro lt) simp_all
    with that(3) show ?thesis by (rule less_imp_le [OF order.strict_trans1])
  qed (use that in simp)
  then have s: "?i \<le> length refs" "\<forall>x<?i. \<not> ?f x" "?i < length refs \<longrightarrow> ?f ?i"
    using search_least [of 0 "length refs" ?f] by auto
  show ?thesis
  proof (cases "?i < length refs \<and> re_name (refs ! ?i) = name")
    case True
    then have "snapshot_get refs name = Some (refs ! ?i)" by (simp add: snapshot_get_def Let_def)
    also have "\<dots> = lookup_ref refs name"
      using lookup_ref_nth [OF ref_table_distinct [OF assms], of ?i] True by simp
    finally show ?thesis .
  next
    case False
    have "re_name (refs ! x) \<noteq> name" if "x < length refs" for x
    proof (cases x ?i rule: linorder_cases)
      case less
      with s(2) show ?thesis by auto
    next
      case equal
      with False that show ?thesis by simp
    next
      case greater
      with s(3) that have "name \<le> re_name (refs ! ?i)" by simp
      also have "\<dots> < re_name (refs ! x)" using greater that by (rule lt)
      finally show ?thesis by simp
    qed
    then have "name \<notin> set (map re_name refs)" by (force simp: in_set_conv_nth)
    then have "lookup_ref refs name = None" by (simp only: lookup_ref_eq_None not_False_eq_True)
    moreover have "snapshot_get refs name = None" using False by (auto simp: snapshot_get_def Let_def)
    ultimately show ?thesis by simp
  qed
qed

lemma ref_table_sort: "distinct (map re_name refs) \<Longrightarrow> ref_table (sort_key re_name refs)"
  by (simp add: ref_table_def strict_sorted_iff distinct_map)

lemma lookup_ref_sort:
  assumes "distinct (map re_name refs)"
  shows "lookup_ref (sort_key re_name refs) = lookup_ref refs"
proof -
  have "distinct (map fst (map (\<lambda>e. (re_name e, e)) refs))"
    and "distinct (map fst (map (\<lambda>e. (re_name e, e)) (sort_key re_name refs)))"
    using assms by (simp_all add: o_def distinct_map)
  then have "map_of (map (\<lambda>e. (re_name e, e)) (sort_key re_name refs)) = map_of (map (\<lambda>e. (re_name e, e)) refs)"
    by (subst map_of_inject_set) simp_all
  then show ?thesis by (simp add: lookup_ref_def fun_eq_iff)
qed

text \<open>The oids a table holds, and what a transaction means on them.\<close>

definition oids :: "ref_entry list \<Rightarrow> string \<Rightarrow> string option" where
  "oids refs name = map_option re_oid (lookup_ref refs name)"

definition apply_oid :: "ref_update \<Rightarrow> (string \<Rightarrow> string option) \<Rightarrow> string \<Rightarrow> string option" where
  "apply_oid u v =
     (if ru_name u = ''HEAD'' then v
      else if absent_oid (ru_new_oid u) then v(ru_name u := None)
      else v(ru_name u \<mapsto> ru_new_oid u))"

lemma ref_table_same:
  assumes "ref_table xs" and "ref_table ys" and "oids xs = oids ys"
  shows "map (\<lambda>e. (re_name e, re_oid e)) xs = map (\<lambda>e. (re_name e, re_oid e)) ys"
proof -
  have pairs: "map (\<lambda>e. (re_name e, re_oid e)) zs = map (\<lambda>n. (n, the (oids zs n))) (map re_name zs)"
    if "ref_table zs" for zs
  proof -
    have "oids zs (re_name e) = Some (re_oid e)" if "e \<in> set zs" for e
      using lookup_ref_nth [OF ref_table_distinct [OF \<open>ref_table zs\<close>]] that
      by (auto simp: oids_def in_set_conv_nth)
    then show ?thesis by simp
  qed
  have names: "set (map re_name zs) = {n. oids zs n \<noteq> None}" for zs
    by (rule set_eqI) (simp only: mem_Collect_eq oids_def option.map_disc_iff lookup_ref_eq_None not_not)
  have "map re_name xs = map re_name ys"
    by (rule strict_sorted_equal) (use assms names [of xs] names [of ys] in \<open>simp_all add: ref_table_def\<close>)
  with pairs [OF assms(1)] pairs [OF assms(2)] assms(3) show ?thesis by simp
qed

subsection \<open>Offline application\<close>

definition keyed :: "(string \<times> ref_entry) list \<Rightarrow> bool" where
  "keyed m \<longleftrightarrow> distinct (map fst m) \<and> (\<forall>(n, e) \<in> set m. re_name e = n)"

lemma keyed_names: "keyed m \<Longrightarrow> map re_name (map snd m) = map fst m"
  by (auto simp: keyed_def)

lemma keyed_put: "keyed m \<Longrightarrow> re_name e = n \<Longrightarrow> keyed (map_put n e m)"
  using set_map_put_subset [of n e m] distinct_map_put [of m n e] by (auto simp: keyed_def)

lemma keyed_filter: "keyed m \<Longrightarrow> keyed (filter P m)"
  by (auto simp: keyed_def intro: distinct_filter_map_fst)

lemma by_name_table: "keyed m \<Longrightarrow> ref_table (by_name_refs m)"
  unfolding by_name_refs_def by (rule ref_table_sort) (subst keyed_names, simp_all add: keyed_def)

lemma by_name_lookup:
  assumes "keyed m"
  shows "lookup_ref (by_name_refs m) n = map_of m n"
proof -
  have "distinct (map re_name (map snd m))" using assms by (subst keyed_names) (simp_all add: keyed_def)
  then have "lookup_ref (by_name_refs m) n = lookup_ref (map snd m) n"
    by (simp only: by_name_refs_def lookup_ref_sort)
  also have "map (\<lambda>e. (re_name e, e)) (map snd m) = m"
    using assms by (force simp: keyed_def o_def intro!: map_idI)
  then have "lookup_ref (map snd m) n = map_of m n" by (simp only: lookup_ref_def)
  finally show ?thesis .
qed

lemma keyed_put_refs: "keyed m \<Longrightarrow> keyed (put_refs refs m)"
  by (induction refs arbitrary: m) (simp_all add: put_refs_def keyed_put)

lemma map_of_put_refs:
  "map_of (put_refs refs m) n = (case lookup_ref (rev refs) n of None \<Rightarrow> map_of m n | Some e \<Rightarrow> Some e)"
  by (induction refs arbitrary: m)
    (auto simp: put_refs_def lookup_ref_def map_of_append map_add_def split: option.split)

lemma lookup_ref_rev: "distinct (map re_name refs) \<Longrightarrow> lookup_ref (rev refs) = lookup_ref refs"
proof -
  assume d: "distinct (map re_name refs)"
  have "map_of (map (\<lambda>e. (re_name e, e)) (rev refs)) = map_of (map (\<lambda>e. (re_name e, e)) refs)"
    using d by (subst map_of_inject_set) (auto simp: o_def rev_map [symmetric])
  then show ?thesis by (simp add: lookup_ref_def fun_eq_iff)
qed

lemma keyed_offline_step: "keyed m \<Longrightarrow> keyed (offline_step u m)"
  by (simp add: offline_step_def keyed_filter Let_def keyed_put split: option.split)

lemma map_of_remove_key: "map_of (filter (\<lambda>(n, _). n \<noteq> k) m) = (map_of m)(k := None)"
  by (induction m) auto

lemma oids_offline_step:
  "(\<lambda>n. map_option re_oid (map_of (offline_step u m) n)) = apply_oid u (\<lambda>n. map_option re_oid (map_of m n))"
  by (auto simp: offline_step_def apply_oid_def Let_def map_of_remove_key fun_eq_iff split: option.split)

lemma offline_fold:
  "keyed m \<Longrightarrow> keyed (fold offline_step txn m)
    \<and> (\<lambda>n. map_option re_oid (map_of (fold offline_step txn m) n))
      = fold apply_oid txn (\<lambda>n. map_option re_oid (map_of m n))"
  by (induction txn arbitrary: m) (simp_all add: keyed_offline_step oids_offline_step)

lemma offline_oids:
  assumes "ref_table refs"
  shows "ref_table (apply_ref_txns_offline refs txn)
    \<and> oids (apply_ref_txns_offline refs txn) = fold apply_oid txn (oids refs)"
proof -
  have "keyed []" by (simp add: keyed_def)
  then have k: "keyed (put_refs refs [])" by (rule keyed_put_refs)
  have "map_of (put_refs refs []) = lookup_ref refs"
    using assms by (auto simp: map_of_put_refs lookup_ref_rev ref_table_distinct fun_eq_iff split: option.split)
  then have "(\<lambda>n. map_option re_oid (map_of (put_refs refs []) n)) = oids refs" by (simp add: oids_def fun_eq_iff)
  with offline_fold [OF k, of txn] show ?thesis
    by (simp add: apply_ref_txns_offline_def by_name_table oids_def [abs_def] by_name_lookup)
qed

subsection \<open>The cache overlay\<close>

definition overlaid :: "(string \<Rightarrow> string option) \<Rightarrow> (string \<Rightarrow> string option) \<Rightarrow> string \<Rightarrow> string option" where
  "overlaid p v n = (case p n of None \<Rightarrow> v n | Some oid \<Rightarrow> if absent_oid oid then None else Some oid)"

lemma overlay_kept:
  "map re_name (concat (map (\<lambda>e. case map_of p (re_name e) of
      None \<Rightarrow> [e] | Some oid \<Rightarrow> if absent_oid oid then [] else [e\<lparr>re_oid := oid\<rparr>]) refs))
   = filter (\<lambda>n. \<forall>oid. map_of p n = Some oid \<longrightarrow> \<not> absent_oid oid) (map re_name refs)"
  by (induction refs) (auto split: option.split)

lemma overlay_added:
  "map re_name (concat (map (\<lambda>(name, oid). if name \<in> N \<or> absent_oid oid then []
      else [\<lparr>re_name = name, re_oid = oid, re_peeled = []\<rparr>]) p))
   = map fst (filter (\<lambda>(name, oid). name \<notin> N \<and> \<not> absent_oid oid) p)"
  by (induction p) auto

lemma distinct_overlay:
  assumes "distinct (map re_name refs)" and "distinct (map fst p)"
  shows "distinct (map re_name (overlay_refs p refs))"
proof -
  have "distinct (map fst (filter (\<lambda>(name, oid). name \<notin> set (map re_name refs) \<and> \<not> absent_oid oid) p))"
    using assms(2) by (rule distinct_filter_map_fst)
  with assms(1) show ?thesis
    unfolding overlay_refs_def map_append overlay_kept overlay_added by (auto simp: case_prod_beta)
qed

lemma oids_Nil [simp]: "oids [] n = None"
  and oids_Cons [simp]: "oids (e # xs) n = (if n = re_name e then Some (re_oid e) else oids xs n)"
  by (simp_all add: oids_def lookup_ref_def)

lemma oids_append: "oids (xs @ ys) n = (case oids xs n of None \<Rightarrow> oids ys n | Some v \<Rightarrow> Some v)"
  by (simp add: oids_def lookup_ref_def map_add_def split: option.split)

lemma oids_kept:
  "oids (concat (map (\<lambda>e. case map_of p (re_name e) of
      None \<Rightarrow> [e] | Some oid \<Rightarrow> if absent_oid oid then [] else [e\<lparr>re_oid := oid\<rparr>]) refs)) n
   = (if n \<in> set (map re_name refs) then overlaid (map_of p) (oids refs) n else None)"
proof (induction refs)
  case (Cons e refs)
  with Cons show ?case
    by (auto simp: oids_append overlaid_def split: option.split)
qed simp

lemma oids_added:
  "distinct (map fst p) \<Longrightarrow>
   oids (concat (map (\<lambda>(name, oid). if name \<in> N \<or> absent_oid oid then []
      else [\<lparr>re_name = name, re_oid = oid, re_peeled = []\<rparr>]) p)) n
   = (if n \<in> N then None else overlaid (map_of p) (\<lambda>_. None) n)"
proof (induction p)
  case (Cons q p)
  obtain name oid where q: "q = (name, oid)" by (cases q)
  have "map_of p name = None" using Cons.prems q by (simp add: map_of_eq_None_iff)
  with Cons q show ?case
    by (auto simp: overlaid_def split: option.split)
qed (simp add: overlaid_def)

lemma oids_overlay:
  assumes "distinct (map fst p)"
  shows "oids (overlay_refs p refs) = overlaid (map_of p) (oids refs)"
proof (rule ext)
  fix n
  have "oids refs n = None" if "n \<notin> set (map re_name refs)"
    using that by (simp only: oids_def lookup_ref_eq_None option.map_disc_iff not_False_eq_True)
  then show "oids (overlay_refs p refs) n = overlaid (map_of p) (oids refs) n"
    unfolding overlay_refs_def oids_append oids_kept oids_added [OF assms]
    by (auto simp: overlaid_def split: option.split)
qed

lemma pend_overlaid:
  "distinct (map fst p) \<Longrightarrow> distinct (map fst (pend u p)) \<and> overlaid (map_of (pend u p)) v = apply_oid u (overlaid (map_of p) v)"
  by (auto simp: pend_def apply_oid_def overlaid_def absent_oid_def distinct_map_put fun_eq_iff)

lemma fold_pend_overlaid:
  "distinct (map fst p) \<Longrightarrow> distinct (map fst (fold pend txn p))
    \<and> overlaid (map_of (fold pend txn p)) v = fold apply_oid txn (overlaid (map_of p) v)"
  by (induction txn arbitrary: p) (simp_all add: pend_overlaid)

definition cache_ok :: "ref_cache \<Rightarrow> bool" where
  "cache_ok c \<longleftrightarrow> pred_option (\<lambda>b. ref_table (gs_refs b)) (cache_base c) \<and> distinct (map fst (cache_pending c))"

lemma ref_view_oids:
  assumes "cache_ok c" and "cache_base c = Some b"
  shows "(\<lambda>n. map_option re_oid (ref_view c n)) = overlaid (map_of (cache_pending c)) (oids (gs_refs b))"
  using assms
  by (auto simp: cache_ok_def ref_view_def snapshot_get_lookup overlaid_def oids_def fun_eq_iff split: option.split)

lemma patch_view:
  assumes "cache_ok c" and "cache_base c = Some b"
  shows "cache_ok (cache_patch txn c) \<and> cache_pending (cache_patch txn c) = []
    \<and> (\<exists>b'. cache_base (cache_patch txn c) = Some b'
          \<and> oids (gs_refs b') = fold apply_oid txn (overlaid (map_of (cache_pending c)) (oids (gs_refs b))))"
proof -
  let ?p = "fold pend txn (cache_pending c)"
  have p: "distinct (map fst ?p)"
    "overlaid (map_of ?p) (oids (gs_refs b)) = fold apply_oid txn (overlaid (map_of (cache_pending c)) (oids (gs_refs b)))"
    using assms fold_pend_overlaid by (simp_all add: cache_ok_def)
  have t: "ref_table (gs_refs b)" using assms by (simp add: cache_ok_def)
  show ?thesis
  proof (cases "?p = []")
    case True
    have "oids (gs_refs b) = overlaid (map_of []) (oids (gs_refs b))" by (simp add: overlaid_def fun_eq_iff)
    with True assms t p show ?thesis
      by (simp add: cache_patch_def apply_pending_locked_def cache_ok_def)
  next
    case False
    let ?refs = "overlay_refs ?p (gs_refs b)"
    have "distinct (map re_name ?refs)" using p(1) ref_table_distinct [OF t] by (intro distinct_overlay)
    then have "ref_table (sort_key re_name ?refs)" and "oids (sort_key re_name ?refs) = oids ?refs"
      by (simp_all add: ref_table_sort oids_def [abs_def] lookup_ref_sort)
    with False assms p oids_overlay [OF p(1)] show ?thesis
      by (simp add: cache_patch_def apply_pending_locked_def cache_ok_def Let_def)
  qed
qed

section \<open>Store prefixes of repositories\<close>

lemma id_char_not_slash: "valid_part s \<Longrightarrow> CHR ''/'' \<notin> set s"
  by (auto simp: valid_part_def list_all_iff is_id_char_def char_in_def)

lemma split_slash: "CHR ''/'' \<notin> set a \<Longrightarrow> CHR ''/'' \<notin> set b \<Longrightarrow> a @ CHR ''/'' # x = b @ CHR ''/'' # y \<Longrightarrow> a = b \<and> x = y"
proof (induction a arbitrary: b)
  case Nil
  then show ?case by (cases b) auto
next
  case (Cons c a)
  then show ?case by (cases b) auto
qed

definition wf_repo_id :: "repo_id \<Rightarrow> bool" where
  "wf_repo_id r \<longleftrightarrow> valid_part (ri_owner r) \<and> valid_part (ri_name r)"

lemma takeWhile_slash: "CHR ''/'' \<notin> set a \<Longrightarrow> takeWhile (\<lambda>c. c \<noteq> CHR ''/'') (a @ CHR ''/'' # b) = a"
  by (induction a) auto

lemma trim_git_suffix: "trim_git s \<noteq> s \<Longrightarrow> suffix ''.git'' s"
  unfolding trim_git_def suffix_def by (metis append_take_drop_id)

lemma trim_git_append: "s \<noteq> [] \<Longrightarrow> trim_git (s @ ''.git'') = s"
  by (simp add: trim_git_def)

lemma parse_repo_id_trimmed:
  assumes "wf_repo_id r" and "trim_git s = repo_id_string r"
  shows "parse_repo_id s = Inr r"
proof -
  have "CHR ''/'' \<notin> set (ri_owner r)" using assms(1) id_char_not_slash by (simp add: wf_repo_id_def)
  with assms show ?thesis
    by (cases r) (simp add: parse_repo_id_def repo_id_string_def takeWhile_slash wf_repo_id_def Let_def)
qed

section \<open>Properties\<close>

text \<open>
  C37: packed-refs round trip. What \<^verbatim>\<open>LoadSnapshot\<close> writes for entries with valid names and oids,
  \<^verbatim>\<open>parsePackedRefs\<close> reads back as the same entries in name order, peeled oids included.
\<close>

theorem packed_refs_roundtrip:
  assumes "list_all wf_entry_ref refs"
  shows "parse_packed_refs (render_packed_refs refs) = sort_key re_name refs"
  using assms by (rule parse_render)

lemma packed_refs_roundtrip_witness:
  "let e = \<lparr>re_name = ''refs/tags/v1'', re_oid = ''0'', re_peeled = ''0''\<rparr>;
       f = \<lparr>re_name = ''refs/heads/main'', re_oid = ''00'', re_peeled = []\<rparr>
   in parse_packed_refs (render_packed_refs [e, f]) = sort_key re_name [e, f]"
  unfolding Let_def
  by (rule packed_refs_roundtrip) code_simp

text \<open>The binary search of \<^verbatim>\<open>RefSnapshot.Get\<close> finds exactly the entries of a name-sorted table.\<close>

theorem snapshot_get_correct:
  assumes "ref_table refs"
  shows "snapshot_get refs name = Some e \<longleftrightarrow> e \<in> set refs \<and> re_name e = name"
proof -
  have d: "distinct (map fst (map (\<lambda>e. (re_name e, e)) refs))"
    using ref_table_distinct [OF assms] by (simp add: o_def)
  show ?thesis
    unfolding snapshot_get_lookup [OF assms] lookup_ref_def map_of_eq_Some_iff [OF d] by auto
qed

lemma snapshot_get_correct_witness:
  "let e = \<lparr>re_name = ''a'', re_oid = ''0'', re_peeled = []\<rparr>; f = \<lparr>re_name = ''b'', re_oid = ''0'', re_peeled = []\<rparr>
   in snapshot_get [e, f] ''b'' = Some f"
  unfolding Let_def
  by (subst snapshot_get_correct) (simp_all add: ref_table_def)

text \<open>
  C38: The ref cache shows the committed transaction. After \<^verbatim>\<open>Patch\<close> every ref reads as the
  transaction's updates applied in order to what it read before (deletes and zero oids remove it,
  HEAD is skipped), the base stays name-sorted and nothing is left pending.
\<close>

theorem cache_patch_refines_updates:
  assumes "cache_ok c" and "cache_base c \<noteq> None"
  shows "(\<lambda>n. map_option re_oid (ref_view (cache_patch txn c) n)) = fold apply_oid txn (\<lambda>n. map_option re_oid (ref_view c n))
    \<and> cache_ok (cache_patch txn c) \<and> cache_pending (cache_patch txn c) = []"
proof -
  obtain b where b: "cache_base c = Some b" using assms(2) by blast
  obtain b' where "cache_ok (cache_patch txn c)" "cache_pending (cache_patch txn c) = []"
    "cache_base (cache_patch txn c) = Some b'"
    "oids (gs_refs b') = fold apply_oid txn (overlaid (map_of (cache_pending c)) (oids (gs_refs b)))"
    using patch_view [OF assms(1) b] by blast
  moreover have "overlaid (map_of []) (oids (gs_refs b')) = oids (gs_refs b')" by (simp add: overlaid_def fun_eq_iff)
  ultimately show ?thesis
    using ref_view_oids [of "cache_patch txn c" b'] ref_view_oids [OF assms(1) b] by simp
qed

lemma cache_patch_refines_updates_witness:
  "let c = \<lparr>cache_base = Some \<lparr>gs_gen = 0, gs_refs = [\<lparr>re_name = ''a'', re_oid = ''1'', re_peeled = []\<rparr>],
              gs_head_target = [], gs_head_oid = [],
              gs_fp = \<lparr>fp_gen = 0, fp_packed_len = 0, fp_packed_mtime = 0, fp_head_mtime = 0, fp_refs_mtime = 0\<rparr>\<rparr>,
            cache_pending = [(''b'', ''2'')]\<rparr>
   in cache_pending (cache_patch [ref_update_zero\<lparr>ru_name := ''a''\<rparr>] c) = []"
  unfolding Let_def
  by (rule cache_patch_refines_updates [THEN conjunct2, THEN conjunct2]) (simp_all add: cache_ok_def ref_table_def)

text \<open>
  The two ways of applying a transaction agree. The live cache's \<^verbatim>\<open>Patch\<close> and the replay's
  \<^verbatim>\<open>ApplyRefTxnsOffline\<close> leave the same names and oids, in the same order.
\<close>

theorem patch_agrees_with_offline:
  assumes "ref_table (gs_refs b)"
  shows "\<exists>b'. cache_base (cache_patch txn \<lparr>cache_base = Some b, cache_pending = []\<rparr>) = Some b'
    \<and> map (\<lambda>e. (re_name e, re_oid e)) (gs_refs b')
      = map (\<lambda>e. (re_name e, re_oid e)) (apply_ref_txns_offline (gs_refs b) txn)"
proof -
  let ?c = "\<lparr>cache_base = Some b, cache_pending = []\<rparr>"
  have ok: "cache_ok ?c" using assms by (simp add: cache_ok_def)
  obtain b' where "cache_ok (cache_patch txn ?c)" and base: "cache_base (cache_patch txn ?c) = Some b'"
    and oids: "oids (gs_refs b') = fold apply_oid txn (overlaid (map_of []) (oids (gs_refs b)))"
    using patch_view [OF ok, of b txn] by auto
  then have "ref_table (gs_refs b')" by (simp add: cache_ok_def)
  moreover have "overlaid (map_of []) (oids (gs_refs b)) = oids (gs_refs b)" by (simp add: overlaid_def fun_eq_iff)
  ultimately show ?thesis
    using base oids offline_oids [OF assms, of txn] by (auto intro: ref_table_same)
qed

lemma patch_agrees_with_offline_witness:
  "\<exists>b'. cache_base (cache_patch [ref_update_zero\<lparr>ru_name := ''a'', ru_new_oid := ''1''\<rparr>]
     \<lparr>cache_base = Some \<lparr>gs_gen = 0, gs_refs = [], gs_head_target = [], gs_head_oid = [],
        gs_fp = \<lparr>fp_gen = 0, fp_packed_len = 0, fp_packed_mtime = 0, fp_head_mtime = 0, fp_refs_mtime = 0\<rparr>\<rparr>,
      cache_pending = []\<rparr>) = Some b'"
  using patch_agrees_with_offline
    [of "\<lparr>gs_gen = 0, gs_refs = [], gs_head_target = [], gs_head_oid = [],
        gs_fp = \<lparr>fp_gen = 0, fp_packed_len = 0, fp_packed_mtime = 0, fp_head_mtime = 0, fp_refs_mtime = 0\<rparr>\<rparr>"
      "[ref_update_zero\<lparr>ru_name := ''a'', ru_new_oid := ''1''\<rparr>]"]
  by (auto simp: ref_table_def)

text \<open>
  Repository ids round-trip and their stores are disjoint. A valid id parses back from its
  string with and without the \<^verbatim>\<open>.git\<close> suffix (a name that itself ends in \<^verbatim>\<open>.git\<close> needs the
  suffix), and a key under one repository's prefix is under no other repository's prefix.
\<close>

theorem repo_ids_isolated:
  assumes "wf_repo_id r" and "wf_repo_id r'"
  shows "parse_repo_id (repo_id_string r @ ''.git'') = Inr r
    \<and> (suffix ''.git'' (repo_id_string r) \<or> parse_repo_id (repo_id_string r) = Inr r)
    \<and> (store_prefix r @ k = store_prefix r' @ k' \<longrightarrow> r = r' \<and> k = k')"
proof (intro conjI impI)
  show "parse_repo_id (repo_id_string r @ ''.git'') = Inr r"
    using assms(1) by (intro parse_repo_id_trimmed trim_git_append) (simp_all add: repo_id_string_def)
  show "suffix ''.git'' (repo_id_string r) \<or> parse_repo_id (repo_id_string r) = Inr r"
    using assms(1) trim_git_suffix parse_repo_id_trimmed by blast
  assume same: "store_prefix r @ k = store_prefix r' @ k'"
  have "CHR ''/'' \<notin> set (ri_owner x) \<and> CHR ''/'' \<notin> set (ri_name x)" if "wf_repo_id x" for x
    using that id_char_not_slash by (simp add: wf_repo_id_def)
  with assms have ns: "CHR ''/'' \<notin> set (ri_owner r)" "CHR ''/'' \<notin> set (ri_name r)"
    "CHR ''/'' \<notin> set (ri_owner r')" "CHR ''/'' \<notin> set (ri_name r')" by blast+
  have "ri_owner r = ri_owner r' \<and> ri_name r @ CHR ''/'' # k = ri_name r' @ CHR ''/'' # k'"
    using same by (intro split_slash [OF ns(1,3)]) (simp add: store_prefix_def)
  moreover have "ri_name r = ri_name r' \<and> k = k'"
    using calculation by (intro split_slash [OF ns(2,4)]) simp
  ultimately show "r = r'" and "k = k'" by (auto intro: repo_id.equality)
qed

lemma repo_ids_isolated_witness:
  "parse_repo_id ''ada/eng.git'' = Inr \<lparr>ri_owner = ''ada'', ri_name = ''eng''\<rparr>"
  using repo_ids_isolated [of "\<lparr>ri_owner = ''ada'', ri_name = ''eng''\<rparr>" "\<lparr>ri_owner = ''ada'', ri_name = ''eng''\<rparr>" "[]" "[]"]
  by (simp add: wf_repo_id_def valid_part_def is_id_char_def char_in_def repo_id_string_def)

text \<open>
  \<^verbatim>\<open>ApplyRefTxn\<close> drops every ordinary update. For a ref that exists and gets a new value the
  \<^verbatim>\<open>switch\<close> has no case, so the script given to \<^verbatim>\<open>git update-ref --stdin\<close> does not mention it.
\<close>

theorem update_script_drops_updates:
  assumes "list_all (\<lambda>u. ru_new_symbolic_target u = [] \<and> \<not> absent_oid (ru_old_oid u) \<and> \<not> absent_oid (ru_new_oid u)) txn"
  shows "update_ref_script chk txn = update_ref_script chk []"
proof -
  have "script_line chk u = []" if "u \<in> set txn" for u
    using assms that by (auto simp: list_all_iff script_line_def absent_oid_def Let_def)
  then have "concat (map (script_line chk) txn) = []" by simp
  then show ?thesis by (simp add: update_ref_script_def)
qed

lemma update_script_drops_updates_witness:
  "update_ref_script True [\<lparr>ru_name = ''refs/heads/main'', ru_old_oid = ''1'', ru_new_oid = ''2'',
     ru_new_symbolic_target = [], ru_new_peeled = []\<rparr>] = update_ref_script True []"
  by (rule update_script_drops_updates) (simp add: absent_oid_def is_zero_oid_def)

text \<open>
  A tag that moves keeps its old peeled oid: when a ref with a peeled oid is updated to an object
  that has none, the replayed table still advertises the previous one.
\<close>

theorem moved_tag_keeps_stale_peel:
  "apply_ref_txns_offline [\<lparr>re_name = ''refs/tags/v1'', re_oid = ''1'', re_peeled = ''2''\<rparr>]
     [\<lparr>ru_name = ''refs/tags/v1'', ru_old_oid = ''1'', ru_new_oid = ''3'', ru_new_symbolic_target = [], ru_new_peeled = []\<rparr>]
   = [\<lparr>re_name = ''refs/tags/v1'', re_oid = ''3'', re_peeled = ''2''\<rparr>]"
  by (simp add: apply_ref_txns_offline_def put_refs_def offline_step_def absent_oid_def is_zero_oid_def by_name_refs_def)

end
