(* ===== verification/Batch.thy ===== *)
theory Batch
  imports Refs Keys "HOL-Library.Multiset"
begin

text \<open>
  The part of \<^verbatim>\<open>internal/wal/publish.go\<close> that computes without the store: verifying a batch of
  pushes against the refs, building its log entries and the next manifest, and the size sidecar's
  sums. Also the time and error types of \<^verbatim>\<open>types.go\<close>.

  A \<^verbatim>\<open>time.Time\<close> is the number of nanoseconds since year 1, so 0 is the zero time (\<^verbatim>\<open>IsZero\<close>);
  the current time is an argument. The detail text of an error is not kept.
\<close>

section \<open>Times and errors\<close>

type_synonym go_time = int

definition unix_epoch :: int where
  "unix_epoch = 62135596800"

definition time_from_go :: "go_time \<Rightarrow> timestamp" where
  "time_from_go t =
     (if t = 0 then \<lparr>ts_seconds = 0, ts_nanos = 0\<rparr>
      else \<lparr>ts_seconds = word_of_int (t div 10 ^ 9 - unix_epoch), ts_nanos = word_of_int (t mod 10 ^ 9)\<rparr>)"

definition time_go :: "timestamp \<Rightarrow> go_time" where
  "time_go ts = (sint (ts_seconds ts) + unix_epoch) * 10 ^ 9 + sint (ts_nanos ts)"

definition ts_ptr :: "go_time \<Rightarrow> timestamp option" where
  "ts_ptr t = Some (time_from_go t)"

definition max_time :: "go_time \<Rightarrow> go_time \<Rightarrow> go_time" where
  "max_time a b = (if b < a then a else b)"

datatype ref_error_kind =
  RefErrNonFastForward | RefErrConflict | RefErrRejected | RefErrMissing | RefErrStale | RefErrFallback

record ref_error =
  er_kind :: ref_error_kind
  er_ref :: string

datatype wal_error_kind =
    WalErrNotFound | WalErrAlreadyExists | WalErrRefConflict | WalErrStore | WalErrGit | WalErrCorrupt
  | WalErrInvalid | WalErrRetry | WalErrTooLarge | WalErrIo | WalErrTimeout

record ref_result =
  rr_name :: string
  rr_err :: "ref_error option"

record publish_result =
  pr_seq :: u64
  pr_per_ref :: "ref_result list"

section \<open>Requests\<close>

record prepared_pack =
  pp_checksum :: string
  pp_pack_path :: string
  pp_idx_path :: string
  pp_pack_size :: u64
  pp_idx_size :: u64
  pp_object_count :: u64
  pp_tier :: u32

record publish_activity =
  pa_tip_sha :: string
  pa_commit_time :: go_time

record publish_request =
  pq_pack :: "prepared_pack option"
  pq_txn :: "ref_transaction option"
  pq_meta :: "(string \<times> string) list"
  pq_synced :: bool
  pq_created_at :: "go_time option"
  pq_activity :: "publish_activity option"
  pq_compact :: bool
  pq_supersedes :: "string list"
  pq_settings :: "repo_settings option"
  pq_tier :: u32

section \<open>The ref overlay and verification\<close>

record ref_overlay =
  ov_base :: "ref_entry list"
  ov_delta :: "(string \<times> ref_entry) list"

definition new_ref_overlay :: "ref_entry list \<Rightarrow> ref_overlay" where
  "new_ref_overlay refs = \<lparr>ov_base = refs, ov_delta = []\<rparr>"

definition overlay_get :: "ref_overlay \<Rightarrow> string \<Rightarrow> ref_entry option" where
  "overlay_get ov name =
     (case map_of (ov_delta ov) name of
        Some e \<Rightarrow> if re_oid e = [] then None else Some e
      | None \<Rightarrow> snapshot_get (ov_base ov) name)"

definition overlay_set :: "ref_entry \<Rightarrow> ref_overlay \<Rightarrow> ref_overlay" where
  "overlay_set e ov = ov\<lparr>ov_delta := map_put (re_name e) e (ov_delta ov)\<rparr>"

definition overlay_del :: "string \<Rightarrow> ref_overlay \<Rightarrow> ref_overlay" where
  "overlay_del name ov = ov\<lparr>ov_delta := map_put name \<lparr>re_name = name, re_oid = [], re_peeled = []\<rparr> (ov_delta ov)\<rparr>"

text \<open>The log's own \<^verbatim>\<open>isZeroOid\<close>: unlike the git layer's, it accepts only full-length zeros.\<close>

definition wal_is_zero_oid :: "string \<Rightarrow> bool" where
  "wal_is_zero_oid s \<longleftrightarrow>
     (if s = [] then True else list_all (\<lambda>c. c = CHR ''0'') s \<and> (length s = 40 \<or> length s = 64))"

definition verify_update :: "ref_overlay \<Rightarrow> ref_update \<Rightarrow> ref_error list" where
  "verify_update view u =
     (if \<not> valid_ref_update u then [\<lparr>er_kind = RefErrRejected, er_ref = ru_name u\<rparr>]
      else if ru_new_symbolic_target u \<noteq> [] then []
      else
        let cur = overlay_get view (ru_name u) in
        if wal_is_zero_oid (ru_old_oid u) then
          (if cur \<noteq> None then [\<lparr>er_kind = RefErrConflict, er_ref = ru_name u\<rparr>] else [])
        else case cur of
            None \<Rightarrow> [\<lparr>er_kind = RefErrConflict, er_ref = ru_name u\<rparr>]
          | Some e \<Rightarrow> if re_oid e \<noteq> ru_old_oid u then [\<lparr>er_kind = RefErrConflict, er_ref = ru_name u\<rparr>] else [])"

definition verify_txn :: "ref_transaction option \<Rightarrow> ref_overlay \<Rightarrow> ref_error list" where
  "verify_txn txn view =
     (case txn of
        None \<Rightarrow> [\<lparr>er_kind = RefErrRejected, er_ref = ''*''\<rparr>]
      | Some t \<Rightarrow> concat (map (verify_update view) (tx_updates t)))"

definition apply_update_to_view :: "ref_update \<Rightarrow> ref_overlay \<Rightarrow> ref_overlay" where
  "apply_update_to_view u view =
     (if ru_new_symbolic_target u \<noteq> [] then view
      else if wal_is_zero_oid (ru_new_oid u) then overlay_del (ru_name u) view
      else overlay_set \<lparr>re_name = ru_name u, re_oid = ru_new_oid u, re_peeled = ru_new_peeled u\<rparr> view)"

definition apply_txn_to_view :: "ref_transaction option \<Rightarrow> ref_overlay \<Rightarrow> ref_overlay" where
  "apply_txn_to_view txn view =
     (case txn of None \<Rightarrow> view | Some t \<Rightarrow> fold apply_update_to_view (tx_updates t) view)"

text \<open>
  Step 3 of \<^verbatim>\<open>runBatch\<close>. One job is verified against the view and the monotonic clock; a valid job's
  writes are seen by the jobs after it. The result pairs each job with its errors.
\<close>

definition job_errors :: "go_time \<Rightarrow> ref_overlay \<Rightarrow> publish_request \<Rightarrow> ref_error list \<times> go_time" where
  "job_errors prev view j =
     (let errs = (if pq_txn j \<noteq> None then verify_txn (pq_txn j) view
                  else if \<not> pq_compact j \<and> pq_settings j = None then [\<lparr>er_kind = RefErrRejected, er_ref = ''*''\<rparr>]
                  else [])
      in case pq_created_at j of
           None \<Rightarrow> (errs, prev)
         | Some t \<Rightarrow>
             if errs \<noteq> [] then (errs, prev)
             else if prev \<noteq> 0 \<and> t < prev then (errs @ [\<lparr>er_kind = RefErrRejected, er_ref = ''*''\<rparr>], prev)
             else (errs, t))"

fun verify_jobs :: "go_time \<Rightarrow> ref_overlay \<Rightarrow> publish_request list \<Rightarrow> (publish_request \<times> ref_error list) list" where
  "verify_jobs prev view [] = []"
| "verify_jobs prev view (j # js) =
     (let (errs, prev') = job_errors prev view j in
      if errs \<noteq> [] then (j, errs) # verify_jobs prev' view js
      else (j, []) # verify_jobs prev' (apply_txn_to_view (pq_txn j) view) js)"

definition valid_jobs :: "(publish_request \<times> ref_error list) list \<Rightarrow> publish_request list" where
  "valid_jobs checked = map fst (filter (\<lambda>(j, errs). errs = []) checked)"

section \<open>Entries\<close>

definition pack_ref_of :: "prepared_pack \<Rightarrow> u64 \<Rightarrow> u32 \<Rightarrow> pack_ref" where
  "pack_ref_of p sq tier =
     pack_ref_zero\<lparr>pk_checksum := pp_checksum p, pk_pack_size := pp_pack_size p, pk_idx_size := pp_idx_size p,
       pk_object_count := pp_object_count p, pk_tier := tier, pk_seq := sq, pk_kind := pack_kind_objects\<rparr>"

definition build_entry :: "string \<Rightarrow> go_time \<Rightarrow> u64 \<Rightarrow> publish_request \<Rightarrow> log_entry" where
  "build_entry writer now sq j =
     (let e = log_entry_zero\<lparr>le_seq := sq, le_writer := writer, le_meta := pq_meta j, le_txn := pq_txn j,
                le_created_at := ts_ptr (case pq_created_at j of Some t \<Rightarrow> t | None \<Rightarrow> now)\<rparr>
      in if pq_settings j \<noteq> None then e\<lparr>le_kind := entry_kind_settings, le_settings := pq_settings j\<rparr>
         else if pq_compact j then
           e\<lparr>le_kind := entry_kind_compact,
             le_pack := map_option (\<lambda>p. pack_ref_of p sq (pq_tier j)) (pq_pack j),
             le_supersedes := pq_supersedes j\<rparr>
         else case pq_pack j of
             Some p \<Rightarrow> e\<lparr>le_kind := entry_kind_push, le_pack := Some (pack_ref_of p sq 0)\<rparr>
           | None \<Rightarrow> e\<lparr>le_kind := entry_kind_ref_update\<rparr>)"

fun build_entries :: "string \<Rightarrow> go_time \<Rightarrow> u64 \<Rightarrow> publish_request list \<Rightarrow> log_entry list" where
  "build_entries writer now sq [] = []"
| "build_entries writer now sq (j # js) = build_entry writer now sq j # build_entries writer now (sq + 1) js"

text \<open>\<^verbatim>\<open>e.Seq = segFirst + uint64(i)\<close>, the renumbering of \<^verbatim>\<open>claimSlot\<close>.\<close>

fun renumber :: "u64 \<Rightarrow> log_entry list \<Rightarrow> log_entry list" where
  "renumber sq [] = []"
| "renumber sq (e # es) = e\<lparr>le_seq := sq\<rparr> # renumber (sq + 1) es"

section \<open>The next manifest\<close>

definition removed_packs :: "log_entry list \<Rightarrow> string list" where
  "removed_packs entries =
     concat (map (\<lambda>e. if le_kind e = entry_kind_compact then le_supersedes e else []) entries)"

definition added_packs :: "log_entry list \<Rightarrow> pack_ref list" where
  "added_packs entries =
     concat (map (\<lambda>e. if le_kind e = entry_kind_push \<or> le_kind e = entry_kind_compact
                      then (case le_pack e of None \<Rightarrow> [] | Some p \<Rightarrow> [p]) else []) entries)"

definition last_settings :: "repo_settings option \<Rightarrow> log_entry list \<Rightarrow> repo_settings option" where
  "last_settings st entries =
     fold (\<lambda>e st. if le_kind e = entry_kind_settings then le_settings e else st) entries st"

definition build_next_manifest ::
  "manifest \<Rightarrow> log_entry list \<Rightarrow> u64 \<Rightarrow> u64 \<Rightarrow> bytes \<Rightarrow> string \<Rightarrow> go_time \<Rightarrow> manifest" where
  "build_next_manifest base entries first_seq seg_first seg_body writer now =
     (let last_seq = (if entries = [] then first_seq - 1 + word_of_nat (length entries) else le_seq (last entries));
          packs = filter (\<lambda>p. pk_checksum p \<notin> set (removed_packs entries)) (mf_packs base) @ added_packs entries;
          seg = \<lparr>sg_key = log_segment_key seg_first, sg_first_seq = seg_first, sg_last_seq = last_seq,
                 sg_size = word_of_nat (length seg_body), sg_sealed = True\<rparr>
      in base\<lparr>mf_head_seq := last_seq,
              mf_settings := last_settings (mf_settings base) entries,
              mf_packs := sort_key pk_seq packs,
              mf_log_segments := sort_key sg_first_seq (mf_log_segments base @ [seg]),
              mf_updated_at := ts_ptr now,
              mf_writer := writer,
              mf_revision := mf_revision base + 1\<rparr>)"

section \<open>The size sidecar\<close>

definition stats_sat_add :: "u64 \<Rightarrow> u64 \<Rightarrow> u64" where
  "stats_sat_add a b = (if NOT 0 - a < b then NOT 0 else a + b)"

definition stats_size_of :: "pack_ref list \<Rightarrow> u64 \<times> u64" where
  "stats_size_of packs =
     fold (\<lambda>pr (size, objs). (stats_sat_add size (stats_sat_add (pk_pack_size pr) (pk_idx_size pr)),
                              stats_sat_add objs (pk_object_count pr))) packs (0, 0)"

definition batch_writes_sidecar :: "log_entry list \<Rightarrow> bool" where
  "batch_writes_sidecar entries =
     list_ex (\<lambda>e. le_kind e \<in> set [entry_kind_push, entry_kind_compact, entry_kind_ref_update]) entries"

section \<open>The overlay as a table of oids\<close>

definition view_oids :: "ref_overlay \<Rightarrow> string \<Rightarrow> string option" where
  "view_oids ov name = map_option re_oid (overlay_get ov name)"

lemma view_oids_new: "ref_table refs \<Longrightarrow> view_oids (new_ref_overlay refs) = oids refs"
  by (simp add: view_oids_def overlay_get_def new_ref_overlay_def snapshot_get_lookup oids_def fun_eq_iff)

lemma view_oids_set: "re_oid e \<noteq> [] \<Longrightarrow> view_oids (overlay_set e ov) = (view_oids ov)(re_name e \<mapsto> re_oid e)"
  by (auto simp: view_oids_def overlay_get_def overlay_set_def fun_eq_iff split: option.split)

lemma view_oids_del: "view_oids (overlay_del n ov) = (view_oids ov)(n := None)"
  by (auto simp: view_oids_def overlay_get_def overlay_del_def fun_eq_iff split: option.split)

text \<open>
  An ordinary update: not HEAD, not symbolic, and its new oid is a real oid or one of the absent
  markers both layers understand (empty, or zeros of full length).
\<close>

definition plain_update :: "ref_update \<Rightarrow> bool" where
  "plain_update u \<longleftrightarrow>
     ru_name u \<noteq> ''HEAD'' \<and> ru_new_symbolic_target u = []
     \<and> (absent_oid (ru_new_oid u) \<longrightarrow> wal_is_zero_oid (ru_new_oid u))"

lemma wal_zero_absent: "wal_is_zero_oid s \<Longrightarrow> absent_oid s"
  by (auto simp: wal_is_zero_oid_def absent_oid_def is_zero_oid_def split: if_splits)

lemma view_oids_update:
  assumes "plain_update u"
  shows "view_oids (apply_update_to_view u ov) = apply_oid u (view_oids ov)"
proof (cases "wal_is_zero_oid (ru_new_oid u)")
  case True
  with assms show ?thesis
    by (simp add: apply_update_to_view_def plain_update_def view_oids_del apply_oid_def wal_zero_absent)
next
  case False
  then have "\<not> absent_oid (ru_new_oid u)" using assms by (auto simp: plain_update_def)
  moreover from this have "ru_new_oid u \<noteq> []" by (auto simp: absent_oid_def)
  ultimately show ?thesis
    using assms False view_oids_set [of "\<lparr>re_name = ru_name u, re_oid = ru_new_oid u, re_peeled = ru_new_peeled u\<rparr>" ov]
    by (simp add: apply_update_to_view_def plain_update_def apply_oid_def)
qed

lemma view_oids_txn:
  "list_all plain_update (tx_updates t) \<Longrightarrow>
   view_oids (apply_txn_to_view (Some t) ov) = fold apply_oid (tx_updates t) (view_oids ov)"
proof -
  have "list_all plain_update us \<Longrightarrow> view_oids (fold apply_update_to_view us ov) = fold apply_oid us (view_oids ov)" for us
    by (induction us arbitrary: ov) (simp_all add: view_oids_update)
  then show "list_all plain_update (tx_updates t) \<Longrightarrow> ?thesis" by (simp add: apply_txn_to_view_def)
qed

definition update_holds :: "(string \<Rightarrow> string option) \<Rightarrow> ref_update \<Rightarrow> bool" where
  "update_holds v u \<longleftrightarrow>
     valid_ref_update u
     \<and> (ru_new_symbolic_target u \<noteq> []
        \<or> v (ru_name u) = (if wal_is_zero_oid (ru_old_oid u) then None else Some (ru_old_oid u)))"

lemma verify_update_ok: "verify_update view u = [] \<longleftrightarrow> update_holds (view_oids view) u"
  by (simp add: verify_update_def update_holds_def view_oids_def Let_def split: option.split)

lemma verify_txn_ok: "verify_txn (Some t) view = [] \<longleftrightarrow> list_all (update_holds (view_oids view)) (tx_updates t)"
  by (simp add: verify_txn_def verify_update_ok list_all_iff)

section \<open>Log segments\<close>

text \<open>
  The shape every committed manifest has: segments in order, disjoint, none beyond the head, each
  stored under the key of its first number.
\<close>

definition log_ok :: "manifest \<Rightarrow> bool" where
  "log_ok m \<longleftrightarrow>
     sorted_wrt (\<lambda>a b. sg_last_seq a < sg_first_seq b) (mf_log_segments m)
     \<and> list_all (\<lambda>s. sg_first_seq s \<le> sg_last_seq s \<and> sg_last_seq s \<le> mf_head_seq m
                    \<and> sg_key s = log_segment_key (sg_first_seq s)) (mf_log_segments m)"

lemma length_renumber [simp]: "length (renumber sq es) = length es"
  by (induction sq es rule: renumber.induct) simp_all

lemma renumber_Nil [simp]: "renumber sq es = [] \<longleftrightarrow> es = []"
  by (cases es) simp_all

lemma renumber_nth: "i < length es \<Longrightarrow> renumber sq es ! i = (es ! i)\<lparr>le_seq := sq + word_of_nat i\<rparr>"
proof (induction sq es arbitrary: i rule: renumber.induct)
  case (2 sq e es)
  then show ?case by (cases i) (simp_all add: add.commute add.left_commute)
qed simp

lemma last_renumber:
  "es \<noteq> [] \<Longrightarrow> le_seq (last (renumber sq es)) = sq + word_of_nat (length es - 1)"
  by (simp add: last_conv_nth renumber_nth)

lemma sort_key_sorted_snoc:
  "sorted (map f xs) \<Longrightarrow> (\<forall>x \<in> set xs. f x \<le> f y) \<Longrightarrow> sort_key f (xs @ [y]) = xs @ [y]"
  by (rule sort_key_id_if_sorted) (simp add: sorted_append)

lemma log_ok_sorted: "log_ok m \<Longrightarrow> sorted (map sg_first_seq (mf_log_segments m))"
proof -
  assume ok: "log_ok m"
  have "sorted_wrt (\<lambda>a b. sg_first_seq a \<le> sg_first_seq b) (mf_log_segments m)"
  proof (rule sorted_wrt_mono_rel [rotated])
    show "sorted_wrt (\<lambda>a b. sg_last_seq a < sg_first_seq b) (mf_log_segments m)"
      using ok by (simp add: log_ok_def)
    fix a b
    assume "a \<in> set (mf_log_segments m)" and "sg_last_seq a < sg_first_seq b"
    moreover from this(1) ok have "sg_first_seq a \<le> sg_last_seq a"
      by (simp add: log_ok_def list_all_iff)
    ultimately show "sg_first_seq a \<le> sg_first_seq b" by simp
  qed
  then show ?thesis by (simp add: sorted_wrt_map)
qed

lemma unat_add_small: "unat a + n < 2 ^ 64 \<Longrightarrow> unat (a + word_of_nat n) = unat a + n" for a :: u64
  by (simp add: unat_word_ariths unat_of_nat)

definition new_segment :: "u64 \<Rightarrow> u64 \<Rightarrow> bytes \<Rightarrow> log_segment_ref" where
  "new_segment seg_first last_seq body =
     \<lparr>sg_key = log_segment_key seg_first, sg_first_seq = seg_first, sg_last_seq = last_seq,
      sg_size = word_of_nat (length body), sg_sealed = True\<rparr>"

lemma next_manifest_segments:
  assumes "log_ok base" and "mf_head_seq base < seg_first" and "es \<noteq> []"
    and "unat seg_first + length es \<le> 2 ^ 64"
  shows "mf_head_seq (build_next_manifest base (renumber seg_first es) f seg_first body w now)
      = seg_first + word_of_nat (length es - 1)
    \<and> mf_log_segments (build_next_manifest base (renumber seg_first es) f seg_first body w now)
      = mf_log_segments base @ [new_segment seg_first (seg_first + word_of_nat (length es - 1)) body]
    \<and> log_ok (build_next_manifest base (renumber seg_first es) f seg_first body w now)
    \<and> mf_head_seq base < mf_head_seq (build_next_manifest base (renumber seg_first es) f seg_first body w now)"
proof -
  let ?m = "build_next_manifest base (renumber seg_first es) f seg_first body w now"
    and ?last = "seg_first + word_of_nat (length es - 1)"
  have ne: "renumber seg_first es \<noteq> []" using assms(3) by simp
  have "0 < length es" using assms(3) by simp
  then have "unat seg_first + (length es - 1) < 2 ^ 64" using assms(4) by linarith
  then have ge: "seg_first \<le> ?last" by (simp add: word_le_nat_alt unat_add_small)
  have below: "sg_last_seq s < seg_first" "sg_first_seq s \<le> seg_first" if "s \<in> set (mf_log_segments base)" for s
  proof -
    have "sg_first_seq s \<le> sg_last_seq s" and "sg_last_seq s \<le> mf_head_seq base"
      using that assms(1) by (simp_all add: log_ok_def list_all_iff)
    with assms(2) show "sg_last_seq s < seg_first" "sg_first_seq s \<le> seg_first" by simp_all
  qed
  have segs: "mf_log_segments ?m = mf_log_segments base @ [new_segment seg_first ?last body]"
    using ne assms(3) below(2) log_ok_sorted [OF assms(1)]
    by (simp add: build_next_manifest_def Let_def last_renumber new_segment_def sort_key_sorted_snoc)
  moreover have head: "mf_head_seq ?m = ?last"
    using ne assms(3) by (simp add: build_next_manifest_def Let_def last_renumber)
  moreover have "log_ok ?m"
  proof -
    have "mf_head_seq base \<le> ?last" using assms(2) ge by simp
    then have "sg_last_seq s \<le> ?last" if "s \<in> set (mf_log_segments base)" for s
      using that assms(1) by (auto simp: log_ok_def list_all_iff intro: order.trans)
    with assms(1) ge below(1) show ?thesis
      unfolding log_ok_def segs head
      by (simp add: list_all_iff sorted_wrt_append new_segment_def)
  qed
  ultimately show ?thesis using assms(2) ge by simp
qed

lemma next_manifest_packs:
  "sorted (map pk_seq (mf_packs (build_next_manifest base es f sf body w now)))
   \<and> mset (mf_packs (build_next_manifest base es f sf body w now))
     = filter_mset (\<lambda>p. pk_checksum p \<notin> set (removed_packs es)) (mset (mf_packs base)) + mset (added_packs es)
   \<and> mf_revision (build_next_manifest base es f sf body w now) = mf_revision base + 1"
  by (simp add: build_next_manifest_def Let_def)

section \<open>Saturating sums\<close>

lemma unat_stats_sat_add: "unat (stats_sat_add a b) = min (2 ^ 64 - 1) (unat a + unat b)"
proof -
  have m: "NOT (0 :: u64) = - 1" by simp
  have "unat (NOT 0 - a) = 2 ^ 64 - 1 - unat a"
    unfolding m by (subst unat_sub) (simp_all add: unsigned_minus_1_eq_mask mask_eq_exp_minus_1)
  moreover have "unat (NOT (0 :: u64)) = 2 ^ 64 - 1"
    unfolding m by (simp add: unsigned_minus_1_eq_mask mask_eq_exp_minus_1)
  moreover have "unat a < 2 ^ 64" "unat b < 2 ^ 64"
    using unsigned_less [of a, where ?'a = nat] unsigned_less [of b, where ?'a = nat] by simp_all
  ultimately show ?thesis
    by (auto simp: stats_sat_add_def word_less_nat_alt unat_word_ariths min_def)
qed

lemma stats_size_fold:
  "unat (fst (fold (\<lambda>pr (size, objs). (stats_sat_add size (stats_sat_add (pk_pack_size pr) (pk_idx_size pr)),
       stats_sat_add objs (pk_object_count pr))) packs (s, n)))
     = min (2 ^ 64 - 1) (unat s + sum_list (map (\<lambda>pr. unat (pk_pack_size pr) + unat (pk_idx_size pr)) packs))
   \<and> unat (snd (fold (\<lambda>pr (size, objs). (stats_sat_add size (stats_sat_add (pk_pack_size pr) (pk_idx_size pr)),
       stats_sat_add objs (pk_object_count pr))) packs (s, n)))
     = min (2 ^ 64 - 1) (unat n + sum_list (map (\<lambda>pr. unat (pk_object_count pr)) packs))"
proof (induction packs arbitrary: s n)
  case Nil
  then show ?case
    using unsigned_less [of s, where ?'a = nat] unsigned_less [of n, where ?'a = nat] by simp
next
  case (Cons p packs)
  then show ?case by (auto simp: unat_stats_sat_add min_def)
qed

lemma replay_txns:
  "ref_table refs \<Longrightarrow>
   ref_table (fold (\<lambda>t rs. apply_ref_txns_offline rs (tx_updates t)) ts refs)
   \<and> oids (fold (\<lambda>t rs. apply_ref_txns_offline rs (tx_updates t)) ts refs)
     = fold (\<lambda>t. fold apply_oid (tx_updates t)) ts (oids refs)"
  by (induction ts arbitrary: refs) (simp_all add: offline_oids)

lemma view_txns:
  "list_all (\<lambda>t. list_all plain_update (tx_updates t)) ts \<Longrightarrow>
   view_oids (fold (\<lambda>t. apply_txn_to_view (Some t)) ts ov) = fold (\<lambda>t. fold apply_oid (tx_updates t)) ts (view_oids ov)"
  by (induction ts arbitrary: ov) (simp_all add: view_oids_txn)

section \<open>Properties\<close>

text \<open>
  C8: The working view is the replayed state. For updates of ordinary refs (no \<^verbatim>\<open>HEAD\<close>, no symbolic
  target, and no new oid that only one of the two zero checks takes for zero), folding the transactions
  of earlier jobs into the overlay gives, for every ref, the oid that replaying those transactions on
  the ref table gives, so a later job of the batch is verified against exactly what its predecessors
  will commit. Without the last condition it fails (\<open>short_zero_diverges\<close>).
\<close>

theorem batch_view_matches_replay:
  assumes "ref_table refs" and "list_all (\<lambda>t. list_all plain_update (tx_updates t)) ts"
  shows "view_oids (fold (\<lambda>t. apply_txn_to_view (Some t)) ts (new_ref_overlay refs))
    = oids (fold (\<lambda>t rs. apply_ref_txns_offline rs (tx_updates t)) ts refs)"
  using assms by (simp add: view_txns replay_txns view_oids_new)

lemma batch_view_matches_replay_witness:
  "let t = ref_transaction_zero\<lparr>tx_updates := [ref_update_zero\<lparr>ru_name := ''refs/heads/a'', ru_new_oid := ''1''\<rparr>]\<rparr>
   in view_oids (fold (\<lambda>t. apply_txn_to_view (Some t)) [t] (new_ref_overlay []))
      = oids (fold (\<lambda>t rs. apply_ref_txns_offline rs (tx_updates t)) [t] [])"
  unfolding Let_def
  by (rule batch_view_matches_replay)
    (simp_all add: ref_table_def plain_update_def absent_oid_def is_zero_oid_def ref_update_zero_def)

text \<open>The view that a job is verified against holds what the valid jobs before it wrote.\<close>

definition view_after :: "(publish_request \<times> ref_error list) list \<Rightarrow> ref_overlay \<Rightarrow> ref_overlay" where
  "view_after checked view = fold (\<lambda>j. apply_txn_to_view (pq_txn j)) (valid_jobs checked) view"

lemma job_ok_txn:
  "job_errors prev view j = ([], prev') \<Longrightarrow> pq_txn j = Some t \<Longrightarrow> verify_txn (Some t) view = []"
  by (auto simp: job_errors_def Let_def split: option.splits if_splits)

lemma verify_jobs_split:
  "verify_jobs prev view js = done_jobs @ (j, []) # rest \<Longrightarrow>
     \<exists>p p'. job_errors p (view_after done_jobs view) j = ([], p')"
proof (induction done_jobs arbitrary: prev view js)
  case Nil
  then show ?case
    by (cases js) (auto simp: view_after_def valid_jobs_def Let_def split: prod.splits if_splits)
next
  case (Cons d done_jobs)
  then obtain i js' where js: "js = i # js'" by (cases js) auto
  obtain errs prev' where e: "job_errors prev view i = (errs, prev')" by (cases "job_errors prev view i")
  show ?case
  proof (cases "errs = []")
    case True
    with Cons.prems js e have d: "d = (i, [])"
      and rest: "verify_jobs prev' (apply_txn_to_view (pq_txn i) view) js' = done_jobs @ (j, []) # rest"
      by (auto simp: Let_def)
    from Cons.IH [OF rest] show ?thesis by (simp add: d view_after_def valid_jobs_def)
  next
    case False
    with Cons.prems js e have d: "d = (i, errs)" and rest: "verify_jobs prev' view js' = done_jobs @ (j, []) # rest"
      by (auto simp: Let_def)
    from Cons.IH [OF rest] False show ?thesis by (simp add: d view_after_def valid_jobs_def)
  qed
qed

text \<open>
  C7: Compare-and-set within a batch. Whenever a job of a batch is accepted, each of its ordinary updates
  names as old value exactly the oid that the ref has in the view left by the accepted jobs before it
  (absent for a zero old oid), wherever the job stands in the batch.
\<close>

theorem accepted_updates_are_current:
  assumes "verify_jobs prev view js = done_jobs @ (j, []) # rest" and "pq_txn j = Some t"
    and "u \<in> set (tx_updates t)" and "ru_new_symbolic_target u = []"
  shows "view_oids (view_after done_jobs view) (ru_name u)
    = (if wal_is_zero_oid (ru_old_oid u) then None else Some (ru_old_oid u))"
proof -
  obtain p p' where "job_errors p (view_after done_jobs view) j = ([], p')"
    using verify_jobs_split [OF assms(1)] by blast
  then have "verify_txn (Some t) (view_after done_jobs view) = []" using assms(2) by (rule job_ok_txn)
  then have "update_holds (view_oids (view_after done_jobs view)) u" using assms(3) by (simp add: verify_txn_ok list_all_iff)
  then show ?thesis using assms(4) by (simp add: update_holds_def)
qed

lemma accepted_updates_are_current_witness:
  "let u1 = \<lparr>ru_name = ''refs/heads/a'', ru_old_oid = [], ru_new_oid = replicate 40 (CHR ''1''), ru_new_symbolic_target = [], ru_new_peeled = []\<rparr>;
       u2 = \<lparr>ru_name = ''refs/heads/a'', ru_old_oid = replicate 40 (CHR ''1''), ru_new_oid = replicate 40 (CHR ''2''), ru_new_symbolic_target = [], ru_new_peeled = []\<rparr>;
       job = \<lambda>u. \<lparr>pq_pack = None, pq_txn = Some (ref_transaction_zero\<lparr>tx_updates := [u]\<rparr>), pq_meta = [], pq_synced = True,
            pq_created_at = None, pq_activity = None, pq_compact = False, pq_supersedes = [], pq_settings = None, pq_tier = 0\<rparr>
   in verify_jobs 0 (new_ref_overlay []) [job u1, job u2] = [(job u1, []), (job u2, [])]
      \<and> view_oids (view_after [(job u1, [])] (new_ref_overlay [])) (ru_name u2) = Some (ru_old_oid u2)"
proof -
  let ?o1 = "replicate 40 (CHR ''1'')" and ?o2 = "replicate 40 (CHR ''2'')"
  let ?u1 = "\<lparr>ru_name = ''refs/heads/a'', ru_old_oid = [], ru_new_oid = ?o1, ru_new_symbolic_target = [], ru_new_peeled = []\<rparr>"
  let ?u2 = "\<lparr>ru_name = ''refs/heads/a'', ru_old_oid = ?o1, ru_new_oid = ?o2, ru_new_symbolic_target = [], ru_new_peeled = []\<rparr>"
  let ?job = "\<lambda>u. \<lparr>pq_pack = None, pq_txn = Some (ref_transaction_zero\<lparr>tx_updates := [u]\<rparr>), pq_meta = [], pq_synced = True,
            pq_created_at = None, pq_activity = None, pq_compact = False, pq_supersedes = [], pq_settings = None, pq_tier = 0\<rparr>"
  have v: "valid_ref_name ''refs/heads/a''" by code_simp
  have o: "valid_oid ?o1" "valid_oid ?o2" by code_simp+
  have z: "\<not> wal_is_zero_oid ?o1" by code_simp
  have g: "snapshot_get [] ''refs/heads/a'' = None" by code_simp
  have run: "verify_jobs 0 (new_ref_overlay []) [?job ?u1, ?job ?u2] = [(?job ?u1, []), (?job ?u2, [])]"
    using v o z g by (simp add: job_errors_def verify_txn_def verify_update_def valid_ref_update_def valid_oid_def [of "[]"]
      wal_is_zero_oid_def [of "[]"] overlay_get_def new_ref_overlay_def apply_txn_to_view_def apply_update_to_view_def
      overlay_set_def ref_transaction_zero_def del: replicate.simps)
  have "view_oids (view_after [(?job ?u1, [])] (new_ref_overlay [])) (ru_name ?u2)
      = (if wal_is_zero_oid (ru_old_oid ?u2) then None else Some (ru_old_oid ?u2))"
  proof (rule accepted_updates_are_current)
    show "verify_jobs 0 (new_ref_overlay []) [?job ?u1, ?job ?u2] = [(?job ?u1, [])] @ (?job ?u2, []) # []"
      using run by (simp only: append.simps)
    show "pq_txn (?job ?u2) = Some (ref_transaction_zero\<lparr>tx_updates := [?u2]\<rparr>)" by simp
    show "?u2 \<in> set (tx_updates (ref_transaction_zero\<lparr>tx_updates := [?u2]\<rparr>))" by simp
  qed simp
  with run z show ?thesis unfolding Let_def by simp
qed

text \<open>
  In particular, when two jobs move the same ref from the same value, and the first is valid and really
  changes it, the second gets an error.
\<close>

theorem second_push_conflicts:
  assumes "job_errors prev view ja = ([], prev')" and "pq_txn ja = Some ta" and "pq_txn jb = Some tb"
    and "tx_updates ta = [ua]" and "plain_update ua" and "apply_oid ua (view_oids view) (ru_name ua) \<noteq> view_oids view (ru_name ua)"
    and "ub \<in> set (tx_updates tb)" and "ru_new_symbolic_target ub = []" and "ru_name ub = ru_name ua" and "ru_old_oid ub = ru_old_oid ua"
  shows "\<exists>errs. verify_jobs prev view [ja, jb] = [(ja, []), (jb, errs)] \<and> errs \<noteq> []"
proof -
  have "verify_txn (Some ta) view = []"
    using assms(1,2) by (auto simp: job_errors_def Let_def split: option.splits if_splits)
  then have "update_holds (view_oids view) ua" using assms(4) by (simp add: verify_txn_ok)
  then have old: "view_oids view (ru_name ua) = (if wal_is_zero_oid (ru_old_oid ua) then None else Some (ru_old_oid ua))"
    using assms(5) by (simp add: update_holds_def plain_update_def)
  let ?view = "apply_txn_to_view (pq_txn ja) view"
  have "view_oids ?view = apply_oid ua (view_oids view)"
    using view_oids_txn [of ta view] assms(2,4,5) by simp
  then have "\<not> update_holds (view_oids ?view) ub"
    using old assms(6,8,9,10) by (auto simp: update_holds_def split: if_splits)
  then have "verify_txn (Some tb) ?view \<noteq> []" using assms(7) by (auto simp: verify_txn_ok list_all_iff)
  then have "fst (job_errors prev' ?view jb) \<noteq> []"
    using assms(3) by (auto simp: job_errors_def Let_def split: option.split)
  with assms(1) show ?thesis by (auto simp: Let_def split: prod.split)
qed

lemma second_push_conflicts_witness:
  "let u = \<lparr>ru_name = ''refs/heads/a'', ru_old_oid = [], ru_new_oid = replicate 40 (CHR ''1''), ru_new_symbolic_target = [], ru_new_peeled = []\<rparr>;
       j = \<lparr>pq_pack = None, pq_txn = Some (ref_transaction_zero\<lparr>tx_updates := [u]\<rparr>), pq_meta = [], pq_synced = True,
            pq_created_at = None, pq_activity = None, pq_compact = False, pq_supersedes = [], pq_settings = None, pq_tier = 0\<rparr>
   in \<exists>errs. verify_jobs 0 (new_ref_overlay []) [j, j] = [(j, []), (j, errs)] \<and> errs \<noteq> []"
proof -
  have v: "valid_ref_name ''refs/heads/a''" by code_simp
  have o: "valid_oid (replicate 40 (CHR ''1''))" by code_simp
  have z: "\<not> absent_oid (replicate 40 (CHR ''1''))" by code_simp
  have g: "snapshot_get [] ''refs/heads/a'' = None" by code_simp
  show ?thesis
    unfolding Let_def
    by (rule second_push_conflicts [where ua = "\<lparr>ru_name = ''refs/heads/a'', ru_old_oid = [],
          ru_new_oid = replicate 40 (CHR ''1''), ru_new_symbolic_target = [], ru_new_peeled = []\<rparr>"
        and ub = "\<lparr>ru_name = ''refs/heads/a'', ru_old_oid = [],
          ru_new_oid = replicate 40 (CHR ''1''), ru_new_symbolic_target = [], ru_new_peeled = []\<rparr>"
        and ta = "ref_transaction_zero\<lparr>tx_updates := [\<lparr>ru_name = ''refs/heads/a'', ru_old_oid = [],
          ru_new_oid = replicate 40 (CHR ''1''), ru_new_symbolic_target = [], ru_new_peeled = []\<rparr>]\<rparr>"
        and tb = "ref_transaction_zero\<lparr>tx_updates := [\<lparr>ru_name = ''refs/heads/a'', ru_old_oid = [],
          ru_new_oid = replicate 40 (CHR ''1''), ru_new_symbolic_target = [], ru_new_peeled = []\<rparr>]\<rparr>"
        and prev' = 0])
      (use v o z g in \<open>simp_all add: job_errors_def verify_txn_def verify_update_def valid_ref_update_def valid_oid_def [of "[]"]
        wal_is_zero_oid_def [of "[]"] overlay_get_def new_ref_overlay_def plain_update_def apply_oid_def view_oids_def ref_transaction_zero_def del: replicate.simps\<close>)
qed

text \<open>
  C9: The next manifest extends the log (segments are ordered and disjoint; burned slots leave gaps). For entries numbered from a first sequence number beyond
  the head, the head moves to the last entry, exactly one sealed segment with that range and key is
  added at the end, the segments stay ordered and disjoint, the live packs are the base packs not
  superseded plus the batch's packs in sequence order, and the revision grows by one.
\<close>

theorem next_manifest_extends_log:
  assumes "log_ok base" and "mf_head_seq base < seg_first" and "es \<noteq> []"
    and "unat seg_first + length es \<le> 2 ^ 64"
  shows "let m = build_next_manifest base (renumber seg_first es) first_seq seg_first body writer now;
             last_seq = seg_first + word_of_nat (length es - 1)
         in mf_head_seq m = last_seq \<and> mf_head_seq base < last_seq \<and> log_ok m
            \<and> mf_log_segments m = mf_log_segments base @ [\<lparr>sg_key = log_segment_key seg_first, sg_first_seq = seg_first,
                  sg_last_seq = last_seq, sg_size = word_of_nat (length body), sg_sealed = True\<rparr>]
            \<and> sorted (map pk_seq (mf_packs m))
            \<and> mset (mf_packs m) = filter_mset (\<lambda>p. pk_checksum p \<notin> set (removed_packs (renumber seg_first es))) (mset (mf_packs base))
                + mset (added_packs (renumber seg_first es))
            \<and> mf_revision m = mf_revision base + 1"
  using next_manifest_segments [OF assms, of first_seq body writer now]
    next_manifest_packs [of base "renumber seg_first es" first_seq seg_first body writer now]
  by (auto simp: Let_def new_segment_def)

lemma next_manifest_extends_log_witness:
  "let m = build_next_manifest manifest_zero (renumber 1 [log_entry_zero]) 1 1 [] ''w'' 5
   in mf_head_seq m = 1 \<and> log_ok m"
  using next_manifest_extends_log [of manifest_zero 1 "[log_entry_zero]" 1 "[]" "''w''" 5]
  by (simp add: manifest_zero_def log_ok_def Let_def)

text \<open>
  The sidecar sums saturate: the reported size and object count are the true sums over the live
  packs, capped at the largest 64-bit number, whatever the order of the additions.
\<close>

theorem stats_saturate:
  "unat (fst (stats_size_of packs))
     = min (2 ^ 64 - 1) (sum_list (map (\<lambda>pr. unat (pk_pack_size pr) + unat (pk_idx_size pr)) packs))
   \<and> unat (snd (stats_size_of packs)) = min (2 ^ 64 - 1) (sum_list (map (\<lambda>pr. unat (pk_object_count pr)) packs))"
  using stats_size_fold [of packs 0 0] by (simp add: stats_size_of_def)

text \<open>
  Renumbering after a burned slot leaves the pack behind: the entry moves to the new sequence
  number while its pack reference keeps the one it was built with.
\<close>

theorem burn_leaves_pack_seq:
  assumes "pq_settings j = None" and "pq_pack j = Some p"
  shows "map (\<lambda>e. (le_seq e, map_option pk_seq (le_pack e))) (renumber burned_to (build_entries writer now sq [j]))
    = [(burned_to, Some sq)]"
  using assms by (simp add: build_entry_def Let_def pack_ref_of_def)

lemma burn_leaves_pack_seq_witness:
  "let p = \<lparr>pp_checksum = ''c'', pp_pack_path = [], pp_idx_path = [], pp_pack_size = 0, pp_idx_size = 0, pp_object_count = 0, pp_tier = 0\<rparr>;
       j = \<lparr>pq_pack = Some p, pq_txn = None, pq_meta = [], pq_synced = True,
            pq_created_at = None, pq_activity = None, pq_compact = True, pq_supersedes = [], pq_settings = None, pq_tier = 0\<rparr>
   in map (\<lambda>e. (le_seq e, map_option pk_seq (le_pack e))) (renumber 6 (build_entries ''w'' 9 5 [j])) = [(6, Some 5)]"
  unfolding Let_def by (rule burn_leaves_pack_seq) simp_all

text \<open>
  The two zero-oid checks disagree on a short zero. An update to \<^verbatim>\<open>0\<close> passes validation; the
  publisher's view then shows the ref with oid \<^verbatim>\<open>0\<close> to the later jobs of the batch, while replay
  deletes it.
\<close>

theorem short_zero_diverges:
  "let u = \<lparr>ru_name = ''refs/heads/a'', ru_old_oid = [], ru_new_oid = ''0'', ru_new_symbolic_target = [], ru_new_peeled = []\<rparr>
   in valid_ref_update u
      \<and> view_oids (apply_update_to_view u (new_ref_overlay [])) (ru_name u) = Some ''0''
      \<and> oids (apply_ref_txns_offline [] [u]) (ru_name u) = None"
  by code_simp

text \<open>
  An explicit time of exactly the Unix epoch does not survive the wire: it is encoded as the zero
  timestamp, which the writer omits, so the entry reads back without a time.
\<close>

theorem epoch_time_is_lost:
  "time_go (time_from_go (unix_epoch * 10 ^ 9)) = unix_epoch * 10 ^ 9
   \<and> le_created_at (canon_log_entry (e\<lparr>le_created_at := ts_ptr (unix_epoch * 10 ^ 9)\<rparr>)) = None"
  by (simp add: time_go_def time_from_go_def unix_epoch_def ts_ptr_def canon_log_entry_def canon_time_def)

end
