(* ===== verification/Handle.thy ===== *)
theory Handle
  imports Batch Frames Codecs Striped
begin

text \<open>
  The open repository: \<^verbatim>\<open>internal/wal/handle.go\<close> and \<^verbatim>\<open>sync.go\<close>, over the git directory of
  \<^verbatim>\<open>internal/git/refs.go\<close> and \<^verbatim>\<open>repo.go\<close>. A handle holds a copy of the manifest with its version,
  the persisted cache state and the local refs; syncing refreshes the manifest and replays the log.

  The operations run against any store (\<open>store_api\<close>); \<open>mem_api\<close> is the memory backend. \<^verbatim>\<open>wal.freshness_ttl\<close> is 0 (the default), so every sync
  asks the store. Local files can be written (their errors are not modelled), and the parallel
  segment reads are read in order.
\<close>

section \<open>The git directory\<close>

text \<open>
  What the log writes and reads locally: packed-refs (empty when the file is absent), the loose
  refs in the order of the directory walk, and HEAD.
\<close>

record git_dir =
  gd_packed :: string
  gd_loose :: "ref_entry list"
  gd_head :: "string option"

definition read_head :: "git_dir \<Rightarrow> string \<times> string" where
  "read_head d =
     (case gd_head d of
        None \<Rightarrow> ([], [])
      | Some data \<Rightarrow>
          let s = trim_space data in
          if prefix ''ref: '' s then (trim_space (drop 5 s), [])
          else if valid_oid s \<and> \<not> is_zero_oid s then ([], s)
          else ([], []))"

text \<open>
  \<^verbatim>\<open>Layer.Snapshot\<close>: the refs, the target of HEAD and its oid. The cached parse is the same
  value, because it is reused only while the files are unchanged.
\<close>

definition layer_snapshot :: "git_dir \<Rightarrow> ref_entry list \<times> string \<times> string" where
  "layer_snapshot d =
     (let (target, oid) = read_head d;
          refs = snapshot_refs (gd_packed d) (gd_loose d)
      in (refs, target, snapshot_head refs target oid))"

text \<open>\<^verbatim>\<open>SetSymbolicHead\<close> and \<^verbatim>\<open>LoadSnapshot\<close>; the flag is whether it returned nil.\<close>

definition set_symbolic_head :: "git_dir \<Rightarrow> string \<Rightarrow> git_dir \<times> bool" where
  "set_symbolic_head d target =
     (if \<not> valid_ref_name target then (d, False)
      else (d\<lparr>gd_head := Some (''ref: '' @ target @ [CHR 0x0A])\<rparr>, True))"

definition load_snapshot :: "git_dir \<Rightarrow> ref_entry list \<Rightarrow> string \<Rightarrow> string \<Rightarrow> git_dir \<times> bool" where
  "load_snapshot d refs head_target head_oid =
     (let d = d\<lparr>gd_packed := render_packed_refs refs, gd_loose := []\<rparr> in
      if head_target \<noteq> [] then set_symbolic_head d head_target
      else if head_oid \<noteq> [] then (d\<lparr>gd_head := Some (head_oid @ [CHR 0x0A])\<rparr>, True)
      else (d, True))"

section \<open>The handle\<close>

record repo_state =
  rs_manifest_version :: string
  rs_applied_seq :: u64
  rs_revision :: u64
  rs_packs_revision :: u64
  rs_pending_pack_removals :: "string list"
  rs_remote_served :: "string list"

definition packs_ready :: "repo_state \<Rightarrow> bool" where
  "packs_ready st \<longleftrightarrow> rs_packs_revision st = rs_revision st \<and> rs_pending_pack_removals st = []"

record repo_handle =
  h_id :: string
  h_manifest :: manifest
  h_version :: version
  h_held_rev :: u64
  h_state :: repo_state
  h_dir :: git_dir
  h_first_entry_time :: go_time
  h_last_entry_time :: go_time
  h_checkpoints :: "(u64 \<times> go_time) list"
  h_settings_valid :: bool
  h_instance :: string

definition cut2 :: "string \<Rightarrow> string \<times> string" where
  "cut2 s = (case cut_char (CHR ''/'') s of None \<Rightarrow> (s, []) | Some r \<Rightarrow> r)"

definition repo_key :: "string \<Rightarrow> string \<Rightarrow> string" where
  "repo_key rid rel = (let (owner, name) = cut2 rid in ''repos/'' @ owner @ ''/'' @ name @ ''/'' @ rel)"

definition manifest_key :: "string \<Rightarrow> string" where
  "manifest_key rid =
     (let (owner, name) = cut2 rid in store_prefix \<lparr>ri_owner = owner, ri_name = name\<rparr> @ manifest_pb)"

definition note_checkpoint :: "u64 \<Rightarrow> go_time \<Rightarrow> repo_handle \<Rightarrow> repo_handle" where
  "note_checkpoint sq t h = h\<lparr>h_checkpoints := map_put sq t (h_checkpoints h)\<rparr>"

definition note_checkpoint_ref :: "checkpoint_ref option \<Rightarrow> repo_handle \<Rightarrow> repo_handle" where
  "note_checkpoint_ref cp h =
     (case cp of
        None \<Rightarrow> h
      | Some c \<Rightarrow> (case cr_created_at c of None \<Rightarrow> h | Some t \<Rightarrow> note_checkpoint (cr_seq c) (time_go t) h))"

definition update_state :: "(repo_state \<Rightarrow> repo_state) \<Rightarrow> repo_handle \<Rightarrow> repo_handle" where
  "update_state f h = h\<lparr>h_state := f (h_state h)\<rparr>"

definition new_handle :: "string \<Rightarrow> string \<Rightarrow> manifest \<Rightarrow> version \<Rightarrow> git_dir \<Rightarrow> repo_state \<Rightarrow> repo_handle" where
  "new_handle inst rid m version d st =
     note_checkpoint_ref (mf_checkpoint m)
       \<lparr>h_id = rid, h_manifest = m, h_version = version, h_held_rev = mf_revision m, h_state = st, h_dir = d,
        h_first_entry_time = 0, h_last_entry_time = 0, h_checkpoints = [], h_settings_valid = False, h_instance = inst\<rparr>"

section \<open>Refreshing the manifest\<close>

text \<open>
  The tail of \<^verbatim>\<open>freshenManifest\<close>: a manifest of a revision the handle already has is discarded
  (its version is adopted only into an empty slot), a newer one replaces the held one.
\<close>

definition adopt_manifest :: "bytes \<Rightarrow> version \<Rightarrow> repo_handle \<Rightarrow> repo_handle \<times> wal_error_kind option" where
  "adopt_manifest body version h =
     (case decode_manifest body of
        Inl e \<Rightarrow> (h, Some WalErrCorrupt)
      | Inr m \<Rightarrow>
          if mf_revision m \<le> h_held_rev h then
            (if h_version h = [] \<and> version \<noteq> [] then h\<lparr>h_version := version\<rparr> else h, None)
          else
            (note_checkpoint_ref (mf_checkpoint m)
               (h\<lparr>h_manifest := m, h_version := version, h_held_rev := mf_revision m\<rparr>), None))"

definition freshen_manifest :: "'s store_api \<Rightarrow> 's \<Rightarrow> repo_handle \<Rightarrow> 's \<times> repo_handle \<times> wal_error_kind option" where
  "freshen_manifest api s h =
     (let key = manifest_key (h_id h) in
      if h_version h \<noteq> [] then
        (case sa_get api key (get_default\<lparr>go_if_none_match := h_version h\<rparr>) s of
           (s', Inl e) \<Rightarrow> (s', h, Some WalErrStore)
         | (s', Inr (NotModified v)) \<Rightarrow> (s', h, None)
         | (s', Inr (Object meta body)) \<Rightarrow> (s', adopt_manifest body (om_version meta) h))
      else
        (case get_bytes api key get_default s of
           (s', Inl e) \<Rightarrow> (s', h, Some WalErrStore)
         | (s', Inr (None, meta)) \<Rightarrow> (s', h, Some WalErrNotFound)
         | (s', Inr (Some body, meta)) \<Rightarrow> (s', adopt_manifest body (om_version meta) h)))"

section \<open>Catching up\<close>

text \<open>
  \<^verbatim>\<open>foldCheckpoint\<close>: the ref table of the checkpoint replaces the local one.
\<close>

definition ref_entry_of :: "ref \<Rightarrow> ref_entry" where
  "ref_entry_of r = \<lparr>re_name = rf_name r, re_oid = rf_oid r, re_peeled = rf_peeled r\<rparr>"

definition fold_checkpoint ::
  "'s store_api \<Rightarrow> checkpoint_ref \<Rightarrow> 's \<Rightarrow> repo_handle \<Rightarrow> 's \<times> repo_handle \<times> wal_error_kind option" where
  "fold_checkpoint api cp s h =
     (case get_bytes api (repo_key (h_id h) (checkpoint_refs_key (cr_seq cp))) get_default s of
        (s', Inl e) \<Rightarrow> (s', h, Some WalErrStore)
      | (s', Inr (None, meta)) \<Rightarrow> (s', h, Some WalErrCorrupt)
      | (s', Inr (Some body, meta)) \<Rightarrow>
          (case decode_ref_snapshot body of
             Inl e \<Rightarrow> (s', h, Some WalErrCorrupt)
           | Inr snap \<Rightarrow>
               (case load_snapshot (h_dir h) (map ref_entry_of (sn_refs snap)) (sn_head_target snap) [] of
                  (d, False) \<Rightarrow> (s', h\<lparr>h_dir := d\<rparr>, Some WalErrGit)
                | (d, True) \<Rightarrow>
                    (s', update_state (\<lambda>st. st\<lparr>rs_applied_seq := cr_seq cp\<rparr>)
                           (note_checkpoint_ref (Some cp) (h\<lparr>h_dir := d\<rparr>)), None))))"

fun fetch_segments ::
  "'s store_api \<Rightarrow> string \<Rightarrow> log_segment_ref list \<Rightarrow> 's \<Rightarrow> 's \<times> (wal_error_kind + log_entry list)" where
  "fetch_segments api rid [] s = (s, Inr [])"
| "fetch_segments api rid (sg # sgs) s =
     (case get_bytes api (repo_key rid (sg_key sg)) get_default s of
        (s', Inl e) \<Rightarrow> (s', Inl WalErrStore)
      | (s', Inr (None, meta)) \<Rightarrow> (s', Inl WalErrCorrupt)
      | (s', Inr (Some body, meta)) \<Rightarrow>
          (case decode_entries body of
             (n, Some e, es) \<Rightarrow> (s', Inl WalErrCorrupt)
           | (n, None, es) \<Rightarrow>
               (case fetch_segments api rid sgs s' of
                  (s'', Inl e) \<Rightarrow> (s'', Inl e)
                | (s'', Inr rest) \<Rightarrow> (s'', Inr (es @ rest)))))"

text \<open>
  What one entry leaves besides its refs: the entry times, pack removals for the reconciler, and
  the time of a checkpoint.
\<close>

definition note_entry_time :: "timestamp option \<Rightarrow> repo_handle \<Rightarrow> repo_handle" where
  "note_entry_time ts h =
     (case ts of
        None \<Rightarrow> h
      | Some x \<Rightarrow>
          let t = time_go x;
              h = (if h_first_entry_time h = 0 \<or> t < h_first_entry_time h then h\<lparr>h_first_entry_time := t\<rparr> else h)
          in if h_last_entry_time h < t then h\<lparr>h_last_entry_time := t\<rparr> else h)"

definition add_removals :: "string list \<Rightarrow> repo_handle \<Rightarrow> repo_handle" where
  "add_removals dead h =
     update_state (\<lambda>st. st\<lparr>rs_pending_pack_removals := rs_pending_pack_removals st @ dead\<rparr>) h"

definition replay_entry :: "log_entry \<Rightarrow> repo_handle \<Rightarrow> repo_handle" where
  "replay_entry e h =
     (let h = note_entry_time (le_created_at e) h in
      if le_kind e = entry_kind_compact then
        (if le_supersedes e \<noteq> [] then add_removals (le_supersedes e) h else h)
      else if le_kind e = entry_kind_checkpoint then note_checkpoint_ref (le_checkpoint e) h
      else h)"

definition entry_txns :: "log_entry list \<Rightarrow> ref_transaction list" where
  "entry_txns es =
     concat (map (\<lambda>e. if le_kind e = entry_kind_push \<or> le_kind e = entry_kind_ref_update
                      then (case le_txn e of None \<Rightarrow> [] | Some t \<Rightarrow> [t]) else []) es)"

definition head_update :: "ref_update \<Rightarrow> string \<Rightarrow> string" where
  "head_update u head =
     (if ru_name u = ''HEAD'' \<and> ru_new_symbolic_target u \<noteq> [] then ru_new_symbolic_target u else head)"

text \<open>
  \<^verbatim>\<open>applyTxnsOffline\<close>, and the same statements at the end of \<^verbatim>\<open>replayEntries\<close>: one rewrite of
  packed-refs for all transactions.
\<close>

definition apply_txns_offline :: "ref_transaction list \<Rightarrow> git_dir \<Rightarrow> git_dir \<times> bool" where
  "apply_txns_offline txns d =
     (let (refs, target, oid) = layer_snapshot d;
          refs = fold (\<lambda>t rs. apply_ref_txns_offline rs (tx_updates t)) txns refs;
          target = fold (\<lambda>t. fold head_update (tx_updates t)) txns target
      in load_snapshot d (sort_key re_name refs) target [])"

definition replay_entries :: "log_entry list \<Rightarrow> repo_handle \<Rightarrow> repo_handle \<times> wal_error_kind option" where
  "replay_entries es h =
     (let h = fold replay_entry es h; txns = entry_txns es in
      if txns = [] then (h, None)
      else case apply_txns_offline txns (h_dir h) of
          (d, ok) \<Rightarrow> (h\<lparr>h_dir := d\<rparr>, if ok then None else Some WalErrGit))"

definition caught_up :: "manifest \<Rightarrow> repo_state \<Rightarrow> repo_state" where
  "caught_up m st = st\<lparr>rs_applied_seq := mf_head_seq m, rs_revision := mf_revision m\<rparr>"

definition replay_tail :: "'s store_api \<Rightarrow> 's \<Rightarrow> repo_handle \<Rightarrow> 's \<times> repo_handle \<times> wal_error_kind option" where
  "replay_tail api s h =
     (let m = h_manifest h;
          applied = rs_applied_seq (h_state h);
          segs = filter (\<lambda>sg. applied < sg_last_seq sg \<and> sg_first_seq sg \<le> mf_head_seq m) (mf_log_segments m)
      in if segs = [] then
           (s, if applied < mf_head_seq m then update_state (caught_up m) h else h, None)
         else
           (case fetch_segments api (h_id h) segs s of
              (s', Inl e) \<Rightarrow> (s', h, Some e)
            | (s', Inr entries) \<Rightarrow>
                (case replay_entries (sort_key le_seq entries) h of
                   (h', Some e) \<Rightarrow> (s', h', Some e)
                 | (h', None) \<Rightarrow> (s', update_state (caught_up m) h', None))))"

definition apply_delta :: "'s store_api \<Rightarrow> 's \<Rightarrow> repo_handle \<Rightarrow> 's \<times> repo_handle \<times> wal_error_kind option" where
  "apply_delta api s h =
     (case mf_checkpoint (h_manifest h) of
        Some cp \<Rightarrow>
          if rs_applied_seq (h_state h) < cr_seq cp then
            (case fold_checkpoint api cp s h of
               (s', h', Some e) \<Rightarrow> (s', h', Some e)
             | (s', h', None) \<Rightarrow> replay_tail api s' h')
          else replay_tail api s h
      | None \<Rightarrow> replay_tail api s h)"

text \<open>\<^verbatim>\<open>Sync\<close> at the refs level: refresh, then catch up.\<close>

definition sync_refs :: "'s store_api \<Rightarrow> 's \<Rightarrow> repo_handle \<Rightarrow> 's \<times> repo_handle \<times> wal_error_kind option" where
  "sync_refs api s h =
     (case freshen_manifest api s h of
        (s', h', Some e) \<Rightarrow> (s', h', Some e)
      | (s', h', None) \<Rightarrow> apply_delta api s' h')"

section \<open>Local refs\<close>

text \<open>
  The state the log keeps a git directory in: all refs packed, well formed and in name order. What
  it says to a reader is \<open>dir_view\<close>: the oid of every ref, and the target of HEAD.
\<close>

definition dir_refs :: "git_dir \<Rightarrow> ref_entry list" where
  "dir_refs d = parse_packed_refs (gd_packed d)"

definition dir_ok :: "git_dir \<Rightarrow> bool" where
  "dir_ok d \<longleftrightarrow>
     gd_loose d = [] \<and> ref_table (dir_refs d) \<and> list_all wf_entry_ref (dir_refs d)
     \<and> (fst (read_head d) = [] \<or> valid_ref_name (fst (read_head d)))"

definition dir_view :: "git_dir \<Rightarrow> (string \<Rightarrow> string option) \<times> string" where
  "dir_view d = (oids (dir_refs d), fst (read_head d))"

definition replay_view ::
  "ref_transaction list \<Rightarrow> (string \<Rightarrow> string option) \<times> string \<Rightarrow> (string \<Rightarrow> string option) \<times> string" where
  "replay_view txns v =
     (fold (\<lambda>t. fold apply_oid (tx_updates t)) txns (fst v), fold (\<lambda>t. fold head_update (tx_updates t)) txns (snd v))"

definition update_ok :: "ref_update \<Rightarrow> bool" where
  "update_ok u \<longleftrightarrow>
     valid_ref_update u \<and> valid_oid (ru_new_peeled u)
     \<and> (ru_new_symbolic_target u = [] \<or> valid_ref_name (ru_new_symbolic_target u))"

definition txn_ok :: "ref_transaction \<Rightarrow> bool" where
  "txn_ok t \<longleftrightarrow> list_all update_ok (tx_updates t)"

lemma valid_oid_Nil [simp]: "valid_oid []"
  by (simp add: valid_oid_def)

lemma put_refs_distinct:
  "distinct (map re_name refs) \<Longrightarrow> set (map re_name refs) \<inter> set (map fst m) = {} \<Longrightarrow>
   put_refs refs m = m @ map (\<lambda>e. (re_name e, e)) refs"
proof (induction refs arbitrary: m)
  case (Cons e refs)
  then have "map_put (re_name e) e m = m @ [(re_name e, e)]" by (intro map_put_fresh) auto
  with Cons.IH [of "m @ [(re_name e, e)]"] Cons.prems show ?case by (auto simp: put_refs_def)
qed (simp add: put_refs_def)

lemma sort_ref_table: "ref_table refs \<Longrightarrow> sort_key re_name refs = refs"
  by (rule sort_key_id_if_sorted) (simp add: ref_table_def strict_sorted_iff)

lemma snapshot_dir:
  assumes "dir_ok d"
  shows "layer_snapshot d = (dir_refs d, fst (read_head d), snapshot_head (dir_refs d) (fst (read_head d)) (snd (read_head d)))"
proof -
  have "put_refs (dir_refs d) [] = map (\<lambda>e. (re_name e, e)) (dir_refs d)"
    using assms put_refs_distinct [of "dir_refs d" "[]"] by (simp add: dir_ok_def ref_table_distinct)
  then have "snapshot_refs (gd_packed d) (gd_loose d) = dir_refs d"
    using assms by (simp add: snapshot_refs_def dir_ok_def dir_refs_def by_name_refs_def o_def sort_ref_table)
  then show ?thesis by (simp add: layer_snapshot_def Let_def split: prod.split)
qed

lemma offline_wf:
  assumes "ref_table refs" and "list_all wf_entry_ref refs" and "list_all update_ok us"
  shows "list_all wf_entry_ref (apply_ref_txns_offline refs us)"
proof -
  have step: "\<forall>e \<in> snd ` set (offline_step u m). wf_entry_ref e"
    if "\<forall>e \<in> snd ` set m. wf_entry_ref e" and "update_ok u" for u and m :: "(string \<times> ref_entry) list"
  proof -
    let ?old = "case map_of m (ru_name u) of None \<Rightarrow> \<lparr>re_name = [], re_oid = [], re_peeled = []\<rparr> | Some e \<Rightarrow> e"
    let ?mid = "?old\<lparr>re_name := ru_name u, re_oid := ru_new_oid u\<rparr>"
    let ?new = "if ru_new_peeled u \<noteq> [] then ?mid\<lparr>re_peeled := ru_new_peeled u\<rparr> else ?mid"
    have u: "valid_ref_name (ru_name u)" "valid_oid (ru_new_oid u)" "valid_oid (ru_new_peeled u)"
      using that(2) by (simp_all add: update_ok_def valid_ref_update_def)
    have "valid_oid (re_peeled ?old)"
      using that(1) by (force simp: wf_entry_ref_def dest: map_of_SomeD split: option.split)
    then have e: "wf_entry_ref ?new" if "\<not> absent_oid (ru_new_oid u)"
      using u that by (simp add: wf_entry_ref_def absent_oid_def)
    consider "ru_name u = ''HEAD''" | "ru_name u \<noteq> ''HEAD''" "absent_oid (ru_new_oid u)"
      | "ru_name u \<noteq> ''HEAD''" "\<not> absent_oid (ru_new_oid u)" by blast
    then show ?thesis
    proof cases
      case 3
      then have "offline_step u m = map_put (ru_name u) ?new m" by (simp only: offline_step_def Let_def if_False)
      with set_map_put_subset [of "ru_name u" ?new m] e [OF 3(2)] that(1) show ?thesis by fastforce
    qed (use that(1) in \<open>auto simp: offline_step_def\<close>)
  qed
  have folded: "\<forall>e \<in> snd ` set (fold offline_step us m). wf_entry_ref e" if "\<forall>e \<in> snd ` set m. wf_entry_ref e" for m
    using assms(3) that
  proof (induction us arbitrary: m)
    case (Cons u us)
    have "\<forall>e \<in> snd ` set (offline_step u m). wf_entry_ref e"
      by (rule step) (use Cons.prems in auto)
    with Cons.IH [of "offline_step u m"] Cons.prems(1) show ?case by simp
  qed simp
  have "put_refs refs [] = map (\<lambda>e. (re_name e, e)) refs"
    using assms(1) put_refs_distinct [of refs "[]"] by (simp add: ref_table_distinct)
  moreover have "\<forall>e \<in> snd ` set (map (\<lambda>e. (re_name e, e)) refs). wf_entry_ref e"
    using assms(2) by (auto simp: list_all_iff)
  ultimately show ?thesis
    using folded [of "put_refs refs []"]
    unfolding apply_ref_txns_offline_def by_name_refs_def list_all_iff set_sort set_map by (simp only: set_map)
qed

lemma offline_txns:
  assumes "ref_table refs" and "list_all wf_entry_ref refs" and "list_all txn_ok txns"
  shows "list_all wf_entry_ref (fold (\<lambda>t rs. apply_ref_txns_offline rs (tx_updates t)) txns refs)"
  using assms
  by (induction txns arbitrary: refs) (simp_all add: offline_wf offline_oids txn_ok_def)

lemma valid_name_chars: "valid_ref_name n \<Longrightarrow> n \<noteq> [] \<and> (\<forall>c \<in> set n. \<not> is_space c)"
proof (cases "n = ''HEAD''")
  case True
  then show ?thesis by (simp add: is_space_def)
next
  case False
  assume "valid_ref_name n"
  with False have "prefix ''refs/'' n" and "\<not> list_ex bad_ref_char n"
    by (simp_all only: valid_ref_name_def if_False not_False_eq_True split: if_splits)
  moreover have "bad_ref_char c" if "is_space c" for c
  proof -
    have "c = CHR '' '' \<or> c = CHR 0x09 \<or> c = CHR 0x0A \<or> c = CHR 0x0B \<or> c = CHR 0x0C \<or> c = CHR 0x0D"
      using that by (simp add: is_space_def)
    then show ?thesis by (elim disjE) (simp_all add: bad_ref_char_def less_char_def)
  qed
  moreover have "n \<noteq> []" using \<open>prefix ''refs/'' n\<close> by (cases n) simp_all
  ultimately show ?thesis unfolding list_ex_iff by blast
qed

lemma trim_space_newline: "s \<noteq> [] \<Longrightarrow> \<not> is_space (hd s) \<Longrightarrow> \<not> is_space (last s) \<Longrightarrow> trim_space (s @ [CHR 0x0A]) = s"
proof -
  assume s: "s \<noteq> []" "\<not> is_space (hd s)" "\<not> is_space (last s)"
  have "is_space (CHR 0x0A)" by (simp add: is_space_def)
  with s show ?thesis by (simp add: trim_space_def dropWhile_keep hd_rev)
qed

lemma read_head_symbolic:
  assumes "valid_ref_name t"
  shows "read_head (d\<lparr>gd_head := Some (''ref: '' @ t @ [CHR 0x0A])\<rparr>) = (t, [])"
proof -
  have t: "t \<noteq> []" "\<forall>c \<in> set t. \<not> is_space c" using valid_name_chars [OF assms] by auto
  have "trim_space ((''ref: '' @ t) @ [CHR 0x0A]) = ''ref: '' @ t"
    by (rule trim_space_newline) (use t in \<open>simp_all add: is_space_def\<close>)
  moreover have "trim_space t = t"
    by (rule trim_space_id) (use t in auto)
  ultimately show ?thesis by (simp add: read_head_def Let_def)
qed

lemma load_snapshot_view:
  assumes "ref_table refs" and "list_all wf_entry_ref refs"
    and "t = [] \<and> fst (read_head d) = [] \<or> valid_ref_name t"
  shows "\<exists>d'. load_snapshot d refs t [] = (d', True) \<and> dir_ok d' \<and> dir_view d' = (oids refs, t)"
proof -
  have refs: "parse_packed_refs (render_packed_refs refs) = refs"
    using parse_render [OF assms(2)] sort_ref_table [OF assms(1)] by simp
  show ?thesis
  proof (cases "valid_ref_name t")
    case True
    then have "t \<noteq> []" using valid_name_chars by blast
    with True refs assms(1,2) read_head_symbolic [OF True, of "d\<lparr>gd_packed := render_packed_refs refs, gd_loose := []\<rparr>"]
    show ?thesis
      by (simp add: load_snapshot_def set_symbolic_head_def dir_ok_def dir_view_def dir_refs_def)
  next
    case False
    with assms(3) have "t = []" and h: "fst (read_head d) = []" by auto
    moreover have "read_head (d\<lparr>gd_packed := p, gd_loose := l\<rparr>) = read_head d" for p l by (simp add: read_head_def)
    ultimately show ?thesis
      using refs assms(1,2) by (simp add: load_snapshot_def dir_ok_def dir_view_def dir_refs_def)
  qed
qed

lemma head_updates_valid:
  "list_all txn_ok txns \<Longrightarrow>
   fold (\<lambda>t. fold head_update (tx_updates t)) txns h = h \<or> valid_ref_name (fold (\<lambda>t. fold head_update (tx_updates t)) txns h)"
proof (induction txns arbitrary: h)
  case (Cons t txns)
  have one: "list_all update_ok us \<Longrightarrow> fold head_update us h = h \<or> valid_ref_name (fold head_update us h)" for us h
  proof (induction us arbitrary: h)
    case (Cons u us)
    have "head_update u h = h \<or> valid_ref_name (head_update u h)"
      using Cons.prems by (auto simp: head_update_def update_ok_def)
    with Cons.IH [of "head_update u h"] Cons.prems show ?case by auto
  qed simp
  have "fold head_update (tx_updates t) h = h \<or> valid_ref_name (fold head_update (tx_updates t) h)"
    using Cons.prems by (intro one) (simp add: txn_ok_def)
  with Cons.IH [of "fold head_update (tx_updates t) h"] Cons.prems show ?case by auto
qed simp

lemma apply_txns_view:
  assumes "dir_ok d" and "list_all txn_ok txns"
  shows "\<exists>d'. apply_txns_offline txns d = (d', True) \<and> dir_ok d' \<and> dir_view d' = replay_view txns (dir_view d)"
proof -
  let ?refs = "fold (\<lambda>t rs. apply_ref_txns_offline rs (tx_updates t)) txns (dir_refs d)"
    and ?t = "fold (\<lambda>t. fold head_update (tx_updates t)) txns (fst (read_head d))"
  have d: "ref_table (dir_refs d)" "list_all wf_entry_ref (dir_refs d)"
    "fst (read_head d) = [] \<or> valid_ref_name (fst (read_head d))"
    using assms(1) by (simp_all add: dir_ok_def)
  have refs: "ref_table ?refs" "oids ?refs = fold (\<lambda>t. fold apply_oid (tx_updates t)) txns (oids (dir_refs d))"
    using replay_txns [OF d(1), of txns] by auto
  have "?t = [] \<and> fst (read_head d) = [] \<or> valid_ref_name ?t"
    using head_updates_valid [OF assms(2), of "fst (read_head d)"] d(3) by auto
  from load_snapshot_view [OF refs(1) offline_txns [OF d(1,2) assms(2)] this] refs
  show ?thesis
    by (simp add: apply_txns_offline_def snapshot_dir [OF assms(1)] Let_def sort_ref_table replay_view_def dir_view_def)
qed

section \<open>Replaying twice is replaying once\<close>

text \<open>
  A sequence of updates overwrites: for each ref it either sets one value or leaves the old one. So
  entries that are already applied may be applied again, which is what reading whole segments does.
\<close>

lemma fold_apply_oid_overwrites:
  "\<exists>c. \<forall>v. fold apply_oid us v = (\<lambda>n. case c n of None \<Rightarrow> v n | Some r \<Rightarrow> r)"
proof (induction us)
  case Nil
  then show ?case by (intro exI [of _ "\<lambda>_. None"]) simp
next
  case (Cons u us)
  then obtain c where c: "\<And>v. fold apply_oid us v = (\<lambda>n. case c n of None \<Rightarrow> v n | Some r \<Rightarrow> r)" by blast
  let ?c = "\<lambda>n. case c n of Some r \<Rightarrow> Some r
    | None \<Rightarrow> if ru_name u = ''HEAD'' \<or> n \<noteq> ru_name u then None
              else Some (if absent_oid (ru_new_oid u) then None else Some (ru_new_oid u))"
  have "fold apply_oid (u # us) v = (\<lambda>n. case ?c n of None \<Rightarrow> v n | Some r \<Rightarrow> r)" for v
    by (auto simp: c apply_oid_def fun_eq_iff split: option.split)
  then show ?case by (intro exI [of _ ?c] allI)
qed

lemma fold_head_overwrites:
  "\<exists>c. \<forall>h. fold head_update us h = (case c of None \<Rightarrow> h | Some r \<Rightarrow> r)"
proof (induction us)
  case Nil
  then show ?case by (intro exI [of _ None]) simp
next
  case (Cons u us)
  then obtain c where c: "\<And>h. fold head_update us h = (case c of None \<Rightarrow> h | Some r \<Rightarrow> r)" by blast
  let ?c = "case c of Some r \<Rightarrow> Some r
    | None \<Rightarrow> if ru_name u = ''HEAD'' \<and> ru_new_symbolic_target u \<noteq> [] then Some (ru_new_symbolic_target u) else None"
  have "fold head_update (u # us) h = (case ?c of None \<Rightarrow> h | Some r \<Rightarrow> r)" for h
    by (auto simp: c head_update_def split: option.split)
  then show ?case by (intro exI [of _ ?c] allI)
qed

lemma replay_view_append: "replay_view (a @ b) v = replay_view b (replay_view a v)"
  by (simp add: replay_view_def)

lemma fold_concat_updates: "fold (\<lambda>t. fold f (tx_updates t)) txns v = fold f (concat (map tx_updates txns)) v"
  by (induction txns arbitrary: v) simp_all

lemma replay_view_idem: "replay_view txns (replay_view txns v) = replay_view txns v"
proof -
  let ?us = "concat (map tx_updates txns)"
  obtain c where c: "\<And>v. fold apply_oid ?us v = (\<lambda>n. case c n of None \<Rightarrow> v n | Some r \<Rightarrow> r)"
    using fold_apply_oid_overwrites by metis
  obtain d where d: "\<And>h. fold head_update ?us h = (case d of None \<Rightarrow> h | Some r \<Rightarrow> r)"
    using fold_head_overwrites by metis
  show ?thesis
    by (auto simp: replay_view_def fold_concat_updates c d split: option.split)
qed

section \<open>Entries in segments\<close>

definition in_segment :: "log_segment_ref \<Rightarrow> log_entry \<Rightarrow> bool" where
  "in_segment sg e \<longleftrightarrow> sg_first_seq sg \<le> le_seq e \<and> le_seq e \<le> sg_last_seq sg"

definition in_order :: "log_entry list \<Rightarrow> bool" where
  "in_order es \<longleftrightarrow> sorted_wrt (\<lambda>a b. le_seq a < le_seq b) es"

lemma in_order_filter: "in_order es \<Longrightarrow> in_order (filter P es)"
  by (simp add: in_order_def sorted_wrt_filter)

lemma in_order_sort: "in_order es \<Longrightarrow> sort_key le_seq es = es"
  unfolding in_order_def
  by (rule sort_key_id_if_sorted) (auto simp: sorted_wrt_map intro: sorted_wrt_mono_rel [rotated])

lemma filter_split:
  assumes "in_order es" and "\<And>a b. a \<in> set es \<Longrightarrow> b \<in> set es \<Longrightarrow> P a \<Longrightarrow> Q b \<Longrightarrow> le_seq a < le_seq b"
  shows "filter (\<lambda>e. P e \<or> Q e) es = filter P es @ filter Q es"
  using assms
proof (induction es)
  case (Cons x es)
  then have IH: "filter (\<lambda>e. P e \<or> Q e) es = filter P es @ filter Q es"
    by (auto simp: in_order_def)
  have later: "le_seq x < le_seq e" if "e \<in> set es" for e using Cons.prems(1) that by (simp add: in_order_def)
  show ?case
  proof (cases "Q x")
    case True
    then have "\<not> P e" if "e \<in> set es" for e
      using Cons.prems(2) [of e x] later [OF that] that by auto
    then have "filter P es = []" by (simp add: filter_empty_conv)
    moreover have "\<not> P x" using True Cons.prems(2) [of x x] by auto
    ultimately show ?thesis using IH True by simp
  qed (use IH in simp)
qed simp

lemma filter_partition:
  assumes "in_order es" and "\<And>a b. a \<in> set es \<Longrightarrow> b \<in> set es \<Longrightarrow> P a \<Longrightarrow> \<not> P b \<Longrightarrow> le_seq a < le_seq b"
  shows "filter P es @ filter (\<lambda>e. \<not> P e) es = es"
proof -
  have "filter (\<lambda>e. P e \<or> \<not> P e) es = filter P es @ filter (\<lambda>e. \<not> P e) es"
    by (rule filter_split [OF assms(1)]) (use assms(2) in blast)
  then show ?thesis by simp
qed

lemma concat_segments:
  assumes "in_order hist" and "sorted_wrt (\<lambda>a b. sg_last_seq a < sg_first_seq b) sgs"
  shows "concat (map (\<lambda>sg. filter (in_segment sg) hist) sgs) = filter (\<lambda>e. \<exists>sg \<in> set sgs. in_segment sg e) hist"
  using assms(2)
proof (induction sgs)
  case (Cons sg sgs)
  have "filter (\<lambda>e. in_segment sg e \<or> (\<exists>s \<in> set sgs. in_segment s e)) hist
      = filter (in_segment sg) hist @ filter (\<lambda>e. \<exists>s \<in> set sgs. in_segment s e) hist"
    by (rule filter_split [OF assms(1)]) (use Cons.prems in \<open>fastforce simp: in_segment_def\<close>)
  with Cons show ?case by simp
qed simp

lemma entry_txns_append: "entry_txns (a @ b) = entry_txns a @ entry_txns b"
  by (simp add: entry_txns_def)

text \<open>
  Replaying the segments that overlap what is missing, over a state that has everything up to
  \<open>n\<close>, gives the whole history, although the first segment may repeat applied entries.
\<close>

lemma replay_overlap:
  assumes "in_order hist" and "sorted_wrt (\<lambda>a b. sg_last_seq a < sg_first_seq b) sgs"
    and over: "\<forall>sg \<in> set sgs. n < sg_last_seq sg"
    and cover: "\<forall>e \<in> set hist. n < le_seq e \<longrightarrow> (\<exists>sg \<in> set sgs. in_segment sg e)"
  shows "replay_view (entry_txns (filter (\<lambda>e. \<exists>sg \<in> set sgs. in_segment sg e) hist))
      (replay_view (entry_txns (filter (\<lambda>e. le_seq e \<le> n) hist)) v) = replay_view (entry_txns hist) v"
proof -
  let ?P = "\<lambda>e. \<exists>sg \<in> set sgs. in_segment sg e" and ?N = "\<lambda>e. le_seq e \<le> n"
  have up: "?P b" if a: "?P a" and "b \<in> set hist" and "le_seq a \<le> le_seq b" for a b
  proof (cases "?N b")
    case True
    obtain sg where "sg \<in> set sgs" and "in_segment sg a" using a by blast
    with True \<open>le_seq a \<le> le_seq b\<close> over have "in_segment sg b" by (fastforce simp: in_segment_def)
    with \<open>sg \<in> set sgs\<close> show ?thesis by blast
  qed (use cover \<open>b \<in> set hist\<close> in auto)
  have old: "?N a" if "a \<in> set hist" "\<not> ?P a" for a using cover that by (meson not_le_imp_less)
  have hist: "hist = filter (\<lambda>e. \<not> ?P e) hist @ filter ?P hist"
  proof -
    have "le_seq a < le_seq b" if "b \<in> set hist" "a \<in> set hist" "\<not> ?P a" "?P b" for a b
      using up [OF that(4,2)] that(3) by (meson not_le_imp_less)
    then show ?thesis using filter_partition [OF assms(1), of "\<lambda>e. \<not> ?P e"] by simp
  qed
  let ?F = "filter ?P hist"
  have F: "?F = filter ?N ?F @ filter (\<lambda>e. \<not> ?N e) ?F"
    by (rule filter_partition [OF in_order_filter [OF assms(1)], symmetric]) auto
  have "filter ?N hist = filter ?N (filter (\<lambda>e. \<not> ?P e) hist) @ filter ?N ?F"
    by (subst hist) simp
  also have "filter ?N (filter (\<lambda>e. \<not> ?P e) hist) = filter (\<lambda>e. \<not> ?P e) hist"
    using old by (auto intro!: filter_cong simp: filter_filter)
  finally have N: "filter ?N hist = filter (\<lambda>e. \<not> ?P e) hist @ filter ?N ?F" .
  have "replay_view (entry_txns ?F) (replay_view (entry_txns (filter ?N hist)) v)
      = replay_view (entry_txns (filter (\<lambda>e. \<not> ?N e) ?F)) (replay_view (entry_txns (filter ?N ?F))
          (replay_view (entry_txns (filter ?N ?F)) (replay_view (entry_txns (filter (\<lambda>e. \<not> ?P e) hist)) v)))"
    by (subst F, subst N) (simp only: entry_txns_append replay_view_append)
  also have "\<dots> = replay_view (entry_txns (filter (\<lambda>e. \<not> ?P e) hist @ (filter ?N ?F @ filter (\<lambda>e. \<not> ?N e) ?F))) v"
    by (simp only: replay_view_idem entry_txns_append replay_view_append)
  also have "\<dots> = replay_view (entry_txns hist) v"
    by (simp only: F [symmetric] hist [symmetric])
  finally show ?thesis .
qed

section \<open>The engine on a store that keeps its contract\<close>

text \<open>What the bucket of a repository promises a reader of manifest \<open>m\<close>: the log of \<open>hist\<close>.\<close>

definition entry_ok :: "log_entry \<Rightarrow> bool" where
  "entry_ok e \<longleftrightarrow> (case le_txn e of None \<Rightarrow> True | Some t \<Rightarrow> txn_ok t)"

definition snapshot_ok :: "ref_snapshot \<Rightarrow> bool" where
  "snapshot_ok sn \<longleftrightarrow>
     ref_table (map ref_entry_of (sn_refs sn)) \<and> list_all wf_entry_ref (map ref_entry_of (sn_refs sn))
     \<and> valid_ref_name (sn_head_target sn)"

definition snapshot_view :: "ref_snapshot \<Rightarrow> (string \<Rightarrow> string option) \<times> string" where
  "snapshot_view sn = (oids (map ref_entry_of (sn_refs sn)), sn_head_target sn)"

definition upto :: "u64 \<Rightarrow> log_entry list \<Rightarrow> log_entry list" where
  "upto n hist = filter (\<lambda>e. le_seq e \<le> n) hist"

definition base_seq :: "manifest \<Rightarrow> u64" where
  "base_seq m = (case mf_checkpoint m of None \<Rightarrow> 0 | Some cp \<Rightarrow> cr_seq cp)"

definition log_stored :: "(string \<Rightarrow> (version \<times> bytes) option) \<Rightarrow> string \<Rightarrow> manifest \<Rightarrow> log_entry list \<Rightarrow> bool" where
  "log_stored lk rid m hist \<longleftrightarrow>
     in_order hist \<and> list_all (\<lambda>e. le_seq e \<le> mf_head_seq m \<and> entry_ok e) hist \<and> log_ok m
     \<and> (\<forall>sg \<in> set (mf_log_segments m). \<exists>v b n.
          lk (repo_key rid (sg_key sg)) = Some (v, b) \<and> decode_entries b = (n, None, filter (in_segment sg) hist))
     \<and> (\<forall>e \<in> set hist. base_seq m < le_seq e \<longrightarrow> (\<exists>sg \<in> set (mf_log_segments m). in_segment sg e))"

definition checkpoint_stored ::
  "(string \<Rightarrow> (version \<times> bytes) option) \<Rightarrow> string \<Rightarrow> manifest \<Rightarrow> log_entry list \<Rightarrow> (string \<Rightarrow> string option) \<times> string \<Rightarrow> bool" where
  "checkpoint_stored lk rid m hist v0 \<longleftrightarrow>
     (case mf_checkpoint m of
        None \<Rightarrow> True
      | Some cp \<Rightarrow> cr_seq cp \<le> mf_head_seq m
          \<and> (\<exists>v b sn. lk (repo_key rid (checkpoint_refs_key (cr_seq cp))) = Some (v, b) \<and> decode_ref_snapshot b = Inr sn
               \<and> sn_seq sn = cr_seq cp \<and> snapshot_ok sn \<and> snapshot_view sn = replay_view (entry_txns (upto (cr_seq cp) hist)) v0))"

definition local_at :: "git_dir \<Rightarrow> log_entry list \<Rightarrow> (string \<Rightarrow> string option) \<times> string \<Rightarrow> bool" where
  "local_at d es v0 \<longleftrightarrow> dir_ok d \<and> dir_view d = replay_view (entry_txns es) v0"

lemma entry_txns_ok: "list_all entry_ok es \<Longrightarrow> list_all txn_ok (entry_txns es)"
  by (auto simp: entry_txns_def entry_ok_def list_all_iff split: option.splits if_splits)

lemma note_frame [simp]:
  "h_dir (note_checkpoint_ref cp h) = h_dir h" "h_manifest (note_checkpoint_ref cp h) = h_manifest h"
  "h_id (note_checkpoint_ref cp h) = h_id h" "h_version (note_checkpoint_ref cp h) = h_version h"
  "h_state (note_checkpoint_ref cp h) = h_state h" "h_held_rev (note_checkpoint_ref cp h) = h_held_rev h"
  by (auto simp: note_checkpoint_ref_def note_checkpoint_def split: option.split)

lemma replay_entry_frame [simp]:
  "h_dir (replay_entry e h) = h_dir h" "h_manifest (replay_entry e h) = h_manifest h"
  "h_id (replay_entry e h) = h_id h" "h_version (replay_entry e h) = h_version h"
  "h_held_rev (replay_entry e h) = h_held_rev h"
  "rs_applied_seq (h_state (replay_entry e h)) = rs_applied_seq (h_state h)"
  by (auto simp: replay_entry_def note_entry_time_def add_removals_def update_state_def Let_def split: option.split)

lemma fold_replay_frame:
  "h_dir (fold replay_entry es h) = h_dir h" "h_manifest (fold replay_entry es h) = h_manifest h"
  "h_id (fold replay_entry es h) = h_id h" "h_version (fold replay_entry es h) = h_version h"
  "h_held_rev (fold replay_entry es h) = h_held_rev h"
  by (induction es arbitrary: h) simp_all

lemma replay_entries_view:
  assumes "dir_ok (h_dir h)" and "list_all entry_ok es"
  shows "\<exists>h'. replay_entries es h = (h', None) \<and> dir_ok (h_dir h') \<and> dir_view (h_dir h') = replay_view (entry_txns es) (dir_view (h_dir h))
    \<and> h_manifest h' = h_manifest h \<and> h_id h' = h_id h \<and> h_version h' = h_version h \<and> h_held_rev h' = h_held_rev h"
proof (cases "entry_txns es = []")
  case True
  with assms(1) show ?thesis by (simp add: replay_entries_def Let_def fold_replay_frame replay_view_def)
next
  case False
  obtain d' where "apply_txns_offline (entry_txns es) (h_dir h) = (d', True)" and "dir_ok d'"
    and "dir_view d' = replay_view (entry_txns es) (dir_view (h_dir h))"
    using apply_txns_view [OF assms(1) entry_txns_ok [OF assms(2)]] by blast
  with False show ?thesis by (simp add: replay_entries_def Let_def fold_replay_frame)
qed

locale engine_store =
  object_store "sa_get api" "\<lambda>k b. sa_put api k (bytes_body b)" "sa_delete api" look used inv room key_ok
  for api :: "'s store_api" and look used inv room key_ok +
  assumes head_law: "inv s \<Longrightarrow> sa_head api k s = (s', r) \<Longrightarrow>
      inv s' \<and> look s' = look s \<and> used s' = used s \<and> (\<forall>n. room n s \<longrightarrow> room n s')
      \<and> r = Inr (map_option (\<lambda>(v, b). \<lparr>om_key = k, om_size = int (length b), om_version = v\<rparr>) (look s k))"
begin

lemma get_bytes_present:
  assumes "inv s" and "look s k = Some (v, b)"
  shows "\<exists>s'. get_bytes api k get_default s = (s', Inr (Some b, \<lparr>om_key = k, om_size = int (length b), om_version = v\<rparr>))
    \<and> inv s' \<and> look s' = look s \<and> used s' = used s \<and> (\<forall>n. room n s \<longrightarrow> room n s')"
proof -
  obtain s' r where r: "sa_get api k get_default s = (s', r)" by (cases "sa_get api k get_default s")
  have "v \<noteq> []" using look_used assms by blast
  moreover have "get_default\<lparr>go_if_none_match := []\<rparr> = get_default" by (simp add: get_default_def)
  ultimately have "snd (sa_get api k get_default s) = Inr (Object \<lparr>om_key = k, om_size = int (length b), om_version = v\<rparr> b)"
    using get_changed [OF assms, of "[]"] by simp
  with r get_frame [OF assms(1) r] show ?thesis by (simp add: get_bytes_def)
qed

lemma get_bytes_absent:
  assumes "inv s" and "look s k = None"
  shows "\<exists>s' e. get_bytes api k get_default s = (s', Inl e) \<and> is_not_found e
    \<and> inv s' \<and> look s' = look s \<and> used s' = used s \<and> (\<forall>n. room n s \<longrightarrow> room n s')"
proof -
  obtain s' r where r: "sa_get api k get_default s = (s', r)" by (cases "sa_get api k get_default s")
  with get_absent [OF assms, of get_default] get_frame [OF assms(1) r] show ?thesis by (auto simp: get_bytes_def)
qed

lemma fetch_segments_read:
  assumes "inv s" and "\<forall>sg \<in> set sgs. \<exists>v b n. look s (repo_key rid (sg_key sg)) = Some (v, b) \<and> decode_entries b = (n, None, f sg)"
  shows "\<exists>s'. fetch_segments api rid sgs s = (s', Inr (concat (map f sgs)))
    \<and> inv s' \<and> look s' = look s \<and> (\<forall>n. room n s \<longrightarrow> room n s')"
  using assms
proof (induction sgs arbitrary: s)
  case (Cons sg sgs)
  then obtain v b n where b: "look s (repo_key rid (sg_key sg)) = Some (v, b)" "decode_entries b = (n, None, f sg)" by auto
  obtain s1 where s1: "get_bytes api (repo_key rid (sg_key sg)) get_default s
      = (s1, Inr (Some b, \<lparr>om_key = repo_key rid (sg_key sg), om_size = int (length b), om_version = v\<rparr>))"
    "inv s1" "look s1 = look s" "\<forall>n. room n s \<longrightarrow> room n s1"
    using get_bytes_present [OF Cons.prems(1) b(1)] by blast
  with Cons.IH [of s1] Cons.prems(2) b(2) show ?case by auto
qed simp

lemma replay_tail_view:
  assumes "inv s" and stored: "log_stored (look s) (h_id h) (h_manifest h) hist"
    and "local_at (h_dir h) (upto (rs_applied_seq (h_state h)) hist) v0"
    and "rs_applied_seq (h_state h) \<le> mf_head_seq (h_manifest h)" and "base_seq (h_manifest h) \<le> rs_applied_seq (h_state h)"
  shows "\<exists>s' h'. replay_tail api s h = (s', h', None) \<and> inv s' \<and> look s' = look s \<and> (\<forall>n. room n s \<longrightarrow> room n s')
    \<and> local_at (h_dir h') hist v0 \<and> rs_applied_seq (h_state h') = mf_head_seq (h_manifest h)
    \<and> h_manifest h' = h_manifest h \<and> h_id h' = h_id h \<and> h_version h' = h_version h \<and> h_held_rev h' = h_held_rev h"
proof -
  let ?m = "h_manifest h" and ?n = "rs_applied_seq (h_state h)"
  let ?sgs = "filter (\<lambda>sg. ?n < sg_last_seq sg \<and> sg_first_seq sg \<le> mf_head_seq ?m) (mf_log_segments ?m)"
  have order: "in_order hist" and ok: "list_all entry_ok hist" and "log_ok ?m"
    and bound: "\<forall>e \<in> set hist. le_seq e \<le> mf_head_seq ?m"
    using stored by (auto simp: log_stored_def list_all_iff)
  then have sorted: "sorted_wrt (\<lambda>a b. sg_last_seq a < sg_first_seq b) ?sgs"
    by (simp add: log_ok_def sorted_wrt_filter)
  have over: "\<forall>sg \<in> set ?sgs. ?n < sg_last_seq sg" by simp
  have cover: "\<forall>e \<in> set hist. ?n < le_seq e \<longrightarrow> (\<exists>sg \<in> set ?sgs. in_segment sg e)"
  proof (intro ballI impI)
    fix e assume e: "e \<in> set hist" "?n < le_seq e"
    then have "base_seq ?m < le_seq e" using assms(5) by simp
    then obtain sg where sg: "sg \<in> set (mf_log_segments ?m)" "in_segment sg e"
      using stored e(1) by (auto simp: log_stored_def)
    then have "?n < sg_last_seq sg" and "sg_first_seq sg \<le> mf_head_seq ?m"
      using e(2) bound e(1) by (auto simp: in_segment_def intro: order.trans)
    with sg show "\<exists>sg \<in> set ?sgs. in_segment sg e" by auto
  qed
  show ?thesis
  proof (cases "?sgs = []")
    case True
    with cover have "upto ?n hist = hist"
      by (auto simp: upto_def filter_id_conv not_le_imp_less)
    with assms True show ?thesis by (auto simp: replay_tail_def Let_def update_state_def caught_up_def)
  next
    case False
    let ?F = "filter (\<lambda>e. \<exists>sg \<in> set ?sgs. in_segment sg e) hist"
    have "\<forall>sg \<in> set ?sgs. \<exists>v b n. look s (repo_key (h_id h) (sg_key sg)) = Some (v, b)
        \<and> decode_entries b = (n, None, filter (in_segment sg) hist)"
      using stored by (simp add: log_stored_def)
    from fetch_segments_read [OF assms(1) this] obtain s' where s': "fetch_segments api (h_id h) ?sgs s = (s', Inr ?F)"
      "inv s'" "look s' = look s" "\<forall>n. room n s \<longrightarrow> room n s'"
      unfolding concat_segments [OF order sorted] by blast
    have "list_all entry_ok ?F" using ok by (auto simp: list_all_iff)
    moreover have "dir_ok (h_dir h)" using assms(3) by (simp add: local_at_def)
    ultimately obtain h' where h': "replay_entries ?F h = (h', None)" "dir_ok (h_dir h')"
      "dir_view (h_dir h') = replay_view (entry_txns ?F) (dir_view (h_dir h))"
      "h_manifest h' = ?m" "h_id h' = h_id h" "h_version h' = h_version h" "h_held_rev h' = h_held_rev h"
      using replay_entries_view [of h ?F] by blast
    have "dir_view (h_dir h') = replay_view (entry_txns hist) v0"
      using h'(3) assms(3) replay_overlap [OF order sorted over cover, of v0] by (simp add: local_at_def upto_def)
    moreover have "replay_tail api s h = (s', update_state (caught_up ?m) h', None)"
      using False s'(1) h'(1) in_order_sort [OF in_order_filter [OF order]] by (simp add: replay_tail_def Let_def)
    ultimately show ?thesis using s' h' by (simp add: update_state_def caught_up_def local_at_def)
  qed
qed

end

lemma adopt_manifest_keeps:
  "adopt_manifest body v h = (h', e) \<Longrightarrow>
   h_manifest h' = h_manifest h \<and> h_held_rev h' = h_held_rev h
   \<or> h_held_rev h' = mf_revision (h_manifest h') \<and> h_held_rev h < h_held_rev h'"
  by (auto simp: adopt_manifest_def not_le note_checkpoint_ref_def note_checkpoint_def split: sum.splits if_splits option.splits)

context engine_store
begin

lemma fold_checkpoint_view:
  assumes "inv s" and "mf_checkpoint (h_manifest h) = Some cp"
    and "checkpoint_stored (look s) (h_id h) (h_manifest h) hist v0"
  shows "\<exists>s' h'. fold_checkpoint api cp s h = (s', h', None) \<and> inv s' \<and> look s' = look s \<and> (\<forall>n. room n s \<longrightarrow> room n s')
    \<and> local_at (h_dir h') (upto (cr_seq cp) hist) v0 \<and> rs_applied_seq (h_state h') = cr_seq cp
    \<and> h_manifest h' = h_manifest h \<and> h_id h' = h_id h \<and> h_version h' = h_version h \<and> h_held_rev h' = h_held_rev h"
proof -
  obtain v b sn where b: "look s (repo_key (h_id h) (checkpoint_refs_key (cr_seq cp))) = Some (v, b)" "decode_ref_snapshot b = Inr sn"
    "snapshot_ok sn" "snapshot_view sn = replay_view (entry_txns (upto (cr_seq cp) hist)) v0"
    using assms(2,3) by (auto simp: checkpoint_stored_def)
  obtain s' where s': "get_bytes api (repo_key (h_id h) (checkpoint_refs_key (cr_seq cp))) get_default s
      = (s', Inr (Some b, \<lparr>om_key = repo_key (h_id h) (checkpoint_refs_key (cr_seq cp)), om_size = int (length b), om_version = v\<rparr>))"
    "inv s'" "look s' = look s" "\<forall>n. room n s \<longrightarrow> room n s'"
    using get_bytes_present [OF assms(1) b(1)] by blast
  obtain d where "load_snapshot (h_dir h) (map ref_entry_of (sn_refs sn)) (sn_head_target sn) [] = (d, True)" "dir_ok d"
    "dir_view d = (oids (map ref_entry_of (sn_refs sn)), sn_head_target sn)"
    using load_snapshot_view [of "map ref_entry_of (sn_refs sn)" "sn_head_target sn" "h_dir h"] b(3) by (auto simp: snapshot_ok_def)
  with s' b show ?thesis
    by (simp add: fold_checkpoint_def update_state_def local_at_def snapshot_view_def)
qed

text \<open>
  From any point the local refs have reached, \<open>apply_delta\<close> brings them to the head, through the
  checkpoint when it is ahead.
\<close>

lemma apply_delta_view:
  assumes "inv s" and "log_stored (look s) (h_id h) (h_manifest h) hist"
    and "checkpoint_stored (look s) (h_id h) (h_manifest h) hist v0"
    and "local_at (h_dir h) (upto (rs_applied_seq (h_state h)) hist) v0"
    and "rs_applied_seq (h_state h) \<le> mf_head_seq (h_manifest h)"
  shows "\<exists>s' h'. apply_delta api s h = (s', h', None) \<and> inv s' \<and> look s' = look s \<and> (\<forall>n. room n s \<longrightarrow> room n s')
    \<and> local_at (h_dir h') hist v0 \<and> rs_applied_seq (h_state h') = mf_head_seq (h_manifest h)
    \<and> h_manifest h' = h_manifest h \<and> h_id h' = h_id h \<and> h_version h' = h_version h \<and> h_held_rev h' = h_held_rev h"
proof (cases "base_seq (h_manifest h) \<le> rs_applied_seq (h_state h)")
  case True
  then have "apply_delta api s h = replay_tail api s h"
    by (auto simp: apply_delta_def base_seq_def split: option.split)
  with replay_tail_view [OF assms(1,2,4,5) True] show ?thesis by simp
next
  case False
  then obtain cp where cp: "mf_checkpoint (h_manifest h) = Some cp" "rs_applied_seq (h_state h) < cr_seq cp"
    by (auto simp: base_seq_def not_le split: option.splits)
  from fold_checkpoint_view [OF assms(1) cp(1) assms(3)] obtain s1 h1 where
    c: "fold_checkpoint api cp s h = (s1, h1, None)" "inv s1" "look s1 = look s" "\<forall>n. room n s \<longrightarrow> room n s1"
    "local_at (h_dir h1) (upto (cr_seq cp) hist) v0" "rs_applied_seq (h_state h1) = cr_seq cp"
    "h_manifest h1 = h_manifest h" "h_id h1 = h_id h" "h_version h1 = h_version h" "h_held_rev h1 = h_held_rev h"
    by blast
  have "cr_seq cp \<le> mf_head_seq (h_manifest h)" using assms(3) cp(1) by (simp add: checkpoint_stored_def)
  then have "\<exists>s' h'. replay_tail api s1 h1 = (s', h', None) \<and> inv s' \<and> look s' = look s1 \<and> (\<forall>n. room n s1 \<longrightarrow> room n s')
    \<and> local_at (h_dir h') hist v0 \<and> rs_applied_seq (h_state h') = mf_head_seq (h_manifest h1)
    \<and> h_manifest h' = h_manifest h1 \<and> h_id h' = h_id h1 \<and> h_version h' = h_version h1 \<and> h_held_rev h' = h_held_rev h1"
    by (intro replay_tail_view) (use assms(2) c cp(1) in \<open>simp_all add: base_seq_def\<close>)
  with c cp show ?thesis by (auto simp: apply_delta_def)
qed

text \<open>
  Refreshing adopts the stored manifest when the handle holds it already, or an older revision.
\<close>

lemma freshen_view:
  assumes "inv s" and "look s (manifest_key (h_id h)) = Some (v, b)" and "decode_manifest b = Inr m"
    and "v = h_version h \<and> m = h_manifest h \<or> v \<noteq> h_version h \<and> h_held_rev h < mf_revision m"
  shows "\<exists>s1 h1. freshen_manifest api s h = (s1, h1, None) \<and> inv s1 \<and> look s1 = look s \<and> (\<forall>n. room n s \<longrightarrow> room n s1)
      \<and> h_manifest h1 = m \<and> h_version h1 = v \<and> h_id h1 = h_id h \<and> h_dir h1 = h_dir h \<and> h_state h1 = h_state h
      \<and> (v = h_version h \<longrightarrow> h1 = h)"
proof -
  let ?k = "manifest_key (h_id h)"
  have v: "v \<noteq> []" using look_used assms(1,2) by blast
  show ?thesis
  proof (cases "h_version h = []")
    case True
    obtain s1 where "get_bytes api ?k get_default s = (s1, Inr (Some b, \<lparr>om_key = ?k, om_size = int (length b), om_version = v\<rparr>))"
      "inv s1" "look s1 = look s" "\<forall>n. room n s \<longrightarrow> room n s1"
      using get_bytes_present [OF assms(1,2)] by blast
    moreover have "\<not> mf_revision m \<le> h_held_rev h" using assms(4) v True by auto
    ultimately show ?thesis using True assms(3) v by (simp add: freshen_manifest_def Let_def adopt_manifest_def)
  next
    case False
    obtain s1 r where r: "sa_get api ?k (get_default\<lparr>go_if_none_match := h_version h\<rparr>) s = (s1, r)"
      by (cases "sa_get api ?k (get_default\<lparr>go_if_none_match := h_version h\<rparr>) s")
    note frame = get_frame [OF assms(1) r]
    show ?thesis
    proof (cases "v = h_version h")
      case True
      with r get_unchanged [OF assms(1,2)] have "r = Inr (NotModified v)" by simp
      with True False r frame assms(4) show ?thesis by (simp add: freshen_manifest_def Let_def)
    next
      case other: False
      then have "snd (sa_get api ?k (get_default\<lparr>go_if_none_match := h_version h\<rparr>) s)
          = Inr (Object \<lparr>om_key = ?k, om_size = int (length b), om_version = v\<rparr> b)"
        by (intro get_changed [OF assms(1,2)]) simp
      with r have "r = Inr (Object \<lparr>om_key = ?k, om_size = int (length b), om_version = v\<rparr> b)" by simp
      moreover have "\<not> mf_revision m \<le> h_held_rev h" using assms(4) other by auto
      ultimately show ?thesis using other False r frame assms(3) by (simp add: freshen_manifest_def Let_def adopt_manifest_def)
    qed
  qed
qed

lemma sync_refs_view:
  assumes "inv s" and "look s (manifest_key (h_id h)) = Some (v, b)" and "decode_manifest b = Inr m"
    and "v = h_version h \<and> m = h_manifest h \<or> v \<noteq> h_version h \<and> h_held_rev h < mf_revision m"
    and "log_stored (look s) (h_id h) m hist" and "checkpoint_stored (look s) (h_id h) m hist v0"
    and "local_at (h_dir h) (upto (rs_applied_seq (h_state h)) hist) v0" and "rs_applied_seq (h_state h) \<le> mf_head_seq m"
  shows "\<exists>s' h'. sync_refs api s h = (s', h', None) \<and> inv s' \<and> look s' = look s \<and> (\<forall>n. room n s \<longrightarrow> room n s')
    \<and> local_at (h_dir h') hist v0 \<and> rs_applied_seq (h_state h') = mf_head_seq m
    \<and> h_manifest h' = m \<and> h_version h' = v \<and> h_id h' = h_id h"
proof -
  obtain s1 h1 where f: "freshen_manifest api s h = (s1, h1, None)" "inv s1" "look s1 = look s"
    "\<forall>n. room n s \<longrightarrow> room n s1" "h_manifest h1 = m" "h_version h1 = v" "h_id h1 = h_id h" "h_dir h1 = h_dir h" "h_state h1 = h_state h"
    using freshen_view [OF assms(1-4)] by blast
  then have "\<exists>s' h'. apply_delta api s1 h1 = (s', h', None) \<and> inv s' \<and> look s' = look s1 \<and> (\<forall>n. room n s1 \<longrightarrow> room n s')
    \<and> local_at (h_dir h') hist v0 \<and> rs_applied_seq (h_state h') = mf_head_seq (h_manifest h1)
    \<and> h_manifest h' = h_manifest h1 \<and> h_id h' = h_id h1 \<and> h_version h' = h_version h1 \<and> h_held_rev h' = h_held_rev h1"
    by (intro apply_delta_view) (use assms(5,6,7,8) in simp_all)
  with f show ?thesis by (auto simp: sync_refs_def)
qed

end

interpretation memory_engine: engine_store mem_api mem_look mem_used mem_inv mem_room "\<lambda>k. k \<noteq> []"
proof -
  have ops: "sa_get mem_api = mem_get" "(\<lambda>k b. sa_put mem_api k (bytes_body b)) = mem_put_bytes" "sa_delete mem_api = mem_delete"
    by (simp_all add: mem_api_def mem_put_bytes_def fun_eq_iff)
  show "engine_store mem_api mem_look mem_used mem_inv mem_room (\<lambda>k. k \<noteq> [])"
  proof (rule engine_store.intro)
    show "object_store (sa_get mem_api) (\<lambda>k b. sa_put mem_api k (bytes_body b)) (sa_delete mem_api) mem_look mem_used mem_inv mem_room (\<lambda>k. k \<noteq> [])"
      unfolding ops by (rule mem.object_store_axioms)
    show "engine_store_axioms mem_api mem_look mem_used mem_inv mem_room"
      by unfold_locales (auto simp: mem_api_def mem_head_def mem_look_def Let_def split: option.splits)
  qed
qed

section \<open>A small repository\<close>

text \<open>One committed ref update, in the memory backend, and a handle that has seen nothing.\<close>

definition sample_oid :: string where
  "sample_oid = ''0123456789abcdef0123456789abcdef01234567''"

definition sample_update :: ref_update where
  "sample_update = \<lparr>ru_name = ''refs/heads/a'', ru_old_oid = [], ru_new_oid = sample_oid,
     ru_new_symbolic_target = [], ru_new_peeled = []\<rparr>"

definition sample_entry :: log_entry where
  "sample_entry = log_entry_zero\<lparr>le_seq := 1, le_kind := entry_kind_ref_update,
     le_txn := Some \<lparr>tx_updates = [sample_update], tx_push_options = [], tx_atomic = False\<rparr>\<rparr>"

definition sample_manifest :: manifest where
  "sample_manifest = manifest_zero\<lparr>mf_head_seq := 1, mf_revision := 1,
     mf_log_segments := [\<lparr>sg_key = log_segment_key 1, sg_first_seq = 1, sg_last_seq = 1, sg_size = 1, sg_sealed = True\<rparr>]\<rparr>"

definition sample_store :: memory where
  "sample_store =
     \<lparr>mem_objs = [(manifest_key ''o/r'', \<lparr>mo_data = marshal_manifest sample_manifest, mo_version = decimal 2, mo_content_type = []\<rparr>),
                 (repo_key ''o/r'' (log_segment_key 1), \<lparr>mo_data = encode_segment [sample_entry], mo_version = decimal 1, mo_content_type = []\<rparr>)],
      mem_counter = 2, mem_ops = 0\<rparr>"

definition sample_dir :: git_dir where
  "sample_dir = \<lparr>gd_packed = [], gd_loose = [], gd_head = Some (''ref: refs/heads/main'' @ [CHR 0x0A])\<rparr>"

definition sample_state :: repo_state where
  "sample_state = \<lparr>rs_manifest_version = [], rs_applied_seq = 0, rs_revision = 0, rs_packs_revision = 0,
     rs_pending_pack_removals = [], rs_remote_served = []\<rparr>"

definition sample_handle :: repo_handle where
  "sample_handle = new_handle ''i'' ''o/r'' manifest_zero [] sample_dir sample_state"

lemma sample_fields:
  "mf_checkpoint sample_manifest = None" "mf_revision sample_manifest = 1" "mf_head_seq sample_manifest = 1" "le_seq sample_entry = 1"
  by (simp_all add: sample_manifest_def manifest_zero_def sample_entry_def)

lemma sample_keys: "manifest_key ''o/r'' = ''repos/o/r/manifest.pb''" "repo_key ''o/r'' k = ''repos/o/r/'' @ k"
  by (simp_all add: manifest_key_def repo_key_def cut2_def cut_char_def store_prefix_def manifest_pb_def)

lemma sample_segment_key: "repo_key ''o/r'' (log_segment_key n) \<noteq> manifest_key ''o/r''"
  by (simp add: sample_keys log_segment_key_def)

lemma sample_look:
  "mem_look sample_store (manifest_key ''o/r'') = Some (decimal 2, marshal_manifest sample_manifest)"
  "mem_look sample_store (repo_key ''o/r'' (log_segment_key 1)) = Some (decimal 1, encode_segment [sample_entry])"
  using sample_segment_key [of 1] by (simp_all add: sample_store_def mem_look_def get_locked_def)

lemma sample_inv: "mem_inv sample_store"
  using sample_segment_key [of 1]
  by (simp add: sample_store_def mem_inv_def mem_used_def undecimal_decimal sample_keys)

lemma sample_wf_entry: "wf_entry sample_entry"
  using uvarint_len_le [of 1] uvarint_len_le [of 3]
  by (simp add: wf_entry_def max_frame_bytes_def wf_log_entry_def sample_entry_def log_entry_zero_def size_log_entry_def sz_defs
      wf_str_def bytes_of_def byte_of_char_def wf_map_def sz_map_def sorted_keys_def wf_ref_transaction_def size_ref_transaction_def
      wf_ref_update_def size_ref_update_def sample_update_def sample_oid_def Let_def)

lemma sample_canon: "canon_log_entry sample_entry = sample_entry"
  by (simp add: canon_log_entry_def sample_entry_def log_entry_zero_def canon_time_def canon_map_def sorted_keys_def)

lemma utf8_ascii: "\<forall>b \<in> set bs. b < 0x80 \<Longrightarrow> utf8_valid bs"
  by (induction bs) simp_all

lemma hex_digit_ascii: "d < 16 \<Longrightarrow> byte_of_char (hex_digit d) < 0x80"
  by (simp add: hex_digit_def byte_of_char_def word_less_nat_alt unat_of_nat)

lemma hex_fixed_ascii: "c \<in> set (hex_fixed k n) \<Longrightarrow> byte_of_char c < 0x80"
  by (induction k n rule: hex_fixed.induct) (auto simp: hex_digit_ascii)

lemma length_log_segment_key: "length (log_segment_key n) = 23"
  by (simp add: log_segment_key_def)

lemma wf_log_segment_key: "wf_str (log_segment_key n)"
proof -
  have "byte_of_char c < 0x80" if "c \<in> set (log_segment_key n)" for c
    using that hex_fixed_ascii by (auto simp: log_segment_key_def hex16_def byte_of_char_def)
  then have "utf8_valid (bytes_of (log_segment_key n))" by (intro utf8_ascii) (auto simp: bytes_of_def)
  then show ?thesis by (simp add: wf_str_def log_segment_key_def)
qed

lemma sample_wf_manifest: "wf_manifest sample_manifest"
  using uvarint_len_le [of 1]
  by (simp add: wf_manifest_def sample_manifest_def manifest_zero_def size_manifest_def sz_defs wf_str_def bytes_of_def
      size_log_segment_ref_def wf_log_segment_ref_def length_log_segment_key wf_log_segment_key [unfolded wf_str_def bytes_of_def])

lemma sample_decode:
  "decode_manifest (marshal_manifest sample_manifest) = Inr sample_manifest"
  "decode_entries (encode_segment [sample_entry]) = (1, None, [sample_entry])"
proof -
  have "canon_manifest sample_manifest = sample_manifest"
    by (simp add: canon_manifest_def sample_manifest_def manifest_zero_def canon_time_def)
  then show "decode_manifest (marshal_manifest sample_manifest) = Inr sample_manifest"
    using marshal_roundtrip(1) [OF sample_wf_manifest] by simp
  show "decode_entries (encode_segment [sample_entry]) = (1, None, [sample_entry])"
    using decode_entries_frames [where es = "[sample_entry]" and rest = "[]" and n = 0 and st = "[]"] sample_wf_entry
    by (simp add: decode_entries_def encode_segment_frames sample_canon decode_frames_Nil)
qed

lemma sample_txn_ok: "entry_ok sample_entry"
proof -
  have "valid_ref_name ''refs/heads/a''" and "valid_oid sample_oid"
    unfolding sample_oid_def by code_simp+
  then show ?thesis
    by (simp add: entry_ok_def sample_entry_def txn_ok_def update_ok_def sample_update_def valid_ref_update_def log_entry_zero_def)
qed

lemma sample_log: "log_stored (mem_look sample_store) ''o/r'' sample_manifest [sample_entry]"
  using sample_look(2) sample_decode(2) sample_txn_ok
  by (simp add: log_stored_def in_order_def sample_manifest_def manifest_zero_def log_ok_def base_seq_def in_segment_def
      sample_entry_def log_entry_zero_def)

lemma sample_dir_ok: "dir_ok sample_dir"
  "dir_view sample_dir = (\<lambda>_. None, ''refs/heads/main'')"
proof -
  have "read_head sample_dir = (''refs/heads/main'', [])" and "valid_ref_name ''refs/heads/main''"
    unfolding sample_dir_def by code_simp+
  moreover have "dir_refs sample_dir = []" by (simp add: dir_refs_def sample_dir_def parse_packed_refs_def)
  ultimately show "dir_ok sample_dir" "dir_view sample_dir = (\<lambda>_. None, ''refs/heads/main'')"
    by (simp_all add: dir_ok_def dir_view_def ref_table_def fun_eq_iff) (simp add: sample_dir_def)
qed

section \<open>Properties\<close>

text \<open>
  C5: Syncing reaches the head. Let the bucket hold a manifest newer than the handle's (or the very
  version it has), the log segments it lists, and its checkpoint if it has one. Then a sync
  of a handle whose local refs stand at any earlier point of the history succeeds, changes nothing
  in the bucket, and leaves the local refs and HEAD exactly as replaying the whole history in
  order would, with the applied sequence number at the head.
\<close>

theorem sync_reaches_head:
  assumes "mem_inv s" and "mem_look s (manifest_key (h_id h)) = Some (v, b)" and "decode_manifest b = Inr m"
    and "v = h_version h \<and> m = h_manifest h \<or> v \<noteq> h_version h \<and> h_held_rev h < mf_revision m"
    and "log_stored (mem_look s) (h_id h) m hist" and "checkpoint_stored (mem_look s) (h_id h) m hist v0"
    and "local_at (h_dir h) (upto (rs_applied_seq (h_state h)) hist) v0" and "rs_applied_seq (h_state h) \<le> mf_head_seq m"
  shows "\<exists>s' h'. sync_refs mem_api s h = (s', h', None) \<and> mem_look s' = mem_look s
    \<and> local_at (h_dir h') hist v0 \<and> rs_applied_seq (h_state h') = mf_head_seq m
    \<and> h_manifest h' = m \<and> h_version h' = v"
  using memory_engine.sync_refs_view [OF assms] by blast

lemma sync_reaches_head_witness:
  "\<exists>s' h'. sync_refs mem_api sample_store sample_handle = (s', h', None) \<and> oids (dir_refs (h_dir h')) ''refs/heads/a'' = Some sample_oid"
proof -
  have h: "h_id sample_handle = ''o/r''" "h_version sample_handle = []" "h_held_rev sample_handle = 0"
    "h_dir sample_handle = sample_dir" "rs_applied_seq (h_state sample_handle) = 0"
    by (simp_all add: sample_handle_def new_handle_def note_checkpoint_ref_def manifest_zero_def sample_state_def)
  have "\<exists>s' h'. sync_refs mem_api sample_store sample_handle = (s', h', None) \<and> mem_look s' = mem_look sample_store
    \<and> local_at (h_dir h') [sample_entry] (\<lambda>_. None, ''refs/heads/main'') \<and> rs_applied_seq (h_state h') = mf_head_seq sample_manifest
    \<and> h_manifest h' = sample_manifest \<and> h_version h' = decimal 2"
    by (rule sync_reaches_head [where b = "marshal_manifest sample_manifest"])
      (simp_all add: h sample_inv sample_look sample_decode sample_log sample_dir_ok checkpoint_stored_def local_at_def upto_def
        replay_view_def entry_txns_def sample_fields)
  moreover have "replay_view (entry_txns [sample_entry]) (\<lambda>_. None, ''refs/heads/main'')
      = ((\<lambda>_. None)(''refs/heads/a'' \<mapsto> sample_oid), ''refs/heads/main'')"
    by (simp add: replay_view_def entry_txns_def sample_entry_def log_entry_zero_def sample_update_def apply_oid_def head_update_def
        absent_oid_def is_zero_oid_def sample_oid_def)
  ultimately show ?thesis by (auto simp: local_at_def dir_view_def)
qed

text \<open>
  The held revision never goes back. Whatever the store answers, refreshing keeps the held
  manifest, or replaces it by one of a higher revision, which becomes the held one.
\<close>

theorem freshen_never_regresses:
  "let (s', h', err) = freshen_manifest api s h
   in h_manifest h' = h_manifest h \<and> h_held_rev h' = h_held_rev h
      \<or> h_held_rev h' = mf_revision (h_manifest h') \<and> h_held_rev h < h_held_rev h'"
  by (auto simp: freshen_manifest_def Let_def dest: adopt_manifest_keeps split: prod.split sum.split get_result.split option.split)

text \<open>
  A missing manifest is a store error. \<^verbatim>\<open>GetBytes\<close> documents a nil body for an absent object, and
  its callers test for it, but the error of the store comes back: a handle without a version
  reports a store failure, not that the repository does not exist.
\<close>

theorem absent_manifest_is_store_error:
  assumes "mem_inv s" and "mem_look s (manifest_key (h_id h)) = None" and "h_version h = []"
  shows "\<exists>s'. freshen_manifest mem_api s h = (s', h, Some WalErrStore)"
  using memory_engine.get_bytes_absent [OF assms(1,2)] assms(3) by (auto simp: freshen_manifest_def Let_def)

lemma absent_manifest_is_store_error_witness:
  "\<exists>s'. freshen_manifest mem_api new_memory sample_handle = (s', sample_handle, Some WalErrStore)"
  by (rule absent_manifest_is_store_error)
    (simp_all add: new_memory_def mem_inv_def mem_look_def get_locked_def sample_handle_def new_handle_def note_checkpoint_ref_def manifest_zero_def)

text \<open>
  C39: A HEAD update whose target is not a ref name stops replay. The publisher's validation accepts
  it, but the local rewrite fails, so every sync that reaches such an entry returns a git error.
\<close>

theorem bad_head_target_stops_replay:
  assumes "dir_ok (h_dir h)" and "t \<noteq> []" and "\<not> valid_ref_name t"
  shows "let u = \<lparr>ru_name = ''HEAD'', ru_old_oid = [], ru_new_oid = [], ru_new_symbolic_target = t, ru_new_peeled = []\<rparr>;
             e = log_entry_zero\<lparr>le_kind := entry_kind_ref_update, le_txn := Some (ref_transaction_zero\<lparr>tx_updates := [u]\<rparr>)\<rparr>
         in verify_txn (le_txn e) view = [] \<and> snd (replay_entries [e] h) = Some WalErrGit"
  using assms
  by (simp add: Let_def verify_txn_def verify_update_def valid_ref_update_def valid_ref_name_def [of "''HEAD''"] ref_transaction_zero_def
      log_entry_zero_def replay_entries_def entry_txns_def replay_entry_def note_entry_time_def apply_txns_offline_def
      snapshot_dir head_update_def load_snapshot_def set_symbolic_head_def)

lemma bad_head_target_stops_replay_witness:
  "let u = \<lparr>ru_name = ''HEAD'', ru_old_oid = [], ru_new_oid = [], ru_new_symbolic_target = ''main'', ru_new_peeled = []\<rparr>;
       e = log_entry_zero\<lparr>le_kind := entry_kind_ref_update, le_txn := Some (ref_transaction_zero\<lparr>tx_updates := [u]\<rparr>)\<rparr>
   in verify_txn (le_txn e) (new_ref_overlay []) = [] \<and> snd (replay_entries [e] sample_handle) = Some WalErrGit"
proof (rule bad_head_target_stops_replay)
  show "dir_ok (h_dir sample_handle)"
    using sample_dir_ok(1) by (simp add: sample_handle_def new_handle_def note_checkpoint_ref_def manifest_zero_def)
  show "\<not> valid_ref_name ''main''" by code_simp
qed simp

end
