(* ===== verification/Sidecar.thy ===== *)
theory Sidecar
  imports Batch
begin

text \<open>
  The size sidecar \<^verbatim>\<open>meta/stats.json\<close> as the publisher writes it (\<^verbatim>\<open>encodeStatsSidecar\<close> of
  \<^verbatim>\<open>internal/wal/publish.go\<close>), with what it uses of the standard library: RFC 3339 times in UTC and the
  JSON encoding of a flat struct.
\<close>

section \<open>Times\<close>

text \<open>
  The Gregorian date of a day number (day 0 is 1 January of year 1), by 400-year eras of 146097 days
  that start on 1 March, which is how the proleptic calendar is usually computed.
\<close>

definition civil_of_day :: "int \<Rightarrow> int \<times> int \<times> int" where
  "civil_of_day day =
     (let z = day + 306;
          era = z div 146097;
          doe = z mod 146097;
          yoe = (doe - doe div 1460 + doe div 36524 - doe div 146096) div 365;
          doy = doe - (365 * yoe + yoe div 4 - yoe div 100);
          mp = (5 * doy + 2) div 153;
          d = doy - (153 * mp + 2) div 5 + 1;
          m = (if mp < 10 then mp + 3 else mp - 9);
          y = yoe + era * 400 + (if m \<le> 2 then 1 else 0)
      in (y, m, d))"

definition pad_int :: "nat \<Rightarrow> int \<Rightarrow> string" where
  "pad_int w n = (let d = decimal (nat n) in replicate (w - length d) (CHR ''0'') @ d)"

text \<open>\<^verbatim>\<open>t.UTC().Format(time.RFC3339)\<close>.\<close>

definition rfc3339 :: "go_time \<Rightarrow> string" where
  "rfc3339 t =
     (let secs = t div 10 ^ 9; (y, m, d) = civil_of_day (secs div 86400); r = secs mod 86400
      in pad_int 4 y @ ''-'' @ pad_int 2 m @ ''-'' @ pad_int 2 d @ ''T''
         @ pad_int 2 (r div 3600) @ '':'' @ pad_int 2 (r div 60 mod 60) @ '':'' @ pad_int 2 (r mod 60) @ ''Z'')"

section \<open>JSON\<close>

text \<open>
  A JSON string as \<^verbatim>\<open>encoding/json\<close> writes it: quotes, backslashes, control characters and the HTML
  characters are escaped. Bytes from 128 on are copied, which is right for valid UTF-8 (the only
  free string here is a commit hash).
\<close>

definition json_char :: "char \<Rightarrow> string" where
  "json_char c =
     (let n = of_char c :: nat; bs = CHR 0x5C in
      if c = CHR 0x22 \<or> c = bs then [bs, c]
      else if c = CHR 0x08 then [bs, CHR ''b'']
      else if c = CHR 0x0C then [bs, CHR ''f'']
      else if c = CHR 0x0A then [bs, CHR ''n'']
      else if c = CHR 0x0D then [bs, CHR ''r'']
      else if c = CHR 0x09 then [bs, CHR ''t'']
      else if n < 32 \<or> c \<in> set ''<>&'' then bs # ''u'' @ hex_fixed 4 n
      else [c])"

definition json_string :: "string \<Rightarrow> string" where
  "json_string s = [CHR 0x22] @ concat (map json_char s) @ [CHR 0x22]"

definition json_member :: "string \<Rightarrow> string \<Rightarrow> string" where
  "json_member name val = json_string name @ '':'' @ val"

fun join_comma :: "string list \<Rightarrow> string" where
  "join_comma [] = []"
| "join_comma [m] = m"
| "join_comma (m # ms) = m @ '','' @ join_comma ms"

definition json_object :: "(string \<times> string) list \<Rightarrow> string" where
  "json_object members = ''{'' @ join_comma (map (\<lambda>(n, v). json_member n v) members) @ ''}''"

section \<open>The sidecar\<close>

record stats_sidecar =
  sc_version :: nat
  sc_size_bytes :: u64
  sc_object_count :: u64
  sc_head_seq :: u64
  sc_updated_at :: string
  sc_last_commit_sha :: "string option"
  sc_last_commit_time :: "string option"
  sc_last_push_at :: "string option"

text \<open>\<^verbatim>\<open>json.Marshal\<close>: fields in declaration order, nil pointers with \<^verbatim>\<open>omitempty\<close> left out.\<close>

definition json_optional :: "string \<Rightarrow> string option \<Rightarrow> (string \<times> string) list" where
  "json_optional name v = (case v of None \<Rightarrow> [] | Some s \<Rightarrow> [(name, json_string s)])"

definition marshal_stats :: "stats_sidecar \<Rightarrow> bytes" where
  "marshal_stats sc =
     bytes_of (json_object
       ([(''version'', decimal (sc_version sc)),
         (''size_bytes'', decimal (unat (sc_size_bytes sc))),
         (''object_count'', decimal (unat (sc_object_count sc))),
         (''head_seq'', decimal (unat (sc_head_seq sc))),
         (''updated_at'', json_string (sc_updated_at sc))]
        @ json_optional ''last_commit_sha'' (sc_last_commit_sha sc)
        @ json_optional ''last_commit_time'' (sc_last_commit_time sc)
        @ json_optional ''last_push_at'' (sc_last_push_at sc)))"

text \<open>The clock is never the zero time, so the first branch of the code does not occur.\<close>

definition encode_stats_sidecar :: "u64 \<Rightarrow> u64 \<Rightarrow> u64 \<Rightarrow> go_time \<Rightarrow> publish_activity option \<Rightarrow> bytes" where
  "encode_stats_sidecar sz objs head now act =
     marshal_stats
       \<lparr>sc_version = 1, sc_size_bytes = sz, sc_object_count = objs, sc_head_seq = head, sc_updated_at = rfc3339 now,
        sc_last_commit_sha = (case act of None \<Rightarrow> None | Some a \<Rightarrow> if pa_tip_sha a \<noteq> [] then Some (pa_tip_sha a) else None),
        sc_last_commit_time =
          (case act of None \<Rightarrow> None | Some a \<Rightarrow> if pa_commit_time a \<noteq> 0 then Some (rfc3339 (pa_commit_time a)) else None),
        sc_last_push_at = Some (rfc3339 now)\<rparr>"

lemma rfc3339_epoch: "rfc3339 (unix_epoch * 10 ^ 9) = ''1970-01-01T00:00:00Z''"
  by code_simp

lemma rfc3339_leap_day: "rfc3339 ((unix_epoch + 1709210096) * 10 ^ 9) = ''2024-02-29T12:34:56Z''"
  by code_simp

end
