(* ===== verification/Publish.thy ===== *)
theory Publish
  imports Handle Sidecar
begin

text \<open>
  The publisher (\<^verbatim>\<open>internal/wal/publish.go\<close>): one batch of pushes is verified, its packs are
  uploaded, a log slot is claimed with a create, and the manifest is swapped; what went wrong is
  retried, and slots left behind by crashed writers are burned and swept.

  The uploads run beside the slot claim in the code, and the sidecar write beside the manifest swap;
  here they run just before. \<open>files\<close> is what reading a local file returns, and the clock is one
  argument. The two background jobs after a commit (folding commit graphs, an opportunistic
  checkpoint) are separate operations. The loops of the code have no bound but the context's: the
  claim loop takes fuel, and running out is \<open>None\<close>.
\<close>

section \<open>Uploads\<close>

definition put_create :: "string \<Rightarrow> put_options" where
  "put_create ct = \<lparr>po_mode = PutCreate, po_if_version = [], po_content_type = ct, po_immutable = False\<rparr>"

definition octet_stream :: string where "octet_stream = ''application/octet-stream''"
definition x_protobuf :: string where "x_protobuf = ''application/x-protobuf''"

text \<open>How one upload leaves \<^verbatim>\<open>uploadPack\<close>: on to the next statement, done, or an error.\<close>

datatype upload_outcome = UploadNext | UploadDone | UploadFail wal_error_kind

definition upload_outcome_of :: "go_error + object_meta \<Rightarrow> upload_outcome" where
  "upload_outcome_of r =
     (case r of
        Inr meta \<Rightarrow> UploadNext
      | Inl e \<Rightarrow> if is_precondition_failed e then UploadDone else UploadFail WalErrStore)"

definition upload_pack ::
  "'s store_api \<Rightarrow> (string \<Rightarrow> bytes option) \<Rightarrow> string \<Rightarrow> prepared_pack \<Rightarrow> 's \<Rightarrow> 's \<times> wal_error_kind option" where
  "upload_pack api files rid p s =
     (let opts = put_create octet_stream;
          pkey = repo_key rid (pack_key (pp_checksum p));
          (s', out) =
            (if pp_pack_path p \<noteq> [] \<and> 2 ^ 28 \<le> pp_pack_size p \<and> sa_compose_native api then
               (case files (pp_pack_path p) of
                  None \<Rightarrow> (s, UploadFail WalErrIo)
                | Some content \<Rightarrow>
                    apsnd upload_outcome_of (put_file_parallel api pkey content (sint (pp_pack_size p)) opts s))
             else if pp_pack_path p \<noteq> [] then
               apsnd upload_outcome_of (put_bytes api pkey (files (pp_pack_path p)) opts s)
             else (s, UploadNext))
      in case out of
           UploadFail e \<Rightarrow> (s', Some e)
         | UploadDone \<Rightarrow> (s', None)
         | UploadNext \<Rightarrow>
             if pp_idx_path p \<noteq> [] then
               (case put_bytes api (repo_key rid (idx_key (pp_checksum p))) (files (pp_idx_path p)) opts s' of
                  (s'', r) \<Rightarrow> (s'', case upload_outcome_of r of UploadFail e \<Rightarrow> Some e | _ \<Rightarrow> None))
             else (s', None))"

fun upload_packs ::
  "'s store_api \<Rightarrow> (string \<Rightarrow> bytes option) \<Rightarrow> string \<Rightarrow> publish_request list \<Rightarrow> string list \<Rightarrow> 's \<Rightarrow> 's \<times> wal_error_kind option" where
  "upload_packs api files rid [] seen s = (s, None)"
| "upload_packs api files rid (j # js) seen s =
     (case pq_pack j of
        None \<Rightarrow> upload_packs api files rid js seen s
      | Some p \<Rightarrow>
          if pp_checksum p \<in> set seen then upload_packs api files rid js seen s
          else case upload_pack api files rid p s of
              (s', Some e) \<Rightarrow> (s', Some e)
            | (s', None) \<Rightarrow> upload_packs api files rid js (pp_checksum p # seen) s')"

section \<open>The log slot\<close>

definition fresh_head :: "'s store_api \<Rightarrow> string \<Rightarrow> 's \<Rightarrow> 's \<times> (go_error + manifest option)" where
  "fresh_head api rid s =
     (case get_bytes api (manifest_key rid) get_default s of
        (s', Inl e) \<Rightarrow> (s', Inl e)
      | (s', Inr (None, meta)) \<Rightarrow> (s', Inr None)
      | (s', Inr (Some body, meta)) \<Rightarrow>
          (s', case decode_manifest body of Inl e \<Rightarrow> Inl (PlainError None) | Inr m \<Rightarrow> Inr (Some m)))"

text \<open>
  The probes of an occupied slot: \<open>Inr False\<close> when it is found free (create again), \<open>Inr True\<close> when
  it is still there at the last probe.
\<close>

fun probe_slot :: "'s store_api \<Rightarrow> string \<Rightarrow> nat \<Rightarrow> 's \<Rightarrow> 's \<times> (wal_error_kind + bool)" where
  "probe_slot api key 0 s = (s, Inr True)"
| "probe_slot api key (Suc n) s =
     (case exists_op api key s of
        (s', Inl e) \<Rightarrow> (s', Inl WalErrStore)
      | (s', Inr False) \<Rightarrow> (s', Inr False)
      | (s', Inr True) \<Rightarrow> probe_slot api key n s')"

datatype claim_result =
    Claimed u64 string version bytes
  | ClaimRestart
  | ClaimError wal_error_kind

definition orphan_probes :: nat where "orphan_probes = 3"
definition max_burns :: nat where "max_burns = 8"

fun claim_slot ::
  "nat \<Rightarrow> 's store_api \<Rightarrow> string \<Rightarrow> log_entry list \<Rightarrow> u64 \<Rightarrow> nat \<Rightarrow> (u64 \<times> string) list \<Rightarrow> 's \<Rightarrow>
   ('s \<times> claim_result \<times> (u64 \<times> string) list) option" where
  "claim_slot 0 api rid entries seg_first streak burned s = None"
| "claim_slot (Suc fuel) api rid entries seg_first streak burned s =
     (let body = encode_segment (renumber seg_first entries);
          key = log_segment_key seg_first
      in case sa_put api (repo_key rid key) (bytes_body body) (put_create x_protobuf) s of
          (s1, Inr meta) \<Rightarrow> Some (s1, Claimed seg_first key (om_version meta) body, burned)
        | (s1, Inl e) \<Rightarrow>
            (case fresh_head api rid s1 of
               (s2, fresh) \<Rightarrow>
                 if (case fresh of Inl err \<Rightarrow> \<not> is_not_found err | Inr m \<Rightarrow> False)
                 then Some (s2, ClaimError WalErrStore, burned)
                 else if (case fresh of Inr (Some m) \<Rightarrow> seg_first \<le> mf_head_seq m | _ \<Rightarrow> False)
                 then Some (s2, ClaimRestart, burned)
                 else
                   (case probe_slot api (repo_key rid key) orphan_probes s2 of
                      (s3, Inl k) \<Rightarrow> Some (s3, ClaimError k, burned)
                    | (s3, Inr False) \<Rightarrow> claim_slot fuel api rid entries seg_first streak burned s3
                    | (s3, Inr True) \<Rightarrow>
                        if max_burns < streak + 1 then Some (s3, ClaimError WalErrCorrupt, burned)
                        else claim_slot fuel api rid entries (seg_first + 1) (streak + 1) (map_put seg_first key burned) s3)))"

section \<open>The manifest swap\<close>

definition put_update :: "version \<Rightarrow> string \<Rightarrow> put_options" where
  "put_update v ct = \<lparr>po_mode = PutUpdate, po_if_version = v, po_content_type = ct, po_immutable = False\<rparr>"

text \<open>The options of every manifest write: compare-and-swap, or create when no version is held.\<close>

definition manifest_options :: "version \<Rightarrow> put_options" where
  "manifest_options version =
     (let opts = put_update version x_protobuf in if version = [] then opts\<lparr>po_mode := PutCreate\<rparr> else opts)"

datatype cas_result = CasCommitted version | CasRestart | CasError wal_error_kind

definition cas_manifest ::
  "'s store_api \<Rightarrow> string \<Rightarrow> version \<Rightarrow> string \<Rightarrow> version \<Rightarrow> manifest \<Rightarrow> 's \<Rightarrow> 's \<times> cas_result" where
  "cas_manifest api rid version seg_key seg_version next_m s =
     (let key = manifest_key rid in
      case sa_put api key (bytes_body (marshal_manifest next_m)) (manifest_options version) s of
        (s1, Inr meta) \<Rightarrow> (s1, CasCommitted (om_version meta))
      | (s1, Inl e) \<Rightarrow>
          if is_precondition_failed e then
            (if seg_version \<noteq> [] then fst (sa_delete api (repo_key rid seg_key) seg_version s1) else s1, CasRestart)
          else
            (case fresh_head api rid s1 of
               (s2, Inl err) \<Rightarrow> (s2, CasError WalErrStore)
             | (s2, Inr None) \<Rightarrow> (s2, CasRestart)
             | (s2, Inr (Some fresh)) \<Rightarrow>
                 if list_ex (\<lambda>sg. sg_key sg = seg_key) (mf_log_segments fresh) then
                   (case sa_head api key s2 of
                      (s3, Inr (Some meta)) \<Rightarrow> (s3, CasCommitted (om_version meta))
                    | (s3, _) \<Rightarrow> (s3, CasCommitted []))
                 else (s2, CasRestart)))"

section \<open>After the commit\<close>

text \<open>\<^verbatim>\<open>sweepBurned\<close> visits the burned keys in the order of the list (a Go map has no order).\<close>

fun sweep_keys :: "'s store_api \<Rightarrow> string \<Rightarrow> string list \<Rightarrow> string list \<Rightarrow> 's \<Rightarrow> 's" where
  "sweep_keys api rid keep [] s = s"
| "sweep_keys api rid keep (key # keys) s =
     (if key \<in> set keep then sweep_keys api rid keep keys s
      else case sa_head api (repo_key rid key) s of
          (s', Inr (Some meta)) \<Rightarrow>
            sweep_keys api rid keep keys (fst (sa_delete api (repo_key rid key) (om_version meta) s'))
        | (s', _) \<Rightarrow> sweep_keys api rid keep keys s')"

definition sweep_burned :: "'s store_api \<Rightarrow> string \<Rightarrow> (u64 \<times> string) list \<Rightarrow> 's \<Rightarrow> 's" where
  "sweep_burned api rid burned s =
     (if burned = [] then s
      else case fresh_head api rid s of
          (s', Inr (Some fresh)) \<Rightarrow> sweep_keys api rid (map sg_key (mf_log_segments fresh)) (map snd burned) s'
        | (s', _) \<Rightarrow> s')"

definition commit_state :: "manifest \<Rightarrow> version \<Rightarrow> bool \<Rightarrow> repo_state \<Rightarrow> repo_state" where
  "commit_state next_m version applied st =
     (let was_ready = packs_ready st; old_rev = rs_revision st; st' = st\<lparr>rs_manifest_version := version\<rparr> in
      if applied then
        let st' = st'\<lparr>rs_applied_seq := mf_head_seq next_m, rs_revision := mf_revision next_m\<rparr>
        in if was_ready \<and> rs_packs_revision st = old_rev then st'\<lparr>rs_packs_revision := mf_revision next_m\<rparr> else st'
      else st')"

definition after_entry :: "log_entry \<Rightarrow> repo_handle \<Rightarrow> repo_handle" where
  "after_entry e h =
     (let h = (if le_kind e = entry_kind_compact \<and> le_supersedes e \<noteq> [] then add_removals (le_supersedes e) h else h)
      in if le_kind e = entry_kind_settings then h\<lparr>h_settings_valid := False\<rparr> else h)"

definition commit_refs :: "log_entry list \<Rightarrow> git_dir \<Rightarrow> git_dir \<times> bool" where
  "commit_refs entries d =
     (let txns = entry_txns entries in if txns = [] then (d, True) else apply_txns_offline txns d)"

definition commit_handle :: "manifest \<Rightarrow> version \<Rightarrow> log_entry list \<Rightarrow> repo_handle \<Rightarrow> repo_handle" where
  "commit_handle next_m version entries h =
     (let (d, applied) = commit_refs entries (h_dir h);
          version = (if applied then version else []);
          h = h\<lparr>h_dir := d\<rparr>;
          h = (if applied then
                 (fold (\<lambda>e. note_entry_time (le_created_at e)) entries h)
                   \<lparr>h_manifest := next_m, h_version := version, h_held_rev := mf_revision next_m\<rparr>
               else h)
      in fold after_entry entries (update_state (commit_state next_m version applied) h))"

definition commit_local ::
  "'s store_api \<Rightarrow> manifest \<Rightarrow> version \<Rightarrow> log_entry list \<Rightarrow> (u64 \<times> string) list \<Rightarrow> 's \<Rightarrow> repo_handle \<Rightarrow> 's \<times> repo_handle" where
  "commit_local api next_m version entries burned s h =
     (sweep_burned api (h_id h) burned s, commit_handle next_m version entries h)"

section \<open>One batch\<close>

type_synonym reply = "publish_result \<times> wal_error_kind option"

definition reply_all :: "publish_request list \<Rightarrow> wal_error_kind \<Rightarrow> reply list" where
  "reply_all batch e = map (\<lambda>_. (\<lparr>pr_seq = 0, pr_per_ref = []\<rparr>, Some e)) batch"

definition rejection :: "ref_error list \<Rightarrow> publish_result" where
  "rejection errs = \<lparr>pr_seq = 0, pr_per_ref = map (\<lambda>e. \<lparr>rr_name = er_ref e, rr_err = Some e\<rparr>) errs\<rparr>"

definition txn_updates :: "ref_transaction option \<Rightarrow> ref_update list" where
  "txn_updates t = (case t of None \<Rightarrow> [] | Some t \<Rightarrow> tx_updates t)"

text \<open>The answers of a committed batch: the jobs in order, a valid one with its entry's number.\<close>

fun batch_replies :: "(publish_request \<times> ref_error list) list \<Rightarrow> log_entry list \<Rightarrow> reply list" where
  "batch_replies [] es = []"
| "batch_replies ((j, errs) # cs) es =
     (if errs \<noteq> [] then (rejection errs, None) # batch_replies cs es
      else (\<lparr>pr_seq = le_seq (hd es),
             pr_per_ref = map (\<lambda>u. \<lparr>rr_name = ru_name u, rr_err = None\<rparr>) (txn_updates (pq_txn j))\<rparr>, None)
           # batch_replies cs (tl es))"

definition last_activity :: "publish_request list \<Rightarrow> publish_activity option" where
  "last_activity js = fold (\<lambda>j act. case pq_activity j of None \<Rightarrow> act | Some a \<Rightarrow> Some a) js None"

definition write_sidecar ::
  "'s store_api \<Rightarrow> string \<Rightarrow> manifest \<Rightarrow> log_entry list \<Rightarrow> publish_request list \<Rightarrow> go_time \<Rightarrow> 's \<Rightarrow> 's" where
  "write_sidecar api rid next_m entries valid now s =
     (if batch_writes_sidecar entries then
        let (sz, objs) = stats_size_of (mf_packs next_m);
            body = encode_stats_sidecar sz objs (mf_head_seq next_m) now (last_activity valid)
        in fst (sa_put api (repo_key rid ''meta/stats.json'') (bytes_body body)
                  \<lparr>po_mode = PutOverwrite, po_if_version = [], po_content_type = ''application/json'', po_immutable = False\<rparr> s)
      else s)"

text \<open>
  The ladder of \<^verbatim>\<open>runBatch\<close>, with \<open>n\<close> attempts left. The base manifest and its version are the
  handle's at the start and after a restart; the time floor is read once.
\<close>

fun run_attempts ::
  "'s store_api \<Rightarrow> (string \<Rightarrow> bytes option) \<Rightarrow> nat \<Rightarrow> go_time \<Rightarrow> publish_request list \<Rightarrow> go_time \<Rightarrow> nat \<Rightarrow>
   (u64 \<times> string) list \<Rightarrow> 's \<Rightarrow> repo_handle \<Rightarrow> ('s \<times> repo_handle \<times> reply list) option" where
  "run_attempts api files fuel now batch last_entry 0 burned s h =
     Some (sweep_burned api (h_id h) burned s, h, reply_all batch WalErrRetry)"
| "run_attempts api files fuel now batch last_entry (Suc n) burned s h =
     (let base = h_manifest h; version = h_version h; rid = h_id h;
          fail = (\<lambda>burned s e. Some (sweep_burned api rid burned s, h, reply_all batch e));
          checked = verify_jobs last_entry (new_ref_overlay (fst (layer_snapshot (h_dir h)))) batch;
          valid = valid_jobs checked
      in if valid = [] then
           Some (sweep_burned api rid burned s, h, map (\<lambda>(j, errs). (rejection errs, None)) checked)
         else
           let first_seq = mf_head_seq base + 1;
               entries = build_entries (h_instance h) now first_seq valid;
               (s1, up_err) = upload_packs api files rid valid [] s
           in case claim_slot fuel api rid entries first_seq 0 burned s1 of
               None \<Rightarrow> None
             | Some (s2, claim, burned) \<Rightarrow>
                 (case up_err of
                    Some e \<Rightarrow> fail burned s2 e
                  | None \<Rightarrow>
                      (case claim of
                         ClaimRestart \<Rightarrow>
                           (case sync_refs api s2 h of
                              (s3, h', _) \<Rightarrow> run_attempts api files fuel now batch last_entry n burned s3 h')
                       | ClaimError e \<Rightarrow> fail burned s2 e
                       | Claimed seg_first seg_key seg_version seg_body \<Rightarrow>
                           let entries = renumber seg_first entries;
                               next_m = build_next_manifest base entries first_seq seg_first seg_body (h_instance h) now;
                               s3 = write_sidecar api rid next_m entries valid now s2
                           in case cas_manifest api rid version seg_key seg_version next_m s3 of
                               (s4, CasRestart) \<Rightarrow> run_attempts api files fuel now batch last_entry n burned s4 h
                             | (s4, CasError e) \<Rightarrow> fail burned s4 e
                             | (s4, CasCommitted new_version) \<Rightarrow>
                                 (case commit_local api next_m new_version entries burned s4 h of
                                    (s5, h') \<Rightarrow> Some (s5, h', batch_replies checked entries)))))"

definition run_batch ::
  "'s store_api \<Rightarrow> (string \<Rightarrow> bytes option) \<Rightarrow> nat \<Rightarrow> nat \<Rightarrow> go_time \<Rightarrow> publish_request list \<Rightarrow> 's \<Rightarrow> repo_handle \<Rightarrow>
   ('s \<times> repo_handle \<times> reply list) option" where
  "run_batch api files fuel max_retries now batch s h =
     (case (if list_all pq_synced batch then (s, h, None) else sync_refs api s h) of
        (s', h', Some e) \<Rightarrow> Some (s', h', reply_all batch e)
      | (s', h', None) \<Rightarrow>
          run_attempts api files fuel now batch (h_last_entry_time h') (if max_retries = 0 then 16 else max_retries) [] s' h')"

section \<open>Keys of one repository\<close>

lemma repo_key_inject [simp]: "repo_key rid a = repo_key rid b \<longleftrightarrow> a = b"
  by (simp add: repo_key_def split: prod.split)

lemma repo_key_not_Nil [simp]: "repo_key rid a \<noteq> []"
  by (simp add: repo_key_def split: prod.split)

lemma manifest_repo_key: "manifest_key rid = repo_key rid ''manifest.pb''"
  by (simp add: manifest_key_def repo_key_def store_prefix_def manifest_pb_def split: prod.split)

definition is_pack_key :: "string \<Rightarrow> string \<Rightarrow> bool" where
  "is_pack_key rid k \<longleftrightarrow> (\<exists>x. k = repo_key rid (''wal/'' @ x))"

lemma not_pack_keys [simp]:
  "\<not> is_pack_key rid (repo_key rid (log_segment_key n))"
  "\<not> is_pack_key rid (repo_key rid ''manifest.pb'')"
  "\<not> is_pack_key rid (repo_key rid (checkpoint_refs_key n))"
  by (simp_all add: is_pack_key_def log_segment_key_def checkpoint_refs_key_def)

lemma log_key_neq [simp]:
  "log_segment_key n \<noteq> ''manifest.pb''" "log_segment_key n \<noteq> ''meta/stats.json''"
  "log_segment_key n \<noteq> checkpoint_refs_key c" "checkpoint_refs_key c \<noteq> ''manifest.pb''"
  "checkpoint_refs_key c \<noteq> ''meta/stats.json''" "checkpoint_refs_key c \<noteq> log_segment_key n"
  by (simp_all add: log_segment_key_def checkpoint_refs_key_def)

section \<open>Entries of a batch\<close>

lemma build_entry_simps [simp]:
  "le_seq (build_entry w now sq j) = sq" "le_txn (build_entry w now sq j) = pq_txn j"
  by (simp_all add: build_entry_def Let_def split: option.split)

lemma length_build_entries [simp]: "length (build_entries w now sq js) = length js"
  by (induction w now sq js rule: build_entries.induct) simp_all

lemma build_entries_Nil [simp]: "build_entries w now sq js = [] \<longleftrightarrow> js = []"
  by (cases js) simp_all

lemma renumber_build_entries [simp]: "renumber sq (build_entries w now sq js) = build_entries w now sq js"
  by (induction w now sq js rule: build_entries.induct) simp_all

text \<open>Sequence numbers run upwards from the first and do not wrap.\<close>

lemma renumber_seqs:
  assumes "unat f + length es \<le> 2 ^ 64"
  shows "in_order (renumber f es) \<and> (\<forall>e \<in> set (renumber f es). f \<le> le_seq e \<and> le_seq e \<le> f + word_of_nat (length es - 1))"
proof -
  have sq: "unat (le_seq (renumber f es ! i)) = unat f + i" if "i < length es" for i
    using that assms by (simp add: renumber_nth unat_add_small)
  then have "in_order (renumber f es)"
    by (simp add: in_order_def sorted_wrt_iff_nth_less word_less_nat_alt)
  moreover have "f \<le> le_seq e \<and> le_seq e \<le> f + word_of_nat (length es - 1)" if e: "e \<in> set (renumber f es)" for e
  proof -
    obtain i where i: "i < length es" "e = renumber f es ! i" using e by (auto simp: in_set_conv_nth)
    have "unat (f + word_of_nat (length es - 1)) = unat f + (length es - 1)"
      using i(1) assms by (intro unat_add_small) linarith
    with i sq [OF i(1)] show ?thesis by (simp add: word_le_nat_alt)
  qed
  ultimately show ?thesis by blast
qed

lemma renumber_entry_ok [simp]: "list_all entry_ok (renumber f es) = list_all entry_ok es"
  by (induction f es rule: renumber.induct) (simp_all add: entry_ok_def)

lemma canon_entry_simps [simp]:
  "le_seq (canon_log_entry e) = le_seq e" "le_kind (canon_log_entry e) = le_kind e" "le_txn (canon_log_entry e) = le_txn e"
  by (simp_all add: canon_log_entry_def)

lemma entry_txns_canon [simp]: "entry_txns (map canon_log_entry es) = entry_txns es"
  by (simp add: entry_txns_def o_def cong: if_cong option.case_cong)

lemma in_order_canon [simp]: "in_order (map canon_log_entry es) = in_order es"
  by (simp add: in_order_def sorted_wrt_map)

lemma decode_encoded_segment:
  assumes "list_all wf_entry es"
  shows "decode_entries (encode_segment es) = (length es, None, map canon_log_entry es)"
  using decode_entries_frames [OF refl assms, of "[]" 0 "[]"]
  by (simp add: decode_entries_def encode_segment_frames decode_frames_Nil)

text \<open>
  A committed batch extends the stored log by its entries: a segment at any slot after the head,
  which the next manifest lists beside the ones that were there.
\<close>

lemma log_stored_commit:
  fixes m :: manifest and f f0 :: u64 and es :: "log_entry list" and body :: bytes and w :: string and now :: go_time
  defines "rs \<equiv> renumber f es"
  defines "m' \<equiv> build_next_manifest m rs f0 f body w now"
  assumes stored: "log_stored lk rid m hist" and es: "es \<noteq> []" "list_all wf_entry rs" "list_all entry_ok es"
    and f: "mf_head_seq m < f" "unat f + length es \<le> 2 ^ 64"
    and seg: "lk' (repo_key rid (log_segment_key f)) = Some (v, encode_segment rs)"
    and same: "\<And>sg. sg \<in> set (mf_log_segments m) \<Longrightarrow> lk' (repo_key rid (sg_key sg)) = lk (repo_key rid (sg_key sg))"
  shows "log_stored lk' rid m' (hist @ map canon_log_entry rs)"
proof -
  let ?head = "mf_head_seq m" and ?new = "map canon_log_entry rs" and ?last = "f + word_of_nat (length es - 1)"
  have "log_ok m" using stored by (simp add: log_stored_def)
  from next_manifest_segments [OF this f(1) es(1) f(2)]
  have head': "mf_head_seq m' = ?last" and segs: "mf_log_segments m' = mf_log_segments m @ [new_segment f ?last body]"
    and ok': "log_ok m'" and grow: "?head < mf_head_seq m'"
    unfolding m'_def rs_def by blast+
  have seqs: "in_order rs" "\<forall>e \<in> set rs. f \<le> le_seq e \<and> le_seq e \<le> ?last"
    using renumber_seqs [OF f(2)] by (simp_all add: rs_def)
  have old: "\<forall>e \<in> set hist. le_seq e \<le> ?head" and oks: "list_all entry_ok hist" and ord: "in_order hist"
    and olds: "\<forall>sg \<in> set (mf_log_segments m). sg_last_seq sg \<le> ?head"
    using stored by (auto simp: log_stored_def list_all_iff log_ok_def)
  have "in_order (hist @ ?new)"
    using ord seqs old f(1) by (fastforce simp: in_order_def sorted_wrt_append sorted_wrt_map)
  moreover have "list_all (\<lambda>e. le_seq e \<le> mf_head_seq m' \<and> entry_ok e) (hist @ ?new)"
  proof -
    have "list_all entry_ok rs" using es(3) by (simp add: rs_def)
    with old oks seqs grow head' show ?thesis by (fastforce simp: list_all_iff entry_ok_def)
  qed
  moreover have "\<exists>v b n. lk' (repo_key rid (sg_key sg)) = Some (v, b) \<and> decode_entries b = (n, None, filter (in_segment sg) (hist @ ?new))"
    if sg: "sg \<in> set (mf_log_segments m)" for sg
  proof -
    have "filter (in_segment sg) ?new = []"
      using seqs(2) olds sg f(1) by (fastforce simp: filter_empty_conv in_segment_def)
    moreover have "\<exists>v b n. lk (repo_key rid (sg_key sg)) = Some (v, b) \<and> decode_entries b = (n, None, filter (in_segment sg) hist)"
      using stored sg by (simp add: log_stored_def)
    ultimately show ?thesis using same [OF sg] by simp
  qed
  moreover have "\<exists>v b n. lk' (repo_key rid (sg_key sg)) = Some (v, b) \<and> decode_entries b = (n, None, filter (in_segment sg) (hist @ ?new))"
    if "sg = new_segment f ?last body" for sg
  proof -
    have "filter (in_segment sg) hist = []"
      using old f(1) that by (fastforce simp: filter_empty_conv in_segment_def new_segment_def)
    moreover have "filter (in_segment sg) ?new = ?new"
      using seqs(2) that by (auto simp: filter_id_conv in_segment_def new_segment_def)
    ultimately show ?thesis using seg that decode_encoded_segment [OF es(2)] by (auto simp: new_segment_def)
  qed
  moreover have cp: "mf_checkpoint m' = mf_checkpoint m" by (simp add: m'_def build_next_manifest_def Let_def)
  moreover have "\<exists>sg \<in> set (mf_log_segments m'). in_segment sg e" if "e \<in> set (hist @ ?new)" "base_seq m' < le_seq e" for e
    using that stored seqs(2) cp unfolding segs by (auto simp: log_stored_def base_seq_def in_segment_def new_segment_def)
  ultimately show ?thesis using ok' segs unfolding log_stored_def by auto
qed

lemma log_stored_extend:
  assumes stored: "log_stored lk rid m hist" and "checkpoint_stored lk rid m hist v0"
    and js: "js \<noteq> []" "unat (mf_head_seq m) + 1 + length js \<le> 2 ^ 64"
    and es: "es = build_entries w now (mf_head_seq m + 1) js" "list_all wf_entry es" "list_all entry_ok es"
    and m': "m' = build_next_manifest m es f (mf_head_seq m + 1) (encode_segment es) w now"
    and seg: "\<exists>v. lk' (repo_key rid (log_segment_key (mf_head_seq m + 1))) = Some (v, encode_segment es)"
    and same: "\<And>n. n \<noteq> mf_head_seq m + 1 \<Longrightarrow> lk' (repo_key rid (log_segment_key n)) = lk (repo_key rid (log_segment_key n))"
      "\<And>n. lk' (repo_key rid (checkpoint_refs_key n)) = lk (repo_key rid (checkpoint_refs_key n))"
  shows "log_stored lk' rid m' (hist @ map canon_log_entry es) \<and> checkpoint_stored lk' rid m' (hist @ map canon_log_entry es) v0
    \<and> unat (mf_head_seq m') = unat (mf_head_seq m) + length js"
proof -
  let ?head = "mf_head_seq m" and ?first = "mf_head_seq m + 1"
  have first: "unat ?first = unat ?head + 1" using js unat_add_small [of ?head 1] by (cases js) simp_all
  then have less: "?head < ?first" by (simp add: word_less_nat_alt)
  have ne: "es \<noteq> []" and len: "length es = length js" and ren: "renumber ?first es = es" using es(1) js(1) by simp_all
  have fits: "unat ?first + length es \<le> 2 ^ 64" using first js len by simp
  have ok: "log_ok m" using stored by (simp add: log_stored_def)
  from next_manifest_segments [OF ok less ne fits] have head': "mf_head_seq m' = ?first + word_of_nat (length js - 1)"
    unfolding ren len m' by blast
  have lastn: "unat (mf_head_seq m') = unat ?head + length js"
    using js first unat_add_small [of ?first "length js - 1"] unfolding head' by (cases js) simp_all
  have seqs: "\<forall>e \<in> set es. ?first \<le> le_seq e" using renumber_seqs [OF fits] by (simp add: ren)
  obtain v where v: "lk' (repo_key rid (log_segment_key ?first)) = Some (v, encode_segment es)" using seg by blast
  have kept: "lk' (repo_key rid (sg_key sg)) = lk (repo_key rid (sg_key sg))" if "sg \<in> set (mf_log_segments m)" for sg
    using that ok less same(1) [of "sg_first_seq sg"] by (force simp: log_ok_def list_all_iff)
  have log: "log_stored lk' rid m' (hist @ map canon_log_entry es)"
    using log_stored_commit [OF stored ne, of ?first, unfolded ren, OF es(2,3) less fits v kept] by (simp add: m')
  have "upto n (hist @ map canon_log_entry es) = upto n hist" if "n \<le> ?head" for n
    using seqs less that by (fastforce simp: upto_def filter_empty_conv)
  moreover have "?head \<le> mf_head_seq m'" using lastn by (simp add: word_le_nat_alt)
  moreover have "mf_checkpoint m' = mf_checkpoint m" by (simp add: m' build_next_manifest_def Let_def)
  ultimately have "checkpoint_stored lk' rid m' (hist @ map canon_log_entry es) v0"
    using assms(2) same(2) by (auto simp: checkpoint_stored_def intro: order.trans split: option.splits)
  with log lastn show ?thesis by simp
qed

section \<open>Publishing on a store that keeps its contract\<close>

definition small_pack :: "'s store_api \<Rightarrow> (string \<Rightarrow> bytes option) \<Rightarrow> prepared_pack \<Rightarrow> bool" where
  "small_pack api files p \<longleftrightarrow>
     \<not> (2 ^ 28 \<le> pp_pack_size p \<and> sa_compose_native api)
     \<and> (pp_pack_path p \<noteq> [] \<longrightarrow> files (pp_pack_path p) \<noteq> None) \<and> (pp_idx_path p \<noteq> [] \<longrightarrow> files (pp_idx_path p) \<noteq> None)"

lemma put_bytes_Some: "put_bytes api k (Some b) opts s = sa_put api k (bytes_body b) opts s"
  by (simp add: put_bytes_def bytes_body_def)

locale publisher_store = engine_store +
  assumes keys_ok: "k \<noteq> [] \<Longrightarrow> key_ok k"
begin

lemma room_mono: "room (m + n) s \<Longrightarrow> room n s"
  by (induction m) (auto dest: room_less)

lemma put_admitted:
  assumes "inv s" and "room (Suc n) s" and "k \<noteq> []" and "put_admits opts (look s k)"
  shows "\<exists>s' v. sa_put api k (bytes_body b) opts s = (s', Inr \<lparr>om_key = k, om_size = int (length b), om_version = v\<rparr>)
    \<and> inv s' \<and> look s' = (look s)(k \<mapsto> (v, b)) \<and> v \<noteq> [] \<and> room n s'"
proof -
  obtain s' r where r: "sa_put api k (bytes_body b) opts s = (s', r)" by (cases "sa_put api k (bytes_body b) opts s")
  from put_done [OF assms(1) keys_ok [OF assms(3)] assms(4) r] obtain v where
    v: "r = Inr \<lparr>om_key = k, om_size = int (length b), om_version = v\<rparr>" "look s' = (look s)(k \<mapsto> (v, b))"
      "room 1 s \<longrightarrow> inv s'" "\<forall>n. room (Suc n) s \<longrightarrow> room n s'" by blast
  have "room 1 s" using assms(2) by (rule room_1)
  with v have "inv s'" by simp
  moreover have "v \<noteq> []" using look_used [OF \<open>inv s'\<close>, of k v b] v(2) by simp
  ultimately show ?thesis using r v assms(2) by auto
qed

lemma put_not_admitted:
  assumes "inv s" and "k \<noteq> []" and "\<not> put_admits opts (look s k)"
  shows "\<exists>s' e. sa_put api k (bytes_body b) opts s = (s', Inl e) \<and> is_precondition_failed e
    \<and> inv s' \<and> look s' = look s \<and> (\<forall>n. room n s \<longrightarrow> room n s')"
proof -
  obtain s' r where r: "sa_put api k (bytes_body b) opts s = (s', r)" by (cases "sa_put api k (bytes_body b) opts s")
  with put_refused [OF assms(1) _ r] assms(3) keys_ok [OF assms(2)] show ?thesis by auto
qed

lemma admits_create: "put_admits (put_create ct) cur \<longleftrightarrow> cur = None"
  by (simp add: put_admits_def put_create_def)

text \<open>A create-only upload succeeds or finds the object there; it never fails.\<close>

lemma create_upload:
  assumes "inv s" and "room (Suc n) s" and "k \<noteq> []"
  shows "\<exists>s' r. put_bytes api k (Some b) (put_create ct) s = (s', r) \<and> (upload_outcome_of r = UploadNext \<or> upload_outcome_of r = UploadDone)
    \<and> inv s' \<and> room n s' \<and> (\<forall>k'. k' \<noteq> k \<longrightarrow> look s' k' = look s k')"
proof (cases "look s k")
  case None
  then show ?thesis
    using put_admitted [OF assms, of "put_create ct" b] by (auto simp: put_bytes_Some admits_create upload_outcome_of_def)
next
  case (Some x)
  then show ?thesis
    using put_not_admitted [OF assms(1,3), of "put_create ct" b] room_less [OF assms(2)]
    by (auto simp: put_bytes_Some admits_create upload_outcome_of_def)
qed

lemma upload_pack_kept:
  assumes "inv s" and "room (Suc (Suc n)) s" and "small_pack api files p"
  shows "\<exists>s'. upload_pack api files rid p s = (s', None) \<and> inv s' \<and> room n s'
    \<and> (\<forall>k. \<not> is_pack_key rid k \<longrightarrow> look s' k = look s k)"
proof -
  let ?pk = "repo_key rid (pack_key (pp_checksum p))" and ?ik = "repo_key rid (idx_key (pp_checksum p))"
  have keys: "k \<noteq> ?pk \<and> k \<noteq> ?ik" if "\<not> is_pack_key rid k" for k
    using that by (auto simp: is_pack_key_def pack_key_def idx_key_def)
  define first where "first = (if pp_pack_path p \<noteq> [] then apsnd upload_outcome_of (put_bytes api ?pk (files (pp_pack_path p)) (put_create octet_stream) s)
      else (s, UploadNext))"
  have "\<exists>s1 out. first = (s1, out) \<and> (out = UploadNext \<or> out = UploadDone) \<and> inv s1 \<and> room (Suc n) s1 \<and> (\<forall>k. k \<noteq> ?pk \<longrightarrow> look s1 k = look s k)"
  proof (cases "pp_pack_path p = []")
    case True
    with assms room_less show ?thesis by (auto simp: first_def)
  next
    case False
    then obtain b where "files (pp_pack_path p) = Some b" using assms(3) by (auto simp: small_pack_def)
    with False create_upload [OF assms(1,2), of ?pk b octet_stream] show ?thesis by (auto simp: first_def)
  qed
  then obtain s1 out where one: "first = (s1, out)" "out = UploadNext \<or> out = UploadDone" "inv s1" "room (Suc n) s1"
    "\<forall>k. k \<noteq> ?pk \<longrightarrow> look s1 k = look s k" by blast
  have unfold: "upload_pack api files rid p s = (case out of
           UploadFail e \<Rightarrow> (s1, Some e) | UploadDone \<Rightarrow> (s1, None)
         | UploadNext \<Rightarrow> if pp_idx_path p \<noteq> [] then
               (case put_bytes api ?ik (files (pp_idx_path p)) (put_create octet_stream) s1 of
                  (s'', r) \<Rightarrow> (s'', case upload_outcome_of r of UploadFail e \<Rightarrow> Some e | _ \<Rightarrow> None))
             else (s1, None))"
    using assms(3) one(1) by (auto simp: upload_pack_def first_def small_pack_def Let_def)
  show ?thesis
  proof (cases "out = UploadDone \<or> pp_idx_path p = []")
    case True
    with one unfold room_less keys show ?thesis by auto
  next
    case False
    then obtain b where "files (pp_idx_path p) = Some b" using assms(3) by (auto simp: small_pack_def)
    with create_upload [OF one(3,4), of ?ik b octet_stream] obtain s2 r where
      "put_bytes api ?ik (files (pp_idx_path p)) (put_create octet_stream) s1 = (s2, r)"
      "upload_outcome_of r = UploadNext \<or> upload_outcome_of r = UploadDone" "inv s2" "room n s2"
      "\<forall>k'. k' \<noteq> ?ik \<longrightarrow> look s2 k' = look s1 k'" by auto
    moreover have "out = UploadNext" using False one(2) by blast
    ultimately show ?thesis using False one(5) keys unfold by auto
  qed
qed

lemma upload_packs_kept:
  assumes "inv s" and "room (2 * length js + n) s" and "\<forall>j \<in> set js. \<forall>p. pq_pack j = Some p \<longrightarrow> small_pack api files p"
  shows "\<exists>s'. upload_packs api files rid js seen s = (s', None) \<and> inv s' \<and> room n s'
    \<and> (\<forall>k. \<not> is_pack_key rid k \<longrightarrow> look s' k = look s k)"
  using assms
proof (induction js arbitrary: seen s)
  case (Cons j js)
  have weaker: "room (2 * length js + n) s" using Cons.prems(2) room_less by simp
  show ?case
  proof (cases "\<exists>p. pq_pack j = Some p \<and> pp_checksum p \<notin> set seen")
    case True
    then obtain p where p: "pq_pack j = Some p" "pp_checksum p \<notin> set seen" by blast
    have "room (Suc (Suc (2 * length js + n))) s" using Cons.prems(2) by simp
    from upload_pack_kept [OF Cons.prems(1) this, of files p rid] Cons.prems(3) p(1)
    obtain s1 where s1: "upload_pack api files rid p s = (s1, None)" "inv s1" "room (2 * length js + n) s1"
      "\<forall>k. \<not> is_pack_key rid k \<longrightarrow> look s1 k = look s k" by auto
    with Cons.IH [of s1 "pp_checksum p # seen"] Cons.prems(3) p show ?thesis by auto
  next
    case False
    then have "upload_packs api files rid (j # js) seen s = upload_packs api files rid js seen s"
      by (auto split: option.split)
    with Cons.IH [of s seen] Cons.prems weaker show ?thesis by auto
  qed
qed simp

lemma claim_free_slot:
  assumes "inv s" and "room (Suc n) s" and "look s (repo_key rid (log_segment_key f)) = None"
  shows "\<exists>s' v. claim_slot (Suc fuel) api rid entries f streak burned s
      = Some (s', Claimed f (log_segment_key f) v (encode_segment (renumber f entries)), burned)
    \<and> inv s' \<and> room n s' \<and> v \<noteq> [] \<and> look s' = (look s)(repo_key rid (log_segment_key f) \<mapsto> (v, encode_segment (renumber f entries)))"
  using put_admitted [OF assms(1,2), of "repo_key rid (log_segment_key f)" "put_create x_protobuf" "encode_segment (renumber f entries)"] assms(3)
  by (auto simp: admits_create Let_def)

lemma sidecar_kept:
  assumes "inv s" and "room (Suc n) s"
  shows "inv (write_sidecar api rid m es valid now s) \<and> room n (write_sidecar api rid m es valid now s)
    \<and> (\<forall>k. k \<noteq> repo_key rid ''meta/stats.json'' \<longrightarrow> look (write_sidecar api rid m es valid now s) k = look s k)"
proof (cases "batch_writes_sidecar es")
  case True
  obtain sz objs where so: "stats_size_of (mf_packs m) = (sz, objs)" by (cases "stats_size_of (mf_packs m)")
  let ?b = "encode_stats_sidecar sz objs (mf_head_seq m) now (last_activity valid)"
  let ?o = "\<lparr>po_mode = PutOverwrite, po_if_version = [], po_content_type = ''application/json'', po_immutable = False\<rparr>"
  have "put_admits ?o cur" for cur by (simp add: put_admits_def)
  with put_admitted [OF assms, of "repo_key rid ''meta/stats.json''" ?o ?b] True so show ?thesis
    by (auto simp: write_sidecar_def)
qed (use assms room_less in \<open>simp add: write_sidecar_def\<close>)

lemma cas_current:
  assumes "inv s" and "room (Suc n) s" and "look s (manifest_key rid) = Some (v, b)"
  shows "\<exists>s' v'. cas_manifest api rid v sk sv m s = (s', CasCommitted v') \<and> inv s' \<and> room n s' \<and> v' \<noteq> []
    \<and> look s' = (look s)(manifest_key rid \<mapsto> (v', marshal_manifest m))"
proof -
  have "v \<noteq> []" using look_used assms(1,3) by blast
  then have "put_admits (manifest_options v) (look s (manifest_key rid))"
    using assms(3) by (simp add: manifest_options_def put_update_def put_admits_def Let_def)
  then show ?thesis
    using put_admitted [OF assms(1,2), of "manifest_key rid" "manifest_options v" "marshal_manifest m"]
    by (auto simp: cas_manifest_def Let_def manifest_repo_key)
qed

text \<open>A swap against another version restarts, and takes the segment back.\<close>

lemma cas_stale:
  assumes "inv s" and "look s (manifest_key rid) = Some (v, b)" and "w \<noteq> v"
    and "look s (repo_key rid sk) = Some (sv, body)"
  shows "\<exists>s'. cas_manifest api rid w sk sv m s = (s', CasRestart) \<and> inv s' \<and> (\<forall>n. room n s \<longrightarrow> room n s')
    \<and> look s' = (look s)(repo_key rid sk := None)"
proof -
  let ?k = "manifest_key rid"
  have sv: "sv \<noteq> []" using look_used assms(1,4) by blast
  have "\<not> put_admits (manifest_options w) (look s ?k)"
    using assms(2,3) by (auto simp: manifest_options_def put_update_def put_admits_def Let_def)
  from put_not_admitted [OF assms(1) _ this, of "marshal_manifest m"] obtain s1 e where
    s1: "sa_put api ?k (bytes_body (marshal_manifest m)) (manifest_options w) s = (s1, Inl e)" "is_precondition_failed e"
      "inv s1" "look s1 = look s" "\<forall>n. room n s \<longrightarrow> room n s1" by (auto simp: manifest_repo_key)
  obtain s2 err where s2: "sa_delete api (repo_key rid sk) sv s1 = (s2, err)" by (cases "sa_delete api (repo_key rid sk) sv s1")
  from delete_frame [OF s1(3) s2] assms(4) s1 s2 sv show ?thesis by (simp add: cas_manifest_def Let_def)
qed

end

section \<open>What a commit leaves in the handle\<close>

lemma note_time_frame:
  "h_dir (fold (\<lambda>e. note_entry_time (le_created_at e)) es h) = h_dir h"
  "h_state (fold (\<lambda>e. note_entry_time (le_created_at e)) es h) = h_state h"
  "h_id (fold (\<lambda>e. note_entry_time (le_created_at e)) es h) = h_id h"
  by (induction es arbitrary: h) (simp_all add: note_entry_time_def Let_def split: option.split)

lemma after_entry_frame:
  "h_dir (fold after_entry es h) = h_dir h" "h_manifest (fold after_entry es h) = h_manifest h"
  "h_version (fold after_entry es h) = h_version h" "h_id (fold after_entry es h) = h_id h"
  "rs_applied_seq (h_state (fold after_entry es h)) = rs_applied_seq (h_state h)"
  by (induction es arbitrary: h) (simp_all add: after_entry_def add_removals_def update_state_def Let_def)

lemma commit_handle_applied:
  assumes "commit_refs es (h_dir h) = (d, True)"
  shows "h_dir (commit_handle m v es h) = d \<and> h_manifest (commit_handle m v es h) = m
    \<and> h_version (commit_handle m v es h) = v \<and> h_id (commit_handle m v es h) = h_id h
    \<and> rs_applied_seq (h_state (commit_handle m v es h)) = mf_head_seq m"
  using assms
  by (simp add: commit_handle_def after_entry_frame note_time_frame update_state_def commit_state_def Let_def)

lemma commit_refs_view:
  assumes "dir_ok d" and "list_all entry_ok es"
  shows "\<exists>d'. commit_refs es d = (d', True) \<and> dir_ok d' \<and> dir_view d' = replay_view (entry_txns es) (dir_view d)"
  using assms(1) apply_txns_view [OF assms(1) entry_txns_ok [OF assms(2)]]
  by (cases "entry_txns es = []") (simp_all add: commit_refs_def replay_view_def)

text \<open>The number of jobs never changes, so there is exactly one answer per job.\<close>

lemma length_verify_jobs [simp]: "length (verify_jobs prev view js) = length js"
  by (induction prev view js rule: verify_jobs.induct) (simp_all split: prod.split)

lemma map_fst_verify_jobs: "map fst (verify_jobs prev view js) = js"
  by (induction prev view js rule: verify_jobs.induct) (simp_all split: prod.split)

lemma length_batch_replies [simp]: "length (batch_replies cs es) = length cs"
  by (induction cs es rule: batch_replies.induct) simp_all

lemma set_valid_jobs: "set (valid_jobs (verify_jobs prev view js)) \<subseteq> set js"
proof -
  have "set (valid_jobs cs) \<subseteq> set (map fst cs)" for cs by (auto simp: valid_jobs_def)
  then show ?thesis by (metis map_fst_verify_jobs)
qed

context publisher_store
begin

lemma run_batch_commits:
  fixes h :: repo_handle and batch :: "publish_request list" and now :: go_time
  defines "checked \<equiv> verify_jobs (h_last_entry_time h) (new_ref_overlay (dir_refs (h_dir h))) batch"
  defines "valid \<equiv> valid_jobs checked" and "f \<equiv> mf_head_seq (h_manifest h) + 1"
  defines "es \<equiv> build_entries (h_instance h) now f valid"
  defines "m' \<equiv> build_next_manifest (h_manifest h) es f f (encode_segment es) (h_instance h) now"
  assumes s: "inv s" "room (2 * length valid + 3) s" and synced: "list_all pq_synced batch" and "valid \<noteq> []"
    and man: "look s (manifest_key (h_id h)) = Some (h_version h, b)"
    and slot: "look s (repo_key (h_id h) (log_segment_key f)) = None"
    and packs: "\<forall>j \<in> set valid. \<forall>p. pq_pack j = Some p \<longrightarrow> small_pack api files p"
    and stored: "log_stored (look s) (h_id h) (h_manifest h) hist" "checkpoint_stored (look s) (h_id h) (h_manifest h) hist v0"
    and dir: "local_at (h_dir h) hist v0"
    and fits: "unat (mf_head_seq (h_manifest h)) + 1 + length valid \<le> 2 ^ 64" "list_all wf_entry es" "list_all entry_ok es"
  shows "\<exists>s' h' v. run_batch api files (Suc fuel) retries now batch s h = Some (s', h', batch_replies checked es)
    \<and> inv s' \<and> look s' (manifest_key (h_id h)) = Some (v, marshal_manifest m') \<and> h_manifest h' = m' \<and> h_version h' = v
    \<and> log_stored (look s') (h_id h) m' (hist @ map canon_log_entry es)
    \<and> checkpoint_stored (look s') (h_id h) m' (hist @ map canon_log_entry es) v0
    \<and> local_at (h_dir h') (hist @ map canon_log_entry es) v0
    \<and> unat (mf_head_seq m') = unat (mf_head_seq (h_manifest h)) + length valid"
proof -
  let ?rid = "h_id h" and ?sk = "repo_key (h_id h) (log_segment_key f)"
  have es_ren: "renumber f es = es" by (simp add: es_def)
  have d: "dir_ok (h_dir h)" using dir by (simp add: local_at_def)
  have "room (2 * length valid + Suc (Suc 1)) s" using s(2) by (simp add: numeral_3_eq_3)
  from upload_packs_kept [OF s(1) this packs, where seen = "[]" and rid = "h_id h"] obtain s1 where s1: "upload_packs api files ?rid valid [] s = (s1, None)" "inv s1" "room (Suc (Suc 1)) s1"
    "\<forall>k. \<not> is_pack_key ?rid k \<longrightarrow> look s1 k = look s k" by blast
  have slot1: "look s1 ?sk = None" using s1(4) slot by simp
  from claim_free_slot [OF s1(2,3) slot1, of fuel es 0 "[]"] obtain s2 sv where
    s2: "claim_slot (Suc fuel) api ?rid es f 0 [] s1 = Some (s2, Claimed f (log_segment_key f) sv (encode_segment es), [])"
      "inv s2" "room (Suc 1) s2" "look s2 = (look s1)(?sk \<mapsto> (sv, encode_segment es))"
    unfolding es_ren by blast
  let ?s3 = "write_sidecar api ?rid m' es valid now s2"
  have s3: "inv ?s3" "room (Suc 0) ?s3" "\<forall>k. k \<noteq> repo_key ?rid ''meta/stats.json'' \<longrightarrow> look ?s3 k = look s2 k"
    using sidecar_kept [OF s2(2,3), of ?rid m' es valid now] by simp_all
  have "look ?s3 (manifest_key ?rid) = Some (h_version h, b)"
    using s1(4) s2(4) s3(3) man by (simp add: manifest_repo_key log_key_neq [THEN not_sym])
  from cas_current [OF s3(1,2) this, of "log_segment_key f" sv m'] obtain s4 v where
    s4: "cas_manifest api ?rid (h_version h) (log_segment_key f) sv m' ?s3 = (s4, CasCommitted v)" "inv s4"
      "look s4 = (look ?s3)(manifest_key ?rid \<mapsto> (v, marshal_manifest m'))" by blast
  obtain d' where d': "commit_refs es (h_dir h) = (d', True)" "dir_ok d'" "dir_view d' = replay_view (entry_txns es) (dir_view (h_dir h))"
    using commit_refs_view [OF d fits(3)] by blast
  let ?h' = "commit_handle m' v es h"
  have h': "h_dir ?h' = d'" "h_manifest ?h' = m'" "h_version ?h' = v" using commit_handle_applied [OF d'(1), of m' v] by simp_all
  have run: "run_batch api files (Suc fuel) retries now batch s h = Some (s4, ?h', batch_replies checked es)"
  proof -
    obtain k where k: "(if retries = 0 then 16 else retries) = Suc k" by (cases retries) auto
    have "run_attempts api files (Suc fuel) now batch (h_last_entry_time h) (Suc k) [] s h = Some (s4, ?h', batch_replies checked es)"
      using \<open>valid \<noteq> []\<close> s1(1) s2(1) s4(1) snapshot_dir [OF d]
      by (simp add: Let_def checked_def [symmetric] valid_def [symmetric] f_def [symmetric] es_def [symmetric] es_ren
          m'_def [symmetric] commit_local_def sweep_burned_def del: claim_slot.simps)
    with k synced show ?thesis by (simp add: run_batch_def)
  qed
  have frame: "look s4 (repo_key ?rid k) = look s (repo_key ?rid k)"
    if "\<not> is_pack_key ?rid (repo_key ?rid k)" "k \<noteq> log_segment_key f" "k \<noteq> ''manifest.pb''" "k \<noteq> ''meta/stats.json''" for k
    using that s1(4) s2(4) s3(3) s4(3) by (simp add: manifest_repo_key)
  have seg4: "look s4 ?sk = Some (sv, encode_segment es)"
    using s2(4) s3(3) s4(3) by (simp add: manifest_repo_key)
  have ext: "log_stored (look s4) ?rid m' (hist @ map canon_log_entry es)
      \<and> checkpoint_stored (look s4) ?rid m' (hist @ map canon_log_entry es) v0
      \<and> unat (mf_head_seq m') = unat (mf_head_seq (h_manifest h)) + length valid"
  proof -
    have "es = build_entries (h_instance h) now (mf_head_seq (h_manifest h) + 1) valid" by (simp only: es_def f_def)
    moreover have "m' = build_next_manifest (h_manifest h) es f (mf_head_seq (h_manifest h) + 1) (encode_segment es) (h_instance h) now"
      by (simp only: m'_def f_def)
    ultimately show ?thesis
      using seg4
      by (intro log_stored_extend [OF stored \<open>valid \<noteq> []\<close> fits(1) _ fits(2,3)]) (simp_all add: frame f_def)
  qed
  have "local_at d' (hist @ map canon_log_entry es) v0"
    using d'(2,3) dir by (simp add: local_at_def entry_txns_append replay_view_append)
  with run s4 h' ext show ?thesis by (simp add: manifest_repo_key)
qed

end

interpretation memory_publisher: publisher_store mem_api mem_look mem_used mem_inv mem_room "\<lambda>k. k \<noteq> []"
  by unfold_locales simp

context publisher_store
begin

text \<open>
  One attempt of a publisher whose version is not the stored one: everything is uploaded, the swap
  is refused, the segment goes, and the next attempt starts from the same handle.
\<close>

lemma stale_attempt:
  fixes h :: repo_handle and batch :: "publish_request list" and t :: go_time
  defines "valid \<equiv> valid_jobs (verify_jobs t (new_ref_overlay (fst (layer_snapshot (h_dir h)))) batch)"
    and "sk \<equiv> repo_key (h_id h) (log_segment_key (mf_head_seq (h_manifest h) + 1))"
  assumes s: "inv s" "room (2 * length valid + 2 + n) s" and "valid \<noteq> []"
    and man: "look s (manifest_key (h_id h)) = Some (v, b)" "h_version h \<noteq> v" and slot: "look s sk = None"
    and packs: "\<forall>j \<in> set valid. \<forall>p. pq_pack j = Some p \<longrightarrow> small_pack api files p"
  shows "\<exists>s'. run_attempts api files (Suc fuel) now batch t (Suc k) burned s h
      = run_attempts api files (Suc fuel) now batch t k burned s' h
    \<and> inv s' \<and> room n s' \<and> (\<forall>k. \<not> is_pack_key (h_id h) k \<longrightarrow> k \<noteq> repo_key (h_id h) ''meta/stats.json'' \<longrightarrow> look s' k = look s k)"
proof -
  let ?rid = "h_id h" and ?f = "mf_head_seq (h_manifest h) + 1"
  let ?es = "build_entries (h_instance h) now ?f valid"
  let ?m' = "build_next_manifest (h_manifest h) ?es ?f ?f (encode_segment ?es) (h_instance h) now"
  have "room (2 * length valid + Suc (Suc n)) s" using s(2) by (simp add: numeral_2_eq_2)
  from upload_packs_kept [OF s(1) this packs, where seen = "[]" and rid = ?rid] obtain s1 where
    s1: "upload_packs api files ?rid valid [] s = (s1, None)" "inv s1" "room (Suc (Suc n)) s1"
      "\<forall>k. \<not> is_pack_key ?rid k \<longrightarrow> look s1 k = look s k" by blast
  have "look s1 sk = None" using s1(4) slot by (simp add: sk_def)
  from claim_free_slot [OF s1(2,3) this [unfolded sk_def], of fuel ?es 0 burned] obtain s2 sv where
    s2: "claim_slot (Suc fuel) api ?rid ?es ?f 0 burned s1 = Some (s2, Claimed ?f (log_segment_key ?f) sv (encode_segment ?es), burned)"
      "inv s2" "room (Suc n) s2" "look s2 = (look s1)(sk \<mapsto> (sv, encode_segment ?es))"
    by (auto simp: sk_def simp del: claim_slot.simps)
  let ?s3 = "write_sidecar api ?rid ?m' ?es valid now s2"
  have s3: "inv ?s3" "room n ?s3" "\<forall>k. k \<noteq> repo_key ?rid ''meta/stats.json'' \<longrightarrow> look ?s3 k = look s2 k"
    using sidecar_kept [OF s2(2,3), of ?rid ?m' ?es valid now] by simp_all
  have "look ?s3 (manifest_key ?rid) = Some (v, b)"
    using s1(4) s2(4) s3(3) man by (simp add: manifest_repo_key sk_def log_key_neq [THEN not_sym])
  moreover have "look ?s3 sk = Some (sv, encode_segment ?es)" using s2(4) s3(3) by (simp add: sk_def)
  ultimately obtain s4 where s4: "cas_manifest api ?rid (h_version h) (log_segment_key ?f) sv ?m' ?s3 = (s4, CasRestart)"
      "inv s4" "\<forall>n. room n ?s3 \<longrightarrow> room n s4" "look s4 = (look ?s3)(sk := None)"
    using cas_stale [OF s3(1) _ man(2), of ?rid b "log_segment_key ?f" sv "encode_segment ?es" ?m'] by (auto simp: sk_def)
  have "run_attempts api files (Suc fuel) now batch t (Suc k) burned s h = run_attempts api files (Suc fuel) now batch t k burned s4 h"
    using \<open>valid \<noteq> []\<close> s1(1) s2(1) s4(1)
    by (subst run_attempts.simps) (simp add: Let_def valid_def [symmetric] del: claim_slot.simps run_attempts.simps)
  moreover have "look s4 k = look s k" if "\<not> is_pack_key ?rid k" "k \<noteq> repo_key ?rid ''meta/stats.json''" for k
    using that s1(4) s2(4) s3(3) s4(4) slot by (simp add: sk_def)
  ultimately show ?thesis using s4 s3(2) by blast
qed

lemma stale_attempts_exhaust:
  fixes h :: repo_handle and batch :: "publish_request list" and t :: go_time
  defines "valid \<equiv> valid_jobs (verify_jobs t (new_ref_overlay (fst (layer_snapshot (h_dir h)))) batch)"
    and "sk \<equiv> repo_key (h_id h) (log_segment_key (mf_head_seq (h_manifest h) + 1))"
  assumes "inv s" and "room (k * (2 * length valid + 2)) s" and "valid \<noteq> []"
    and "look s (manifest_key (h_id h)) = Some (v, b)" and "h_version h \<noteq> v" and "look s sk = None"
    and "\<forall>j \<in> set valid. \<forall>p. pq_pack j = Some p \<longrightarrow> small_pack api files p"
  shows "\<exists>s'. run_attempts api files (Suc fuel) now batch t k [] s h = Some (s', h, reply_all batch WalErrRetry)
    \<and> (\<forall>k. \<not> is_pack_key (h_id h) k \<longrightarrow> k \<noteq> repo_key (h_id h) ''meta/stats.json'' \<longrightarrow> look s' k = look s k)"
  using assms(3-)
proof (induction k arbitrary: s)
  case 0
  then show ?case by (simp add: sweep_burned_def)
next
  case (Suc k)
  have "room (2 * length valid + 2 + k * (2 * length valid + 2)) s" using Suc.prems(2) by (simp add: ac_simps)
  from stale_attempt [OF Suc.prems(1) this [unfolded valid_def] Suc.prems(3) [unfolded valid_def] Suc.prems(4,5)
      Suc.prems(6) [unfolded sk_def] Suc.prems(7) [unfolded valid_def], of fuel now k "[]"]
  obtain s1 where s1: "run_attempts api files (Suc fuel) now batch t (Suc k) [] s h = run_attempts api files (Suc fuel) now batch t k [] s1 h"
    "inv s1" "room (k * (2 * length valid + 2)) s1"
    "\<forall>k. \<not> is_pack_key (h_id h) k \<longrightarrow> k \<noteq> repo_key (h_id h) ''meta/stats.json'' \<longrightarrow> look s1 k = look s k"
    unfolding valid_def by blast
  have "look s1 (manifest_key (h_id h)) = Some (v, b)" and "look s1 sk = None"
    using s1(4) Suc.prems(4,6) by (simp_all add: manifest_repo_key sk_def)
  from Suc.IH [OF s1(2,3) Suc.prems(3) this(1) Suc.prems(5) this(2) Suc.prems(7)] s1(1,4) show ?case by auto
qed

text \<open>Sweeping leaves alone every key that the stored manifest lists, and every key it was not given.\<close>

lemma head_present:
  assumes "inv s" and "sa_head api k s = (s', r)"
  shows "inv s' \<and> look s' = look s \<and> r = Inr (map_option (\<lambda>(v, b). \<lparr>om_key = k, om_size = int (length b), om_version = v\<rparr>) (look s k))"
  using head_law [OF assms] by blast

lemma sweep_keys_look:
  assumes "inv s"
  shows "inv (sweep_keys api rid keep ks s)
    \<and> look (sweep_keys api rid keep ks s) = (\<lambda>k. if \<exists>x \<in> set ks. x \<notin> set keep \<and> k = repo_key rid x then None else look s k)"
  using assms
proof (induction ks arbitrary: s)
  case (Cons x ks)
  show ?case
  proof (cases "x \<in> set keep")
    case True
    with Cons.IH [OF Cons.prems] show ?thesis by (auto simp: fun_eq_iff)
  next
    case False
    obtain s1 r where r: "sa_head api (repo_key rid x) s = (s1, r)" by (cases "sa_head api (repo_key rid x) s")
    note s1 = head_present [OF Cons.prems r]
    show ?thesis
    proof (cases "look s (repo_key rid x)")
      case None
      with False r s1 Cons.IH [of s1] show ?thesis by (auto simp: fun_eq_iff)
    next
      case (Some vb)
      obtain v b where vb: "vb = (v, b)" by (cases vb)
      obtain s2 err where d: "sa_delete api (repo_key rid x) v s1 = (s2, err)" by (cases "sa_delete api (repo_key rid x) v s1")
      have inv1: "inv s1" using s1 by blast
      have "inv s2 \<and> look s2 = (look s)(repo_key rid x := None)" using delete_frame [OF inv1 d] s1 Some vb by simp
      with False r s1 Some vb d Cons.IH [of s2] show ?thesis by (auto simp: fun_eq_iff)
    qed
  qed
qed simp

lemma fresh_head_stored:
  assumes "inv s" and "look s (manifest_key rid) = Some (v, b)" and "decode_manifest b = Inr m"
  shows "\<exists>s'. fresh_head api rid s = (s', Inr (Some m)) \<and> inv s' \<and> look s' = look s \<and> (\<forall>n. room n s \<longrightarrow> room n s')"
  using get_bytes_present [OF assms(1,2)] assms(3) by (auto simp: fresh_head_def)

lemma sweep_burned_look:
  assumes "inv s" and "look s (manifest_key rid) = Some (v, b)" and "decode_manifest b = Inr m" and "burned \<noteq> []"
  shows "look (sweep_burned api rid burned s) k =
    (if \<exists>x \<in> snd ` set burned. x \<notin> sg_key ` set (mf_log_segments m) \<and> k = repo_key rid x then None else look s k)"
proof -
  obtain s1 where s1: "fresh_head api rid s = (s1, Inr (Some m))" "inv s1" "look s1 = look s"
    using fresh_head_stored [OF assms(1,2,3)] by blast
  with assms(4) sweep_keys_look [OF s1(2), of rid "map sg_key (mf_log_segments m)" "map snd burned"] show ?thesis
    by (auto simp: sweep_burned_def)
qed

end

section \<open>Occupied slots\<close>

text \<open>The slots a claim burns, from the first one it tries.\<close>

fun burn_slots :: "nat \<Rightarrow> u64 \<Rightarrow> (u64 \<times> string) list \<Rightarrow> (u64 \<times> string) list" where
  "burn_slots 0 f burned = burned"
| "burn_slots (Suc k) f burned = burn_slots k (f + 1) (map_put f (log_segment_key f) burned)"

lemma succ_less: "unat f + Suc k < 2 ^ 64 \<Longrightarrow> unat (f + 1) = unat f + 1 \<and> f < f + 1" for f :: u64
  using unat_add_small [of f 1] by (simp add: word_less_nat_alt)

context publisher_store
begin

lemma probe_present:
  assumes "inv s" and "look s k = Some (v, b)"
  shows "\<exists>s'. probe_slot api k n s = (s', Inr True) \<and> inv s' \<and> look s' = look s \<and> (\<forall>n. room n s \<longrightarrow> room n s')"
  using assms
proof (induction n arbitrary: s)
  case (Suc n)
  obtain s1 r where r: "sa_head api k s = (s1, r)" by (cases "sa_head api k s")
  from head_law [OF Suc.prems(1) r] Suc.prems(2) r Suc.IH [of s1] show ?case by (auto simp: exists_op_def)
qed simp

lemma claim_occupied:
  assumes "inv s" and "look s (repo_key rid (log_segment_key f)) \<noteq> None"
    and man: "look s (manifest_key rid) = Some (v, b)" "decode_manifest b = Inr m" "mf_head_seq m < f"
  shows "\<exists>s'. claim_slot (Suc fuel) api rid es f streak burned s =
      (if max_burns < streak + 1 then Some (s', ClaimError WalErrCorrupt, burned)
       else claim_slot fuel api rid es (f + 1) (streak + 1) (map_put f (log_segment_key f) burned) s')
    \<and> inv s' \<and> look s' = look s \<and> (\<forall>n. room n s \<longrightarrow> room n s')"
proof -
  let ?k = "repo_key rid (log_segment_key f)"
  obtain s1 e where s1: "sa_put api ?k (bytes_body (encode_segment (renumber f es))) (put_create x_protobuf) s = (s1, Inl e)"
    "inv s1" "look s1 = look s" "\<forall>n. room n s \<longrightarrow> room n s1"
    using put_not_admitted [OF assms(1), of ?k "put_create x_protobuf" "encode_segment (renumber f es)"] assms(2)
    by (auto simp: admits_create)
  obtain s2 where s2: "fresh_head api rid s1 = (s2, Inr (Some m))" "inv s2" "look s2 = look s1" "\<forall>n. room n s1 \<longrightarrow> room n s2"
    using fresh_head_stored [OF s1(2), of rid v b m] man s1(3) by auto
  obtain w c where "look s ?k = Some (w, c)" using assms(2) by (cases "look s ?k") auto
  then have "look s2 ?k = Some (w, c)" using s1(3) s2(3) by simp
  from probe_present [OF s2(2) this, of orphan_probes] obtain s3 where s3: "probe_slot api ?k orphan_probes s2 = (s3, Inr True)"
    "inv s3" "look s3 = look s2" "\<forall>n. room n s2 \<longrightarrow> room n s3" by blast
  have behind: "\<not> f \<le> mf_head_seq m" using man(3) by simp
  have "claim_slot (Suc fuel) api rid es f streak burned s =
      (if max_burns < streak + 1 then Some (s3, ClaimError WalErrCorrupt, burned)
       else claim_slot fuel api rid es (f + 1) (streak + 1) (map_put f (log_segment_key f) burned) s3)"
    using s1(1) s2(1) s3(1) behind by (simp add: Let_def)
  with s1 s2 s3 show ?thesis by auto
qed

lemma claim_burns:
  assumes "inv s" and "room (Suc n) s" and "streak + k \<le> max_burns" and "unat f + Suc k < 2 ^ 64"
    and "\<forall>i < k. look s (repo_key rid (log_segment_key (f + word_of_nat i))) \<noteq> None"
    and "look s (repo_key rid (log_segment_key (f + word_of_nat k))) = None"
    and "look s (manifest_key rid) = Some (v, b)" and "decode_manifest b = Inr m" and "mf_head_seq m < f"
  shows "\<exists>s' sv. claim_slot (Suc (k + fuel)) api rid es f streak burned s =
      Some (s', Claimed (f + word_of_nat k) (log_segment_key (f + word_of_nat k)) sv (encode_segment (renumber (f + word_of_nat k) es)),
            burn_slots k f burned)
    \<and> look s' = (look s)(repo_key rid (log_segment_key (f + word_of_nat k)) \<mapsto> (sv, encode_segment (renumber (f + word_of_nat k) es)))"
  using assms
proof (induction k arbitrary: f streak burned s)
  case 0
  have free: "look s (repo_key rid (log_segment_key f)) = None" using 0(6) by simp
  show ?case
    using claim_free_slot [OF 0(1,2) free, of fuel es streak burned]
    by (elim exE conjE, intro exI conjI) (simp_all del: claim_slot.simps add: fun_upd_def)
next
  case (Suc k)
  have f0: "look s (repo_key rid (log_segment_key f)) \<noteq> None" using Suc.prems(5) by fastforce
  obtain s1 where s1: "claim_slot (Suc (Suc k + fuel)) api rid es f streak burned s =
      (if max_burns < streak + 1 then Some (s1, ClaimError WalErrCorrupt, burned)
       else claim_slot (Suc k + fuel) api rid es (f + 1) (streak + 1) (map_put f (log_segment_key f) burned) s1)"
    "inv s1" "look s1 = look s" "\<forall>n. room n s \<longrightarrow> room n s1"
    using claim_occupied [OF Suc.prems(1) f0 Suc.prems(7,8,9)] by blast
  have f1: "unat (f + 1) = unat f + 1" "f < f + 1" using succ_less [of f "Suc k"] Suc.prems(4) by auto
  have shift: "f + 1 + word_of_nat i = f + word_of_nat (Suc i)" for i by simp
  have "\<exists>s' sv. claim_slot (Suc (k + fuel)) api rid es (f + 1) (streak + 1) (map_put f (log_segment_key f) burned) s1 =
      Some (s', Claimed (f + 1 + word_of_nat k) (log_segment_key (f + 1 + word_of_nat k)) sv (encode_segment (renumber (f + 1 + word_of_nat k) es)),
            burn_slots k (f + 1) (map_put f (log_segment_key f) burned))
    \<and> look s' = (look s1)(repo_key rid (log_segment_key (f + 1 + word_of_nat k)) \<mapsto> (sv, encode_segment (renumber (f + 1 + word_of_nat k) es)))"
  proof (rule Suc.IH)
    show "\<forall>i < k. look s1 (repo_key rid (log_segment_key (f + 1 + word_of_nat i))) \<noteq> None"
      using Suc.prems(5) s1(3) unfolding shift by (auto simp del: of_nat_Suc)
    show "look s1 (repo_key rid (log_segment_key (f + 1 + word_of_nat k))) = None"
      using Suc.prems(6) s1(3) unfolding shift by simp
    show "unat (f + 1) + Suc k < 2 ^ 64" using f1(1) Suc.prems(4) by simp
    show "mf_head_seq m < f + 1" using f1(2) Suc.prems(9) by (rule order.strict_trans [rotated])
  qed (use s1 Suc.prems in auto)
  moreover have "\<not> max_burns < streak + 1" using Suc.prems(3) by simp
  moreover from this s1(1) have "claim_slot (Suc (Suc k + fuel)) api rid es f streak burned s =
      claim_slot (Suc (k + fuel)) api rid es (f + 1) (streak + 1) (map_put f (log_segment_key f) burned) s1"
    by (simp del: claim_slot.simps)
  ultimately show ?case using s1(3) unfolding shift burn_slots.simps by (simp only:)
qed

lemma claim_gives_up:
  assumes "inv s" and "streak + k = Suc max_burns" and "0 < k" and "unat f + Suc k < 2 ^ 64"
    and "\<forall>i < k. look s (repo_key rid (log_segment_key (f + word_of_nat i))) \<noteq> None"
    and "look s (manifest_key rid) = Some (v, b)" and "decode_manifest b = Inr m" and "mf_head_seq m < f"
  shows "\<exists>s'. claim_slot (k + fuel) api rid es f streak burned s =
      Some (s', ClaimError WalErrCorrupt, burn_slots (k - 1) f burned) \<and> look s' = look s"
  using assms
proof (induction k arbitrary: f streak burned s)
  case (Suc k)
  have f0: "look s (repo_key rid (log_segment_key f)) \<noteq> None" using Suc.prems(5) by fastforce
  obtain s1 where s1: "claim_slot (Suc (k + fuel)) api rid es f streak burned s =
      (if max_burns < streak + 1 then Some (s1, ClaimError WalErrCorrupt, burned)
       else claim_slot (k + fuel) api rid es (f + 1) (streak + 1) (map_put f (log_segment_key f) burned) s1)"
    "inv s1" "look s1 = look s" "\<forall>n. room n s \<longrightarrow> room n s1"
    using claim_occupied [OF Suc.prems(1) f0 Suc.prems(6,7,8)] by blast
  show ?case
  proof (cases k)
    case 0
    with s1 Suc.prems(2) show ?thesis by (auto simp del: claim_slot.simps)
  next
    case (Suc k')
    have f1: "unat (f + 1) = unat f + 1" "f < f + 1" using succ_less [of f "Suc k"] Suc.prems(4) by auto
    have shift: "f + 1 + word_of_nat i = f + word_of_nat (Suc i)" for i by simp
    have "\<exists>s'. claim_slot (k + fuel) api rid es (f + 1) (streak + 1) (map_put f (log_segment_key f) burned) s1 =
        Some (s', ClaimError WalErrCorrupt, burn_slots (k - 1) (f + 1) (map_put f (log_segment_key f) burned)) \<and> look s' = look s1"
    proof (rule Suc.IH)
      show "\<forall>i < k. look s1 (repo_key rid (log_segment_key (f + 1 + word_of_nat i))) \<noteq> None"
        using Suc.prems(5) s1(3) unfolding shift by (auto simp del: of_nat_Suc)
      show "unat (f + 1) + Suc k < 2 ^ 64" using f1(1) Suc.prems(4) by simp
      show "mf_head_seq m < f + 1" using f1(2) Suc.prems(8) by (rule order.strict_trans [rotated])
    qed (use s1 Suc.prems Suc in auto)
    moreover have "\<not> max_burns < streak + 1" using Suc.prems(2) Suc by simp
    ultimately show ?thesis using s1(1,3) Suc by (auto simp del: claim_slot.simps)
  qed
qed simp

end

section \<open>Stores that misbehave\<close>

text \<open>
  A backend whose puts are stored but answered with a retryable error, and one that refuses every
  put; reads are those of the given backend.
\<close>

definition lossy_puts :: "'s store_api \<Rightarrow> 's store_api" where
  "lossy_puts api = api\<lparr>sa_put := \<lambda>k b opts s. (fst (sa_put api k b opts s), Inl (new_retryable k None))\<rparr>"

definition refused_puts :: "go_error \<Rightarrow> 's store_api \<Rightarrow> 's store_api" where
  "refused_puts e api = api\<lparr>sa_put := \<lambda>k b opts s. (s, Inl e)\<rparr>"

lemma misbehaving_reads [simp]:
  "fresh_head (lossy_puts api) = fresh_head api" "fresh_head (refused_puts e api) = fresh_head api"
  "exists_op (refused_puts e api) = exists_op api"
  by (simp_all add: fun_eq_iff fresh_head_def get_bytes_def exists_op_def lossy_puts_def refused_puts_def)

lemma probe_slot_reads [simp]: "probe_slot (refused_puts e api) k n s = probe_slot api k n s"
  by (induction n arbitrary: s) simp_all

context publisher_store
begin

lemma cas_lost_response:
  assumes "inv s" and "room 1 s" and "look s (manifest_key rid) = Some (v, b)"
    and "wf_manifest m" and "\<exists>sg \<in> set (mf_log_segments m). sg_key sg = sk"
  shows "\<exists>s' v'. cas_manifest (lossy_puts api) rid v sk sv m s = (s', CasCommitted v')
    \<and> look s' = (look s)(manifest_key rid \<mapsto> (v', marshal_manifest m))"
proof -
  have ne: "v \<noteq> []" using look_used assms(1,3) by blast
  then have admits: "put_admits (manifest_options v) (look s (manifest_key rid))"
    using assms(3) by (simp add: manifest_options_def put_update_def put_admits_def Let_def)
  have key: "manifest_key rid \<noteq> []" by (simp add: manifest_repo_key)
  have "room (Suc 0) s" using assms(2) by simp
  from put_admitted [OF assms(1) this key admits, of "marshal_manifest m"] obtain s1 v1 where
    s1: "sa_put api (manifest_key rid) (bytes_body (marshal_manifest m)) (manifest_options v) s
        = (s1, Inr \<lparr>om_key = manifest_key rid, om_size = int (length (marshal_manifest m)), om_version = v1\<rparr>)"
      "inv s1" "look s1 = (look s)(manifest_key rid \<mapsto> (v1, marshal_manifest m))" by blast
  have "decode_manifest (marshal_manifest m) = Inr (canon_manifest m)" by (rule marshal_roundtrip(1) [OF assms(4)])
  moreover have "look s1 (manifest_key rid) = Some (v1, marshal_manifest m)" using s1(3) by simp
  ultimately obtain s2 where
    s2: "fresh_head api rid s1 = (s2, Inr (Some (canon_manifest m)))" "inv s2" "look s2 = look s1"
    using fresh_head_stored [OF s1(2)] by blast
  obtain s3 r where r: "sa_head api (manifest_key rid) s2 = (s3, r)" by (cases "sa_head api (manifest_key rid) s2")
  with head_present [OF s2(2) r] s1(3) s2(3) have s3: "look s3 = look s1" "r = Inr (Some \<lparr>om_key = manifest_key rid, om_size = int (length (marshal_manifest m)), om_version = v1\<rparr>)"
    by auto
  have "mf_log_segments (canon_manifest m) = mf_log_segments m" by (simp add: canon_manifest_def)
  then have "list_ex (\<lambda>sg. sg_key sg = sk) (mf_log_segments (canon_manifest m))" using assms(5) by (auto simp: list_ex_iff)
  moreover have "sa_put (lossy_puts api) (manifest_key rid) (bytes_body (marshal_manifest m)) (manifest_options v) s
      = (s1, Inl (new_retryable (manifest_key rid) None))"
    using s1(1) by (simp add: lossy_puts_def)
  moreover have "\<not> is_precondition_failed (new_retryable k None)" for k
    by (simp add: new_retryable_def is_precondition_failed_def)
  moreover have "sa_head (lossy_puts api) = sa_head api" by (simp add: lossy_puts_def)
  ultimately show ?thesis using s1(3) s2(1) s3 r by (simp add: cas_manifest_def Let_def)
qed

lemma probe_absent:
  assumes "inv s" and "look s k = None"
  shows "\<exists>s'. probe_slot api k (Suc n) s = (s', Inr False) \<and> inv s' \<and> look s' = look s"
proof -
  obtain s1 r where r: "sa_head api k s = (s1, r)" by (cases "sa_head api k s")
  from head_present [OF assms(1) r] assms(2) r show ?thesis by (auto simp: exists_op_def)
qed

lemma claim_refused:
  assumes "inv s" and "look s (repo_key rid (log_segment_key f)) = None"
    and "look s (manifest_key rid) = Some (v, b)" and "decode_manifest b = Inr m" and "mf_head_seq m < f"
  shows "claim_slot fuel (refused_puts e api) rid es f streak burned s = None"
  using assms(1-3)
proof (induction fuel arbitrary: s)
  case (Suc fuel)
  obtain s2 where s2: "fresh_head api rid s = (s2, Inr (Some m))" "inv s2" "look s2 = look s"
    using fresh_head_stored [OF Suc.prems(1,3) assms(4)] by blast
  with probe_absent [OF s2(2), of "repo_key rid (log_segment_key f)" 2] Suc.prems(2) obtain s3 where
    s3: "probe_slot api (repo_key rid (log_segment_key f)) orphan_probes s2 = (s3, Inr False)" "inv s3" "look s3 = look s2"
    by (auto simp: orphan_probes_def numeral_3_eq_3 simp del: probe_slot.simps)
  have "\<not> f \<le> mf_head_seq m" using assms(5) by simp
  moreover have "sa_put (refused_puts e api) k body opts s = (s, Inl e)" for k body opts by (simp add: refused_puts_def)
  moreover have "claim_slot fuel (refused_puts e api) rid es f streak burned s3 = None"
    using Suc.IH [OF s3(2)] Suc.prems s2(3) s3(3) by simp
  ultimately show ?case using s2(1) s3(1) by (simp add: Let_def)
qed simp

end

text \<open>Every way out of the ladder answers every job once.\<close>

lemma reply_all_length [simp]: "length (reply_all batch e) = length batch"
  by (simp add: reply_all_def)

lemma batch_replies_ok: "list_all (\<lambda>r. snd r = None) (batch_replies cs es)"
  by (induction cs es rule: batch_replies.induct) simp_all

definition answers :: "publish_request list \<Rightarrow> reply list \<Rightarrow> bool" where
  "answers batch rs \<longleftrightarrow> length rs = length batch \<and> ((\<exists>e. rs = reply_all batch e) \<or> list_all (\<lambda>r. snd r = None) rs)"

lemma answers_simps [simp]: "answers batch (reply_all batch e)"
  "answers batch (batch_replies (verify_jobs t view batch) es)"
  "answers batch (map (\<lambda>(j, errs). (rejection errs, None)) (verify_jobs t view batch))"
  by (simp_all add: answers_def batch_replies_ok) (auto simp: list_all_iff)

lemma run_attempts_answers:
  "run_attempts api files fuel now batch t n burned s h = Some (s', h', rs) \<Longrightarrow> answers batch rs"
proof (induction n arbitrary: burned s h)
  case (Suc n)
  from Suc.prems show ?case
    by (subst (asm) run_attempts.simps)
      (auto simp: Let_def simp del: run_attempts.simps claim_slot.simps dest: Suc.IH split: if_splits prod.splits option.splits
        claim_result.splits cas_result.splits)
qed auto

lemma burn_slots_map:
  "unat f + k < 2 ^ 64 \<Longrightarrow> \<forall>x \<in> fst ` set b. x < f \<Longrightarrow>
   burn_slots k f b = b @ map (\<lambda>i. (f + word_of_nat i, log_segment_key (f + word_of_nat i))) [0..<k]"
proof (induction k arbitrary: f b)
  case (Suc k)
  have f1: "unat (f + 1) = unat f + 1" "f < f + 1" using succ_less [of f k] Suc.prems(1) by simp_all
  have "map_put f (log_segment_key f) b = b @ [(f, log_segment_key f)]"
    using Suc.prems(2) by (intro map_put_fresh) auto
  moreover have "burn_slots k (f + 1) (b @ [(f, log_segment_key f)]) = (b @ [(f, log_segment_key f)])
      @ map (\<lambda>i. (f + 1 + word_of_nat i, log_segment_key (f + 1 + word_of_nat i))) [0..<k]"
    using Suc.prems f1 by (intro Suc.IH) (auto intro: order.strict_trans)
  moreover have "[0..<Suc k] = 0 # map Suc [0..<k]" by (simp add: map_Suc_upt upt_conv_Cons del: upt_Suc)
  ultimately show ?case by (simp add: o_def ac_simps del: upt_Suc)
qed simp

section \<open>Samples\<close>

text \<open>A repository that was just created, a handle on it, and one synced push without a pack.\<close>

definition fresh_store :: memory where
  "fresh_store =
     \<lparr>mem_objs = [(manifest_key ''o/r'', \<lparr>mo_data = marshal_manifest manifest_zero, mo_version = decimal 1, mo_content_type = []\<rparr>)],
      mem_counter = 1, mem_ops = 0\<rparr>"

definition fresh_handle :: "version \<Rightarrow> repo_handle" where
  "fresh_handle v = new_handle ''i'' ''o/r'' manifest_zero v sample_dir sample_state"

definition sample_job :: publish_request where
  "sample_job =
     \<lparr>pq_pack = None, pq_txn = Some \<lparr>tx_updates = [sample_update], tx_push_options = [], tx_atomic = False\<rparr>, pq_meta = [],
      pq_synced = True, pq_created_at = None, pq_activity = None, pq_compact = False, pq_supersedes = [],
      pq_settings = None, pq_tier = 0\<rparr>"

lemma fresh_fields [simp]:
  "h_id (fresh_handle v) = ''o/r''" "h_version (fresh_handle v) = v" "h_manifest (fresh_handle v) = manifest_zero"
  "h_dir (fresh_handle v) = sample_dir" "h_last_entry_time (fresh_handle v) = 0" "h_instance (fresh_handle v) = ''i''"
  by (simp_all add: fresh_handle_def new_handle_def note_checkpoint_ref_def manifest_zero_def)

lemma manifest_zero_fields [simp]:
  "mf_head_seq manifest_zero = 0" "mf_checkpoint manifest_zero = None" "mf_log_segments manifest_zero = []"
  by (simp_all add: manifest_zero_def)

lemma fresh_store_facts:
  "mem_inv fresh_store" "n < 1000 \<Longrightarrow> mem_room n fresh_store"
  "mem_look fresh_store (manifest_key ''o/r'') = Some (decimal 1, marshal_manifest manifest_zero)"
  "k \<noteq> manifest_key ''o/r'' \<Longrightarrow> mem_look fresh_store k = None"
  by (simp_all add: fresh_store_def mem_inv_def mem_used_def mem_room_def undecimal_decimal mem_look_def get_locked_def sample_keys)

lemma sample_job_valid:
  "verify_jobs t (new_ref_overlay (dir_refs sample_dir)) [sample_job] = [(sample_job, [])]"
proof -
  have "valid_ref_name ''refs/heads/a''" and "valid_oid sample_oid" and "\<not> wal_is_zero_oid sample_oid"
    unfolding sample_oid_def by code_simp+
  moreover have "dir_refs sample_dir = []" by (simp add: dir_refs_def sample_dir_def parse_packed_refs_def)
  ultimately show ?thesis
    by (simp add: job_errors_def sample_job_def verify_txn_def verify_update_def valid_ref_update_def sample_update_def
        new_ref_overlay_def overlay_get_def wal_is_zero_oid_def snapshot_get_def)
qed

lemma sz_time_le: "sz_time ts \<le> 33"
proof (cases ts)
  case (Some t)
  have "size_timestamp t \<le> 22"
    using uvarint_len_le [of "ts_seconds t"] uvarint_len_le [of "scast (ts_nanos t)"]
    by (simp add: size_timestamp_def sz_uint_def size_tag_1)
  with Some uvarint_len_le [of "word_of_nat (size_timestamp t)"] show ?thesis
    by (simp add: sz_time_def size_sub_def size_len_def)
qed (simp add: sz_time_def)

lemma sample_job_entry:
  "build_entries ''i'' now 1 [sample_job] = [(build_entry ''i'' now 1 sample_job)]"
  "wf_entry (build_entry ''i'' 0 1 sample_job)" "entry_ok (build_entry ''i'' 0 1 sample_job)"
  "entry_txns [canon_log_entry (build_entry ''i'' 0 1 sample_job)] = [\<lparr>tx_updates = [sample_update], tx_push_options = [], tx_atomic = False\<rparr>]"
proof -
  let ?e = "build_entry ''i'' 0 1 sample_job"
  have txn: "le_txn ?e = le_txn sample_entry" and kind: "le_kind ?e = le_kind sample_entry" and sq: "le_seq ?e = 1"
    by (simp_all add: build_entry_def sample_job_def sample_entry_def log_entry_zero_def Let_def)
  have job: "pq_txn sample_job = le_txn sample_entry" using txn by simp
  show "entry_ok ?e" using sample_txn_ok by (simp add: entry_ok_def job kind sq sample_fields)
  show "entry_txns [canon_log_entry ?e] = [\<lparr>tx_updates = [sample_update], tx_push_options = [], tx_atomic = False\<rparr>]"
    using kind by (simp add: entry_txns_def job sample_entry_def log_entry_zero_def)
  have e: "?e = log_entry_zero\<lparr>le_seq := 1, le_kind := entry_kind_ref_update, le_writer := ''i'',
      le_txn := Some \<lparr>tx_updates = [sample_update], tx_push_options = [], tx_atomic = False\<rparr>, le_created_at := ts_ptr 0\<rparr>"
    by (simp add: build_entry_def sample_job_def log_entry_zero_def Let_def)
  show "wf_entry ?e"
    unfolding e
    using uvarint_len_le [of 1] uvarint_len_le [of 3] sz_time_le [of "ts_ptr 0"]
    by (simp add: wf_entry_def max_frame_bytes_def wf_log_entry_def log_entry_zero_def size_log_entry_def sz_defs
        wf_str_def bytes_of_def byte_of_char_def wf_map_def sz_map_def sorted_keys_def wf_ref_transaction_def size_ref_transaction_def
        wf_ref_update_def size_ref_update_def sample_update_def sample_oid_def Let_def )
qed simp_all

text \<open>The same bucket after \<open>k\<close> writers crashed between creating a segment and swapping the manifest.\<close>

definition orphan_store :: "nat \<Rightarrow> memory" where
  "orphan_store k = fresh_store\<lparr>mem_objs := mem_objs fresh_store
     @ map (\<lambda>i. (repo_key ''o/r'' (log_segment_key (1 + word_of_nat i)),
                \<lparr>mo_data = [], mo_version = decimal 1, mo_content_type = []\<rparr>)) [0..<k]\<rparr>"

lemma word_of_nat_less_inject: "i < 1000 \<Longrightarrow> j < 1000 \<Longrightarrow> (word_of_nat i :: u64) = word_of_nat j \<longleftrightarrow> i = j"
  using take_bit_nat_eq_self [of i 64] take_bit_nat_eq_self [of j 64] by (simp add: word_of_nat_eq_iff)

lemma map_of_map_upt:
  "inj_on g {..<k} \<Longrightarrow> i < k \<Longrightarrow> map_of (map (\<lambda>i. (g i, x)) [0..<k]) (g i) = Some x"
  by (rule map_of_is_SomeI) (auto simp: distinct_map inj_on_def o_def)

lemma orphan_store_facts:
  assumes "k < 1000"
  shows "mem_inv (orphan_store k)" "n < 1000 \<Longrightarrow> mem_room n (orphan_store k)"
    "mem_look (orphan_store k) (manifest_key ''o/r'') = Some (decimal 1, marshal_manifest manifest_zero)"
    "i < k \<Longrightarrow> mem_look (orphan_store k) (repo_key ''o/r'' (log_segment_key (1 + word_of_nat i))) = Some (decimal 1, [])"
    "k \<le> i \<Longrightarrow> i < 1000 \<Longrightarrow> mem_look (orphan_store k) (repo_key ''o/r'' (log_segment_key (1 + word_of_nat i))) = None"
proof -
  let ?g = "\<lambda>i. repo_key ''o/r'' (log_segment_key (1 + word_of_nat i))"
  have inj: "inj_on ?g {..<1000}" by (auto simp: inj_on_def word_of_nat_less_inject)
  then have injk: "inj_on ?g {..<k}" using assms by (auto intro: inj_on_subset)
  have ne: "?g i \<noteq> manifest_key ''o/r''" for i by (rule sample_segment_key)
  note defs = orphan_store_def fresh_store_def mem_look_def get_locked_def
  show "mem_look (orphan_store k) (manifest_key ''o/r'') = Some (decimal 1, marshal_manifest manifest_zero)"
    by (simp add: defs)
  show "mem_look (orphan_store k) (?g i) = Some (decimal 1, [])" if "i < k"
    using ne map_of_map_upt [OF injk that, of "\<lparr>mo_data = [], mo_version = decimal 1, mo_content_type = []\<rparr>"] by (simp add: defs)
  have "map_of (map (\<lambda>i. (?g i, x)) [0..<k]) (?g i) = None" if "k \<le> i" "i < 1000" for i x
    using that assms by (auto simp: map_of_eq_None_iff word_of_nat_less_inject)
  then show "mem_look (orphan_store k) (?g i) = None" if "k \<le> i" "i < 1000"
    using that ne by (simp add: defs)
  show "mem_room n (orphan_store k)" if "n < 1000" using that by (simp add: orphan_store_def fresh_store_def mem_room_def)
  have "distinct (map ?g [0..<k])" using injk by (simp add: distinct_map atLeast_upt)
  moreover have "manifest_key ''o/r'' \<notin> set (map ?g [0..<k])" using ne by (auto dest: sym)
  ultimately show "mem_inv (orphan_store k)"
    by (simp add: orphan_store_def fresh_store_def mem_inv_def mem_used_def undecimal_decimal o_def manifest_repo_key list_all_iff)
qed

lemma wf_manifest_zero: "wf_manifest manifest_zero"
  by (simp add: wf_manifest_def manifest_zero_def size_manifest_def sz_defs wf_str_def bytes_of_def)

lemma decode_manifest_zero: "decode_manifest (marshal_manifest manifest_zero) = Inr manifest_zero"
  using marshal_roundtrip(1) [OF wf_manifest_zero] by (simp add: canon_manifest_def manifest_zero_def canon_time_def)

section \<open>Properties\<close>

text \<open>
  C1: A push extends the log. On a handle that holds the stored manifest, when the next log slot is
  free and the files of the packs can be read, a synced batch with a valid job commits: every job
  is answered, the manifest in the bucket becomes the next one under a new version, which the handle
  takes over, the stored log is the old history followed by the entries of the batch, and the local
  refs are the replay of that longer history.
\<close>

theorem publish_extends_log:
  fixes h :: repo_handle and batch :: "publish_request list" and now :: go_time
  defines "checked \<equiv> verify_jobs (h_last_entry_time h) (new_ref_overlay (dir_refs (h_dir h))) batch"
  defines "valid \<equiv> valid_jobs checked" and "f \<equiv> mf_head_seq (h_manifest h) + 1"
  defines "es \<equiv> build_entries (h_instance h) now f valid"
  defines "m' \<equiv> build_next_manifest (h_manifest h) es f f (encode_segment es) (h_instance h) now"
  assumes s: "mem_inv s" "mem_room (2 * length valid + 3) s" and synced: "list_all pq_synced batch" and "valid \<noteq> []"
    and man: "mem_look s (manifest_key (h_id h)) = Some (h_version h, b)"
    and slot: "mem_look s (repo_key (h_id h) (log_segment_key f)) = None"
    and packs: "\<forall>j \<in> set valid. \<forall>p. pq_pack j = Some p \<longrightarrow> small_pack mem_api files p"
    and stored: "log_stored (mem_look s) (h_id h) (h_manifest h) hist" "checkpoint_stored (mem_look s) (h_id h) (h_manifest h) hist start"
    and dir: "local_at (h_dir h) hist start"
    and fits: "unat (mf_head_seq (h_manifest h)) + 1 + length valid \<le> 2 ^ 64" "list_all wf_entry es" "list_all entry_ok es"
  shows "\<exists>s' h' v. run_batch mem_api files (Suc fuel) retries now batch s h = Some (s', h', batch_replies checked es)
    \<and> mem_inv s' \<and> mem_look s' (manifest_key (h_id h)) = Some (v, marshal_manifest m') \<and> h_manifest h' = m' \<and> h_version h' = v
    \<and> log_stored (mem_look s') (h_id h) m' (hist @ map canon_log_entry es)
    \<and> checkpoint_stored (mem_look s') (h_id h) m' (hist @ map canon_log_entry es) start
    \<and> local_at (h_dir h') (hist @ map canon_log_entry es) start
    \<and> unat (mf_head_seq m') = unat (mf_head_seq (h_manifest h)) + length valid"
  unfolding m'_def es_def valid_def checked_def f_def
  by (rule memory_publisher.run_batch_commits [OF assms(6-) [unfolded m'_def es_def valid_def checked_def f_def]])

lemma publish_extends_log_witness:
  "\<exists>s' h' v. run_batch mem_api (\<lambda>_. None) 1 0 0 [sample_job] fresh_store (fresh_handle (decimal 1))
      = Some (s', h', [(\<lparr>pr_seq = 1, pr_per_ref = [\<lparr>rr_name = ''refs/heads/a'', rr_err = None\<rparr>]\<rparr>, None)])
    \<and> mf_head_seq (h_manifest h') = 1 \<and> mem_look s' (manifest_key ''o/r'') = Some (v, marshal_manifest (h_manifest h'))
    \<and> oids (dir_refs (h_dir h')) ''refs/heads/a'' = Some sample_oid"
proof -
  let ?h = "fresh_handle (decimal 1)" and ?e = "build_entry ''i'' 0 1 sample_job"
  note checked = sample_job_valid [of 0]
  have valid: "valid_jobs [(sample_job, [])] = [sample_job]" by (simp add: valid_jobs_def)
  have job: "pq_pack sample_job = None" "pq_synced sample_job" by (simp_all add: sample_job_def)
  let ?m = "build_next_manifest manifest_zero [?e] 1 1 (encode_segment [?e]) ''i'' 0"
  have "\<exists>s' h' v. run_batch mem_api (\<lambda>_. None) (Suc 0) 0 0 [sample_job] fresh_store ?h = Some (s', h', batch_replies [(sample_job, [])] [?e])
    \<and> mem_inv s' \<and> mem_look s' (manifest_key ''o/r'') = Some (v, marshal_manifest ?m) \<and> h_manifest h' = ?m \<and> h_version h' = v
    \<and> log_stored (mem_look s') ''o/r'' ?m ([] @ map canon_log_entry [?e])
    \<and> checkpoint_stored (mem_look s') ''o/r'' ?m ([] @ map canon_log_entry [?e]) (\<lambda>_. None, ''refs/heads/main'')
    \<and> local_at (h_dir h') ([] @ map canon_log_entry [?e]) (\<lambda>_. None, ''refs/heads/main'')
    \<and> unat (mf_head_seq ?m) = unat (0 :: u64) + length [sample_job]"
    by (rule publish_extends_log [where h = ?h and batch = "[sample_job]" and now = 0 and s = fresh_store and hist = "[]" and files = "\<lambda>_. None"
        and fuel = 0 and retries = 0 and b = "marshal_manifest manifest_zero" and start = "(\<lambda>_. None, ''refs/heads/main'')",
        unfolded fresh_fields checked valid manifest_zero_fields add_0 sample_job_entry(1)])
      (simp_all add: job sample_job_entry fresh_store_facts sample_dir_ok local_at_def replay_view_def entry_txns_def log_stored_def
        checkpoint_stored_def in_order_def log_ok_def base_seq_def sample_segment_key)
  moreover have "replay_view (entry_txns [canon_log_entry ?e]) (\<lambda>_. None, ''refs/heads/main'')
      = ((\<lambda>_. None)(''refs/heads/a'' \<mapsto> sample_oid), ''refs/heads/main'')"
    unfolding sample_job_entry
    by (simp add: replay_view_def sample_update_def apply_oid_def head_update_def absent_oid_def is_zero_oid_def sample_oid_def)
  moreover have "unat (mf_head_seq m) = unat (0 :: u64) + length [sample_job] \<Longrightarrow> mf_head_seq m = 1" for m
    by (simp add: word_unat_eq_iff)
  ultimately show ?thesis
    by (auto simp: local_at_def dir_view_def sample_job_def txn_updates_def sample_update_def)
qed

text \<open>
  C10: A sweep keeps what the log lists. Whatever slots a batch burned, sweeping removes exactly those
  that the manifest stored now does not list; every other object of the bucket stays as it was.
\<close>

theorem sweep_keeps_listed:
  assumes "mem_inv s" and "mem_look s (manifest_key rid) = Some (v, b)" and "decode_manifest b = Inr m"
  shows "mem_look (sweep_burned mem_api rid burned s) k =
    (if \<exists>x \<in> snd ` set burned. x \<notin> sg_key ` set (mf_log_segments m) \<and> k = repo_key rid x then None else mem_look s k)"
proof (cases "burned = []")
  case False
  then show ?thesis by (rule memory_publisher.sweep_burned_look [OF assms])
qed (simp add: sweep_burned_def)

lemma sweep_keeps_listed_witness:
  "mem_look (sweep_burned mem_api ''o/r'' [(1, log_segment_key 1)] sample_store) (repo_key ''o/r'' (log_segment_key 1))
    = Some (decimal 1, encode_segment [sample_entry])"
  unfolding sweep_keeps_listed [OF sample_inv sample_look(1) sample_decode(1)]
  using sample_look(2) by (simp add: sample_manifest_def)

text \<open>
  C11: A claim gets past crashed writers. When the next \<open>k \<le> 8\<close> slots after the head are occupied and the
  one behind them is free, the claim burns exactly those slots, and creates its segment, renumbered,
  in the free one; nothing else in the bucket changes. \<open>k + 1\<close> rounds of the loop are enough.
\<close>

theorem claim_burns_orphans:
  assumes "mem_inv s" and "mem_room (Suc n) s" and "k \<le> max_burns" and "unat f + Suc k < 2 ^ 64"
    and "\<forall>i < k. mem_look s (repo_key rid (log_segment_key (f + word_of_nat i))) \<noteq> None"
    and "mem_look s (repo_key rid (log_segment_key (f + word_of_nat k))) = None"
    and "mem_look s (manifest_key rid) = Some (v, b)" and "decode_manifest b = Inr m" and "mf_head_seq m < f"
  shows "let seg = f + word_of_nat k; body = encode_segment (renumber seg es) in
    \<exists>s' sv. claim_slot (Suc (k + fuel)) mem_api rid es f 0 [] s =
      Some (s', Claimed seg (log_segment_key seg) sv body,
        map (\<lambda>i. (f + word_of_nat i, log_segment_key (f + word_of_nat i))) [0..<k])
    \<and> mem_look s' = (mem_look s)(repo_key rid (log_segment_key seg) \<mapsto> (sv, body))"
  using memory_publisher.claim_burns [OF assms(1,2) _ assms(4-9), of 0 fuel es "[]"] assms(3,4)
  by (simp add: burn_slots_map Let_def del: claim_slot.simps)

lemma claim_burns_orphans_witness:
  "let seg = 1 + word_of_nat 3; body = encode_segment (renumber seg [sample_entry]) in
    \<exists>s' sv. claim_slot (Suc (3 + 0)) mem_api ''o/r'' [sample_entry] 1 0 [] (orphan_store 3) =
      Some (s', Claimed seg (log_segment_key seg) sv body, map (\<lambda>i. (1 + word_of_nat i, log_segment_key (1 + word_of_nat i))) [0..<3])
    \<and> mem_look s' = (mem_look (orphan_store 3))(repo_key ''o/r'' (log_segment_key seg) \<mapsto> (sv, body))"
proof (rule claim_burns_orphans [OF _ _ _ _ _ _ orphan_store_facts(3) decode_manifest_zero])
  show "\<forall>i < 3. mem_look (orphan_store 3) (repo_key ''o/r'' (log_segment_key (1 + word_of_nat i))) \<noteq> None"
    using orphan_store_facts(4) [of 3] by (simp del: word_of_nat_eq_0_iff)
  show "mem_look (orphan_store 3) (repo_key ''o/r'' (log_segment_key (1 + word_of_nat 3))) = None"
    by (rule orphan_store_facts(5)) simp_all
  show "mem_room (Suc 0) (orphan_store 3)" by (rule orphan_store_facts(2)) simp_all
qed (simp_all add: orphan_store_facts(1) max_burns_def)

text \<open>
  A claim gives up after eight burns. With nine or more occupied slots after the head, the claim
  fails as a corrupt log, having burned eight of them, and creates nothing: until someone removes the
  segments, no writer of this repository gets through.
\<close>

theorem claim_caps_burns:
  assumes "mem_inv s" and "unat f + 10 < 2 ^ 64"
    and "\<forall>i \<le> max_burns. mem_look s (repo_key rid (log_segment_key (f + word_of_nat i))) \<noteq> None"
    and "mem_look s (manifest_key rid) = Some (v, b)" and "decode_manifest b = Inr m" and "mf_head_seq m < f"
  shows "\<exists>s'. claim_slot (9 + fuel) mem_api rid es f 0 [] s =
      Some (s', ClaimError WalErrCorrupt, map (\<lambda>i. (f + word_of_nat i, log_segment_key (f + word_of_nat i))) [0..<max_burns])
    \<and> mem_look s' = mem_look s"
  using memory_publisher.claim_gives_up [OF assms(1), of 0 9 f rid v b m fuel es "[]"] assms(2-)
  by (auto simp: burn_slots_map max_burns_def simp del: claim_slot.simps)

lemma claim_caps_burns_witness:
  "\<exists>s'. claim_slot (9 + 0) mem_api ''o/r'' [sample_entry] 1 0 [] (orphan_store 9) =
      Some (s', ClaimError WalErrCorrupt, map (\<lambda>i. (1 + word_of_nat i, log_segment_key (1 + word_of_nat i))) [0..<max_burns])
    \<and> mem_look s' = mem_look (orphan_store 9)"
proof (rule claim_caps_burns [OF _ _ _ orphan_store_facts(3) decode_manifest_zero])
  show "\<forall>i \<le> max_burns. mem_look (orphan_store 9) (repo_key ''o/r'' (log_segment_key (1 + word_of_nat i))) \<noteq> None"
    using orphan_store_facts(4) [of 9] by (auto simp: max_burns_def)
qed (simp_all add: orphan_store_facts(1))

text \<open>
  A stale swap only withdraws. Swapping against a version that is not the stored one is refused,
  the publisher's own segment is deleted again, and nothing else in the bucket changes: a writer that
  lost the race leaves no trace that another could read as a commit.
\<close>

theorem stale_swap_withdraws:
  assumes "mem_inv s" and "mem_look s (manifest_key rid) = Some (v, b)" and "w \<noteq> v"
    and "mem_look s (repo_key rid sk) = Some (sv, body)"
  shows "\<exists>s'. cas_manifest mem_api rid w sk sv m s = (s', CasRestart) \<and> mem_inv s'
    \<and> mem_look s' = (mem_look s)(repo_key rid sk := None)"
  using memory_publisher.cas_stale [OF assms] by blast

lemma stale_swap_withdraws_witness:
  "\<exists>s'. cas_manifest mem_api ''o/r'' (decimal 7) (log_segment_key (1 + word_of_nat 0)) (decimal 1) sample_manifest (orphan_store 1) = (s', CasRestart)
    \<and> mem_inv s' \<and> mem_look s' = (mem_look (orphan_store 1))(repo_key ''o/r'' (log_segment_key (1 + word_of_nat 0)) := None)"
proof (rule stale_swap_withdraws)
  have "undecimal (decimal 7) \<noteq> undecimal (decimal 1)" by (simp add: undecimal_decimal)
  then show "decimal 7 \<noteq> decimal 1" by metis
  show "mem_look (orphan_store 1) (repo_key ''o/r'' (log_segment_key (1 + word_of_nat 0))) = Some (decimal 1, [])"
    by (rule orphan_store_facts(4)) simp_all
qed (simp_all add: orphan_store_facts(1,3))

text \<open>
  A lost response does not lose the commit. When the store keeps the new manifest but answers
  with an error, the re-read finds the publisher's segment listed: the swap counts as committed, under
  the version that is stored.
\<close>

theorem lost_response_recovers:
  assumes "mem_inv s" and "mem_room 1 s" and "mem_look s (manifest_key rid) = Some (v, b)"
    and "wf_manifest m" and "\<exists>sg \<in> set (mf_log_segments m). sg_key sg = sk"
  shows "\<exists>s' v'. cas_manifest (lossy_puts mem_api) rid v sk sv m s = (s', CasCommitted v')
    \<and> mem_look s' = (mem_look s)(manifest_key rid \<mapsto> (v', marshal_manifest m))"
  by (rule memory_publisher.cas_lost_response [OF assms])

lemma lost_response_recovers_witness:
  "\<exists>s' v'. cas_manifest (lossy_puts mem_api) ''o/r'' (decimal 1) (log_segment_key 1) (decimal 2) sample_manifest fresh_store = (s', CasCommitted v')
    \<and> mem_look s' = (mem_look fresh_store)(manifest_key ''o/r'' \<mapsto> (v', marshal_manifest sample_manifest))"
  by (rule lost_response_recovers)
    (simp_all add: fresh_store_facts(1,2) fresh_store_facts(3) sample_wf_manifest, simp add: sample_manifest_def)

text \<open>
  C25: A refused swap is retried without a sync. Let the stored manifest have another version than the
  publisher's, and the slot after the publisher's head be free (another writer swapped the manifest
  without adding a segment, as a checkpoint does). Then every attempt starts from the same handle and is
  refused: the batch is answered with a retry error after the last of its attempts, although no other
  writer is active, and the log is left as it was.
\<close>

theorem stale_handle_exhausts_retries:
  fixes h :: repo_handle and batch :: "publish_request list" and retries :: nat
  defines "valid \<equiv> valid_jobs (verify_jobs (h_last_entry_time h) (new_ref_overlay (fst (layer_snapshot (h_dir h)))) batch)"
    and "attempts \<equiv> (if retries = 0 then 16 else retries)"
  assumes "mem_inv s" and "mem_room (attempts * (2 * length valid + 2)) s" and "valid \<noteq> []" and "list_all pq_synced batch"
    and "mem_look s (manifest_key (h_id h)) = Some (v, b)" and "h_version h \<noteq> v"
    and "mem_look s (repo_key (h_id h) (log_segment_key (mf_head_seq (h_manifest h) + 1))) = None"
    and "\<forall>j \<in> set valid. \<forall>p. pq_pack j = Some p \<longrightarrow> small_pack mem_api files p"
  shows "\<exists>s'. run_batch mem_api files (Suc fuel) retries now batch s h = Some (s', h, reply_all batch WalErrRetry)
    \<and> (\<forall>k. \<not> is_pack_key (h_id h) k \<longrightarrow> k \<noteq> repo_key (h_id h) ''meta/stats.json'' \<longrightarrow> mem_look s' k = mem_look s k)"
  using memory_publisher.stale_attempts_exhaust [OF assms(3) assms(4,5,7-10) [unfolded valid_def]] assms(6)
  by (simp add: run_batch_def attempts_def)

lemma stale_handle_exhausts_retries_witness:
  "\<exists>s'. run_batch mem_api (\<lambda>_. None) 1 0 0 [sample_job] fresh_store (fresh_handle (decimal 7))
    = Some (s', fresh_handle (decimal 7), reply_all [sample_job] WalErrRetry)"
proof -
  have "undecimal (decimal 7) \<noteq> undecimal (decimal 1)" by (simp add: undecimal_decimal)
  then have stale: "decimal 7 \<noteq> decimal 1" by metis
  have job: "pq_pack sample_job = None" "pq_synced sample_job" by (simp_all add: sample_job_def)
  have valid: "valid_jobs (verify_jobs 0 (new_ref_overlay (fst (layer_snapshot sample_dir))) [sample_job]) = [sample_job]"
    using sample_job_valid by (simp add: valid_jobs_def snapshot_dir [OF sample_dir_ok(1)])
  show ?thesis
    using stale_handle_exhausts_retries [where h = "fresh_handle (decimal 7)" and batch = "[sample_job]" and s = fresh_store and now = 0
        and retries = 0 and fuel = 0 and files = "\<lambda>_. None" and v = "decimal 1" and b = "marshal_manifest manifest_zero", unfolded fresh_fields valid]
      fresh_store_facts(1,2,3) fresh_store_facts(4) [OF sample_segment_key] stale job
    by auto
qed

text \<open>
  C22: One answer per job. Whatever the store, the local files and the clock do, a batch that returns
  has exactly one reply for every job, in order; and either all jobs get the same error, or none gets
  an error of the transport (rejections are answers).
\<close>

theorem one_reply_per_job:
  "case run_batch api files fuel retries now batch s h of
     None \<Rightarrow> True
   | Some (s', h', rs) \<Rightarrow> length rs = length batch \<and> ((\<exists>e. rs = reply_all batch e) \<or> list_all (\<lambda>r. snd r = None) rs)"
  using run_attempts_answers
  by (fastforce simp: run_batch_def answers_def split: option.split prod.split)

text \<open>
  A store that refuses every put is not noticed. The claim loop takes any error of the create for
  an occupied slot, finds it free, and tries again: however many rounds it is given, it does not
  return, whatever the error is.
\<close>

theorem claim_spins_on_refused_puts:
  assumes "mem_inv s" and "mem_look s (repo_key rid (log_segment_key f)) = None"
    and "mem_look s (manifest_key rid) = Some (v, b)" and "decode_manifest b = Inr m" and "mf_head_seq m < f"
  shows "claim_slot fuel (refused_puts e mem_api) rid es f streak burned s = None"
  by (rule memory_publisher.claim_refused [OF assms])

lemma claim_spins_on_refused_puts_witness:
  "claim_slot 1000000 (refused_puts (new_other ''log'' None) mem_api) ''o/r'' [sample_entry] 1 0 [] fresh_store = None"
  by (rule claim_spins_on_refused_puts [OF _ _ fresh_store_facts(3) decode_manifest_zero])
    (simp_all add: fresh_store_facts(1) fresh_store_facts(4) [OF sample_segment_key])

end
