(* ===== verification/Logread.thy ===== *)
theory Logread
  imports Handle
begin

text \<open>
  Reading the log at a point in time: \<^verbatim>\<open>internal/wal/logreader.go\<close>. \<^verbatim>\<open>ReadLog\<close> returns the entries of
  a range of sequence numbers, \<^verbatim>\<open>RefsAtSeq\<close> and \<^verbatim>\<open>RefsAsOf\<close> fold them over the newest usable
  checkpoint. Nothing is written.
\<close>

section \<open>Reading entries\<close>

record refs_view =
  rv_seq :: u64
  rv_refs :: "ref_entry list"
  rv_head_target :: string

text \<open>
  Segments are read one after the other; the error of \<^verbatim>\<open>DecodeEntries\<close> is dropped, so what came
  before it counts.
\<close>

fun read_segments ::
  "'s store_api \<Rightarrow> string \<Rightarrow> u64 \<Rightarrow> u64 \<Rightarrow> log_segment_ref list \<Rightarrow> 's \<Rightarrow> 's \<times> (wal_error_kind + log_entry list)" where
  "read_segments api rid lo hi [] s = (s, Inr [])"
| "read_segments api rid lo hi (sg # sgs) s =
     (case get_bytes api (repo_key rid (sg_key sg)) get_default s of
        (s', Inl e) \<Rightarrow> (s', Inl WalErrStore)
      | (s', Inr (None, meta)) \<Rightarrow> (s', Inl WalErrCorrupt)
      | (s', Inr (Some body, meta)) \<Rightarrow>
          (case decode_entries body of
             (n, err, es) \<Rightarrow>
               (case read_segments api rid lo hi sgs s' of
                  (s'', Inl e) \<Rightarrow> (s'', Inl e)
                | (s'', Inr rest) \<Rightarrow> (s'', Inr (filter (\<lambda>e. lo \<le> le_seq e \<and> le_seq e \<le> hi) es @ rest)))))"

definition read_log ::
  "'s store_api \<Rightarrow> u64 \<Rightarrow> u64 \<Rightarrow> 's \<Rightarrow> repo_handle \<Rightarrow> 's \<times> repo_handle \<times> (wal_error_kind + log_entry list)" where
  "read_log api lo hi s h =
     (case freshen_manifest api s h of
        (s', h', Some e) \<Rightarrow> (s', h', Inl e)
      | (s', h', None) \<Rightarrow>
          let m = h_manifest h';
              hi = (if hi = 0 then mf_head_seq m else hi);
              segs = sort_key sg_first_seq
                (filter (\<lambda>sg. lo \<le> sg_last_seq sg \<and> sg_first_seq sg \<le> hi) (mf_log_segments m))
          in case read_segments api (h_id h') lo hi segs s' of
               (s'', Inl e) \<Rightarrow> (s'', h', Inl e)
             | (s'', Inr es) \<Rightarrow> (s'', h', Inr (sort_key le_seq es)))"

section \<open>Folding\<close>

definition fold_txn :: "log_entry \<Rightarrow> ref_transaction \<Rightarrow> refs_view \<Rightarrow> refs_view" where
  "fold_txn e t view =
     view\<lparr>rv_refs := apply_ref_txns_offline (rv_refs view) (tx_updates t),
          rv_head_target := fold head_update (tx_updates t) (rv_head_target view),
          rv_seq := le_seq e\<rparr>"

fun fold_entries :: "go_time \<Rightarrow> log_entry list \<Rightarrow> refs_view \<Rightarrow> refs_view" where
  "fold_entries time_cut [] view = view"
| "fold_entries time_cut (e # es) view =
     (if time_cut \<noteq> 0 \<and> le_created_at e = None then fold_entries time_cut es view
      else if time_cut \<noteq> 0 \<and> time_cut < time_go (the (le_created_at e)) then view
      else case le_txn e of
          None \<Rightarrow> fold_entries time_cut es view
        | Some t \<Rightarrow> fold_entries time_cut es (fold_txn e t view))"

definition fold_to ::
  "'s store_api \<Rightarrow> refs_view \<Rightarrow> u64 \<Rightarrow> go_time \<Rightarrow> 's \<Rightarrow> repo_handle \<Rightarrow> 's \<times> repo_handle \<times> (wal_error_kind + refs_view)" where
  "fold_to api view seq_cut time_cut s h =
     (case read_log api (rv_seq view + 1) seq_cut s h of
        (s', h', Inl e) \<Rightarrow> (s', h', Inl e)
      | (s', h', Inr entries) \<Rightarrow>
          let v = fold_entries time_cut entries view
          in (s', h', Inr (v\<lparr>rv_refs := sort_key re_name (rv_refs v)\<rparr>)))"

definition checkpoint_refs :: "'s store_api \<Rightarrow> string \<Rightarrow> checkpoint_ref \<Rightarrow> 's \<Rightarrow> 's \<times> (wal_error_kind + ref_snapshot)" where
  "checkpoint_refs api rid cp s =
     (case get_bytes api (repo_key rid (checkpoint_refs_key (cr_seq cp))) get_default s of
        (s', Inl e) \<Rightarrow> (s', Inl WalErrStore)
      | (s', Inr (None, meta)) \<Rightarrow> (s', Inl WalErrCorrupt)
      | (s', Inr (Some body, meta)) \<Rightarrow>
          (s', case decode_ref_snapshot body of Inl e \<Rightarrow> Inl WalErrCorrupt | Inr snap \<Rightarrow> Inr snap))"

definition snapshot_refs_view :: "ref_snapshot \<Rightarrow> refs_view" where
  "snapshot_refs_view sn =
     \<lparr>rv_seq = sn_seq sn, rv_refs = map ref_entry_of (sn_refs sn), rv_head_target = sn_head_target sn\<rparr>"

definition empty_refs_view :: refs_view where
  "empty_refs_view = \<lparr>rv_seq = 0, rv_refs = [], rv_head_target = []\<rparr>"

definition refs_at_seq ::
  "'s store_api \<Rightarrow> u64 \<Rightarrow> 's \<Rightarrow> repo_handle \<Rightarrow> 's \<times> repo_handle \<times> (wal_error_kind + refs_view)" where
  "refs_at_seq api sq s h =
     (case freshen_manifest api s h of
        (s', h', Some e) \<Rightarrow> (s', h', Inl e)
      | (s', h', None) \<Rightarrow>
          let m = h_manifest h';
              cp_seq = (case mf_checkpoint m of None \<Rightarrow> 0 | Some cp \<Rightarrow> cr_seq cp)
          in if sq < mf_min_seq m \<and> sq < cp_seq then (s', h', Inl WalErrInvalid)
             else if mf_head_seq m < sq then (s', h', Inl WalErrInvalid)
             else case mf_checkpoint m of
                 Some cp \<Rightarrow>
                   if cr_seq cp \<le> sq then
                     (case checkpoint_refs api (h_id h') cp s' of
                        (s'', Inl e) \<Rightarrow> (s'', h', Inl e)
                      | (s'', Inr snap) \<Rightarrow> fold_to api (snapshot_refs_view snap) sq 0 s'' h')
                   else if mf_min_seq m \<le> sq then fold_to api empty_refs_view sq 0 s' h'
                   else (s', h', Inl WalErrInvalid)
               | None \<Rightarrow>
                   if mf_min_seq m \<le> sq then fold_to api empty_refs_view sq 0 s' h'
                   else (s', h', Inl WalErrInvalid))"

definition refs_as_of ::
  "'s store_api \<Rightarrow> go_time \<Rightarrow> 's \<Rightarrow> repo_handle \<Rightarrow> 's \<times> repo_handle \<times> (wal_error_kind + refs_view)" where
  "refs_as_of api t s h =
     (case freshen_manifest api s h of
        (s', h', Some e) \<Rightarrow> (s', h', Inl e)
      | (s', h', None) \<Rightarrow>
          let m = h_manifest h' in
          case mf_checkpoint m of
            None \<Rightarrow> fold_to api empty_refs_view (mf_head_seq m) t s' h'
          | Some cp \<Rightarrow>
              (case cr_as_of cp of
                 None \<Rightarrow> fold_to api empty_refs_view (mf_head_seq m) t s' h'
               | Some a \<Rightarrow>
                   if \<not> t < time_go a then
                     (case checkpoint_refs api (h_id h') cp s' of
                        (s'', Inl e) \<Rightarrow> (s'', h', Inl e)
                      | (s'', Inr snap) \<Rightarrow> fold_to api (snapshot_refs_view snap) (mf_head_seq m) t s'' h')
                   else fold_to api empty_refs_view (mf_head_seq m) t s' h'))"

section \<open>What is read\<close>

lemma log_ok_sort:
  assumes "log_ok m"
  shows "sort_key sg_first_seq (filter P (mf_log_segments m)) = filter P (mf_log_segments m)"
proof (rule sort_key_id_if_sorted)
  have "sorted_wrt (\<lambda>a b. sg_first_seq a \<le> sg_first_seq b) (mf_log_segments m)"
    using assms unfolding log_ok_def
    by (auto intro: sorted_wrt_mono_rel [rotated] order.trans dest: less_imp_le simp: list_all_iff)
  then show "sorted (map sg_first_seq (filter P (mf_log_segments m)))"
    by (simp add: sorted_map sorted_wrt_filter)
qed

definition in_range :: "u64 \<Rightarrow> u64 \<Rightarrow> log_entry \<Rightarrow> bool" where
  "in_range lo hi e \<longleftrightarrow> lo \<le> le_seq e \<and> le_seq e \<le> hi"

context engine_store
begin

lemma read_segments_read:
  assumes "inv s" and "\<forall>sg \<in> set sgs. \<exists>v b n. look s (repo_key rid (sg_key sg)) = Some (v, b) \<and> decode_entries b = (n, None, f sg)"
  shows "\<exists>s'. read_segments api rid lo hi sgs s = (s', Inr (filter (in_range lo hi) (concat (map f sgs)))) \<and> inv s' \<and> look s' = look s"
  using assms
proof (induction sgs arbitrary: s)
  case (Cons sg sgs)
  then obtain v b n where b: "look s (repo_key rid (sg_key sg)) = Some (v, b)" "decode_entries b = (n, None, f sg)" by auto
  obtain s1 where s1: "get_bytes api (repo_key rid (sg_key sg)) get_default s
      = (s1, Inr (Some b, \<lparr>om_key = repo_key rid (sg_key sg), om_size = int (length b), om_version = v\<rparr>))"
    "inv s1" "look s1 = look s"
    using get_bytes_present [OF Cons.prems(1) b(1)] by blast
  with Cons.IH [of s1] Cons.prems(2) b(2) show ?case by (auto simp: in_range_def)
qed simp

text \<open>On a current handle \<open>read_log\<close> gives the stored entries of the range that a listed segment covers.\<close>

lemma read_log_read:
  assumes "inv s" and man: "look s (manifest_key (h_id h)) = Some (h_version h, b)" "decode_manifest b = Inr (h_manifest h)"
    and stored: "log_stored (look s) (h_id h) (h_manifest h) hist"
  shows "\<exists>s'. read_log api lo hi s h = (s', h, Inr (filter (\<lambda>e. in_range lo (if hi = 0 then mf_head_seq (h_manifest h) else hi) e
      \<and> (\<exists>sg \<in> set (mf_log_segments (h_manifest h)). in_segment sg e)) hist)) \<and> inv s' \<and> look s' = look s"
proof -
  let ?m = "h_manifest h" let ?hi = "if hi = 0 then mf_head_seq ?m else hi"
  let ?sgs = "filter (\<lambda>sg. lo \<le> sg_last_seq sg \<and> sg_first_seq sg \<le> ?hi) (mf_log_segments ?m)"
  have order: "in_order hist" and ok: "log_ok ?m" using stored by (simp_all add: log_stored_def)
  then have sorted: "sorted_wrt (\<lambda>a b. sg_last_seq a < sg_first_seq b) ?sgs" by (simp add: log_ok_def sorted_wrt_filter)
  obtain s1 where s1: "freshen_manifest api s h = (s1, h, None)" "inv s1" "look s1 = look s"
    using freshen_view [OF assms(1) man] by auto
  have segs: "\<forall>sg \<in> set ?sgs. \<exists>v b n. look s1 (repo_key (h_id h) (sg_key sg)) = Some (v, b)
      \<and> decode_entries b = (n, None, filter (in_segment sg) hist)"
    using stored s1(3) by (simp add: log_stored_def)
  let ?F = "filter (in_range lo ?hi) (filter (\<lambda>e. \<exists>sg \<in> set ?sgs. in_segment sg e) hist)"
  from read_segments_read [OF s1(2) segs, of lo ?hi] obtain s2 where
    s2: "read_segments api (h_id h) lo ?hi ?sgs s1 = (s2, Inr ?F)" "inv s2" "look s2 = look s1"
    unfolding concat_segments [OF order sorted] by blast
  have F: "?F = filter (\<lambda>e. in_range lo ?hi e \<and> (\<exists>sg \<in> set (mf_log_segments ?m). in_segment sg e)) hist"
    unfolding filter_filter
  proof (rule filter_cong [OF refl])
    fix e assume "e \<in> set hist"
    have "lo \<le> sg_last_seq sg \<and> sg_first_seq sg \<le> ?hi" if "in_range lo ?hi e" "in_segment sg e" for sg
      using that order.trans [of lo "le_seq e" "sg_last_seq sg"] order.trans [of "sg_first_seq sg" "le_seq e" ?hi]
      by (simp add: in_range_def in_segment_def)
    then show "((\<exists>sg \<in> set ?sgs. in_segment sg e) \<and> in_range lo ?hi e)
        = (in_range lo ?hi e \<and> (\<exists>sg \<in> set (mf_log_segments ?m). in_segment sg e))" by fastforce
  qed
  have "read_log api lo hi s h = (s2, h, Inr ?F)"
    unfolding read_log_def s1(1) prod.case option.case Let_def log_ok_sort [OF ok] s2(1) sum.case
      in_order_sort [OF in_order_filter [OF in_order_filter [OF order]]] by (rule refl)
  then have "read_log api lo hi s h = (s2, h, Inr ?F) \<and> inv s2 \<and> look s2 = look s" using s1(3) s2(2,3) by simp
  then show ?thesis unfolding F by (rule exI)
qed

end

section \<open>What is folded\<close>

text \<open>
  The fold applies the transaction of any entry; replay applies those of pushes and ref updates. They
  agree on logs in which only these kinds carry one.
\<close>

definition txn_kinds :: "log_entry list \<Rightarrow> bool" where
  "txn_kinds es \<longleftrightarrow> list_all (\<lambda>e. le_txn e = None \<or> le_kind e = entry_kind_push \<or> le_kind e = entry_kind_ref_update) es"

definition view_of :: "refs_view \<Rightarrow> (string \<Rightarrow> string option) \<times> string" where
  "view_of v = (oids (rv_refs v), rv_head_target v)"

lemma fold_entries_view:
  assumes "txn_kinds es" and "ref_table (rv_refs view)"
  shows "ref_table (rv_refs (fold_entries 0 es view)) \<and> view_of (fold_entries 0 es view) = replay_view (entry_txns es) (view_of view)"
  using assms
proof (induction es arbitrary: view)
  case (Cons e es)
  show ?case
  proof (cases "le_txn e")
    case None
    then have "entry_txns (e # es) = entry_txns es" by (simp add: entry_txns_def)
    with None Cons show ?thesis by (simp add: txn_kinds_def)
  next
    case (Some t)
    have kind: "le_kind e = entry_kind_push \<or> le_kind e = entry_kind_ref_update"
      using Cons.prems(1) Some by (auto simp: txn_kinds_def)
    then have txns: "entry_txns (e # es) = t # entry_txns es" using Some by (simp add: entry_txns_def)
    have step: "ref_table (rv_refs (fold_txn e t view))" "view_of (fold_txn e t view) = replay_view [t] (view_of view)"
      using offline_oids [OF Cons.prems(2), of "tx_updates t"] by (simp_all add: fold_txn_def view_of_def replay_view_def)
    have "txn_kinds es" using Cons.prems(1) by (simp add: txn_kinds_def)
    note IH = Cons.IH [OF this step(1), unfolded step(2)]
    moreover have "replay_view (t # entry_txns es) v = replay_view (entry_txns es) (replay_view [t] v)" for v
      by (simp add: replay_view_def)
    ultimately show ?thesis using Some txns by simp
  qed
qed (simp add: replay_view_def entry_txns_def)

lemma fold_entries_break:
  assumes "t \<noteq> 0" and "list_all (\<lambda>e. \<exists>ts. le_created_at e = Some ts \<and> t < time_go ts) es"
  shows "fold_entries t es view = view"
  using assms by (cases es) auto

lemma upto_split:
  assumes "in_order hist" and "c \<le> n"
  shows "upto n hist = upto c hist @ filter (\<lambda>e. c < le_seq e \<and> le_seq e \<le> n) hist"
proof -
  have "upto n hist = filter (\<lambda>e. le_seq e \<le> c \<or> c < le_seq e \<and> le_seq e \<le> n) hist"
    unfolding upto_def using assms(2) by (intro filter_cong [OF refl]) (auto simp: not_less intro: order.trans)
  also have "\<dots> = upto c hist @ filter (\<lambda>e. c < le_seq e \<and> le_seq e \<le> n) hist"
    unfolding upto_def by (rule filter_split [OF assms(1)]) (auto intro: order.strict_trans1)
  finally show ?thesis .
qed

lemma succ_le_word: "c + 1 \<noteq> 0 \<Longrightarrow> c + 1 \<le> x \<longleftrightarrow> c < x" for c x :: u64
  using unatSuc [of c] by (simp add: word_le_nat_alt word_less_nat_alt add.commute Suc_le_eq)

lemma succ_nonzero: "c \<le> x \<Longrightarrow> x + 1 \<noteq> 0 \<Longrightarrow> c + 1 \<noteq> 0" for c x :: u64
  by (metis eq_neg_iff_add_eq_0 word_order.extremum_uniqueI)

context engine_store
begin

text \<open>A fold from a view of the history up to \<open>c\<close>, with nothing after \<open>c\<close> trimmed.\<close>

lemma fold_to_view:
  assumes "inv s" and man: "look s (manifest_key (h_id h)) = Some (h_version h, b)" "decode_manifest b = Inr (h_manifest h)"
    and stored: "log_stored (look s) (h_id h) (h_manifest h) hist" and kinds: "txn_kinds hist"
    and base: "base_seq (h_manifest h) \<le> c" "c + 1 \<noteq> 0" "c \<le> (if n = 0 then mf_head_seq (h_manifest h) else n)"
    and view: "rv_seq view = c" "ref_table (rv_refs view)" "view_of view = replay_view (entry_txns (upto c hist)) v0"
  shows "\<exists>s' view'. fold_to api view n 0 s h = (s', h, Inr view') \<and> inv s' \<and> look s' = look s \<and> ref_table (rv_refs view')
    \<and> view_of view' = replay_view (entry_txns (upto (if n = 0 then mf_head_seq (h_manifest h) else n) hist)) v0"
proof -
  let ?n = "if n = 0 then mf_head_seq (h_manifest h) else n"
  let ?es = "filter (\<lambda>e. in_range (c + 1) ?n e \<and> (\<exists>sg \<in> set (mf_log_segments (h_manifest h)). in_segment sg e)) hist"
  obtain s1 where s1: "read_log api (c + 1) n s h = (s1, h, Inr ?es)" "inv s1" "look s1 = look s"
    using read_log_read [OF assms(1) man stored, of "c + 1" n] by blast
  have es: "?es = filter (\<lambda>e. c < le_seq e \<and> le_seq e \<le> ?n) hist"
  proof (rule filter_cong [OF refl])
    fix e assume "e \<in> set hist"
    moreover have "base_seq (h_manifest h) < le_seq e" if "c < le_seq e" using base(1) that by (rule order.strict_trans1)
    ultimately show "(in_range (c + 1) ?n e \<and> (\<exists>sg \<in> set (mf_log_segments (h_manifest h)). in_segment sg e))
        = (c < le_seq e \<and> le_seq e \<le> ?n)"
      using stored by (auto simp: log_stored_def in_range_def succ_le_word [OF base(2)])
  qed
  have "txn_kinds ?es" using kinds by (auto simp: txn_kinds_def list_all_iff)
  note fold = fold_entries_view [OF this view(2)]
  have "in_order hist" using stored by (simp add: log_stored_def)
  from upto_split [OF this base(3)] have "replay_view (entry_txns ?es) (view_of view) = replay_view (entry_txns (upto ?n hist)) v0"
    unfolding es view(3) by (simp only: entry_txns_append replay_view_append)
  with fold s1 view(1) show ?thesis
    by (simp add: fold_to_def Let_def view_of_def sort_ref_table)
qed

lemma refs_at_seq_view:
  assumes "inv s" and "look s (manifest_key (h_id h)) = Some (v, b)" and "decode_manifest b = Inr m"
    and "v = h_version h \<and> m = h_manifest h \<or> v \<noteq> h_version h \<and> h_held_rev h < mf_revision m"
    and stored: "log_stored (look s) (h_id h) m hist" "checkpoint_stored (look s) (h_id h) m hist v0" and kinds: "txn_kinds hist"
    and n: "n \<le> mf_head_seq m" "base_seq m \<le> n" and top: "mf_head_seq m + 1 \<noteq> 0"
    and start: "mf_checkpoint m = None \<Longrightarrow> mf_min_seq m \<le> n \<and> v0 = (\<lambda>_. None, []) \<and> list_all (\<lambda>e. 0 < le_seq e) hist"
  shows "\<exists>s' h' view. refs_at_seq api n s h = (s', h', Inr view) \<and> look s' = look s \<and> ref_table (rv_refs view)
    \<and> view_of view = replay_view (entry_txns (upto (if n = 0 then mf_head_seq m else n) hist)) v0"
proof -
  obtain s1 h1 where f: "freshen_manifest api s h = (s1, h1, None)" "inv s1" "look s1 = look s"
    "h_manifest h1 = m" "h_version h1 = v" "h_id h1 = h_id h"
    using freshen_view [OF assms(1-4)] by blast
  let ?n = "if n = 0 then mf_head_seq m else n"
  have man1: "look s1 (manifest_key (h_id h1)) = Some (h_version h1, b)" "decode_manifest b = Inr (h_manifest h1)"
    using assms(2,3) f by simp_all
  have head: "\<not> mf_head_seq m < n" using n(1) by simp
  show ?thesis
  proof (cases "mf_checkpoint m")
    case None
    have "upto 0 hist = []" using start [OF None] by (auto simp: upto_def filter_empty_conv list_all_iff)
    then have empty: "view_of empty_refs_view = replay_view (entry_txns (upto 0 hist)) v0"
      using start [OF None] by (simp add: view_of_def empty_refs_view_def replay_view_def entry_txns_def oids_def lookup_ref_def fun_eq_iff)
    have "\<exists>s' view'. fold_to api empty_refs_view n 0 s1 h1 = (s', h1, Inr view') \<and> inv s' \<and> look s' = look s1 \<and> ref_table (rv_refs view')
        \<and> view_of view' = replay_view (entry_txns (upto (if n = 0 then mf_head_seq (h_manifest h1) else n) hist)) v0"
      by (rule fold_to_view [OF f(2) man1 _ kinds _ _ _ _ _ empty])
        (use stored(1) f None in \<open>simp_all add: base_seq_def empty_refs_view_def ref_table_def\<close>)
    then show ?thesis using f None head start [OF None] by (auto simp: refs_at_seq_def Let_def)
  next
    case (Some cp)
    then have cp: "cr_seq cp \<le> n" "cr_seq cp \<le> mf_head_seq m" using n(2) stored(2) by (simp_all add: base_seq_def checkpoint_stored_def)
    obtain w c sn where sn: "look s (repo_key (h_id h) (checkpoint_refs_key (cr_seq cp))) = Some (w, c)" "decode_ref_snapshot c = Inr sn"
      "sn_seq sn = cr_seq cp" "snapshot_ok sn" "snapshot_view sn = replay_view (entry_txns (upto (cr_seq cp) hist)) v0"
      using stored(2) Some by (auto simp: checkpoint_stored_def)
    let ?k = "repo_key (h_id h) (checkpoint_refs_key (cr_seq cp))"
    obtain s2 where s2: "get_bytes api ?k get_default s1 = (s2, Inr (Some c, \<lparr>om_key = ?k, om_size = int (length c), om_version = w\<rparr>))"
      "inv s2" "look s2 = look s1"
      using get_bytes_present [OF f(2), of ?k w c] sn(1) f(3) by auto
    have "cr_seq cp + 1 \<noteq> 0" using cp(2) top by (rule succ_nonzero)
    have "\<exists>s' view'. fold_to api (snapshot_refs_view sn) n 0 s2 h1 = (s', h1, Inr view') \<and> inv s' \<and> look s' = look s2 \<and> ref_table (rv_refs view')
        \<and> view_of view' = replay_view (entry_txns (upto (if n = 0 then mf_head_seq (h_manifest h1) else n) hist)) v0"
      by (rule fold_to_view [OF s2(2) _ man1(2) _ kinds _ \<open>cr_seq cp + 1 \<noteq> 0\<close>])
        (use stored(1) f s2(3) man1(1) Some cp sn in \<open>simp_all add: base_seq_def snapshot_refs_view_def snapshot_ok_def view_of_def snapshot_view_def\<close>)
    then show ?thesis using f Some head cp sn(2) s2 by (auto simp: refs_at_seq_def Let_def checkpoint_refs_def)
  qed
qed

end

section \<open>Properties\<close>

text \<open>
  C23: The refs at a sequence number are the replayed history. For a number from the checkpoint (or,
  without one, from 1) up to the head, \<^verbatim>\<open>RefsAtSeq\<close> returns a name-sorted table with exactly the refs
  and the HEAD target that the entries up to that number leave, and changes nothing in the bucket.
\<close>

theorem refs_at_seq_replays:
  assumes "mem_inv s" and "mem_look s (manifest_key (h_id h)) = Some (v, b)" and "decode_manifest b = Inr m"
    and "v = h_version h \<and> m = h_manifest h \<or> v \<noteq> h_version h \<and> h_held_rev h < mf_revision m"
    and "log_stored (mem_look s) (h_id h) m hist" and "checkpoint_stored (mem_look s) (h_id h) m hist start" and "txn_kinds hist"
    and "0 < n" and "n \<le> mf_head_seq m" and "base_seq m \<le> n" and "mf_head_seq m + 1 \<noteq> 0"
    and "mf_checkpoint m = None \<Longrightarrow> mf_min_seq m \<le> n \<and> start = (\<lambda>_. None, []) \<and> list_all (\<lambda>e. 0 < le_seq e) hist"
  shows "\<exists>s' h' view. refs_at_seq mem_api n s h = (s', h', Inr view) \<and> mem_look s' = mem_look s \<and> ref_table (rv_refs view)
    \<and> (oids (rv_refs view), rv_head_target view) = replay_view (entry_txns (upto n hist)) start"
proof -
  have "(if n = 0 then mf_head_seq m else n) = n" using assms(8) by (simp add: word_gt_0)
  then show ?thesis
    using memory_engine.refs_at_seq_view [OF assms(1-7,9-11)] assms(12) by (simp add: view_of_def)
qed

lemma sample_handle_fields:
  "h_id sample_handle = ''o/r''" "h_version sample_handle = []" "h_held_rev sample_handle = 0"
  by (simp_all add: sample_handle_def new_handle_def note_checkpoint_ref_def manifest_zero_def)

lemma sample_kinds: "txn_kinds [sample_entry]"
  by (simp add: txn_kinds_def sample_entry_def log_entry_zero_def)

lemma refs_at_seq_replays_witness:
  "\<exists>s' h' view. refs_at_seq mem_api 1 sample_store sample_handle = (s', h', Inr view) \<and> mem_look s' = mem_look sample_store
    \<and> ref_table (rv_refs view) \<and> (oids (rv_refs view), rv_head_target view) = replay_view (entry_txns (upto 1 [sample_entry])) (\<lambda>_. None, [])"
  by (rule refs_at_seq_replays [where b = "marshal_manifest sample_manifest" and m = sample_manifest and v = "decimal 2"])
    (simp_all add: sample_handle_fields sample_inv sample_look sample_decode sample_log sample_kinds checkpoint_stored_def sample_fields,
      simp_all add: sample_manifest_def manifest_zero_def base_seq_def)

text \<open>
  The refs at number 0 are the refs at the head. \<^verbatim>\<open>ReadLog\<close> takes 0 for the head, and
  \<^verbatim>\<open>RefsAtSeq\<close> passes its argument on: in a repository without a checkpoint, which is born with a minimum of 0,
  asking for the state before the first entry returns the state after the last one.
\<close>

theorem refs_at_zero_is_head:
  assumes "mem_inv s" and "mem_look s (manifest_key (h_id h)) = Some (v, b)" and "decode_manifest b = Inr m"
    and "v = h_version h \<and> m = h_manifest h \<or> v \<noteq> h_version h \<and> h_held_rev h < mf_revision m"
    and "log_stored (mem_look s) (h_id h) m hist" and "txn_kinds hist" and "list_all (\<lambda>e. 0 < le_seq e) hist"
    and "mf_head_seq m + 1 \<noteq> 0" and "mf_checkpoint m = None" and "mf_min_seq m = 0"
  shows "\<exists>s' h' view. refs_at_seq mem_api 0 s h = (s', h', Inr view)
    \<and> (oids (rv_refs view), rv_head_target view) = replay_view (entry_txns hist) (\<lambda>_. None, [])"
proof -
  have "upto (mf_head_seq m) hist = hist"
    using assms(5) by (auto simp: upto_def log_stored_def list_all_iff filter_id_conv)
  then show ?thesis
    using memory_engine.refs_at_seq_view [OF assms(1-5) _ assms(6) _ _ assms(8), of "(\<lambda>_. None, [])" 0] assms(7,9,10)
    by (auto simp: checkpoint_stored_def base_seq_def view_of_def)
qed

lemma refs_at_zero_is_head_witness:
  "\<exists>s' h' view. refs_at_seq mem_api 0 sample_store sample_handle = (s', h', Inr view) \<and> oids (rv_refs view) ''refs/heads/a'' = Some sample_oid"
proof -
  have "\<exists>s' h' view. refs_at_seq mem_api 0 sample_store sample_handle = (s', h', Inr view)
    \<and> (oids (rv_refs view), rv_head_target view) = replay_view (entry_txns [sample_entry]) (\<lambda>_. None, [])"
    by (rule refs_at_zero_is_head [where b = "marshal_manifest sample_manifest" and m = sample_manifest and v = "decimal 2"])
      (simp_all add: sample_handle_fields sample_inv sample_look sample_decode sample_log sample_kinds sample_fields,
        simp_all add: sample_manifest_def manifest_zero_def)
  moreover have "fst (replay_view (entry_txns [sample_entry]) (\<lambda>_. None, [])) ''refs/heads/a'' = Some sample_oid"
    by (simp add: replay_view_def entry_txns_def sample_entry_def log_entry_zero_def sample_update_def apply_oid_def
        absent_oid_def is_zero_oid_def sample_oid_def)
  ultimately show ?thesis by (metis fst_conv)
qed

text \<open>
  A time before the checkpoint is answered with no refs. The entries the checkpoint covers are
  trimmed from the log, so when the requested time precedes the checkpoint and the remaining entries,
  \<^verbatim>\<open>RefsAsOf\<close> returns the empty view, without an error, whatever refs existed then.
\<close>

theorem refs_as_of_before_checkpoint_is_empty:
  assumes "mem_inv s" and "mem_look s (manifest_key (h_id h)) = Some (v, b)" and "decode_manifest b = Inr m"
    and "v = h_version h \<and> m = h_manifest h \<or> v \<noteq> h_version h \<and> h_held_rev h < mf_revision m"
    and "log_stored (mem_look s) (h_id h) m hist" and "mf_checkpoint m = Some cp" and "cr_as_of cp = Some a" and "t < time_go a"
    and "t \<noteq> 0" and "\<forall>e \<in> set hist. base_seq m < le_seq e \<longrightarrow> (\<exists>ts. le_created_at e = Some ts \<and> t < time_go ts)"
    and "list_all (\<lambda>sg. base_seq m < sg_first_seq sg) (mf_log_segments m)"
  shows "\<exists>s' h'. refs_as_of mem_api t s h = (s', h', Inr empty_refs_view)"
proof -
  obtain s1 h1 where f: "freshen_manifest mem_api s h = (s1, h1, None)" "mem_inv s1" "mem_look s1 = mem_look s"
    "h_manifest h1 = m" "h_version h1 = v" "h_id h1 = h_id h"
    using memory_engine.freshen_view [OF assms(1-4)] by blast
  let ?es = "filter (\<lambda>e. in_range 1 (mf_head_seq m) e \<and> (\<exists>sg \<in> set (mf_log_segments m). in_segment sg e)) hist"
  have "mem_look s1 (manifest_key (h_id h1)) = Some (h_version h1, b)" "decode_manifest b = Inr (h_manifest h1)"
    "log_stored (mem_look s1) (h_id h1) (h_manifest h1) hist" using assms(2,3,5) f by simp_all
  from memory_engine.read_log_read [OF f(2) this, of 1 "mf_head_seq m"] obtain s2 where
    s2: "read_log mem_api 1 (mf_head_seq m) s1 h1 = (s2, h1, Inr ?es)"
    unfolding f(4) by (auto split: if_splits)
  have "list_all (\<lambda>e. \<exists>ts. le_created_at e = Some ts \<and> t < time_go ts) ?es"
  proof -
    have "base_seq m < le_seq e" if "sg \<in> set (mf_log_segments m)" "in_segment sg e" for sg e
      using that assms(11) order.strict_trans2 [of "base_seq m" "sg_first_seq sg" "le_seq e"] by (auto simp: list_all_iff in_segment_def)
    then show ?thesis using assms(10) by (auto simp: list_all_iff)
  qed
  from fold_entries_break [OF assms(9) this] show ?thesis
    using f(1,4) s2 assms(6,7,8) by (simp add: refs_as_of_def Let_def fold_to_def empty_refs_view_def)
qed

definition trimmed_manifest :: manifest where
  "trimmed_manifest = manifest_zero\<lparr>mf_head_seq := 1, mf_min_seq := 2, mf_revision := 1,
     mf_checkpoint := Some (checkpoint_ref_zero\<lparr>cr_seq := 1, cr_as_of := Some \<lparr>ts_seconds = 1000, ts_nanos = 0\<rparr>\<rparr>)\<rparr>"

definition trimmed_store :: memory where
  "trimmed_store =
     \<lparr>mem_objs = [(manifest_key ''o/r'', \<lparr>mo_data = marshal_manifest trimmed_manifest, mo_version = decimal 1, mo_content_type = []\<rparr>)],
      mem_counter = 1, mem_ops = 0\<rparr>"

lemma trimmed_decode: "decode_manifest (marshal_manifest trimmed_manifest) = Inr trimmed_manifest"
proof -
  have "wf_manifest trimmed_manifest"
    using uvarint_len_le [of 1] uvarint_len_le [of 2] uvarint_len_le [of 1000]
    by (simp add: wf_manifest_def trimmed_manifest_def manifest_zero_def size_manifest_def sz_defs wf_str_def bytes_of_def
        wf_checkpoint_ref_def size_checkpoint_ref_def checkpoint_ref_zero_def size_timestamp_def)
  moreover have "canon_manifest trimmed_manifest = trimmed_manifest"
    by (simp add: canon_manifest_def trimmed_manifest_def manifest_zero_def canon_time_def canon_checkpoint_ref_def checkpoint_ref_zero_def)
  ultimately show ?thesis using marshal_roundtrip(1) by metis
qed

lemma refs_as_of_before_checkpoint_is_empty_witness:
  "\<exists>s' h'. refs_as_of mem_api 1 trimmed_store sample_handle = (s', h', Inr empty_refs_view)"
  by (rule refs_as_of_before_checkpoint_is_empty [where v = "decimal 1" and b = "marshal_manifest trimmed_manifest" and m = trimmed_manifest
        and hist = "[]" and a = "\<lparr>ts_seconds = 1000, ts_nanos = 0\<rparr>"
        and cp = "checkpoint_ref_zero\<lparr>cr_seq := 1, cr_as_of := Some \<lparr>ts_seconds = 1000, ts_nanos = 0\<rparr>\<rparr>"])
    (simp_all add: sample_handle_fields trimmed_decode trimmed_store_def mem_inv_def mem_used_def undecimal_decimal mem_look_def get_locked_def sample_keys,
      simp_all add: trimmed_manifest_def manifest_zero_def log_stored_def in_order_def log_ok_def checkpoint_ref_zero_def time_go_def unix_epoch_def)

end
