(* ===== verification/Checkpoint.thy ===== *)
theory Checkpoint
  imports Publish Logread
begin

text \<open>
  Checkpoints: \<^verbatim>\<open>internal/wal/checkpoint.go\<close>. A checkpoint stores the refs at the head as one object and
  swaps in a manifest that names it and no longer lists the segments it covers.

  The two objects are put one after the other (the code does it in parallel), the clock is one
  argument, and the narration of the task is left out.
\<close>

section \<open>When\<close>

record checkpoint_config =
  cc_snapshot_every_entries :: u64
  cc_checkpoint_tail_bytes :: u64
  cc_checkpoint_interval :: int

datatype checkpoint_trigger = TriggerEntries | TriggerAge | TriggerTailBytes | TriggerManual

definition tail_bytes :: "u64 \<Rightarrow> manifest \<Rightarrow> u64" where
  "tail_bytes covered m = sum_list (map sg_size (filter (\<lambda>sg. covered < sg_last_seq sg) (mf_log_segments m)))"

definition checkpoint_trigger_of :: "checkpoint_config \<Rightarrow> manifest \<Rightarrow> go_time \<Rightarrow> checkpoint_trigger option" where
  "checkpoint_trigger_of cfg m now =
     (let covered = (case mf_checkpoint m of None \<Rightarrow> 0 | Some cp \<Rightarrow> cr_seq cp);
          cp_at = (case mf_checkpoint m of None \<Rightarrow> 0
                   | Some cp \<Rightarrow> (case cr_created_at cp of None \<Rightarrow> 0 | Some t \<Rightarrow> time_go t));
          age_base = (if cp_at = 0 then (case mf_updated_at m of None \<Rightarrow> cp_at | Some t \<Rightarrow> time_go t) else cp_at)
      in if 0 < cc_snapshot_every_entries cfg \<and> cc_snapshot_every_entries cfg \<le> mf_head_seq m - covered then Some TriggerEntries
         else if 0 < cc_checkpoint_tail_bytes cfg \<and> cc_checkpoint_tail_bytes cfg < tail_bytes covered m then Some TriggerTailBytes
         else if 0 < cc_checkpoint_interval cfg \<and> age_base \<noteq> 0 \<and> cc_checkpoint_interval cfg \<le> now - age_base then Some TriggerAge
         else None)"

section \<open>What\<close>

text \<open>The times a checkpoint inherits: first state, as of, created (zero when unknown).\<close>

definition time_of :: "timestamp option \<Rightarrow> go_time" where
  "time_of ts = (case ts of None \<Rightarrow> 0 | Some t \<Rightarrow> time_go t)"

definition provenance_of :: "manifest \<Rightarrow> go_time \<times> go_time \<times> go_time" where
  "provenance_of m =
     (case mf_checkpoint m of
        None \<Rightarrow> (0, 0, 0)
      | Some cp \<Rightarrow> (time_of (cr_first_state_at cp), time_of (cr_as_of cp), time_of (cr_created_at cp)))"

definition last_entry_of :: "manifest \<Rightarrow> go_time \<Rightarrow> go_time" where
  "last_entry_of m last_entry = (if last_entry \<noteq> 0 then last_entry else time_of (mf_updated_at m))"

definition first_nonzero :: "go_time list \<Rightarrow> go_time" where
  "first_nonzero ts = (case filter (\<lambda>t. t \<noteq> 0) ts of [] \<Rightarrow> 0 | t # _ \<Rightarrow> t)"

definition checkpoint_snapshot :: "manifest \<Rightarrow> git_dir \<Rightarrow> go_time \<Rightarrow> ref_snapshot" where
  "checkpoint_snapshot m d now =
     (let (refs, target, oid) = layer_snapshot d in
      ref_snapshot_zero\<lparr>sn_seq := mf_head_seq m, sn_object_format := mf_object_format m, sn_head_target := target,
        sn_created_at := ts_ptr now,
        sn_refs := map (\<lambda>r. \<lparr>rf_name = re_name r, rf_oid = re_oid r, rf_peeled = re_peeled r\<rparr>) refs\<rparr>)"

definition checkpoint_document :: "manifest \<Rightarrow> ref_snapshot \<Rightarrow> string \<Rightarrow> go_time \<Rightarrow> checkpoint" where
  "checkpoint_document m snap writer now =
     checkpoint_zero\<lparr>cp_seq := mf_head_seq m, cp_object_format := mf_object_format m, cp_packs := mf_packs m,
       cp_refs_key := checkpoint_refs_key (mf_head_seq m), cp_ref_count := word_of_nat (length (sn_refs snap)),
       cp_created_at := ts_ptr now, cp_writer := writer\<rparr>"

definition new_checkpoint_ref :: "manifest \<Rightarrow> repo_handle \<Rightarrow> go_time \<Rightarrow> checkpoint_ref" where
  "new_checkpoint_ref m h now =
     (let (prev_first, prev_as_of, prev_created) = provenance_of m;
          first_state_at = first_nonzero [prev_first, h_first_entry_time h, prev_created, now];
          as_of = first_nonzero [last_entry_of m (h_last_entry_time h), prev_as_of, now]
      in checkpoint_ref_zero\<lparr>cr_seq := mf_head_seq m, cr_key := checkpoint_key (mf_head_seq m), cr_created_at := ts_ptr now,
           cr_first_state_at := ts_ptr first_state_at, cr_as_of := ts_ptr as_of\<rparr>)"

definition trim_manifest :: "manifest \<Rightarrow> checkpoint_ref \<Rightarrow> u64 \<Rightarrow> string \<Rightarrow> go_time \<Rightarrow> manifest" where
  "trim_manifest base cp sq writer now =
     base\<lparr>mf_checkpoint := Some cp, mf_min_seq := sq + 1,
       mf_log_segments := filter (\<lambda>sg. sq + 1 \<le> sg_last_seq sg) (mf_log_segments base),
       mf_updated_at := ts_ptr now, mf_writer := writer, mf_revision := mf_revision base + 1\<rparr>"

section \<open>How\<close>

definition immutable_create :: put_options where
  "immutable_create = (put_create x_protobuf)\<lparr>po_immutable := True\<rparr>"

text \<open>Round 1: the checkpoint document and the ref snapshot, create-only.\<close>

definition checkpoint_objects :: "'s store_api \<Rightarrow> string \<Rightarrow> u64 \<Rightarrow> checkpoint \<Rightarrow> ref_snapshot \<Rightarrow> 's \<Rightarrow> 's \<times> bool" where
  "checkpoint_objects api rid sq cp snap s =
     (case sa_put api (repo_key rid (checkpoint_key sq)) (bytes_body (marshal_checkpoint cp)) immutable_create s of
        (s1, r1) \<Rightarrow>
          (case sa_put api (repo_key rid (checkpoint_refs_key sq)) (bytes_body (marshal_ref_snapshot snap)) immutable_create s1 of
             (s2, r2) \<Rightarrow> (s2, isl r1 \<or> isl r2)))"

text \<open>Round 2: the manifest swap, with \<open>n\<close> attempts left.\<close>

fun checkpoint_swap ::
  "'s store_api \<Rightarrow> checkpoint_ref \<Rightarrow> u64 \<Rightarrow> go_time \<Rightarrow> nat \<Rightarrow> 's \<Rightarrow> repo_handle \<Rightarrow> 's \<times> repo_handle \<times> wal_error_kind option" where
  "checkpoint_swap api cp sq now 0 s h = (s, h, Some WalErrRetry)"
| "checkpoint_swap api cp sq now (Suc n) s h =
     (let base = h_manifest h in
      if (case mf_checkpoint base of None \<Rightarrow> False | Some c \<Rightarrow> sq \<le> cr_seq c) then (s, h, None)
      else let next_m = trim_manifest base cp sq (h_instance h) now in
        case sa_put api (manifest_key (h_id h)) (bytes_body (marshal_manifest next_m)) (manifest_options (h_version h)) s of
          (s1, Inr meta) \<Rightarrow>
            (s1, note_checkpoint sq now
               (h\<lparr>h_manifest := next_m, h_version := om_version meta, h_held_rev := mf_revision next_m\<rparr>), None)
        | (s1, Inl e) \<Rightarrow>
            if \<not> is_precondition_failed e then (s1, h, Some WalErrStore)
            else (case freshen_manifest api s1 h of
                (s2, h', Some e') \<Rightarrow> (s2, h', Some e')
              | (s2, h', None) \<Rightarrow> checkpoint_swap api cp sq now n s2 h'))"

definition write_checkpoint :: "'s store_api \<Rightarrow> go_time \<Rightarrow> 's \<Rightarrow> repo_handle \<Rightarrow> 's \<times> repo_handle \<times> wal_error_kind option" where
  "write_checkpoint api now s h =
     (case freshen_manifest api s h of
        (s1, h1, Some e) \<Rightarrow> (s1, h1, Some e)
      | (s1, h1, None) \<Rightarrow>
          let m = h_manifest h1 in
          if (case mf_checkpoint m of None \<Rightarrow> False | Some c \<Rightarrow> cr_seq c = mf_head_seq m) then (s1, h1, None)
          else case (if rs_applied_seq (h_state h1) < mf_head_seq m then apply_delta api s1 h1 else (s1, h1, None)) of
              (s2, h2, Some e) \<Rightarrow> (s2, h2, Some e)
            | (s2, h2, None) \<Rightarrow>
                let snap = checkpoint_snapshot m (h_dir h2) now;
                    cp = checkpoint_document m snap (h_instance h2) now
                in case checkpoint_objects api (h_id h2) (mf_head_seq m) cp snap s2 of
                     (s3, True) \<Rightarrow> (s3, h2, Some WalErrStore)
                   | (s3, False) \<Rightarrow> checkpoint_swap api (new_checkpoint_ref m h2 now) (mf_head_seq m) now 16 s3 h2)"

section \<open>What a trimmed manifest still says\<close>

lemma decode_marshal_snapshot: "wf_ref_snapshot sn \<Longrightarrow> decode_ref_snapshot (marshal_ref_snapshot sn) = Inr (canon_ref_snapshot sn)"
  by (simp add: decode_ref_snapshot_def unmarshal_ref_snapshot_def marshal_ref_snapshot_def ref_snapshot_msg.roundtrip)

lemma trim_fields [simp]:
  "mf_head_seq (trim_manifest m cp sq w now) = mf_head_seq m" "mf_checkpoint (trim_manifest m cp sq w now) = Some cp"
  "mf_log_segments (trim_manifest m cp sq w now) = filter (\<lambda>sg. sq + 1 \<le> sg_last_seq sg) (mf_log_segments m)"
  "base_seq (trim_manifest m cp sq w now) = cr_seq cp" "mf_revision (trim_manifest m cp sq w now) = mf_revision m + 1"
  by (simp_all add: trim_manifest_def base_seq_def)

text \<open>Every entry after the checkpoint is still in a listed segment, and the snapshot has the rest.\<close>

lemma trim_log_stored:
  assumes stored: "log_stored lk rid m hist" and cp: "cr_seq cp = sq" "base_seq m \<le> sq" "sq + 1 \<noteq> 0"
  shows "log_stored lk rid (trim_manifest m cp sq w now) hist"
proof -
  let ?m = "trim_manifest m cp sq w now"
  have "log_ok ?m"
    using stored by (auto simp: log_stored_def log_ok_def sorted_wrt_filter list_all_iff)
  moreover have "\<exists>sg \<in> set (mf_log_segments ?m). in_segment sg e" if e: "e \<in> set hist" "base_seq ?m < le_seq e" for e
  proof -
    have "sq < le_seq e" using e(2) cp(1) by simp
    then have "base_seq m < le_seq e" using cp(2) by (rule order.strict_trans1 [rotated])
    then obtain sg where sg: "sg \<in> set (mf_log_segments m)" "in_segment sg e" using stored e(1) by (auto simp: log_stored_def)
    then have "sq < sg_last_seq sg" using \<open>sq < le_seq e\<close> by (simp add: in_segment_def order.strict_trans2)
    then have "sq + 1 \<le> sg_last_seq sg" using succ_le_word [OF cp(3)] by simp
    with sg show ?thesis by auto
  qed
  ultimately show ?thesis using stored by (auto simp: log_stored_def)
qed

lemma trim_checkpoint_stored:
  assumes "cr_seq cp = sq" and "sq \<le> mf_head_seq m" and "lk (repo_key rid (checkpoint_refs_key sq)) = Some (v, marshal_ref_snapshot sn)"
    and "wf_ref_snapshot sn" and "sn_seq sn = sq" and "snapshot_ok sn" and "snapshot_view sn = replay_view (entry_txns (upto sq hist)) v0"
  shows "checkpoint_stored lk rid (trim_manifest m cp sq w now) hist v0"
proof -
  have "snapshot_ok (canon_ref_snapshot sn) = snapshot_ok sn" "snapshot_view (canon_ref_snapshot sn) = snapshot_view sn"
    "sn_seq (canon_ref_snapshot sn) = sn_seq sn"
    by (simp_all add: canon_ref_snapshot_def snapshot_ok_def snapshot_view_def)
  with assms decode_marshal_snapshot [OF assms(4)] show ?thesis by (simp add: checkpoint_stored_def)
qed

text \<open>A snapshot of local refs at a point of the history is the replay up to there.\<close>

lemma checkpoint_snapshot_view:
  assumes "local_at d es v0" and "fst (read_head d) \<noteq> []"
  shows "snapshot_ok (checkpoint_snapshot m d now) \<and> snapshot_view (checkpoint_snapshot m d now) = replay_view (entry_txns es) v0
    \<and> sn_seq (checkpoint_snapshot m d now) = mf_head_seq m"
proof -
  have d: "dir_ok d" "dir_view d = replay_view (entry_txns es) v0" using assms(1) by (simp_all add: local_at_def)
  have refs: "map ref_entry_of (sn_refs (checkpoint_snapshot m d now)) = dir_refs d"
    "sn_head_target (checkpoint_snapshot m d now) = fst (read_head d)" "sn_seq (checkpoint_snapshot m d now) = mf_head_seq m"
    by (simp_all add: checkpoint_snapshot_def snapshot_dir [OF d(1)] ref_entry_of_def o_def)
      (rule map_idI, simp)
  with d assms(2) show ?thesis by (simp add: snapshot_ok_def snapshot_view_def dir_ok_def dir_view_def)
qed

text \<open>Decoding drops only zero times, which the log of a manifest does not depend on.\<close>

lemma canon_manifest_log:
  "log_stored lk rid (canon_manifest m) hist = log_stored lk rid m hist"
  "checkpoint_stored lk rid (canon_manifest m) hist v0 = checkpoint_stored lk rid m hist v0"
  by (simp_all add: log_stored_def checkpoint_stored_def canon_manifest_def base_seq_def log_ok_def canon_checkpoint_ref_def
      option.case_eq_if option.map_sel)

lemma checkpoint_keys [simp]:
  "checkpoint_key n \<noteq> checkpoint_refs_key k" "checkpoint_key n \<noteq> ''manifest.pb''" "checkpoint_key n \<noteq> log_segment_key k"
  "checkpoint_refs_key n \<noteq> checkpoint_key k" "log_segment_key k \<noteq> checkpoint_key n"
  by (auto simp: checkpoint_key_def checkpoint_refs_key_def log_segment_key_def checkpoint_dir_def)

section \<open>Writing a checkpoint\<close>

context publisher_store
begin

lemma admits_immutable: "put_admits immutable_create cur \<longleftrightarrow> cur = None"
  by (simp add: put_admits_def immutable_create_def put_create_def)

lemma objects_written:
  assumes "inv s" and "room (Suc (Suc n)) s"
    and "look s (repo_key rid (checkpoint_key sq)) = None" and "look s (repo_key rid (checkpoint_refs_key sq)) = None"
  shows "\<exists>s' v v'. checkpoint_objects api rid sq cp snap s = (s', False) \<and> inv s' \<and> room n s'
    \<and> look s' = (look s)(repo_key rid (checkpoint_key sq) \<mapsto> (v, marshal_checkpoint cp),
                         repo_key rid (checkpoint_refs_key sq) \<mapsto> (v', marshal_ref_snapshot snap))"
proof -
  have "put_admits immutable_create (look s (repo_key rid (checkpoint_key sq)))" using assms(3) by (simp add: admits_immutable)
  from put_admitted [OF assms(1,2) repo_key_not_Nil this, of "marshal_checkpoint cp"] obtain s1 r1 v where
    s1: "sa_put api (repo_key rid (checkpoint_key sq)) (bytes_body (marshal_checkpoint cp)) immutable_create s = (s1, Inr r1)"
      "inv s1" "look s1 = (look s)(repo_key rid (checkpoint_key sq) \<mapsto> (v, marshal_checkpoint cp))" "room (Suc n) s1" by blast
  have "put_admits immutable_create (look s1 (repo_key rid (checkpoint_refs_key sq)))" using assms(4) s1(3) by (simp add: admits_immutable)
  from put_admitted [OF s1(2,4) repo_key_not_Nil this, of "marshal_ref_snapshot snap"] obtain s2 r2 v' where
    "sa_put api (repo_key rid (checkpoint_refs_key sq)) (bytes_body (marshal_ref_snapshot snap)) immutable_create s1 = (s2, Inr r2)"
    "inv s2" "look s2 = (look s1)(repo_key rid (checkpoint_refs_key sq) \<mapsto> (v', marshal_ref_snapshot snap))" "room n s2" by blast
  with s1 have "checkpoint_objects api rid sq cp snap s = (s2, False) \<and> inv s2 \<and> room n s2
    \<and> look s2 = (look s)(repo_key rid (checkpoint_key sq) \<mapsto> (v, marshal_checkpoint cp),
                         repo_key rid (checkpoint_refs_key sq) \<mapsto> (v', marshal_ref_snapshot snap))"
    by (simp add: checkpoint_objects_def)
  then show ?thesis by blast
qed

text \<open>A checkpoint object that is already there turns the whole write into an error.\<close>

lemma objects_blocked:
  assumes "inv s" and "room (Suc n) s" and "look s (repo_key rid (checkpoint_key sq)) \<noteq> None"
  shows "\<exists>s'. checkpoint_objects api rid sq cp snap s = (s', True) \<and> inv s'
    \<and> (\<forall>k. k \<noteq> repo_key rid (checkpoint_refs_key sq) \<longrightarrow> look s' k = look s k)"
proof -
  let ?k = "repo_key rid (checkpoint_refs_key sq)"
  have "\<not> put_admits immutable_create (look s (repo_key rid (checkpoint_key sq)))" using assms(3) by (simp add: admits_immutable)
  from put_not_admitted [OF assms(1) repo_key_not_Nil this, of "marshal_checkpoint cp"] assms(2) obtain s1 e where
    s1: "sa_put api (repo_key rid (checkpoint_key sq)) (bytes_body (marshal_checkpoint cp)) immutable_create s = (s1, Inl e)"
      "inv s1" "look s1 = look s" "room (Suc n) s1" by blast
  have "\<exists>s2 r. sa_put api ?k (bytes_body (marshal_ref_snapshot snap)) immutable_create s1 = (s2, r) \<and> inv s2
      \<and> (\<forall>k. k \<noteq> ?k \<longrightarrow> look s2 k = look s1 k)"
  proof (cases "look s1 ?k")
    case None
    then have "put_admits immutable_create (look s1 ?k)" by (simp add: admits_immutable)
    from put_admitted [OF s1(2,4) repo_key_not_Nil this, of "marshal_ref_snapshot snap"] show ?thesis by auto
  next
    case (Some x)
    then have "\<not> put_admits immutable_create (look s1 ?k)" by (simp add: admits_immutable)
    from put_not_admitted [OF s1(2) repo_key_not_Nil this, of "marshal_ref_snapshot snap"] show ?thesis by auto
  qed
  with s1 show ?thesis by (auto simp: checkpoint_objects_def)
qed

lemma swap_committed:
  assumes "inv s" and "room (Suc n) s" and "look s (manifest_key (h_id h)) = Some (h_version h, b)" and "base_seq (h_manifest h) < sq"
  shows "\<exists>s' h'. checkpoint_swap api cp sq now (Suc k) s h = (s', h', None) \<and> inv s' \<and> h_id h' = h_id h
    \<and> h_manifest h' = trim_manifest (h_manifest h) cp sq (h_instance h) now
    \<and> look s' = (look s)(manifest_key (h_id h) \<mapsto> (h_version h', marshal_manifest (h_manifest h')))"
proof -
  let ?m = "trim_manifest (h_manifest h) cp sq (h_instance h) now"
  have "h_version h \<noteq> []" using look_used assms(1,3) by blast
  then have "put_admits (manifest_options (h_version h)) (look s (manifest_key (h_id h)))"
    using assms(3) by (simp add: manifest_options_def put_update_def put_admits_def Let_def)
  moreover have "manifest_key (h_id h) \<noteq> []" by (simp add: manifest_repo_key)
  ultimately obtain s1 v where
    "sa_put api (manifest_key (h_id h)) (bytes_body (marshal_manifest ?m)) (manifest_options (h_version h)) s
      = (s1, Inr \<lparr>om_key = manifest_key (h_id h), om_size = int (length (marshal_manifest ?m)), om_version = v\<rparr>)"
    "inv s1" "look s1 = (look s)(manifest_key (h_id h) \<mapsto> (v, marshal_manifest ?m))"
    using put_admitted [OF assms(1,2)] by blast
  moreover have "\<not> (case mf_checkpoint (h_manifest h) of None \<Rightarrow> False | Some c \<Rightarrow> sq \<le> cr_seq c)"
    using assms(4) by (auto simp: base_seq_def split: option.splits)
  ultimately show ?thesis by (simp add: Let_def note_checkpoint_def)
qed

text \<open>
  A synced handle checkpoints at the head: the log of the new manifest says what it said before, with
  no segment left.
\<close>

lemma write_checkpoint_view:
  fixes h :: repo_handle and now :: go_time
  defines "head \<equiv> mf_head_seq (h_manifest h)"
  assumes "inv s" and "room 3 s" and man: "look s (manifest_key (h_id h)) = Some (h_version h, b)" "decode_manifest b = Inr (h_manifest h)"
    and stored: "log_stored (look s) (h_id h) (h_manifest h) hist"
    and dirs: "local_at (h_dir h) hist v0" "rs_applied_seq (h_state h) = head" "fst (read_head (h_dir h)) \<noteq> []"
    and seqs: "base_seq (h_manifest h) < head" "head + 1 \<noteq> 0"
    and free: "look s (repo_key (h_id h) (checkpoint_key head)) = None" "look s (repo_key (h_id h) (checkpoint_refs_key head)) = None"
    and fits: "wf_ref_snapshot (checkpoint_snapshot (h_manifest h) (h_dir h) now)"
  shows "\<exists>s' h'. write_checkpoint api now s h = (s', h', None) \<and> inv s' \<and> h_id h' = h_id h
    \<and> h_manifest h' = trim_manifest (h_manifest h) (new_checkpoint_ref (h_manifest h) h now) head (h_instance h) now
    \<and> look s' (manifest_key (h_id h)) = Some (h_version h', marshal_manifest (h_manifest h'))
    \<and> log_stored (look s') (h_id h) (h_manifest h') hist \<and> checkpoint_stored (look s') (h_id h) (h_manifest h') hist v0"
proof -
  let ?m = "h_manifest h" and ?rid = "h_id h" and ?cp = "new_checkpoint_ref (h_manifest h) h now"
  let ?snap = "checkpoint_snapshot ?m (h_dir h) now"
  obtain s1 where s1: "freshen_manifest api s h = (s1, h, None)" "inv s1" "look s1 = look s" "room 3 s1"
    using freshen_view [OF assms(2) man] assms(3) by auto
  have "room (Suc (Suc 1)) s1" using s1(4) by (simp add: numeral_3_eq_3)
  from objects_written [OF s1(2) this, of ?rid head "checkpoint_document ?m ?snap (h_instance h) now" ?snap] free s1(3)
  obtain s2 v v' where s2: "checkpoint_objects api ?rid head (checkpoint_document ?m ?snap (h_instance h) now) ?snap s1 = (s2, False)"
    "inv s2" "room 1 s2" "look s2 = (look s)(repo_key ?rid (checkpoint_key head) \<mapsto> (v, marshal_checkpoint (checkpoint_document ?m ?snap (h_instance h) now)),
        repo_key ?rid (checkpoint_refs_key head) \<mapsto> (v', marshal_ref_snapshot ?snap))" by auto
  have "look s2 (manifest_key ?rid) = Some (h_version h, b)"
    using s2(4) man(1) by (simp add: manifest_repo_key checkpoint_keys [THEN not_sym] log_key_neq [THEN not_sym])
  with swap_committed [OF s2(2) _ this seqs(1), of 0 ?cp now 15] s2(3) obtain s3 h' where
    s3: "checkpoint_swap api ?cp head now 16 s2 h = (s3, h', None)" "inv s3" "h_id h' = ?rid"
      "h_manifest h' = trim_manifest ?m ?cp head (h_instance h) now"
      "look s3 = (look s2)(manifest_key ?rid \<mapsto> (h_version h', marshal_manifest (h_manifest h')))"
    by (auto simp: numeral_eq_Suc simp del: checkpoint_swap.simps fun_upd_apply)
  have written: "write_checkpoint api now s h = (s3, h', None)"
    using s1(1) s2(1) s3(1) dirs(2) seqs(1)
    by (auto simp: write_checkpoint_def Let_def head_def [symmetric] base_seq_def simp del: checkpoint_swap.simps split: option.splits)
  have cp: "cr_seq ?cp = head" by (simp add: new_checkpoint_ref_def head_def Let_def split: prod.split)
  have frame: "look s3 (repo_key ?rid (log_segment_key n)) = look s (repo_key ?rid (log_segment_key n))" for n
    using s3(5) s2(4) by (simp add: manifest_repo_key)
  have "log_stored (look s) ?rid (h_manifest h') hist"
    unfolding s3(4) by (rule trim_log_stored [OF stored cp _ seqs(2)]) (use seqs(1) in simp)
  moreover have "\<forall>sg \<in> set (mf_log_segments (h_manifest h')). \<exists>n. sg_key sg = log_segment_key n"
    using stored unfolding s3(4) by (auto simp: log_stored_def log_ok_def list_all_iff)
  ultimately have "log_stored (look s3) ?rid (h_manifest h') hist"
    using frame unfolding log_stored_def by metis
  moreover have "checkpoint_stored (look s3) ?rid (h_manifest h') hist v0"
  proof -
    have all: "upto head hist = hist" using stored by (auto simp: upto_def head_def log_stored_def list_all_iff filter_id_conv)
    have "look s3 (repo_key ?rid (checkpoint_refs_key head)) = Some (v', marshal_ref_snapshot ?snap)"
      using s3(5) s2(4) by (simp add: manifest_repo_key)
    moreover have "snapshot_ok ?snap" "snapshot_view ?snap = replay_view (entry_txns (upto head hist)) v0" "sn_seq ?snap = head"
      using checkpoint_snapshot_view [OF dirs(1,3), of ?m now] all by (auto simp: head_def)
    ultimately show ?thesis
      unfolding s3(4) using fits by (intro trim_checkpoint_stored [OF cp]) (auto simp: head_def)
  qed
  ultimately show ?thesis using written s3 by (simp add: head_def)
qed

end

section \<open>Samples\<close>

text \<open>The small repository with a handle that has replayed its one entry.\<close>

definition tip_dir :: git_dir where
  "tip_dir = sample_dir\<lparr>gd_packed := render_packed_refs [\<lparr>re_name = ''refs/heads/a'', re_oid = sample_oid, re_peeled = []\<rparr>]\<rparr>"

definition tip_handle :: repo_handle where
  "tip_handle = new_handle ''i'' ''o/r'' sample_manifest (decimal 2) tip_dir (sample_state\<lparr>rs_applied_seq := 1\<rparr>)"

lemma tip_fields:
  "h_id tip_handle = ''o/r''" "h_version tip_handle = decimal 2" "h_manifest tip_handle = sample_manifest"
  "h_dir tip_handle = tip_dir" "rs_applied_seq (h_state tip_handle) = 1" "h_instance tip_handle = ''i''"
  by (simp_all add: tip_handle_def new_handle_def note_checkpoint_ref_def sample_fields)

lemma sample_names: "valid_ref_name ''refs/heads/a''" "valid_ref_name ''refs/heads/main''" "valid_oid sample_oid"
  unfolding sample_oid_def by code_simp+

lemma tip_refs:
  "dir_refs tip_dir = [\<lparr>re_name = ''refs/heads/a'', re_oid = sample_oid, re_peeled = []\<rparr>]"
  "read_head tip_dir = (''refs/heads/main'', [])"
proof -
  have "list_all wf_entry_ref [\<lparr>re_name = ''refs/heads/a'', re_oid = sample_oid, re_peeled = []\<rparr>]"
    using sample_names by (simp add: wf_entry_ref_def sample_oid_def)
  then show "dir_refs tip_dir = [\<lparr>re_name = ''refs/heads/a'', re_oid = sample_oid, re_peeled = []\<rparr>]"
    using parse_render by (simp add: dir_refs_def tip_dir_def)
  have "read_head sample_dir = (''refs/heads/main'', [])" unfolding sample_dir_def by code_simp
  then show "read_head tip_dir = (''refs/heads/main'', [])" by (simp add: read_head_def tip_dir_def)
qed

lemma tip_local: "local_at tip_dir [sample_entry] (\<lambda>_. None, ''refs/heads/main'')"
proof -
  have "gd_loose tip_dir = []" by (simp add: tip_dir_def sample_dir_def)
  moreover have "oids [\<lparr>re_name = ''refs/heads/a'', re_oid = sample_oid, re_peeled = []\<rparr>] = (\<lambda>_. None)(''refs/heads/a'' \<mapsto> sample_oid)"
    by (auto simp: oids_def lookup_ref_def fun_eq_iff)
  moreover have "replay_view (entry_txns [sample_entry]) (\<lambda>_. None, ''refs/heads/main'')
      = ((\<lambda>_. None)(''refs/heads/a'' \<mapsto> sample_oid), ''refs/heads/main'')"
    by (simp add: replay_view_def entry_txns_def sample_entry_def log_entry_zero_def sample_update_def apply_oid_def head_update_def
        absent_oid_def is_zero_oid_def sample_oid_def)
  ultimately show ?thesis
    using sample_names by (simp add: local_at_def dir_ok_def dir_view_def tip_refs ref_table_def wf_entry_ref_def sample_oid_def)
qed

lemma size_bounds:
  "size_sub n \<le> 11 + n" "num < 16 \<Longrightarrow> sz_uint num v \<le> 11" "num < 16 \<Longrightarrow> sz_string num t \<le> 11 + length t"
  using uvarint_len_le [of "word_of_nat n"] uvarint_len_le [of v] uvarint_len_le [of "word_of_nat (length t)"]
  by (simp_all add: size_sub_def size_len_def sz_uint_def size_tag_1 sz_string_def)

lemma wf_checkpoint_key: "wf_str (checkpoint_key n)" "length (checkpoint_key n) = 42"
proof -
  have "byte_of_char c < 0x80" if "c \<in> set (checkpoint_key n)" for c
    using that hex_fixed_ascii by (auto simp: checkpoint_key_def hex16_def byte_of_char_def)
  then have "utf8_valid (bytes_of (checkpoint_key n))" by (intro utf8_ascii) (auto simp: bytes_of_def)
  then show "wf_str (checkpoint_key n)" "length (checkpoint_key n) = 42" by (simp_all add: wf_str_def checkpoint_key_def)
qed

lemma size_new_checkpoint_ref: "size_checkpoint_ref (new_checkpoint_ref m h now) \<le> 163"
proof -
  let ?c = "new_checkpoint_ref m h now"
  have "cr_key ?c = checkpoint_key (mf_head_seq m)" by (simp add: new_checkpoint_ref_def Let_def split: prod.split)
  then show ?thesis
    using size_bounds(2) [of 1 "cr_seq ?c"] size_bounds(3) [of 2 "cr_key ?c"] wf_checkpoint_key(2) [of "mf_head_seq m"]
      sz_time_le [of "cr_created_at ?c"] sz_time_le [of "cr_first_state_at ?c"] sz_time_le [of "cr_as_of ?c"]
    by (simp add: size_checkpoint_ref_def)
qed

lemma tip_wf:
  "wf_manifest (trim_manifest sample_manifest (new_checkpoint_ref sample_manifest h now) 1 ''i'' now)"
  "wf_ref_snapshot (checkpoint_snapshot sample_manifest tip_dir now)"
proof -
  let ?c = "new_checkpoint_ref sample_manifest h now"
  have key: "cr_key ?c = checkpoint_key 1" by (simp add: new_checkpoint_ref_def Let_def sample_fields split: prod.split)
  have "wf_checkpoint_ref ?c" using size_new_checkpoint_ref [of sample_manifest h now] key wf_checkpoint_key(1) by (simp add: wf_checkpoint_ref_def)
  then show "wf_manifest (trim_manifest sample_manifest ?c 1 ''i'' now)"
    using size_new_checkpoint_ref [of sample_manifest h now] size_bounds(1) [of "size_checkpoint_ref ?c"] sz_time_le [of "ts_ptr now"]
      size_bounds(2) [of 4 1] size_bounds(2) [of 5 2] size_bounds(2) [of 11 2] size_bounds(3) [of 10 "''i''"]
    by (simp add: wf_manifest_def trim_manifest_def sample_manifest_def manifest_zero_def size_manifest_def sz_sub_def sz_subs_def
        wf_str_def bytes_of_def byte_of_char_def sz_uint_def [of _ 0] sz_string_def [of _ "[]"] word_le_nat_alt)
  have "dir_ok tip_dir" using tip_local by (simp add: local_at_def)
  then show "wf_ref_snapshot (checkpoint_snapshot sample_manifest tip_dir now)"
    using sz_time_le [of "ts_ptr now"] uvarint_len_le [of 1]
    by (simp add: wf_ref_snapshot_def checkpoint_snapshot_def snapshot_dir tip_refs size_ref_snapshot_def ref_snapshot_zero_def
        sample_manifest_def manifest_zero_def sz_uint_def sz_string_def sz_subs_def size_tag_1 size_len_small size_sub_def size_ref_def
        wf_ref_def wf_str_def bytes_of_def byte_of_char_def sample_oid_def)
qed

definition half_store :: memory where
  "half_store = sample_store\<lparr>mem_objs := mem_objs sample_store
     @ [(repo_key ''o/r'' (checkpoint_key 1), \<lparr>mo_data = [], mo_version = decimal 1, mo_content_type = []\<rparr>)]\<rparr>"

section \<open>Properties\<close>

text \<open>
  C24: A checkpoint is invisible to readers. Writing one at the head of a synced handle succeeds and
  swaps in a manifest without segments; afterwards every other handle, at whatever point of the
  history it stood, reaches by a sync the same refs and HEAD as by replaying the whole history.
\<close>

theorem checkpoint_then_sync:
  fixes h :: repo_handle and now :: go_time
  defines "m' \<equiv> trim_manifest (h_manifest h) (new_checkpoint_ref (h_manifest h) h now) (mf_head_seq (h_manifest h)) (h_instance h) now"
  assumes "mem_inv s" and "mem_room 3 s"
    and "mem_look s (manifest_key (h_id h)) = Some (h_version h, b)" and "decode_manifest b = Inr (h_manifest h)"
    and "log_stored (mem_look s) (h_id h) (h_manifest h) hist"
    and "local_at (h_dir h) hist start" and "rs_applied_seq (h_state h) = mf_head_seq (h_manifest h)" and "fst (read_head (h_dir h)) \<noteq> []"
    and "base_seq (h_manifest h) < mf_head_seq (h_manifest h)" and "mf_head_seq (h_manifest h) + 1 \<noteq> 0"
    and "mem_look s (repo_key (h_id h) (checkpoint_key (mf_head_seq (h_manifest h)))) = None"
    and "mem_look s (repo_key (h_id h) (checkpoint_refs_key (mf_head_seq (h_manifest h)))) = None"
    and "wf_ref_snapshot (checkpoint_snapshot (h_manifest h) (h_dir h) now)" and "wf_manifest m'"
  shows "\<exists>s' h'. write_checkpoint mem_api now s h = (s', h', None) \<and> h_manifest h' = m' \<and> mf_log_segments m' = []
    \<and> (\<forall>other. h_id other = h_id h \<and> h_version other \<noteq> h_version h' \<and> h_held_rev other < mf_revision m'
        \<and> rs_applied_seq (h_state other) \<le> mf_head_seq m' \<and> local_at (h_dir other) (upto (rs_applied_seq (h_state other)) hist) start
        \<longrightarrow> (\<exists>s'' other'. sync_refs mem_api s' other = (s'', other', None) \<and> local_at (h_dir other') hist start))"
proof -
  obtain s' h' where w: "write_checkpoint mem_api now s h = (s', h', None)" "mem_inv s'" "h_manifest h' = m'"
    "mem_look s' (manifest_key (h_id h)) = Some (h_version h', marshal_manifest m')"
    "log_stored (mem_look s') (h_id h) m' hist" "checkpoint_stored (mem_look s') (h_id h) m' hist start"
    using memory_publisher.write_checkpoint_view [OF assms(2-14)] unfolding m'_def by metis
  have "mf_log_segments m' = []"
  proof -
    have "\<not> mf_head_seq (h_manifest h) + 1 \<le> sg_last_seq sg" if "sg \<in> set (mf_log_segments (h_manifest h))" for sg
      using that assms(6) succ_le_word [OF assms(11)] by (auto simp: log_stored_def log_ok_def list_all_iff not_less)
    then show ?thesis by (simp add: m'_def filter_empty_conv)
  qed
  moreover have "\<exists>s'' other'. sync_refs mem_api s' other = (s'', other', None) \<and> local_at (h_dir other') hist start"
    if "h_id other = h_id h" "h_version other \<noteq> h_version h'" "h_held_rev other < mf_revision m'"
      "rs_applied_seq (h_state other) \<le> mf_head_seq m'" "local_at (h_dir other) (upto (rs_applied_seq (h_state other)) hist) start" for other
  proof -
    have c: "mf_revision (canon_manifest m') = mf_revision m'" "mf_head_seq (canon_manifest m') = mf_head_seq m'"
      by (simp_all add: canon_manifest_def)
    from memory_engine.sync_refs_view [OF w(2) _ marshal_roundtrip(1) [OF assms(15)], of other "h_version h'" hist start] that w(4-6) show ?thesis
      by (auto simp: c canon_manifest_log)
  qed
  ultimately show ?thesis using w(1,3) by blast
qed

lemma checkpoint_then_sync_witness:
  "let m' = trim_manifest sample_manifest (new_checkpoint_ref sample_manifest tip_handle 0) 1 ''i'' 0 in
    \<exists>s' h'. write_checkpoint mem_api 0 sample_store tip_handle = (s', h', None) \<and> h_manifest h' = m' \<and> mf_log_segments m' = []
    \<and> (\<forall>other. h_id other = ''o/r'' \<and> h_version other \<noteq> h_version h' \<and> h_held_rev other < mf_revision m'
        \<and> rs_applied_seq (h_state other) \<le> mf_head_seq m' \<and> local_at (h_dir other) (upto (rs_applied_seq (h_state other)) [sample_entry]) (\<lambda>_. None, ''refs/heads/main'')
        \<longrightarrow> (\<exists>s'' other'. sync_refs mem_api s' other = (s'', other', None) \<and> local_at (h_dir other') [sample_entry] (\<lambda>_. None, ''refs/heads/main'')))"
proof -
  have "mem_look sample_store (repo_key ''o/r'' (checkpoint_key 1)) = None" "mem_look sample_store (repo_key ''o/r'' (checkpoint_refs_key 1)) = None"
    by (simp_all add: sample_store_def mem_look_def get_locked_def manifest_repo_key checkpoint_keys [THEN not_sym] log_key_neq [THEN not_sym])
  then show ?thesis
    using checkpoint_then_sync [of sample_store tip_handle "marshal_manifest sample_manifest" "[sample_entry]" "(\<lambda>_. None, ''refs/heads/main'')" 0]
      tip_wf sample_inv sample_look(1) sample_decode(1) sample_log tip_local
    by (simp add: tip_fields sample_fields tip_refs Let_def mem_room_def base_seq_def) (simp add: sample_store_def)
qed

text \<open>
  C40: A checkpoint that died between its two rounds blocks the next one. The objects of round 1 are
  create-only and a refused create is an error, so as long as the head does not move, every attempt
  fails with a store error and the manifest stays as it is; the comment calls the race benign.
\<close>

theorem interrupted_checkpoint_blocks:
  assumes "mem_inv s" and "mem_room 1 s"
    and "mem_look s (manifest_key (h_id h)) = Some (h_version h, b)" and "decode_manifest b = Inr (h_manifest h)"
    and "rs_applied_seq (h_state h) = mf_head_seq (h_manifest h)" and "base_seq (h_manifest h) < mf_head_seq (h_manifest h)"
    and "mem_look s (repo_key (h_id h) (checkpoint_key (mf_head_seq (h_manifest h)))) \<noteq> None"
  shows "\<exists>s'. write_checkpoint mem_api now s h = (s', h, Some WalErrStore)
    \<and> mem_look s' (manifest_key (h_id h)) = Some (h_version h, b)"
proof -
  let ?m = "h_manifest h" let ?snap = "checkpoint_snapshot ?m (h_dir h) now"
  obtain s1 where s1: "freshen_manifest mem_api s h = (s1, h, None)" "mem_inv s1" "mem_look s1 = mem_look s" "mem_room 1 s1"
    using memory_engine.freshen_view [OF assms(1,3,4)] assms(2) by auto
  from memory_publisher.objects_blocked [OF s1(2), of 0 "h_id h" "mf_head_seq ?m" "checkpoint_document ?m ?snap (h_instance h) now" ?snap]
  obtain s2 where s2: "checkpoint_objects mem_api (h_id h) (mf_head_seq ?m) (checkpoint_document ?m ?snap (h_instance h) now) ?snap s1 = (s2, True)"
    "\<forall>k. k \<noteq> repo_key (h_id h) (checkpoint_refs_key (mf_head_seq ?m)) \<longrightarrow> mem_look s2 k = mem_look s1 k"
    using assms(7) s1(3,4) by auto
  have "\<not> (case mf_checkpoint ?m of None \<Rightarrow> False | Some c \<Rightarrow> cr_seq c = mf_head_seq ?m)"
    using assms(6) by (auto simp: base_seq_def split: option.splits)
  then have "write_checkpoint mem_api now s h = (s2, h, Some WalErrStore)"
    using s1(1) s2(1) assms(5) by (simp add: write_checkpoint_def Let_def)
  moreover have "mem_look s2 (manifest_key (h_id h)) = Some (h_version h, b)"
    using s2(2) s1(3) assms(3) by (simp add: manifest_repo_key log_key_neq [THEN not_sym])
  ultimately show ?thesis by blast
qed

lemma interrupted_checkpoint_blocks_witness:
  "\<exists>s'. write_checkpoint mem_api 0 half_store tip_handle = (s', tip_handle, Some WalErrStore)
    \<and> mem_look s' (manifest_key ''o/r'') = Some (decimal 2, marshal_manifest sample_manifest)"
proof -
  have "mem_inv half_store" "mem_room 1 half_store" "mem_look half_store (manifest_key ''o/r'') = Some (decimal 2, marshal_manifest sample_manifest)"
    "mem_look half_store (repo_key ''o/r'' (checkpoint_key 1)) \<noteq> None"
    using sample_inv sample_look(1)
    by (simp_all add: half_store_def sample_store_def mem_inv_def mem_used_def undecimal_decimal mem_room_def mem_look_def get_locked_def
        manifest_repo_key checkpoint_keys [THEN not_sym] log_key_neq [THEN not_sym])
  then show ?thesis
    using interrupted_checkpoint_blocks [of half_store tip_handle "marshal_manifest sample_manifest" 0] sample_decode(1)
    by (simp add: tip_fields sample_fields base_seq_def)
qed

end
