(* ===== verification/Writers.thy ===== *)
theory Writers
  imports Checkpoint
begin

text \<open>
  Many publishers on one bucket. Every publisher runs the ladder of \<^verbatim>\<open>runBatch\<close>
  (\<^verbatim>\<open>internal/wal/publish.go\<close>) on its own host, and the only thing they share is the object store. Here
  the ladder is cut at its store requests: a phase says which request a publisher makes next, a step
  is one request of one publisher, and the steps of all publishers interleave in any order. A host
  may crash at any point, and a response may be lost after the store has acted on the request.

  The last part replays the functions of \<open>Publish\<close> as sequences of these steps.
\<close>

section \<open>Phases\<close>

text \<open>A manifest and the version it was read under, and the burned slots of a batch.\<close>

type_synonym base = "manifest \<times> version"
type_synonym burned = "(u64 \<times> string) list"

datatype phase =
    Idle
  | Syncing "log_entry list" burned
  | Claiming base "log_entry list" u64 nat burned
  | Rereading base "log_entry list" u64 nat burned
  | Probing base "log_entry list" u64 nat burned nat
  | Holding base "log_entry list" u64 version burned
  | Withdrawing "log_entry list" u64 version burned
  | Checking "log_entry list" u64 manifest burned
  | Recovering manifest burned
  | Sweeping burned
  | Sweep_next "string list" "string list"
  | Sweep_found "string list" string version "string list"

text \<open>The burned slots a failing batch hands to the sweep.\<close>

fun burned_of :: "phase \<Rightarrow> burned option" where
  "burned_of (Syncing es bs) = Some bs"
| "burned_of (Claiming mv es f k bs) = Some bs"
| "burned_of (Rereading mv es f k bs) = Some bs"
| "burned_of (Probing mv es f k bs n) = Some bs"
| "burned_of (Holding mv es f sv bs) = Some bs"
| "burned_of (Checking es f next_m bs) = Some bs"
| "burned_of p = None"

text \<open>
  The hosts' manifests (\<^verbatim>\<open>h.manifest\<close> and \<^verbatim>\<open>h.version\<close>) and phases, the bucket, and, for the
  statements only, the entries committed so far.
\<close>

record 's world =
  w_store :: 's
  w_base :: "nat \<Rightarrow> base option"
  w_phase :: "nat \<Rightarrow> phase"
  w_hist :: "log_entry list"

definition at_phase :: "nat \<Rightarrow> phase \<Rightarrow> 's \<Rightarrow> 's world \<Rightarrow> 's world" where
  "at_phase i p s W = W\<lparr>w_store := s, w_phase := (w_phase W)(i := p)\<rparr>"

definition holds_base :: "nat \<Rightarrow> base \<Rightarrow> 's world \<Rightarrow> 's world" where
  "holds_base i mv W = W\<lparr>w_base := (w_base W)(i \<mapsto> mv)\<rparr>"

text \<open>The bounds of a batch at a slot: the entries fit a frame and their numbers do not wrap.\<close>

definition batch_fits :: "u64 \<Rightarrow> log_entry list \<Rightarrow> bool" where
  "batch_fits f es \<longleftrightarrow>
     es \<noteq> [] \<and> list_all wf_entry (renumber f es) \<and> list_all entry_ok es \<and> unat f + length es \<le> 2 ^ 64"

definition segment_body :: "u64 \<Rightarrow> log_entry list \<Rightarrow> bytes" where
  "segment_body f es = encode_segment (renumber f es)"

definition slot_key :: "string \<Rightarrow> u64 \<Rightarrow> string" where
  "slot_key rid f = repo_key rid (log_segment_key f)"

definition put_segment :: "'s store_api \<Rightarrow> string \<Rightarrow> u64 \<Rightarrow> log_entry list \<Rightarrow> 's \<Rightarrow> 's \<times> (go_error + object_meta)" where
  "put_segment api rid f es = sa_put api (slot_key rid f) (bytes_body (segment_body f es)) (put_create x_protobuf)"

definition put_manifest :: "'s store_api \<Rightarrow> string \<Rightarrow> manifest \<Rightarrow> version \<Rightarrow> 's \<Rightarrow> 's \<times> (go_error + object_meta)" where
  "put_manifest api rid next_m v =
     sa_put api (manifest_key rid) (bytes_body (marshal_manifest next_m)) (manifest_options v)"

definition next_manifest :: "manifest \<Rightarrow> u64 \<Rightarrow> log_entry list \<Rightarrow> string \<Rightarrow> go_time \<Rightarrow> manifest" where
  "next_manifest m f es w now =
     build_next_manifest m (renumber f es) (mf_head_seq m + 1) f (segment_body f es) w now"

section \<open>Steps\<close>

text \<open>
  \<open>calm\<close> restricts two steps. A calm sweep starts only when the manifest it reads has passed the
  burned slots, and a calm recovery of a lost response takes the version of the manifest only while
  the manifest is still its own. The code has neither restriction: its runs are those with \<open>calm\<close>
  false.
\<close>

inductive wstep :: "'s store_api \<Rightarrow> string \<Rightarrow> bool \<Rightarrow> 's world \<Rightarrow> 's world \<Rightarrow> bool"
  for api :: "'s store_api" and rid :: string and calm :: bool where
  sync: "get_bytes api (manifest_key rid) get_default (w_store W) = (s, Inr (Some b, meta)) \<Longrightarrow> decode_manifest b = Inr m \<Longrightarrow>
    wstep api rid calm W (holds_base i (m, om_version meta) (W\<lparr>w_store := s\<rparr>))"
| submit: "w_phase W i = Idle \<Longrightarrow> wstep api rid calm W (at_phase i (Syncing es []) (w_store W) W)"
| attempt: "w_phase W i = Syncing es bs \<Longrightarrow> w_base W i = Some (m, v) \<Longrightarrow> unat (mf_head_seq m) + 1 < 2 ^ 64 \<Longrightarrow>
    wstep api rid calm W (at_phase i (Claiming (m, v) es (mf_head_seq m + 1) 0 bs) (w_store W) W)"
| claim: "w_phase W i = Claiming mv es f k bs \<Longrightarrow> batch_fits f es \<Longrightarrow>
    put_segment api rid f es (w_store W) = (s, Inr meta) \<Longrightarrow>
    wstep api rid calm W (at_phase i (Holding mv es f (om_version meta) bs) s W)"
| claim_failed: "w_phase W i = Claiming mv es f k bs \<Longrightarrow> batch_fits f es \<Longrightarrow>
    put_segment api rid f es (w_store W) = (s, r) \<Longrightarrow> s' \<in> {w_store W, s} \<Longrightarrow>
    wstep api rid calm W (at_phase i (Rereading mv es f k bs) s' W)"
| reread_landed: "w_phase W i = Rereading mv es f k bs \<Longrightarrow> fresh_head api rid (w_store W) = (s, Inr (Some m)) \<Longrightarrow>
    f \<le> mf_head_seq m \<Longrightarrow> wstep api rid calm W (at_phase i (Syncing es bs) s W)"
| reread_free: "w_phase W i = Rereading mv es f k bs \<Longrightarrow> fresh_head api rid (w_store W) = (s, r) \<Longrightarrow>
    case r of Inl e \<Rightarrow> is_not_found e | Inr None \<Rightarrow> True | Inr (Some m) \<Rightarrow> \<not> f \<le> mf_head_seq m \<Longrightarrow>
    wstep api rid calm W (at_phase i (Probing mv es f k bs 0) s W)"
| probe_absent: "w_phase W i = Probing mv es f k bs n \<Longrightarrow> exists_op api (slot_key rid f) (w_store W) = (s, Inr False) \<Longrightarrow>
    wstep api rid calm W (at_phase i (Claiming mv es f k bs) s W)"
| probe_present: "w_phase W i = Probing mv es f k bs n \<Longrightarrow> exists_op api (slot_key rid f) (w_store W) = (s, Inr True) \<Longrightarrow>
    Suc n < orphan_probes \<Longrightarrow> wstep api rid calm W (at_phase i (Probing mv es f k bs (Suc n)) s W)"
| burn: "w_phase W i = Probing mv es f k bs n \<Longrightarrow> exists_op api (slot_key rid f) (w_store W) = (s, Inr True) \<Longrightarrow>
    Suc n = orphan_probes \<Longrightarrow> k + 1 \<le> max_burns \<Longrightarrow> unat f + 1 < 2 ^ 64 \<Longrightarrow>
    wstep api rid calm W (at_phase i (Claiming mv es (f + 1) (k + 1) (map_put f (log_segment_key f) bs)) s W)"
| swap: "w_phase W i = Holding (m, v) es f sv bs \<Longrightarrow> next_m = next_manifest m f es w now \<Longrightarrow> wf_manifest next_m \<Longrightarrow>
    put_manifest api rid next_m v (w_store W) = (s, Inr meta) \<Longrightarrow>
    wstep api rid calm W (holds_base i (next_m, om_version meta) (at_phase i (Sweeping bs) s
      (W\<lparr>w_hist := w_hist W @ map canon_log_entry (renumber f es)\<rparr>)))"
| swap_lost: "w_phase W i = Holding (m, v) es f sv bs \<Longrightarrow> next_m = next_manifest m f es w now \<Longrightarrow> wf_manifest next_m \<Longrightarrow>
    put_manifest api rid next_m v (w_store W) = (s, Inr meta) \<Longrightarrow>
    wstep api rid calm W (at_phase i (Checking es f next_m bs) s
      (W\<lparr>w_hist := w_hist W @ map canon_log_entry (renumber f es)\<rparr>))"
| swap_unsure: "w_phase W i = Holding (m, v) es f sv bs \<Longrightarrow> next_m = next_manifest m f es w now \<Longrightarrow> wf_manifest next_m \<Longrightarrow>
    put_manifest api rid next_m v (w_store W) = (s, Inl e) \<or> s = w_store W \<Longrightarrow>
    wstep api rid calm W (at_phase i (Checking es f next_m bs) s W)"
| swap_stale: "w_phase W i = Holding (m, v) es f sv bs \<Longrightarrow> next_m = next_manifest m f es w now \<Longrightarrow>
    put_manifest api rid next_m v (w_store W) = (s, Inl e) \<Longrightarrow> is_precondition_failed e \<Longrightarrow>
    wstep api rid calm W (at_phase i (Withdrawing es f sv bs) s W)"
| withdraw: "w_phase W i = Withdrawing es f sv bs \<Longrightarrow> sa_delete api (slot_key rid f) sv (w_store W) = (s, err) \<Longrightarrow>
    s' \<in> {w_store W, s} \<Longrightarrow> wstep api rid calm W (at_phase i (Syncing es bs) s' W)"
| check_listed: "w_phase W i = Checking es f next_m bs \<Longrightarrow> fresh_head api rid (w_store W) = (s, Inr (Some m)) \<Longrightarrow>
    list_ex (\<lambda>sg. sg_key sg = log_segment_key f) (mf_log_segments m) \<Longrightarrow>
    wstep api rid calm W (at_phase i (Recovering next_m bs) s W)"
| check_unlisted: "w_phase W i = Checking es f next_m bs \<Longrightarrow> fresh_head api rid (w_store W) = (s, Inr mo) \<Longrightarrow>
    case mo of None \<Rightarrow> True | Some m \<Rightarrow> \<not> list_ex (\<lambda>sg. sg_key sg = log_segment_key f) (mf_log_segments m) \<Longrightarrow>
    wstep api rid calm W (at_phase i (Syncing es bs) s W)"
| recover: "w_phase W i = Recovering next_m bs \<Longrightarrow> sa_head api (manifest_key rid) (w_store W) = (s, Inr (Some meta)) \<Longrightarrow>
    calm \<longrightarrow> (\<exists>s' meta'. get_bytes api (manifest_key rid) get_default (w_store W) = (s', Inr (Some (marshal_manifest next_m), meta'))) \<Longrightarrow>
    wstep api rid calm W (holds_base i (next_m, om_version meta) (at_phase i (Sweeping bs) s W))"
| recover_blind: "w_phase W i = Recovering next_m bs \<Longrightarrow>
    wstep api rid calm W (holds_base i (next_m, []) (at_phase i (Sweeping bs) (w_store W) W))"
| give_up: "burned_of (w_phase W i) = Some bs \<Longrightarrow> wstep api rid calm W (at_phase i (Sweeping bs) (w_store W) W)"
| sweep_start: "w_phase W i = Sweeping bs \<Longrightarrow> fresh_head api rid (w_store W) = (s, Inr (Some m)) \<Longrightarrow>
    calm \<longrightarrow> (\<forall>(n, key) \<in> set bs. n \<le> mf_head_seq m) \<Longrightarrow>
    wstep api rid calm W (at_phase i (Sweep_next (map sg_key (mf_log_segments m)) (map snd bs)) s W)"
| sweep_keep: "w_phase W i = Sweep_next keep (key # ks) \<Longrightarrow> key \<in> set keep \<Longrightarrow>
    wstep api rid calm W (at_phase i (Sweep_next keep ks) (w_store W) W)"
| sweep_head: "w_phase W i = Sweep_next keep (key # ks) \<Longrightarrow> key \<notin> set keep \<Longrightarrow>
    sa_head api (repo_key rid key) (w_store W) = (s, Inr (Some meta)) \<Longrightarrow>
    wstep api rid calm W (at_phase i (Sweep_found keep key (om_version meta) ks) s W)"
| sweep_gone: "w_phase W i = Sweep_next keep (key # ks) \<Longrightarrow> key \<notin> set keep \<Longrightarrow>
    sa_head api (repo_key rid key) (w_store W) = (s, r) \<Longrightarrow> \<forall>meta. r \<noteq> Inr (Some meta) \<Longrightarrow>
    wstep api rid calm W (at_phase i (Sweep_next keep ks) s W)"
| sweep_delete: "w_phase W i = Sweep_found keep key v ks \<Longrightarrow> sa_delete api (repo_key rid key) v (w_store W) = (s, err) \<Longrightarrow>
    s' \<in> {w_store W, s} \<Longrightarrow> wstep api rid calm W (at_phase i (Sweep_next keep ks) s' W)"
| finish: "w_phase W i \<in> {Sweeping bs, Sweep_next keep []} \<Longrightarrow> wstep api rid calm W (at_phase i Idle (w_store W) W)"
| crash: "wstep api rid calm W (at_phase i Idle (w_store W) (W\<lparr>w_base := (w_base W)(i := None)\<rparr>))"
| read_any: "get_bytes api key opts (w_store W) = (s, r) \<Longrightarrow> wstep api rid calm W (W\<lparr>w_store := s\<rparr>)"
| head_any: "sa_head api key (w_store W) = (s, r) \<Longrightarrow> wstep api rid calm W (W\<lparr>w_store := s\<rparr>)"
| elsewhere: "key \<noteq> [] \<Longrightarrow> key \<noteq> manifest_key rid \<Longrightarrow> \<forall>n. key \<noteq> slot_key rid n \<Longrightarrow>
    sa_put api key (bytes_body body) opts (w_store W) = (s, r) \<Longrightarrow> wstep api rid calm W (W\<lparr>w_store := s\<rparr>)"

abbreviation wsteps :: "'s store_api \<Rightarrow> string \<Rightarrow> bool \<Rightarrow> 's world \<Rightarrow> 's world \<Rightarrow> bool" where
  "wsteps api rid calm \<equiv> (wstep api rid calm)\<^sup>*\<^sup>*"

definition fresh_world :: "'s \<Rightarrow> log_entry list \<Rightarrow> 's world" where
  "fresh_world s hist = \<lparr>w_store = s, w_base = (\<lambda>_. None), w_phase = (\<lambda>_. Idle), w_hist = hist\<rparr>"

section \<open>The invariant\<close>

lemma log_stored_keys:
  assumes "log_stored lk rid m hist" and "sg \<in> set (mf_log_segments m)"
  shows "sg_key sg = log_segment_key (sg_first_seq sg)"
  using assms by (simp add: log_stored_def log_ok_def list_all_iff)

text \<open>The part of a manifest that its log depends on.\<close>

definition log_view :: "manifest \<Rightarrow> u64 \<times> log_segment_ref list \<times> u64" where
  "log_view m = (mf_head_seq m, mf_log_segments m, base_seq m)"

lemma log_view_canon [simp]: "log_view (canon_manifest m) = log_view m"
  by (simp add: log_view_def canon_manifest_def base_seq_def canon_checkpoint_ref_def option.case_eq_if option.map_sel)

lemma log_view_stored:
  assumes "log_view m = log_view m'"
  shows "log_stored lk rid m hist = log_stored lk rid m' hist"
  using assms by (simp add: log_view_def log_stored_def log_ok_def)

definition manifest_at :: "(string \<Rightarrow> (version \<times> bytes) option) \<Rightarrow> string \<Rightarrow> version \<Rightarrow> manifest \<Rightarrow> bool" where
  "manifest_at lk rid v m \<longleftrightarrow> (\<exists>b. lk (manifest_key rid) = Some (v, b) \<and> decode_manifest b = Inr m)"

definition listed_keys :: "manifest \<Rightarrow> string set" where
  "listed_keys m = sg_key ` set (mf_log_segments m)"

text \<open>A held manifest is exact while its version is the stored one.\<close>

definition base_ok :: "(string \<Rightarrow> (version \<times> bytes) option) \<Rightarrow> (version \<Rightarrow> bool) \<Rightarrow> string \<Rightarrow> base \<Rightarrow> bool" where
  "base_ok lk used rid mv \<longleftrightarrow>
     (snd mv = [] \<or> used (snd mv)) \<and> (\<forall>m. manifest_at lk rid (snd mv) m \<longrightarrow> log_view m = log_view (fst mv))"

text \<open>An own segment carries a version of its own, and is not part of the log.\<close>

definition own_ok :: "(string \<Rightarrow> (version \<times> bytes) option) \<Rightarrow> (version \<Rightarrow> bool) \<Rightarrow> string \<Rightarrow> u64 \<Rightarrow> version \<Rightarrow> bool" where
  "own_ok lk used rid f sv \<longleftrightarrow> sv \<noteq> [] \<and> used sv \<and>
     (\<forall>v m b. manifest_at lk rid v m \<longrightarrow> lk (slot_key rid f) = Some (sv, b) \<longrightarrow> log_segment_key f \<notin> listed_keys m)"

text \<open>A slot to sweep: the log has passed it by without listing it.\<close>

definition passed :: "(string \<Rightarrow> (version \<times> bytes) option) \<Rightarrow> string \<Rightarrow> string \<Rightarrow> bool" where
  "passed lk rid key \<longleftrightarrow>
     (\<exists>n. key = log_segment_key n \<and> (\<forall>v m. manifest_at lk rid v m \<longrightarrow> n \<le> mf_head_seq m \<and> key \<notin> listed_keys m))"

definition burned_ok :: "burned \<Rightarrow> bool" where
  "burned_ok bs \<longleftrightarrow> (\<forall>(n, key) \<in> set bs. key = log_segment_key n)"

definition claim_ok :: "(string \<Rightarrow> (version \<times> bytes) option) \<Rightarrow> (version \<Rightarrow> bool) \<Rightarrow> string \<Rightarrow> base \<Rightarrow> u64 \<Rightarrow> burned \<Rightarrow> bool" where
  "claim_ok lk used rid mv f bs \<longleftrightarrow> base_ok lk used rid mv \<and> mf_head_seq (fst mv) < f \<and> burned_ok bs"

fun phase_ok :: "(string \<Rightarrow> (version \<times> bytes) option) \<Rightarrow> (version \<Rightarrow> bool) \<Rightarrow> string \<Rightarrow> phase \<Rightarrow> bool" where
  "phase_ok lk used rid Idle = True"
| "phase_ok lk used rid (Syncing es bs) = burned_ok bs"
| "phase_ok lk used rid (Claiming mv es f k bs) = claim_ok lk used rid mv f bs"
| "phase_ok lk used rid (Rereading mv es f k bs) = claim_ok lk used rid mv f bs"
| "phase_ok lk used rid (Probing mv es f k bs n) = claim_ok lk used rid mv f bs"
| "phase_ok lk used rid (Holding mv es f sv bs) =
     (claim_ok lk used rid mv f bs \<and> own_ok lk used rid f sv \<and> batch_fits f es
      \<and> (\<forall>m. manifest_at lk rid (snd mv) m \<longrightarrow> lk (slot_key rid f) = Some (sv, segment_body f es)))"
| "phase_ok lk used rid (Withdrawing es f sv bs) = (own_ok lk used rid f sv \<and> burned_ok bs)"
| "phase_ok lk used rid (Checking es f next_m bs) = (wf_manifest next_m \<and> burned_ok bs)"
| "phase_ok lk used rid (Recovering next_m bs) = (wf_manifest next_m \<and> burned_ok bs)"
| "phase_ok lk used rid (Sweeping bs) = burned_ok bs"
| "phase_ok lk used rid (Sweep_next keep ks) = (\<forall>k \<in> set ks. k \<notin> set keep \<longrightarrow> passed lk rid k)"
| "phase_ok lk used rid (Sweep_found keep key v ks) =
     (v \<noteq> [] \<and> passed lk rid key \<and> (\<forall>k \<in> set ks. k \<notin> set keep \<longrightarrow> passed lk rid k))"

fun owned :: "phase \<Rightarrow> (u64 \<times> version) option" where
  "owned (Holding mv es f sv bs) = Some (f, sv)"
| "owned (Withdrawing es f sv bs) = Some (f, sv)"
| "owned p = None"

definition world_ok :: "(string \<Rightarrow> (version \<times> bytes) option) \<Rightarrow> (version \<Rightarrow> bool) \<Rightarrow> string \<Rightarrow> 's world \<Rightarrow> bool" where
  "world_ok lk used rid W \<longleftrightarrow>
     (\<exists>v m. manifest_at lk rid v m \<and> v \<noteq> [] \<and> used v \<and> log_stored lk rid m (w_hist W))
     \<and> (\<forall>i mv. w_base W i = Some mv \<longrightarrow> base_ok lk used rid mv)
     \<and> (\<forall>i. phase_ok lk used rid (w_phase W i))
     \<and> (\<forall>i j f g sv sv'. i \<noteq> j \<longrightarrow> owned (w_phase W i) = Some (f, sv) \<longrightarrow> owned (w_phase W j) = Some (g, sv') \<longrightarrow> sv \<noteq> sv')"

lemma manifest_at_unique: "manifest_at lk rid v m \<Longrightarrow> manifest_at lk rid v' m' \<Longrightarrow> v = v' \<and> m = m'"
  by (auto simp: manifest_at_def)

lemma at_phase_simps [simp]:
  "w_store (at_phase i p s W) = s" "w_base (at_phase i p s W) = w_base W" "w_hist (at_phase i p s W) = w_hist W"
  "w_phase (at_phase i p s W) = (w_phase W)(i := p)"
  by (simp_all add: at_phase_def)

lemma holds_base_simps [simp]:
  "w_store (holds_base i mv W) = w_store W" "w_base (holds_base i mv W) = (w_base W)(i \<mapsto> mv)"
  "w_hist (holds_base i mv W) = w_hist W" "w_phase (holds_base i mv W) = w_phase W"
  by (simp_all add: holds_base_def)

lemma slot_key_neq [simp]: "slot_key rid f \<noteq> manifest_key rid" "manifest_key rid \<noteq> slot_key rid f" "slot_key rid f \<noteq> []"
  "slot_key rid f = slot_key rid g \<longleftrightarrow> f = g" "repo_key rid (log_segment_key n) = slot_key rid n"
  by (simp_all add: slot_key_def manifest_repo_key log_key_neq [THEN not_sym])

text \<open>What one publisher holds survives a change of the bucket that leaves the manifest alone.\<close>

lemma manifest_at_frame: "lk' (manifest_key rid) = lk (manifest_key rid) \<Longrightarrow> manifest_at lk' rid = manifest_at lk rid"
  by (simp add: manifest_at_def fun_eq_iff)

lemma base_ok_frame:
  assumes "base_ok lk used rid mv" and "manifest_at lk' rid = manifest_at lk rid" and "\<And>v. used v \<Longrightarrow> used' v"
  shows "base_ok lk' used' rid mv"
  using assms by (auto simp: base_ok_def)

lemma phase_ok_frame:
  assumes "phase_ok lk used rid p" and man: "manifest_at lk' rid = manifest_at lk rid" and used: "\<And>v. used v \<Longrightarrow> used' v"
    and own: "\<And>f sv b. owned p = Some (f, sv) \<Longrightarrow> lk' (slot_key rid f) = Some (sv, b) \<Longrightarrow> \<exists>b. lk (slot_key rid f) = Some (sv, b)"
    and held: "\<And>mv es f sv bs m. p = Holding mv es f sv bs \<Longrightarrow> manifest_at lk rid (snd mv) m \<Longrightarrow> lk' (slot_key rid f) = lk (slot_key rid f)"
  shows "phase_ok lk' used' rid p"
proof -
  have b: "base_ok lk' used' rid mv" if "base_ok lk used rid mv" for mv by (rule base_ok_frame [OF that man used])
  have o: "own_ok lk' used' rid f sv" if "own_ok lk used rid f sv" "owned p = Some (f, sv)" for f sv
    using that used own unfolding own_ok_def man by blast
  have "passed lk' rid k = passed lk rid k" for k by (simp add: passed_def man)
  with assms(1) show ?thesis
    by (cases p) (use b o held in \<open>auto simp: claim_ok_def man\<close>)
qed

text \<open>And it survives a new manifest that lists one more segment, somebody else's.\<close>

lemma manifest_at_put:
  "decode_manifest b = Inr m \<Longrightarrow> manifest_at (lk(manifest_key rid \<mapsto> (nv, b))) rid v m' \<longleftrightarrow> v = nv \<and> m' = m"
  by (auto simp: manifest_at_def)

lemma base_ok_swap:
  assumes "base_ok lk used rid mv" and "decode_manifest b = Inr m'" and "nv \<noteq> []" "\<not> used nv" and "\<And>v. used v \<Longrightarrow> used' v"
  shows "base_ok (lk(manifest_key rid \<mapsto> (nv, b))) used' rid mv"
  using assms by (auto simp: base_ok_def manifest_at_put)

lemma phase_ok_swap:
  assumes "phase_ok lk used rid p" and old: "manifest_at lk rid v0 m0" and dec: "decode_manifest b = Inr m'"
    and nv: "nv \<noteq> []" "\<not> used nv" and used: "\<And>v. used v \<Longrightarrow> used' v"
    and m': "mf_head_seq m0 < f" "mf_head_seq m0 \<le> mf_head_seq m'" "listed_keys m' = insert (log_segment_key f) (listed_keys m0)"
    and own: "\<And>g sv b. owned p = Some (g, sv) \<Longrightarrow> lk (slot_key rid g) = Some (sv, b) \<Longrightarrow> g \<noteq> f"
  shows "phase_ok (lk(manifest_key rid \<mapsto> (nv, b))) used' rid p"
proof -
  let ?lk = "lk(manifest_key rid \<mapsto> (nv, b))"
  note at = manifest_at_put [OF dec]
  have bs: "base_ok ?lk used' rid mv" if "base_ok lk used rid mv" for mv by (rule base_ok_swap [OF that dec nv used])
  have o: "own_ok ?lk used' rid g sv" if "own_ok lk used rid g sv" "owned p = Some (g, sv)" for g sv
  proof -
    have "log_segment_key g \<notin> listed_keys m'" if "lk (slot_key rid g) = Some (sv, c)" for c
      using that \<open>own_ok lk used rid g sv\<close> old own [OF \<open>owned p = Some (g, sv)\<close> that] m'(3) by (auto simp: own_ok_def)
    with that(1) used show ?thesis by (auto simp: own_ok_def at)
  qed
  have ps: "passed ?lk rid k" if k: "passed lk rid k" for k
  proof -
    obtain n where n: "k = log_segment_key n" "n \<le> mf_head_seq m0" "k \<notin> listed_keys m0" using k old by (auto simp: passed_def)
    moreover have "n \<noteq> f" using n(2) m'(1) by auto
    moreover have "n \<le> mf_head_seq m'" using n(2) m'(2) by (rule order.trans)
    ultimately show ?thesis using m'(3) by (auto simp: passed_def at)
  qed
  have "snd mv \<noteq> nv" if "base_ok lk used rid mv" for mv using that nv by (auto simp: base_ok_def)
  with assms(1) show ?thesis
    by (cases p) (use bs o ps in \<open>auto simp: claim_ok_def at\<close>)
qed

lemma world_okD:
  assumes "world_ok lk used rid W"
  shows world_log: "\<exists>v m. manifest_at lk rid v m \<and> v \<noteq> [] \<and> used v \<and> log_stored lk rid m (w_hist W)"
    and world_base: "w_base W i = Some mv \<Longrightarrow> base_ok lk used rid mv"
    and world_phase: "phase_ok lk used rid (w_phase W i)"
    and world_owned: "i \<noteq> j \<Longrightarrow> owned (w_phase W i) = Some (f, sv) \<Longrightarrow> owned (w_phase W j) = Some (g, sv') \<Longrightarrow> sv \<noteq> sv'"
  using assms unfolding world_ok_def by (elim conjE, blast)+

lemma world_okI:
  assumes "manifest_at lk rid v m" "v \<noteq> []" "used v" "log_stored lk rid m (w_hist W)"
    and "\<And>i mv. w_base W i = Some mv \<Longrightarrow> base_ok lk used rid mv" and "\<And>i. phase_ok lk used rid (w_phase W i)"
    and "\<And>i j f g sv sv'. i \<noteq> j \<Longrightarrow> owned (w_phase W i) = Some (f, sv) \<Longrightarrow> owned (w_phase W j) = Some (g, sv') \<Longrightarrow> sv \<noteq> sv'"
  shows "world_ok lk used rid W"
  using assms unfolding world_ok_def by blast

text \<open>One publisher moves on, the others keep what they hold.\<close>

lemma world_ok_quiet:
  assumes "world_ok lk used rid W" and "phase_ok lk used rid p" and "owned p = None \<or> owned p = owned (w_phase W i)"
  shows "world_ok lk used rid (at_phase i p s W)"
  using assms by (fastforce simp: world_ok_def split: if_splits)

lemma world_ok_base:
  assumes "world_ok lk used rid W" and "base_ok lk used rid mv"
  shows "world_ok lk used rid (holds_base i mv W)"
  using assms by (auto simp: world_ok_def)

lemma world_ok_store [simp]: "world_ok lk used rid (W\<lparr>w_store := s\<rparr>) = world_ok lk used rid W"
  by (simp add: world_ok_def)

lemma world_ok_move:
  assumes W: "world_ok lk used rid W" and man: "lk' (manifest_key rid) = lk (manifest_key rid)" and used: "\<And>v. used v \<Longrightarrow> used' v"
    and listed: "\<And>v m key. manifest_at lk rid v m \<Longrightarrow> key \<in> listed_keys m \<Longrightarrow> lk' (repo_key rid key) = lk (repo_key rid key)"
    and others: "\<And>j f sv b. j \<noteq> i \<Longrightarrow> owned (w_phase W j) = Some (f, sv) \<Longrightarrow> lk' (slot_key rid f) = Some (sv, b) \<Longrightarrow> \<exists>b. lk (slot_key rid f) = Some (sv, b)"
      "\<And>j mv es f sv bs m. j \<noteq> i \<Longrightarrow> w_phase W j = Holding mv es f sv bs \<Longrightarrow> manifest_at lk rid (snd mv) m \<Longrightarrow> lk' (slot_key rid f) = lk (slot_key rid f)"
    and p: "phase_ok lk' used' rid p" "\<And>f sv j g sv'. owned p = Some (f, sv) \<Longrightarrow> j \<noteq> i \<Longrightarrow> owned (w_phase W j) = Some (g, sv') \<Longrightarrow> sv \<noteq> sv'"
  shows "world_ok lk' used' rid (at_phase i p s W)"
proof -
  have at: "manifest_at lk' rid = manifest_at lk rid" by (rule manifest_at_frame) (rule man)
  obtain v m where m: "manifest_at lk rid v m" "v \<noteq> []" "used v" "log_stored lk rid m (w_hist W)" using W by (auto simp: world_ok_def)
  have "log_stored lk' rid m (w_hist W)"
    using m(4) listed [OF m(1)] by (auto simp: log_stored_def listed_keys_def)
  moreover have "phase_ok lk' used' rid (w_phase W j)" if "j \<noteq> i" for j
    by (rule phase_ok_frame [where lk = lk, OF world_phase [OF W] at used]) (use others that in blast)+
  moreover have "base_ok lk' used' rid mv" if "w_base W j = Some mv" for j mv
    by (rule base_ok_frame [where lk = lk, OF _ at used]) (rule world_base [OF W that])
  moreover have "sv \<noteq> sv'" if "j \<noteq> k" "owned (((w_phase W)(i := p)) j) = Some (f, sv)" "owned (((w_phase W)(i := p)) k) = Some (g, sv')" for j k f g sv sv'
  proof -
    consider "j = i" "k \<noteq> i" | "j \<noteq> i" "k = i" | "j \<noteq> i" "k \<noteq> i" using \<open>j \<noteq> k\<close> by auto
    then show ?thesis
    proof cases
      case 1
      with that p(2) show ?thesis by simp
    next
      case 2
      with that p(2) show ?thesis by fastforce
    next
      case 3
      with that world_owned [OF W that(1)] show ?thesis by simp
    qed
  qed
  moreover have "manifest_at lk' rid v m" using m(1) at by simp
  ultimately show ?thesis using m(2) used [OF m(3)] p(1) by (intro world_okI [of lk' rid v m]) (auto split: if_splits)
qed

lemma next_manifest_view:
  assumes "log_ok m" and "mf_head_seq m < f" and "batch_fits f es"
  shows "mf_head_seq m < mf_head_seq (next_manifest m f es w now)
    \<and> listed_keys (next_manifest m f es w now) = insert (log_segment_key f) (listed_keys m)"
proof -
  have "es \<noteq> []" "unat f + length es \<le> 2 ^ 64" using assms(3) by (simp_all add: batch_fits_def)
  from next_manifest_segments [OF assms(1,2) this, of "mf_head_seq m + 1" "segment_body f es" w now]
  show ?thesis by (auto simp: next_manifest_def listed_keys_def new_segment_def)
qed

lemma world_ok_swap:
  fixes m :: manifest and f :: u64 and es :: "log_entry list" and w :: string and now :: go_time
  defines "next_m \<equiv> next_manifest m f es w now"
  assumes W: "world_ok lk used rid W" and i: "w_phase W i = Holding (m, v) es f sv bs"
    and cur: "map_option fst (lk (manifest_key rid)) = Some v" and wf: "wf_manifest next_m"
    and nv: "nv \<noteq> []" "\<not> used nv" "used' nv" and used: "\<And>v. used v \<Longrightarrow> used' v" and p: "burned_ok bs \<Longrightarrow> phase_ok lk' used' rid p" "owned p = None"
    and lk': "lk' = lk(manifest_key rid \<mapsto> (nv, marshal_manifest next_m))"
  shows "world_ok lk' used' rid (at_phase i p s (W\<lparr>w_hist := w_hist W @ map canon_log_entry (renumber f es)\<rparr>))
    \<and> base_ok lk' used' rid (next_m, nv)"
proof -
  have dec: "decode_manifest (marshal_manifest next_m) = Inr (canon_manifest next_m)" by (rule marshal_roundtrip(1) [OF wf])
  obtain v0 m0 where m0: "manifest_at lk rid v0 m0" "log_stored lk rid m0 (w_hist W)" using world_log [OF W] by blast
  have "v0 = v" using m0(1) cur by (auto simp: manifest_at_def)
  have hold: "base_ok lk used rid (m, v)" "own_ok lk used rid f sv" "batch_fits f es" "burned_ok bs" "mf_head_seq m < f"
    "lk (slot_key rid f) = Some (sv, segment_body f es)"
    using world_phase [OF W, of i] m0(1) unfolding i \<open>v0 = v\<close> by (auto simp: claim_ok_def)
  have view: "log_view m0 = log_view m" using hold(1) m0(1) \<open>v0 = v\<close> by (simp add: base_ok_def)
  have stored: "log_stored lk rid m (w_hist W)" using m0(2) log_view_stored [OF view] by simp
  note f = hold(5)
  have next_view: "mf_head_seq m < mf_head_seq next_m" "listed_keys next_m = insert (log_segment_key f) (listed_keys m)"
    using next_manifest_view [OF _ f hold(3)] stored by (auto simp: next_m_def log_stored_def)
  have "log_stored lk' rid next_m (w_hist W @ map canon_log_entry (renumber f es))"
    unfolding next_m_def next_manifest_def
    by (rule log_stored_commit [OF stored, where v = sv])
      (use hold(3,6) f log_stored_keys [OF stored] in \<open>simp_all add: lk' batch_fits_def segment_body_def\<close>)
  then have log: "log_stored lk' rid (canon_manifest next_m) (w_hist W @ map canon_log_entry (renumber f es))"
    using log_view_stored [OF log_view_canon] by blast
  have at: "manifest_at lk' rid nv (canon_manifest next_m)" using manifest_at_put [OF dec] by (simp add: lk')
  have swap: "phase_ok lk' used' rid q" if "phase_ok lk used rid q"
    "\<And>g sv b. owned q = Some (g, sv) \<Longrightarrow> lk (slot_key rid g) = Some (sv, b) \<Longrightarrow> g \<noteq> f" for q
    unfolding lk'
    by (rule phase_ok_swap [OF that(1) m0(1) dec nv(1,2) used, where f = f])
      (use f view next_view that(2) in \<open>auto simp: log_view_def listed_keys_def canon_manifest_def\<close>)
  have others: "phase_ok lk' used' rid (w_phase W j)" if "j \<noteq> i" for j
    by (rule swap [OF world_phase [OF W]]) (use world_owned [OF W, of j i] that i hold(6) in auto)
  have own: "\<And>j k f g sv sv'. j \<noteq> k \<Longrightarrow> owned (((w_phase W)(i := p)) j) = Some (f, sv) \<Longrightarrow>
      owned (((w_phase W)(i := p)) k) = Some (g, sv') \<Longrightarrow> sv \<noteq> sv'"
    using world_owned [OF W] p(2) by (auto split: if_splits)
  have bases: "base_ok lk' used' rid mv" if "w_base W j = Some mv" for j mv
    unfolding lk' by (rule base_ok_swap [OF world_base [OF W that] dec nv(1,2) used])
  have "base_ok lk' used' rid (next_m, nv)" using nv manifest_at_put [OF dec, of lk rid nv] by (simp add: base_ok_def lk')
  moreover have "world_ok lk' used' rid (at_phase i p s (W\<lparr>w_hist := w_hist W @ map canon_log_entry (renumber f es)\<rparr>))"
    by (rule world_okI [where v = nv and m = "canon_manifest next_m" and used = used', OF at nv(1,3)]) (use log bases others p(1) [OF hold(4)] own in \<open>auto split: if_splits\<close>)
  ultimately show ?thesis by blast
qed

lemma owned_ok:
  assumes "world_ok lk used rid W" and "owned (w_phase W j) = Some (f, sv)"
  shows "own_ok lk used rid f sv"
  using world_phase [OF assms(1), of j] assms(2) by (cases "w_phase W j") simp_all

lemma listed_present:
  assumes "world_ok lk used rid W" and "manifest_at lk rid v m" and "key \<in> listed_keys m"
  shows "lk (repo_key rid key) \<noteq> None \<and> (\<exists>n. key = log_segment_key n)"
proof -
  obtain v' m' where m': "manifest_at lk rid v' m'" "log_stored lk rid m' (w_hist W)" using world_log [OF assms(1)] by blast
  have "m' = m" using manifest_at_unique m'(1) assms(2) by blast
  with m'(2) assms(3) show ?thesis by (fastforce simp: listed_keys_def log_stored_def log_ok_def list_all_iff)
qed

text \<open>A created segment, by whoever created it.\<close>

lemma world_put_slot:
  assumes W: "world_ok lk used rid W" and free: "lk (slot_key rid f) = None"
    and nv: "nv \<noteq> []" "\<not> used nv" "used' nv" and used: "\<And>v. used v \<Longrightarrow> used' v"
    and lk': "lk' = lk(slot_key rid f \<mapsto> (nv, b))" and p: "phase_ok lk' used' rid p" "owned p = None \<or> owned p = Some (f, nv)"
  shows "world_ok lk' used' rid (at_phase i p s W)"
proof (rule world_ok_move [OF W _ used _ _ _ p(1)])
  show "lk' (manifest_key rid) = lk (manifest_key rid)" by (simp add: lk')
next
  fix v m key assume "manifest_at lk rid v m" "key \<in> listed_keys m"
  with listed_present [OF W] free have "repo_key rid key \<noteq> slot_key rid f" by fastforce
  then show "lk' (repo_key rid key) = lk (repo_key rid key)" by (simp add: lk')
next
  fix j g sv c assume j: "owned (w_phase W j) = Some (g, sv)" and g: "lk' (slot_key rid g) = Some (sv, c)"
  have "used sv" using owned_ok [OF W j] by (simp add: own_ok_def)
  then show "\<exists>b. lk (slot_key rid g) = Some (sv, b)" using g nv(2) by (auto simp: lk' split: if_splits)
next
  fix j mv es g sv bs m assume "w_phase W j = Holding mv es g sv bs" and "manifest_at lk rid (snd mv) m"
  then have "lk (slot_key rid g) \<noteq> None" using world_phase [OF W, of j] by auto
  then show "lk' (slot_key rid g) = lk (slot_key rid g)" using free by (auto simp: lk')
next
  fix g sv j h sv' assume "owned p = Some (g, sv)" and "owned (w_phase W j) = Some (h, sv')"
  with p(2) owned_ok [OF W] nv(2) show "sv \<noteq> sv'" by (auto simp: own_ok_def)
qed

text \<open>A deleted segment that is not listed, and that nobody is about to list.\<close>

lemma world_delete_slot:
  assumes W: "world_ok lk used rid W" and unlisted: "\<And>v m. manifest_at lk rid v m \<Longrightarrow> log_segment_key f \<notin> listed_keys m"
    and others: "\<And>j mv es sv bs m. j \<noteq> i \<Longrightarrow> w_phase W j = Holding mv es f sv bs \<Longrightarrow> manifest_at lk rid (snd mv) m \<Longrightarrow> False"
    and lk': "lk' = lk(slot_key rid f := None)" and p: "phase_ok lk' used rid p" "owned p = None"
  shows "world_ok lk' used rid (at_phase i p s W)"
proof (rule world_ok_move [OF W _ _ _ _ _ p(1)])
  show "lk' (manifest_key rid) = lk (manifest_key rid)" by (simp add: lk')
next
  fix v m key assume m: "manifest_at lk rid v m" "key \<in> listed_keys m"
  then obtain n where "key = log_segment_key n" using listed_present [OF W] by blast
  with unlisted m show "lk' (repo_key rid key) = lk (repo_key rid key)" by (auto simp: lk')
next
  fix j mv es g sv bs m assume j: "j \<noteq> i" "w_phase W j = Holding mv es g sv bs" "manifest_at lk rid (snd mv) m"
  have "g \<noteq> f" using others [OF j(1) _ j(3)] j(2) by blast
  then show "lk' (slot_key rid g) = lk (slot_key rid g)" by (simp add: lk')
qed (use p(2) lk' in \<open>auto split: if_splits\<close>)

text \<open>An object outside the log and the manifest.\<close>

lemma world_put_elsewhere:
  assumes W: "world_ok lk used rid W" and key: "key \<noteq> manifest_key rid" "\<forall>n. key \<noteq> slot_key rid n"
    and used: "\<And>v. used v \<Longrightarrow> used' v" and lk': "lk' = lk(key := x)"
  shows "world_ok lk' used' rid (W\<lparr>w_store := s\<rparr>)"
proof -
  have man: "lk' (manifest_key rid) = lk (manifest_key rid)" and slot: "lk' (slot_key rid n) = lk (slot_key rid n)" for n
    using key by (auto simp: lk')
  have at: "manifest_at lk' rid = manifest_at lk rid" by (rule manifest_at_frame) (rule man)
  have "phase_ok lk' used' rid (w_phase W i)" for i
    by (rule phase_ok_frame [where lk = lk, OF world_phase [OF W] at used]) (simp_all add: slot)
  moreover have "lk' (repo_key rid k) = lk (repo_key rid k)" if "manifest_at lk rid v m" "k \<in> listed_keys m" for v m k
    using listed_present [OF W that] slot by auto
  ultimately have "world_ok lk' used' rid (at_phase 0 (w_phase W 0) s W)"
    by (intro world_ok_move [where lk' = lk', OF W man used]) (use world_owned [OF W, of 0] in \<open>auto simp: slot\<close>)
  then show ?thesis by (simp add: at_phase_def)
qed

lemma succ_word_above: "unat f + 1 < 2 ^ 64 \<Longrightarrow> f < f + 1" for f :: u64
  using unat_add_small [of f 1] by (simp add: word_less_nat_alt)

section \<open>Every step keeps it\<close>

context publisher_store
begin

lemma put_any:
  assumes "inv s" and "room (Suc n) s" and "k \<noteq> []" and "sa_put api k (bytes_body b) opts s = (s', r)"
  shows "inv s' \<and> room n s' \<and> (\<forall>w. used s w \<longrightarrow> used s' w)
    \<and> ((\<exists>v. r = Inr \<lparr>om_key = k, om_size = int (length b), om_version = v\<rparr> \<and> put_admits opts (look s k)
          \<and> look s' = (look s)(k \<mapsto> (v, b)) \<and> v \<noteq> [] \<and> \<not> used s v \<and> used s' v)
       \<or> (\<exists>e. r = Inl e \<and> look s' = look s \<and> used s' = used s))"
proof (cases "put_admits opts (look s k)")
  case True
  have r1: "room 1 s" using assms(2) by (rule room_1)
  from put_done [OF assms(1) keys_ok [OF assms(3)] True assms(4)] obtain v where
    v: "r = Inr \<lparr>om_key = k, om_size = int (length b), om_version = v\<rparr>" "look s' = (look s)(k \<mapsto> (v, b))" "used s' v"
      "\<forall>w. used s w \<longrightarrow> room 1 s \<longrightarrow> used s' w \<and> w \<noteq> v" "room 1 s \<longrightarrow> inv s'" "\<forall>n. room (Suc n) s \<longrightarrow> room n s'" by blast
  moreover have "v \<noteq> []" using look_used [of s' k v b] v(2,5) r1 by simp
  ultimately show ?thesis using True r1 assms(2) by blast
next
  case False
  with put_refused [OF assms(1) _ assms(4)] room_less [OF assms(2)] show ?thesis by auto
qed

lemma get_bytes_frame:
  assumes "inv s" and "get_bytes api k opts s = (s', r)"
  shows "inv s' \<and> look s' = look s \<and> used s' = used s \<and> (\<forall>n. room n s \<longrightarrow> room n s')"
proof -
  obtain s1 r1 where g: "sa_get api k opts s = (s1, r1)" by (cases "sa_get api k opts s")
  then have "s' = s1" using assms(2) by (auto simp: get_bytes_def split: sum.splits get_result.splits)
  with get_frame [OF assms(1) g] show ?thesis by simp
qed

lemma fresh_head_frame:
  assumes "inv s" and "fresh_head api rid s = (s', r)"
  shows "inv s' \<and> look s' = look s \<and> used s' = used s \<and> (\<forall>n. room n s \<longrightarrow> room n s')"
proof -
  obtain s1 r1 where g: "get_bytes api (manifest_key rid) get_default s = (s1, r1)" by (cases "get_bytes api (manifest_key rid) get_default s")
  then have "s' = s1" using assms(2) by (auto simp: fresh_head_def split: sum.splits option.splits)
  with get_bytes_frame [OF assms(1) g] show ?thesis by simp
qed

text \<open>What a read of the manifest returns is the stored one.\<close>

lemma read_manifest:
  assumes "inv s" and "manifest_at (look s) rid v m" and "get_bytes api (manifest_key rid) get_default s = (s', Inr (Some b, meta))"
  shows "decode_manifest b = Inr m \<and> om_version meta = v"
proof -
  obtain c where c: "look s (manifest_key rid) = Some (v, c)" "decode_manifest c = Inr m" using assms(2) by (auto simp: manifest_at_def)
  from get_bytes_present [OF assms(1) c(1)] assms(3) c(2) show ?thesis by auto
qed

lemma fresh_head_read:
  assumes "inv s" and "manifest_at (look s) rid v m" and "fresh_head api rid s = (s', Inr (Some m'))"
  shows "m' = m"
proof -
  obtain c where c: "look s (manifest_key rid) = Some (v, c)" "decode_manifest c = Inr m" using assms(2) by (auto simp: manifest_at_def)
  from fresh_head_stored [OF assms(1) c] assms(3) show ?thesis by auto
qed

lemma exists_frame:
  assumes "inv s" and "exists_op api k s = (s', r)"
  shows "inv s' \<and> look s' = look s \<and> used s' = used s \<and> (\<forall>n. room n s \<longrightarrow> room n s')"
proof -
  obtain s1 r1 where h: "sa_head api k s = (s1, r1)" by (cases "sa_head api k s")
  then have "s' = s1" using assms(2) by (auto simp: exists_op_def split: sum.splits)
  with head_law [OF assms(1) h] show ?thesis by simp
qed

definition world_inv :: "nat \<Rightarrow> string \<Rightarrow> 'a world \<Rightarrow> bool" where
  "world_inv n rid W \<longleftrightarrow> inv (w_store W) \<and> room n (w_store W) \<and> world_ok (look (w_store W)) (used (w_store W)) rid W"

definition reads :: "nat \<Rightarrow> 'a \<Rightarrow> 'a \<Rightarrow> bool" where
  "reads n s s' \<longleftrightarrow> inv s' \<and> look s' = look s \<and> used s' = used s \<and> (room (Suc n) s \<longrightarrow> room n s')"

lemma quiet_step:
  assumes "world_inv (Suc n) rid W"
    and "reads n (w_store W) s'"
    and "phase_ok (look (w_store W)) (used (w_store W)) rid p" and "owned p = None \<or> owned p = owned (w_phase W i)"
  shows "world_inv n rid (at_phase i p s' W)"
  using assms(1,2) world_ok_quiet [OF _ assms(3,4), of s'] by (simp add: world_inv_def reads_def)

lemma still_step:
  assumes "world_inv (Suc n) rid W" and "phase_ok (look (w_store W)) (used (w_store W)) rid p" and "owned p = None \<or> owned p = owned (w_phase W i)"
  shows "world_inv n rid (at_phase i p (w_store W) W)"
  by (rule quiet_step [OF assms(1) _ assms(2,3)]) (use assms(1) room_less in \<open>simp add: world_inv_def reads_def\<close>)

lemma base_step:
  assumes "world_inv n rid W" and "base_ok (look (w_store W)) (used (w_store W)) rid mv"
  shows "world_inv n rid (holds_base i mv W)"
  using assms(1) world_ok_base [OF _ assms(2), of W i] by (simp add: world_inv_def)

text \<open>Creating a segment, whether or not the publisher hears of it.\<close>

lemma segment_step:
  assumes W: "world_inv (Suc n) rid W" and put: "put_segment api rid f es (w_store W) = (s, r)"
    and old: "phase_ok (look (w_store W)) (used (w_store W)) rid (Claiming mv es f k bs)" and fits: "batch_fits f es"
  shows "world_inv n rid (at_phase i (Rereading mv es f k bs) s W)
    \<and> (\<forall>meta. r = Inr meta \<longrightarrow> world_inv n rid (at_phase i (Holding mv es f (om_version meta) bs) s W))"
proof -
  let ?s = "w_store W" and ?b = "segment_body f es"
  have w: "inv ?s" "room (Suc n) ?s" "world_ok (look ?s) (used ?s) rid W" using W by (simp_all add: world_inv_def)
  from put_any [OF w(1,2) slot_key_neq(3) put [unfolded put_segment_def]]
  have s: "inv s" "room n s" "\<And>v. used ?s v \<Longrightarrow> used s v" by blast+
  from put_any [OF w(1,2) slot_key_neq(3) put [unfolded put_segment_def]]
  consider (fresh) v where "r = Inr \<lparr>om_key = slot_key rid f, om_size = int (length ?b), om_version = v\<rparr>" "look ?s (slot_key rid f) = None"
      "look s = (look ?s)(slot_key rid f \<mapsto> (v, ?b))" "v \<noteq> []" "\<not> used ?s v" "used s v"
    | (refused) e where "r = Inl e" "look s = look ?s" "used s = used ?s"
    by (auto simp: admits_create)
  then show ?thesis
  proof cases
    case refused
    have "world_inv n rid (at_phase i (Rereading mv es f k bs) s W)"
      by (rule quiet_step [OF W]) (use s refused old in \<open>auto simp: reads_def\<close>)
    then show ?thesis using refused by simp
  next
    case (fresh v)
    have at: "manifest_at (look s) rid = manifest_at (look ?s) rid" by (rule manifest_at_frame) (simp add: fresh(3))
    have claim: "claim_ok (look s) (used s) rid mv f bs"
      using old base_ok_frame [of "look (w_store W)" "used (w_store W)" rid mv "look s" "used s", OF _ at s(3)] by (simp add: claim_ok_def)
    have "log_segment_key f \<notin> listed_keys m" if "manifest_at (look ?s) rid u m" for u m
      using listed_present [OF w(3) that, of "log_segment_key f"] fresh(2) by auto
    then have own: "own_ok (look s) (used s) rid f v" using fresh(4,6) by (auto simp: own_ok_def at)
    have put: "world_inv n rid (at_phase i p s W)" if "phase_ok (look s) (used s) rid p" "owned p = None \<or> owned p = Some (f, v)" for p
      using s(1,2) world_put_slot [OF w(3) fresh(2,4,5,6) s(3) fresh(3) that] by (simp add: world_inv_def)
    show ?thesis
      using put [of "Rereading mv es f k bs"] put [of "Holding mv es f v bs"] claim own fits fresh(1,3) by (simp add: at)
  qed
qed

text \<open>Swapping the manifest: it succeeds only against the stored version.\<close>

lemma swap_step:
  fixes m :: manifest and f :: u64 and es :: "log_entry list" and w :: string and now :: go_time
  defines "next_m \<equiv> next_manifest m f es w now"
  assumes W: "world_inv (Suc n) rid W" and i: "w_phase W i = Holding (m, v) es f sv bs" and wf: "wf_manifest next_m"
    and put: "put_manifest api rid next_m v (w_store W) = (s, Inr meta)"
    and p: "p = Sweeping bs \<or> p = Checking es f next_m bs"
  defines "W' \<equiv> at_phase i p s (W\<lparr>w_hist := w_hist W @ map canon_log_entry (renumber f es)\<rparr>)"
  shows "world_inv n rid W' \<and> base_ok (look s) (used s) rid (next_m, om_version meta)"
proof -
  let ?s = "w_store W"
  have w: "inv ?s" "room (Suc n) ?s" "world_ok (look ?s) (used ?s) rid W" using W by (simp_all add: world_inv_def)
  have key: "manifest_key rid \<noteq> []" by (simp add: manifest_repo_key)
  from put_any [OF w(1,2) key put [unfolded put_manifest_def]]
  have s: "inv s" "room n s" "\<And>v. used ?s v \<Longrightarrow> used s v" by blast+
  from put_any [OF w(1,2) key put [unfolded put_manifest_def]] obtain nv where
    nv: "om_version meta = nv" "put_admits (manifest_options v) (look ?s (manifest_key rid))"
      "look s = (look ?s)(manifest_key rid \<mapsto> (nv, marshal_manifest next_m))" "nv \<noteq> []" "\<not> used ?s nv" "used s nv" by auto
  obtain v0 m0 where "manifest_at (look ?s) rid v0 m0" using world_log [OF w(3)] by blast
  then have cur: "map_option fst (look ?s (manifest_key rid)) = Some v"
    using nv(2) by (auto simp: manifest_at_def manifest_options_def put_update_def put_admits_def Let_def split: if_splits)
  have "world_ok (look s) (used s) rid W' \<and> base_ok (look s) (used s) rid (next_m, nv)"
    unfolding W'_def next_m_def
    by (rule world_ok_swap [where used' = "used s", OF w(3) i cur _ nv(4,5,6) s(3)]) (use p wf nv(3) in \<open>auto simp: next_m_def\<close>)
  then show ?thesis using s(1,2) nv(1) by (simp add: world_inv_def W'_def)
qed

text \<open>Deleting by version: an own segment, or one the log has passed.\<close>

lemma withdraw_step:
  assumes W: "world_inv (Suc n) rid W" and i: "w_phase W i = Withdrawing es f sv bs"
    and del: "sa_delete api (slot_key rid f) sv (w_store W) = (s, err)"
  shows "world_inv n rid (at_phase i (Syncing es bs) s W)"
proof -
  let ?s = "w_store W"
  have w: "inv ?s" "room (Suc n) ?s" "world_ok (look ?s) (used ?s) rid W" using W by (simp_all add: world_inv_def)
  have own: "own_ok (look ?s) (used ?s) rid f sv" "burned_ok bs" using world_phase [OF w(3), of i] i by simp_all
  have s: "inv s" "room n s" "used s = used ?s"
    "look s = (if map_option fst (look ?s (slot_key rid f)) = Some sv then (look ?s)(slot_key rid f := None) else look ?s)"
    using delete_frame [OF w(1) del] own(1) room_less w(2) by (auto simp: own_ok_def)
  show ?thesis
  proof (cases "map_option fst (look ?s (slot_key rid f)) = Some sv")
    case False
    then show ?thesis using s own(2) by (intro quiet_step [OF W]) (simp_all add: reads_def)
  next
    case True
    then obtain b where b: "look ?s (slot_key rid f) = Some (sv, b)" by auto
    have "log_segment_key f \<notin> listed_keys m" if "manifest_at (look ?s) rid u m" for u m
      using own(1) that b by (auto simp: own_ok_def)
    moreover have False if "j \<noteq> i" "w_phase W j = Holding mv fs f sv' cs" "manifest_at (look ?s) rid (snd mv) m" for j mv fs sv' cs m
      using world_phase [OF w(3), of j] world_owned [OF w(3) that(1), of f sv' f sv] that b i by auto
    ultimately have "world_ok (look s) (used ?s) rid (at_phase i (Syncing es bs) s W)"
      using True s(4) own(2) by (intro world_delete_slot [OF w(3), of f]) auto
    then show ?thesis using s by (simp add: world_inv_def)
  qed
qed

lemma sweep_delete_step:
  assumes W: "world_inv (Suc n) rid W" and i: "w_phase W i = Sweep_found keep key v ks"
    and del: "sa_delete api (repo_key rid key) v (w_store W) = (s, err)"
  shows "world_inv n rid (at_phase i (Sweep_next keep ks) s W)"
proof -
  let ?s = "w_store W"
  have w: "inv ?s" "room (Suc n) ?s" "world_ok (look ?s) (used ?s) rid W" using W by (simp_all add: world_inv_def)
  have found: "v \<noteq> []" "passed (look ?s) rid key" "\<forall>k \<in> set ks. k \<notin> set keep \<longrightarrow> passed (look ?s) rid k"
    using world_phase [OF w(3), of i] i by simp_all
  then obtain f where f: "key = log_segment_key f" "\<And>u m. manifest_at (look ?s) rid u m \<Longrightarrow> f \<le> mf_head_seq m \<and> key \<notin> listed_keys m"
    by (auto simp: passed_def)
  have s: "inv s" "room n s" "used s = used ?s"
    "look s = (if map_option fst (look ?s (slot_key rid f)) = Some v then (look ?s)(slot_key rid f := None) else look ?s)"
    using delete_frame [OF w(1) del] found(1) room_less w(2) f(1) by auto
  show ?thesis
  proof (cases "map_option fst (look ?s (slot_key rid f)) = Some v")
    case False
    then show ?thesis using s found(3) by (intro quiet_step [OF W]) (simp_all add: reads_def)
  next
    case True
    have at: "manifest_at (look s) rid = manifest_at (look ?s) rid" by (rule manifest_at_frame) (simp add: s(4))
    have False if "w_phase W j = Holding mv fs f sv' cs" "manifest_at (look ?s) rid (snd mv) m" for j mv fs sv' cs m
    proof -
      have "mf_head_seq (fst mv) < f" "log_view m = log_view (fst mv)"
        using world_phase [OF w(3), of j] that by (simp_all add: claim_ok_def base_ok_def)
      with f(2) [OF that(2)] show False by (auto simp: log_view_def)
    qed
    moreover have "phase_ok (look s) (used ?s) rid (Sweep_next keep ks)" using found(3) by (simp add: passed_def at)
    ultimately have "world_ok (look s) (used ?s) rid (at_phase i (Sweep_next keep ks) s W)"
      by (intro world_delete_slot [OF w(3) _ _ _ \<open>phase_ok (look s) (used ?s) rid (Sweep_next keep ks)\<close>, of f])
        (use True s(4) f in auto)
    then show ?thesis using s by (simp add: world_inv_def)
  qed
qed

lemma map_put_set: "x \<in> set (map_put k v m) \<Longrightarrow> x = (k, v) \<or> x \<in> set m"
  by (induction k v m rule: map_put.induct) (auto split: if_splits)

text \<open>The stored manifest, as any publisher reads it.\<close>

lemma current_manifest:
  assumes "world_inv n rid W"
  obtains v m where "manifest_at (look (w_store W)) rid v m" "v \<noteq> []" "used (w_store W) v" "log_stored (look (w_store W)) rid m (w_hist W)"
  using assms world_log unfolding world_inv_def by blast

lemma reads_as:
  assumes "inv s"
  shows "fresh_head api rid s = (s', r) \<Longrightarrow> reads n s s'" and "exists_op api key s = (s', r1) \<Longrightarrow> reads n s s'"
    and "sa_head api key s = (s', r2) \<Longrightarrow> reads n s s'" and "get_bytes api key opts s = (s', r3) \<Longrightarrow> reads n s s'"
  using fresh_head_frame [OF assms] exists_frame [OF assms] head_law [OF assms] get_bytes_frame [OF assms] room_less
  by (simp_all add: reads_def)

lemma swept_slots:
  assumes "world_inv (Suc n) rid W" and "fresh_head api rid (w_store W) = (s, Inr (Some m))" and "burned_ok bs"
    and "\<forall>(n, key) \<in> set bs. n \<le> mf_head_seq m"
  shows "phase_ok (look (w_store W)) (used (w_store W)) rid (Sweep_next (map sg_key (mf_log_segments m)) (map snd bs))"
proof -
  obtain v m0 where m0: "manifest_at (look (w_store W)) rid v m0" using current_manifest [OF assms(1)] by blast
  have "m0 = m" using fresh_head_read [OF _ m0 assms(2)] assms(1) by (simp add: world_inv_def)
  then have at: "m' = m" if "manifest_at (look (w_store W)) rid u m'" for u m'
    using that m0 manifest_at_unique by blast
  have "passed (look (w_store W)) rid key" if "(k, key) \<in> set bs" "key \<notin> listed_keys m" for k key
    using that assms(3,4) at by (fastforce simp: passed_def burned_ok_def)
  then show ?thesis by (fastforce simp: listed_keys_def)
qed

lemma wstep_inv:
  assumes "wstep api rid True W W'" and W: "world_inv (Suc n) rid W"
  shows "world_inv n rid W' \<and> (\<exists>new. w_hist W' = w_hist W @ new)"
proof -
  let ?s = "w_store W" and ?lk = "look (w_store W)" and ?u = "used (w_store W)"
  have w: "inv ?s" "room (Suc n) ?s" "world_ok ?lk ?u rid W" using W by (simp_all add: world_inv_def)
  have n: "world_inv n rid W" using W room_less by (simp add: world_inv_def)
  note ph = world_phase [OF w(3)]
  note read = reads_as [OF w(1)]
  obtain v0 m0 where cur: "manifest_at ?lk rid v0 m0" "v0 \<noteq> []" "?u v0" using current_manifest [OF W] by blast
  have only: "u = v0 \<and> m = m0" if "manifest_at ?lk rid u m" for u m using manifest_at_unique [OF that cur(1)] .
  have exact: "base_ok ?lk ?u rid (m, v0)" if "log_view m = log_view m0" for m
    using that cur(3) by (auto simp: base_ok_def dest!: only)
  have no_version: "\<not> manifest_at ?lk rid [] m" for m using only cur(2) by blast
  from assms(1) show ?thesis
  proof cases
    case (sync s b meta m i)
    have "decode_manifest b = Inr m0 \<and> om_version meta = v0" using read_manifest [OF w(1) cur(1) sync(2)] .
    then have "base_ok ?lk ?u rid (m, om_version meta)" using sync(3) exact [of m0] by simp
    moreover have s: "reads n ?s s" using read(4) [OF sync(2)] .
    moreover have "world_inv n rid (W\<lparr>w_store := s\<rparr>)" using s w by (simp add: world_inv_def reads_def)
    ultimately have "world_inv n rid W'" using base_step [of n rid "W\<lparr>w_store := s\<rparr>"] sync(1) by (simp add: reads_def)
    then show ?thesis using sync(1) by simp
  next
    case (submit i es)
    then show ?thesis using still_step [OF W] by (simp add: burned_ok_def)
  next
    case (attempt i es bs m v)
    have "claim_ok ?lk ?u rid (m, v) (mf_head_seq m + 1) bs"
      using ph [of i] attempt(2,4) world_base [OF w(3) attempt(3)] succ_word_above by (simp add: claim_ok_def)
    then show ?thesis using attempt(1) still_step [OF W] by simp
  next
    case (claim i mv es f k bs s meta)
    then show ?thesis using segment_step [OF W claim(4), of mv k bs i] ph [of i] by simp
  next
    case (claim_failed i mv es f k bs s r s')
    have "world_inv n rid (at_phase i (Rereading mv es f k bs) s W)"
      using segment_step [OF W claim_failed(4), of mv k bs i] ph [of i] claim_failed(2,3) by simp
    moreover have "world_inv n rid (at_phase i (Rereading mv es f k bs) ?s W)"
      using still_step [OF W] ph [of i] claim_failed(2) by simp
    ultimately show ?thesis using claim_failed(1,5) by auto
  next
    case (reread_landed i mv es f k bs s m)
    then show ?thesis using quiet_step [OF W read(1)] ph [of i] by (simp add: claim_ok_def)
  next
    case (reread_free i mv es f k bs s r)
    then show ?thesis using quiet_step [OF W read(1)] ph [of i] by simp
  next
    case (probe_absent i mv es f k bs n s)
    then show ?thesis using quiet_step [OF W read(2)] ph [of i] by simp
  next
    case (probe_present i mv es f k bs n s)
    then show ?thesis using quiet_step [OF W read(2)] ph [of i] by simp
  next
    case (burn i mv es f k bs n s)
    have "claim_ok ?lk ?u rid mv (f + 1) (map_put f (log_segment_key f) bs)"
      using ph [of i] burn(2) succ_word_above [OF burn(6)] by (auto simp: claim_ok_def burned_ok_def dest: map_put_set)
    then show ?thesis using burn quiet_step [OF W read(2)] by simp
  next
    case (swap i m v es f sv bs next_m w now s meta)
    then show ?thesis using swap_step [OF W swap(2), of w now s meta "Sweeping bs"] base_step by (simp add: at_phase_def)
  next
    case (swap_lost i m v es f sv bs next_m w now s meta)
    then show ?thesis using swap_step [OF W swap_lost(2), of w now s meta "Checking es f next_m bs"] by simp
  next
    case (swap_unsure i m v es f sv bs next_m w now s e)
    have "reads n ?s s"
      using swap_unsure(5) w room_less put_any [OF w(1,2), of "manifest_key rid" "marshal_manifest next_m" "manifest_options v" s "Inl e"]
      by (auto simp: reads_def put_manifest_def manifest_repo_key)
    then show ?thesis using swap_unsure(1,2,4) quiet_step [OF W] ph [of i] by (simp add: claim_ok_def)
  next
    case (swap_stale i m v es f sv bs next_m w now s e)
    have "reads n ?s s"
      using put_any [OF w(1,2) _ swap_stale(4) [unfolded put_manifest_def]] by (simp add: manifest_repo_key reads_def)
    then show ?thesis using swap_stale(1,2) quiet_step [OF W] ph [of i] by (simp add: claim_ok_def)
  next
    case (withdraw i es f sv bs s err s')
    have "world_inv n rid (at_phase i (Syncing es bs) ?s W)" using still_step [OF W] ph [of i] withdraw(2) by simp
    then show ?thesis using withdraw(1,4) withdraw_step [OF W withdraw(2,3)] by auto
  next
    case (check_listed i es f next_m bs s m)
    then show ?thesis using quiet_step [OF W read(1)] ph [of i] by simp
  next
    case (check_unlisted i es f next_m bs s mo)
    then show ?thesis using quiet_step [OF W read(1)] ph [of i] by simp
  next
    case (recover i next_m bs s meta)
    have next_m: "wf_manifest next_m" "burned_ok bs" using ph [of i] recover(2) by simp_all
    obtain s' meta' where "get_bytes api (manifest_key rid) get_default ?s = (s', Inr (Some (marshal_manifest next_m), meta'))"
      using recover(4) by blast
    from read_manifest [OF w(1) cur(1) this] have m0: "m0 = canon_manifest next_m" using marshal_roundtrip(1) [OF next_m(1)] by simp
    have "om_version meta = v0" using head_law [OF w(1) recover(3)] cur(1) by (auto simp: manifest_at_def)
    then have "base_ok ?lk ?u rid (next_m, om_version meta)" using exact [of next_m] m0 by simp
    moreover have "reads n ?s s" using read(3) [OF recover(3)] .
    moreover from this have "world_inv n rid (at_phase i (Sweeping bs) s W)" using quiet_step [OF W] next_m(2) by simp
    ultimately show ?thesis using recover(1) base_step [of n rid "at_phase i (Sweeping bs) s W"] by (simp add: reads_def)
  next
    case (recover_blind i next_m bs)
    have "base_ok ?lk ?u rid (next_m, [])" using no_version by (simp add: base_ok_def)
    then show ?thesis using recover_blind base_step still_step [OF W, of "Sweeping bs" i] ph [of i] by simp
  next
    case (give_up i bs)
    have "burned_ok bs" using ph [of i] give_up(2) by (cases "w_phase W i") (simp_all add: claim_ok_def)
    then show ?thesis using give_up(1) still_step [OF W] by simp
  next
    case (sweep_start i bs s m)
    have "burned_ok bs" using ph [of i] sweep_start(2) by simp
    with swept_slots [OF W sweep_start(3)] sweep_start quiet_step [OF W read(1)] show ?thesis by simp
  next
    case (sweep_keep i keep key ks)
    then show ?thesis using still_step [OF W] ph [of i] by simp
  next
    case (sweep_head i keep key ks s meta)
    obtain b where "?lk (repo_key rid key) = Some (om_version meta, b)" using head_law [OF w(1) sweep_head(4)] by (cases "?lk (repo_key rid key)") auto
    then have "om_version meta \<noteq> []" using look_used [OF w(1)] by blast
    then show ?thesis using sweep_head quiet_step [OF W read(3)] ph [of i] by simp
  next
    case (sweep_gone i keep key ks s r)
    then show ?thesis using quiet_step [OF W read(3)] ph [of i] by simp
  next
    case (sweep_delete i keep key v ks s err s')
    have "world_inv n rid (at_phase i (Sweep_next keep ks) ?s W)" using still_step [OF W] ph [of i] sweep_delete(2) by simp
    then show ?thesis using sweep_delete(1,4) sweep_delete_step [OF W sweep_delete(2,3)] by auto
  next
    case (finish i bs keep)
    then show ?thesis using still_step [OF W] by simp
  next
    case (crash i)
    have "world_inv n rid W'"
      using crash still_step [OF W, of Idle i] by (auto simp: world_inv_def world_ok_def split: if_splits)
    then show ?thesis using crash by simp
  next
    case (read_any key opts s r)
    have "reads n ?s s" using read(4) [OF read_any(2)] .
    then show ?thesis using read_any(1) w by (simp add: world_inv_def reads_def)
  next
    case (head_any key s r)
    have "reads n ?s s" using read(3) [OF head_any(2)] .
    then show ?thesis using head_any(1) w by (simp add: world_inv_def reads_def)
  next
    case (elsewhere key body opts s r)
    from put_any [OF w(1,2) elsewhere(2,5)] have s: "inv s" "room n s" "\<And>v. ?u v \<Longrightarrow> used s v" by blast+
    from put_any [OF w(1,2) elsewhere(2,5)] have "look s = ?lk \<or> (\<exists>x. look s = ?lk(key := x))" by blast
    then obtain x where "look s = ?lk(key := x)" by (metis fun_upd_triv)
    then have "world_inv n rid W'"
      using s elsewhere(1) world_put_elsewhere [OF w(3) elsewhere(3,4) s(3)] by (simp add: world_inv_def)
    then show ?thesis using elsewhere(1) by simp
  qed
qed

text \<open>So does every run, of any length the store has room for.\<close>

lemma run_inv:
  assumes "(wstep api rid True ^^ k) W W'" and "world_inv (k + n) rid W"
  shows "world_inv n rid W' \<and> (\<exists>new. w_hist W' = w_hist W @ new)"
  using assms
proof (induction k arbitrary: W)
  case (Suc k)
  then obtain W1 where W1: "wstep api rid True W W1" "(wstep api rid True ^^ k) W1 W'" using relpowp_Suc_D2 by metis
  from wstep_inv [OF W1(1), of "k + n"] Suc.prems(2) have "world_inv (k + n) rid W1" "\<exists>new. w_hist W1 = w_hist W @ new" by auto
  with Suc.IH [OF W1(2)] show ?case by auto
qed simp

lemma fresh_world_inv:
  assumes "inv s" and "room n s" and "look s (manifest_key rid) = Some (v, b)" and "decode_manifest b = Inr m"
    and "log_stored (look s) rid m hist"
  shows "world_inv n rid (fresh_world s hist)"
proof -
  have "v \<noteq> [] \<and> used s v" using look_used [OF assms(1,3)] by blast
  moreover have "manifest_at (look s) rid v m" using assms(3,4) by (simp add: manifest_at_def)
  ultimately show ?thesis using assms(1,2,5) by (auto simp: world_inv_def world_ok_def fresh_world_def)
qed

end

section \<open>No interleaving loses a push\<close>

text \<open>
  C2: Publishers on any number of hosts, taking their store requests in any order, with crashes and
  lost responses anywhere, keep the log: the stored manifest always lists exactly the history, in
  which the committed entries stay, in order and unaltered, and every listed segment is stored. This
  is for calm runs, in which a sweep starts only after the log has passed the slots it visits and a
  recovered publisher takes the version of its own manifest.
\<close>

theorem interleaved_pushes_keep_log:
  assumes "mem_inv s" and "mem_room k s" and "mem_look s (manifest_key rid) = Some (v, b)" and "decode_manifest b = Inr m"
    and "log_stored (mem_look s) rid m hist" and "(wstep mem_api rid True ^^ k) (fresh_world s hist) W"
  shows "\<exists>v b m new. mem_look (w_store W) (manifest_key rid) = Some (v, b) \<and> decode_manifest b = Inr m
    \<and> w_hist W = hist @ new \<and> log_stored (mem_look (w_store W)) rid m (w_hist W)"
proof -
  have start: "memory_publisher.world_inv (k + 0) rid (fresh_world s hist)"
    using memory_publisher.fresh_world_inv [OF assms(1,2,3,4,5)] by simp
  have inv: "memory_publisher.world_inv 0 rid W" and "\<exists>new. w_hist W = hist @ new"
    using memory_publisher.run_inv [OF assms(6) start] by (simp_all add: fresh_world_def)
  with memory_publisher.current_manifest [OF inv] show ?thesis by (metis manifest_at_def)
qed

section \<open>The ladder's functions are runs\<close>

lemma step_then: "wstep api rid calm W W1 \<Longrightarrow> wsteps api rid calm W1 W2 \<Longrightarrow> wsteps api rid calm W W2"
  by (rule converse_rtranclp_into_rtranclp)

lemma at_phase_twice [simp]: "at_phase i p s (at_phase i q s' W) = at_phase i p s W"
  by (simp add: at_phase_def)

lemma at_phase_same: "w_phase W i = p \<Longrightarrow> W\<lparr>w_store := s\<rparr> = at_phase i p s W"
  by (cases W) (auto simp: at_phase_def)

lemma read_give_up:
  assumes "wstep api rid calm W (W\<lparr>w_store := s\<rparr>)" and "burned_of (w_phase W i) = Some bs"
  shows "wsteps api rid calm W (at_phase i (Sweeping bs) s W)"
proof -
  have stay: "W\<lparr>w_store := s\<rparr> = at_phase i (w_phase W i) s W" by (rule at_phase_same) (rule refl)
  have "wstep api rid calm (at_phase i (w_phase W i) s W) (at_phase i (Sweeping bs) s W)"
    using give_up [of "at_phase i (w_phase W i) s W" i bs api rid calm] assms(2) by simp
  with step_then [OF assms(1) [unfolded stay] r_into_rtranclp] show ?thesis by blast
qed

text \<open>The probes of an occupied slot.\<close>

lemma probe_steps:
  assumes "probe_slot api (slot_key rid f) n s = (s', r)" and "n + seen = orphan_probes" and "0 < n"
    and W: "w_phase W i = Probing mv es f k bs seen" "w_store W = s"
  shows "case r of
      Inr False \<Rightarrow> wsteps api rid calm W (at_phase i (Claiming mv es f k bs) s' W)
    | _ \<Rightarrow> wsteps api rid calm W (at_phase i (Sweeping bs) s' W) \<and>
        (k + 1 \<le> max_burns \<longrightarrow> unat f + 1 < 2 ^ 64 \<longrightarrow> r = Inr True \<longrightarrow>
           wsteps api rid calm W (at_phase i (Claiming mv es (f + 1) (k + 1) (map_put f (log_segment_key f) bs)) s' W))"
  using assms
proof (induction n arbitrary: s seen W)
  case (Suc n)
  obtain s1 r1 where ex: "exists_op api (slot_key rid f) s = (s1, r1)" by (cases "exists_op api (slot_key rid f) s")
  obtain r0 where head: "sa_head api (slot_key rid f) s = (s1, r0)" using ex by (auto simp: exists_op_def split: prod.splits sum.splits)
  then have fail: "wsteps api rid calm W (at_phase i (Sweeping bs) s1 W)"
    using Suc.prems(4,5) by (intro read_give_up [OF head_any]) simp_all
  consider (err) e where "r1 = Inl e" | (absent) "r1 = Inr False" | (present) "r1 = Inr True"
    by (cases r1) auto
  then show ?case
  proof cases
    case err
    then have "r = Inl WalErrStore" "s' = s1" using Suc.prems(1) ex by auto
    with fail show ?thesis by simp
  next
    case absent
    then have "r = Inr False" "s' = s1" using Suc.prems(1) ex by auto
    moreover have "wstep api rid calm W (at_phase i (Claiming mv es f k bs) s1 W)"
      using probe_absent [OF Suc.prems(4)] ex absent Suc.prems(5) by simp
    ultimately show ?thesis by auto
  next
    case present
    show ?thesis
    proof (cases n)
      case 0
      then have "r = Inr True" "s' = s1" using Suc.prems(1) ex present by auto
      moreover have "wstep api rid calm W (at_phase i (Claiming mv es (f + 1) (k + 1) (map_put f (log_segment_key f) bs)) s1 W)"
        if "k + 1 \<le> max_burns" "unat f + 1 < 2 ^ 64"
        using burn [OF Suc.prems(4) _ _ that] ex present Suc.prems(2,5) 0 by simp
      ultimately show ?thesis using fail by auto
    next
      case (Suc n')
      let ?W = "at_phase i (Probing mv es f k bs (Suc seen)) s1 W"
      have step: "wstep api rid calm W ?W"
        using probe_present [OF Suc.prems(4)] ex present Suc.prems(2,5) Suc by simp
      have "probe_slot api (slot_key rid f) n s1 = (s', r)" using Suc.prems(1) ex present by simp
      from Suc.IH [OF this, of "Suc seen" ?W] Suc.prems(2) Suc step show ?thesis
        by (auto split: sum.splits bool.splits intro: step_then)
    qed
  qed
qed simp

text \<open>The slot claim.\<close>

fun claimed_phase :: "base \<Rightarrow> log_entry list \<Rightarrow> burned \<Rightarrow> claim_result \<Rightarrow> phase" where
  "claimed_phase mv es bs (Claimed f key v body) = Holding mv es f v bs"
| "claimed_phase mv es bs ClaimRestart = Syncing es bs"
| "claimed_phase mv es bs (ClaimError e) = Sweeping bs"

lemma fresh_head_reads:
  assumes "fresh_head api rid (w_store W) = (s, r)"
  shows "wstep api rid calm W (W\<lparr>w_store := s\<rparr>)"
proof -
  obtain r' where "get_bytes api (manifest_key rid) get_default (w_store W) = (s, r')"
    using assms by (auto simp: fresh_head_def split: prod.splits sum.splits option.splits)
  then show ?thesis by (rule read_any)
qed

lemma claim_steps:
  assumes "claim_slot fuel api rid es f k bs s = Some (s', res, bs')"
    and "w_phase W i = Claiming mv es f k bs" and "w_store W = s"
    and "\<And>j. k + j \<le> max_burns \<Longrightarrow> batch_fits (f + word_of_nat j) es" and "k \<le> max_burns" and "unat f + (max_burns - k) + 1 < 2 ^ 64"
  shows "wsteps api rid calm W (at_phase i (claimed_phase mv es bs' res) s' W)
    \<and> (\<forall>g key v body. res = Claimed g key v body \<longrightarrow> key = log_segment_key g \<and> body = segment_body g es)"
  using assms
proof (induction fuel arbitrary: f k bs s W)
  case (Suc fuel)
  have fits: "batch_fits f es" using Suc.prems(4) [of 0] Suc.prems(5) by simp
  obtain s1 r1 where put: "put_segment api rid f es s = (s1, r1)" by (cases "put_segment api rid f es s")
  then have put': "sa_put api (slot_key rid f) (bytes_body (encode_segment (renumber f es))) (put_create x_protobuf) s = (s1, r1)"
    by (simp add: put_segment_def segment_body_def)
  show ?case
  proof (cases r1)
    case (Inr meta)
    then have "res = Claimed f (log_segment_key f) (om_version meta) (segment_body f es)" "s' = s1" "bs' = bs"
      using Suc.prems(1) put' by (auto simp: Let_def segment_body_def)
    moreover have "wstep api rid calm W (at_phase i (Holding mv es f (om_version meta) bs) s1 W)"
      using claim [OF Suc.prems(2) fits] put Inr Suc.prems(3) by simp
    ultimately show ?thesis by auto
  next
    case (Inl e)
    let ?W1 = "at_phase i (Rereading mv es f k bs) s1 W"
    have one: "wstep api rid calm W ?W1" using claim_failed [OF Suc.prems(2) fits, of api rid s1 r1 s1] put Suc.prems(3) by simp
    obtain s2 fresh where fh: "fresh_head api rid s1 = (s2, fresh)" by (cases "fresh_head api rid s1")
    note run = Suc.prems(1) [simplified, unfolded Let_def, simplified, unfolded put' Inl, simplified, unfolded fh, simplified]
    show ?thesis
    proof (cases "(case fresh of Inl err \<Rightarrow> \<not> is_not_found err | Inr m \<Rightarrow> False)")
      case True
      then have "res = ClaimError WalErrStore" "s' = s2" "bs' = bs" using run by auto
      moreover have "wsteps api rid calm ?W1 (at_phase i (Sweeping bs) s2 ?W1)"
        using fh by (intro read_give_up [OF fresh_head_reads]) simp_all
      ultimately show ?thesis using one by (auto intro: step_then)
    next
      case noerr: False
      show ?thesis
      proof (cases "(case fresh of Inr (Some m) \<Rightarrow> f \<le> mf_head_seq m | _ \<Rightarrow> False)")
        case True
        then obtain m where m: "fresh = Inr (Some m)" "f \<le> mf_head_seq m" by (auto split: sum.splits option.splits)
        then have "res = ClaimRestart" "s' = s2" "bs' = bs" using run by auto
        moreover have "wstep api rid calm ?W1 (at_phase i (Syncing es bs) s2 ?W1)"
          using reread_landed [of ?W1 i mv es f k bs api rid s2 m calm] fh m by simp
        ultimately show ?thesis using one by (auto intro: step_then)
      next
        case free: False
        let ?W2 = "at_phase i (Probing mv es f k bs 0) s2 W"
        have "wstep api rid calm ?W1 ?W2"
          using reread_free [of ?W1 i mv es f k bs api rid s2 fresh calm] fh noerr free by (simp split: sum.splits option.splits)
        with one have two: "wsteps api rid calm W ?W2" by (auto intro: step_then)
        obtain s3 r3 where pr: "probe_slot api (slot_key rid f) orphan_probes s2 = (s3, r3)"
          by (cases "probe_slot api (slot_key rid f) orphan_probes s2")
        note steps = probe_steps [OF pr, of 0 ?W2 i mv es k bs calm]
        consider (err) e where "r3 = Inl e" | (absent) "r3 = Inr False" | (full) "r3 = Inr True" "max_burns < k + 1"
          | (burned) "r3 = Inr True" "k + 1 \<le> max_burns" by (cases r3) force+
        then show ?thesis
        proof cases
          case err
          then have "res = ClaimError e" "s' = s3" "bs' = bs" using run pr noerr free by auto
          with steps two err show ?thesis by (auto simp: orphan_probes_def)
        next
          case absent
          let ?W3 = "at_phase i (Claiming mv es f k bs) s3 W"
          have "claim_slot fuel api rid es f k bs s3 = Some (s', res, bs')" using run pr noerr free absent by auto
          from Suc.IH [OF this, of ?W3] Suc.prems(4-6) steps two absent show ?thesis by (auto simp: orphan_probes_def)
        next
          case full
          then have "res = ClaimError WalErrCorrupt" "s' = s3" "bs' = bs" using run pr noerr free by auto
          with steps two full show ?thesis by (auto simp: orphan_probes_def)
        next
          case burned
          let ?W3 = "at_phase i (Claiming mv es (f + 1) (k + 1) (map_put f (log_segment_key f) bs)) s3 W"
          have f1: "unat (f + 1) = unat f + 1" using Suc.prems(6) unat_add_small [of f 1] by simp
          have "claim_slot fuel api rid es (f + 1) (k + 1) (map_put f (log_segment_key f) bs) s3 = Some (s', res, bs')"
            using run pr noerr free burned by auto
          moreover have "batch_fits (f + 1 + word_of_nat j) es" if "k + 1 + j \<le> max_burns" for j
            using Suc.prems(4) [of "Suc j"] that by (simp add: ac_simps)
          moreover have "unat (f + 1) + (max_burns - (k + 1)) + 1 < 2 ^ 64" using Suc.prems(6) f1 burned(2) by linarith
          ultimately have "wsteps api rid calm ?W3 (at_phase i (claimed_phase mv es bs' res) s' ?W3)
              \<and> (\<forall>g key v body. res = Claimed g key v body \<longrightarrow> key = log_segment_key g \<and> body = segment_body g es)"
            using Suc.IH [of "f + 1" "k + 1" "map_put f (log_segment_key f) bs" s3 ?W3] burned(2) by simp
          moreover have "wsteps api rid calm W ?W3"
            using steps two burned Suc.prems(6) by (auto simp: orphan_probes_def)
          ultimately show ?thesis by auto
        qed
      qed
    qed
  qed
qed simp

text \<open>The manifest swap.\<close>

fun swapped_phase :: "log_entry list \<Rightarrow> burned \<Rightarrow> cas_result \<Rightarrow> phase" where
  "swapped_phase es bs CasRestart = Syncing es bs"
| "swapped_phase es bs (CasCommitted v) = Sweeping bs"
| "swapped_phase es bs (CasError e) = Sweeping bs"

fun swapped_base :: "manifest \<Rightarrow> cas_result \<Rightarrow> base option \<Rightarrow> base option" where
  "swapped_base next_m (CasCommitted v) mv = Some (next_m, v)"
| "swapped_base next_m res mv = mv"

lemma check_steps:
  assumes W: "w_phase W i = Checking es f next_m bs" "w_store W = s"
    and run: "(case fresh_head api rid s of
        (s2, Inl err) \<Rightarrow> (s2, CasError WalErrStore) | (s2, Inr None) \<Rightarrow> (s2, CasRestart)
      | (s2, Inr (Some fresh)) \<Rightarrow>
          if list_ex (\<lambda>sg. sg_key sg = log_segment_key f) (mf_log_segments fresh) then
            (case sa_head api (manifest_key rid) s2 of
               (s3, Inr (Some meta)) \<Rightarrow> (s3, CasCommitted (om_version meta)) | (s3, _) \<Rightarrow> (s3, CasCommitted []))
          else (s2, CasRestart)) = (s', res)"
  shows "\<exists>W'. wsteps api rid False W W' \<and> w_store W' = s' \<and> w_hist W' = w_hist W
    \<and> w_phase W' = (w_phase W)(i := swapped_phase es bs res) \<and> w_base W' = (w_base W)(i := swapped_base next_m res (w_base W i))"
proof -
  obtain s2 fresh where fh: "fresh_head api rid s = (s2, fresh)" by (cases "fresh_head api rid s")
  have via: "\<exists>W'. wsteps api rid False W W' \<and> w_store W' = s2 \<and> w_hist W' = w_hist W
      \<and> w_phase W' = (w_phase W)(i := p) \<and> w_base W' = w_base W" if "wsteps api rid False W (at_phase i p s2 W)" for p
    using that by (intro exI [of _ "at_phase i p s2 W"]) simp
  consider (err) e where "fresh = Inl e" | (listed) m where "fresh = Inr (Some m)" "list_ex (\<lambda>sg. sg_key sg = log_segment_key f) (mf_log_segments m)"
    | (gone) "\<forall>e. fresh \<noteq> Inl e" "\<forall>m. fresh = Inr (Some m) \<longrightarrow> \<not> list_ex (\<lambda>sg. sg_key sg = log_segment_key f) (mf_log_segments m)"
    by blast
  then show ?thesis
  proof cases
    case err
    have "wsteps api rid False W (at_phase i (Sweeping bs) s2 W)"
      using fh W by (intro read_give_up [OF fresh_head_reads]) simp_all
    from via [OF this] run fh err show ?thesis by auto
  next
    case gone
    then obtain mo where mo: "fresh = Inr mo" "case mo of None \<Rightarrow> True | Some m \<Rightarrow> \<not> list_ex (\<lambda>sg. sg_key sg = log_segment_key f) (mf_log_segments m)"
      by (cases fresh) (auto split: option.split)
    have "wstep api rid False W (at_phase i (Syncing es bs) s2 W)"
      using check_unlisted [OF W(1), of api rid s2 mo] fh mo W(2) by simp
    from via [OF r_into_rtranclp [of "wstep api rid False", OF this]] run fh mo show ?thesis by (auto split: option.splits)
  next
    case (listed m)
    let ?W1 = "at_phase i (Recovering next_m bs) s2 W"
    have one: "wstep api rid False W ?W1" using check_listed [OF W(1), of api rid s2 m] fh listed W(2) by simp
    obtain s3 r where head: "sa_head api (manifest_key rid) s2 = (s3, r)" by (cases "sa_head api (manifest_key rid) s2")
    show ?thesis
    proof (cases "\<exists>meta. r = Inr (Some meta)")
      case True
      then obtain meta where meta: "r = Inr (Some meta)" by blast
      have "wstep api rid False ?W1 (holds_base i (next_m, om_version meta) (at_phase i (Sweeping bs) s3 ?W1))"
        using recover [of ?W1 i next_m bs api rid s3 meta False] head meta by simp
      with one have "wsteps api rid False W (holds_base i (next_m, om_version meta) (at_phase i (Sweeping bs) s3 W))"
        by (auto intro: step_then)
      moreover have "s' = s3" "res = CasCommitted (om_version meta)" using run fh listed head meta by simp_all
      ultimately show ?thesis
        by (intro exI [of _ "holds_base i (next_m, om_version meta) (at_phase i (Sweeping bs) s3 W)"]) simp
    next
      case False
      let ?W2 = "at_phase i (Recovering next_m bs) s3 W"
      have "wstep api rid False ?W1 ?W2"
        using head_any [of api "manifest_key rid" ?W1 s3 r rid False] head at_phase_same [of ?W1 i "Recovering next_m bs" s3] by simp
      moreover have "wstep api rid False ?W2 (holds_base i (next_m, []) (at_phase i (Sweeping bs) s3 W))"
        using recover_blind [of ?W2 i next_m bs api rid False] by simp
      ultimately have "wsteps api rid False W (holds_base i (next_m, []) (at_phase i (Sweeping bs) s3 W))"
        using one by (auto intro: step_then)
      moreover have "s' = s3" "res = CasCommitted []" using run fh listed head False by (auto split: sum.splits option.splits)
      ultimately show ?thesis
        by (intro exI [of _ "holds_base i (next_m, []) (at_phase i (Sweeping bs) s3 W)"]) simp
    qed
  qed
qed

lemma swap_steps:
  fixes m :: manifest and f :: u64 and es :: "log_entry list" and w :: string and now :: go_time
  defines "next_m \<equiv> next_manifest m f es w now"
  assumes run: "cas_manifest api rid v (log_segment_key f) sv next_m s = (s', res)"
    and W: "w_phase W i = Holding (m, v) es f sv bs" "w_store W = s" and wf: "wf_manifest next_m"
  shows "\<exists>W'. wsteps api rid False W W' \<and> w_store W' = s'
    \<and> w_phase W' = (w_phase W)(i := swapped_phase es bs res) \<and> w_base W' = (w_base W)(i := swapped_base next_m res (w_base W i))"
proof -
  obtain s1 r where put: "put_manifest api rid next_m v s = (s1, r)" by (cases "put_manifest api rid next_m v s")
  then have put': "sa_put api (manifest_key rid) (bytes_body (marshal_manifest next_m)) (manifest_options v) s = (s1, r)"
    by (simp add: put_manifest_def)
  consider (stored) meta where "r = Inr meta" | (stale) e where "r = Inl e" "is_precondition_failed e"
    | (unsure) e where "r = Inl e" "\<not> is_precondition_failed e" by (cases r) auto
  then show ?thesis
  proof cases
    case (stored meta)
    have "wstep api rid False W (holds_base i (next_m, om_version meta) (at_phase i (Sweeping bs) s1
        (W\<lparr>w_hist := w_hist W @ map canon_log_entry (renumber f es)\<rparr>)))"
      using swap [OF W(1) next_m_def [THEN meta_eq_to_obj_eq] wf, where api = api and s = s1 and meta = meta] put stored W(2) by simp
    moreover have "s' = s1" "res = CasCommitted (om_version meta)" using run put' stored by (simp_all add: cas_manifest_def Let_def)
    ultimately show ?thesis
      by (intro exI [of _ "holds_base i (next_m, om_version meta) (at_phase i (Sweeping bs) s1
        (W\<lparr>w_hist := w_hist W @ map canon_log_entry (renumber f es)\<rparr>))"]) (auto simp: at_phase_def)
  next
    case (stale e)
    let ?W1 = "at_phase i (Withdrawing es f sv bs) s1 W"
    obtain s2 err where del: "sa_delete api (slot_key rid f) sv s1 = (s2, err)" by (cases "sa_delete api (slot_key rid f) sv s1")
    have "wstep api rid False W ?W1"
      using swap_stale [OF W(1) next_m_def [THEN meta_eq_to_obj_eq], where api = api and s = s1 and e = e] put stale W(2) by simp
    moreover have "wstep api rid False ?W1 (at_phase i (Syncing es bs) s' ?W1)" if "s' \<in> {s1, s2}"
      using withdraw [of ?W1 i es f sv bs api rid s2 err s' False] del that by simp
    moreover have "s' \<in> {s1, s2}" "res = CasRestart" using run put' stale del by (auto simp: cas_manifest_def Let_def split: if_splits)
    ultimately show ?thesis
      by (intro exI [of _ "at_phase i (Syncing es bs) s' W"]) (auto intro: step_then)
  next
    case (unsure e)
    let ?W1 = "at_phase i (Checking es f next_m bs) s1 W"
    have one: "wstep api rid False W ?W1"
      using swap_unsure [OF W(1) next_m_def [THEN meta_eq_to_obj_eq] wf, where api = api and s = s1 and e = e] put unsure W(2) by simp
    have "\<exists>W'. wsteps api rid False ?W1 W' \<and> w_store W' = s' \<and> w_hist W' = w_hist ?W1
      \<and> w_phase W' = (w_phase ?W1)(i := swapped_phase es bs res) \<and> w_base W' = (w_base ?W1)(i := swapped_base next_m res (w_base ?W1 i))"
      by (rule check_steps [of ?W1 i es f next_m bs s1]) (use run put' unsure in \<open>simp_all add: cas_manifest_def Let_def\<close>)
    with one show ?thesis by (auto intro: step_then)
  qed
qed

text \<open>The sweep.\<close>

lemma sweep_key_steps:
  assumes "w_phase W i = Sweep_next keep ks" and "w_store W = s"
  shows "wsteps api rid calm W (at_phase i Idle (sweep_keys api rid keep ks s) W)"
  using assms
proof (induction ks arbitrary: s W)
  case Nil
  then show ?case using finish [of W i "[]" keep api rid calm] by auto
next
  case (Cons key ks)
  have via: "wsteps api rid calm W (at_phase i Idle s' W)"
    if "wsteps api rid calm W (at_phase i (Sweep_next keep ks) s1 W)" "s' = sweep_keys api rid keep ks s1" for s1 s'
    using that(1) Cons.IH [of "at_phase i (Sweep_next keep ks) s1 W" s1] that(2) by (auto intro: rtranclp_trans)
  show ?case
  proof (cases "key \<in> set keep")
    case True
    have "wstep api rid calm W (at_phase i (Sweep_next keep ks) s W)" using sweep_keep [OF Cons.prems(1) True] Cons.prems(2) by simp
    with True show ?thesis by (intro via [of s]) auto
  next
    case False
    obtain s1 r where head: "sa_head api (repo_key rid key) s = (s1, r)" by (cases "sa_head api (repo_key rid key) s")
    show ?thesis
    proof (cases "\<exists>meta. r = Inr (Some meta)")
      case True
      then obtain meta where meta: "r = Inr (Some meta)" by blast
      obtain s2 err where del: "sa_delete api (repo_key rid key) (om_version meta) s1 = (s2, err)"
        by (cases "sa_delete api (repo_key rid key) (om_version meta) s1")
      let ?W1 = "at_phase i (Sweep_found keep key (om_version meta) ks) s1 W"
      have "wstep api rid calm W ?W1" using sweep_head [OF Cons.prems(1) False] head meta Cons.prems(2) by simp
      moreover have "wstep api rid calm ?W1 (at_phase i (Sweep_next keep ks) s2 ?W1)"
        using sweep_delete [of ?W1 i keep key "om_version meta" ks api rid s2 err s2 calm] del by simp
      ultimately have "wsteps api rid calm W (at_phase i (Sweep_next keep ks) s2 W)" by (auto intro: step_then)
      then show ?thesis by (rule via) (use False head meta del in simp)
    next
      case none: False
      have "wstep api rid calm W (at_phase i (Sweep_next keep ks) s1 W)"
        using sweep_gone [OF Cons.prems(1) False, of api rid s1 r] head none Cons.prems(2) by simp
      then have "wsteps api rid calm W (at_phase i (Sweep_next keep ks) s1 W)" by auto
      then show ?thesis by (rule via) (use False head none in \<open>auto split: sum.splits option.splits\<close>)
    qed
  qed
qed

lemma sweep_steps:
  assumes "w_phase W i = Sweeping bs" and "w_store W = s"
  shows "wsteps api rid False W (at_phase i Idle (sweep_burned api rid bs s) W)"
proof (cases "bs = []")
  case True
  then show ?thesis using finish [of W i bs "[]" api rid False] assms by (auto simp: sweep_burned_def)
next
  case False
  obtain s1 r where fh: "fresh_head api rid s = (s1, r)" by (cases "fresh_head api rid s")
  show ?thesis
  proof (cases "\<exists>m. r = Inr (Some m)")
    case True
    then obtain m where m: "r = Inr (Some m)" by blast
    let ?keep = "map sg_key (mf_log_segments m)" let ?W1 = "at_phase i (Sweep_next ?keep (map snd bs)) s1 W"
    have "wstep api rid False W ?W1" using sweep_start [OF assms(1)] fh m assms(2) by simp
    moreover have "wsteps api rid False ?W1 (at_phase i Idle (sweep_keys api rid ?keep (map snd bs) s1) ?W1)"
      by (rule sweep_key_steps) simp_all
    ultimately show ?thesis using False fh m by (auto simp: sweep_burned_def intro: step_then)
  next
    case none: False
    let ?W1 = "at_phase i (Sweeping bs) s1 W"
    have "wstep api rid False W ?W1"
      using fresh_head_reads [of api rid W s1 r False] fh assms by (simp add: at_phase_same [OF assms(1)])
    moreover have "wstep api rid False ?W1 (at_phase i Idle s1 ?W1)" using finish [of ?W1 i bs "[]" api rid False] by simp
    ultimately show ?thesis using False fh none by (auto simp: sweep_burned_def intro: step_then split: sum.splits option.splits)
  qed
qed

section \<open>A sweep can lose a push\<close>

context publisher_store
begin

definition still :: "'a \<Rightarrow> 'a \<Rightarrow> bool" where
  "still s s' \<longleftrightarrow> inv s' \<and> look s' = look s \<and> used s' = used s \<and> (\<forall>n. room n s \<longrightarrow> room n s')"

lemma still_trans [trans]: "still s s1 \<Longrightarrow> still s1 s2 \<Longrightarrow> still s s2"
  by (simp add: still_def)

lemma read_manifest_step:
  assumes "inv s" and "look s (manifest_key rid) = Some (v, b)" and "decode_manifest b = Inr m"
  shows "\<exists>s'. fresh_head api rid s = (s', Inr (Some m)) \<and> still s s'"
    and "\<exists>s' meta. get_bytes api (manifest_key rid) get_default s = (s', Inr (Some b, meta)) \<and> om_version meta = v \<and> still s s'"
  using fresh_head_stored [OF assms] get_bytes_present [OF assms(1,2)] fresh_head_frame [OF assms(1)] get_bytes_frame [OF assms(1)]
  by (auto simp: still_def)

lemma head_slot_step:
  assumes "inv s" and "look s (slot_key rid f) = Some (v, b)"
  shows "\<exists>s'. exists_op api (slot_key rid f) s = (s', Inr True) \<and> still s s'"
    and "\<exists>s' meta. sa_head api (slot_key rid f) s = (s', Inr (Some meta)) \<and> om_version meta = v \<and> still s s'"
proof -
  obtain s' r where h: "sa_head api (slot_key rid f) s = (s', r)" by (cases "sa_head api (slot_key rid f) s")
  then have r: "\<exists>meta. r = Inr (Some meta) \<and> om_version meta = v" using head_law [OF assms(1) h] assms(2) by simp
  with h show "\<exists>s'. exists_op api (slot_key rid f) s = (s', Inr True) \<and> still s s'"
    using head_law [OF assms(1) h] by (auto simp: exists_op_def still_def)
  show "\<exists>s' meta. sa_head api (slot_key rid f) s = (s', Inr (Some meta)) \<and> om_version meta = v \<and> still s s'"
    using h r head_law [OF assms(1) h] by (auto simp: still_def)
qed

text \<open>One publisher up to its claim, from a world where everybody is idle or has no part in it.\<close>

lemma join_steps:
  assumes "inv s" and "look s (manifest_key rid) = Some (v, b)" and "decode_manifest b = Inr m" and "unat (mf_head_seq m) + 1 < 2 ^ 64"
    and W: "w_store W = s" "w_phase W i = Idle"
  shows "\<exists>s'. still s s' \<and> wsteps api rid calm W
    (at_phase i (Claiming (m, v) es (mf_head_seq m + 1) 0 []) s' (holds_base i (m, v) W))"
proof -
  obtain s' meta where s': "get_bytes api (manifest_key rid) get_default s = (s', Inr (Some b, meta))" "om_version meta = v" "still s s'"
    using read_manifest_step(2) [OF assms(1-3)] by blast
  let ?W1 = "holds_base i (m, v) (W\<lparr>w_store := s'\<rparr>)" let ?W2 = "at_phase i (Syncing es []) s' (holds_base i (m, v) W)"
  have "wstep api rid calm W ?W1" using sync [of api rid W s' b meta m calm i] s' assms(3) W(1) by simp
  moreover have "wstep api rid calm ?W1 ?W2"
    using submit [of ?W1 i api rid calm es] W(2) by (simp add: at_phase_def holds_base_def)
  moreover have "wstep api rid calm ?W2 (at_phase i (Claiming (m, v) es (mf_head_seq m + 1) 0 []) s' (holds_base i (m, v) W))"
    using attempt [of ?W2 i es "[]" m v api rid calm] assms(4) by (simp add: at_phase_def)
  ultimately show ?thesis using s'(3) by (blast intro: step_then r_into_rtranclp)
qed

text \<open>A publisher that finds the slot taken, and the log not past it, burns it.\<close>

lemma burn_steps:
  assumes "inv s" and man: "look s (manifest_key rid) = Some (v, b)" "decode_manifest b = Inr m"
    and slot: "look s (slot_key rid f) = Some (sv, body)" and f: "mf_head_seq m < f" "unat f + 1 < 2 ^ 64" and fits: "batch_fits f es"
    and W: "w_store W = s" "w_phase W i = Claiming mv es f 0 []"
  shows "\<exists>s'. still s s' \<and> wsteps api rid calm W (at_phase i (Claiming mv es (f + 1) 1 [(f, log_segment_key f)]) s' W)"
proof -
  have "\<not> put_admits (put_create x_protobuf) (look s (slot_key rid f))" using slot by (simp add: admits_create)
  moreover obtain s1 r where r: "put_segment api rid f es s = (s1, r)" by (cases "put_segment api rid f es s")
  ultimately obtain e where s1: "put_segment api rid f es s = (s1, Inl e)" "still s s1"
    using put_refused [OF assms(1) _ r [unfolded put_segment_def]] by (auto simp: still_def)
  let ?W1 = "at_phase i (Rereading mv es f 0 []) s1 W"
  have one: "wstep api rid calm W ?W1" using claim_failed [OF W(2) fits, of api rid s1 "Inl e" s1] s1(1) W(1) by simp
  obtain s2 where s2: "fresh_head api rid s1 = (s2, Inr (Some m))" "still s1 s2"
    using read_manifest_step(1) [of s1 rid v b m] s1(2) man by (auto simp: still_def)
  let ?P = "\<lambda>n s. at_phase i (Probing mv es f 0 [] n) s W"
  have two: "wstep api rid calm ?W1 (?P 0 s2)"
    using reread_free [of ?W1 i mv es f 0 "[]" api rid s2 "Inr (Some m)" calm] s2(1) f(1) by simp
  have ex: "\<exists>s'. exists_op api (slot_key rid f) t = (s', Inr True) \<and> still t s'" if "still s t" for t
    using head_slot_step(1) [of t rid f sv body] that slot by (simp add: still_def)
  have st2: "still s s2" using s1(2) s2(2) by (rule still_trans)
  obtain s3 where s3: "exists_op api (slot_key rid f) s2 = (s3, Inr True)" "still s2 s3" using ex [OF st2] by blast
  have st3: "still s s3" using st2 s3(2) by (rule still_trans)
  obtain s4 where s4: "exists_op api (slot_key rid f) s3 = (s4, Inr True)" "still s3 s4" using ex [OF st3] by blast
  have st4: "still s s4" using st3 s4(2) by (rule still_trans)
  obtain s5 where s5: "exists_op api (slot_key rid f) s4 = (s5, Inr True)" "still s4 s5" using ex [OF st4] by blast
  have "wstep api rid calm (?P 0 s2) (?P 1 s3)"
    using wstep.probe_present [where W = "?P 0 s2" and i = i and n = 0 and api = api and s = s3 and calm = calm] s3(1) by (simp add: orphan_probes_def)
  moreover have "wstep api rid calm (?P 1 s3) (?P 2 s4)"
    using wstep.probe_present [where W = "?P 1 s3" and i = i and n = 1 and api = api and s = s4 and calm = calm] s4(1) by (simp add: orphan_probes_def numeral_2_eq_2)
  moreover have "wstep api rid calm (?P 2 s4) (at_phase i (Claiming mv es (f + 1) 1 [(f, log_segment_key f)]) s5 W)"
    using burn [where W = "?P 2 s4" and i = i and mv = mv and es = es and f = f and k = 0 and bs = "[]" and n = 2 and api = api and rid = rid and s = s5 and calm = calm] s5(1) f(2) by (simp add: orphan_probes_def max_burns_def)
  ultimately have "wsteps api rid calm W (at_phase i (Claiming mv es (f + 1) 1 [(f, log_segment_key f)]) s5 W)"
    using one two by (blast intro: step_then r_into_rtranclp)
  moreover have "still s s5" using st4 s5(2) by (rule still_trans)
  ultimately show ?thesis by blast
qed

lemma unsafe_sweep_run:
  fixes m :: manifest and es :: "log_entry list" and w :: string and now :: go_time
  defines "f \<equiv> mf_head_seq m + 1" and "next_m \<equiv> next_manifest m (mf_head_seq m + 1) es w now"
  assumes s: "inv s" "room 2 s" and man: "look s (manifest_key rid) = Some (v, b)" "decode_manifest b = Inr m"
    and stored: "log_stored (look s) rid m hist" and free: "look s (slot_key rid f) = None"
    and bounds: "unat (mf_head_seq m) + 2 < 2 ^ 64" "batch_fits f es" "wf_manifest next_m"
  shows "\<exists>W nv. wsteps api rid False (fresh_world s hist) W \<and> w_hist W = hist @ map canon_log_entry (renumber f es)
    \<and> look (w_store W) (manifest_key rid) = Some (nv, marshal_manifest next_m) \<and> look (w_store W) (slot_key rid f) = None"
proof -
  let ?mv = "(m, v)" and ?key = "log_segment_key f" and ?new = "map canon_log_entry (renumber f es)"
  have f: "mf_head_seq m < f" "unat f + 1 < 2 ^ 64" "unat (mf_head_seq m) + 1 < 2 ^ 64"
    using bounds(1) unat_add_small [of "mf_head_seq m" 1] by (auto simp: f_def word_less_nat_alt)
  have unlisted: "?key \<notin> set (map sg_key (mf_log_segments m))"
    using stored free unfolding log_stored_def by (force simp flip: slot_key_neq(5))
  have room2: "room (Suc (Suc 0)) s" using s(2) by (simp add: numeral_2_eq_2)
  let ?W0 = "fresh_world s hist"
  obtain s1 where s1: "still s s1" "wsteps api rid False ?W0 (at_phase 0 (Claiming ?mv es f 0 []) s1 (holds_base 0 ?mv ?W0))"
    using join_steps [where W = ?W0 and i = 0 and calm = False and es = es, OF s(1) man f(3)] by (auto simp: fresh_world_def f_def)
  let ?W1 = "at_phase 0 (Claiming ?mv es f 0 []) s1 (holds_base 0 ?mv ?W0)"
  have "inv s1" "room (Suc (Suc 0)) s1" "put_admits (put_create x_protobuf) (look s1 (slot_key rid f))"
    using s1(1) room2 free by (simp_all add: still_def admits_create)
  from put_admitted [OF this(1,2) slot_key_neq(3) this(3), of "segment_body f es"] obtain s2 meta where
    s2: "put_segment api rid f es s1 = (s2, Inr meta)" "inv s2" "room (Suc 0) s2"
      "look s2 = (look s1)(slot_key rid f \<mapsto> (om_version meta, segment_body f es))" "om_version meta \<noteq> []"
    by (auto simp: put_segment_def)
  let ?W2 = "at_phase 0 (Holding ?mv es f (om_version meta) []) s2 ?W1"
  have "wstep api rid False ?W1 ?W2" using claim [where W = ?W1 and i = 0 and f = f and api = api and rid = rid and s = s2 and meta = meta and calm = False] s2(1) bounds(2) by simp
  with s1(2) have to2: "wsteps api rid False ?W0 ?W2" by (rule rtranclp.rtrancl_into_rtrancl)
  have man2: "look s2 (manifest_key rid) = Some (v, b)" using s2(4) s1(1) man(1) by (simp add: still_def)
  have slot2: "look s2 (slot_key rid f) = Some (om_version meta, segment_body f es)" using s2(4) by simp
  obtain s3 where s3: "still s2 s3" "wsteps api rid False ?W2 (at_phase 1 (Claiming ?mv es f 0 []) s3 (holds_base 1 ?mv ?W2))"
    using join_steps [where W = ?W2 and i = 1 and calm = False and es = es, OF s2(2) man2 man(2) f(3)] by (auto simp: fresh_world_def f_def)
  let ?W3 = "at_phase 1 (Claiming ?mv es f 0 []) s3 (holds_base 1 ?mv ?W2)"
  have "inv s3" "look s3 (manifest_key rid) = Some (v, b)" "look s3 (slot_key rid f) = Some (om_version meta, segment_body f es)"
    using s3(1) man2 slot2 by (simp_all add: still_def)
  from burn_steps [where W = ?W3 and i = 1 and mv = ?mv and calm = False, OF this(1,2) man(2) this(3) f(1,2) bounds(2)] obtain s4 where
    s4: "still s3 s4" "wsteps api rid False ?W3 (at_phase 1 (Claiming ?mv es (f + 1) 1 [(f, ?key)]) s4 ?W3)" by auto
  let ?W4 = "at_phase 1 (Sweeping [(f, ?key)]) s4 ?W3"
  have "wstep api rid False (at_phase 1 (Claiming ?mv es (f + 1) 1 [(f, ?key)]) s4 ?W3) ?W4"
    using give_up [of "at_phase 1 (Claiming ?mv es (f + 1) 1 [(f, ?key)]) s4 ?W3" 1 "[(f, ?key)]" api rid False] by simp
  with to2 s3(2) s4(2) have to4: "wsteps api rid False ?W0 ?W4"
    by (meson rtranclp.rtrancl_into_rtrancl rtranclp_trans)
  have st4: "still s2 s4" using s3(1) s4(1) by (rule still_trans)
  have "inv s4" "look s4 (manifest_key rid) = Some (v, b)" using st4 man2 by (simp_all add: still_def)
  from read_manifest_step(1) [OF this man(2)] obtain s5 where s5: "fresh_head api rid s4 = (s5, Inr (Some m))" "still s4 s5" by blast
  let ?keep = "map sg_key (mf_log_segments m)"
  let ?W5 = "at_phase 1 (Sweep_next ?keep [?key]) s5 ?W4"
  have five: "wstep api rid False ?W4 ?W5"
    using sweep_start [where W = ?W4 and i = 1 and api = api and rid = rid and s = s5 and m = m and calm = False] s5(1) by simp
  have st5: "still s2 s5" using st4 s5(2) by (rule still_trans)
  have "inv s5" "look s5 (slot_key rid f) = Some (om_version meta, segment_body f es)" using st5 slot2 by (simp_all add: still_def)
  from head_slot_step(2) [OF this] obtain s6 meta' where
    s6: "sa_head api (slot_key rid f) s5 = (s6, Inr (Some meta'))" "om_version meta' = om_version meta" "still s5 s6" by blast
  let ?W6 = "at_phase 1 (Sweep_found ?keep ?key (om_version meta) []) s6 ?W5"
  have six: "wstep api rid False ?W5 ?W6"
    using sweep_head [where W = ?W5 and i = 1 and keep = ?keep and key = ?key and ks = "[]" and api = api and rid = rid and s = s6 and meta = meta' and calm = False] s6(1,2) unlisted by simp
  have st6: "still s2 s6" using st5 s6(3) by (rule still_trans)
  have "inv s6" "room (Suc 0) s6" "put_admits (manifest_options v) (look s6 (manifest_key rid))"
    using st6 s2(3) man2 look_used [OF s2(2) man2]
    by (simp_all add: still_def manifest_options_def put_update_def put_admits_def Let_def)
  from put_admitted [OF this(1,2) _ this(3), of "marshal_manifest next_m"] obtain s7 meta2 where
    s7: "put_manifest api rid next_m v s6 = (s7, Inr meta2)" "inv s7"
      "look s7 = (look s6)(manifest_key rid \<mapsto> (om_version meta2, marshal_manifest next_m))"
    by (auto simp: put_manifest_def manifest_repo_key)
  let ?W7 = "holds_base 0 (next_m, om_version meta2) (at_phase 0 (Sweeping []) s7 (?W6\<lparr>w_hist := w_hist ?W6 @ ?new\<rparr>))"
  have seven: "wstep api rid False ?W6 ?W7"
    using swap [where W = ?W6 and i = 0 and m = m and v = v and es = es and f = f and sv = "om_version meta" and bs = "[]"
        and next_m = next_m and w = w and now = now and api = api and rid = rid and s = s7 and meta = meta2 and calm = False] s7(1) bounds(3)
    by (simp add: next_m_def f_def)
  obtain s8 err where s8: "sa_delete api (slot_key rid f) (om_version meta) s7 = (s8, err)"
    by (cases "sa_delete api (slot_key rid f) (om_version meta) s7")
  let ?W8 = "at_phase 1 (Sweep_next ?keep []) s8 ?W7"
  have "wstep api rid False ?W7 ?W8"
    using sweep_delete [where W = ?W7 and i = 1 and keep = ?keep and key = ?key and ks = "[]" and api = api and rid = rid and s = s8 and s' = s8 and calm = False] s8 by simp
  with to4 five six seven have "wsteps api rid False ?W0 ?W8" by (meson rtranclp.rtrancl_into_rtrancl)
  moreover have "look s8 (slot_key rid f) = None" "look s8 (manifest_key rid) = Some (om_version meta2, marshal_manifest next_m)"
    using delete_frame [OF s7(2) s8] s7(3) st6 slot2 s2(5) by (auto simp: still_def)
  moreover have "w_hist ?W8 = hist @ ?new" by (simp add: fresh_world_def)
  ultimately show ?thesis by (intro exI [of _ ?W8] exI [of _ "om_version meta2"]) simp
qed

end

section \<open>Small instances\<close>

text \<open>One host alone: it joins, claims the first slot and swaps, in five steps.\<close>

context publisher_store
begin

lemma lone_push_run:
  fixes m :: manifest and es :: "log_entry list" and w :: string and now :: go_time
  defines "f \<equiv> mf_head_seq m + 1" and "next_m \<equiv> next_manifest m (mf_head_seq m + 1) es w now"
  assumes s: "inv s" "room 2 s" and man: "look s (manifest_key rid) = Some (v, b)" "decode_manifest b = Inr m"
    and free: "look s (slot_key rid f) = None"
    and bounds: "unat (mf_head_seq m) + 1 < 2 ^ 64" "batch_fits f es" "wf_manifest next_m"
  shows "\<exists>W. (wstep api rid calm ^^ 5) (fresh_world s hist) W \<and> w_hist W = hist @ map canon_log_entry (renumber f es)"
proof -
  let ?W0 = "fresh_world s hist"
  obtain s1 meta where s1: "get_bytes api (manifest_key rid) get_default s = (s1, Inr (Some b, meta))" "om_version meta = v" "still s s1"
    using read_manifest_step(2) [OF s(1) man] by blast
  let ?W1 = "holds_base 0 (m, v) (?W0\<lparr>w_store := s1\<rparr>)" let ?W2 = "at_phase 0 (Syncing es []) s1 ?W1"
  let ?W3 = "at_phase 0 (Claiming (m, v) es f 0 []) s1 ?W2"
  have one: "wstep api rid calm ?W0 ?W1" using sync [of api rid ?W0 s1 b meta m calm 0] s1 man(2) by (simp add: fresh_world_def)
  have two: "wstep api rid calm ?W1 ?W2" using submit [of ?W1 0 api rid calm es] by (simp add: fresh_world_def)
  have three: "wstep api rid calm ?W2 ?W3" using attempt [of ?W2 0 es "[]" m v api rid calm] bounds(1) by (simp add: f_def)
  have "inv s1" "room (Suc (Suc 0)) s1" "put_admits (put_create x_protobuf) (look s1 (slot_key rid f))"
    using s1(3) s(2) free by (simp_all add: still_def admits_create numeral_2_eq_2)
  from put_admitted [OF this(1,2) slot_key_neq(3) this(3), of "segment_body f es"] obtain s2 meta2 where
    s2: "put_segment api rid f es s1 = (s2, Inr meta2)" "inv s2" "room (Suc 0) s2"
      "look s2 = (look s1)(slot_key rid f \<mapsto> (om_version meta2, segment_body f es))"
    by (auto simp: put_segment_def)
  let ?W4 = "at_phase 0 (Holding (m, v) es f (om_version meta2) []) s2 ?W3"
  have four: "wstep api rid calm ?W3 ?W4"
    using claim [where W = ?W3 and i = 0 and f = f and api = api and rid = rid and s = s2 and meta = meta2 and calm = calm] s2(1) bounds(2) by simp
  have man2: "look s2 (manifest_key rid) = Some (v, b)" using s2(4) s1(3) man(1) by (simp add: still_def)
  have "put_admits (manifest_options v) (look s2 (manifest_key rid))"
    using man2 look_used [OF s2(2) man2] by (simp add: manifest_options_def put_update_def put_admits_def Let_def)
  from put_admitted [OF s2(2,3) _ this, of "marshal_manifest next_m"] obtain s3 meta3 where
    s3: "put_manifest api rid next_m v s2 = (s3, Inr meta3)" by (auto simp: put_manifest_def manifest_repo_key)
  let ?W5 = "holds_base 0 (next_m, om_version meta3) (at_phase 0 (Sweeping []) s3
      (?W4\<lparr>w_hist := w_hist ?W4 @ map canon_log_entry (renumber f es)\<rparr>))"
  have "wstep api rid calm ?W4 ?W5"
    using swap [where W = ?W4 and i = 0 and m = m and v = v and es = es and f = f and sv = "om_version meta2" and bs = "[]"
        and next_m = next_m and w = w and now = now and api = api and rid = rid and s = s3 and meta = meta3 and calm = calm] s3 bounds(3)
    by (simp add: next_m_def f_def)
  with one two three four have "(wstep api rid calm ^^ 5) ?W0 ?W5"
    by (auto simp: eval_nat_numeral simp del: relpowp.simps(2) intro!: relpowp_Suc_I)
  then show ?thesis by (intro exI [of _ ?W5]) (simp add: fresh_world_def)
qed

end

definition sample_batch :: "log_entry list" where
  "sample_batch = [build_entry ''i'' 0 1 sample_job]"

lemma sample_batch_fits: "batch_fits 1 sample_batch"
proof -
  have ren: "renumber 1 sample_batch = sample_batch"
    using renumber_build_entries [of 1 "''i''" 0 "[sample_job]"] by (simp add: sample_batch_def)
  show ?thesis unfolding batch_fits_def ren using sample_job_entry(2,3) by (simp add: sample_batch_def)
qed

lemma wf_segment_key: "wf_str (log_segment_key n)" "length (log_segment_key n) = 23"
proof -
  have "byte_of_char c < 0x80" if "c \<in> set (log_segment_key n)" for c
    using that hex_fixed_ascii by (auto simp: log_segment_key_def hex16_def byte_of_char_def)
  then have "utf8_valid (bytes_of (log_segment_key n))" by (intro utf8_ascii) (auto simp: bytes_of_def)
  then show "wf_str (log_segment_key n)" "length (log_segment_key n) = 23" by (simp_all add: wf_str_def log_segment_key_def)
qed

lemma size_new_segment: "size_log_segment_ref (new_segment f l body) \<le> 80"
proof -
  let ?s = "new_segment f l body"
  have "length (sg_key ?s) = 23" using wf_segment_key(2) by (simp add: new_segment_def)
  moreover have "sz_bool 5 (sg_sealed ?s) \<le> 11" by (simp add: sz_bool_def size_tag_1)
  ultimately show ?thesis
    using size_bounds(3) [of 1 "sg_key ?s"] size_bounds(2) [of 2 "sg_first_seq ?s"] size_bounds(2) [of 3 "sg_last_seq ?s"]
      size_bounds(2) [of 4 "sg_size ?s"] by (simp add: size_log_segment_ref_def)
qed

lemma sample_next_wf: "wf_manifest (next_manifest manifest_zero 1 sample_batch ''i'' 0)"
proof -
  let ?b = "segment_body 1 sample_batch" let ?m = "next_manifest manifest_zero 1 sample_batch ''i'' 0"
  have segs: "mf_log_segments ?m = [new_segment 1 1 ?b]" and head: "mf_head_seq ?m = 1" and packs: "mf_packs ?m = []" "mf_settings ?m = None"
    by (simp_all add: next_manifest_def build_next_manifest_def new_segment_def sample_batch_def manifest_zero_def Let_def
        build_entry_def sample_job_def added_packs_def last_settings_def log_entry_zero_def)
  have "wf_log_segment_ref (new_segment 1 1 ?b)"
    using size_new_segment [of 1 1 ?b] wf_segment_key(1) by (simp add: wf_log_segment_ref_def) (simp add: new_segment_def)
  then show ?thesis
    using size_new_segment [of 1 1 ?b] size_bounds(1) [of "size_log_segment_ref (new_segment 1 1 ?b)"] sz_time_le [of "ts_ptr 0"]
      size_bounds(2) [of 4 1] size_bounds(2) [of 11 1] size_bounds(3) [of 10 "''i''"]
    by (simp add: wf_manifest_def size_manifest_def segs head packs)
      (simp add: next_manifest_def build_next_manifest_def manifest_zero_def Let_def sz_sub_def sz_subs_def
        wf_str_def bytes_of_def byte_of_char_def sz_uint_def [of _ 0] sz_string_def [of _ "[]"] word_le_nat_alt)
qed

lemma interleaved_pushes_keep_log_witness:
  "\<exists>W v b m. (wstep mem_api ''o/r'' True ^^ 5) (fresh_world fresh_store []) W
    \<and> mem_look (w_store W) (manifest_key ''o/r'') = Some (v, b) \<and> decode_manifest b = Inr m
    \<and> map le_seq (w_hist W) = [1] \<and> log_stored (mem_look (w_store W)) ''o/r'' m (w_hist W)"
proof -
  have start: "mem_inv fresh_store" "mem_room 5 fresh_store"
    "mem_look fresh_store (manifest_key ''o/r'') = Some (decimal 1, marshal_manifest manifest_zero)"
    "decode_manifest (marshal_manifest manifest_zero) = Inr manifest_zero" "log_stored (mem_look fresh_store) ''o/r'' manifest_zero []"
    using fresh_store_facts decode_manifest_zero by (simp_all add: log_stored_def in_order_def log_ok_def manifest_zero_def)
  obtain W where W: "(wstep mem_api ''o/r'' True ^^ 5) (fresh_world fresh_store []) W" "map le_seq (w_hist W) = [1]"
    using memory_publisher.lone_push_run [OF start(1) _ start(3,4), of sample_batch "''i''" 0 True "[]"] sample_batch_fits sample_next_wf
      fresh_store_facts(2) fresh_store_facts(4)
    by (auto simp: manifest_zero_def sample_batch_def)
  obtain v b m where "mem_look (w_store W) (manifest_key ''o/r'') = Some (v, b)" "decode_manifest b = Inr m"
    "log_stored (mem_look (w_store W)) ''o/r'' m (w_hist W)"
    using interleaved_pushes_keep_log [OF start W(1)] by blast
  with W show ?thesis by (intro exI conjI)
qed

lemma sample_batch_fits_at: "unat g + 1 \<le> 2 ^ 64 \<Longrightarrow> batch_fits g sample_batch"
proof -
  assume g: "unat g + 1 \<le> 2 ^ 64"
  have e: "(build_entry ''i'' 0 1 sample_job)\<lparr>le_seq := g\<rparr> = log_entry_zero\<lparr>le_seq := g, le_kind := entry_kind_ref_update, le_writer := ''i'',
      le_txn := Some \<lparr>tx_updates = [sample_update], tx_push_options = [], tx_atomic = False\<rparr>, le_created_at := ts_ptr 0\<rparr>"
    by (simp add: build_entry_def sample_job_def log_entry_zero_def Let_def)
  have "wf_entry ((build_entry ''i'' 0 1 sample_job)\<lparr>le_seq := g\<rparr>)"
    unfolding e
    using uvarint_len_le [of g] uvarint_len_le [of 3] sz_time_le [of "ts_ptr 0"]
    by (simp add: wf_entry_def max_frame_bytes_def wf_log_entry_def log_entry_zero_def size_log_entry_def sz_defs
        wf_str_def bytes_of_def byte_of_char_def wf_map_def sz_map_def sorted_keys_def wf_ref_transaction_def size_ref_transaction_def
        wf_ref_update_def size_ref_update_def sample_update_def sample_oid_def Let_def)
  then show ?thesis using g sample_job_entry(3) by (simp add: batch_fits_def sample_batch_def)
qed

text \<open>
  C4: A sweep can delete a committed push. The sweep of a failed batch takes the list of kept segments
  from a manifest it read earlier, so a publisher that was only slow, not dead, can commit its
  segment after that read and lose it to the delete that follows: the push was answered, the stored
  manifest lists its segment, and the segment is gone. One slow publisher and one failing publisher
  that burned its slot are enough, with every request of either answered correctly.
\<close>

theorem unsafe_sweep_loses_push:
  fixes m :: manifest and es :: "log_entry list" and w :: string and now :: go_time
  assumes "mem_inv s" and "mem_room 2 s" and "mem_look s (manifest_key rid) = Some (v, b)" and "decode_manifest b = Inr m"
    and "log_stored (mem_look s) rid m hist" and "mem_look s (slot_key rid (mf_head_seq m + 1)) = None"
    and "unat (mf_head_seq m) + 2 < 2 ^ 64" and "batch_fits (mf_head_seq m + 1) es"
    and "wf_manifest (next_manifest m (mf_head_seq m + 1) es w now)"
  shows "\<exists>W nv c m'. wsteps mem_api rid False (fresh_world s hist) W
    \<and> w_hist W = hist @ map canon_log_entry (renumber (mf_head_seq m + 1) es)
    \<and> mem_look (w_store W) (manifest_key rid) = Some (nv, c) \<and> decode_manifest c = Inr m'
    \<and> log_segment_key (mf_head_seq m + 1) \<in> listed_keys m' \<and> mem_look (w_store W) (slot_key rid (mf_head_seq m + 1)) = None"
proof -
  let ?next_m = "next_manifest m (mf_head_seq m + 1) es w now"
  obtain W nv where W: "wsteps mem_api rid False (fresh_world s hist) W"
    "w_hist W = hist @ map canon_log_entry (renumber (mf_head_seq m + 1) es)"
    "mem_look (w_store W) (manifest_key rid) = Some (nv, marshal_manifest ?next_m)"
    "mem_look (w_store W) (slot_key rid (mf_head_seq m + 1)) = None"
    using memory_publisher.unsafe_sweep_run [OF assms] by blast
  have "log_ok m" using assms(5) by (simp add: log_stored_def)
  moreover have "mf_head_seq m < mf_head_seq m + 1" using succ_word_above assms(7) by simp
  ultimately have "log_segment_key (mf_head_seq m + 1) \<in> listed_keys (canon_manifest ?next_m)"
    using next_manifest_view [of m "mf_head_seq m + 1" es w now] assms(8)
    by (simp add: listed_keys_def canon_manifest_def)
  then show ?thesis using W marshal_roundtrip(1) [OF assms(9)] by blast
qed

lemma unsafe_sweep_loses_push_witness:
  "\<exists>W nv c m'. wsteps mem_api ''o/r'' False (fresh_world fresh_store []) W \<and> map le_seq (w_hist W) = [1]
    \<and> mem_look (w_store W) (manifest_key ''o/r'') = Some (nv, c) \<and> decode_manifest c = Inr m'
    \<and> log_segment_key 1 \<in> listed_keys m' \<and> mem_look (w_store W) (slot_key ''o/r'' 1) = None"
proof -
  have "log_stored (mem_look fresh_store) ''o/r'' manifest_zero []"
    by (simp add: log_stored_def in_order_def log_ok_def manifest_zero_def)
  from unsafe_sweep_loses_push [OF fresh_store_facts(1) _ fresh_store_facts(3) decode_manifest_zero this,
      of sample_batch "''i''" 0] sample_batch_fits sample_next_wf fresh_store_facts(2,4)
  obtain W nv c m' where "wsteps mem_api ''o/r'' False (fresh_world fresh_store []) W"
    "w_hist W = [] @ map canon_log_entry (renumber 1 sample_batch)" "mem_look (w_store W) (manifest_key ''o/r'') = Some (nv, c)"
    "decode_manifest c = Inr m'" "log_segment_key 1 \<in> listed_keys m'" "mem_look (w_store W) (slot_key ''o/r'' 1) = None"
    by (auto simp: manifest_zero_def)
  then show ?thesis by (intro exI conjI) (simp_all add: sample_batch_def)
qed

text \<open>
  C3: The ladder is one of these runs. When the slot claim of a publisher succeeds and its manifest
  swap returns, some sequence of steps of this publisher alone takes the world to the store that the
  swap and, unless it restarts, the sweep leave, with the phase and the held manifest of the
  result; nobody else moves. So what holds of all interleavings holds of the ladder's functions.
\<close>

theorem ladder_is_a_run:
  assumes i: "w_phase W i = Syncing es bs" "w_base W i = Some (m, v)"
    and claim: "claim_slot fuel api rid es (mf_head_seq m + 1) 0 bs (w_store W) = Some (s1, Claimed f key sv body, bs')"
    and swap: "cas_manifest api rid v key sv next_m s1 = (s2, res)" and next_m: "next_m = next_manifest m f es w now" "wf_manifest next_m"
    and bounds: "\<And>j. j \<le> max_burns \<Longrightarrow> batch_fits (mf_head_seq m + 1 + word_of_nat j) es" "unat (mf_head_seq m) + 10 < 2 ^ 64"
  shows "\<exists>W'. wsteps api rid False W W' \<and> w_store W' = (if res = CasRestart then s2 else sweep_burned api rid bs' s2)
    \<and> w_phase W' = (w_phase W)(i := if res = CasRestart then Syncing es bs' else Idle)
    \<and> w_base W' = (w_base W)(i := swapped_base next_m res (w_base W i)) \<and> body = segment_body f es"
proof -
  let ?f = "mf_head_seq m + 1" let ?W1 = "at_phase i (Claiming (m, v) es ?f 0 bs) (w_store W) W"
  let ?W2 = "at_phase i (Holding (m, v) es f sv bs') s1 W"
  have f: "unat ?f = unat (mf_head_seq m) + 1" using unat_add_small [of "mf_head_seq m" 1] bounds(2) by simp
  have one: "wstep api rid False W ?W1" using attempt [OF i] bounds(2) by simp
  have two: "wsteps api rid False ?W1 ?W2 \<and> key = log_segment_key f \<and> body = segment_body f es"
    using claim_steps [OF claim, of ?W1 i "(m, v)" False] bounds f by (simp add: max_burns_def)
  have "\<exists>W'. wsteps api rid False ?W2 W' \<and> w_store W' = s2 \<and> w_phase W' = (w_phase ?W2)(i := swapped_phase es bs' res)
      \<and> w_base W' = (w_base ?W2)(i := swapped_base next_m res (w_base ?W2 i))"
    unfolding next_m(1)
    by (rule swap_steps [of api rid v f sv m es w now s1 s2 res]) (use swap two next_m in simp_all)
  then obtain W3 where W3: "wsteps api rid False ?W2 W3" "w_store W3 = s2" "w_phase W3 = (w_phase W)(i := swapped_phase es bs' res)"
    "w_base W3 = (w_base W)(i := swapped_base next_m res (w_base W i))" by auto
  have three: "wsteps api rid False W W3" using one two W3(1) by (auto intro: step_then rtranclp_trans)
  show ?thesis
  proof (cases res)
    case CasRestart
    with three W3 two show ?thesis by (intro exI [of _ W3]) simp
  next
    case (CasCommitted nv)
    with W3 sweep_steps [of W3 i bs' s2 api rid] three two show ?thesis
      by (intro exI [of _ "at_phase i Idle (sweep_burned api rid bs' s2) W3"]) (auto intro: rtranclp_trans)
  next
    case (CasError e)
    with W3 sweep_steps [of W3 i bs' s2 api rid] three two show ?thesis
      by (intro exI [of _ "at_phase i Idle (sweep_burned api rid bs' s2) W3"]) (auto intro: rtranclp_trans)
  qed
qed

lemma ladder_is_a_run_witness:
  "\<exists>W' s nv. wsteps mem_api ''o/r'' False
      (at_phase 0 (Syncing sample_batch []) fresh_store (holds_base 0 (manifest_zero, decimal 1) (fresh_world fresh_store []))) W'
    \<and> w_store W' = s \<and> w_phase W' 0 = Idle \<and> w_base W' 0 = Some (next_manifest manifest_zero 1 sample_batch ''i'' 0, nv)
    \<and> mem_look s (manifest_key ''o/r'') = Some (nv, marshal_manifest (next_manifest manifest_zero 1 sample_batch ''i'' 0))"
proof -
  let ?next_m = "next_manifest manifest_zero 1 sample_batch ''i'' 0"
  let ?W = "at_phase 0 (Syncing sample_batch []) fresh_store (holds_base 0 (manifest_zero, decimal 1) (fresh_world fresh_store []))"
  have head: "mf_head_seq manifest_zero = 0" by (simp add: manifest_zero_def)
  have "mem_room (Suc (Suc 0)) fresh_store" "mem_look fresh_store (repo_key ''o/r'' (log_segment_key 1)) = None"
    using fresh_store_facts by simp_all
  from memory_publisher.claim_free_slot [OF fresh_store_facts(1) this, of 0 sample_batch 0 "[]"] obtain s1 sv where
    s1: "claim_slot (Suc 0) mem_api ''o/r'' sample_batch 1 0 [] fresh_store
        = Some (s1, Claimed 1 (log_segment_key 1) sv (encode_segment (renumber 1 sample_batch)), [])" "mem_inv s1" "mem_room (Suc 0) s1"
      "mem_look s1 = (mem_look fresh_store)(repo_key ''o/r'' (log_segment_key 1) \<mapsto> (sv, encode_segment (renumber 1 sample_batch)))"
    by blast
  have "mem_look s1 (manifest_key ''o/r'') = Some (decimal 1, marshal_manifest manifest_zero)"
    using s1(4) fresh_store_facts(3) by simp
  from memory_publisher.cas_current [OF s1(2,3) this] obtain s2 nv where
    s2: "cas_manifest mem_api ''o/r'' (decimal 1) (log_segment_key 1) sv ?next_m s1 = (s2, CasCommitted nv)"
      "mem_look s2 = (mem_look s1)(manifest_key ''o/r'' \<mapsto> (nv, marshal_manifest ?next_m))" by blast
  have fits: "batch_fits (mf_head_seq manifest_zero + 1 + word_of_nat j) sample_batch" if "j \<le> max_burns" for j
  proof -
    have "unat (1 + word_of_nat j :: u64) = 1 + j" using unat_add_small [of 1 j] that by (simp add: max_burns_def)
    then show ?thesis using that by (intro sample_batch_fits_at) (simp add: head max_burns_def)
  qed
  from ladder_is_a_run [of ?W 0 sample_batch "[]" manifest_zero "decimal 1" "Suc 0" mem_api "''o/r''" s1 1 "log_segment_key 1" sv
      "encode_segment (renumber 1 sample_batch)" "[]" ?next_m s2 "CasCommitted nv" "''i''" 0, OF _ _ _ _ refl sample_next_wf fits] s1(1) s2(1)
  obtain W' where W': "wsteps mem_api ''o/r'' False ?W W'" "w_store W' = sweep_burned mem_api ''o/r'' [] s2"
    "w_phase W' = (w_phase ?W)(0 := Idle)" "w_base W' = (w_base ?W)(0 := Some (?next_m, nv))"
    by (auto simp: head simp del: claim_slot.simps)
  then show ?thesis using s2(2) by (intro exI [of _ W'] exI [of _ s2] exI [of _ nv]) (simp add: sweep_burned_def)
qed

end
