(* ===== verification/Pktline.thy ===== *)
theory Pktline
  imports Refs Keys
begin

text \<open>
  Git's wire framing: \<^verbatim>\<open>internal/git/pktline.go\<close>, and the parts of the standard library's
  \<^verbatim>\<open>strings\<close> package the protocol code splits its lines with. A line is four hexadecimal digits,
  the length with the digits included, and the payload; lengths 0, 1 and 2 are markers. A function
  that can panic returns \<open>None\<close> for it.

  A \<^verbatim>\<open>PktReader\<close> is the rest of its input, so \<^verbatim>\<open>Next\<close> is a function from the input to the packet
  and what is left; reading errors other than the end of the input are not modelled.
\<close>

section \<open>Encoding\<close>

definition max_payload :: nat where "max_payload = 65516"
definition max_pkt_total :: nat where "max_pkt_total = 65520"

datatype pkt_kind = PktData | PktFlush | PktDelim | PktResEnd

definition hex_byte :: "nat \<Rightarrow> u8" where
  "hex_byte v = byte_of_char (hex_digit (v mod 16))"

definition pkt_length :: "nat \<Rightarrow> bytes" where
  "pkt_length n = [hex_byte (n div 4096), hex_byte (n div 256), hex_byte (n div 16), hex_byte n]"

definition data_pkt :: "bytes \<Rightarrow> bytes option" where
  "data_pkt p = (if max_payload < length p then None else Some (pkt_length (length p + 4) @ p))"

definition pkt :: "string \<Rightarrow> bytes option" where
  "pkt s = data_pkt (bytes_of (if suffix [CHR 0x0A] s then s else s @ [CHR 0x0A]))"

definition pkt_bytes :: "bytes \<Rightarrow> bytes option" where
  "pkt_bytes p = data_pkt p"

definition flush_pkt :: bytes where "flush_pkt = bytes_of ''0000''"
definition delim_pkt :: bytes where "delim_pkt = bytes_of ''0001''"
definition response_end_pkt :: bytes where "response_end_pkt = bytes_of ''0002''"

section \<open>Decoding\<close>

datatype pkt_error =
  PktEof
| TruncatedLength
| NonHexLength bytes
| InvalidLength3
| LengthExceeds nat
| TruncatedPayload
| BadBand u8

definition hex_value :: "u8 \<Rightarrow> nat option" where
  "hex_value c =
     (if 48 \<le> c \<and> c \<le> 57 then Some (unat (c - 48))
      else if 97 \<le> c \<and> c \<le> 102 then Some (unat (c - 97) + 10)
      else if 65 \<le> c \<and> c \<le> 70 then Some (unat (c - 65) + 10)
      else None)"

fun parse_hex :: "nat \<Rightarrow> bytes \<Rightarrow> nat option" where
  "parse_hex n [] = Some n"
| "parse_hex n (c # cs) = (case hex_value c of None \<Rightarrow> None | Some v \<Rightarrow> parse_hex (n * 16 + v) cs)"

definition parse_hex4 :: "bytes \<Rightarrow> nat option" where
  "parse_hex4 b = parse_hex 0 b"

text \<open>\<^verbatim>\<open>io.ReadFull\<close> of four bytes, then of the payload.\<close>

definition next_pkt :: "bytes \<Rightarrow> pkt_error + bytes \<times> pkt_kind \<times> bytes" where
  "next_pkt inp =
     (if inp = [] then Inl PktEof
      else if length inp < 4 then Inl TruncatedLength
      else
        let hdr = take 4 inp; rest = drop 4 inp in
        case parse_hex4 hdr of
          None \<Rightarrow> Inl (NonHexLength hdr)
        | Some n \<Rightarrow>
            if n = 0 then Inr ([], PktFlush, rest)
            else if n = 1 then Inr ([], PktDelim, rest)
            else if n = 2 then Inr ([], PktResEnd, rest)
            else if n = 3 then Inl InvalidLength3
            else if max_pkt_total < n then Inl (LengthExceeds n)
            else if length rest < n - 4 then Inl TruncatedPayload
            else Inr (take (n - 4) rest, PktData, drop (n - 4) rest))"

lemma next_pkt_shorter: "next_pkt inp = Inr (p, k, rest) \<Longrightarrow> length rest < length inp"
  by (auto simp: next_pkt_def Let_def split: if_splits option.splits)

function read_all_pkts :: "bytes \<Rightarrow> bytes list \<times> pkt_error option" where
  "read_all_pkts inp =
     (case next_pkt inp of
        Inl e \<Rightarrow> ([], if e = PktEof then None else Some e)
      | Inr (p, kind, rest) \<Rightarrow>
          if kind = PktFlush then ([], None)
          else if kind \<noteq> PktData then read_all_pkts rest
          else case read_all_pkts rest of (out, e) \<Rightarrow> (p # out, e))"
  by pat_completeness auto
termination
  by (relation "measure length") (auto dest: next_pkt_shorter)

declare read_all_pkts.simps [simp del]

section \<open>Side bands\<close>

text \<open>A chunk leaves room for the band byte, so no frame is ever too long.\<close>

function encode_sideband :: "u8 \<Rightarrow> bytes \<Rightarrow> bytes" where
  "encode_sideband band payload =
     (if payload = [] then []
      else
        let chunk = take (max_payload - 1) payload
        in pkt_length (length chunk + 5) @ band # chunk @ encode_sideband band (drop (length chunk) payload))"
  by pat_completeness auto
termination
  by (relation "measure (\<lambda>(_, p). length p)") (auto simp: max_payload_def)

declare encode_sideband.simps [simp del]

function sideband_decode :: "bytes \<Rightarrow> (bytes \<times> bytes) \<times> pkt_error option" where
  "sideband_decode inp =
     (case next_pkt inp of
        Inl e \<Rightarrow> (([], []), if e = PktEof then None else Some e)
      | Inr (p, kind, rest) \<Rightarrow>
          if kind = PktFlush then (([], []), None)
          else if kind \<noteq> PktData \<or> p = [] then sideband_decode rest
          else if hd p = 1 then
            (case sideband_decode rest of ((pl, ms), e) \<Rightarrow> ((tl p @ pl, ms), e))
          else if hd p = 2 \<or> hd p = 3 then
            (case sideband_decode rest of ((pl, ms), e) \<Rightarrow> ((pl, tl p @ ms), e))
          else (([], []), Some (BadBand (hd p))))"
  by pat_completeness auto
termination
  by (relation "measure length") (auto dest: next_pkt_shorter)

declare sideband_decode.simps [simp del]

definition first_nul :: "bytes \<Rightarrow> bytes \<times> bytes" where
  "first_nul line =
     (if 0 \<in> set line then (takeWhile (\<lambda>b. b \<noteq> 0) line, tl (dropWhile (\<lambda>b. b \<noteq> 0) line))
      else (line, []))"

section \<open>Strings\<close>

text \<open>
  The bytes of the white space character a string starts with, 0 when it starts with none:
  \<^verbatim>\<open>unicode.IsSpace\<close> on UTF-8. The first byte of such a character is never inside another
  character, so looking for the bytes finds what decoding the runes finds.
\<close>

definition general_punctuation_space :: "char \<Rightarrow> bool" where
  "general_punctuation_space c \<longleftrightarrow> char_in (CHR 0x80) (CHR 0x8A) c \<or> c \<in> set [CHR 0xA8, CHR 0xA9, CHR 0xAF]"

definition space_len :: "string \<Rightarrow> nat" where
  "space_len s =
     (if s = [] then 0
      else if is_space (hd s) then 1
      else if prefix [CHR 0xC2, CHR 0x85] s \<or> prefix [CHR 0xC2, CHR 0xA0] s then 2
      else if prefix [CHR 0xE1, CHR 0x9A, CHR 0x80] s then 3
      else if prefix [CHR 0xE2, CHR 0x80] s
           \<and> (case drop 2 s of [] \<Rightarrow> False | c # _ \<Rightarrow> general_punctuation_space c) then 3
      else if prefix [CHR 0xE2, CHR 0x81, CHR 0x9F] s \<or> prefix [CHR 0xE3, CHR 0x80, CHR 0x80] s then 3
      else 0)"

text \<open>\<^verbatim>\<open>strings.Fields\<close>; \<open>cur\<close> is the field being read.\<close>

fun str_fields_from :: "string \<Rightarrow> string \<Rightarrow> string list" where
  "str_fields_from cur [] = (if cur = [] then [] else [cur])"
| "str_fields_from cur (c # cs) =
     (case space_len (c # cs) of
        0 \<Rightarrow> str_fields_from (cur @ [c]) cs
      | Suc k \<Rightarrow> (if cur = [] then [] else [cur]) @ str_fields_from [] (drop k cs))"

definition str_fields :: "string \<Rightarrow> string list" where
  "str_fields s = str_fields_from [] s"

text \<open>\<^verbatim>\<open>strings.TrimRight(s, "\n")\<close> and \<^verbatim>\<open>strings.CutPrefix\<close>.\<close>

definition trim_newlines :: "string \<Rightarrow> string" where
  "trim_newlines s = rev (dropWhile (\<lambda>c. c = CHR 0x0A) (rev s))"

definition cut_prefix :: "string \<Rightarrow> string \<Rightarrow> string option" where
  "cut_prefix p s = (if prefix p s then Some (drop (length p) s) else None)"

text \<open>
  \<^verbatim>\<open>strings.EqualFold\<close> by folding both sides: a letter of ASCII to lower case, and the two characters
  outside ASCII that fold to one, the long s (U+017F) to s and the Kelvin sign (U+212A) to k. Other
  characters outside ASCII stand for themselves; the code would also equate their cases.
\<close>

definition lower_ascii :: "char \<Rightarrow> char" where
  "lower_ascii c = (if char_in (CHR ''A'') (CHR ''Z'') c then char_of (of_char c + 32 :: nat) else c)"

fun fold_case :: "string \<Rightarrow> string" where
  "fold_case [] = []"
| "fold_case (c # cs) =
     (if prefix [CHR 0xC5, CHR 0xBF] (c # cs) then CHR ''s'' # fold_case (drop 1 cs)
      else if prefix [CHR 0xE2, CHR 0x84, CHR 0xAA] (c # cs) then CHR ''k'' # fold_case (drop 2 cs)
      else lower_ascii c # fold_case cs)"

definition equal_fold :: "string \<Rightarrow> string \<Rightarrow> bool" where
  "equal_fold s t \<longleftrightarrow> fold_case s = fold_case t"

text \<open>The first occurrence of each string, as every deduplicating loop of the program keeps it.\<close>

fun dedupe_from :: "string list \<Rightarrow> string list \<Rightarrow> string list" where
  "dedupe_from seen [] = []"
| "dedupe_from seen (v # vs) = (if v \<in> set seen then dedupe_from seen vs else v # dedupe_from (v # seen) vs)"

lemma set_dedupe_from: "set (dedupe_from seen vs) = set vs - set seen"
  by (induction vs arbitrary: seen) auto

section \<open>Reading back what was written\<close>

named_theorems pkt_simps \<open>rules that run the packet reader over encoded packets\<close>

lemma hex_value_alt:
  "hex_value c =
     (let n = unat c in
      if 48 \<le> n \<and> n \<le> 57 then Some (n - 48)
      else if 97 \<le> n \<and> n \<le> 102 then Some (n - 97 + 10)
      else if 65 \<le> n \<and> n \<le> 70 then Some (n - 65 + 10) else None)"
  by (simp add: hex_value_def word_le_nat_alt unat_sub Let_def)

lemma hex_value_digit:
  assumes "d < 16"
  shows "hex_value (byte_of_char (hex_digit d)) = Some d"
proof -
  let ?n = "if d < 10 then 48 + d else 87 + d"
  have "?n < 256" using assms by simp
  then have "unat (byte_of_char (hex_digit d)) = ?n"
    by (simp add: byte_of_char_def hex_digit_def unat_of_nat)
  with assms show ?thesis by (simp add: hex_value_alt Let_def)
qed

lemma hex_value_hex_byte: "hex_value (hex_byte v) = Some (v mod 16)"
  by (simp add: hex_byte_def hex_value_digit)

lemma parse_hex4_length: "n < 65536 \<Longrightarrow> parse_hex4 (pkt_length n) = Some n"
proof -
  have "n = 16 * (16 * (16 * (n div 16 div 16 div 16) + n div 16 div 16 mod 16) + n div 16 mod 16) + n mod 16"
    by simp
  then show "parse_hex4 (pkt_length n) = Some n" if "n < 65536"
    using that by (simp add: parse_hex4_def pkt_length_def hex_value_hex_byte algebra_simps flip: div_mult2_eq)
qed

lemma length_pkt_length [simp]: "length (pkt_length n) = 4"
  by (simp add: pkt_length_def)

lemma pkt_length_not_Nil [simp]: "pkt_length n \<noteq> []"
  by (simp add: pkt_length_def)

lemma next_pkt_header:
  assumes "4 \<le> n" "n \<le> max_pkt_total"
  shows "next_pkt (pkt_length n @ rest)
      = (if length rest < n - 4 then Inl TruncatedPayload else Inr (take (n - 4) rest, PktData, drop (n - 4) rest))"
  using assms parse_hex4_length [of n] by (simp add: next_pkt_def max_pkt_total_def)

lemma next_data_pkt [pkt_simps]: "data_pkt p = Some b \<Longrightarrow> next_pkt (b @ rest) = Inr (p, PktData, rest)"
  by (auto simp: data_pkt_def next_pkt_header max_payload_def max_pkt_total_def split: if_splits)

lemma next_flush_pkt [pkt_simps]: "next_pkt (flush_pkt @ rest) = Inr ([], PktFlush, rest)"
  by (simp add: next_pkt_def flush_pkt_def bytes_of_def byte_of_char_def parse_hex4_def hex_value_def)

lemma next_pkt_Nil [pkt_simps]: "next_pkt [] = Inl PktEof"
  by (simp add: next_pkt_def)

lemma read_all_data [pkt_simps]:
  "data_pkt p = Some b \<Longrightarrow> read_all_pkts (b @ rest) = (case read_all_pkts rest of (out, e) \<Rightarrow> (p # out, e))"
  by (simp add: read_all_pkts.simps [of "b @ rest"] pkt_simps)

lemma read_all_flush [pkt_simps]: "read_all_pkts (flush_pkt @ rest) = ([], None)"
  by (simp add: read_all_pkts.simps [of "flush_pkt @ rest"] pkt_simps)

text \<open>A list of payloads written one after the other, \<open>None\<close> when one of them is too long.\<close>

fun pkts :: "bytes list \<Rightarrow> bytes option" where
  "pkts [] = Some []"
| "pkts (p # ps) =
     (case data_pkt p of None \<Rightarrow> None | Some b \<Rightarrow> (case pkts ps of None \<Rightarrow> None | Some bs \<Rightarrow> Some (b @ bs)))"

lemma pkts_eq_Some: "(\<exists>b. pkts ps = Some b) \<longleftrightarrow> (\<forall>p\<in>set ps. length p \<le> max_payload)"
  by (induction ps) (auto simp: data_pkt_def split: option.splits)

lemma read_all_pkts_pkts: "pkts ps = Some b \<Longrightarrow> read_all_pkts (b @ flush_pkt @ rest) = (ps, None)"
  by (induction ps arbitrary: b) (auto simp: pkt_simps split: option.splits)

lemma sideband_frame:
  assumes "length chunk < max_payload"
  shows "sideband_decode (pkt_length (length chunk + 5) @ band # chunk @ rest) =
    (if band = 1 then (case sideband_decode rest of ((pl, ms), e) \<Rightarrow> ((chunk @ pl, ms), e))
     else if band = 2 \<or> band = 3 then (case sideband_decode rest of ((pl, ms), e) \<Rightarrow> ((pl, chunk @ ms), e))
     else (([], []), Some (BadBand band)))"
  using assms
  by (simp add: sideband_decode.simps [of "pkt_length (length chunk + 5) @ band # chunk @ rest"] next_pkt_header
      max_payload_def max_pkt_total_def)

lemma sideband_decode_encode:
  "band \<in> {1, 2, 3} \<Longrightarrow> sideband_decode (encode_sideband band p @ rest) =
    (case sideband_decode rest of ((pl, ms), e) \<Rightarrow> if band = 1 then ((p @ pl, ms), e) else ((pl, p @ ms), e))"
proof (induction band p rule: encode_sideband.induct)
  case (1 band p)
  show ?case
  proof (cases "p = []")
    case True
    then show ?thesis by (simp add: encode_sideband.simps split: prod.splits)
  next
    case False
    define c d where "c = take (max_payload - 1) p" and "d = drop (length c) p"
    have c: "length c < max_payload" by (simp add: c_def max_payload_def)
    have p: "p = c @ d" by (simp add: c_def d_def min_def)
    have "encode_sideband band p @ rest = pkt_length (length c + 5) @ band # c @ encode_sideband band d @ rest"
      using False by (simp add: encode_sideband.simps [of band p] Let_def c_def d_def)
    moreover obtain pl ms e where r: "sideband_decode rest = ((pl, ms), e)" by (metis surj_pair)
    moreover have "sideband_decode (encode_sideband band d @ rest)
        = (if band = 1 then ((d @ pl, ms), e) else ((pl, d @ ms), e))"
      using "1.IH" [OF False refl "1.prems"] unfolding c_def d_def r by simp
    ultimately show ?thesis
      using "1.prems" by (cases "band = 1") (auto simp: sideband_frame [OF c] p)
  qed
qed

end
