(* ===== verification/Protocol.thy ===== *)
theory Protocol
  imports Pktline
begin

text \<open>
  The smart protocol on top of the packets: \<^verbatim>\<open>internal/git/advert.go\<close>, the parser and the report of
  \<^verbatim>\<open>receive.go\<close>, and the guards of \<^verbatim>\<open>upload.go\<close>. The repository a function works on appears as
  what it reads of it: the object format and the snapshot of the refs. Spawning git is not modelled,
  and neither are the readers of the SSH transport, which can fail in the middle.
\<close>

section \<open>Formats, services and versions\<close>

datatype object_format = Sha1 | Sha256

definition format_string :: "object_format \<Rightarrow> string" where
  "format_string f = (if f = Sha256 then ''sha256'' else ''sha1'')"

definition object_format_from :: "string \<Rightarrow> string + object_format" where
  "object_format_from s =
     (if s = ''sha256'' then Inr Sha256 else if s = ''sha1'' then Inr Sha1 else Inl s)"

definition zero_hex :: "object_format \<Rightarrow> string" where
  "zero_hex f = replicate (if f = Sha256 then 64 else 40) (CHR ''0'')"

datatype service = UploadPack | ReceivePack

definition service_string :: "service \<Rightarrow> string" where
  "service_string s = (if s = ReceivePack then ''git-receive-pack'' else ''git-upload-pack'')"

definition service_from_name :: "string \<Rightarrow> service option" where
  "service_from_name s =
     (if s = ''git-upload-pack'' then Some UploadPack
      else if s = ''git-receive-pack'' then Some ReceivePack else None)"

definition protocol_version :: "string \<Rightarrow> nat" where
  "protocol_version header = (if list_ex (\<lambda>tok. equal_fold tok ''version=2'') (str_fields header) then 2 else 0)"

section \<open>Advertisements\<close>

text \<open>
  \<^verbatim>\<open>b.Write(Pkt(line))\<close> for each line in turn: \<open>None\<close> is the panic of a line that is too long.
\<close>

fun lines_pkts :: "string list \<Rightarrow> bytes option" where
  "lines_pkts [] = Some []"
| "lines_pkts (l # ls) =
     (case pkt l of None \<Rightarrow> None | Some b \<Rightarrow> (case lines_pkts ls of None \<Rightarrow> None | Some bs \<Rightarrow> Some (b @ bs)))"

definition with_flush :: "bytes option \<Rightarrow> bytes option" where
  "with_flush b = (case b of None \<Rightarrow> None | Some bs \<Rightarrow> Some (bs @ flush_pkt))"

definition caps_receive_pack :: string where
  "caps_receive_pack =
     ''report-status report-status-v2 delete-refs side-band-64k quiet atomic ofs-delta push-options object-format=''"

definition caps_upload_pack :: string where
  "caps_upload_pack =
     ''multi_ack_detailed side-band-64k thin-pack ofs-delta shallow deepen-since deepen-not no-progress ''
     @ ''include-tag allow-tip-sha1-in-want allow-reachable-sha1-in-want filter object-format=''"

definition agent_suffix :: string where "agent_suffix = '' agent=walgit/''"

definition advert_lines :: "string \<Rightarrow> bool \<Rightarrow> ref_entry \<Rightarrow> string list" where
  "advert_lines caps is_first e =
     (re_oid e @ '' '' @ re_name e @ (if is_first then CHR 0x00 # caps else []))
     # (if re_peeled e \<noteq> [] then [re_peeled e @ '' '' @ re_name e @ ''{}''] else [])"

definition v0_advertisement :: "git_snapshot \<Rightarrow> object_format \<Rightarrow> service \<Rightarrow> string \<Rightarrow> bytes option" where
  "v0_advertisement snap fmt svc version =
     (let caps = (if svc = ReceivePack then caps_receive_pack else caps_upload_pack)
                 @ format_string fmt @ agent_suffix @ version;
          nul = [CHR 0x00]
      in with_flush (lines_pkts
           (case gs_refs snap of
              [] \<Rightarrow> [zero_hex fmt @ '' capabilities'' @ [CHR 0x5E] @ ''{}'' @ nul @ caps]
            | e # es \<Rightarrow>
                advert_lines caps True e @ concat (map (advert_lines caps False) es)
                @ (if svc = UploadPack \<and> gs_head_oid snap \<noteq> [] then [gs_head_oid snap @ '' HEAD''] else []))))"

definition capability_advert :: "object_format \<Rightarrow> string \<Rightarrow> bytes option" where
  "capability_advert fmt version =
     with_flush (lines_pkts
       [''version 2'', ''agent=walgit/'' @ version, ''ls-refs=unborn'',
        ''fetch=thin-pack ofs-delta sideband-all wait-for-done shallow deepen-since deepen-not ''
          @ ''deepen-relative filter include-tag'',
        ''object-format='' @ format_string fmt])"

definition advertisement :: "git_snapshot \<Rightarrow> object_format \<Rightarrow> service \<Rightarrow> bool \<Rightarrow> string \<Rightarrow> bytes option" where
  "advertisement snap fmt svc v2 version =
     (if v2 then capability_advert fmt version else v0_advertisement snap fmt svc version)"

section \<open>ls-refs\<close>

record ls_refs_args =
  la_symrefs :: bool
  la_peel :: bool
  la_unborn :: bool
  la_prefixes :: "string list"

definition ls_refs_arg :: "bytes \<Rightarrow> ls_refs_args \<Rightarrow> ls_refs_args" where
  "ls_refs_arg p args =
     (let line = trim_newlines (string_of p);
          args = (if line = ''symrefs'' then args\<lparr>la_symrefs := True\<rparr>
                  else if line = ''peel'' then args\<lparr>la_peel := True\<rparr>
                  else if line = ''unborn'' then args\<lparr>la_unborn := True\<rparr>
                  else args)
      in case cut_prefix ''ref-prefix '' line of
           Some v \<Rightarrow> args\<lparr>la_prefixes := la_prefixes args @ [v]\<rparr>
         | None \<Rightarrow>
             (case cut_prefix ''ref-prefix='' line of
                Some v \<Rightarrow> args\<lparr>la_prefixes := la_prefixes args @ [v]\<rparr>
              | None \<Rightarrow> args))"

definition parse_ls_refs_args :: "bytes list \<Rightarrow> ls_refs_args" where
  "parse_ls_refs_args ps =
     fold ls_refs_arg ps \<lparr>la_symrefs = False, la_peel = False, la_unborn = False, la_prefixes = []\<rparr>"

definition emit_line :: "string \<Rightarrow> string \<Rightarrow> string \<Rightarrow> string \<Rightarrow> string" where
  "emit_line oid name symref_target peeled =
     oid @ '' '' @ name
     @ (if symref_target \<noteq> [] then '' symref-target:'' @ symref_target else [])
     @ (if peeled \<noteq> [] then '' peeled:'' @ peeled else [])"

definition sym_or :: "bool \<Rightarrow> string \<Rightarrow> string" where
  "sym_or cond target = (if cond then target else [])"

definition head_advertised :: "git_snapshot \<Rightarrow> string list \<Rightarrow> bool" where
  "head_advertised snap ps \<longleftrightarrow>
     ps = []
     \<or> list_ex (\<lambda>p. p = ''HEAD'' \<or> prefix p ''HEAD'' \<or> (gs_head_target snap \<noteq> [] \<and> prefix p (gs_head_target snap))) ps"

definition head_lines :: "git_snapshot \<Rightarrow> ls_refs_args \<Rightarrow> string list" where
  "head_lines snap args =
     (if \<not> head_advertised snap (la_prefixes args) then []
      else if gs_head_target snap \<noteq> [] then
        (let target = gs_head_target snap;
             oid = (if gs_head_oid snap = [] then
                      (case snapshot_get (gs_refs snap) target of Some e \<Rightarrow> re_oid e | None \<Rightarrow> [])
                    else gs_head_oid snap)
         in if oid \<noteq> [] then [emit_line oid ''HEAD'' (if la_symrefs args then target else []) []]
            else if la_unborn args then [emit_line ''unborn'' ''HEAD'' (sym_or (la_symrefs args) target) []]
            else [])
      else if gs_head_oid snap \<noteq> [] then [emit_line (gs_head_oid snap) ''HEAD'' [] []]
      else if la_unborn args \<and> gs_head_target snap \<noteq> [] then
        [emit_line ''unborn'' ''HEAD'' (sym_or (la_symrefs args) (gs_head_target snap)) []]
      else [])"

definition ref_line :: "bool \<Rightarrow> ref_entry \<Rightarrow> string" where
  "ref_line peel e =
     emit_line (re_oid e) (re_name e) []
       (if peel \<and> prefix ''refs/tags/'' (re_name e) \<and> re_peeled e \<noteq> [] then re_peeled e else [])"

text \<open>The hand-written binary search has the steps of \<^verbatim>\<open>sort.Search\<close>.\<close>

definition lower_bound :: "ref_entry list \<Rightarrow> string \<Rightarrow> nat" where
  "lower_bound refs p = search (\<lambda>i. \<not> re_name (refs ! i) < p) 0 (length refs)"

text \<open>The inner loop over one prefix, on the refs from the lower bound on, and the outer loop.\<close>

fun walk_prefix :: "bool \<Rightarrow> string \<Rightarrow> ref_entry list \<Rightarrow> string list \<Rightarrow> string list \<times> string list" where
  "walk_prefix peel p [] seen = ([], seen)"
| "walk_prefix peel p (e # es) seen =
     (let name = re_name e in
      if \<not> prefix p name then (if p < name then ([], seen) else walk_prefix peel p es seen)
      else if name \<in> set seen then walk_prefix peel p es seen
      else case walk_prefix peel p es (name # seen) of (ls, seen) \<Rightarrow> (ref_line peel e # ls, seen))"

fun walk_prefixes :: "bool \<Rightarrow> ref_entry list \<Rightarrow> string list \<Rightarrow> string list \<Rightarrow> string list" where
  "walk_prefixes peel refs [] seen = []"
| "walk_prefixes peel refs (p # ps) seen =
     (case walk_prefix peel p (drop (lower_bound refs p) refs) seen of
        (ls, seen) \<Rightarrow> ls @ walk_prefixes peel refs ps seen)"

definition ls_refs :: "git_snapshot \<Rightarrow> ls_refs_args \<Rightarrow> bytes option" where
  "ls_refs snap args =
     with_flush (lines_pkts
       (head_lines snap args
        @ (if la_prefixes args = [] then map (ref_line (la_peel args)) (gs_refs snap)
           else walk_prefixes (la_peel args) (gs_refs snap) (sort (la_prefixes args)) [])))"

section \<open>Receiving a push\<close>

record push_command =
  pc_old :: string
  pc_new :: string
  pc_ref :: string

record push_request =
  pq_commands :: "push_command list"
  pq_caps :: "string list"
  pq_push_options :: "string list"
  pq_pack :: bytes
  pq_caps_raw :: string

text \<open>
  The errors of the parser, all \<^verbatim>\<open>GitErrProtocol\<close> except \<open>BadRefName\<close>, which is
  \<^verbatim>\<open>GitErrInvalidInput\<close>.
\<close>

datatype push_error =
  RequestError pkt_error
| BadCommandLine string
| BadRefName string
| FormatMismatch string object_format
| PushOptionsError pkt_error

definition push_has :: "push_request \<Rightarrow> string \<Rightarrow> bool" where
  "push_has r cap \<longleftrightarrow> cap \<in> set (pq_caps r)"

definition check_object_format :: "object_format \<Rightarrow> string list \<Rightarrow> push_error option" where
  "check_object_format fmt caps =
     (case List.find (\<lambda>c. prefix ''object-format='' c \<and> drop 14 c \<noteq> format_string fmt) caps of
        None \<Rightarrow> None
      | Some c \<Rightarrow> Some (FormatMismatch (drop 14 c) fmt))"

text \<open>One command line; the first one carries the capabilities.\<close>

definition parse_command :: "object_format \<Rightarrow> bool \<Rightarrow> bytes \<Rightarrow> push_request \<Rightarrow> push_error + push_request" where
  "parse_command fmt is_first p req =
     (case first_nul p of (line, caps) \<Rightarrow>
        let text = trim_newlines (string_of line);
            raw = trim_newlines (string_of caps);
            req = (if is_first then req\<lparr>pq_caps_raw := raw, pq_caps := str_fields raw\<rparr> else req);
            fs = str_fields text
        in case (if is_first then check_object_format fmt (pq_caps req) else None) of
             Some e \<Rightarrow> Inl e
           | None \<Rightarrow>
               if length fs \<noteq> 3 then Inl (BadCommandLine text)
               else if \<not> valid_ref_name (fs ! 2) then Inl (BadRefName (fs ! 2))
               else Inr (req\<lparr>pq_commands := pq_commands req @ [\<lparr>pc_old = fs ! 0, pc_new = fs ! 1, pc_ref = fs ! 2\<rparr>]\<rparr>))"

function parse_commands :: "object_format \<Rightarrow> bool \<Rightarrow> bytes \<Rightarrow> push_request \<Rightarrow> push_error + push_request \<times> bytes" where
  "parse_commands fmt is_first inp req =
     (case next_pkt inp of
        Inl e \<Rightarrow> Inl (RequestError e)
      | Inr (p, kind, rest) \<Rightarrow>
          if kind = PktFlush then Inr (req, rest)
          else if kind \<noteq> PktData \<or> p = [] then parse_commands fmt is_first rest req
          else case parse_command fmt is_first p req of
                 Inl e \<Rightarrow> Inl e
               | Inr req \<Rightarrow> parse_commands fmt False rest req)"
  by pat_completeness auto
termination
  by (relation "measure (\<lambda>(_, _, inp, _). length inp)") (auto dest: next_pkt_shorter)

declare parse_commands.simps [simp del]

function parse_push_options :: "bytes \<Rightarrow> push_request \<Rightarrow> push_error + push_request \<times> bytes" where
  "parse_push_options inp req =
     (case next_pkt inp of
        Inl e \<Rightarrow> Inl (PushOptionsError e)
      | Inr (p, kind, rest) \<Rightarrow>
          if kind = PktFlush then Inr (req, rest)
          else parse_push_options rest
                 (if kind = PktData
                  then req\<lparr>pq_push_options := pq_push_options req @ [trim_newlines (string_of p)]\<rparr> else req))"
  by pat_completeness auto
termination
  by (relation "measure (\<lambda>(inp, _). length inp)") (auto dest: next_pkt_shorter)

declare parse_push_options.simps [simp del]

definition empty_request :: push_request where
  "empty_request = \<lparr>pq_commands = [], pq_caps = [], pq_push_options = [], pq_pack = [], pq_caps_raw = []\<rparr>"

definition parse_push_commands :: "object_format \<Rightarrow> bytes \<Rightarrow> push_error + push_request \<times> bytes" where
  "parse_push_commands fmt inp =
     rbind (parse_commands fmt True inp empty_request) (\<lambda>(req, rest).
       if push_has req ''push-options'' then parse_push_options rest req else Inr (req, rest))"

definition parse_push_request :: "object_format \<Rightarrow> bytes \<Rightarrow> push_error + push_request" where
  "parse_push_request fmt body =
     rbind (parse_push_commands fmt body) (\<lambda>(req, rest). Inr (req\<lparr>pq_pack := rest\<rparr>))"

definition parse_shallow :: "bytes \<Rightarrow> string list" where
  "parse_shallow body =
     concat (map (\<lambda>p. case cut_prefix ''shallow '' (trim_newlines (string_of p)) of None \<Rightarrow> [] | Some v \<Rightarrow> [v])
              (fst (read_all_pkts body)))"

section \<open>The report\<close>

record ref_report =
  rr_ref :: string
  rr_ok :: bool
  rr_reason :: string

record report =
  rp_unpack_ok :: bool
  rp_unpack_msg :: string
  rp_refs :: "ref_report list"
  rp_sideband :: bool

definition report_lines :: "report \<Rightarrow> string list" where
  "report_lines r =
     (if rp_unpack_ok r then ''unpack ok'' else ''unpack ng '' @ rp_unpack_msg r)
     # map (\<lambda>f. if rr_ok f then ''ok '' @ rr_ref f else ''ng '' @ rr_ref f @ '' '' @ rr_reason f) (rp_refs r)"

definition encode_report :: "report \<Rightarrow> bytes option" where
  "encode_report r =
     (case with_flush (lines_pkts (report_lines r)) of
        None \<Rightarrow> None
      | Some inner \<Rightarrow> Some (if \<not> rp_sideband r then inner else encode_sideband 1 inner @ flush_pkt))"

definition band2 :: "string \<Rightarrow> bytes" where
  "band2 msg = encode_sideband 2 (bytes_of (msg @ [CHR 0x0A]))"

section \<open>What git printed\<close>

text \<open>\<^verbatim>\<open>splitLines\<close> returns the complete lines and the tail that is left.\<close>

fun split_lines :: "string \<Rightarrow> string list \<times> string" where
  "split_lines [] = ([], [])"
| "split_lines (c # cs) =
     (case split_lines cs of (ls, tail) \<Rightarrow>
        if c = CHR 0x0A then ([] # ls, tail)
        else case ls of [] \<Rightarrow> ([], c # tail) | l # ls \<Rightarrow> ((c # l) # ls, tail))"

definition is_hex :: "char \<Rightarrow> bool" where
  "is_hex c \<longleftrightarrow>
     char_in (CHR ''0'') (CHR ''9'') c \<or> char_in (CHR ''a'') (CHR ''f'') c \<or> char_in (CHR ''A'') (CHR ''F'') c"

text \<open>\<open>run\<close> is the run of hexadecimal digits just before the position.\<close>

fun first_missing_from :: "string \<Rightarrow> string \<Rightarrow> string" where
  "first_missing_from run [] =
     (if length run = 40 \<or> length run = 64 then map lower_ascii run else ''unknown'')"
| "first_missing_from run (c # cs) =
     (if is_hex c then first_missing_from (run @ [c]) cs
      else if length run = 40 \<or> length run = 64 then map lower_ascii run
      else first_missing_from [] cs)"

definition first_missing_from_stderr :: "string \<Rightarrow> string" where
  "first_missing_from_stderr stderr = first_missing_from [] stderr"

fun last_hex_token_from :: "string \<Rightarrow> string \<Rightarrow> string \<Rightarrow> string" where
  "last_hex_token_from tok run [] = (if length run = 40 \<or> length run = 64 then map lower_ascii run else tok)"
| "last_hex_token_from tok run (c # cs) =
     (if is_hex c then last_hex_token_from tok (run @ [c]) cs
      else last_hex_token_from (if length run = 40 \<or> length run = 64 then map lower_ascii run else tok) [] cs)"

definition last_hex_token :: "string \<Rightarrow> string" where
  "last_hex_token s = last_hex_token_from [] [] s"

definition is_hex_oid :: "string \<Rightarrow> bool" where
  "is_hex_oid s \<longleftrightarrow> (length s = 40 \<or> length s = 64) \<and> list_all is_hex s"

fun missing_lines :: "string list \<Rightarrow> string list \<Rightarrow> string list" where
  "missing_lines [] missing = missing"
| "missing_lines (l # ls) missing =
     (let fs = str_fields l in
      if length fs = 2 \<and> fs ! 1 = ''missing'' \<and> is_hex_oid (fs ! 0) then
        (if 16 \<le> length missing + 1 then missing @ [fs ! 0] else missing_lines ls (missing @ [fs ! 0]))
      else missing_lines ls missing)"

definition missing_from_batch :: "string \<Rightarrow> string list" where
  "missing_from_batch out = missing_lines (split_char (CHR 0x0A) out) []"

definition dedupe_strings :: "string list \<Rightarrow> string list" where
  "dedupe_strings s = dedupe_from [] s"

section \<open>Guards of a fetch\<close>

record fetch_guards =
  fg_wants :: "string list"
  fg_haves :: "string list"
  fg_deepen :: bool
  fg_filter :: bool
  fg_command :: string

definition guard_line :: "string \<Rightarrow> fetch_guards \<Rightarrow> fetch_guards" where
  "guard_line line g =
     (if prefix ''command='' line then g\<lparr>fg_command := drop 8 line\<rparr>
      else if prefix ''want '' line then g\<lparr>fg_wants := fg_wants g @ [drop 5 line]\<rparr>
      else if prefix ''have '' line then g\<lparr>fg_haves := fg_haves g @ [drop 5 line]\<rparr>
      else if line \<in> set [''thin-pack'', ''ofs-delta'', ''no-progress'', ''include-tag'', ''sideband-all'', ''wait-for-done'']
           \<or> prefix ''shallow '' line \<or> prefix ''want-ref '' line \<or> prefix ''have'' line then g
      else if prefix ''deepen'' line \<or> line \<in> set [''deepen-since'', ''deepen-not'', ''deepen-relative''] then
        g\<lparr>fg_deepen := True\<rparr>
      else if prefix ''filter'' line then g\<lparr>fg_filter := True\<rparr>
      else g)"

function parse_fetch_from :: "bytes \<Rightarrow> fetch_guards \<Rightarrow> pkt_error + fetch_guards" where
  "parse_fetch_from inp g =
     (case next_pkt inp of
        Inl e \<Rightarrow> if e = PktEof then Inr g else Inl e
      | Inr (p, kind, rest) \<Rightarrow>
          parse_fetch_from rest
            (if kind \<noteq> PktData \<or> p = [] then g else guard_line (trim_newlines (string_of p)) g))"
  by pat_completeness auto
termination
  by (relation "measure (\<lambda>(inp, _). length inp)") (auto dest: next_pkt_shorter)

declare parse_fetch_from.simps [simp del]

definition parse_fetch_guards :: "bytes \<Rightarrow> pkt_error + fetch_guards" where
  "parse_fetch_guards body =
     parse_fetch_from body \<lparr>fg_wants = [], fg_haves = [], fg_deepen = False, fg_filter = False, fg_command = []\<rparr>"

text \<open>\<open>CheckMaxWants\<close> returns an error; 0 is no cap.\<close>

definition too_many_wants :: "int \<Rightarrow> fetch_guards \<Rightarrow> bool" where
  "too_many_wants cap g \<longleftrightarrow> 0 < cap \<and> cap < int (length (fg_wants g))"

text \<open>
  The ledger of one-shot grants is an interface without an implementation in the program: its two
  methods are the parameters \<open>can\<close> and \<open>record_grant\<close> on a state of their own.
\<close>

definition check_bundle_require ::
  "('l \<Rightarrow> string \<Rightarrow> string \<Rightarrow> bool) \<Rightarrow> ('l \<Rightarrow> string \<Rightarrow> string \<Rightarrow> 'l) \<Rightarrow> string list \<Rightarrow> repo_id \<Rightarrow> string
     \<Rightarrow> fetch_guards \<Rightarrow> 'l option \<Rightarrow> 'l option \<times> string option" where
  "check_bundle_require can record_grant require repo who g ledger =
     (let name = repo_id_string repo;
          refusal = Some (''ERR walgit: '' @ name @ '' requires bundle-uri clones; use bundle-uri ''
                          @ ''(pass -c transfer.bundleURI=false for shallow/CI fetches)'')
      in if name \<notin> set require then (ledger, None)
         else if fg_haves g \<noteq> [] \<or> fg_deepen g \<or> fg_filter g then (ledger, None)
         else case ledger of
                None \<Rightarrow> (ledger, refusal)
              | Some l \<Rightarrow>
                  if who \<noteq> [] \<and> can l who name
                  then (Some (record_grant l who name), None)
                  else (ledger, refusal))"

definition err_pkt :: "string \<Rightarrow> bytes option" where
  "err_pkt msg = with_flush (lines_pkts [''ERR '' @ msg])"

section \<open>Lines and fields\<close>

lemma next_pkt_line:
  "pkt l = Some b \<Longrightarrow> \<not> suffix [CHR 0x0A] l \<Longrightarrow> next_pkt (b @ rest) = Inr (bytes_of (l @ [CHR 0x0A]), PktData, rest)"
  by (simp add: pkt_def next_data_pkt)

lemma lines_pkts_append:
  "lines_pkts (ls @ ms) = (case lines_pkts ls of None \<Rightarrow> None | Some b \<Rightarrow>
     (case lines_pkts ms of None \<Rightarrow> None | Some c \<Rightarrow> Some (b @ c)))"
  by (induction ls) (auto split: option.splits)

lemma trim_newlines_line: "\<not> suffix [CHR 0x0A] l \<Longrightarrow> trim_newlines (l @ [CHR 0x0A]) = l"
  by (cases l rule: rev_cases) (auto simp: trim_newlines_def suffix_def)

lemma trim_newlines_same: "\<not> suffix [CHR 0x0A] l \<Longrightarrow> trim_newlines l = l"
  by (cases l rule: rev_cases) (auto simp: trim_newlines_def suffix_def)

definition too_long :: "string \<Rightarrow> bool" where
  "too_long l \<longleftrightarrow> max_payload < length (if suffix [CHR 0x0A] l then l else l @ [CHR 0x0A])"

lemma pkt_None: "pkt l = None \<longleftrightarrow> too_long l"
  by (simp add: pkt_def data_pkt_def too_long_def)

lemma lines_pkts_None: "lines_pkts ls = None \<longleftrightarrow> list_ex too_long ls"
  by (induction ls) (auto simp flip: pkt_None split: option.splits)

lemma short_line: "length l < max_payload \<Longrightarrow> \<not> too_long l"
  by (simp add: too_long_def)

fun spaceless :: "string \<Rightarrow> bool" where
  "spaceless [] \<longleftrightarrow> True"
| "spaceless (c # cs) \<longleftrightarrow> space_len (c # cs) = 0 \<and> spaceless cs"

definition is_word :: "string \<Rightarrow> bool" where
  "is_word s \<longleftrightarrow> s \<noteq> [] \<and> spaceless s"

lemma not_punctuation_space: "\<not> general_punctuation_space (CHR '' '')" "\<not> general_punctuation_space (CHR 0xC2)"
  by (simp_all add: general_punctuation_space_def char_in_def less_eq_char_def)

lemma space_len_before:
  "space_len (x # xs @ CHR '' '' # r) = space_len (x # xs)"
  "space_len (x # xs @ CHR 0xC2 # r) = space_len (x # xs)"
proof -
  consider "xs = []" | a where "xs = [a]" | a b t where "xs = a # b # t"
    by (metis list.exhaust)
  then have "space_len (x # xs @ CHR '' '' # r) = space_len (x # xs)
      \<and> space_len (x # xs @ CHR 0xC2 # r) = space_len (x # xs)"
  proof cases
    case 1
    then show ?thesis by (simp add: space_len_def)
  next
    case 2
    then show ?thesis by (simp add: space_len_def not_punctuation_space)
  next
    case 3
    then show ?thesis by (simp add: space_len_def cong: if_cong split del: if_split)
  qed
  then show "space_len (x # xs @ CHR '' '' # r) = space_len (x # xs)"
    and "space_len (x # xs @ CHR 0xC2 # r) = space_len (x # xs)" by simp_all
qed

lemma str_fields_word:
  "spaceless w \<Longrightarrow> cur @ w \<noteq> [] \<Longrightarrow> str_fields_from cur (w @ CHR '' '' # rest) = (cur @ w) # str_fields_from [] rest"
proof (induction w arbitrary: cur)
  case Nil
  then show ?case by (simp add: space_len_def is_space_def)
next
  case (Cons c w)
  have "space_len (c # w @ CHR '' '' # rest) = 0"
    using Cons.prems space_len_before(1) [of c w rest] by simp
  with Cons show ?case by simp
qed

lemma str_fields_last: "spaceless w \<Longrightarrow> cur @ w \<noteq> [] \<Longrightarrow> str_fields_from cur w = [cur @ w]"
  by (induction w arbitrary: cur) auto

fun join_space :: "string list \<Rightarrow> string" where
  "join_space [] = []"
| "join_space [w] = w"
| "join_space (w # ws) = w @ '' '' @ join_space ws"

lemma str_fields_join: "list_all is_word ws \<Longrightarrow> str_fields (join_space ws) = ws"
proof (induction ws rule: join_space.induct)
  case (3 w v ws)
  then show ?case by (simp add: str_fields_def is_word_def str_fields_word [where cur = "[]", simplified])
qed (simp_all add: str_fields_def is_word_def str_fields_last)

lemma byte_of_char_eq_0: "byte_of_char c = 0 \<longleftrightarrow> c = CHR 0x00"
proof -
  have "byte_of_char (CHR 0x00) = 0" by (simp add: byte_of_char_def)
  then show ?thesis by (metis char_of_byte_of_char)
qed

lemma takeWhile_bytes_of: "takeWhile (\<lambda>b. b \<noteq> 0) (bytes_of s) = bytes_of (takeWhile (\<lambda>c. c \<noteq> CHR 0x00) s)"
  by (simp add: bytes_of_def takeWhile_map o_def byte_of_char_eq_0)

lemma dropWhile_bytes_of: "dropWhile (\<lambda>b. b \<noteq> 0) (bytes_of s) = bytes_of (dropWhile (\<lambda>c. c \<noteq> CHR 0x00) s)"
  by (simp add: bytes_of_def dropWhile_map o_def byte_of_char_eq_0)

lemma zero_in_bytes_of: "0 \<in> set (bytes_of s) \<longleftrightarrow> CHR 0x00 \<in> set s"
  by (auto simp: bytes_of_def byte_of_char_eq_0 intro: rev_image_eqI dest!: sym [of 0])

lemma tl_bytes_of: "tl (bytes_of s) = bytes_of (tl s)"
  by (simp add: bytes_of_def map_tl)

lemma first_nul_split: "CHR 0x00 \<notin> set a \<Longrightarrow> first_nul (bytes_of (a @ CHR 0x00 # b)) = (bytes_of a, bytes_of b)"
  by (simp add: first_nul_def zero_in_bytes_of takeWhile_bytes_of dropWhile_bytes_of tl_bytes_of)
    (induction a; auto)

lemma first_nul_none: "CHR 0x00 \<notin> set a \<Longrightarrow> first_nul (bytes_of a) = (bytes_of a, [])"
  by (simp add: first_nul_def zero_in_bytes_of)

section \<open>A request as a client writes it\<close>

definition command_line :: "push_command \<Rightarrow> string" where
  "command_line c = join_space [pc_old c, pc_new c, pc_ref c]"

fun request_lines :: "string list \<Rightarrow> push_command list \<Rightarrow> string list" where
  "request_lines caps [] = []"
| "request_lines caps (c # cs) = (command_line c @ CHR 0x00 # join_space caps) # map command_line cs"

definition render_push :: "string list \<Rightarrow> push_command list \<Rightarrow> string list \<Rightarrow> bytes \<Rightarrow> bytes option" where
  "render_push caps cmds opts pack =
     (case with_flush (lines_pkts (request_lines caps cmds)) of
        None \<Rightarrow> None
      | Some b \<Rightarrow>
          if ''push-options'' \<in> set caps
          then (case with_flush (lines_pkts opts) of None \<Rightarrow> None | Some c \<Rightarrow> Some (b @ c @ pack))
          else Some (b @ pack))"

definition wf_command :: "push_command \<Rightarrow> bool" where
  "wf_command c \<longleftrightarrow> is_word (pc_old c) \<and> is_word (pc_new c) \<and> is_word (pc_ref c)
     \<and> CHR 0x00 \<notin> set (pc_old c @ pc_new c) \<and> valid_ref_name (pc_ref c)"

lemma spaceless_chars: "spaceless s \<Longrightarrow> c \<in> set s \<Longrightarrow> \<not> is_space c"
  by (induction s) (auto simp: space_len_def split: if_splits)

lemma join_space_no_newline: "list_all is_word ws \<Longrightarrow> CHR 0x0A \<notin> set (join_space ws)"
proof (induction ws rule: join_space.induct)
  case (2 w)
  then show ?case using spaceless_chars [of w "CHR 0x0A"] by (auto simp: is_word_def is_space_def)
next
  case (3 w v ws)
  then show ?case using spaceless_chars [of w "CHR 0x0A"] by (auto simp: is_word_def is_space_def)
qed simp

lemma not_suffix_newline: "CHR 0x0A \<notin> set s \<Longrightarrow> \<not> suffix [CHR 0x0A] s"
  by (auto simp: suffix_def)

lemma command_words: "wf_command c \<Longrightarrow> list_all is_word [pc_old c, pc_new c, pc_ref c]"
  by (simp add: wf_command_def)

lemma valid_ref_name_no_nul: "valid_ref_name n \<Longrightarrow> CHR 0x00 \<notin> set n"
proof -
  have "bad_ref_char (CHR 0x00)" by (simp add: bad_ref_char_def less_char_def)
  then show "valid_ref_name n \<Longrightarrow> CHR 0x00 \<notin> set n"
    unfolding valid_ref_name_def list_ex_iff by (cases "n = ''HEAD''") (simp, metis)
qed

lemma command_line_chars:
  assumes "wf_command c"
  shows "CHR 0x0A \<notin> set (command_line c)" and "CHR 0x00 \<notin> set (command_line c)"
proof -
  show "CHR 0x0A \<notin> set (command_line c)"
    unfolding command_line_def by (rule join_space_no_newline [OF command_words [OF assms]])
  have "CHR 0x00 \<notin> set (pc_old c)" "CHR 0x00 \<notin> set (pc_new c)" "CHR 0x00 \<notin> set (pc_ref c)"
    using assms valid_ref_name_no_nul by (simp_all add: wf_command_def)
  then show "CHR 0x00 \<notin> set (command_line c)" by (simp add: command_line_def)
qed

lemma trimmed_command: "wf_command c \<Longrightarrow> trim_newlines (command_line c) = command_line c"
  by (intro trim_newlines_same not_suffix_newline) (simp add: command_line_chars)

lemma command_fields: "wf_command c \<Longrightarrow> str_fields (command_line c) = [pc_old c, pc_new c, pc_ref c]"
  unfolding command_line_def by (rule str_fields_join) (rule command_words)

lemma parse_next_command:
  assumes "wf_command c"
  shows "parse_command fmt False (bytes_of (command_line c @ [CHR 0x0A])) req
      = Inr (req\<lparr>pq_commands := pq_commands req @ [c]\<rparr>)"
proof -
  have "CHR 0x00 \<notin> set (command_line c @ [CHR 0x0A])" using command_line_chars [OF assms] by simp
  moreover have "trim_newlines (command_line c @ [CHR 0x0A]) = command_line c"
    using command_line_chars [OF assms] by (intro trim_newlines_line not_suffix_newline) simp
  ultimately show ?thesis
    using assms by (simp add: parse_command_def first_nul_none command_fields wf_command_def)
qed

definition formats_agree :: "object_format \<Rightarrow> string list \<Rightarrow> bool" where
  "formats_agree fmt caps \<longleftrightarrow> check_object_format fmt caps = None"

lemma parse_first_command:
  assumes "wf_command c" "list_all is_word caps" "formats_agree fmt caps"
  shows "parse_command fmt True (bytes_of ((command_line c @ CHR 0x00 # join_space caps) @ [CHR 0x0A])) req
      = Inr (req\<lparr>pq_caps_raw := join_space caps, pq_caps := caps, pq_commands := pq_commands req @ [c]\<rparr>)"
proof -
  have "trim_newlines (join_space caps @ [CHR 0x0A]) = join_space caps"
    using join_space_no_newline [OF assms(2)] by (intro trim_newlines_line not_suffix_newline)
  moreover have "trim_newlines (command_line c) = command_line c" by (rule trimmed_command [OF assms(1)])
  moreover have "CHR 0x00 \<notin> set (command_line c)" using command_line_chars [OF assms(1)] by simp
  ultimately show ?thesis
    using assms
    by (simp add: parse_command_def first_nul_split command_fields wf_command_def str_fields_join formats_agree_def)
qed

lemma parse_commands_line:
  assumes "pkt l = Some b" "\<not> suffix [CHR 0x0A] l"
  shows "parse_commands fmt is_first (b @ rest) req =
    (case parse_command fmt is_first (bytes_of (l @ [CHR 0x0A])) req of
       Inl e \<Rightarrow> Inl e | Inr req \<Rightarrow> parse_commands fmt False rest req)"
proof -
  have "bytes_of (l @ [CHR 0x0A]) \<noteq> []" by (simp add: bytes_of_def)
  then show ?thesis
    by (simp add: parse_commands.simps [of fmt is_first "b @ rest"] next_pkt_line [OF assms])
qed

lemma parse_commands_flush: "parse_commands fmt is_first (flush_pkt @ rest) req = Inr (req, rest)"
  by (simp add: parse_commands.simps [of fmt is_first "flush_pkt @ rest"] pkt_simps)

lemma parse_later_commands:
  "list_all wf_command cs \<Longrightarrow> lines_pkts (map command_line cs) = Some b \<Longrightarrow>
   parse_commands fmt False (b @ flush_pkt @ rest) req = Inr (req\<lparr>pq_commands := pq_commands req @ cs\<rparr>, rest)"
proof (induction cs arbitrary: b req)
  case Nil
  then show ?case by (simp add: parse_commands_flush)
next
  case (Cons c cs)
  obtain x y where b: "pkt (command_line c) = Some x" "lines_pkts (map command_line cs) = Some y" "b = x @ y"
    using Cons.prems(2) by (auto split: option.splits)
  have c: "wf_command c" "list_all wf_command cs" using Cons.prems(1) by simp_all
  have nl: "\<not> suffix [CHR 0x0A] (command_line c)"
    using command_line_chars [OF c(1)] by (intro not_suffix_newline) simp
  show ?case
    by (simp add: b(3) parse_commands_line [OF b(1) nl] parse_next_command [OF c(1)] Cons.IH [OF c(2) b(2)])
qed

lemma parse_options_read:
  "list_all (\<lambda>o'. \<not> suffix [CHR 0x0A] o') opts \<Longrightarrow> lines_pkts opts = Some b \<Longrightarrow>
   parse_push_options (b @ flush_pkt @ rest) req = Inr (req\<lparr>pq_push_options := pq_push_options req @ opts\<rparr>, rest)"
proof (induction opts arbitrary: b req)
  case Nil
  then show ?case by (simp add: parse_push_options.simps [of "flush_pkt @ rest"] pkt_simps)
next
  case (Cons l opts)
  obtain x y where b: "pkt l = Some x" "lines_pkts opts = Some y" "b = x @ y"
    using Cons.prems(2) by (auto split: option.splits)
  with Cons show ?case
    by (simp add: parse_push_options.simps [of "x @ y @ flush_pkt @ rest"] next_pkt_line trim_newlines_line)
qed

text \<open>
  C34: a push survives the wire. A request with at least one command, written the way a client writes
  it (the capabilities behind a NUL on the first line, the commands until a flush, the push options
  if that capability is among the ones sent, then the pack), is read back exactly: the same commands in
  the same order, the same capabilities and options, and the rest of the body, whatever bytes it
  holds, as the pack. Names and ids must be free of white space, including the Unicode kinds.
\<close>

theorem push_request_roundtrip:
  assumes "cmds \<noteq> []" "list_all wf_command cmds" "list_all is_word caps" "formats_agree fmt caps"
    and "list_all (\<lambda>l. \<not> suffix [CHR 0x0A] l) opts" "render_push caps cmds opts pack = Some body"
  shows "parse_push_request fmt body
      = Inr \<lparr>pq_commands = cmds, pq_caps = caps,
             pq_push_options = (if ''push-options'' \<in> set caps then opts else []),
             pq_pack = pack, pq_caps_raw = join_space caps\<rparr>"
proof -
  obtain c cs where c: "cmds = c # cs" using assms(1) by (cases cmds) auto
  let ?l = "command_line c @ CHR 0x00 # join_space caps"
  let ?tail = "if ''push-options'' \<in> set caps then the (with_flush (lines_pkts opts)) @ pack else pack"
  have wf: "wf_command c" "list_all wf_command cs" using assms(2) c by simp_all
  obtain x y where x: "pkt ?l = Some x" "lines_pkts (map command_line cs) = Some y"
    "body = x @ y @ flush_pkt @ ?tail"
    and o': "''push-options'' \<in> set caps \<Longrightarrow> \<exists>z. lines_pkts opts = Some z"
    using assms(6) by (auto simp: render_push_def c with_flush_def split: option.splits if_splits)
  have nl: "\<not> suffix [CHR 0x0A] ?l"
    using command_line_chars [OF wf(1)] join_space_no_newline [OF assms(3)] by (intro not_suffix_newline) auto
  have cmds: "parse_commands fmt True body empty_request
      = Inr (empty_request\<lparr>pq_caps_raw := join_space caps, pq_caps := caps, pq_commands := cmds\<rparr>, ?tail)"
    using parse_commands_line [OF x(1) nl] parse_first_command [OF wf(1) assms(3,4)] parse_later_commands [OF wf(2) x(2)]
    by (simp add: x(3) c empty_request_def)
  show ?thesis
  proof (cases "''push-options'' \<in> set caps")
    case True
    then obtain z where z: "lines_pkts opts = Some z" using o' by blast
    with True show ?thesis
      using parse_options_read [OF assms(5) z, of pack]
      by (simp add: parse_push_request_def parse_push_commands_def cmds [unfolded empty_request_def] push_has_def with_flush_def empty_request_def)
  next
    case False
    then show ?thesis
      by (simp add: parse_push_request_def parse_push_commands_def cmds [unfolded empty_request_def] push_has_def empty_request_def)
  qed
qed

definition sample_command :: push_command where
  "sample_command = \<lparr>pc_old = zero_hex Sha1, pc_new = replicate 40 (CHR ''a''), pc_ref = ''refs/heads/main''\<rparr>"

lemma sample_command_wf: "wf_command sample_command"
  by code_simp

lemma push_request_roundtrip_witness:
  "\<exists>body. render_push [''push-options'', ''atomic''] [sample_command] [''ci.skip''] [7] = Some body
     \<and> parse_push_request Sha1 body
       = Inr \<lparr>pq_commands = [sample_command], pq_caps = [''push-options'', ''atomic''], pq_push_options = [''ci.skip''],
              pq_pack = [7], pq_caps_raw = ''push-options atomic''\<rparr>"
proof -
  let ?caps = "[''push-options'', ''atomic'']"
  obtain body where body: "render_push ?caps [sample_command] [''ci.skip''] [7] = Some body"
  proof -
    have "\<not> list_ex too_long (request_lines ?caps [sample_command])" "\<not> list_ex too_long [''ci.skip'']"
      by (simp_all add: short_line max_payload_def command_line_def sample_command_def zero_hex_def)
    then obtain b c where "lines_pkts (request_lines ?caps [sample_command]) = Some b" "lines_pkts [''ci.skip''] = Some c"
      unfolding lines_pkts_None [symmetric] by blast
    then have "render_push ?caps [sample_command] [''ci.skip''] [7] = Some ((b @ flush_pkt) @ (c @ flush_pkt) @ [7])"
      by (simp only: render_push_def with_flush_def option.case) simp
    then show ?thesis by (rule that)
  qed
  have "list_all is_word ?caps" "formats_agree Sha1 ?caps" by code_simp+
  then show ?thesis
    using push_request_roundtrip [OF _ _ _ _ _ body, of Sha1] body sample_command_wf by (auto simp: suffix_def)
qed

lemma refused_line:
  assumes "CHR 0x00 \<notin> set l" "CHR 0x0A \<notin> set l" "length (str_fields l) \<noteq> 3"
  shows "parse_command fmt True (bytes_of (l @ [CHR 0x0A])) req = Inl (BadCommandLine l)"
proof -
  have "trim_newlines (l @ [CHR 0x0A]) = l" using assms(2) by (intro trim_newlines_line not_suffix_newline)
  moreover have "trim_newlines (string_of []) = []" "str_fields [] = []"
    by (simp_all add: trim_newlines_def str_fields_def string_of_def)
  ultimately show ?thesis
    using assms by (simp add: parse_command_def first_nul_none [of "l @ [CHR 0x0A]"] check_object_format_def)
qed

lemma refused_first_line:
  assumes "pkt l = Some b" "\<not> suffix [CHR 0x0A] l"
    and "parse_command fmt True (bytes_of (l @ [CHR 0x0A])) empty_request = Inl e"
  shows "parse_push_request fmt (b @ rest) = Inl e"
  using parse_commands_line [OF assms(1,2)] assms(3) by (simp add: parse_push_request_def parse_push_commands_def)

lemma str_fields_nbsp:
  "spaceless w \<Longrightarrow> cur @ w \<noteq> [] \<Longrightarrow>
   str_fields_from cur (w @ CHR 0xC2 # CHR 0xA0 # rest) = (cur @ w) # str_fields_from [] rest"
proof (induction w arbitrary: cur)
  case Nil
  then show ?case by (simp add: space_len_def is_space_def)
next
  case (Cons c w)
  have "space_len (c # w @ CHR 0xC2 # CHR 0xA0 # rest) = 0"
    using Cons.prems space_len_before(2) [of c w "CHR 0xA0 # rest"] by simp
  with Cons show ?case by simp
qed

text \<open>
  Two kinds of push that git can send are refused as malformed. A client with a shallow clone
  announces its boundary with \<^verbatim>\<open>shallow\<close> lines before the commands; \<^verbatim>\<open>ParsePushRequest\<close> takes such a
  line for a command with too few fields, although \<^verbatim>\<open>ParseShallow\<close> reads it. And a reference whose
  name has a no-break space between two words passes \<^verbatim>\<open>ValidateRefName\<close> but is torn into two fields, when
  its command is a first line without capabilities. (A no-break space at the end of the name is
  dropped instead, so that command is accepted under a shorter name.)
\<close>

theorem readable_pushes_refused:
  assumes "is_word oid" "CHR 0x00 \<notin> set oid" "pkt (''shallow '' @ oid) = Some sh"
    and "wf_command c" "is_word tail" "valid_ref_name (pc_ref c @ [CHR 0xC2, CHR 0xA0] @ tail)"
    and "pkt (command_line c @ [CHR 0xC2, CHR 0xA0] @ tail) = Some cmd"
  shows "parse_push_request fmt (sh @ rest) = Inl (BadCommandLine (''shallow '' @ oid))
    \<and> parse_shallow (sh @ flush_pkt @ rest) = [oid]
    \<and> parse_push_request fmt (cmd @ rest) = Inl (BadCommandLine (command_line c @ [CHR 0xC2, CHR 0xA0] @ tail))"
proof (intro conjI)
  have sh: "CHR 0x0A \<notin> set (''shallow '' @ oid)" "str_fields (''shallow '' @ oid) = [''shallow'', oid]"
  proof -
    have w: "list_all is_word [''shallow'', oid]" using assms(1) by (simp add: is_word_def space_len_def is_space_def)
    show "CHR 0x0A \<notin> set (''shallow '' @ oid)" using join_space_no_newline [OF w] by simp
    show "str_fields (''shallow '' @ oid) = [''shallow'', oid]" using str_fields_join [OF w] by simp
  qed
  then have "parse_command fmt True (bytes_of ((''shallow '' @ oid) @ [CHR 0x0A])) empty_request
      = Inl (BadCommandLine (''shallow '' @ oid))"
    using refused_line [of "''shallow '' @ oid" fmt] assms(2) by simp
  then show "parse_push_request fmt (sh @ rest) = Inl (BadCommandLine (''shallow '' @ oid))"
    by (intro refused_first_line [OF assms(3) not_suffix_newline [OF sh(1)]])
  show "parse_shallow (sh @ flush_pkt @ rest) = [oid]"
    using read_all_data [of "bytes_of ((''shallow '' @ oid) @ [CHR 0x0A])" sh "flush_pkt @ rest"] assms(3) sh(1)
      trim_newlines_line [OF not_suffix_newline [OF sh(1)]]
    by (simp add: pkt_def parse_shallow_def pkt_simps cut_prefix_def not_suffix_newline)
  let ?l = "command_line c @ [CHR 0xC2, CHR 0xA0] @ tail"
  have "list_all is_word [pc_old c, pc_new c]" "is_word (pc_ref c)" using assms(4) by (simp_all add: wf_command_def)
  then have fs: "str_fields ?l = [pc_old c, pc_new c, pc_ref c, tail]"
    using assms(5) by (simp add: command_line_def str_fields_def is_word_def str_fields_word str_fields_nbsp str_fields_last)
  have "CHR 0x0A \<notin> set tail" using join_space_no_newline [of "[tail]"] assms(5) by simp
  then have nl: "CHR 0x0A \<notin> set ?l" using command_line_chars(1) [OF assms(4)] by simp
  have "CHR 0x00 \<notin> set tail" using valid_ref_name_no_nul [OF assms(6)] by simp
  then have "CHR 0x00 \<notin> set ?l" using command_line_chars(2) [OF assms(4)] by simp
  then have "parse_command fmt True (bytes_of (?l @ [CHR 0x0A])) empty_request = Inl (BadCommandLine ?l)"
    using refused_line [of ?l fmt] nl fs by simp
  then show "parse_push_request fmt (cmd @ rest) = Inl (BadCommandLine ?l)"
    by (intro refused_first_line [OF assms(7) not_suffix_newline [OF nl]])
qed

lemma readable_pushes_refused_witness:
  "\<exists>sh cmd. parse_push_request Sha1 (sh @ [1]) = Inl (BadCommandLine ''shallow ab'')
     \<and> parse_shallow (sh @ flush_pkt @ [1]) = [''ab'']
     \<and> parse_push_request Sha1 (cmd @ [1])
       = Inl (BadCommandLine (command_line sample_command @ [CHR 0xC2, CHR 0xA0] @ ''x''))"
proof -
  have "\<not> too_long (''shallow '' @ ''ab'')" "\<not> too_long (command_line sample_command @ [CHR 0xC2, CHR 0xA0] @ ''x'')"
    by (simp_all add: short_line max_payload_def command_line_def sample_command_def zero_hex_def)
  then obtain sh cmd where p: "pkt (''shallow '' @ ''ab'') = Some sh"
    "pkt (command_line sample_command @ [CHR 0xC2, CHR 0xA0] @ ''x'') = Some cmd"
    unfolding pkt_None [symmetric] by blast
  have w: "is_word ''ab''" "is_word ''x''" "valid_ref_name (pc_ref sample_command @ [CHR 0xC2, CHR 0xA0] @ ''x'')"
    by code_simp+
  show ?thesis
    using readable_pushes_refused [OF w(1) _ p(1) sample_command_wf w(2,3) p(2), of Sha1 "[1]"] by auto
qed

section \<open>Prefixes of a sorted table\<close>

lemma prefix_range: "p \<le> n' \<Longrightarrow> \<not> prefix p n' \<Longrightarrow> prefix p n \<Longrightarrow> n < n'" for p n n' :: string
proof (induction p arbitrary: n n')
  case (Cons a p)
  then obtain m where n: "n = a # m" "prefix p m" by (cases n) auto
  obtain b m' where n': "n' = b # m'" using Cons.prems(1) by (cases n') auto
  from Cons n n' show ?case by auto
qed simp

lemma prefix_le: "prefix p n \<Longrightarrow> p \<le> n" for p n :: string
proof (induction p arbitrary: n)
  case (Cons a p)
  then show ?case by (cases n) auto
qed simp

text \<open>Walking on from the first name that is not below the prefix meets the names with that prefix first.\<close>

lemma walk_prefix_takes:
  "ref_table refs \<Longrightarrow> \<forall>e\<in>set refs. p \<le> re_name e \<Longrightarrow>
   \<exists>seen'. walk_prefix peel p refs seen
       = (map (ref_line peel) (filter (\<lambda>e. prefix p (re_name e) \<and> re_name e \<notin> set seen) refs), seen')
     \<and> set seen' = set seen \<union> {n \<in> set (map re_name refs). prefix p n}"
proof (induction refs arbitrary: seen)
  case (Cons e es)
  have t: "ref_table es" "\<forall>f\<in>set es. re_name e < re_name f" using Cons.prems(1) by (auto simp: ref_table_def)
  show ?case
  proof (cases "prefix p (re_name e)")
    case True
    show ?thesis
    proof (cases "re_name e \<in> set seen")
      case seen: True
      with Cons.IH [of seen] t Cons.prems(2) True show ?thesis by fastforce
    next
      case False
      have "filter (\<lambda>f. prefix p (re_name f) \<and> re_name f \<notin> set (re_name e # seen)) es
          = filter (\<lambda>f. prefix p (re_name f) \<and> re_name f \<notin> set seen) es"
        using t(2) by (intro filter_cong) auto
      with Cons.IH [of "re_name e # seen"] t Cons.prems(2) True False show ?thesis by fastforce
    qed
  next
    case False
    have lt: "p < re_name e" using False Cons.prems(2) by (auto simp: order_less_le)
    have "\<not> prefix p (re_name f)" if "f \<in> set es" for f
      using prefix_range [of p "re_name e" "re_name f"] False lt t(2) that by fastforce
    with False lt show ?thesis by (auto simp: filter_empty_conv)
  qed
qed simp

lemma lower_bound_drop:
  assumes "ref_table refs"
  shows "\<forall>e\<in>set (drop (lower_bound refs p) refs). p \<le> re_name e"
    and "\<forall>e\<in>set (take (lower_bound refs p) refs). re_name e < p"
proof -
  let ?f = "\<lambda>i. \<not> re_name (refs ! i) < p" and ?i = "lower_bound refs p"
  have lt: "re_name (refs ! a) < re_name (refs ! b)" if "a < b" "b < length refs" for a b
    using assms that by (auto simp: ref_table_def sorted_wrt_iff_nth_less)
  have mono: "?f b" if "a \<le> b" "b < length refs" "?f a" for a b
    using that lt [of a b] by (cases "a = b") auto
  then have s: "?i \<le> length refs" "\<forall>x<?i. \<not> ?f x" "?i < length refs \<longrightarrow> ?f ?i"
    using search_least [of 0 "length refs" ?f] by (auto simp: lower_bound_def)
  show "\<forall>e\<in>set (take ?i refs). re_name e < p" using s(1,2) by (auto simp: in_set_conv_nth)
  show "\<forall>e\<in>set (drop ?i refs). p \<le> re_name e"
  proof
    fix e
    assume "e \<in> set (drop ?i refs)"
    then obtain j where j: "j < length refs - ?i" "e = refs ! (?i + j)" by (auto simp: in_set_conv_nth)
    then have "?f (?i + j)" using s(3) mono [of ?i "?i + j"] by simp
    with j(2) show "p \<le> re_name e" by simp
  qed
qed

lemma filter_two_ranges:
  "sorted_wrt R xs \<Longrightarrow> (\<And>x y. x \<in> set xs \<Longrightarrow> y \<in> set xs \<Longrightarrow> P x \<Longrightarrow> Q y \<Longrightarrow> \<not> R y x \<and> \<not> (x = y)) \<Longrightarrow>
   filter P xs @ filter Q xs = filter (\<lambda>x. P x \<or> Q x) xs"
proof (induction xs)
  case (Cons x xs)
  have ih: "filter P xs @ filter Q xs = filter (\<lambda>x. P x \<or> Q x) xs"
    using Cons.prems by (intro Cons.IH) auto
  show ?case
  proof (cases "Q x")
    case True
    have "\<not> P y" if "y \<in> set (x # xs)" for y
      using Cons.prems(1) Cons.prems(2) [of y x] True that by auto
    then have "filter P (x # xs) = []" "filter (\<lambda>x. P x \<or> Q x) xs = filter Q xs"
      by (auto simp: filter_empty_conv intro: filter_cong)
    with True show ?thesis by simp
  qed (use ih in auto)
qed simp

lemma walk_prefix_table:
  assumes "ref_table refs"
  shows "\<exists>seen'. walk_prefix peel p (drop (lower_bound refs p) refs) seen
      = (map (ref_line peel) (filter (\<lambda>e. prefix p (re_name e) \<and> re_name e \<notin> set seen) refs), seen')
    \<and> set seen' = set seen \<union> {n \<in> set (map re_name refs). prefix p n}"
proof -
  let ?i = "lower_bound refs p"
  have table: "ref_table (drop ?i refs)"
    using assms by (simp add: ref_table_def sorted_wrt_drop flip: drop_map)
  have low: "\<not> prefix p (re_name e)" if "e \<in> set (take ?i refs)" for e
    using lower_bound_drop(2) [OF assms, of p] that prefix_le [of p "re_name e"] by auto
  then have "filter (\<lambda>e. prefix p (re_name e) \<and> re_name e \<notin> set seen) (take ?i refs) = []"
    by (auto simp: filter_empty_conv)
  then have "filter (\<lambda>e. prefix p (re_name e) \<and> re_name e \<notin> set seen) (drop ?i refs)
      = filter (\<lambda>e. prefix p (re_name e) \<and> re_name e \<notin> set seen) refs"
    using filter_append [of "\<lambda>e. prefix p (re_name e) \<and> re_name e \<notin> set seen" "take ?i refs" "drop ?i refs"]
    by simp
  moreover have "{n \<in> set (map re_name (drop ?i refs)). prefix p n} = {n \<in> set (map re_name refs). prefix p n}"
  proof -
    have "set refs = set (take ?i refs) \<union> set (drop ?i refs)" by (metis append_take_drop_id set_append)
    with low show ?thesis by auto
  qed
  ultimately show ?thesis
    using walk_prefix_takes [OF table lower_bound_drop(1) [OF assms], of peel seen] by simp
qed

lemma walk_prefixes_filter:
  "ref_table refs \<Longrightarrow> sorted ps \<Longrightarrow>
   walk_prefixes peel refs ps seen
     = map (ref_line peel) (filter (\<lambda>e. re_name e \<notin> set seen \<and> (\<exists>p\<in>set ps. prefix p (re_name e))) refs)"
proof (induction ps arbitrary: seen)
  case (Cons p ps)
  obtain seen' where s: "walk_prefix peel p (drop (lower_bound refs p) refs) seen
      = (map (ref_line peel) (filter (\<lambda>e. prefix p (re_name e) \<and> re_name e \<notin> set seen) refs), seen')"
    "set seen' = set seen \<union> {n \<in> set (map re_name refs). prefix p n}"
    using walk_prefix_table [OF Cons.prems(1)] by blast
  let ?P = "\<lambda>e. prefix p (re_name e) \<and> re_name e \<notin> set seen"
  let ?Q = "\<lambda>e. re_name e \<notin> set seen' \<and> (\<exists>q\<in>set ps. prefix q (re_name e))"
  have split: "\<not> re_name y < re_name x \<and> x \<noteq> y" if "x \<in> set refs" "y \<in> set refs" "?P x" "?Q y" for x y
  proof -
    from that(4) obtain q where q: "q \<in> set ps" "prefix q (re_name y)" by blast
    have "p \<le> q" using q(1) Cons.prems(2) by simp
    also have "q \<le> re_name y" by (rule prefix_le [OF q(2)])
    finally have "p \<le> re_name y" .
    moreover have "\<not> prefix p (re_name y)" using that(2,4) s(2) by auto
    ultimately have "re_name x < re_name y" using that(3) by (intro prefix_range) auto
    then show ?thesis by auto
  qed
  have "walk_prefixes peel refs (p # ps) seen
      = map (ref_line peel) (filter ?P refs) @ map (ref_line peel) (filter ?Q refs)"
    using Cons.IH [of seen'] Cons.prems by (simp add: s(1))
  also have "\<dots> = map (ref_line peel) (filter (\<lambda>e. ?P e \<or> ?Q e) refs)"
    using filter_two_ranges [of "\<lambda>x y. re_name x < re_name y" refs ?P ?Q] Cons.prems(1) split
    by (simp add: ref_table_def sorted_wrt_map flip: map_append)
  also have "filter (\<lambda>e. ?P e \<or> ?Q e) refs
      = filter (\<lambda>e. re_name e \<notin> set seen \<and> (\<exists>q\<in>set (p # ps). prefix q (re_name e))) refs"
    using s(2) by (intro filter_cong) auto
  finally show ?case .
qed simp

text \<open>
  C35: \<^verbatim>\<open>LsRefs\<close> answers with exactly the references asked for. On a name-sorted snapshot the binary
  search, the early stop and the \<^verbatim>\<open>seen\<close> set amount to one pass over the table: after the line for
  HEAD come the references one of whose prefixes was asked for, each once and in the order of the
  table, whatever the order, the overlaps and the repetitions of the prefixes in the request; with no
  prefix all of them come.
\<close>

theorem ls_refs_filters:
  assumes "ref_table (gs_refs snap)"
  shows "ls_refs snap args = with_flush (lines_pkts (head_lines snap args
    @ map (ref_line (la_peel args))
        (filter (\<lambda>e. la_prefixes args = [] \<or> list_ex (\<lambda>p. prefix p (re_name e)) (la_prefixes args)) (gs_refs snap))))"
  using walk_prefixes_filter [OF assms, of "sort (la_prefixes args)" "la_peel args" "[]"]
  by (simp add: ls_refs_def list_ex_iff)

definition sample_refs :: git_snapshot where
  "sample_refs = \<lparr>gs_gen = 1,
     gs_refs = [\<lparr>re_name = ''refs/heads/a'', re_oid = ''1'', re_peeled = []\<rparr>,
                \<lparr>re_name = ''refs/heads/b'', re_oid = ''2'', re_peeled = []\<rparr>,
                \<lparr>re_name = ''refs/tags/v'', re_oid = ''3'', re_peeled = ''2''\<rparr>],
     gs_head_target = ''refs/heads/a'', gs_head_oid = ''1'',
     gs_fp = \<lparr>fp_gen = 1, fp_packed_len = 0, fp_packed_mtime = 0, fp_head_mtime = 0, fp_refs_mtime = 0\<rparr>\<rparr>"

lemma ls_refs_filters_witness:
  "ls_refs sample_refs \<lparr>la_symrefs = False, la_peel = True, la_unborn = False,
       la_prefixes = [''refs/tags/'', ''refs/heads/b'', ''refs/tags/v'']\<rparr>
     = with_flush (lines_pkts [''2 refs/heads/b'', ''3 refs/tags/v peeled:2''])"
proof -
  have t: "ref_table (gs_refs sample_refs)" by code_simp
  show ?thesis
    unfolding ls_refs_filters [OF t]
    by (simp add: sample_refs_def head_lines_def head_advertised_def ref_line_def emit_line_def)
qed

section \<open>The report on the wire\<close>

definition wire_line :: "string \<Rightarrow> bytes" where
  "wire_line l = bytes_of (if suffix [CHR 0x0A] l then l else l @ [CHR 0x0A])"

lemma read_lines_pkts:
  "lines_pkts ls = Some b \<Longrightarrow> read_all_pkts (b @ flush_pkt @ rest) = (map wire_line ls, None)"
proof (induction ls arbitrary: b)
  case (Cons l ls)
  then obtain x y where b: "pkt l = Some x" "lines_pkts ls = Some y" "b = x @ y"
    by (auto split: option.splits)
  have "data_pkt (wire_line l) = Some x" using b(1) by (simp add: pkt_def wire_line_def)
  with Cons.IH [OF b(2)] b(3) show ?case by (simp add: pkt_simps)
qed (simp add: pkt_simps)

text \<open>
  C36: the report of a push arrives. It can be written unless one of its lines is longer than a packet
  can be (then \<^verbatim>\<open>Pkt\<close> panics), and a client reads back the same lines in the same order: from the
  packets themselves, or, when it asked for side bands, out of band 1, with a message sent before the
  report coming out of band 2 unmixed, however the report was cut into frames.
\<close>

theorem report_reaches_client:
  "(encode_report r = None \<longleftrightarrow> list_ex too_long (report_lines r))
   \<and> (\<forall>b. encode_report r = Some b \<longrightarrow>
        (if rp_sideband r
         then \<exists>inner. sideband_decode (band2 msg @ b) = ((inner, bytes_of (msg @ [CHR 0x0A])), None)
           \<and> read_all_pkts inner = (map wire_line (report_lines r), None)
         else read_all_pkts b = (map wire_line (report_lines r), None)))"
proof (intro conjI allI impI)
  show "encode_report r = None \<longleftrightarrow> list_ex too_long (report_lines r)"
    by (simp add: encode_report_def with_flush_def lines_pkts_None [symmetric] split: option.split)
next
  fix b
  assume b: "encode_report r = Some b"
  then obtain inner where i: "lines_pkts (report_lines r) = Some inner"
    "b = (if rp_sideband r then encode_sideband 1 (inner @ flush_pkt) @ flush_pkt else inner @ flush_pkt)"
    by (auto simp: encode_report_def with_flush_def split: option.splits if_splits)
  have read: "read_all_pkts (inner @ flush_pkt) = (map wire_line (report_lines r), None)"
    using read_lines_pkts [OF i(1), of "[]"] by simp
  have "sideband_decode flush_pkt = (([], []), None)"
    using next_flush_pkt [of "[]"] by (simp add: sideband_decode.simps [of flush_pkt])
  then have "rp_sideband r \<Longrightarrow>
      sideband_decode (band2 msg @ b) = ((inner @ flush_pkt, bytes_of (msg @ [CHR 0x0A])), None)"
    by (simp add: band2_def i(2) sideband_decode_encode)
  with read i(2) show "if rp_sideband r
      then \<exists>inner. sideband_decode (band2 msg @ b) = ((inner, bytes_of (msg @ [CHR 0x0A])), None)
        \<and> read_all_pkts inner = (map wire_line (report_lines r), None)
      else read_all_pkts b = (map wire_line (report_lines r), None)"
    by auto
qed

lemma report_reaches_client_witness:
  "\<exists>b. encode_report \<lparr>rp_unpack_ok = True, rp_unpack_msg = [],
         rp_refs = [\<lparr>rr_ref = ''refs/heads/a'', rr_ok = False, rr_reason = ''no''\<rparr>], rp_sideband = True\<rparr> = Some b
     \<and> (\<exists>inner. sideband_decode (band2 ''hi'' @ b) = ((inner, bytes_of (''hi'' @ [CHR 0x0A])), None)
        \<and> read_all_pkts inner = (map wire_line [''unpack ok'', ''ng refs/heads/a no''], None))"
proof -
  let ?r = "\<lparr>rp_unpack_ok = True, rp_unpack_msg = [],
    rp_refs = [\<lparr>rr_ref = ''refs/heads/a'', rr_ok = False, rr_reason = ''no''\<rparr>], rp_sideband = True\<rparr>"
  have l: "report_lines ?r = [''unpack ok'', ''ng refs/heads/a no'']" by (simp add: report_lines_def)
  then have "\<not> list_ex too_long (report_lines ?r)" by (simp add: short_line max_payload_def)
  then obtain b where "encode_report ?r = Some b" using report_reaches_client [of ?r "[]"] by (metis not_None_eq)
  with report_reaches_client [of ?r "''hi''"] show ?thesis by (auto simp: l)
qed

end
