(* ===== verification/Policy.thy ===== *)
theory Policy
  imports Pktline
begin

text \<open>
  Push policy: \<^verbatim>\<open>internal/policy/match.go\<close>, the effects and the evaluation of \<^verbatim>\<open>policy.go\<close>. A rule
  selects updates by the patterns of its match and its effect decides; a pattern list is empty when
  the file leaves it out. Indexing the first byte of an empty pattern panics in Go: \<open>None\<close>.
\<close>

section \<open>Globs\<close>

text \<open>The loops over the rest of the string, as the three cases of a star use them.\<close>

fun star_loop :: "(string \<Rightarrow> bool) \<Rightarrow> string \<Rightarrow> bool" where
  "star_loop f [] \<longleftrightarrow> f []"
| "star_loop f (x # t) \<longleftrightarrow> f (x # t) \<or> x \<noteq> CHR ''/'' \<and> star_loop f t"

fun any_tail :: "(string \<Rightarrow> bool) \<Rightarrow> string \<Rightarrow> bool" where
  "any_tail f [] \<longleftrightarrow> f []"
| "any_tail f (x # t) \<longleftrightarrow> f (x # t) \<or> any_tail f t"

fun after_slash :: "(string \<Rightarrow> bool) \<Rightarrow> string \<Rightarrow> bool" where
  "after_slash f [] \<longleftrightarrow> False"
| "after_slash f (x # t) \<longleftrightarrow> x = CHR ''/'' \<and> f t \<or> after_slash f t"

fun glob_match :: "string \<Rightarrow> string \<Rightarrow> bool" where
  "glob_match [] = (\<lambda>t. t = [])"
| "glob_match (c # p) =
     (if c = CHR ''*'' then
        (case p of
           [] \<Rightarrow> star_loop (glob_match p)
         | d # p' \<Rightarrow>
             if d = CHR ''*'' then
               (case p' of
                  [] \<Rightarrow> (\<lambda>t. True)
                | e # p'' \<Rightarrow>
                    if e = CHR ''/'' then (\<lambda>t. glob_match p'' t \<or> after_slash (glob_match p'') t)
                    else any_tail (glob_match p'))
             else star_loop (glob_match p))
      else if c = CHR ''?'' then
        (\<lambda>t. case t of [] \<Rightarrow> False | x # t' \<Rightarrow> x \<noteq> CHR ''/'' \<and> glob_match p t')
      else (\<lambda>t. case t of [] \<Rightarrow> False | x # t' \<Rightarrow> x = c \<and> glob_match p t'))"

definition has_glob :: "string \<Rightarrow> bool" where
  "has_glob p \<longleftrightarrow> list_ex (\<lambda>c. c = CHR ''*'' \<or> c = CHR ''?'') p"

definition literal_prefix :: "string \<Rightarrow> string" where
  "literal_prefix p = takeWhile (\<lambda>c. c \<noteq> CHR ''*'' \<and> c \<noteq> CHR ''?'') p"

definition patterns_overlap :: "string \<Rightarrow> string \<Rightarrow> bool" where
  "patterns_overlap a b \<longleftrightarrow>
     (if \<not> has_glob a \<and> \<not> has_glob b then a = b
      else if \<not> has_glob a then glob_match b a
      else if \<not> has_glob b then glob_match a b
      else let la = literal_prefix a; lb = literal_prefix b in la = lb \<or> prefix lb la \<or> prefix la lb)"

section \<open>Actors\<close>

record actor =
  ac_principal :: string
  ac_tags :: "string list"

datatype spelling_kind = SpPrincipal | SpTag | SpGroup

definition spelling_kind_of :: "string \<Rightarrow> spelling_kind \<times> string" where
  "spelling_kind_of sp =
     (if prefix ''@'' sp then (SpTag, drop 1 sp)
      else if prefix ''group:'' sp then (SpGroup, drop 6 sp)
      else (SpPrincipal, sp))"

definition valid_include :: "string \<Rightarrow> bool" where
  "valid_include sp \<longleftrightarrow>
     \<not> (sp = [] \<or> hd sp = CHR 0x5E \<or> sp = ''@'' \<or> sp = ''group:'')"

type_synonym groups = "(string \<times> string list) list"

text \<open>
  \<^verbatim>\<open>matchSpelling\<close>. The map \<^verbatim>\<open>seen\<close> is shared by the whole search, so it is returned. The recursion
  has no bound of its own: it enters a group at most once, so the number of groups is fuel enough.
\<close>

fun match_members :: "(string \<Rightarrow> string list \<Rightarrow> (bool \<times> bool) \<times> string list) \<Rightarrow> string list \<Rightarrow> string list
    \<Rightarrow> bool \<times> string list" where
  "match_members f [] seen = (False, seen)"
| "match_members f (m # ms) seen =
     (case f m seen of ((hit, resolvable), seen) \<Rightarrow>
        if resolvable \<and> hit then (True, seen) else match_members f ms seen)"

primrec search_spelling :: "nat \<Rightarrow> actor \<Rightarrow> groups \<Rightarrow> string \<Rightarrow> string list \<Rightarrow> (bool \<times> bool) \<times> string list" where
  "search_spelling 0 = (\<lambda>a g sp seen. ((False, False), seen))"
| "search_spelling (Suc fuel) = (\<lambda>a g sp seen.
     case spelling_kind_of sp of
       (SpTag, name) \<Rightarrow> ((name \<in> set (ac_tags a), True), seen)
     | (SpGroup, name) \<Rightarrow>
         if name \<in> set seen then ((False, True), seen)
         else (case map_of g name of
                 None \<Rightarrow> ((False, False), seen)
               | Some members \<Rightarrow>
                   (case match_members (search_spelling fuel a g) members (name # seen) of
                      (hit, seen) \<Rightarrow> ((hit, True), seen)))
     | (SpPrincipal, name) \<Rightarrow> ((equal_fold name (ac_principal a), True), seen))"

definition match_spelling :: "string \<Rightarrow> actor \<Rightarrow> groups \<Rightarrow> bool \<times> bool" where
  "match_spelling sp a g = fst (search_spelling (Suc (length g)) a g sp [])"

section \<open>Pattern lists\<close>

definition excludes :: "string \<Rightarrow> bool" where
  "excludes p \<longleftrightarrow> prefix [CHR 0x5E] p"

definition match_glob_list :: "string list \<Rightarrow> string \<Rightarrow> bool option" where
  "match_glob_list patterns s =
     (if patterns = [] then Some True
      else if [] \<in> set patterns then None
      else
        let positive = filter (\<lambda>p. \<not> excludes p) patterns in
        if positive \<noteq> [] \<and> \<not> list_ex (\<lambda>p. glob_match p s) positive then Some False
        else Some (\<not> list_ex (\<lambda>p. excludes p \<and> glob_match (tl p) s) patterns))"

text \<open>The first loop of \<^verbatim>\<open>matchActorList\<close> returns \<^verbatim>\<open>hasInclude\<close> and \<^verbatim>\<open>matched\<close>.\<close>

fun include_loop :: "(string \<Rightarrow> bool \<times> bool) \<Rightarrow> bool \<Rightarrow> string list \<Rightarrow> (bool \<times> bool) option" where
  "include_loop f has [] = Some (has, False)"
| "include_loop f has (sp # sps) =
     (if sp = [] then None
      else if excludes sp then include_loop f has sps
      else case f sp of (m, resolvable) \<Rightarrow>
        if resolvable \<and> m then Some (True, True) else include_loop f True sps)"

fun exclude_loop :: "(string \<Rightarrow> bool \<times> bool) \<Rightarrow> string list \<Rightarrow> bool option" where
  "exclude_loop f [] = Some True"
| "exclude_loop f (sp # sps) =
     (if sp = [] then None
      else if \<not> excludes sp then exclude_loop f sps
      else case f (tl sp) of (m, resolvable) \<Rightarrow>
        if m \<or> \<not> resolvable then Some False else exclude_loop f sps)"

definition match_actor_list :: "string list \<Rightarrow> actor \<Rightarrow> groups \<Rightarrow> bool option" where
  "match_actor_list spellings a g =
     (if spellings = [] then Some True
      else
        let f = (\<lambda>sp. match_spelling sp a g) in
        case include_loop f False spellings of
          None \<Rightarrow> None
        | Some (has, matched) \<Rightarrow> if has \<and> \<not> matched then Some False else exclude_loop f spellings)"

definition bypassed :: "string list \<Rightarrow> actor \<Rightarrow> groups \<Rightarrow> bool option" where
  "bypassed spellings a g = (if spellings = [] then Some False else match_actor_list spellings a g)"

section \<open>Rules and effects\<close>

datatype push_op = OpCreate | OpUpdate | OpDelete | OpForcePush

datatype effect =
  Protect (pe_restricts: "push_op list") (pe_bypass: "string list") (pe_checks: "string list")
| History (he_forwards: "int option") (he_unrelated: "bool option")
| SizeLimit (se_blob_bytes: "int option") (se_push_bytes: "int option")
| RequiredReviews (re_min_approvals: int) (re_dismiss_stale: bool) (re_bypass: "string list")

record match_keys =
  mk_refs :: "string list"
  mk_principals :: "string list"
  mk_paths :: "string list"

record rule =
  rl_name :: string
  rl_comment :: string
  rl_match :: match_keys
  rl_mode :: string
  rl_effect :: effect

record document =
  doc_version :: int
  doc_groups :: groups
  doc_rules :: "rule list"
  doc_roster :: groups

record request =
  rq_principal :: string
  rq_tags :: "string list"
  rq_ref :: string
  rq_op :: push_op
  rq_force :: bool

datatype verdict = Allow | Deny string

definition actor_of :: "request \<Rightarrow> actor" where
  "actor_of u = \<lparr>ac_principal = rq_principal u, ac_tags = rq_tags u\<rparr>"

text \<open>\<^verbatim>\<open>ProtectEffect.Evaluate\<close> and \<^verbatim>\<open>RequiredReviewsEffect.Evaluate\<close>: whether the update is allowed.\<close>

definition protect_evaluate :: "push_op list \<Rightarrow> string list \<Rightarrow> request \<Rightarrow> groups \<Rightarrow> bool option" where
  "protect_evaluate restricts bypass u g =
     (if rq_op u \<notin> set restricts then Some True
      else if bypass = [] then Some False
      else match_actor_list bypass (actor_of u) g)"

definition reviews_evaluate :: "string list \<Rightarrow> request \<Rightarrow> groups \<Rightarrow> bool option" where
  "reviews_evaluate bypass u g =
     (if bypass = [] then Some False else match_actor_list bypass (actor_of u) g)"

text \<open>The effects without an \<^verbatim>\<open>Evaluate\<close> of their own are never asked.\<close>

fun effect_evaluate :: "effect \<Rightarrow> request \<Rightarrow> groups \<Rightarrow> bool option" where
  "effect_evaluate (Protect ops bypass checks) u g = protect_evaluate ops bypass u g"
| "effect_evaluate (RequiredReviews n stale bypass) u g = reviews_evaluate bypass u g"
| "effect_evaluate e u g = Some True"

fun is_protect :: "effect \<Rightarrow> bool" where
  "is_protect (Protect ops bypass checks) \<longleftrightarrow> True"
| "is_protect e \<longleftrightarrow> False"

fun is_push_effect :: "effect \<Rightarrow> bool" where
  "is_push_effect (Protect ops bypass checks) \<longleftrightarrow> True"
| "is_push_effect (RequiredReviews n stale bypass) \<longleftrightarrow> True"
| "is_push_effect e \<longleftrightarrow> False"

definition effective_op :: "request \<Rightarrow> push_op" where
  "effective_op u = (if rq_op u = OpUpdate \<and> rq_force u then OpForcePush else rq_op u)"

definition rule_matches :: "rule \<Rightarrow> request \<Rightarrow> groups \<Rightarrow> bool option" where
  "rule_matches r u g =
     (case match_glob_list (mk_refs (rl_match r)) (rq_ref u) of
        None \<Rightarrow> None
      | Some refs \<Rightarrow> if \<not> refs then Some False else match_actor_list (mk_principals (rl_match r)) (actor_of u) g)"

fun evaluate_rules :: "(effect \<Rightarrow> bool) \<Rightarrow> rule list \<Rightarrow> request \<Rightarrow> groups \<Rightarrow> verdict option" where
  "evaluate_rules enforced [] u g = Some Allow"
| "evaluate_rules enforced (r # rs) u g =
     (if \<not> enforced (rl_effect r) then evaluate_rules enforced rs u g
      else case rule_matches r u g of
             None \<Rightarrow> None
           | Some False \<Rightarrow> evaluate_rules enforced rs u g
           | Some True \<Rightarrow>
               (case effect_evaluate (rl_effect r) u g of
                  None \<Rightarrow> None
                | Some True \<Rightarrow> evaluate_rules enforced rs u g
                | Some False \<Rightarrow> Some (Deny (rl_name r))))"

definition evaluate :: "document option \<Rightarrow> request \<Rightarrow> verdict option" where
  "evaluate d u =
     (case d of
        None \<Rightarrow> Some Allow
      | Some d \<Rightarrow> evaluate_rules is_push_effect (doc_rules d) (u\<lparr>rq_op := effective_op u\<rparr>) (doc_roster d))"

definition evaluate_protect :: "document option \<Rightarrow> request \<Rightarrow> verdict option" where
  "evaluate_protect d u =
     (case d of
        None \<Rightarrow> Some Allow
      | Some d \<Rightarrow> evaluate_rules is_protect (doc_rules d) (u\<lparr>rq_op := effective_op u\<rparr>) (doc_roster d))"

fun matching_from :: "rule list \<Rightarrow> request \<Rightarrow> groups \<Rightarrow> rule list option" where
  "matching_from [] u g = Some []"
| "matching_from (r # rs) u g =
     (case rule_matches r u g of
        None \<Rightarrow> None
      | Some m \<Rightarrow> (case matching_from rs u g of None \<Rightarrow> None | Some out \<Rightarrow> Some (if m then r # out else out)))"

definition matching_rules :: "document option \<Rightarrow> request \<Rightarrow> rule list option" where
  "matching_rules d u =
     (case d of
        None \<Rightarrow> Some []
      | Some d \<Rightarrow> matching_from (doc_rules d) (u\<lparr>rq_op := effective_op u\<rparr>) (doc_roster d))"

definition histories :: "document \<Rightarrow> effect list" where
  "histories d = filter (\<lambda>e. case e of History _ _ \<Rightarrow> True | _ \<Rightarrow> False) (map rl_effect (doc_rules d))"

definition sizes :: "document \<Rightarrow> effect list" where
  "sizes d = filter (\<lambda>e. case e of SizeLimit _ _ \<Rightarrow> True | _ \<Rightarrow> False) (map rl_effect (doc_rules d))"

section \<open>The lockout check\<close>

definition positives :: "string list \<Rightarrow> string list" where
  "positives pats = filter (\<lambda>p. \<not> excludes p) pats"

definition ref_sets_overlap :: "string list \<Rightarrow> string list \<Rightarrow> bool" where
  "ref_sets_overlap a b \<longleftrightarrow>
     positives a = [] \<or> positives b = []
     \<or> list_ex (\<lambda>pa. list_ex (\<lambda>pb. patterns_overlap pa pb) (positives b)) (positives a)"

definition ops_overlap :: "push_op list \<Rightarrow> push_op list \<Rightarrow> bool" where
  "ops_overlap a b \<longleftrightarrow> list_ex (\<lambda>x. list_ex (\<lambda>y. x = y) b) a"

definition spelling_equal :: "string \<Rightarrow> string \<Rightarrow> bool" where
  "spelling_equal x y \<longleftrightarrow>
     (case (spelling_kind_of x, spelling_kind_of y) of
        ((kx, nx), (ky, ny)) \<Rightarrow>
          if kx \<noteq> ky then False else if kx = SpPrincipal then equal_fold nx ny else nx = ny)"

definition bypasses_disjoint :: "string list \<Rightarrow> string list \<Rightarrow> bool" where
  "bypasses_disjoint a b \<longleftrightarrow> \<not> list_ex (\<lambda>x. list_ex (spelling_equal x) b) a"

definition locks_out :: "rule \<Rightarrow> rule \<Rightarrow> bool" where
  "locks_out r s \<longleftrightarrow>
     (case (rl_effect r, rl_effect s) of
        (Protect opsr bypr _, Protect opss byps _) \<Rightarrow>
          bypr \<noteq> [] \<and> byps \<noteq> []
          \<and> ref_sets_overlap (mk_refs (rl_match r)) (mk_refs (rl_match s))
          \<and> ops_overlap opsr opss
          \<and> bypasses_disjoint bypr byps
      | _ \<Rightarrow> False)"

text \<open>The first pair in the order of the loops, by name.\<close>

fun check_lockout :: "rule list \<Rightarrow> (string \<times> string) option" where
  "check_lockout [] = None"
| "check_lockout (r # rs) =
     (case List.find (locks_out r) rs of
        Some s \<Rightarrow> Some (rl_name r, rl_name s)
      | None \<Rightarrow> check_lockout rs)"

section \<open>The language of a glob\<close>

text \<open>
  What a pattern means: a sequence of pieces, each with the strings it stands for. \<^verbatim>\<open>**/\<close> stands for
  zero or more segments with their slashes.
\<close>

datatype glob_piece = Literal char | AnyChar | Star | StarStar | Segments

fun glob_pieces :: "string \<Rightarrow> glob_piece list" where
  "glob_pieces [] = []"
| "glob_pieces (c # p) =
     (if c = CHR ''*'' then
        (case p of
           [] \<Rightarrow> Star # glob_pieces p
         | d # p' \<Rightarrow>
             if d = CHR ''*'' then
               (case p' of
                  [] \<Rightarrow> [StarStar]
                | e # p'' \<Rightarrow> if e = CHR ''/'' then Segments # glob_pieces p'' else StarStar # glob_pieces p')
             else Star # glob_pieces p)
      else (if c = CHR ''?'' then AnyChar else Literal c) # glob_pieces p)"

fun piece_admits :: "glob_piece \<Rightarrow> string \<Rightarrow> bool" where
  "piece_admits (Literal c) w \<longleftrightarrow> w = [c]"
| "piece_admits AnyChar w \<longleftrightarrow> (\<exists>c. c \<noteq> CHR ''/'' \<and> w = [c])"
| "piece_admits Star w \<longleftrightarrow> CHR ''/'' \<notin> set w"
| "piece_admits StarStar w \<longleftrightarrow> True"
| "piece_admits Segments w \<longleftrightarrow> w = [] \<or> last w = CHR ''/''"

fun glob_admits :: "glob_piece list \<Rightarrow> string \<Rightarrow> bool" where
  "glob_admits [] s \<longleftrightarrow> s = []"
| "glob_admits (g # gs) s \<longleftrightarrow> (\<exists>u v. s = u @ v \<and> piece_admits g u \<and> glob_admits gs v)"

lemma ex_split_Nil: "(\<exists>u v. [] = u @ v \<and> P u v) \<longleftrightarrow> P [] []"
  by auto

lemma ex_split_Cons: "(\<exists>u v. x # t = u @ v \<and> P u v) \<longleftrightarrow> P [] (x # t) \<or> (\<exists>u v. t = u @ v \<and> P (x # u) v)"
proof
  assume "\<exists>u v. x # t = u @ v \<and> P u v"
  then obtain u v where u: "x # t = u @ v" "P u v" by blast
  then show "P [] (x # t) \<or> (\<exists>u v. t = u @ v \<and> P (x # u) v)" by (cases u) auto
next
  assume "P [] (x # t) \<or> (\<exists>u v. t = u @ v \<and> P (x # u) v)"
  then show "\<exists>u v. x # t = u @ v \<and> P u v"
  proof
    assume "P [] (x # t)"
    then show ?thesis by (intro exI [of _ "[]"] exI [of _ "x # t"]) simp
  next
    assume "\<exists>u v. t = u @ v \<and> P (x # u) v"
    then obtain u v where "t = u @ v" "P (x # u) v" by blast
    then show ?thesis by (intro exI [of _ "x # u"] exI [of _ v]) simp
  qed
qed

lemma star_loop_splits: "star_loop f t \<longleftrightarrow> (\<exists>u v. t = u @ v \<and> (CHR ''/'' \<notin> set u \<and> f v))"
  by (induction t) (auto simp: ex_split_Nil ex_split_Cons)

lemma any_tail_splits: "any_tail f t \<longleftrightarrow> (\<exists>u v. t = u @ v \<and> f v)"
  by (induction t) (auto simp: ex_split_Nil ex_split_Cons)

lemma after_slash_splits: "f t \<or> after_slash f t \<longleftrightarrow> (\<exists>u v. t = u @ v \<and> ((u = [] \<or> last u = CHR ''/'') \<and> f v))"
proof -
  have "after_slash f t \<longleftrightarrow> (\<exists>u v. t = u @ v \<and> (u \<noteq> [] \<and> last u = CHR ''/'' \<and> f v))"
  proof (induction t)
    case (Cons x t)
    have "(\<exists>u v. t = u @ v \<and> (last (x # u) = CHR ''/'' \<and> f v))
        \<longleftrightarrow> x = CHR ''/'' \<and> f t \<or> (\<exists>u v. t = u @ v \<and> (u \<noteq> [] \<and> last u = CHR ''/'' \<and> f v))"
      by (cases t) (auto simp: ex_split_Nil ex_split_Cons)
    with Cons show ?case by (simp add: ex_split_Cons)
  qed simp
  then show ?thesis by (cases t) (auto simp: ex_split_Nil ex_split_Cons)
qed

lemma glob_match_pieces: "glob_match p s \<longleftrightarrow> glob_admits (glob_pieces p) s"
proof (induction p arbitrary: s rule: glob_match.induct)
  case (2 c p)
  consider (lit) "c \<noteq> CHR ''*''" | (star) "c = CHR ''*''" "\<not> prefix ''*'' p" | (all) "c = CHR ''*''" "p = ''*''"
    | (segs) p'' where "c = CHR ''*''" "p = ''*/'' @ p''"
    | (any) e p'' where "c = CHR ''*''" "p = CHR ''*'' # e # p''" "e \<noteq> CHR ''/''"
  proof (cases "c = CHR ''*'' \<and> prefix ''*'' p")
    case True
    then obtain p' where "c = CHR ''*''" "p = CHR ''*'' # p'" by (auto simp: prefix_def)
    with all segs any show ?thesis by (cases p') auto
  qed (use lit star in blast)
  then show ?case
  proof cases
    case lit
    then have "glob_match p v \<longleftrightarrow> glob_admits (glob_pieces p) v" for v
      using "2.IH" by (cases "c = CHR ''?''") auto
    with lit show ?thesis by (cases s) (auto simp: ex_split_Cons)
  next
    case star
    then have "glob_match p v \<longleftrightarrow> glob_admits (glob_pieces p) v" for v
      using "2.IH" by (cases p) (auto simp: glob_match.simps(1))
    with star show ?thesis by (cases p) (auto simp: star_loop_splits fun_eq_iff)
  next
    case all
    then show ?thesis by (auto intro: exI [of _ s])
  next
    case segs
    then have "glob_match p'' v \<longleftrightarrow> glob_admits (glob_pieces p'') v" for v
      using "2.IH" by auto
    with segs show ?thesis by (auto simp: after_slash_splits)
  next
    case any
    then have "glob_match (e # p'') v \<longleftrightarrow> glob_admits (glob_pieces (e # p'')) v" for v
      using "2.IH" by (auto simp del: glob_match.simps glob_pieces.simps)
    moreover have "glob_match (c # p) = any_tail (glob_match (e # p''))"
      using any by (subst glob_match.simps(2)) (simp del: glob_match.simps(2))
    moreover have "glob_pieces (c # p) = StarStar # glob_pieces (e # p'')"
      using any by (subst glob_pieces.simps(2)) (simp del: glob_pieces.simps(2))
    ultimately show ?thesis by (simp add: any_tail_splits del: glob_match.simps(2) glob_pieces.simps(2))
  qed
qed simp

lemma glob_literal: "\<not> has_glob p \<Longrightarrow> glob_match p s \<longleftrightarrow> s = p"
proof (induction p arbitrary: s)
  case (Cons c p)
  then show ?case by (cases s) (auto simp: has_glob_def)
qed simp

lemma glob_literal_prefix: "glob_match p s \<Longrightarrow> prefix (literal_prefix p) s"
proof (induction p arbitrary: s)
  case (Cons c p)
  show ?case
  proof (cases "c = CHR ''*'' \<or> c = CHR ''?''")
    case True
    then show ?thesis by (auto simp: literal_prefix_def)
  next
    case False
    with Cons.prems obtain t where "s = c # t" "glob_match p t" by (cases s) auto
    with Cons.IH [of t] False show ?thesis by (simp add: literal_prefix_def)
  qed
qed (simp add: literal_prefix_def)

lemma common_match_overlaps: "glob_match a s \<Longrightarrow> glob_match b s \<Longrightarrow> patterns_overlap a b"
  using glob_literal glob_literal_prefix [of a s] glob_literal_prefix [of b s]
  by (auto simp: patterns_overlap_def Let_def dest: prefix_same_cases)

section \<open>Who a spelling admits\<close>

text \<open>
  The groups of the roster may name each other. The actors a spelling admits are those reached
  through any chain of memberships: the least relation with these rules.
\<close>

inductive admits :: "actor \<Rightarrow> groups \<Rightarrow> string \<Rightarrow> bool" for a g where
  principal: "spelling_kind_of sp = (SpPrincipal, name) \<Longrightarrow> equal_fold name (ac_principal a) \<Longrightarrow> admits a g sp"
| tag: "spelling_kind_of sp = (SpTag, name) \<Longrightarrow> name \<in> set (ac_tags a) \<Longrightarrow> admits a g sp"
| group: "spelling_kind_of sp = (SpGroup, name) \<Longrightarrow> map_of g name = Some members \<Longrightarrow> m \<in> set members
    \<Longrightarrow> admits a g m \<Longrightarrow> admits a g sp"

definition unknown_group :: "groups \<Rightarrow> string \<Rightarrow> bool" where
  "unknown_group g sp \<longleftrightarrow> (\<exists>name. spelling_kind_of sp = (SpGroup, name) \<and> map_of g name = None)"

text \<open>
  A set of groups is exhausted when none of their members is a match by itself and every group among
  them is in the set again: then nothing in it admits the actor.
\<close>

definition hopeless :: "actor \<Rightarrow> groups \<Rightarrow> string set \<Rightarrow> string \<Rightarrow> bool" where
  "hopeless a g S sp \<longleftrightarrow>
     (case spelling_kind_of sp of
        (SpPrincipal, name) \<Rightarrow> \<not> equal_fold name (ac_principal a)
      | (SpTag, name) \<Rightarrow> name \<notin> set (ac_tags a)
      | (SpGroup, name) \<Rightarrow> name \<in> S \<or> map_of g name = None)"

definition exhausted :: "actor \<Rightarrow> groups \<Rightarrow> string set \<Rightarrow> string set \<Rightarrow> bool" where
  "exhausted a g S T \<longleftrightarrow> (\<forall>name\<in>T. \<forall>members. map_of g name = Some members \<longrightarrow> (\<forall>m\<in>set members. hopeless a g S m))"

lemma exhausted_admits_nothing:
  assumes "exhausted a g S S" "admits a g sp" shows "\<not> hopeless a g S sp"
  using assms(2)
proof (induction rule: admits.induct)
  case (group sp name members m)
  show ?case
  proof
    assume "hopeless a g S sp"
    with group.hyps(1,2) have "name \<in> S" by (simp add: hopeless_def)
    with assms(1) group.hyps(2,3) have "hopeless a g S m" unfolding exhausted_def by blast
    with group.IH show False by contradiction
  qed
qed (auto simp: hopeless_def)

lemma hopeless_mono: "hopeless a g S sp \<Longrightarrow> S \<subseteq> T \<Longrightarrow> hopeless a g T sp"
  by (auto simp: hopeless_def split: prod.splits spelling_kind.splits)

lemma exhausted_mono: "exhausted a g S U \<Longrightarrow> S \<subseteq> T \<Longrightarrow> exhausted a g T U"
  unfolding exhausted_def by (meson hopeless_mono)

lemma exhausted_Un: "exhausted a g S (T \<union> U) \<longleftrightarrow> exhausted a g S T \<and> exhausted a g S U"
  by (auto simp: exhausted_def)

text \<open>
  What one search finds, for groups not seen before: a hit is a real one, and without a hit the
  groups it has entered are exhausted.
\<close>

definition search_ok :: "actor \<Rightarrow> groups \<Rightarrow> string list \<Rightarrow> string set \<Rightarrow> bool \<Rightarrow> string list \<Rightarrow> bool" where
  "search_ok a g seen W hit seen' \<longleftrightarrow>
     set seen \<subseteq> set seen'
     \<and> (if hit then \<exists>sp\<in>W. admits a g sp
        else exhausted a g (set seen') (set seen' - set seen) \<and> (\<forall>sp\<in>W. hopeless a g (set seen') sp))"

lemma search_ok_then:
  assumes "search_ok a g seen W False mid" "search_ok a g mid V hit seen'"
  shows "search_ok a g seen (W \<union> V) hit seen'"
proof -
  have sub: "set seen \<subseteq> set mid" "set mid \<subseteq> set seen'" using assms by (auto simp: search_ok_def)
  show ?thesis
  proof (cases hit)
    case True
    with assms sub show ?thesis by (auto simp: search_ok_def)
  next
    case False
    have "exhausted a g (set seen') (set mid - set seen)"
      using assms(1) sub(2) exhausted_mono by (auto simp: search_ok_def)
    moreover have "exhausted a g (set seen') (set seen' - set mid)" using assms(2) False by (simp add: search_ok_def)
    moreover have "set seen' - set seen \<subseteq> (set mid - set seen) \<union> (set seen' - set mid)" by auto
    ultimately have "exhausted a g (set seen') (set seen' - set seen)" unfolding exhausted_def by blast
    moreover have "\<forall>sp\<in>W. hopeless a g (set seen') sp"
      using assms(1) sub(2) hopeless_mono by (auto simp: search_ok_def)
    ultimately show ?thesis using assms(2) False sub by (auto simp: search_ok_def)
  qed
qed

lemma match_members_ok:
  assumes "\<And>m s. m \<in> set ms \<Longrightarrow> B \<subseteq> set s \<Longrightarrow>
      (fst (fst (f m s)) \<longrightarrow> snd (fst (f m s))) \<and> search_ok a g s {m} (fst (fst (f m s))) (snd (f m s))"
    and "B \<subseteq> set seen"
  shows "search_ok a g seen (set ms) (fst (match_members f ms seen)) (snd (match_members f ms seen))"
  using assms
proof (induction ms arbitrary: seen)
  case Nil
  then show ?case by (simp add: search_ok_def exhausted_def)
next
  case (Cons m ms)
  obtain hit r s' where f: "f m seen = ((hit, r), s')" by (metis surj_pair)
  with Cons.prems(1) [of m seen] Cons.prems(2) have ok: "hit \<longrightarrow> r" "search_ok a g seen {m} hit s'" by simp_all
  show ?case
  proof (cases hit)
    case True
    with f ok show ?thesis by (auto simp: search_ok_def)
  next
    case False
    have "set seen \<subseteq> set s'" using ok(2) by (simp add: search_ok_def)
    then have "search_ok a g s' (set ms) (fst (match_members f ms s')) (snd (match_members f ms s'))"
      using Cons.prems by (intro Cons.IH) auto
    then have "search_ok a g seen ({m} \<union> set ms) (fst (match_members f ms s')) (snd (match_members f ms s'))"
      using ok(2) False by (intro search_ok_then [of a g seen "{m}" s']) simp_all
    with f False show ?thesis by simp
  qed
qed

lemma search_spelling_ok:
  "card (set (map fst g) - set seen) < fuel \<Longrightarrow>
   (case search_spelling fuel a g sp seen of ((hit, r), seen') \<Rightarrow>
      (hit \<longrightarrow> r) \<and> search_ok a g seen {sp} hit seen'
      \<and> (r \<longleftrightarrow> \<not> (\<exists>name. spelling_kind_of sp = (SpGroup, name) \<and> name \<notin> set seen \<and> map_of g name = None)))"
proof (induction fuel arbitrary: sp seen)
  case (Suc fuel)
  obtain k name where k: "spelling_kind_of sp = (k, name)" by (cases "spelling_kind_of sp")
  show ?case
  proof (cases k)
    case SpPrincipal
    then show ?thesis
      using k by (auto simp: search_ok_def exhausted_def hopeless_def intro: admits.principal)
  next
    case SpTag
    then show ?thesis
      using k by (auto simp: search_ok_def exhausted_def hopeless_def intro: admits.tag)
  next
    case SpGroup
    show ?thesis
    proof (cases "name \<in> set seen \<or> map_of g name = None")
      case True
      then show ?thesis using k SpGroup by (auto simp: search_ok_def exhausted_def hopeless_def split: option.split)
    next
      case False
      then obtain members where m: "map_of g name = Some members" "name \<notin> set seen" by auto
      let ?s = "name # seen" and ?f = "search_spelling fuel a g"
      have "name \<in> set (map fst g)" using m(1) by (force dest: map_of_SomeD)
      then have less: "card (set (map fst g) - set ?s) < card (set (map fst g) - set seen)"
        using m(2) by (intro psubset_card_mono) auto
      have sub: "(fst (fst (?f x s)) \<longrightarrow> snd (fst (?f x s))) \<and> search_ok a g s {x} (fst (fst (?f x s))) (snd (?f x s))"
        if "set ?s \<subseteq> set s" for x s
      proof -
        have "card (set (map fst g) - set s) \<le> card (set (map fst g) - set ?s)"
          using that by (intro card_mono) auto
        with less Suc.prems have "card (set (map fst g) - set s) < fuel" by linarith
        from Suc.IH [OF this, of x] show ?thesis by (simp split: prod.splits)
      qed
      obtain hit s' where mm: "match_members ?f members ?s = (hit, s')" by (metis surj_pair)
      have ok: "search_ok a g ?s (set members) hit s'"
        using match_members_ok [of members "set ?s" ?f a g ?s] sub by (simp add: mm)
      have "search_ok a g seen {sp} hit s'"
      proof (cases hit)
        case True
        with ok m k SpGroup show ?thesis by (auto simp: search_ok_def intro: admits.group)
      next
        case False
        have ex: "exhausted a g (set s') (set s' - set ?s)" "\<forall>x\<in>set members. hopeless a g (set s') x"
          "set ?s \<subseteq> set s'"
          using ok False by (simp_all add: search_ok_def)
        then have "exhausted a g (set s') (set s' - set seen)"
          using m(1) unfolding exhausted_def by fastforce
        moreover have "hopeless a g (set s') sp" using ex(3) k SpGroup by (simp add: hopeless_def)
        ultimately show ?thesis using False ex(3) by (simp add: search_ok_def)
      qed
      moreover have "hit \<longrightarrow> True" by simp
      ultimately show ?thesis using k SpGroup m by (simp add: mm)
    qed
  qed
qed simp

lemma match_spelling_admits: "match_spelling sp a g = (admits a g sp, \<not> unknown_group g sp)"
proof -
  have "card (set (map fst g) - set []) \<le> length g"
    using card_length [of "map fst g"] by simp
  then have fuel: "card (set (map fst g) - set []) < Suc (length g)" by simp
  obtain hit r s' where s: "search_spelling (Suc (length g)) a g sp [] = ((hit, r), s')" by (metis surj_pair)
  have ok: "search_ok a g [] {sp} hit s'" "r \<longleftrightarrow> \<not> unknown_group g sp"
    using search_spelling_ok [OF fuel, of a sp] unfolding s by (auto simp: unknown_group_def)
  have "hit \<longleftrightarrow> admits a g sp"
    using ok(1) exhausted_admits_nothing [of a g "set s'" sp] by (cases hit) (auto simp: search_ok_def)
  with ok(2) s show ?thesis by (simp add: match_spelling_def del: search_spelling.simps)
qed

section \<open>The combination law\<close>

text \<open>
  A list of patterns selects when one of its positive patterns hits, if it has any, and none of its
  exclusions vetoes.
\<close>

definition selects :: "(string \<Rightarrow> bool) \<Rightarrow> (string \<Rightarrow> bool) \<Rightarrow> string list \<Rightarrow> bool" where
  "selects hit veto ps \<longleftrightarrow>
     ((\<exists>p\<in>set ps. \<not> excludes p) \<longrightarrow> (\<exists>p\<in>set ps. \<not> excludes p \<and> hit p))
     \<and> \<not> (\<exists>p\<in>set ps. excludes p \<and> veto (tl p))"

definition ref_selected :: "string list \<Rightarrow> string \<Rightarrow> bool" where
  "ref_selected ps s \<longleftrightarrow> selects (\<lambda>p. glob_match p s) (\<lambda>p. glob_match p s) ps"

definition actor_selected :: "string list \<Rightarrow> actor \<Rightarrow> groups \<Rightarrow> bool" where
  "actor_selected ps a g \<longleftrightarrow> selects (admits a g) (\<lambda>p. admits a g p \<or> unknown_group g p) ps"

lemma match_glob_list_selects: "[] \<notin> set ps \<Longrightarrow> match_glob_list ps s = Some (ref_selected ps s)"
  by (auto simp: match_glob_list_def ref_selected_def selects_def list_ex_iff filter_empty_conv Let_def)

lemma include_loop_result:
  "[] \<notin> set ps \<Longrightarrow> include_loop f has ps =
     Some (if \<exists>p\<in>set ps. \<not> excludes p \<and> fst (f p) \<and> snd (f p) then (True, True)
           else (has \<or> (\<exists>p\<in>set ps. \<not> excludes p), False))"
  by (induction ps arbitrary: has) (auto split: prod.split)

lemma exclude_loop_result:
  "[] \<notin> set ps \<Longrightarrow> exclude_loop f ps = Some (\<not> (\<exists>p\<in>set ps. excludes p \<and> (fst (f (tl p)) \<or> \<not> snd (f (tl p)))))"
  by (induction ps) (auto split: prod.split)

lemma admits_known: "admits a g sp \<Longrightarrow> \<not> unknown_group g sp"
  by (auto simp: unknown_group_def elim: admits.cases)

lemma match_actor_list_selects:
  assumes "[] \<notin> set ps" shows "match_actor_list ps a g = Some (actor_selected ps a g)"
proof -
  let ?f = "\<lambda>sp. match_spelling sp a g"
  have "(\<exists>p\<in>set ps. \<not> excludes p \<and> fst (?f p) \<and> snd (?f p)) \<longleftrightarrow> (\<exists>p\<in>set ps. \<not> excludes p \<and> admits a g p)"
    unfolding match_spelling_admits fst_conv snd_conv using admits_known by blast
  then have incl: "include_loop ?f False ps =
      Some (if \<exists>p\<in>set ps. \<not> excludes p \<and> admits a g p then (True, True) else (\<exists>p\<in>set ps. \<not> excludes p, False))"
    by (simp add: include_loop_result [OF assms])
  have excl: "exclude_loop ?f ps = Some (\<not> (\<exists>p\<in>set ps. excludes p \<and> (admits a g (tl p) \<or> unknown_group g (tl p))))"
    by (simp add: exclude_loop_result [OF assms] match_spelling_admits)
  show ?thesis
  proof (cases "\<exists>p\<in>set ps. \<not> excludes p \<and> admits a g p")
    case True
    then have "ps \<noteq> []" by auto
    with True show ?thesis by (simp add: match_actor_list_def incl excl actor_selected_def selects_def Let_def)
  next
    case False
    then show ?thesis by (auto simp add: match_actor_list_def incl excl actor_selected_def selects_def Let_def)
  qed
qed

definition wf_effect :: "effect \<Rightarrow> bool" where
  "wf_effect e \<longleftrightarrow> (case e of Protect ops bypass checks \<Rightarrow> [] \<notin> set bypass | RequiredReviews n stale bypass \<Rightarrow> [] \<notin> set bypass
     | _ \<Rightarrow> True)"

definition wf_rule :: "rule \<Rightarrow> bool" where
  "wf_rule r \<longleftrightarrow> [] \<notin> set (mk_refs (rl_match r)) \<and> [] \<notin> set (mk_principals (rl_match r)) \<and> wf_effect (rl_effect r)"

text \<open>An effect refuses an update its operations cover, unless its own bypass list names the actor.\<close>

fun refuses :: "effect \<Rightarrow> request \<Rightarrow> groups \<Rightarrow> bool" where
  "refuses (Protect ops bypass checks) u g \<longleftrightarrow>
     rq_op u \<in> set ops \<and> \<not> (bypass \<noteq> [] \<and> actor_selected bypass (actor_of u) g)"
| "refuses (RequiredReviews n stale bypass) u g \<longleftrightarrow> \<not> (bypass \<noteq> [] \<and> actor_selected bypass (actor_of u) g)"
| "refuses e u g \<longleftrightarrow> False"

definition rule_selects :: "rule \<Rightarrow> request \<Rightarrow> groups \<Rightarrow> bool" where
  "rule_selects r u g \<longleftrightarrow>
     ref_selected (mk_refs (rl_match r)) (rq_ref u) \<and> actor_selected (mk_principals (rl_match r)) (actor_of u) g"

lemma rule_matches_selects: "wf_rule r \<Longrightarrow> rule_matches r u g = Some (rule_selects r u g)"
  by (simp add: wf_rule_def rule_matches_def rule_selects_def match_glob_list_selects match_actor_list_selects)

lemma effect_refuses: "wf_effect e \<Longrightarrow> effect_evaluate e u g = Some (\<not> refuses e u g)"
  by (cases e) (auto simp: wf_effect_def protect_evaluate_def reviews_evaluate_def match_actor_list_selects)

lemma evaluate_rules_first:
  "list_all wf_rule rs \<Longrightarrow> evaluate_rules enforced rs u g =
     Some (case List.find (\<lambda>r. enforced (rl_effect r) \<and> rule_selects r u g \<and> refuses (rl_effect r) u g) rs of
             None \<Rightarrow> Allow | Some r \<Rightarrow> Deny (rl_name r))"
proof (induction rs)
  case (Cons r rs)
  then have "wf_rule r" "wf_effect (rl_effect r)" by (simp_all add: wf_rule_def)
  with Cons show ?case by (auto simp: rule_matches_selects effect_refuses split: bool.split)
qed simp

lemma refuses_push: "refuses e u g \<Longrightarrow> is_push_effect e"
  by (cases e) auto

section \<open>Properties\<close>

text \<open>
  C20: the backtracking matcher decides the language of the pattern. A string matches exactly when it
  can be cut into pieces, one for each element of the pattern: a character for itself, any character
  but a slash for \<^verbatim>\<open>?\<close>, any run without a slash for \<^verbatim>\<open>*\<close>, any string for \<^verbatim>\<open>**\<close>, and zero or more whole
  segments for \<^verbatim>\<open>**/\<close>. Two patterns that share a match are never taken for disjoint.
\<close>

theorem glob_match_language:
  "(glob_match p s \<longleftrightarrow> glob_admits (glob_pieces p) s)
   \<and> (glob_match p s \<and> glob_match q s \<longrightarrow> patterns_overlap p q)"
  using glob_match_pieces common_match_overlaps by blast

lemma glob_match_language_witness:
  "glob_admits (glob_pieces ''refs/**/v*'') ''refs/tags/a/v1'' \<and> patterns_overlap ''refs/**/v*'' ''refs/tags/**''"
proof -
  have "glob_match ''refs/**/v*'' ''refs/tags/a/v1''" "glob_match ''refs/tags/**'' ''refs/tags/a/v1''" by simp_all
  then show ?thesis using glob_match_language [of "''refs/**/v*''" "''refs/tags/a/v1''" "''refs/tags/**''"] by blast
qed

text \<open>
  C21: an actor spelling is resolved to the end, and the search stops. Whatever the groups of the
  roster contain, cycles included, \<^verbatim>\<open>matchSpelling\<close> finds a match exactly when a chain of memberships
  leads to the actor's name or one of its tags, and reports the spelling as unresolvable exactly when
  it names a group the roster does not have.
\<close>

theorem spelling_resolution:
  "match_spelling sp a g = (admits a g sp, \<not> unknown_group g sp)"
  by (rule match_spelling_admits)

text \<open>
  C17: the combination law of push policy. Under a document whose lists hold no empty pattern, an
  update is refused exactly when some rule selects it (by reference and by actor, exclusions
  vetoing, an exclusion of an unknown group included) and that rule's effect refuses it: a protect
  rule that restricts the operation, or a required review, whose own bypass list does not name the
  actor. The refusal carries the name of the first such rule in the order of the file. A forced
  update counts as a force-push.
\<close>

theorem evaluate_first_denying_rule:
  assumes "list_all wf_rule (doc_rules d)"
  shows "evaluate (Some d) u =
    (let u = u\<lparr>rq_op := effective_op u\<rparr>; g = doc_roster d
     in Some (case List.find (\<lambda>r. rule_selects r u g \<and> refuses (rl_effect r) u g) (doc_rules d) of
                None \<Rightarrow> Allow | Some r \<Rightarrow> Deny (rl_name r)))"
proof -
  have "is_push_effect (rl_effect r) \<and> rule_selects r u g \<and> refuses (rl_effect r) u g
      \<longleftrightarrow> rule_selects r u g \<and> refuses (rl_effect r) u g" for r u g
    using refuses_push by blast
  then show ?thesis by (simp add: evaluate_def evaluate_rules_first [OF assms] Let_def)
qed

definition sample_rule :: "string \<Rightarrow> string list \<Rightarrow> rule" where
  "sample_rule name bypass =
     \<lparr>rl_name = name, rl_comment = [],
      rl_match = \<lparr>mk_refs = [''refs/heads/*''], mk_principals = [], mk_paths = []\<rparr>, rl_mode = [],
      rl_effect = Protect [OpForcePush] bypass []\<rparr>"

definition sample_document :: document where
  "sample_document = \<lparr>doc_version = 1, doc_groups = [(''ops'', [''ann'', ''group:ops''])],
     doc_rules = [sample_rule ''open'' [''group:ops''], sample_rule ''strict'' [''bob'', ''ann'']],
     doc_roster = [(''ops'', [''ann'', ''group:ops''])]\<rparr>"

definition sample_request :: "string \<Rightarrow> request" where
  "sample_request who = \<lparr>rq_principal = who, rq_tags = [], rq_ref = ''refs/heads/x'', rq_op = OpUpdate, rq_force = True\<rparr>"

lemma evaluate_first_denying_rule_witness:
  "evaluate (Some sample_document) (sample_request ''Ann'') = Some Allow
   \<and> evaluate (Some sample_document) (sample_request ''bob'') = Some (Deny ''open'')
   \<and> (let u = sample_request ''bob'' \<lparr>rq_op := OpForcePush\<rparr>; g = doc_roster sample_document
      in List.find (\<lambda>r. rule_selects r u g \<and> refuses (rl_effect r) u g) (doc_rules sample_document)
         = Some (sample_rule ''open'' [''group:ops'']))"
proof -
  have wf: "list_all wf_rule (doc_rules sample_document)" by code_simp
  have e: "evaluate (Some sample_document) (sample_request ''Ann'') = Some Allow"
    "evaluate (Some sample_document) (sample_request ''bob'') = Some (Deny ''open'')" by code_simp+
  have op: "effective_op (sample_request ''bob'') = OpForcePush" by code_simp
  have "rl_name (sample_rule ''strict'' [''bob'', ''ann'']) \<noteq> ''open''" by (simp add: sample_rule_def)
  then show ?thesis
    using e evaluate_first_denying_rule [OF wf, of "sample_request ''bob''"]
    by (auto simp: op Let_def sample_document_def split: option.splits if_splits)
qed

end
