(* ===== verification/Policy_File.thy ===== *)
theory Policy_File
  imports Policy "HOL-Library.Log_Nat"
begin

text \<open>
  Reading policy.json: \<^verbatim>\<open>Parse\<close> and the strict parsers of the effects in \<^verbatim>\<open>policy.go\<close> and
  \<^verbatim>\<open>effect_*.go\<close>, and the expansion of teams and roles (\<^verbatim>\<open>expansion.go\<close>). The input is the JSON value
  of the file; what \<^verbatim>\<open>json.Unmarshal\<close> makes of a value for a Go type is written out here, including
  that null leaves the zero value and is no error.
\<close>

section \<open>JSON values and Go types\<close>

text \<open>
  An integer literal is \<open>JInt\<close>; a literal with a fraction or an exponent is \<open>JFloat m e\<close>, the double
  \<open>m * 2 ^ e\<close> it denotes. An object has each key once (the last one wins).
\<close>

datatype json =
  JNull
| JBool bool
| JInt int
| JFloat int int
| JStr string
| JArr "json list"
| JObj "(string \<times> json) list"

fun as_object :: "json \<Rightarrow> (string \<times> json) list option" where
  "as_object (JObj m) = Some m"
| "as_object JNull = Some []"
| "as_object j = None"

fun as_array :: "json \<Rightarrow> json list option" where
  "as_array (JArr xs) = Some xs"
| "as_array JNull = Some []"
| "as_array j = None"

fun as_string :: "json \<Rightarrow> string option" where
  "as_string (JStr s) = Some s"
| "as_string JNull = Some []"
| "as_string j = None"

fun as_bool :: "json \<Rightarrow> bool option" where
  "as_bool (JBool b) = Some b"
| "as_bool JNull = Some False"
| "as_bool j = None"

fun as_int :: "json \<Rightarrow> int option" where
  "as_int (JInt n) = (if - (2 ^ 63) \<le> n \<and> n < 2 ^ 63 then Some n else None)"
| "as_int JNull = Some 0"
| "as_int j = None"

definition as_strings :: "json \<Rightarrow> string list option" where
  "as_strings j = (case as_array j of None \<Rightarrow> None | Some xs \<Rightarrow> all_some (map as_string xs))"

text \<open>
  \<^verbatim>\<open>float64\<close>, as far as \<^verbatim>\<open>min_approvals\<close> needs it: the nearest double of a positive integer literal,
  ties to even, and whether a double is an integer below \<open>2 ^ 63\<close> (what a larger one converts to
  depends on the machine).
\<close>

definition round_to_double :: "nat \<Rightarrow> nat" where
  "round_to_double n =
     (if n < 2 ^ 53 then n
      else
        let k = 2 ^ (floorlog 2 n - 53); q = n div k; r = n mod k
        in (if 2 * r < k \<or> 2 * r = k \<and> even q then q else q + 1) * k)"

fun as_positive_int :: "json \<Rightarrow> int option" where
  "as_positive_int (JInt n) =
     (if n < 1 then None
      else let d = int (round_to_double (nat n)) in if d < 2 ^ 63 then Some d else None)"
| "as_positive_int (JFloat m e) =
     (if m < 1 \<or> 63 < e \<or> e < 0 \<and> \<not> 2 ^ nat (- e) dvd m then None
      else let d = (if e < 0 then m div 2 ^ nat (- e) else m * 2 ^ nat e) in if d < 2 ^ 63 then Some d else None)"
| "as_positive_int j = None"

section \<open>Errors\<close>

text \<open>
  Every failure wraps \<^verbatim>\<open>ErrInvalid\<close>; the constructor says where the code gives up, with the index
  of the entry.
\<close>

datatype policy_error =
  BadEnvelope
| BadVersion
| BadGroups
| BadGroup nat
| BadRules
| BadRule nat
| BadMatch nat
| BadEffect
| BadFamily string
| Lockout string string

text \<open>The keys of an object are among the known ones.\<close>

definition known_keys :: "string list \<Rightarrow> (string \<times> json) list \<Rightarrow> bool" where
  "known_keys ks m \<longleftrightarrow> list_all (\<lambda>(k, _). k \<in> set ks) m"

section \<open>Effects\<close>

definition op_of_string :: "string \<Rightarrow> push_op option" where
  "op_of_string s =
     (if s = ''create'' then Some OpCreate else if s = ''update'' then Some OpUpdate
      else if s = ''delete'' then Some OpDelete else if s = ''force-push'' then Some OpForcePush else None)"

definition check_context_char :: "char \<Rightarrow> bool" where
  "check_context_char c \<longleftrightarrow> is_id_char c \<or> c = CHR ''/''"

definition valid_check_context :: "string \<Rightarrow> bool" where
  "valid_check_context c \<longleftrightarrow>
     1 \<le> length c \<and> length c \<le> 100 \<and> \<not> (prefix ''/'' c \<or> suffix ''/'' c) \<and> \<not> suffix ''.json'' c
     \<and> list_all check_context_char c"

definition parse_restricts :: "json option \<Rightarrow> push_op list option" where
  "parse_restricts j =
     (case j of
        None \<Rightarrow> Some [OpCreate, OpUpdate, OpDelete, OpForcePush]
      | Some j \<Rightarrow>
          if j = JNull then None
          else case as_strings j of
                 None \<Rightarrow> None
               | Some xs \<Rightarrow> if xs = [] then None else all_some (map op_of_string xs))"

definition parse_bypass :: "json option \<Rightarrow> string list option" where
  "parse_bypass j =
     (case j of
        None \<Rightarrow> Some []
      | Some j \<Rightarrow>
          if j = JNull then Some []
          else case as_strings j of
                 None \<Rightarrow> None
               | Some xs \<Rightarrow> if list_all valid_include xs then Some xs else None)"

definition parse_checks :: "json option \<Rightarrow> string list option" where
  "parse_checks j =
     (case j of
        None \<Rightarrow> Some []
      | Some j \<Rightarrow>
          if j = JNull then None
          else case as_strings j of
                 None \<Rightarrow> None
               | Some xs \<Rightarrow>
                   if length xs < 1 \<or> 32 < length xs then None
                   else if list_all valid_check_context xs \<and> distinct xs then Some xs else None)"

definition parse_protect :: "json \<Rightarrow> effect option" where
  "parse_protect raw =
     (if raw = JNull then None
      else case as_object raw of
             None \<Rightarrow> None
           | Some m \<Rightarrow>
               if \<not> known_keys [''restricts'', ''bypass'', ''require_checks'', ''_comment''] m then None
               else case (parse_restricts (map_of m ''restricts''), parse_bypass (map_of m ''bypass''),
                          parse_checks (map_of m ''require_checks'')) of
                      (Some ops, Some bypass, Some checks) \<Rightarrow> Some (Protect ops bypass checks)
                    | _ \<Rightarrow> None)"

text \<open>A non-negative integer that may be left out; null is 0.\<close>

definition parse_count :: "json option \<Rightarrow> int option option" where
  "parse_count j =
     (case j of
        None \<Rightarrow> Some None
      | Some j \<Rightarrow> (case as_int j of None \<Rightarrow> None | Some n \<Rightarrow> if n < 0 then None else Some (Some n)))"

definition parse_history :: "json \<Rightarrow> effect option" where
  "parse_history raw =
     (if raw = JNull then None
      else case as_object raw of
             None \<Rightarrow> None
           | Some m \<Rightarrow>
               if \<not> known_keys [''allowed_forwards'', ''allow_unrelated'', ''_comment''] m then None
               else case (parse_count (map_of m ''allowed_forwards''), map_of m ''allow_unrelated'') of
                      (None, _) \<Rightarrow> None
                    | (Some n, None) \<Rightarrow> Some (History n None)
                    | (Some n, Some j) \<Rightarrow> map_option (\<lambda>b. History n (Some b)) (as_bool j))"

definition parse_size :: "json \<Rightarrow> effect option" where
  "parse_size raw =
     (if raw = JNull then None
      else case as_object raw of
             None \<Rightarrow> None
           | Some m \<Rightarrow>
               if \<not> known_keys [''blob_bytes'', ''push_bytes'', ''_comment''] m then None
               else case (parse_count (map_of m ''blob_bytes''), parse_count (map_of m ''push_bytes'')) of
                      (Some b, Some p) \<Rightarrow> Some (SizeLimit b p)
                    | _ \<Rightarrow> None)"

definition parse_reviews :: "json \<Rightarrow> effect option" where
  "parse_reviews raw =
     (if raw = JNull then None
      else case as_object raw of
             None \<Rightarrow> None
           | Some m \<Rightarrow>
               if \<not> known_keys [''min_approvals'', ''dismiss_stale'', ''bypass'', ''_comment''] m then None
               else case (case map_of m ''min_approvals'' of None \<Rightarrow> None | Some j \<Rightarrow> as_positive_int j,
                          case map_of m ''dismiss_stale'' of None \<Rightarrow> Some False | Some j \<Rightarrow> as_bool j,
                          parse_bypass (map_of m ''bypass'')) of
                      (Some n, Some stale, Some bypass) \<Rightarrow> Some (RequiredReviews n stale bypass)
                    | _ \<Rightarrow> None)"

text \<open>The registry of effect kinds, and the tagged union with exactly one key.\<close>

definition effect_registry :: "(string \<times> (json \<Rightarrow> effect option)) list" where
  "effect_registry =
     [(''protect'', parse_protect), (''history'', parse_history), (''size'', parse_size),
      (''required-reviews'', parse_reviews)]"

definition parse_effect :: "json \<Rightarrow> effect option" where
  "parse_effect raw =
     (case as_object raw of
        None \<Rightarrow> None
      | Some m \<Rightarrow>
          (case filter (\<lambda>(k, _). k \<noteq> ''_comment'') m of
             [(kind, j)] \<Rightarrow> (case map_of effect_registry kind of None \<Rightarrow> None | Some parser \<Rightarrow> parser j)
           | _ \<Rightarrow> None))"

section \<open>Rules and groups\<close>

definition valid_rule_name :: "string \<Rightarrow> bool" where
  "valid_rule_name s \<longleftrightarrow>
     s \<noteq> [] \<and> char_in (CHR ''a'') (CHR ''z'') (hd s) \<and> length s \<le> 63
     \<and> list_all (\<lambda>c. char_in (CHR ''a'') (CHR ''z'') c \<or> char_in (CHR ''0'') (CHR ''9'') c \<or> c = CHR ''-'') (tl s)"

definition parse_patterns :: "(string \<Rightarrow> bool) \<Rightarrow> json option \<Rightarrow> string list option" where
  "parse_patterns ok j =
     (case j of
        None \<Rightarrow> Some []
      | Some j \<Rightarrow>
          if j = JNull then Some []
          else case as_strings j of
                 None \<Rightarrow> None
               | Some xs \<Rightarrow> if list_all (\<lambda>p. p \<noteq> [] \<and> ok p) xs then Some xs else None)"

definition valid_principal_pattern :: "string \<Rightarrow> bool" where
  "valid_principal_pattern p \<longleftrightarrow> valid_include (if excludes p then tl p else p)"

text \<open>A null list is not taken out of the object, so its key is then an unknown one.\<close>

definition parse_match :: "json \<Rightarrow> match_keys option" where
  "parse_match raw =
     (case as_object raw of
        None \<Rightarrow> None
      | Some m \<Rightarrow>
          (case (parse_patterns (\<lambda>_. True) (map_of m ''refs''),
                 parse_patterns valid_principal_pattern (map_of m ''principals''),
                 parse_patterns (\<lambda>_. True) (map_of m ''paths'')) of
             (Some refs, Some principals, Some paths) \<Rightarrow>
               if list_all (\<lambda>(k, j). k = ''_comment'' \<or> k \<in> set [''refs'', ''principals'', ''paths''] \<and> j \<noteq> JNull) m
               then Some \<lparr>mk_refs = refs, mk_principals = principals, mk_paths = paths\<rparr>
               else None
           | _ \<Rightarrow> None))"

definition no_match :: match_keys where
  "no_match = \<lparr>mk_refs = [], mk_principals = [], mk_paths = []\<rparr>"

definition parse_mode :: "json option \<Rightarrow> string option" where
  "parse_mode j =
     (case j of
        None \<Rightarrow> Some []
      | Some j \<Rightarrow> (case as_string j of None \<Rightarrow> None | Some s \<Rightarrow> if s = ''enforce'' \<or> s = ''audit'' then Some s else None))"

definition parse_rule :: "nat \<Rightarrow> json \<Rightarrow> policy_error + rule" where
  "parse_rule i ent =
     (case as_object ent of
        None \<Rightarrow> Inl (BadRule i)
      | Some m \<Rightarrow>
          if \<not> known_keys [''name'', ''_comment'', ''match'', ''effect'', ''mode''] m then Inl (BadRule i)
          else case map_option as_string (map_of m ''name'') of
                 Some (Some name) \<Rightarrow>
                   if \<not> valid_rule_name name then Inl (BadRule i)
                   else (case parse_mode (map_of m ''mode'') of
                      None \<Rightarrow> Inl (BadRule i)
                    | Some mode \<Rightarrow>
                        (case (case map_of m ''match'' of None \<Rightarrow> Some no_match
                               | Some j \<Rightarrow> if j = JNull then Some no_match else parse_match j) of
                           None \<Rightarrow> Inl (BadMatch i)
                         | Some mk \<Rightarrow>
                             (case map_of m ''effect'' of
                                None \<Rightarrow> Inl (BadRule i)
                              | Some j \<Rightarrow>
                                  (case parse_effect j of
                                     None \<Rightarrow> Inl BadEffect
                                   | Some eff \<Rightarrow>
                                       Inr \<lparr>rl_name = name,
                                            rl_comment = (case map_of m ''_comment'' of
                                                            Some (JStr c) \<Rightarrow> c | _ \<Rightarrow> []),
                                            rl_match = mk, rl_mode = mode, rl_effect = eff\<rparr>))))
               | _ \<Rightarrow> Inl (BadRule i))"

fun check_rule_family :: "rule \<Rightarrow> bool" where
  "check_rule_family r =
     (let mk = rl_match r; no_excludes = list_all (\<lambda>p. \<not> excludes p) (mk_refs mk @ mk_principals mk @ mk_paths mk)
      in case rl_effect r of
           History _ _ \<Rightarrow> no_excludes
         | SizeLimit _ _ \<Rightarrow> no_excludes \<and> mk_paths mk \<noteq> []
         | _ \<Rightarrow> True)"

fun parse_rule_entries :: "nat \<Rightarrow> string list \<Rightarrow> json list \<Rightarrow> policy_error + rule list" where
  "parse_rule_entries i seen [] = Inr []"
| "parse_rule_entries i seen (ent # ents) =
     rbind (parse_rule i ent) (\<lambda>r.
       if rl_name r \<in> set seen then Inl (BadRule i)
       else if \<not> check_rule_family r then Inl (BadFamily (rl_name r))
       else rbind (parse_rule_entries (i + 1) (rl_name r # seen) ents) (\<lambda>rs. Inr (r # rs)))"

definition parse_rules :: "json \<Rightarrow> policy_error + rule list" where
  "parse_rules raw =
     (case as_array raw of None \<Rightarrow> Inl BadRules | Some ents \<Rightarrow> parse_rule_entries 0 [] ents)"

definition parse_group :: "json \<Rightarrow> (string \<times> string list) option" where
  "parse_group ent =
     (case as_object ent of
        None \<Rightarrow> None
      | Some m \<Rightarrow>
          if \<not> known_keys [''name'', ''members'', ''_comment''] m then None
          else case map_option as_string (map_of m ''name'') of
                 Some (Some name) \<Rightarrow>
                   if name = [] then None
                   else map_option (Pair name) (parse_bypass (map_of m ''members''))
               | _ \<Rightarrow> None)"

fun parse_group_entries :: "nat \<Rightarrow> string list \<Rightarrow> json list \<Rightarrow> policy_error + groups" where
  "parse_group_entries i seen [] = Inr []"
| "parse_group_entries i seen (ent # ents) =
     (case parse_group ent of
        None \<Rightarrow> Inl (BadGroup i)
      | Some g \<Rightarrow>
          if fst g \<in> set seen then Inl (BadGroup i)
          else rbind (parse_group_entries (i + 1) (fst g # seen) ents) (\<lambda>gs. Inr (g # gs)))"

definition parse_groups :: "json \<Rightarrow> policy_error + groups" where
  "parse_groups raw =
     (case as_array raw of None \<Rightarrow> Inl BadGroups | Some ents \<Rightarrow> parse_group_entries 0 [] ents)"

definition policy_parse :: "json \<Rightarrow> policy_error + document" where
  "policy_parse data =
     (case as_object data of
        None \<Rightarrow> Inl BadEnvelope
      | Some env \<Rightarrow>
          if (case map_of env ''version'' of None \<Rightarrow> None | Some j \<Rightarrow> as_int j) \<noteq> Some 1 then Inl BadVersion
          else
            rbind (case map_of env ''groups'' of None \<Rightarrow> Inr [] | Some j \<Rightarrow> if j = JNull then Inr [] else parse_groups j)
              (\<lambda>groups.
            rbind (case map_of env ''rules'' of None \<Rightarrow> Inr [] | Some j \<Rightarrow> if j = JNull then Inr [] else parse_rules j)
              (\<lambda>rules.
            case check_lockout rules of
              Some (a, b) \<Rightarrow> Inl (Lockout a b)
            | None \<Rightarrow> Inr \<lparr>doc_version = 1, doc_groups = groups, doc_rules = rules, doc_roster = groups\<rparr>)))"

section \<open>Teams and roles\<close>

definition is_team_ref :: "string \<Rightarrow> bool" where
  "is_team_ref sp \<longleftrightarrow> prefix ''team:'' sp"

definition is_role_ref :: "string \<Rightarrow> bool" where
  "is_role_ref sp \<longleftrightarrow> prefix ''role:'' sp"

definition dedup :: "string list \<Rightarrow> string list" where
  "dedup xs = dedupe_from [] xs"

lemma set_dedup [simp]: "set (dedup xs) = set xs"
  by (simp add: dedup_def set_dedupe_from)

lemma dedup_Nil [simp]: "dedup xs = [] \<longleftrightarrow> xs = []"
  by (metis set_dedup set_empty)

type_synonym expand_fun = "string list \<Rightarrow> string list \<times> string list"

fun expanded_copy :: "expand_fun \<Rightarrow> effect \<Rightarrow> effect \<times> string list" where
  "expanded_copy x (Protect ops bypass checks) =
     (if bypass = [] then (Protect ops [] checks, [])
      else case x bypass of (ys, ws) \<Rightarrow> (Protect ops (dedup ys) checks, ws))"
| "expanded_copy x (RequiredReviews n stale bypass) =
     (if bypass = [] then (RequiredReviews n stale [], [])
      else case x bypass of (ys, ws) \<Rightarrow> (RequiredReviews n stale (dedup ys), ws))"
| "expanded_copy x e = (e, [])"

definition expand_group :: "expand_fun \<Rightarrow> string \<times> string list \<Rightarrow> (string \<times> string list) \<times> string list" where
  "expand_group x gr = (case x (snd gr) of (ys, ws) \<Rightarrow> ((fst gr, dedup ys), ws))"

definition expand_rule :: "expand_fun \<Rightarrow> rule \<Rightarrow> rule \<times> string list" where
  "expand_rule x r =
     (let ps = mk_principals (rl_match r);
          (ps', ws) = (if ps = [] then (ps, []) else case x ps of (ys, ws) \<Rightarrow> (dedup ys, ws));
          (eff, ws') = expanded_copy x (rl_effect r)
      in (r\<lparr>rl_match := (rl_match r)\<lparr>mk_principals := ps'\<rparr>, rl_effect := eff\<rparr>, ws @ ws'))"

definition expand_document :: "expand_fun option \<Rightarrow> document option \<Rightarrow> document option \<times> string list" where
  "expand_document x d =
     (case (x, d) of
        (Some x, Some d) \<Rightarrow>
          let gs = map (expand_group x) (doc_groups d); rs = map (expand_rule x) (doc_rules d)
          in (Some \<lparr>doc_version = doc_version d, doc_groups = map fst gs, doc_rules = map fst rs, doc_roster = map fst gs\<rparr>,
              sort (concat (map snd gs) @ concat (map snd rs)))
      | _ \<Rightarrow> (d, []))"

section \<open>Accepted documents\<close>

definition wf_document :: "document \<Rightarrow> bool" where
  "wf_document d \<longleftrightarrow>
     list_all wf_rule (doc_rules d)
     \<and> distinct (map rl_name (doc_rules d)) \<and> list_all (\<lambda>r. valid_rule_name (rl_name r)) (doc_rules d)
     \<and> distinct (map fst (doc_roster d)) \<and> list_all (\<lambda>(n, ms). n \<noteq> [] \<and> list_all valid_include ms) (doc_roster d)
     \<and> check_lockout (doc_rules d) = None"

lemma valid_include_not_Nil: "list_all valid_include xs \<Longrightarrow> [] \<notin> set xs"
  by (auto simp: list_all_iff valid_include_def)

lemma parse_bypass_valid: "parse_bypass j = Some xs \<Longrightarrow> list_all valid_include xs"
  by (auto simp: parse_bypass_def split: option.splits if_splits)

lemma parse_patterns_nonempty: "parse_patterns ok j = Some xs \<Longrightarrow> [] \<notin> set xs"
  by (auto simp: parse_patterns_def list_all_iff split: option.splits if_splits)

lemma parse_effect_wf: "parse_effect j = Some e \<Longrightarrow> wf_effect e"
proof -
  assume "parse_effect j = Some e"
  then obtain k raw where "map_of effect_registry k = Some raw" "\<exists>j. raw j = Some e"
    by (auto simp: parse_effect_def split: option.splits list.splits prod.splits)
  then show "wf_effect e"
    by (auto simp: effect_registry_def wf_effect_def parse_protect_def parse_history_def parse_size_def parse_reviews_def
        valid_include_not_Nil [OF parse_bypass_valid] split: if_splits option.splits)
qed

lemma parse_match_wf:
  "parse_match j = Some mk \<Longrightarrow> [] \<notin> set (mk_refs mk) \<and> [] \<notin> set (mk_principals mk)"
  by (auto simp: parse_match_def dest: parse_patterns_nonempty split: option.splits if_splits)

lemma parse_rule_wf: "parse_rule i j = Inr r \<Longrightarrow> wf_rule r \<and> valid_rule_name (rl_name r)"
  by (auto simp: parse_rule_def wf_rule_def no_match_def dest: parse_effect_wf parse_match_wf
      split: option.splits if_splits)

lemma parse_rule_entries_wf:
  "parse_rule_entries i seen ents = Inr rs \<Longrightarrow>
   list_all wf_rule rs \<and> list_all (\<lambda>r. valid_rule_name (rl_name r)) rs
   \<and> distinct (map rl_name rs) \<and> set (map rl_name rs) \<inter> set seen = {}"
proof (induction ents arbitrary: i seen rs)
  case (Cons ent ents)
  obtain r rs' where r: "parse_rule i ent = Inr r" "rl_name r \<notin> set seen"
    "parse_rule_entries (i + 1) (rl_name r # seen) ents = Inr rs'" "rs = r # rs'"
    using Cons.prems by (auto simp: rbind_eq_Inr split: if_splits simp del: check_rule_family.simps)
  with Cons.IH [OF r(3)] parse_rule_wf [OF r(1)] show ?case by auto
qed simp

lemma parse_group_entries_wf:
  "parse_group_entries i seen ents = Inr gs \<Longrightarrow>
   list_all (\<lambda>(n, ms). n \<noteq> [] \<and> list_all valid_include ms) gs
   \<and> distinct (map fst gs) \<and> set (map fst gs) \<inter> set seen = {}"
proof (induction ents arbitrary: i seen gs)
  case (Cons ent ents)
  obtain n ms gs' where g: "parse_group ent = Some (n, ms)" "n \<notin> set seen"
    "parse_group_entries (i + 1) (n # seen) ents = Inr gs'" "gs = (n, ms) # gs'"
    using Cons.prems by (auto simp: rbind_eq_Inr split: if_splits option.splits)
  have "n \<noteq> [] \<and> list_all valid_include ms"
    using g(1) by (auto simp: parse_group_def dest: parse_bypass_valid split: option.splits if_splits)
  with Cons.IH [OF g(3)] g show ?case by auto
qed simp

lemma policy_parse_wf: "policy_parse j = Inr d \<Longrightarrow> wf_document d"
  by (auto simp: policy_parse_def wf_document_def rbind_eq_Inr parse_rules_def parse_groups_def
      dest!: parse_rule_entries_wf parse_group_entries_wf split: option.splits if_splits prod.splits)

lemma check_lockout_pairs:
  "check_lockout rs = None \<Longrightarrow> i < k \<Longrightarrow> k < length rs \<Longrightarrow> \<not> locks_out (rs ! i) (rs ! k)"
proof (induction rs arbitrary: i k)
  case (Cons r rs)
  have none: "\<not> locks_out r s" if "s \<in> set rs" for s
    using Cons.prems(1) that by (auto simp: find_None_iff split: option.splits)
  have rest: "check_lockout rs = None" using Cons.prems(1) by (auto split: option.splits)
  obtain k' where k: "k = Suc k'" using Cons.prems(2) by (cases k) auto
  show ?case
  proof (cases i)
    case 0
    then show ?thesis using none Cons.prems k by simp
  next
    case (Suc i')
    then show ?thesis using Cons.IH [OF rest] Cons.prems k by simp
  qed
qed simp

lemma selected_sets_overlap: "ref_selected a ref \<Longrightarrow> ref_selected b ref \<Longrightarrow> ref_sets_overlap a b"
proof -
  assume sel: "ref_selected a ref" "ref_selected b ref"
  have hit: "\<exists>p\<in>set (positives c). glob_match p ref" if "ref_selected c ref" "positives c \<noteq> []" for c
    using that by (auto simp: ref_selected_def selects_def positives_def filter_empty_conv)
  show "ref_sets_overlap a b"
  proof (cases "positives a = [] \<or> positives b = []")
    case False
    then obtain p q where "p \<in> set (positives a)" "glob_match p ref" "q \<in> set (positives b)" "glob_match q ref"
      using hit sel by blast
    then show ?thesis using common_match_overlaps [of p ref q] by (auto simp: ref_sets_overlap_def list_ex_iff)
  qed (auto simp: ref_sets_overlap_def)
qed

lemma spelling_equal_admits: "spelling_equal x y \<Longrightarrow> admits a g x \<Longrightarrow> admits a g y"
proof -
  assume eq: "spelling_equal x y" and "admits a g x"
  from this(2) show "admits a g y"
  proof cases
    case (principal name)
    with eq show ?thesis
      by (auto simp: spelling_equal_def equal_fold_def split: prod.splits if_splits intro: admits.principal)
  next
    case (tag name)
    with eq show ?thesis by (auto simp: spelling_equal_def split: prod.splits if_splits intro: admits.tag)
  next
    case (group name members m)
    with eq show ?thesis by (auto simp: spelling_equal_def split: prod.splits if_splits intro: admits.group)
  qed
qed

lemma spelling_equal_sym: "spelling_equal x y \<Longrightarrow> spelling_equal y x"
  by (auto simp: spelling_equal_def equal_fold_def split: prod.splits if_splits)

section \<open>Properties\<close>

text \<open>
  C19: what \<^verbatim>\<open>Parse\<close> accepts is well formed, whatever the JSON value: rule and group names are valid
  and distinct, every spelling is one, no list holds an empty pattern, and no two rules lock each
  other out. So no update can make the evaluation of an accepted document panic; it always returns a
  verdict.
\<close>

theorem accepted_policy_never_panics:
  assumes "policy_parse j = Inr d"
  shows "wf_document d \<and> evaluate (Some d) u \<noteq> None \<and> evaluate_protect (Some d) u \<noteq> None"
proof -
  have wf: "wf_document d" by (rule policy_parse_wf [OF assms])
  then show ?thesis by (simp add: wf_document_def evaluate_def evaluate_protect_def evaluate_rules_first)
qed

definition sample_policy :: json where
  "sample_policy = JObj [(''version'', JInt 1), (''future'', JBool True),
     (''rules'', JArr [
        JObj [(''name'', JStr ''main''), (''match'', JObj [(''refs'', JArr [JStr ''refs/heads/main''])]),
              (''effect'', JObj [(''protect'', JObj [(''restricts'', JArr [JStr ''force-push'']),
                                                 (''bypass'', JArr [JStr ''ann'', JStr ''@ops''])])])],
        JObj [(''name'', JStr ''all''), (''effect'', JObj [(''protect'', JObj [(''bypass'', JArr [JStr ''ANN''])])])]])]"

definition parsed_sample :: document where
  "parsed_sample = \<lparr>doc_version = 1, doc_groups = [],
     doc_rules =
       [\<lparr>rl_name = ''main'', rl_comment = [],
         rl_match = \<lparr>mk_refs = [''refs/heads/main''], mk_principals = [], mk_paths = []\<rparr>, rl_mode = [],
         rl_effect = Protect [OpForcePush] [''ann'', ''@ops''] []\<rparr>,
        \<lparr>rl_name = ''all'', rl_comment = [], rl_match = no_match, rl_mode = [],
         rl_effect = Protect [OpCreate, OpUpdate, OpDelete, OpForcePush] [''ANN''] []\<rparr>],
     doc_roster = []\<rparr>"

lemma parse_sample: "policy_parse sample_policy = Inr parsed_sample"
  by code_simp

lemma accepted_policy_never_panics_witness:
  "wf_document parsed_sample \<and> evaluate (Some parsed_sample) (sample_request ''zoe'') \<noteq> None"
  using accepted_policy_never_panics [OF parse_sample, of "sample_request ''zoe''"] by simp

text \<open>
  C18: the lockout check is conservative. In an accepted document, two protect rules that restrict the
  same operation on a common reference, both with a bypass list, always share a bypass spelling: one
  that admits exactly the same actors under every roster. So no pair of rules shuts out everybody
  that either of them means to let through.
\<close>

theorem lockout_check_sound:
  assumes "policy_parse j = Inr d" "i < k" "k < length (doc_rules d)"
    and "rl_effect (doc_rules d ! i) = Protect ops bypass checks" "bypass \<noteq> []"
    and "rl_effect (doc_rules d ! k) = Protect ops' bypass' checks'" "bypass' \<noteq> []"
    and "op \<in> set ops" "op \<in> set ops'"
    and "ref_selected (mk_refs (rl_match (doc_rules d ! i))) ref"
    and "ref_selected (mk_refs (rl_match (doc_rules d ! k))) ref"
  shows "\<exists>x\<in>set bypass. \<exists>y\<in>set bypass'. \<forall>a g. admits a g x \<longleftrightarrow> admits a g y"
proof -
  have "check_lockout (doc_rules d) = None" using policy_parse_wf [OF assms(1)] by (simp add: wf_document_def)
  then have "\<not> locks_out (doc_rules d ! i) (doc_rules d ! k)" by (rule check_lockout_pairs) (use assms in simp_all)
  moreover have "ops_overlap ops ops'" using assms(8,9) by (auto simp: ops_overlap_def list_ex_iff)
  ultimately have "\<not> bypasses_disjoint bypass bypass'"
    using assms(4-7) selected_sets_overlap [OF assms(10,11)] by (simp add: locks_out_def)
  then obtain x y where "x \<in> set bypass" "y \<in> set bypass'" "spelling_equal x y"
    by (auto simp: bypasses_disjoint_def list_ex_iff)
  moreover from this(3) have "admits a g x \<longleftrightarrow> admits a g y" for a g
    using spelling_equal_admits spelling_equal_sym by blast
  ultimately show ?thesis by blast
qed

lemma lockout_check_sound_witness:
  "\<exists>x\<in>set [''ann'', ''@ops'']. \<exists>y\<in>set [''ANN'']. \<forall>a g. admits a g x \<longleftrightarrow> admits a g y"
proof (rule lockout_check_sound [OF parse_sample, where op = OpForcePush])
  show "(0::nat) < 1" "1 < length (doc_rules parsed_sample)" by (simp_all add: parsed_sample_def)
  show "rl_effect (doc_rules parsed_sample ! 0) = Protect [OpForcePush] [''ann'', ''@ops''] []"
    "rl_effect (doc_rules parsed_sample ! 1) = Protect [OpCreate, OpUpdate, OpDelete, OpForcePush] [''ANN''] []"
    by (simp_all add: parsed_sample_def)
  show "ref_selected (mk_refs (rl_match (doc_rules parsed_sample ! 0))) ''refs/heads/main''"
    "ref_selected (mk_refs (rl_match (doc_rules parsed_sample ! 1))) ''refs/heads/main''"
    by (simp_all add: parsed_sample_def no_match_def ref_selected_def selects_def excludes_def)
qed simp_all

end
