(* ===== verification/Access.thy ===== *)
theory Access
  imports Policy_File "HOL-Library.Multiset"
begin

text \<open>
  Who may read, push to and administer a repository: \<^verbatim>\<open>internal/identity/identity.go\<close>, \<^verbatim>\<open>access.go\<close>,
  \<^verbatim>\<open>gate.go\<close>, \<^verbatim>\<open>pushgate.go\<close>, \<^verbatim>\<open>creategate.go\<close> and the user names of \<^verbatim>\<open>internal/server/auth\<close>. The
  documents in the bucket are what a \<open>directory\<close> answers for an exact key, with a failed or
  unreadable read as \<open>Unavailable\<close>; the caches in front of them only save requests and are left out.

  Names are folded and trimmed as ASCII, like the rest of the development does. \<^verbatim>\<open>mail.ParseAddress\<close>,
  which decides whether a name is an e-mail address, is the parameter \<open>is_email\<close>.
\<close>

section \<open>Names and roles\<close>

definition role_rank :: "string \<Rightarrow> nat" where
  "role_rank r =
     (if r = ''read'' then 1 else if r = ''triage'' then 2 else if r = ''write'' then 3
      else if r = ''maintain'' then 4 else if r = ''admin'' then 5 else 0)"

definition valid_role :: "string \<Rightarrow> bool" where
  "valid_role r \<longleftrightarrow> 0 < role_rank r"

definition at_least :: "string \<Rightarrow> string \<Rightarrow> bool" where
  "at_least r want \<longleftrightarrow> role_rank want \<le> role_rank r"

definition valid_org_role :: "string \<Rightarrow> bool" where
  "valid_org_role r \<longleftrightarrow> r = ''owner'' \<or> r = ''member''"

definition valid_visibility :: "string \<Rightarrow> bool" where
  "valid_visibility v \<longleftrightarrow> v = ''public'' \<or> v = ''authenticated'' \<or> v = ''private''"

definition slug_char :: "char \<Rightarrow> bool" where
  "slug_char c \<longleftrightarrow> char_in (CHR ''a'') (CHR ''z'') c \<or> char_in (CHR ''0'') (CHR ''9'') c \<or> c = CHR ''-''"

definition valid_org :: "string \<Rightarrow> bool" where
  "valid_org s \<longleftrightarrow> 1 \<le> length s \<and> length s \<le> 39 \<and> list_all slug_char s"

definition valid_slug :: "string \<Rightarrow> bool" where
  "valid_slug s \<longleftrightarrow> 1 \<le> length s \<and> length s \<le> 64 \<and> list_all slug_char s"

definition to_lower :: "string \<Rightarrow> string" where
  "to_lower s = map lower_ascii s"

definition norm_principal :: "string \<Rightarrow> string" where
  "norm_principal p = to_lower (trim_space p)"

definition username_char :: "char \<Rightarrow> bool" where
  "username_char c \<longleftrightarrow> slug_char c \<or> c = CHR ''.'' \<or> c = CHR ''_''"

definition valid_username :: "string \<Rightarrow> bool" where
  "valid_username s \<longleftrightarrow>
     \<not> (length s = 0 \<or> 64 < length s \<or> s = ''..'' \<or> hd s = CHR ''.'') \<and> list_all username_char s"

definition reserved_usernames :: "string list" where
  "reserved_usernames = [''anonymous'', ''anon'']"

definition synthetic :: "string \<Rightarrow> bool" where
  "synthetic name \<longleftrightarrow> norm_principal name \<in> set reserved_usernames"

definition valid_principal :: "(string \<Rightarrow> bool) \<Rightarrow> string \<Rightarrow> bool" where
  "valid_principal is_email p \<longleftrightarrow>
     (let p = norm_principal p
      in \<not> (p = [] \<or> 254 < length p \<or> CHR ''/'' \<in> set p) \<and> (valid_username p \<or> is_email p))"

definition is_email_owner :: "(string \<Rightarrow> bool) \<Rightarrow> string \<Rightarrow> bool" where
  "is_email_owner is_email owner \<longleftrightarrow>
     CHR ''@'' \<in> set (norm_principal owner) \<and> valid_principal is_email (norm_principal owner)"

subsection \<open>User names of addresses\<close>

text \<open>The part before the last \<^verbatim>\<open>@\<close>, or all of it.\<close>

definition local_part :: "string \<Rightarrow> string" where
  "local_part email =
     (if CHR ''@'' \<in> set email then rev (tl (dropWhile (\<lambda>c. c \<noteq> CHR ''@'') (rev email))) else email)"

definition trim_right_dots :: "string \<Rightarrow> string" where
  "trim_right_dots s = rev (dropWhile (\<lambda>c. c = CHR ''.'') (rev s))"

definition derive_username :: "string \<Rightarrow> string" where
  "derive_username email =
     (let folded = map (\<lambda>c. if username_char c then c else CHR ''-'') (local_part (norm_principal email));
          out = trim_right_dots (take 64 (dropWhile (\<lambda>c. c = CHR ''.'') folded));
          out = (if out = [] \<or> out = ''..'' then ''user'' else out)
      in if out \<in> set reserved_usernames then out @ ''-user'' else out)"

definition with_collision_suffix :: "string \<Rightarrow> nat \<Rightarrow> string" where
  "with_collision_suffix base i =
     (if i = 0 then base
      else
        let suf = decimal (i + 1);
            base = (if 64 < length base + length suf then trim_right_dots (take (64 - length suf) base) else base)
        in base @ suf)"

section \<open>Documents\<close>

record principal =
  pr_name :: string
  pr_email :: string
  pr_write :: bool
  pr_admin :: bool
  pr_anonymous :: bool

record access_binding =
  ab_subject :: string
  ab_role :: string

record access_doc =
  ad_version :: int
  ad_visibility :: string
  ad_bindings :: "access_binding list"
  ad_updated_at :: string

record member =
  mb_principal :: string
  mb_role :: string
  mb_joined_at :: string

record roster =
  ro_version :: int
  ro_members :: "member list"
  ro_updated_at :: string

record team =
  tm_org :: string
  tm_slug :: string
  tm_name :: string
  tm_description :: string
  tm_members :: "string list"
  tm_version :: int
  tm_created_at :: string
  tm_updated_at :: string

datatype 'a answer = Unavailable | Absent | Found 'a

record directory =
  dr_access :: "string \<Rightarrow> string \<Rightarrow> access_doc answer"
  dr_team :: "string \<Rightarrow> string \<Rightarrow> team answer"
  dr_members :: "string \<Rightarrow> roster answer"
  dr_org :: "string \<Rightarrow> bool answer"
  dr_user :: "string \<Rightarrow> bool answer"

definition match_principal :: "string \<Rightarrow> principal \<Rightarrow> bool" where
  "match_principal stored p \<longleftrightarrow>
     (let s = norm_principal stored
      in s \<noteq> [] \<and> (s = norm_principal (pr_name p) \<or> pr_email p \<noteq> [] \<and> s = norm_principal (pr_email p)))"

datatype access_error = BadSubject string | BadRole string | BadVisibility string | DuplicateSubject string

definition valid_subject :: "(string \<Rightarrow> bool) \<Rightarrow> string \<Rightarrow> bool" where
  "valid_subject is_email sub \<longleftrightarrow>
     (case cut_prefix ''user:'' sub of
        Some rest \<Rightarrow> valid_principal is_email rest \<and> \<not> synthetic rest
      | None \<Rightarrow>
          (case cut_prefix ''team:'' sub of
             Some rest \<Rightarrow> (case cut_char (CHR ''/'') rest of
                             None \<Rightarrow> False | Some (org, slug) \<Rightarrow> valid_org org \<and> valid_slug slug)
           | None \<Rightarrow> False))"

text \<open>
  \<^verbatim>\<open>normalizeAccess\<close>: a user subject is folded to the form the rest of the code compares. The loop
  keeps the subjects it has seen, in lower case.
\<close>

definition fold_subject :: "access_binding \<Rightarrow> access_binding" where
  "fold_subject b =
     (if prefix ''user:'' (to_lower (ab_subject b))
      then b\<lparr>ab_subject := ''user:'' @ norm_principal (case cut_prefix ''user:'' (ab_subject b) of
                                                       Some r \<Rightarrow> r | None \<Rightarrow> ab_subject b)\<rparr>
      else b)"

fun normalize_bindings :: "(string \<Rightarrow> bool) \<Rightarrow> string list \<Rightarrow> access_binding list \<Rightarrow> access_error + access_binding list" where
  "normalize_bindings is_email seen [] = Inr []"
| "normalize_bindings is_email seen (b # bs) =
     (if \<not> valid_subject is_email (ab_subject b) then Inl (BadSubject (ab_subject b))
      else if \<not> valid_role (ab_role b) then Inl (BadRole (ab_role b))
      else
        let b = fold_subject b; key = to_lower (ab_subject b)
        in if key \<in> set seen then Inl (DuplicateSubject (ab_subject b))
           else rbind (normalize_bindings is_email (key # seen) bs) (\<lambda>out. Inr (b # out)))"

definition normalize_access ::
  "(string \<Rightarrow> bool) \<Rightarrow> string \<Rightarrow> access_binding list \<Rightarrow> access_error + string \<times> access_binding list" where
  "normalize_access is_email vis bindings =
     (if \<not> valid_visibility vis then Inl (BadVisibility vis)
      else rbind (normalize_bindings is_email [] bindings) (\<lambda>out. Inr (vis, sort_key ab_subject out)))"

section \<open>Reading the documents\<close>

definition org_exists :: "directory \<Rightarrow> string \<Rightarrow> bool" where
  "org_exists d org \<longleftrightarrow> valid_org (norm_principal org) \<and> dr_org d (norm_principal org) = Found True"

definition user_exists :: "directory \<Rightarrow> string \<Rightarrow> bool" where
  "user_exists d name \<longleftrightarrow> valid_username (norm_principal name) \<and> dr_user d (norm_principal name) = Found True"

definition is_user_namespace :: "(string \<Rightarrow> bool) \<Rightarrow> directory \<Rightarrow> string \<Rightarrow> bool" where
  "is_user_namespace is_email d owner \<longleftrightarrow>
     (if \<not> valid_principal is_email owner \<or> synthetic owner then False
      else if is_email_owner is_email owner then True
      else \<not> org_exists d owner \<and> user_exists d owner)"

definition default_doc :: "string \<Rightarrow> bool \<Rightarrow> access_doc" where
  "default_doc owner bind =
     \<lparr>ad_version = 0, ad_visibility = ''public'',
      ad_bindings = (if bind then [\<lparr>ab_subject = ''user:'' @ norm_principal owner, ab_role = ''admin''\<rparr>] else []),
      ad_updated_at = []\<rparr>"

definition synthesize_default :: "(string \<Rightarrow> bool) \<Rightarrow> string \<Rightarrow> access_doc" where
  "synthesize_default is_email owner = default_doc owner (is_email_owner is_email owner)"

definition synthesize_owner :: "(string \<Rightarrow> bool) \<Rightarrow> directory \<Rightarrow> string \<Rightarrow> access_doc" where
  "synthesize_owner is_email d owner = default_doc owner (is_user_namespace is_email d owner)"

definition get_access :: "(string \<Rightarrow> bool) \<Rightarrow> directory \<Rightarrow> string \<Rightarrow> string \<Rightarrow> access_doc option" where
  "get_access is_email d owner repo =
     (case dr_access d owner repo of
        Unavailable \<Rightarrow> None
      | Absent \<Rightarrow> Some (synthesize_owner is_email d owner)
      | Found doc \<Rightarrow> Some doc)"

definition repo_visibility :: "(string \<Rightarrow> bool) \<Rightarrow> directory \<Rightarrow> string \<Rightarrow> string \<Rightarrow> string" where
  "repo_visibility is_email d owner repo =
     (case get_access is_email d owner repo of None \<Rightarrow> ''public'' | Some doc \<Rightarrow> ad_visibility doc)"

definition org_roster_role :: "directory \<Rightarrow> string \<Rightarrow> principal \<Rightarrow> string option" where
  "org_roster_role d org p =
     (case dr_members d org of
        Found m \<Rightarrow>
          (case List.find (\<lambda>e. match_principal (mb_principal e) p) (ro_members m) of
             None \<Rightarrow> None
           | Some e \<Rightarrow> Some (if mb_role e = ''owner'' then ''admin'' else ''read''))
      | _ \<Rightarrow> None)"

definition is_org_owner :: "directory \<Rightarrow> string \<Rightarrow> principal \<Rightarrow> bool" where
  "is_org_owner d org p \<longleftrightarrow> org_roster_role d org p = Some ''admin''"

definition in_team :: "directory \<Rightarrow> string \<Rightarrow> principal \<Rightarrow> bool" where
  "in_team d team p \<longleftrightarrow>
     (case cut_char (CHR ''/'') team of
        None \<Rightarrow> False
      | Some (org, slug) \<Rightarrow>
          (case dr_team d org slug of Found t \<Rightarrow> list_ex (\<lambda>m. match_principal m p) (tm_members t) | _ \<Rightarrow> False))"

section \<open>Resolution\<close>

definition binding_matches :: "directory \<Rightarrow> principal \<Rightarrow> access_binding \<Rightarrow> bool" where
  "binding_matches d p b \<longleftrightarrow>
     (case cut_prefix ''user:'' (ab_subject b) of
        Some sub \<Rightarrow> match_principal sub p
      | None \<Rightarrow> (case cut_prefix ''team:'' (ab_subject b) of Some team \<Rightarrow> in_team d team p | None \<Rightarrow> False))"

definition better :: "directory \<Rightarrow> principal \<Rightarrow> access_binding \<Rightarrow> string \<Rightarrow> string" where
  "better d p b best = (if binding_matches d p b \<and> role_rank best < role_rank (ab_role b) then ab_role b else best)"

definition best_binding :: "directory \<Rightarrow> principal \<Rightarrow> access_binding list \<Rightarrow> string" where
  "best_binding d p bs = fold (better d p) bs []"

definition resolve :: "(string \<Rightarrow> bool) \<Rightarrow> directory \<Rightarrow> string \<Rightarrow> string \<Rightarrow> principal \<Rightarrow> string \<times> access_doc" where
  "resolve is_email d owner repo p =
     (let doc = (case get_access is_email d owner repo of None \<Rightarrow> synthesize_default is_email owner | Some doc \<Rightarrow> doc);
          best = (if pr_anonymous p then []
                  else
                    let best = best_binding d p (ad_bindings doc);
                        best = (if best = [] then (case org_roster_role d owner p of Some r \<Rightarrow> r | None \<Rightarrow> best) else best)
                    in if best = [] \<and> ad_visibility doc = ''authenticated'' then ''read'' else best);
          best = (if best = [] \<and> pr_admin p then ''admin'' else best);
          best = (if best = [] \<and> pr_anonymous p \<and> ad_visibility doc = ''public'' then ''read'' else best)
      in (best, doc))"

section \<open>Gates\<close>

datatype auth_error = Unauthorized | Forbidden | AuthUnavailable

definition check_read :: "(string \<Rightarrow> bool) \<Rightarrow> directory \<Rightarrow> string \<Rightarrow> string \<Rightarrow> principal \<Rightarrow> auth_error option" where
  "check_read is_email d owner repo p =
     (if pr_admin p then None
      else case resolve is_email d owner repo p of
        (role, doc) \<Rightarrow>
          if pr_anonymous p then (if ad_visibility doc = ''public'' then None else Some Unauthorized)
          else if at_least role ''read'' then None
          else if ad_visibility doc = ''public'' then None
          else Some Forbidden)"

definition check_role :: "(string \<Rightarrow> bool) \<Rightarrow> directory \<Rightarrow> string \<Rightarrow> string \<Rightarrow> principal \<Rightarrow> string \<Rightarrow> auth_error option" where
  "check_role is_email d owner repo p want =
     (if pr_admin p then None
      else if at_least (fst (resolve is_email d owner repo p)) want then None
      else if pr_anonymous p then Some Unauthorized
      else Some Forbidden)"

definition check_org_owner :: "directory \<Rightarrow> string \<Rightarrow> principal \<Rightarrow> auth_error option" where
  "check_org_owner d org p =
     (if pr_admin p then None
      else if pr_anonymous p then Some Unauthorized
      else if is_org_owner d org p then None
      else Some Forbidden)"

definition check_push :: "(string \<Rightarrow> bool) \<Rightarrow> directory \<Rightarrow> string \<Rightarrow> string \<Rightarrow> principal \<Rightarrow> auth_error option" where
  "check_push is_email d owner repo p =
     (if pr_admin p then None
      else if pr_anonymous p then Some Unauthorized
      else if norm_principal owner = norm_principal (pr_name p) then None
      else
        let bare = \<lparr>pr_name = pr_name p, pr_email = pr_email p, pr_write = False, pr_admin = False, pr_anonymous = False\<rparr>
        in if at_least (fst (resolve is_email d owner repo bare)) ''write'' then None else Some Forbidden)"

definition check_create_owner :: "directory \<Rightarrow> string \<Rightarrow> principal \<Rightarrow> auth_error option" where
  "check_create_owner d owner p =
     (if pr_anonymous p then Some Unauthorized
      else if pr_admin p then None
      else if norm_principal owner = norm_principal (pr_name p) then None
      else case dr_members d owner of
             Unavailable \<Rightarrow> Some AuthUnavailable
           | Absent \<Rightarrow> Some Forbidden
           | Found m \<Rightarrow>
               if list_ex (\<lambda>e. match_principal (mb_principal e) p) (ro_members m) then None else Some Forbidden)"

section \<open>Expanding teams and roles\<close>

definition add_principal :: "string \<Rightarrow> string list \<Rightarrow> string list" where
  "add_principal p out =
     (let p = norm_principal p in if p \<noteq> [] \<and> p \<notin> set out then out @ [p] else out)"

definition binding_principals :: "directory \<Rightarrow> access_binding \<Rightarrow> string list" where
  "binding_principals d b =
     (case cut_prefix ''user:'' (ab_subject b) of
        Some sub \<Rightarrow> [sub]
      | None \<Rightarrow>
          (case cut_prefix ''team:'' (ab_subject b) of
             None \<Rightarrow> []
           | Some team \<Rightarrow>
               (case (case cut_char (CHR ''/'') team of Some (org, slug) \<Rightarrow> dr_team d org slug | None \<Rightarrow> dr_team d team []) of
                  Found t \<Rightarrow> tm_members t | _ \<Rightarrow> [])))"

text \<open>The result is \<open>None\<close> for an unresolvable reference.\<close>

definition expand_role :: "(string \<Rightarrow> bool) \<Rightarrow> directory \<Rightarrow> string \<Rightarrow> string list option" where
  "expand_role is_email d ref =
     (case cut_char (CHR '':'') ref of
        None \<Rightarrow> None
      | Some (rest, want) \<Rightarrow>
          if \<not> valid_role want then None
          else case cut_char (CHR ''/'') rest of
                 None \<Rightarrow> None
               | Some (owner, repo) \<Rightarrow>
                   if owner = [] \<or> repo = [] then None
                   else case get_access is_email d owner repo of
                          None \<Rightarrow> None
                        | Some doc \<Rightarrow>
                            let bound = concat (map (binding_principals d)
                                          (filter (\<lambda>b. at_least (ab_role b) want) (ad_bindings doc)));
                                owners = (case dr_members d owner of
                                            Found m \<Rightarrow> map mb_principal (filter (\<lambda>e. mb_role e = ''owner'') (ro_members m))
                                          | _ \<Rightarrow> [])
                            in Some (fold add_principal (bound @ owners) []))"

definition expand_member :: "(string \<Rightarrow> bool) \<Rightarrow> directory \<Rightarrow> string \<Rightarrow> string list \<times> string list" where
  "expand_member is_email d m =
     (case cut_prefix ''team:'' m of
        Some team \<Rightarrow>
          (let bad = ([], [''unresolvable team reference '' @ m]) in
           case cut_char (CHR ''/'') team of
             None \<Rightarrow> bad
           | Some (org, slug) \<Rightarrow>
               if \<not> valid_org org \<or> \<not> valid_slug slug then bad
               else (case dr_team d org slug of Found t \<Rightarrow> (tm_members t, []) | _ \<Rightarrow> bad))
      | None \<Rightarrow>
          (case cut_prefix ''role:'' m of
             Some ref \<Rightarrow>
               (case expand_role is_email d ref of
                  None \<Rightarrow> ([], [''unresolvable role reference role:'' @ ref])
                | Some ps \<Rightarrow> (ps, []))
           | None \<Rightarrow> ([m], [])))"

definition expand_members :: "(string \<Rightarrow> bool) \<Rightarrow> directory \<Rightarrow> expand_fun" where
  "expand_members is_email d members =
     (concat (map (fst \<circ> expand_member is_email d) members), concat (map (snd \<circ> expand_member is_email d) members))"

section \<open>Names\<close>

lemma slug_username_char: "slug_char c \<Longrightarrow> username_char c"
  by (simp add: username_char_def)

lemma lower_username_char: "username_char c \<Longrightarrow> lower_ascii c = c \<and> \<not> is_space c \<and> c \<noteq> CHR ''@''"
  by (auto simp: username_char_def slug_char_def lower_ascii_def is_space_def char_in_def
      dest: order_trans [of "CHR ''a''" c "CHR ''Z''"] order_trans [of "CHR ''A''" c "CHR ''9''"])

lemma reserved_not_suffixed: "out @ ''-user'' \<notin> set reserved_usernames"
  by (auto simp: reserved_usernames_def append_eq_Cons_conv)

lemma trim_right_dots_props:
  assumes "trim_right_dots s \<noteq> []"
  shows "hd (trim_right_dots s) = hd s" "set (trim_right_dots s) \<subseteq> set s"
    "length (trim_right_dots s) \<le> length s" "last (trim_right_dots s) \<noteq> CHR ''.''"
proof -
  let ?w = "dropWhile (\<lambda>c. c = CHR ''.'') (rev s)"
  have s: "s = trim_right_dots s @ rev (takeWhile (\<lambda>c. c = CHR ''.'') (rev s))"
    by (metis rev_append rev_rev_ident takeWhile_dropWhile_id trim_right_dots_def)
  show "hd (trim_right_dots s) = hd s" using assms by (subst (2) s) simp
  show "set (trim_right_dots s) \<subseteq> set s" by (subst (2) s) simp
  show "length (trim_right_dots s) \<le> length s" by (subst (2) s) simp
  show "last (trim_right_dots s) \<noteq> CHR ''.''"
    using assms hd_dropWhile[of "\<lambda>c. c = CHR ''.''" "rev s"] by (simp add: trim_right_dots_def last_rev)
qed

lemma valid_usernameI:
  assumes "s \<noteq> []" "length s \<le> 64" "hd s \<noteq> CHR ''.''" "set s \<subseteq> Collect username_char"
  shows "valid_username s"
  using assms by (auto simp: valid_username_def list_all_iff)

lemma derive_username_folded:
  obtains t where "length t \<le> 64" "t \<noteq> [] \<Longrightarrow> hd t \<noteq> CHR ''.''" "set t \<subseteq> Collect username_char"
    "derive_username email =
       (let out = trim_right_dots t; out = (if out = [] \<or> out = ''..'' then ''user'' else out)
        in if out \<in> set reserved_usernames then out @ ''-user'' else out)"
proof -
  let ?f = "map (\<lambda>c. if username_char c then c else CHR ''-'') (local_part (norm_principal email))"
  let ?t = "take 64 (dropWhile (\<lambda>c. c = CHR ''.'') ?f)"
  have "set ?t \<subseteq> Collect username_char"
    by (auto dest!: in_set_takeD set_dropWhileD simp: username_char_def slug_char_def)
  moreover have "?t \<noteq> [] \<Longrightarrow> hd ?t \<noteq> CHR ''.''"
    using hd_dropWhile [of "\<lambda>c. c = CHR ''.''" ?f] by (simp add: hd_take del: dropWhile_eq_Nil_conv)
  moreover have "length ?t \<le> 64" by (simp only: length_take min.cobounded2)
  moreover have "derive_username email =
       (let out = trim_right_dots ?t; out = (if out = [] \<or> out = ''..'' then ''user'' else out)
        in if out \<in> set reserved_usernames then out @ ''-user'' else out)"
    by (simp only: derive_username_def Let_def)
  ultimately show thesis using that by blast
qed

lemma derive_username_cases:
  obtains "derive_username email = ''user''"
  | s where "s \<noteq> []" "length s \<le> 64" "hd s \<noteq> CHR ''.''" "set s \<subseteq> Collect username_char"
      "derive_username email = (if s \<in> set reserved_usernames then s @ ''-user'' else s)"
proof -
  obtain t where t: "length t \<le> 64" "t \<noteq> [] \<Longrightarrow> hd t \<noteq> CHR ''.''" "set t \<subseteq> Collect username_char"
    and eq: "derive_username email =
       (let out = trim_right_dots t; out = (if out = [] \<or> out = ''..'' then ''user'' else out)
        in if out \<in> set reserved_usernames then out @ ''-user'' else out)"
    by (rule derive_username_folded [of email]) blast
  show thesis
  proof (cases "trim_right_dots t = []")
    case True
    then show thesis using that(1) eq by (simp add: reserved_usernames_def)
  next
    case False
    note tr = trim_right_dots_props[OF False]
    have ne: "t \<noteq> []" using False by (auto simp: trim_right_dots_def)
    have "last ''..'' = CHR ''.''" by simp
    then have dd: "trim_right_dots t \<noteq> ''..''" using tr(4) by metis
    show thesis
      by (rule that(2) [OF False]) (use tr(1-3) t ne False dd eq in auto)
  qed
qed

lemma digit_username_char: "n < 10 \<Longrightarrow> username_char (digit n)"
proof -
  assume "n < 10"
  then have "n = 0 \<or> n = 1 \<or> n = 2 \<or> n = 3 \<or> n = 4 \<or> n = 5 \<or> n = 6 \<or> n = 7 \<or> n = 8 \<or> n = 9" by arith
  then show ?thesis by (elim disjE; simp; code_simp)
qed

lemma decimal_username_char: "set (decimal n) \<subseteq> Collect username_char"
  by (induction n rule: decimal.induct) (subst decimal.simps, simp add: digit_username_char)

lemma decimal_length: "n < 10 ^ Suc k \<Longrightarrow> length (decimal n) \<le> Suc k"
proof (induction k arbitrary: n)
  case (Suc k)
  then have "n div 10 < 10 ^ Suc k" by (simp add: less_mult_imp_div_less mult.commute)
  then show ?case using Suc.IH[of "n div 10"] by (subst decimal.simps) simp
qed (subst decimal.simps, simp)

lemma drop_spaces_id: "\<forall>c \<in> set s. \<not> is_space c \<Longrightarrow> trim_space s = s"
  by (cases "s = []") (simp add: trim_space_def, rule trim_space_id, auto)

lemma norm_username: "set s \<subseteq> Collect username_char \<Longrightarrow> norm_principal s = s"
proof -
  assume s: "set s \<subseteq> Collect username_char"
  then have "\<forall>c \<in> set s. \<not> is_space c" using lower_username_char by auto
  then show ?thesis
    using s lower_username_char by (auto simp: norm_principal_def drop_spaces_id to_lower_def intro!: map_idI)
qed

lemma valid_username_chars: "valid_username s \<Longrightarrow> s \<noteq> [] \<and> length s \<le> 64 \<and> hd s \<noteq> CHR ''.'' \<and> set s \<subseteq> Collect username_char"
  by (auto simp: valid_username_def list_all_iff)

lemma collision_suffix_valid:
  assumes "valid_username base" "i < 100"
  shows "valid_username (with_collision_suffix base i)"
proof (cases "i = 0")
  case False
  note b = valid_username_chars[OF assms(1)]
  let ?suf = "decimal (i + 1)"
  let ?t = "trim_right_dots (take (64 - length ?suf) base)"
  have suf: "length ?suf \<le> 3" using assms(2) decimal_length [of "i + 1" 2] by simp
  have t: "?t \<noteq> []" "hd ?t = hd base" "set ?t \<subseteq> set base" "length ?t \<le> 64 - length ?suf"
  proof -
    have ne: "take (64 - length ?suf) base \<noteq> []" and hd: "hd (take (64 - length ?suf) base) = hd base"
      using b suf by (auto simp: hd_take)
    show t0: "?t \<noteq> []"
    proof
      assume "?t = []"
      then have "\<forall>c \<in> set (take (64 - length ?suf) base). c = CHR ''.''"
        by (simp add: trim_right_dots_def dropWhile_eq_Nil_conv)
      then show False using b ne hd hd_in_set by metis
    qed
    show "hd ?t = hd base" using trim_right_dots_props(1)[OF t0] hd by simp
    show "set ?t \<subseteq> set base" using trim_right_dots_props(2)[OF t0] set_take_subset by fast
    show "length ?t \<le> 64 - length ?suf" using trim_right_dots_props(3)[OF t0] by simp
  qed
  have "set ?t \<subseteq> Collect username_char" using t(3) b by blast
  then show ?thesis
    using False b suf t decimal_username_char[of "i + 1"]
    by (intro valid_usernameI) (auto simp: with_collision_suffix_def Let_def)
qed (simp add: with_collision_suffix_def assms)

text \<open>
  every user name the server hands out is usable. Whatever the address, the derived name is a
  valid user name, so a valid owner of a repository, and never one of the synthetic principals; and
  every candidate of the collision loop built from a valid name is a valid name of at most 64
  characters.
\<close>

theorem derived_username_valid:
  "valid_username (derive_username email) \<and> \<not> synthetic (derive_username email)
   \<and> (\<forall>i < 100. valid_username (with_collision_suffix (derive_username email) i))"
proof -
  have "valid_username (derive_username email) \<and> derive_username email \<notin> set reserved_usernames"
  proof (cases email rule: derive_username_cases)
    case 1
    then show ?thesis by simp code_simp
  next
    case (2 s)
    show ?thesis
    proof (cases "s \<in> set reserved_usernames")
      case True
      then show ?thesis using 2(5) by (auto simp: reserved_usernames_def valid_username_def list_all_iff username_char_def slug_char_def char_in_def)
    next
      case False
      then show ?thesis using 2 by (simp add: valid_usernameI)
    qed
  qed
  moreover have "norm_principal (derive_username email) = derive_username email"
    using calculation valid_username_chars norm_username by blast
  ultimately show ?thesis by (simp add: synthetic_def collision_suffix_valid)
qed

section \<open>Access documents\<close>

lemma lower_lower [simp]: "lower_ascii (lower_ascii c) = lower_ascii c"
proof (cases "char_in (CHR ''A'') (CHR ''Z'') c")
  case True
  then have "of_char c + 32 < (256 :: nat) \<and> 90 < of_char c + (32 :: nat)"
    by (auto simp: char_in_def less_eq_char_def)
  then show ?thesis using True by (simp add: lower_ascii_def char_in_def less_eq_char_def)
qed (simp add: lower_ascii_def)

lemma is_space_lower [simp]: "is_space (lower_ascii c) = is_space c"
proof (cases "char_in (CHR ''A'') (CHR ''Z'') c")
  case True
  then have c: "65 \<le> (of_char c :: nat)" "of_char c \<le> (90 :: nat)" by (auto simp: char_in_def less_eq_char_def)
  then have "\<not> is_space c" by (auto simp: is_space_def)
  moreover have "(of_char (lower_ascii c) :: nat) = of_char c + 32" using True c by (simp add: lower_ascii_def)
  then have "\<not> is_space (lower_ascii c)" using c by (auto simp: is_space_def)
  ultimately show ?thesis by simp
qed (simp add: lower_ascii_def)

lemma trim_space_lower: "trim_space (to_lower s) = to_lower (trim_space s)"
  by (simp add: trim_space_def to_lower_def dropWhile_map rev_map comp_def)

lemma trim_space_ends:
  assumes "trim_space s \<noteq> []"
  shows "\<not> is_space (hd (trim_space s))" "\<not> is_space (last (trim_space s))"
proof -
  let ?x = "dropWhile is_space s" and ?y = "dropWhile is_space (rev (dropWhile is_space s))"
  have y: "?y \<noteq> []" using assms by (simp add: trim_space_def)
  then show "\<not> is_space (last (trim_space s))" using hd_dropWhile[OF y] by (simp add: trim_space_def last_rev)
  have x: "?x \<noteq> []" using y by (metis dropWhile.simps(1) rev.simps(1))
  have "?x = rev ?y @ rev (takeWhile is_space (rev ?x))" by (metis rev_append rev_rev_ident takeWhile_dropWhile_id)
  then have "hd (rev ?y) = hd ?x" using y by (metis hd_append2 rev_is_Nil_conv)
  then show "\<not> is_space (hd (trim_space s))" using hd_dropWhile[OF x] by (simp add: trim_space_def)
qed

lemma trim_space_idem: "trim_space (trim_space s) = trim_space s"
proof (cases "trim_space s = []")
  case True
  then show ?thesis by (simp only: True) (simp add: trim_space_def)
next
  case False
  then show ?thesis by (simp add: trim_space_id trim_space_ends)
qed

lemma norm_idem [simp]: "norm_principal (norm_principal s) = norm_principal s"
  by (simp add: norm_principal_def trim_space_lower trim_space_idem) (simp add: to_lower_def)

definition canonical_binding :: "(string \<Rightarrow> bool) \<Rightarrow> access_binding \<Rightarrow> bool" where
  "canonical_binding is_email b \<longleftrightarrow> valid_subject is_email (ab_subject b) \<and> valid_role (ab_role b) \<and> fold_subject b = b"

abbreviation binding_key :: "access_binding \<Rightarrow> string" where
  "binding_key b \<equiv> to_lower (ab_subject b)"

lemma prefix_to_lower: "prefix p s \<Longrightarrow> prefix (to_lower p) (to_lower s)"
  by (auto simp: prefix_def to_lower_def)

lemma to_lower_user [simp]: "to_lower ''user:'' = ''user:''"
  by (simp add: to_lower_def lower_ascii_def char_in_def less_eq_char_def)

lemma fold_subject_user: "ab_subject b = ''user:'' @ x \<Longrightarrow> fold_subject b = b\<lparr>ab_subject := ''user:'' @ norm_principal x\<rparr>"
  using prefix_to_lower [of "''user:''" "ab_subject b"] by (simp add: fold_subject_def cut_prefix_def)

lemma fold_subject_other: "\<not> prefix ''user:'' (to_lower (ab_subject b)) \<Longrightarrow> fold_subject b = b"
  by (simp add: fold_subject_def)

lemma valid_principal_norm [simp]: "valid_principal is_email (norm_principal p) = valid_principal is_email p"
  by (simp add: valid_principal_def)

lemma synthetic_norm [simp]: "synthetic (norm_principal p) = synthetic p"
  by (simp add: synthetic_def)

lemma fold_subject_canonical:
  assumes "valid_subject is_email (ab_subject b)" "valid_role (ab_role b)"
  shows "canonical_binding is_email (fold_subject b)"
proof (cases "prefix ''user:'' (ab_subject b)")
  case True
  then obtain x where x: "ab_subject b = ''user:'' @ x" by (auto simp: prefix_def)
  then have "valid_principal is_email x \<and> \<not> synthetic x" using assms(1) by (simp add: valid_subject_def cut_prefix_def)
  then show ?thesis
    using assms(2) fold_subject_user [OF x] fold_subject_user [of "fold_subject b" "norm_principal x"]
    by (simp add: canonical_binding_def valid_subject_def cut_prefix_def)
next
  case False
  then obtain x where x: "ab_subject b = ''team:'' @ x"
    using assms(1) by (auto simp: valid_subject_def cut_prefix_def prefix_def split: if_splits)
  have "\<not> prefix ''user:'' (to_lower (ab_subject b))"
    by (simp add: x to_lower_def lower_ascii_def char_in_def less_eq_char_def)
  then show ?thesis using assms fold_subject_other by (simp add: canonical_binding_def)
qed

lemma normalize_bindings_ok:
  "normalize_bindings is_email seen bs = Inr out \<Longrightarrow>
     list_all (canonical_binding is_email) out \<and> distinct (map binding_key out)
     \<and> set (map binding_key out) \<inter> set seen = {} \<and> map ab_role out = map ab_role bs"
proof (induction is_email seen bs arbitrary: out rule: normalize_bindings.induct)
  case (2 is_email seen b bs)
  let ?b = "fold_subject b"
  from "2.prems" obtain rest where ok: "valid_subject is_email (ab_subject b)" "valid_role (ab_role b)"
    "binding_key ?b \<notin> set seen" "normalize_bindings is_email (binding_key ?b # seen) bs = Inr rest" "out = ?b # rest"
    by (auto simp: Let_def rbind_def split: if_splits sum.splits)
  have "ab_role ?b = ab_role b" by (simp add: fold_subject_def)
  then show ?case using "2.IH"[OF _ _ refl refl _ ok(4)] ok fold_subject_canonical[OF ok(1,2)] by auto
qed simp

lemma normalize_canonical:
  "\<lbrakk>list_all (canonical_binding is_email) bs; distinct (map binding_key bs); set (map binding_key bs) \<inter> set seen = {}\<rbrakk>
     \<Longrightarrow> normalize_bindings is_email seen bs = Inr bs"
proof (induction bs arbitrary: seen)
  case (Cons b bs)
  then have "normalize_bindings is_email (binding_key b # seen) bs = Inr bs" by (intro Cons.IH) auto
  then show ?case using Cons.prems by (simp add: canonical_binding_def Let_def rbind_def)
qed simp

lemma normalize_access_normal:
  assumes "normalize_access is_email vis bs = Inr (v, out)"
  shows "v = vis \<and> valid_visibility v \<and> list_all (canonical_binding is_email) out
    \<and> distinct (map binding_key out) \<and> sorted (map ab_subject out)
    \<and> normalize_access is_email v out = Inr (v, out)"
proof -
  from assms obtain raw where raw: "valid_visibility vis" "normalize_bindings is_email [] bs = Inr raw"
    "v = vis" "out = sort_key ab_subject raw"
    by (auto simp: normalize_access_def rbind_def split: if_splits sum.splits)
  note ok = normalize_bindings_ok[OF raw(2)]
  have perm: "mset out = mset raw" by (simp add: raw(4))
  have all: "list_all (canonical_binding is_email) out" using ok by (simp add: raw(4) list_all_iff)
  have "mset (map binding_key out) = mset (map binding_key raw)" using perm by (metis mset_map)
  then have dist: "distinct (map binding_key out)" using ok by (metis mset_eq_imp_distinct_iff)
  have srt: "sorted (map ab_subject out)" by (simp add: raw(4))
  then have "sort_key ab_subject out = out" by (rule sort_key_id_if_sorted)
  then show ?thesis
    using raw all dist srt normalize_canonical[OF all dist] by (simp add: normalize_access_def rbind_def)
qed

text \<open>
  what an access document may hold. A document that \<^verbatim>\<open>normalizeAccess\<close> accepts has a known
  visibility and one binding per subject, compared without case, each with a known role and a valid
  subject in its folded form, sorted by subject; and reading back what was stored changes nothing.
\<close>

theorem access_normal_form:
  assumes "normalize_access is_email vis bs = Inr (v, out)"
  shows "v = vis \<and> valid_visibility v \<and> list_all (canonical_binding is_email) out
    \<and> distinct (map binding_key out) \<and> sorted (map ab_subject out)
    \<and> normalize_access is_email v out = Inr (v, out)"
  using normalize_access_normal [OF assms] .

section \<open>Who holds a role\<close>

lemma best_fold_rank:
  "0 < r \<Longrightarrow> r \<le> role_rank (fold (better d p) bs best) \<longleftrightarrow>
     r \<le> role_rank best \<or> (\<exists>b \<in> set bs. binding_matches d p b \<and> r \<le> role_rank (ab_role b))"
  by (induction bs arbitrary: best) (auto simp: better_def)

lemma best_fold_Nil:
  "best = [] \<or> 0 < role_rank best \<Longrightarrow> fold (better d p) bs best = [] \<longleftrightarrow>
     best = [] \<and> \<not> (\<exists>b \<in> set bs. binding_matches d p b \<and> 0 < role_rank (ab_role b))"
proof (induction bs arbitrary: best)
  case (Cons b bs)
  have "role_rank [] = 0" by (simp add: role_rank_def)
  then show ?case using Cons.prems Cons.IH[of "better d p b best"] by (auto simp: better_def)
qed simp

lemma best_binding_at_least:
  "0 < role_rank want \<Longrightarrow> at_least (best_binding d p bs) want \<longleftrightarrow>
     (\<exists>b \<in> set bs. binding_matches d p b \<and> at_least (ab_role b) want)"
  using best_fold_rank[of "role_rank want" d p bs "[]"] by (simp add: at_least_def best_binding_def role_rank_def)

definition bound :: "directory \<Rightarrow> principal \<Rightarrow> access_doc \<Rightarrow> bool" where
  "bound d p doc \<longleftrightarrow> (\<exists>b \<in> set (ad_bindings doc). binding_matches d p b \<and> valid_role (ab_role b))"

lemma best_binding_Nil: "best_binding d p (ad_bindings doc) = [] \<longleftrightarrow> \<not> bound d p doc"
  using best_fold_Nil[of "[]" d p "ad_bindings doc"] by (simp add: best_binding_def bound_def valid_role_def)

definition effective_doc :: "(string \<Rightarrow> bool) \<Rightarrow> directory \<Rightarrow> string \<Rightarrow> string \<Rightarrow> access_doc" where
  "effective_doc is_email d owner repo =
     (case get_access is_email d owner repo of None \<Rightarrow> synthesize_default is_email owner | Some doc \<Rightarrow> doc)"

lemma resolve_doc: "snd (resolve is_email d owner repo p) = effective_doc is_email d owner repo"
  by (simp add: resolve_def effective_doc_def Let_def)

text \<open>The tiers of a resolution, for an authenticated principal without the host admin flag.\<close>

lemma resolve_at_least:
  assumes "\<not> pr_anonymous p" "\<not> pr_admin p" "0 < role_rank want"
  shows "at_least (fst (resolve is_email d owner repo p)) want \<longleftrightarrow>
    (let doc = effective_doc is_email d owner repo
     in if bound d p doc
        then \<exists>b \<in> set (ad_bindings doc). binding_matches d p b \<and> at_least (ab_role b) want
        else case org_roster_role d owner p of
               Some r \<Rightarrow> at_least r want
             | None \<Rightarrow> ad_visibility doc = ''authenticated'' \<and> at_least ''read'' want)"
proof -
  let ?doc = "effective_doc is_email d owner repo"
  have roster: "org_roster_role d owner p = Some r \<Longrightarrow> r \<noteq> []" for r
    by (auto simp: org_roster_role_def split: answer.splits option.splits if_splits)
  have none: "\<not> at_least [] want" using assms(3) by (simp add: at_least_def role_rank_def)
  show ?thesis
  proof (cases "bound d p ?doc")
    case True
    then show ?thesis
      using assms best_binding_Nil[of d p ?doc] best_binding_at_least[OF assms(3), of d p "ad_bindings ?doc"]
      by (simp add: resolve_def Let_def effective_doc_def [symmetric])
  next
    case False
    then have "best_binding d p (ad_bindings ?doc) = []" by (simp add: best_binding_Nil)
    then show ?thesis
      using assms False none roster
      by (simp add: resolve_def Let_def effective_doc_def [symmetric] split: option.split)
  qed
qed

lemma rank_simps [simp]:
  "at_least ''read'' ''write'' \<longleftrightarrow> False" "at_least ''admin'' ''write'' \<longleftrightarrow> True" "at_least ''read'' ''read'' \<longleftrightarrow> True"
  "at_least ''admin'' ''read'' \<longleftrightarrow> True" "0 < role_rank ''write''" "0 < role_rank ''read''" "at_least [] ''read'' \<longleftrightarrow> False"
  by (simp_all add: at_least_def role_rank_def)

lemma roster_roles: "org_roster_role d org p = Some r \<Longrightarrow> r = ''admin'' \<or> r = ''read''"
  by (auto simp: org_roster_role_def split: answer.splits option.splits if_splits)

lemma matches_flags:
  assumes "pr_name p = pr_name q" "pr_email p = pr_email q"
  shows "binding_matches d p = binding_matches d q" "org_roster_role d org p = org_roster_role d org q" "bound d p doc = bound d q doc"
proof -
  have m: "match_principal s p = match_principal s q" for s using assms by (simp add: match_principal_def)
  show b: "binding_matches d p = binding_matches d q"
    by (rule ext) (simp add: binding_matches_def in_team_def m split: option.split answer.split)
  show "org_roster_role d org p = org_roster_role d org q" by (simp add: org_roster_role_def m split: answer.split)
  show "bound d p doc = bound d q doc" by (simp add: bound_def b)
qed

text \<open>
  C14: the push gate. A push to an existing repository is admitted exactly for a host administrator and
  for an authenticated principal that has the name of the owner, or a binding of at least the write role
  of its own or of a team it is in, or, when no valid binding at all is its own or its team's, is an owner of the
  organisation. The bindings are those of the access document, or of the default one when there is none
  that can be read. The host write flag and the visibility of the repository play no part.
\<close>

theorem push_gate_decides:
  "check_push is_email d owner repo p = None \<longleftrightarrow>
     pr_admin p
     \<or> \<not> pr_anonymous p
       \<and> (norm_principal owner = norm_principal (pr_name p)
          \<or> (\<exists>b \<in> set (ad_bindings (effective_doc is_email d owner repo)). binding_matches d p b \<and> at_least (ab_role b) ''write'')
          \<or> \<not> bound d p (effective_doc is_email d owner repo) \<and> is_org_owner d owner p)"
proof (cases "pr_admin p \<or> pr_anonymous p \<or> norm_principal owner = norm_principal (pr_name p)")
  case False
  let ?q = "\<lparr>pr_name = pr_name p, pr_email = pr_email p, pr_write = False, pr_admin = False, pr_anonymous = False\<rparr>"
  let ?doc = "effective_doc is_email d owner repo"
  note same = matches_flags[of ?q p, simplified]
  have gate: "check_push is_email d owner repo p = None \<longleftrightarrow> at_least (fst (resolve is_email d owner repo ?q)) ''write''"
    using False by (simp add: check_push_def Let_def)
  have res: "at_least (fst (resolve is_email d owner repo ?q)) ''write'' \<longleftrightarrow>
    (if bound d p ?doc then \<exists>b \<in> set (ad_bindings ?doc). binding_matches d p b \<and> at_least (ab_role b) ''write''
     else is_org_owner d owner p)"
    by (subst resolve_at_least) (auto simp: Let_def same is_org_owner_def dest: roster_roles split: option.splits)
  have "\<not> bound d p ?doc \<Longrightarrow> \<not> (\<exists>b \<in> set (ad_bindings ?doc). binding_matches d p b \<and> at_least (ab_role b) ''write'')"
    by (auto simp: bound_def valid_role_def at_least_def role_rank_def split: if_splits)
  then show ?thesis using False by (auto simp: gate res)
qed (auto simp: check_push_def)

text \<open>
  C16: who reads a private repository. When its access document is read and says private, the gate admits
  exactly a host administrator and the authenticated principals with a valid binding of their own or of a
  team they are in, or on the roster of the organisation that owns it.
\<close>

theorem private_repo_readers:
  assumes "dr_access d owner repo = Found doc" "ad_visibility doc = ''private''"
  shows "check_read is_email d owner repo p = None \<longleftrightarrow>
    pr_admin p \<or> \<not> pr_anonymous p \<and> (bound d p doc \<or> org_roster_role d owner p \<noteq> None)"
proof -
  have doc: "effective_doc is_email d owner repo = doc" using assms(1) by (simp add: effective_doc_def get_access_def)
  have rd: "valid_role r \<longleftrightarrow> at_least r ''read''" for r by (simp add: valid_role_def at_least_def role_rank_def)
  show ?thesis
  proof (cases "pr_admin p \<or> pr_anonymous p")
    case True
    then show ?thesis using assms(2) resolve_doc[of is_email d owner repo p] doc
      by (auto simp: check_read_def split: prod.split)
  next
    case False
    then have "check_read is_email d owner repo p = None \<longleftrightarrow> at_least (fst (resolve is_email d owner repo p)) ''read''"
      using assms(2) resolve_doc[of is_email d owner repo p] doc by (auto simp: check_read_def split: prod.splits)
    also have "\<dots> \<longleftrightarrow> bound d p doc \<or> org_roster_role d owner p \<noteq> None"
      using False assms(2) by (subst resolve_at_least) (auto simp: Let_def doc bound_def rd dest: roster_roles split: option.splits)
    finally show ?thesis using False by simp
  qed
qed

text \<open>
  the read gate fails open. While the access document of a repository cannot be read, whether the
  store does not answer or the document does not parse, the fallback is a public document, so the gate
  admits everybody, the anonymous principal included, whatever visibility was stored.
\<close>

theorem unreadable_access_opens_repo:
  assumes "dr_access d owner repo = Unavailable"
  shows "check_read is_email d owner repo p = None"
proof -
  have "ad_visibility (snd (resolve is_email d owner repo p)) = ''public''"
    using assms by (simp add: resolve_doc effective_doc_def get_access_def synthesize_default_def default_doc_def)
  then show ?thesis by (auto simp: check_read_def split: prod.split)
qed

lemma dropWhile_none: "\<forall>c \<in> set s. \<not> P c \<Longrightarrow> dropWhile P s = s"
  by (cases s) simp_all

lemma trim_space_email:
  assumes "s \<noteq> []" "\<forall>c \<in> set s. \<not> is_space c"
  obtains t where "trim_space (s @ CHR ''@'' # domain) = s @ CHR ''@'' # t" "set t \<subseteq> set domain"
proof -
  let ?r = "dropWhile is_space (rev domain @ [CHR ''@''])"
  have front: "dropWhile is_space (s @ CHR ''@'' # domain) = s @ CHR ''@'' # domain"
    using assms by (cases s) simp_all
  have at: "\<not> is_space (CHR ''@'')" by (simp add: is_space_def)
  have "dropWhile is_space (rev domain @ [CHR ''@'']) = dropWhile is_space (rev domain) @ [CHR ''@'']"
    using at by (induction "rev domain") (auto simp: dropWhile_append)
  moreover have "dropWhile is_space (rev domain @ CHR ''@'' # rev s) = dropWhile is_space (rev domain @ [CHR ''@'']) @ rev s"
    using at by (simp add: dropWhile_append)
  ultimately have "trim_space (s @ CHR ''@'' # domain) = s @ CHR ''@'' # rev (dropWhile is_space (rev domain))"
    by (simp add: trim_space_def front)
  moreover have "set (rev (dropWhile is_space (rev domain))) \<subseteq> set domain" by (auto dest: set_dropWhileD)
  ultimately show thesis using that by blast
qed

lemma local_part_at: "CHR ''@'' \<notin> set t \<Longrightarrow> local_part (s @ CHR ''@'' # t) = s"
  by (simp add: local_part_def dropWhile_append dropWhile_none)

lemma lower_at: "lower_ascii c = CHR ''@'' \<longleftrightarrow> c = CHR ''@''"
proof (cases "char_in (CHR ''A'') (CHR ''Z'') c")
  case True
  then have c: "65 \<le> (of_char c :: nat)" "of_char c \<le> (90 :: nat)" by (auto simp: char_in_def less_eq_char_def)
  have "(of_char (lower_ascii c) :: nat) = of_char c + 32" using True c by (simp add: lower_ascii_def)
  then have "(of_char (lower_ascii c) :: nat) \<noteq> of_char (CHR ''@'')" using c by simp
  then have "lower_ascii c \<noteq> CHR ''@''" by metis
  moreover have "c \<noteq> CHR ''@''" using c by auto
  ultimately show ?thesis by simp
qed (auto simp: lower_ascii_def)

lemma slug_no_dot: "slug_char c \<Longrightarrow> c \<noteq> CHR ''.''"
  by (auto simp: slug_char_def char_in_def)

lemma derive_slug:
  assumes "s \<noteq> []" "length s \<le> 64" "list_all slug_char s" "CHR ''@'' \<notin> set domain" "s \<notin> set reserved_usernames"
  shows "derive_username (s @ CHR ''@'' # domain) = s"
proof -
  have chars: "c \<in> set s \<Longrightarrow> username_char c \<and> lower_ascii c = c \<and> \<not> is_space c \<and> c \<noteq> CHR ''.''" for c
    using assms(3) lower_username_char [of c] slug_username_char [of c] slug_no_dot [of c] by (simp add: list_all_iff)
  obtain t where t: "trim_space (s @ CHR ''@'' # domain) = s @ CHR ''@'' # t" "set t \<subseteq> set domain"
    by (rule trim_space_email [of s domain]) (use assms(1) chars in auto)
  have "to_lower s = s" unfolding to_lower_def by (rule map_idI) (use chars in blast)
  then have norm: "norm_principal (s @ CHR ''@'' # domain) = s @ CHR ''@'' # to_lower t"
    by (simp add: norm_principal_def t) (simp add: to_lower_def lower_ascii_def char_in_def less_eq_char_def)
  have "CHR ''@'' \<notin> set (to_lower t)" using t(2) assms(4) by (auto simp: to_lower_def lower_at) (metis lower_at subsetD)
  then have loc: "local_part (norm_principal (s @ CHR ''@'' # domain)) = s" by (simp add: norm local_part_at)
  have fold: "map (\<lambda>c. if username_char c then c else CHR ''-'') s = s" by (rule map_idI) (use chars in auto)
  have dots: "dropWhile (\<lambda>c. c = CHR ''.'') s = s" "trim_right_dots s = s"
    unfolding trim_right_dots_def by (subst dropWhile_none; use chars in auto)+
  have "s \<noteq> ''..''" using chars[of "CHR ''.''"] by auto
  then show ?thesis
    unfolding derive_username_def loc fold Let_def dots using assms(1,2,5) dots by simp
qed

text \<open>
  user names and organisations share the owner segment, and nothing keeps them apart. For every
  organisation whose name is not a reserved one, an address at any domain with that name as its local
  part derives the organisation's name, and a principal with that name passes the push gate of every
  repository of the organisation and the gate for creating repositories in it, whatever the rosters
  and access documents say.
\<close>

theorem org_name_as_login_owns_org:
  assumes "valid_org org" "org \<notin> set reserved_usernames" "CHR ''@'' \<notin> set domain"
    and "pr_name p = derive_username (org @ CHR ''@'' # domain)" "\<not> pr_anonymous p"
  shows "pr_name p = org \<and> check_push is_email d org repo p = None \<and> check_create_owner d org p = None"
proof -
  have "derive_username (org @ CHR ''@'' # domain) = org"
    by (rule derive_slug) (use assms(1-3) in \<open>auto simp: valid_org_def\<close>)
  then show ?thesis using assms(4,5) by (simp add: check_push_def check_create_owner_def)
qed

section \<open>Expanding a policy document\<close>

definition plain_spelling :: "string \<Rightarrow> bool" where
  "plain_spelling m \<longleftrightarrow> \<not> is_team_ref m \<and> \<not> is_role_ref m"

fun effect_bypass :: "effect \<Rightarrow> string list" where
  "effect_bypass (Protect ops bypass checks) = bypass"
| "effect_bypass (RequiredReviews n stale bypass) = bypass"
| "effect_bypass e = []"

definition plain_document :: "document \<Rightarrow> bool" where
  "plain_document d \<longleftrightarrow>
     list_all (\<lambda>g. list_all plain_spelling (snd g)) (doc_groups d)
     \<and> list_all (\<lambda>r. list_all plain_spelling (mk_principals (rl_match r)) \<and> list_all plain_spelling (effect_bypass (rl_effect r)))
         (doc_rules d)"

abbreviation dedup_groups :: "groups \<Rightarrow> groups" where
  "dedup_groups \<equiv> map (\<lambda>(n, ms). (n, dedup ms))"

lemma map_of_dedup_groups: "map_of (dedup_groups g) n = map_option dedup (map_of g n)"
  by (induction g) auto

lemma admits_dedup: "admits a (dedup_groups g) sp \<longleftrightarrow> admits a g sp"
proof
  show "admits a (dedup_groups g) sp \<Longrightarrow> admits a g sp"
    by (induction rule: admits.induct) (auto simp: map_of_dedup_groups intro: admits.intros)
  show "admits a g sp \<Longrightarrow> admits a (dedup_groups g) sp"
    by (induction rule: admits.induct) (auto simp: map_of_dedup_groups intro: admits.intros)
qed

lemma unknown_dedup: "unknown_group (dedup_groups g) sp \<longleftrightarrow> unknown_group g sp"
  by (simp add: unknown_group_def map_of_dedup_groups)

lemma actor_selected_dedup [simp]:
  "actor_selected ps a (dedup_groups g) = actor_selected ps a g" "actor_selected (dedup ps) a g = actor_selected ps a g"
  by (simp_all add: actor_selected_def selects_def admits_dedup unknown_dedup)

text \<open>
  What \<^verbatim>\<open>ExpandDocument\<close> needs of an expander, the contract of \<^verbatim>\<open>policy.Expander\<close>: spellings that are
  no references pass through untouched and without a warning.
\<close>

locale expander =
  fixes expand :: expand_fun
  assumes passes_plain: "list_all plain_spelling ms \<Longrightarrow> expand ms = (ms, [])"
begin

lemma effect_plain:
  "list_all plain_spelling (effect_bypass e) \<Longrightarrow>
     snd (expanded_copy expand e) = [] \<and> (refuses (fst (expanded_copy expand e)) u (dedup_groups g) \<longleftrightarrow> refuses e u g)
     \<and> (wf_effect e \<longrightarrow> wf_effect (fst (expanded_copy expand e)))"
  by (cases e) (auto simp: passes_plain wf_effect_def)

lemma rule_plain:
  assumes "list_all plain_spelling (mk_principals (rl_match r))" "list_all plain_spelling (effect_bypass (rl_effect r))"
  shows "snd (expand_rule expand r) = [] \<and> rl_name (fst (expand_rule expand r)) = rl_name r
    \<and> rl_effect (fst (expand_rule expand r)) = fst (expanded_copy expand (rl_effect r))
    \<and> (rule_selects (fst (expand_rule expand r)) u (dedup_groups g) \<longleftrightarrow> rule_selects r u g)
    \<and> (wf_rule r \<longrightarrow> wf_rule (fst (expand_rule expand r)))"
  using assms effect_plain [OF assms(2)]
  by (auto simp: expand_rule_def Let_def passes_plain rule_selects_def wf_rule_def split: prod.splits)

lemma groups_plain:
  "list_all (\<lambda>g. list_all plain_spelling (snd g)) gs \<Longrightarrow>
     map fst (map (expand_group expand) gs) = dedup_groups gs \<and> concat (map snd (map (expand_group expand) gs)) = []"
  by (induction gs) (auto simp: expand_group_def passes_plain)

lemma rules_plain:
  "list_all (\<lambda>r. list_all plain_spelling (mk_principals (rl_match r)) \<and> list_all plain_spelling (effect_bypass (rl_effect r))) rs
   \<Longrightarrow> list_all wf_rule rs \<Longrightarrow>
     concat (map snd (map (expand_rule expand) rs)) = [] \<and> list_all wf_rule (map fst (map (expand_rule expand) rs))
     \<and> map_option rl_name (List.find (\<lambda>r. is_push_effect (rl_effect r) \<and> rule_selects r u (dedup_groups g) \<and> refuses (rl_effect r) u (dedup_groups g))
          (map fst (map (expand_rule expand) rs)))
       = map_option rl_name (List.find (\<lambda>r. is_push_effect (rl_effect r) \<and> rule_selects r u g \<and> refuses (rl_effect r) u g) rs)"
proof (induction rs)
  case (Cons r rs)
  then have r: "list_all plain_spelling (mk_principals (rl_match r))" "list_all plain_spelling (effect_bypass (rl_effect r))" "wf_rule r"
    by simp_all
  have "is_push_effect (fst (expanded_copy expand (rl_effect r))) = is_push_effect (rl_effect r)"
    by (cases "rl_effect r") (auto split: prod.splits)
  then show ?case
    using Cons rule_plain [OF r(1,2), of u g] effect_plain [OF r(2), of u g] r(3) by auto
qed simp

lemma plain_document_verdict:
  assumes "plain_document d" "list_all wf_rule (doc_rules d)" "doc_roster d = doc_groups d"
  shows "evaluate (fst (expand_document (Some expand) (Some d))) u = evaluate (Some d) u
    \<and> snd (expand_document (Some expand) (Some d)) = []"
proof -
  let ?u = "u\<lparr>rq_op := effective_op u\<rparr>"
  have g: "map fst (map (expand_group expand) (doc_groups d)) = dedup_groups (doc_groups d)"
    "concat (map snd (map (expand_group expand) (doc_groups d))) = []"
    using conjunct1 [OF groups_plain] conjunct2 [OF groups_plain] assms(1) unfolding plain_document_def by blast+
  have r: "list_all (\<lambda>r. list_all plain_spelling (mk_principals (rl_match r)) \<and> list_all plain_spelling (effect_bypass (rl_effect r))) (doc_rules d)"
    using assms(1) by (simp add: plain_document_def)
  note rs = rules_plain [OF r assms(2), of ?u "doc_groups d"]
  have name: "(case x of None \<Rightarrow> Allow | Some r \<Rightarrow> Deny (rl_name r)) = (case map_option rl_name x of None \<Rightarrow> Allow | Some n \<Rightarrow> Deny n)" for x
    by (cases x) simp_all
  have "evaluate (fst (expand_document (Some expand) (Some d))) u =
      evaluate_rules is_push_effect (map fst (map (expand_rule expand) (doc_rules d))) ?u (dedup_groups (doc_groups d))"
    by (simp only: evaluate_def expand_document_def Let_def prod.case option.case fst_conv document.select_convs g)
  also have "\<dots> = evaluate (Some d) u"
    using rs by (simp only: evaluate_rules_first evaluate_def option.case assms name)
  finally have verdict: "evaluate (fst (expand_document (Some expand) (Some d))) u = evaluate (Some d) u" .
  have "snd (expand_document (Some expand) (Some d)) = sort ([] @ [])"
    by (simp only: expand_document_def Let_def prod.case option.case snd_conv g(2) conjunct1 [OF rs])
  then show ?thesis using verdict by simp
qed

end

lemma expand_member_plain: "plain_spelling m \<Longrightarrow> expand_member is_email d m = ([m], [])"
  by (simp add: plain_spelling_def is_team_ref_def is_role_ref_def expand_member_def cut_prefix_def)

interpretation directory_expander: expander "expand_members is_email d" for is_email d
proof
  fix ms
  assume "list_all plain_spelling ms"
  then show "expand_members is_email d ms = (ms, [])"
    by (induction ms) (auto simp: expand_members_def expand_member_plain)
qed

text \<open>
  expanding teams and roles changes nothing else. In an accepted document without a team or role
  reference, the document after expansion gives every update the verdict the file gives it, and there
  is no warning.
\<close>

theorem expansion_keeps_plain_verdicts:
  assumes "policy_parse j = Inr d" "plain_document d"
  shows "evaluate (fst (expand_document (Some (expand_members is_email dir)) (Some d))) u = evaluate (Some d) u
    \<and> snd (expand_document (Some (expand_members is_email dir)) (Some d)) = []"
proof (rule directory_expander.plain_document_verdict [OF assms(2)])
  show "list_all wf_rule (doc_rules d)" using policy_parse_wf [OF assms(1)] by (simp add: wf_document_def)
  show "doc_roster d = doc_groups d"
    using assms(1) by (auto simp: policy_parse_def rbind_def Let_def split: option.splits sum.splits if_splits)
qed

text \<open>
  a team in the principals of a rule is misread in two ways. When the team of the only principal
  pattern cannot be read, the expanded list is empty, which is the list that selects every actor; and
  a team that is excluded is not expanded at all, so the exclusion only vetoes an actor whose name is
  the reference itself.
\<close>

theorem team_principals_misread:
  assumes "\<forall>t. dr_team dir org slug \<noteq> Found t" "CHR ''/'' \<notin> set org"
    and "mk_principals (rl_match r) = [''team:'' @ org @ CHR ''/'' # slug]" "mk_principals (rl_match q) = [CHR 0x5E # ''team:'' @ t]"
  shows "actor_selected (mk_principals (rl_match (fst (expand_rule (expand_members is_email dir) r)))) a g
    \<and> (actor_selected (mk_principals (rl_match (fst (expand_rule (expand_members is_email dir) q)))) a g
         \<longleftrightarrow> \<not> equal_fold (''team:'' @ t) (ac_principal a))"
proof -
  have "fst (expand_members is_email dir [''team:'' @ org @ CHR ''/'' # slug]) = []"
    using assms(1) cut_char_at [OF assms(2), of slug]
    by (simp add: expand_members_def expand_member_def cut_prefix_def Let_def split: answer.split)
  then obtain ws where miss: "expand_members is_email dir [''team:'' @ org @ CHR ''/'' # slug] = ([], ws)"
    by (metis prod.collapse)
  have skip: "expand_members is_email dir [CHR 0x5E # ''team:'' @ t] = ([CHR 0x5E # ''team:'' @ t], [])"
    by (simp add: expand_members_def expand_member_def cut_prefix_def)
  have kind: "spelling_kind_of (''team:'' @ t) = (SpPrincipal, ''team:'' @ t)" by (simp add: spelling_kind_of_def)
  have "mk_principals (rl_match (fst (expand_rule (expand_members is_email dir) r))) = []"
    using miss assms(3) by (simp add: expand_rule_def Let_def split: prod.split)
  moreover have "set (mk_principals (rl_match (fst (expand_rule (expand_members is_email dir) q)))) = {CHR 0x5E # ''team:'' @ t}"
    using skip assms(4) by (simp add: expand_rule_def Let_def split: prod.split)
  moreover have "admits a g (''team:'' @ t) \<longleftrightarrow> equal_fold (''team:'' @ t) (ac_principal a)"
    using kind by (auto elim: admits.cases intro: admits.principal)
  ultimately show ?thesis
    using kind by (simp add: actor_selected_def selects_def excludes_def unknown_group_def)
qed

section \<open>A sample organisation\<close>

text \<open>One organisation with an owner and a member, a team, a private repository bound to the team.\<close>

definition sample_org :: directory where
  "sample_org =
     \<lparr>dr_access = (\<lambda>ow rp. if ow = ''acme'' \<and> rp = ''vault''
        then Found \<lparr>ad_version = 1, ad_visibility = ''private'',
                    ad_bindings = [\<lparr>ab_subject = ''team:acme/core'', ab_role = ''write''\<rparr>], ad_updated_at = []\<rparr>
        else Unavailable),
      dr_team = (\<lambda>o' s. if o' = ''acme'' \<and> s = ''core''
        then Found \<lparr>tm_org = ''acme'', tm_slug = ''core'', tm_name = [], tm_description = [], tm_members = [''bob''],
                    tm_version = 1, tm_created_at = [], tm_updated_at = []\<rparr>
        else Absent),
      dr_members = (\<lambda>o'. if o' = ''acme''
        then Found \<lparr>ro_version = 1, ro_members = [\<lparr>mb_principal = ''ann'', mb_role = ''owner'', mb_joined_at = []\<rparr>], ro_updated_at = []\<rparr>
        else Absent),
      dr_org = (\<lambda>o'. Found (o' = ''acme'')), dr_user = (\<lambda>_. Found False)\<rparr>"

definition login :: "string \<Rightarrow> principal" where
  "login n = \<lparr>pr_name = n, pr_email = [], pr_write = True, pr_admin = False, pr_anonymous = False\<rparr>"

lemma private_repo_readers_witness:
  "check_read (\<lambda>_. False) sample_org ''acme'' ''vault'' (login ''bob'') = None
   \<and> check_read (\<lambda>_. False) sample_org ''acme'' ''vault'' (login ''eve'') \<noteq> None"
proof -
  have "check_read (\<lambda>_. False) sample_org ''acme'' ''vault'' (login n) = None \<longleftrightarrow> n \<in> {''bob'', ''ann''}" if "n = ''bob'' \<or> n = ''eve''" for n
    by (subst private_repo_readers [OF _ , where doc = "\<lparr>ad_version = 1, ad_visibility = ''private'',
          ad_bindings = [\<lparr>ab_subject = ''team:acme/core'', ab_role = ''write''\<rparr>], ad_updated_at = []\<rparr>"])
      (insert that, auto simp: sample_org_def login_def bound_def binding_matches_def in_team_def cut_prefix_def cut_char_def valid_role_def
        role_rank_def match_principal_def norm_principal_def org_roster_role_def trim_space_def is_space_def to_lower_def lower_ascii_def
        char_in_def less_eq_char_def Let_def)
  then show ?thesis by simp
qed

lemma unreadable_access_opens_repo_witness:
  "check_read (\<lambda>_. False) sample_org ''acme'' ''site'' ((login [])\<lparr>pr_anonymous := True\<rparr>) = None"
  by (rule unreadable_access_opens_repo) (simp add: sample_org_def)

lemma org_name_as_login_owns_org_witness:
  "check_push (\<lambda>_. False) sample_org ''acme'' ''vault'' (login (derive_username ''acme@example.com'')) = None"
  by (rule org_name_as_login_owns_org [where domain = "''example.com''", THEN conjunct2, THEN conjunct1])
    (simp_all add: login_def valid_org_def slug_char_def char_in_def less_eq_char_def reserved_usernames_def)

lemma access_normal_form_witness:
  "normalize_access (\<lambda>_. False) ''private'' [\<lparr>ab_subject = ''user:bob'', ab_role = ''write''\<rparr>]
     = Inr (''private'', [\<lparr>ab_subject = ''user:bob'', ab_role = ''write''\<rparr>])"
proof -
  have "normalize_access (\<lambda>_. False) ''private'' [\<lparr>ab_subject = ''user: Bob'', ab_role = ''write''\<rparr>]
      = Inr (''private'', [\<lparr>ab_subject = ''user:bob'', ab_role = ''write''\<rparr>])"
    by code_simp
  then show ?thesis using access_normal_form by blast
qed

definition team_rule :: "string \<Rightarrow> rule" where
  "team_rule p = \<lparr>rl_name = ''r'', rl_comment = [], rl_match = no_match\<lparr>mk_principals := [p]\<rparr>, rl_mode = [], rl_effect = Protect [] [] []\<rparr>"

lemma team_principals_misread_witness:
  "actor_selected (mk_principals (rl_match (fst (expand_rule (expand_members (\<lambda>_. False) sample_org) (team_rule ''team:acme/gone'')))))
     \<lparr>ac_principal = ''eve'', ac_tags = []\<rparr> []"
  by (rule team_principals_misread [where org = "''acme''" and slug = "''gone''" and q = "team_rule (CHR 0x5E # ''team:acme/core'')"
        and t = "''acme/core''", THEN conjunct1])
    (simp_all add: sample_org_def team_rule_def no_match_def)

lemma expansion_keeps_plain_verdicts_witness:
  "evaluate (fst (expand_document (Some (expand_members (\<lambda>_. False) sample_org)) (Some parsed_sample))) (sample_request ''ann'')
   = evaluate (Some parsed_sample) (sample_request ''ann'')"
proof -
  have "plain_document parsed_sample"
    by (simp add: plain_document_def parsed_sample_def plain_spelling_def is_team_ref_def is_role_ref_def no_match_def)
  then show ?thesis using expansion_keeps_plain_verdicts [OF parse_sample] by blast
qed

lemma derived_username_valid_witness:
  "valid_username (with_collision_suffix (derive_username ''..Anonymous@example.com'') 99)"
  using derived_username_valid [of "''..Anonymous@example.com''"] by simp

end
