(* ===== verification/Documents.thy ===== *)
theory Documents
  imports Access
begin

text \<open>
  Updating a JSON document under compare-and-swap: \<^verbatim>\<open>casUpdate\<close> of \<^verbatim>\<open>internal/identity/identity.go\<close>, by
  which rosters, teams, organisations, access documents and inboxes are changed. Any number of
  requests run at once, one store request per step, with lost responses, store errors, crashes and
  deletions of the document in between.

  A document is the JSON value of its bytes; bytes that are no JSON behave like a value of the wrong
  type. The decision of an update is the function \<^verbatim>\<open>casUpdate\<close> is given: it sees the version and the
  content read, and it may keep a state of its own from one attempt to the next.
\<close>

section \<open>Errors\<close>

datatype identity_error =
  ErrConflict | ErrInvalid | ErrNotFound | ErrForbidden | ErrUnauthorized | ErrTooLarge | ErrUnsupportedMedia | ErrStore

text \<open>\<^verbatim>\<open>statusFor\<close>; an error that is none of the sentinels, so every store error, is 503.\<close>

fun status_for :: "identity_error \<Rightarrow> nat" where
  "status_for ErrInvalid = 400"
| "status_for ErrNotFound = 404"
| "status_for ErrForbidden = 403"
| "status_for ErrUnauthorized = 401"
| "status_for ErrConflict = 409"
| "status_for ErrTooLarge = 413"
| "status_for ErrUnsupportedMedia = 415"
| "status_for ErrStore = 503"

section \<open>The update loop\<close>

type_synonym ('req, 'st) decider =
  "'req \<Rightarrow> 'st \<Rightarrow> nat option \<Rightarrow> json option \<Rightarrow> 'st \<times> (identity_error + json option)"

text \<open>\<open>Contended\<close> is the conflict of the loop itself, after its last attempt.\<close>

datatype outcome = Written | Unchanged | Refused identity_error | Contended | Crashed

text \<open>
  Where a request is: reading for the attempt \<open>k\<close>, or about to put what it decided on the content it
  read. The state of the decision before it is kept for the log.
\<close>

datatype 'st update_phase =
  Idle
| Reading nat 'st
| Writing nat 'st 'st "nat option" "json option" json
| Finished outcome

datatype 'st doc_event =
  Commit nat 'st "nat option" "json option" json
| Erased

record 'st doc_world =
  dw_cell :: "(nat \<times> json) option"
  dw_changes :: nat
  dw_phase :: "nat \<Rightarrow> 'st update_phase"
  dw_log :: "'st doc_event list"

definition max_attempts :: nat where
  "max_attempts = 5"

abbreviation content :: "'st doc_world \<Rightarrow> json option" where
  "content w \<equiv> map_option snd (dw_cell w)"

abbreviation version_of :: "'st doc_world \<Rightarrow> nat option" where
  "version_of w \<equiv> map_option fst (dw_cell w)"

definition enter :: "nat \<Rightarrow> 'st update_phase \<Rightarrow> 'st doc_world \<Rightarrow> 'st doc_world" where
  "enter i ph w = w\<lparr>dw_phase := (dw_phase w)(i := ph)\<rparr>"

definition stored :: "json \<Rightarrow> 'st doc_event \<Rightarrow> 'st doc_world \<Rightarrow> 'st doc_world" where
  "stored new ev w = w\<lparr>dw_cell := Some (dw_changes w + 1, new), dw_changes := dw_changes w + 1, dw_log := dw_log w @ [ev]\<rparr>"

text \<open>
  The rounds of \<^verbatim>\<open>casUpdate\<close>. A put is a create when nothing was read and an update of the version read
  otherwise, so it is admitted exactly when the stored version is the one read.
\<close>

inductive cas_step :: "('req, 'st) decider \<Rightarrow> (nat \<Rightarrow> 'req) \<Rightarrow> 'st \<Rightarrow> 'st doc_world \<Rightarrow> 'st doc_world \<Rightarrow> bool"
  for d :: "('req, 'st) decider" and rq :: "nat \<Rightarrow> 'req" and st0 :: 'st where
  begin_update: "dw_phase w i = Idle \<Longrightarrow> cas_step d rq st0 w (enter i (Reading 0 st0) w)"
| read_error: "dw_phase w i = Reading k st \<Longrightarrow> cas_step d rq st0 w (enter i (Finished (Refused ErrStore)) w)"
| decide_refuse: "dw_phase w i = Reading k st \<Longrightarrow> d (rq i) st (version_of w) (content w) = (st', Inl e)
    \<Longrightarrow> cas_step d rq st0 w (enter i (Finished (Refused e)) w)"
| decide_keep: "dw_phase w i = Reading k st \<Longrightarrow> d (rq i) st (version_of w) (content w) = (st', Inr None)
    \<Longrightarrow> cas_step d rq st0 w (enter i (Finished Unchanged) w)"
| decide_write: "dw_phase w i = Reading k st \<Longrightarrow> d (rq i) st (version_of w) (content w) = (st', Inr (Some new))
    \<Longrightarrow> cas_step d rq st0 w (enter i (Writing k st' st (version_of w) (content w) new) w)"
| put_done: "dw_phase w i = Writing k st' st ver cur new \<Longrightarrow> version_of w = ver \<Longrightarrow> out = Finished Written \<or> out = Finished (Refused ErrStore)
    \<Longrightarrow> cas_step d rq st0 w (enter i out (stored new (Commit i st ver cur new) w))"
| put_stale: "dw_phase w i = Writing k st' st ver cur new \<Longrightarrow> version_of w \<noteq> ver
    \<Longrightarrow> cas_step d rq st0 w (enter i (if k + 1 < max_attempts then Reading (k + 1) st' else Finished Contended) w)"
| put_error: "dw_phase w i = Writing k st' st ver cur new \<Longrightarrow> cas_step d rq st0 w (enter i (Finished (Refused ErrStore)) w)"
| crash: "cas_step d rq st0 w (enter i (Finished Crashed) w)" if "\<forall>out. dw_phase w i \<noteq> Finished out"
| erase: "cas_step d rq st0 w (w\<lparr>dw_cell := None, dw_changes := dw_changes w + 1, dw_log := dw_log w @ [Erased]\<rparr>)"

definition start_world :: "(nat \<times> json) option \<Rightarrow> 'st doc_world" where
  "start_world c = \<lparr>dw_cell = c, dw_changes = (case c of None \<Rightarrow> 0 | Some (v, _) \<Rightarrow> v), dw_phase = (\<lambda>_. Idle), dw_log = []\<rparr>"

inductive doc_run :: "('req, 'st) decider \<Rightarrow> (nat \<Rightarrow> 'req) \<Rightarrow> 'st \<Rightarrow> 'st doc_world \<Rightarrow> 'st doc_world \<Rightarrow> bool"
  for d rq st0 w0 where
  run_start: "doc_run d rq st0 w0 w0"
| run_step: "doc_run d rq st0 w0 w \<Longrightarrow> cas_step d rq st0 w w' \<Longrightarrow> doc_run d rq st0 w0 w'"

section \<open>Serial histories\<close>

text \<open>A history explains a content: every commit was decided on the content the ones before it left.\<close>

fun serial :: "('req, 'st) decider \<Rightarrow> (nat \<Rightarrow> 'req) \<Rightarrow> json option \<Rightarrow> 'st doc_event list \<Rightarrow> json option \<Rightarrow> bool" where
  "serial d rq c [] c' \<longleftrightarrow> c' = c"
| "serial d rq c (Commit i st ver cur new # l) c' \<longleftrightarrow>
     cur = c \<and> (\<exists>st'. d (rq i) st ver cur = (st', Inr (Some new))) \<and> serial d rq (Some new) l c'"
| "serial d rq c (Erased # l) c' \<longleftrightarrow> serial d rq None l c'"

fun committer :: "'st doc_event \<Rightarrow> nat option" where
  "committer (Commit i st ver cur new) = Some i"
| "committer Erased = None"

definition commits :: "nat \<Rightarrow> 'st doc_world \<Rightarrow> nat" where
  "commits i w = count_list (map committer (dw_log w)) (Some i)"

lemma serial_append:
  "serial d rq c (l @ l') c' \<longleftrightarrow> (\<exists>m. serial d rq c l m \<and> serial d rq m l' c')"
proof (induction l arbitrary: c)
  case (Cons e l)
  then show ?case by (cases e) auto
qed simp

text \<open>
  The version a request read still stands exactly when nothing was stored since, and then the content
  is the one it read.
\<close>

definition read_ok :: "'st doc_world \<Rightarrow> nat option \<Rightarrow> json option \<Rightarrow> bool" where
  "read_ok w ver cur \<longleftrightarrow>
     (ver = None \<longleftrightarrow> cur = None) \<and> (\<forall>v. ver = Some v \<longrightarrow> v \<le> dw_changes w)
     \<and> (version_of w = ver \<longrightarrow> content w = cur)"

fun phase_inv :: "('req, 'st) decider \<Rightarrow> 'req \<Rightarrow> 'st doc_world \<Rightarrow> nat \<Rightarrow> 'st update_phase \<Rightarrow> bool" where
  "phase_inv d r w i Idle \<longleftrightarrow> commits i w = 0"
| "phase_inv d r w i (Reading k st) \<longleftrightarrow> commits i w = 0 \<and> k < max_attempts \<and> k \<le> length (dw_log w)"
| "phase_inv d r w i (Writing k st' st ver cur new) \<longleftrightarrow>
     commits i w = 0 \<and> k < max_attempts \<and> d r st ver cur = (st', Inr (Some new)) \<and> read_ok w ver cur
     \<and> (k \<le> length (dw_log w) \<and> (k = length (dw_log w) \<longrightarrow> version_of w = ver))"
| "phase_inv d r w i (Finished out) \<longleftrightarrow>
     (case out of
        Written \<Rightarrow> commits i w = 1
      | Refused ErrStore \<Rightarrow> commits i w \<le> 1
      | Contended \<Rightarrow> commits i w = 0 \<and> max_attempts \<le> length (dw_log w)
      | _ \<Rightarrow> commits i w = 0)"

definition cas_inv :: "('req, 'st) decider \<Rightarrow> (nat \<Rightarrow> 'req) \<Rightarrow> json option \<Rightarrow> 'st doc_world \<Rightarrow> bool" where
  "cas_inv d rq c0 w \<longleftrightarrow>
     serial d rq c0 (dw_log w) (content w)
     \<and> (\<forall>v. version_of w = Some v \<longrightarrow> v \<le> dw_changes w)
     \<and> (\<forall>i. phase_inv d (rq i) w i (dw_phase w i))"

lemma enter_simps [simp]:
  "dw_cell (enter i ph w) = dw_cell w" "dw_changes (enter i ph w) = dw_changes w" "dw_log (enter i ph w) = dw_log w"
  "dw_phase (enter i ph w) = (dw_phase w)(i := ph)" "commits j (enter i ph w) = commits j w"
  "read_ok (enter i ph w) = read_ok w"
  by (simp_all add: enter_def commits_def read_ok_def fun_eq_iff)

lemma stored_simps [simp]:
  "dw_cell (stored new ev w) = Some (dw_changes w + 1, new)" "dw_changes (stored new ev w) = dw_changes w + 1"
  "dw_log (stored new ev w) = dw_log w @ [ev]" "dw_phase (stored new ev w) = dw_phase w"
  "commits j (stored new ev w) = commits j w + (if committer ev = Some j then 1 else 0)"
  by (simp_all add: stored_def commits_def)

lemma phase_inv_enter: "phase_inv d r (enter i ph w) j q = phase_inv d r w j q"
  by (cases q) (simp_all split: outcome.split identity_error.split)

lemma cas_inv_enter:
  "cas_inv d rq c0 w \<Longrightarrow> phase_inv d (rq i) w i ph \<Longrightarrow> cas_inv d rq c0 (enter i ph w)"
  by (simp add: cas_inv_def phase_inv_enter)

text \<open>A store by someone else, or a deletion, keeps what is known of a request.\<close>

lemma phase_inv_later:
  assumes "phase_inv d r w j q" "commits j w' = commits j w" "dw_changes w' = dw_changes w + 1"
    "length (dw_log w') = length (dw_log w) + 1" "\<forall>v. version_of w' = Some v \<longrightarrow> dw_changes w < v"
    "version_of w' = None \<Longrightarrow> content w' = None"
  shows "phase_inv d r w' j q"
proof (cases q)
  case (Writing k st' st ver cur new)
  then have "read_ok w ver cur" using assms(1) by simp
  then have "read_ok w' ver cur" unfolding read_ok_def using assms(3,5,6) by (metis leD le_SucI option.exhaust Suc_eq_plus1)
  then show ?thesis using assms Writing by simp
next
  case (Finished out)
  then show ?thesis using assms by (cases out) (auto split: identity_error.splits)
qed (use assms in auto)

lemma cas_step_inv:
  assumes "cas_step d rq st0 w w'" "cas_inv d rq c0 w"
  shows "cas_inv d rq c0 w'"
  using assms
proof (cases rule: cas_step.cases)
  case (put_done i k st' st ver cur new out)
  let ?ev = "Commit i st ver cur new" and ?w = "stored new (Commit i st ver cur new) w"
  have me: "phase_inv d (rq i) w i (Writing k st' st ver cur new)" using assms(2) put_done(2) unfolding cas_inv_def by metis
  then have cur: "content w = cur" "d (rq i) st ver cur = (st', Inr (Some new))" "commits i w = 0"
    using put_done(3) by (auto simp: read_ok_def)
  have ser: "serial d rq c0 (dw_log w @ [?ev]) (Some new)"
    using assms(2) cur by (auto simp: cas_inv_def serial_append)
  have "phase_inv d (rq j) ?w j (dw_phase w j)" if "j \<noteq> i" for j
    by (rule phase_inv_later [of d "rq j" w]) (use assms(2) that in \<open>auto simp: cas_inv_def\<close>)
  moreover have "phase_inv d (rq i) ?w i out" using put_done(4) cur(3) by auto
  ultimately show ?thesis
    unfolding put_done(1) cas_inv_def using ser by (auto simp: phase_inv_enter)
next
  case (put_stale i k st' st ver cur new)
  have "phase_inv d (rq i) w i (Writing k st' st ver cur new)" using assms(2) put_stale(2) unfolding cas_inv_def by metis
  then have "phase_inv d (rq i) w i (if k + 1 < max_attempts then Reading (k + 1) st' else Finished Contended)"
    using put_stale(3) by (auto simp: max_attempts_def)
  then show ?thesis unfolding put_stale(1) by (rule cas_inv_enter [OF assms(2)])
next
  case erase
  have "phase_inv d (rq j) w' j (dw_phase w j)" for j
    by (rule phase_inv_later [of d "rq j" w]) (use assms(2) erase in \<open>auto simp: cas_inv_def commits_def\<close>)
  then show ?thesis using assms(2) unfolding cas_inv_def by (auto simp: erase serial_append)
next
  case (crash i)
  have "phase_inv d (rq i) w i (dw_phase w i)" using assms(2) by (simp add: cas_inv_def)
  then have "phase_inv d (rq i) w i (Finished Crashed)" using crash(2) by (cases "dw_phase w i") auto
  then show ?thesis unfolding crash(1) by (rule cas_inv_enter [OF assms(2)])
next
  case (begin_update i)
  have "phase_inv d (rq i) w i Idle" using assms(2) begin_update(2) unfolding cas_inv_def by metis
  then show ?thesis unfolding begin_update(1) by (intro cas_inv_enter [OF assms(2)]) (simp add: max_attempts_def)
next
  case (read_error i k st)
  have "phase_inv d (rq i) w i (Reading k st)" using assms(2) read_error(2) unfolding cas_inv_def by metis
  then show ?thesis unfolding read_error(1) by (intro cas_inv_enter [OF assms(2)]) simp
next
  case (decide_refuse i k st st' e)
  have "phase_inv d (rq i) w i (Reading k st)" using assms(2) decide_refuse(2) unfolding cas_inv_def by metis
  then show ?thesis unfolding decide_refuse(1) by (intro cas_inv_enter [OF assms(2)]) (cases e; simp)
next
  case (decide_keep i k st st')
  have "phase_inv d (rq i) w i (Reading k st)" using assms(2) decide_keep(2) unfolding cas_inv_def by metis
  then show ?thesis unfolding decide_keep(1) by (intro cas_inv_enter [OF assms(2)]) simp
next
  case (decide_write i k st st' new)
  have "phase_inv d (rq i) w i (Reading k st)" using assms(2) decide_write(2) unfolding cas_inv_def by metis
  moreover have "read_ok w (version_of w) (content w)" using assms(2) by (auto simp: cas_inv_def read_ok_def)
  ultimately show ?thesis unfolding decide_write(1) using decide_write(3) by (intro cas_inv_enter [OF assms(2)]) simp
next
  case (put_error i k st' st ver cur new)
  have "phase_inv d (rq i) w i (Writing k st' st ver cur new)" using assms(2) put_error(2) unfolding cas_inv_def by metis
  then show ?thesis unfolding put_error(1) by (intro cas_inv_enter [OF assms(2)]) simp
qed

lemma start_inv: "cas_inv d rq (map_option snd c) (start_world c)"
  by (auto simp: cas_inv_def start_world_def commits_def split: option.split)

lemma doc_run_inv: "doc_run d rq st0 (start_world c) w \<Longrightarrow> cas_inv d rq (map_option snd c) w"
  by (induction rule: doc_run.induct) (auto simp: start_inv intro: cas_step_inv)

text \<open>
  C12: updates of a document are serial. Whatever requests run at once, with lost responses, store
  errors, crashes and deletions: the stored document is the result of the committed updates applied
  one after another, each to what the one before it left. A request that reports success committed
  exactly once. One that kept the document, gave up for contention, or was refused for any reason but a
  store error committed nothing (after a store error the put may have been applied); and when one has
  given up for contention, the document has been changed at least five times.
\<close>

theorem document_updates_serialize:
  assumes "doc_run d rq st0 (start_world c) w"
  shows "serial d rq (map_option snd c) (dw_log w) (content w)
    \<and> (\<forall>i. (dw_phase w i = Finished Written \<longrightarrow> commits i w = 1)
        \<and> (dw_phase w i = Finished Unchanged \<longrightarrow> commits i w = 0)
        \<and> (\<forall>e. dw_phase w i = Finished (Refused e) \<and> e \<noteq> ErrStore \<longrightarrow> commits i w = 0)
        \<and> (dw_phase w i = Finished Contended \<longrightarrow> commits i w = 0 \<and> 5 \<le> length (dw_log w)))"
proof -
  have inv: "cas_inv d rq (map_option snd c) w" by (rule doc_run_inv [OF assms])
  have fin: "phase_inv d (rq i) w i (Finished out)" if "dw_phase w i = Finished out" for i out
    using inv that unfolding cas_inv_def by metis
  have ser: "serial d rq (map_option snd c) (dw_log w) (content w)" using inv by (simp only: cas_inv_def)
  have refused: "commits i w = 0" if "dw_phase w i = Finished (Refused e)" "e \<noteq> ErrStore" for i e
    using fin [OF that(1)] that(2) by (cases e) simp_all
  show ?thesis
    using ser refused fin [of _ Written] fin [of _ Unchanged] fin [of _ Contended] by (simp add: max_attempts_def)
qed

section \<open>Requests that run alone\<close>

lemma doc_run_trans: "doc_run d rq st0 w0 w \<Longrightarrow> doc_run d rq st0 w w' \<Longrightarrow> doc_run d rq st0 w0 w'"
  by (rotate_tac, induction rule: doc_run.induct) (auto intro: run_step)

lemma reads_and_decides:
  assumes "dw_phase w i = Reading k st" "d (rq i) st (version_of w) (content w) = (st', Inr (Some new))"
  shows "doc_run d rq st0 w (enter i (Writing k st' st (version_of w) (content w) new) w)"
  by (rule run_step [OF run_start]) (rule decide_write, fact+)

lemma begins_and_decides:
  assumes "dw_phase w i = Idle" "d (rq i) st0 (version_of w) (content w) = (st', Inr (Some new))"
  shows "\<exists>w'. doc_run d rq st0 w w' \<and> dw_phase w' = (dw_phase w)(i := Writing 0 st' st0 (version_of w) (content w) new)
    \<and> dw_cell w' = dw_cell w \<and> dw_changes w' = dw_changes w"
proof -
  let ?w = "enter i (Reading 0 st0) w"
  have one: "doc_run d rq st0 w ?w" by (rule run_step [OF run_start begin_update [of w i, OF assms(1)]])
  have two: "doc_run d rq st0 ?w (enter i (Writing 0 st' st0 (version_of ?w) (content ?w) new) ?w)"
    by (rule reads_and_decides) (simp_all add: assms(2))
  show ?thesis by (rule exI, rule conjI [OF doc_run_trans [OF one two]]) simp
qed

lemma puts:
  assumes "dw_phase w i = Writing k st' st (version_of w) cur new"
  shows "\<exists>w'. doc_run d rq st0 w w' \<and> dw_phase w' = (dw_phase w)(i := Finished Written)
    \<and> dw_cell w' = Some (dw_changes w + 1, new) \<and> dw_changes w' = dw_changes w + 1"
  by (rule exI, rule conjI [OF run_step [OF run_start put_done [OF assms refl disjI1 [OF refl]]]]) simp

text \<open>A request that runs alone commits what it decides.\<close>

lemma lone_update:
  assumes "dw_phase w i = Idle" "d (rq i) st0 (version_of w) (content w) = (st', Inr (Some new))"
  shows "\<exists>w'. doc_run d rq st0 w w' \<and> dw_phase w' = (dw_phase w)(i := Finished Written)
    \<and> dw_cell w' = Some (dw_changes w + 1, new) \<and> dw_changes w' = dw_changes w + 1"
proof -
  obtain w1 where w1: "doc_run d rq st0 w w1" "dw_cell w1 = dw_cell w" "dw_changes w1 = dw_changes w"
    "dw_phase w1 = (dw_phase w)(i := Writing 0 st' st0 (version_of w) (content w) new)"
    using begins_and_decides [of w i d rq st0 st' new, OF assms] by blast
  then have "dw_phase w1 i = Writing 0 st' st0 (version_of w1) (content w) new" by simp
  from puts [OF this] obtain w2 where "doc_run d rq st0 w1 w2" "dw_phase w2 = (dw_phase w1)(i := Finished Written)"
    "dw_cell w2 = Some (dw_changes w1 + 1, new)" "dw_changes w2 = dw_changes w1 + 1" by blast
  then show ?thesis using w1 by (intro exI [of _ w2]) (auto intro: doc_run_trans)
qed

section \<open>Documents with a rule\<close>

text \<open>
  A decision that keeps a rule of the document, for a class of requests: then every document a run
  stores satisfies it.
\<close>

locale document_rule =
  fixes d :: "('req, 'st) decider" and allowed :: "'req \<Rightarrow> json option \<Rightarrow> bool" and rule :: "json option \<Rightarrow> bool"
  assumes rule_absent: "rule None"
    and rule_kept: "allowed r cur \<Longrightarrow> rule cur \<Longrightarrow> d r st ver cur = (st', Inr (Some new)) \<Longrightarrow> rule (Some new)"
begin

definition all_allowed :: "(nat \<Rightarrow> 'req) \<Rightarrow> 'st doc_event list \<Rightarrow> bool" where
  "all_allowed rq l \<longleftrightarrow> (\<forall>i st ver cur new. Commit i st ver cur new \<in> set l \<longrightarrow> allowed (rq i) cur)"

lemma serial_rule: "all_allowed rq l \<Longrightarrow> rule c \<Longrightarrow> serial d rq c l c' \<Longrightarrow> rule c'"
proof (induction l arbitrary: c)
  case (Cons e l)
  have rest: "all_allowed rq l" using Cons.prems(1) by (auto simp: all_allowed_def)
  show ?case
  proof (cases e)
    case (Commit i st ver cur new)
    then have "allowed (rq i) cur" using Cons.prems(1) by (auto simp: all_allowed_def)
    moreover have "cur = c" "serial d rq (Some new) l c'" using Cons.prems(3) Commit by auto
    moreover obtain st' where "d (rq i) st ver cur = (st', Inr (Some new))" using Cons.prems(3) Commit by auto
    ultimately show ?thesis using rule_kept Cons.IH [OF rest] Cons.prems(2) by blast
  next
    case Erased
    then show ?thesis using Cons.IH [OF rest] rule_absent Cons.prems(3) by simp
  qed
qed simp

lemma run_keeps_rule:
  assumes "all_allowed rq (dw_log w)" "rule (map_option snd c)" "doc_run d rq st0 (start_world c) w"
  shows "rule (content w)"
  using serial_rule [OF assms(1,2)] doc_run_inv [OF assms(3)] unfolding cas_inv_def by blast

end

lemma document_updates_serialize_witness:
  "\<exists>w. doc_run (\<lambda>_ st _ _. (st, Inr (Some JNull))) (\<lambda>_. ()) () (start_world None) w \<and> commits 0 w = 1 \<and> content w = Some JNull"
proof -
  let ?d = "\<lambda>(_ :: unit) (st :: unit) (_ :: nat option) (_ :: json option). (st, Inr (Some JNull) :: identity_error + json option)"
  obtain w where "doc_run ?d (\<lambda>_. ()) () (start_world None) w" "dw_phase w 0 = Finished Written" "content w = Some JNull"
    using lone_update [of "start_world None" 0 ?d "\<lambda>_. ()" "()" "()" JNull] by (auto simp: start_world_def)
  then show ?thesis using document_updates_serialize [of ?d "\<lambda>_. ()" "()" None w] by blast
qed

end
