(* ===== verification/Orgs.thy ===== *)
theory Orgs
  imports Documents
begin

text \<open>
  Organisations: the roster, team and access documents of \<^verbatim>\<open>internal/identity/orgs.go\<close>, \<^verbatim>\<open>access.go\<close> and
  \<^verbatim>\<open>invites.go\<close> with the decisions their handlers give to \<^verbatim>\<open>casUpdate\<close>, and the creation of an
  organisation, which spans two documents. A time stamp is the text the code writes. Sorting is
  taken to be stable, which matters only for rosters with two entries for one principal.
\<close>

section \<open>Structs from JSON\<close>

text \<open>
  \<^verbatim>\<open>json.Unmarshal\<close> into a struct: a key names the field with that tag, or else one whose tag equals it
  up to case; other keys are ignored; null leaves a value as it is and empties a slice.
\<close>

definition json_field :: "string list \<Rightarrow> string \<Rightarrow> string option" where
  "json_field names k = (if k \<in> set names then Some k else List.find (equal_fold k) names)"

fun decode_fields :: "string list \<Rightarrow> (string \<Rightarrow> json \<Rightarrow> 'a \<Rightarrow> 'a option) \<Rightarrow> (string \<times> json) list \<Rightarrow> 'a \<Rightarrow> 'a option" where
  "decode_fields names f [] x = Some x"
| "decode_fields names f ((k, j) # kvs) x =
     (case json_field names k of
        None \<Rightarrow> decode_fields names f kvs x
      | Some n \<Rightarrow> (case f n j x of None \<Rightarrow> None | Some y \<Rightarrow> decode_fields names f kvs y))"

fun decode_struct :: "string list \<Rightarrow> (string \<Rightarrow> json \<Rightarrow> 'a \<Rightarrow> 'a option) \<Rightarrow> 'a \<Rightarrow> json \<Rightarrow> 'a option" where
  "decode_struct names f zero JNull = Some zero"
| "decode_struct names f zero (JObj kvs) = decode_fields names f kvs zero"
| "decode_struct names f zero j = None"

definition decode_slice :: "(json \<Rightarrow> 'a option) \<Rightarrow> json \<Rightarrow> 'a list option" where
  "decode_slice f j = (case as_array j of None \<Rightarrow> None | Some xs \<Rightarrow> all_some (map f xs))"

definition onto_string :: "json \<Rightarrow> string \<Rightarrow> string option" where
  "onto_string j old = (if j = JNull then Some old else as_string j)"

definition onto_int :: "json \<Rightarrow> int \<Rightarrow> int option" where
  "onto_int j old = (if j = JNull then Some old else as_int j)"

text \<open>\<^verbatim>\<open>Version++\<close> on a Go int.\<close>

definition next_int :: "int \<Rightarrow> int" where
  "next_int v = (if v = 2 ^ 63 - 1 then - (2 ^ 63) else v + 1)"

section \<open>Rosters\<close>

definition encode_member :: "member \<Rightarrow> json" where
  "encode_member e = JObj [(''principal'', JStr (mb_principal e)), (''role'', JStr (mb_role e)), (''joined_at'', JStr (mb_joined_at e))]"

definition encode_members :: "roster \<Rightarrow> json" where
  "encode_members m =
     JObj [(''version'', JInt (ro_version m)), (''members'', JArr (map encode_member (ro_members m))), (''updated_at'', JStr (ro_updated_at m))]"

definition member_field :: "string \<Rightarrow> json \<Rightarrow> member \<Rightarrow> member option" where
  "member_field n j e =
     (if n = ''principal'' then map_option (\<lambda>s. e\<lparr>mb_principal := s\<rparr>) (onto_string j (mb_principal e))
      else if n = ''role'' then map_option (\<lambda>s. e\<lparr>mb_role := s\<rparr>) (onto_string j (mb_role e))
      else map_option (\<lambda>s. e\<lparr>mb_joined_at := s\<rparr>) (onto_string j (mb_joined_at e)))"

definition decode_member :: "json \<Rightarrow> member option" where
  "decode_member j =
     decode_struct [''principal'', ''role'', ''joined_at''] member_field \<lparr>mb_principal = [], mb_role = [], mb_joined_at = []\<rparr> j"

definition roster_field :: "string \<Rightarrow> json \<Rightarrow> roster \<Rightarrow> roster option" where
  "roster_field n j m =
     (if n = ''version'' then map_option (\<lambda>v. m\<lparr>ro_version := v\<rparr>) (onto_int j (ro_version m))
      else if n = ''members'' then map_option (\<lambda>es. m\<lparr>ro_members := es\<rparr>) (decode_slice decode_member j)
      else map_option (\<lambda>s. m\<lparr>ro_updated_at := s\<rparr>) (onto_string j (ro_updated_at m)))"

definition parse_members :: "json \<Rightarrow> roster option" where
  "parse_members j =
     decode_struct [''version'', ''members'', ''updated_at''] roster_field \<lparr>ro_version = 0, ro_members = [], ro_updated_at = []\<rparr> j"

definition sort_members :: "roster \<Rightarrow> roster" where
  "sort_members m = m\<lparr>ro_members := sort_key mb_principal (ro_members m)\<rparr>"

definition roster_has_owner :: "roster \<Rightarrow> bool" where
  "roster_has_owner m \<longleftrightarrow> list_ex (\<lambda>e. mb_role e = ''owner'') (ro_members m)"

definition is_roster_owner :: "roster \<Rightarrow> string \<Rightarrow> bool" where
  "is_roster_owner m p \<longleftrightarrow>
     list_ex (\<lambda>e. norm_principal (mb_principal e) = norm_principal p \<and> mb_role e = ''owner'') (ro_members m)"

definition touch_roster :: "string \<Rightarrow> member list \<Rightarrow> roster \<Rightarrow> roster" where
  "touch_roster now es m = sort_members (m\<lparr>ro_members := es, ro_version := next_int (ro_version m), ro_updated_at := now\<rparr>)"

definition first_roster :: "string \<Rightarrow> string \<Rightarrow> roster" where
  "first_roster creator now =
     \<lparr>ro_version = 1, ro_members = [\<lparr>mb_principal = norm_principal creator, mb_role = ''owner'', mb_joined_at = now\<rparr>], ro_updated_at = now\<rparr>"

text \<open>The decisions of \<^verbatim>\<open>resumeOrgCreate\<close>, \<^verbatim>\<open>SetMember\<close> and \<^verbatim>\<open>RemoveMember\<close>.\<close>

datatype roster_request =
  BindOwner string string
| SetMember string string string
| RemoveMember string string

definition bind_owner :: "string \<Rightarrow> string \<Rightarrow> json option \<Rightarrow> identity_error + json option" where
  "bind_owner creator now cur =
     (let creator = norm_principal creator in
      case cur of
        None \<Rightarrow> Inr (Some (encode_members (first_roster creator now)))
      | Some j \<Rightarrow>
          (case parse_members j of
             None \<Rightarrow> Inl ErrInvalid
           | Some m \<Rightarrow>
               if is_roster_owner m creator then Inr None
               else if roster_has_owner m then Inl ErrConflict
               else Inr (Some (encode_members
                      (touch_roster now (ro_members m @ [\<lparr>mb_principal = creator, mb_role = ''owner'', mb_joined_at = now\<rparr>]) m)))))"

definition set_member :: "string \<Rightarrow> string \<Rightarrow> string \<Rightarrow> json option \<Rightarrow> identity_error + json option" where
  "set_member p role now cur =
     (case cur of
        None \<Rightarrow> Inl ErrNotFound
      | Some j \<Rightarrow>
          (case parse_members j of
             None \<Rightarrow> Inl ErrInvalid
           | Some m \<Rightarrow>
               let found = list_ex (\<lambda>e. norm_principal (mb_principal e) = p) (ro_members m);
                   es = map (\<lambda>e. if norm_principal (mb_principal e) = p then e\<lparr>mb_principal := p, mb_role := role\<rparr> else e) (ro_members m);
                   es = (if found then es else es @ [\<lparr>mb_principal = p, mb_role = role, mb_joined_at = now\<rparr>])
               in Inr (Some (encode_members (touch_roster now es m)))))"

definition remove_member :: "string \<Rightarrow> string \<Rightarrow> json option \<Rightarrow> identity_error + json option" where
  "remove_member p now cur =
     (let p = norm_principal p in
      case cur of
        None \<Rightarrow> Inl ErrNotFound
      | Some j \<Rightarrow>
          (case parse_members j of
             None \<Rightarrow> Inl ErrInvalid
           | Some m \<Rightarrow>
               let kept = filter (\<lambda>e. norm_principal (mb_principal e) \<noteq> p) (ro_members m);
                   removed_owner = list_ex (\<lambda>e. norm_principal (mb_principal e) = p \<and> mb_role e = ''owner'') (ro_members m)
               in if removed_owner \<and> \<not> list_ex (\<lambda>e. mb_role e = ''owner'') kept then Inl ErrConflict
                  else Inr (Some (encode_members (touch_roster now kept m)))))"

fun decide_roster :: "(roster_request, unit) decider" where
  "decide_roster (BindOwner creator now) st ver cur = (st, bind_owner creator now cur)"
| "decide_roster (SetMember p role now) st ver cur = (st, set_member p role now cur)"
| "decide_roster (RemoveMember p now) st ver cur = (st, remove_member p now cur)"

text \<open>The checks of \<^verbatim>\<open>SetMember\<close> before its update; an accepted organisation invite goes the same way.\<close>

definition set_member_request :: "(string \<Rightarrow> bool) \<Rightarrow> string \<Rightarrow> string \<Rightarrow> string \<Rightarrow> identity_error + roster_request" where
  "set_member_request is_email p role now =
     (let p = norm_principal p in
      if \<not> valid_principal is_email p then Inl ErrInvalid
      else if \<not> valid_org_role role then Inl ErrInvalid
      else Inr (SetMember p role now))"

section \<open>Teams\<close>

definition encode_team :: "team \<Rightarrow> json" where
  "encode_team t =
     JObj [(''version'', JInt (tm_version t)), (''org'', JStr (tm_org t)), (''slug'', JStr (tm_slug t)), (''name'', JStr (tm_name t)),
           (''description'', JStr (tm_description t)), (''members'', JArr (map JStr (tm_members t))),
           (''created_at'', JStr (tm_created_at t)), (''updated_at'', JStr (tm_updated_at t))]"

definition team_field :: "string \<Rightarrow> json \<Rightarrow> team \<Rightarrow> team option" where
  "team_field n j t =
     (if n = ''version'' then map_option (\<lambda>v. t\<lparr>tm_version := v\<rparr>) (onto_int j (tm_version t))
      else if n = ''org'' then map_option (\<lambda>s. t\<lparr>tm_org := s\<rparr>) (onto_string j (tm_org t))
      else if n = ''slug'' then map_option (\<lambda>s. t\<lparr>tm_slug := s\<rparr>) (onto_string j (tm_slug t))
      else if n = ''name'' then map_option (\<lambda>s. t\<lparr>tm_name := s\<rparr>) (onto_string j (tm_name t))
      else if n = ''description'' then map_option (\<lambda>s. t\<lparr>tm_description := s\<rparr>) (onto_string j (tm_description t))
      else if n = ''members'' then map_option (\<lambda>ms. t\<lparr>tm_members := ms\<rparr>) (decode_slice as_string j)
      else if n = ''created_at'' then map_option (\<lambda>s. t\<lparr>tm_created_at := s\<rparr>) (onto_string j (tm_created_at t))
      else map_option (\<lambda>s. t\<lparr>tm_updated_at := s\<rparr>) (onto_string j (tm_updated_at t)))"

definition zero_team :: team where
  "zero_team =
     \<lparr>tm_org = [], tm_slug = [], tm_name = [], tm_description = [], tm_members = [], tm_version = 0, tm_created_at = [], tm_updated_at = []\<rparr>"

definition parse_team :: "json \<Rightarrow> team option" where
  "parse_team j =
     decode_struct [''version'', ''org'', ''slug'', ''name'', ''description'', ''members'', ''created_at'', ''updated_at''] team_field zero_team j"

text \<open>The decisions of \<^verbatim>\<open>PutTeam\<close>, \<^verbatim>\<open>SetTeamMember\<close> and \<^verbatim>\<open>RemoveTeamMember\<close>.\<close>

datatype team_request =
  PutTeam string string string
| SetTeamMember string string
| RemoveTeamMember string string

definition update_team :: "(team \<Rightarrow> team option) \<Rightarrow> json option \<Rightarrow> identity_error + json option" where
  "update_team f cur =
     (case cur of
        None \<Rightarrow> Inl ErrNotFound
      | Some j \<Rightarrow>
          (case parse_team j of
             None \<Rightarrow> Inl ErrInvalid
           | Some t \<Rightarrow> Inr (map_option encode_team (f t))))"

definition touch_team :: "string \<Rightarrow> team \<Rightarrow> team" where
  "touch_team now t = t\<lparr>tm_version := next_int (tm_version t), tm_updated_at := now\<rparr>"

definition set_team_member :: "string \<Rightarrow> string \<Rightarrow> team \<Rightarrow> team option" where
  "set_team_member p now t =
     (if list_ex (\<lambda>m. norm_principal m = p) (tm_members t) then None
      else Some (touch_team now (t\<lparr>tm_members := sort (tm_members t @ [p])\<rparr>)))"

definition remove_team_member :: "string \<Rightarrow> string \<Rightarrow> team \<Rightarrow> team option" where
  "remove_team_member p now t =
     Some (touch_team now (t\<lparr>tm_members := filter (\<lambda>m. norm_principal m \<noteq> norm_principal p) (tm_members t)\<rparr>))"

fun decide_team :: "(team_request, unit) decider" where
  "decide_team (PutTeam name description now) st ver cur =
     (st, update_team (\<lambda>t. Some (touch_team now (t\<lparr>tm_name := name, tm_description := description\<rparr>))) cur)"
| "decide_team (SetTeamMember p now) st ver cur = (st, update_team (set_team_member p now) cur)"
| "decide_team (RemoveTeamMember p now) st ver cur = (st, update_team (remove_team_member p now) cur)"

definition set_team_member_request :: "(string \<Rightarrow> bool) \<Rightarrow> string \<Rightarrow> string \<Rightarrow> identity_error + team_request" where
  "set_team_member_request is_email p now =
     (let p = norm_principal p in
      if \<not> valid_principal is_email p then Inl ErrInvalid else Inr (SetTeamMember p now))"

section \<open>Access documents\<close>

definition encode_binding :: "access_binding \<Rightarrow> json" where
  "encode_binding b = JObj [(''subject'', JStr (ab_subject b)), (''role'', JStr (ab_role b))]"

definition encode_access :: "access_doc \<Rightarrow> json" where
  "encode_access doc =
     JObj [(''version'', JInt (ad_version doc)), (''visibility'', JStr (ad_visibility doc)),
           (''role_bindings'', JArr (map encode_binding (ad_bindings doc))), (''updated_at'', JStr (ad_updated_at doc))]"

definition binding_field :: "string \<Rightarrow> json \<Rightarrow> access_binding \<Rightarrow> access_binding option" where
  "binding_field n j b =
     (if n = ''subject'' then map_option (\<lambda>s. b\<lparr>ab_subject := s\<rparr>) (onto_string j (ab_subject b))
      else map_option (\<lambda>s. b\<lparr>ab_role := s\<rparr>) (onto_string j (ab_role b)))"

definition decode_binding :: "json \<Rightarrow> access_binding option" where
  "decode_binding j = decode_struct [''subject'', ''role''] binding_field \<lparr>ab_subject = [], ab_role = []\<rparr> j"

definition access_field :: "string \<Rightarrow> json \<Rightarrow> access_doc \<Rightarrow> access_doc option" where
  "access_field n j doc =
     (if n = ''version'' then map_option (\<lambda>v. doc\<lparr>ad_version := v\<rparr>) (onto_int j (ad_version doc))
      else if n = ''visibility'' then map_option (\<lambda>s. doc\<lparr>ad_visibility := s\<rparr>) (onto_string j (ad_visibility doc))
      else if n = ''role_bindings'' then map_option (\<lambda>bs. doc\<lparr>ad_bindings := bs\<rparr>) (decode_slice decode_binding j)
      else map_option (\<lambda>s. doc\<lparr>ad_updated_at := s\<rparr>) (onto_string j (ad_updated_at doc)))"

definition parse_access :: "(string \<Rightarrow> bool) \<Rightarrow> json \<Rightarrow> access_doc option" where
  "parse_access is_email j =
     (case decode_struct [''version'', ''visibility'', ''role_bindings'', ''updated_at''] access_field
             \<lparr>ad_version = 0, ad_visibility = [], ad_bindings = [], ad_updated_at = []\<rparr> j of
        None \<Rightarrow> None
      | Some f \<Rightarrow>
          (case normalize_access is_email (ad_visibility f) (ad_bindings f) of
             Inl _ \<Rightarrow> None
           | Inr (vis, bs) \<Rightarrow> Some (f\<lparr>ad_visibility := vis, ad_bindings := bs\<rparr>)))"

text \<open>
  The decisions of \<^verbatim>\<open>PutAccess\<close> (its body is normalized before), of \<^verbatim>\<open>addBinding\<close>, with which an accepted
  invitation grants its role, and of \<^verbatim>\<open>DeleteTeam\<close>. The state is the variable \<^verbatim>\<open>done\<close> of \<^verbatim>\<open>addBinding\<close>,
  which lives outside the decision and so across attempts. The default document that stands for a
  missing one is read from the store and an argument here.
\<close>

datatype access_request =
  PutAccess "nat option" string "access_binding list" string
| AddBinding string string string access_doc
| StripTeam string string

definition put_access :: "(string \<Rightarrow> bool) \<Rightarrow> nat option \<Rightarrow> string \<Rightarrow> access_binding list \<Rightarrow> string \<Rightarrow> nat option \<Rightarrow> json option \<Rightarrow>
    identity_error + json option" where
  "put_access is_email base vis bs now ver cur =
     (if base \<noteq> None \<and> cur \<noteq> None \<and> ver \<noteq> base then Inl ErrConflict
      else case cur of
             None \<Rightarrow> Inr (Some (encode_access \<lparr>ad_version = 1, ad_visibility = vis, ad_bindings = bs, ad_updated_at = now\<rparr>))
           | Some j \<Rightarrow>
               (case parse_access is_email j of
                  None \<Rightarrow> Inl ErrInvalid
                | Some prev \<Rightarrow> Inr (Some (encode_access
                    \<lparr>ad_version = next_int (ad_version prev), ad_visibility = vis, ad_bindings = bs, ad_updated_at = now\<rparr>))))"

fun raise_binding :: "string \<Rightarrow> string \<Rightarrow> access_binding list \<Rightarrow> access_binding list" where
  "raise_binding sub role [] = []"
| "raise_binding sub role (b # bs) =
     (if ab_subject b = sub then b\<lparr>ab_role := role\<rparr> # bs else b # raise_binding sub role bs)"

definition store_access :: "(string \<Rightarrow> bool) \<Rightarrow> string \<Rightarrow> access_doc \<Rightarrow> bool \<Rightarrow> bool \<times> (identity_error + json option)" where
  "store_access is_email now doc flag =
     (case normalize_access is_email (ad_visibility doc) (ad_bindings doc) of
        Inl _ \<Rightarrow> (flag, Inl ErrInvalid)
      | Inr (vis, bs) \<Rightarrow>
          (True, Inr (Some (encode_access
             \<lparr>ad_version = next_int (ad_version doc), ad_visibility = vis, ad_bindings = bs, ad_updated_at = now\<rparr>))))"

definition add_binding :: "(string \<Rightarrow> bool) \<Rightarrow> string \<Rightarrow> string \<Rightarrow> string \<Rightarrow> access_doc \<Rightarrow> bool \<Rightarrow> json option \<Rightarrow>
    bool \<times> (identity_error + json option)" where
  "add_binding is_email sub role now fallback flag cur =
     (let new = \<lparr>ab_subject = sub, ab_role = role\<rparr> in
      case cur of
        None \<Rightarrow> store_access is_email now (fallback\<lparr>ad_bindings := ad_bindings fallback @ [new]\<rparr>) flag
      | Some j \<Rightarrow>
          (case parse_access is_email j of
             None \<Rightarrow> (flag, Inl ErrInvalid)
           | Some doc \<Rightarrow>
               (case List.find (\<lambda>b. ab_subject b = sub) (ad_bindings doc) of
                  Some b \<Rightarrow>
                    if at_least (ab_role b) role then (True, Inr None)
                    else store_access is_email now (doc\<lparr>ad_bindings := raise_binding sub role (ad_bindings doc)\<rparr>) True
                | None \<Rightarrow>
                    store_access is_email now
                      (if flag then doc else doc\<lparr>ad_bindings := ad_bindings doc @ [new]\<rparr>) flag)))"

definition strip_team :: "(string \<Rightarrow> bool) \<Rightarrow> string \<Rightarrow> string \<Rightarrow> json option \<Rightarrow> identity_error + json option" where
  "strip_team is_email sub now cur =
     (case cur of
        None \<Rightarrow> Inr None
      | Some j \<Rightarrow>
          (case parse_access is_email j of
             None \<Rightarrow> Inr None
           | Some doc \<Rightarrow>
               if \<not> list_ex (\<lambda>b. ab_subject b = sub) (ad_bindings doc) then Inr None
               else Inr (Some (encode_access
                 \<lparr>ad_version = next_int (ad_version doc), ad_visibility = ad_visibility doc,
                  ad_bindings = filter (\<lambda>b. ab_subject b \<noteq> sub) (ad_bindings doc), ad_updated_at = now\<rparr>))))"

fun decide_access :: "(string \<Rightarrow> bool) \<Rightarrow> (access_request, bool) decider" where
  "decide_access is_email (PutAccess base vis bs now) flag ver cur = (flag, put_access is_email base vis bs now ver cur)"
| "decide_access is_email (AddBinding sub role now fallback) flag ver cur = add_binding is_email sub role now fallback flag cur"
| "decide_access is_email (StripTeam sub now) flag ver cur = (flag, strip_team is_email sub now cur)"

definition put_access_request :: "(string \<Rightarrow> bool) \<Rightarrow> nat option \<Rightarrow> string \<Rightarrow> access_binding list \<Rightarrow> string \<Rightarrow> identity_error + access_request" where
  "put_access_request is_email base vis bs now =
     (case normalize_access is_email vis bs of
        Inl _ \<Rightarrow> Inl ErrInvalid
      | Inr (v, out) \<Rightarrow> Inr (PutAccess base v out now))"

section \<open>Round trips\<close>

lemma json_field_name: "n \<in> set names \<Longrightarrow> json_field names n = Some n"
  by (simp add: json_field_def)

lemma all_some_map: "\<forall>x \<in> set xs. f (g x) = Some x \<Longrightarrow> all_some (map f (map g xs)) = Some xs"
  by (induction xs) auto

lemma onto_values [simp]:
  "onto_string (JStr s) old = Some s" "onto_int (JInt v) n = (if - (2 ^ 63) \<le> v \<and> v < 2 ^ 63 then Some v else None)"
  by (simp_all add: onto_string_def onto_int_def)

definition go_int :: "int \<Rightarrow> bool" where
  "go_int v \<longleftrightarrow> - (2 ^ 63) \<le> v \<and> v < 2 ^ 63"

lemma next_int_range [simp]: "go_int v \<Longrightarrow> go_int (next_int v)"
  by (simp add: go_int_def next_int_def)

lemma decode_encode_member: "decode_member (encode_member e) = Some e"
  by (simp add: decode_member_def encode_member_def json_field_name member_field_def)

lemma parse_encode_members: "go_int (ro_version m) \<Longrightarrow> parse_members (encode_members m) = Some m"
  using all_some_map [of "ro_members m" decode_member encode_member]
  by (simp add: parse_members_def encode_members_def json_field_name roster_field_def decode_slice_def decode_encode_member go_int_def)

lemma parse_encode_team: "go_int (tm_version t) \<Longrightarrow> parse_team (encode_team t) = Some t"
  using all_some_map [of "tm_members t" as_string JStr]
  by (simp add: parse_team_def encode_team_def json_field_name team_field_def decode_slice_def go_int_def zero_team_def)

lemma decode_encode_binding: "decode_binding (encode_binding b) = Some b"
  by (simp add: decode_binding_def encode_binding_def json_field_name binding_field_def)

lemma parse_encode_access:
  "go_int (ad_version doc) \<Longrightarrow> normalize_access is_email (ad_visibility doc) (ad_bindings doc) = Inr (ad_visibility doc, ad_bindings doc)
    \<Longrightarrow> parse_access is_email (encode_access doc) = Some doc"
  using all_some_map [of "ad_bindings doc" decode_binding encode_binding]
  by (simp add: parse_access_def encode_access_def json_field_name access_field_def decode_slice_def decode_encode_binding go_int_def)

section \<open>Rules of a roster\<close>

definition canonical_roster :: "roster \<Rightarrow> bool" where
  "canonical_roster m \<longleftrightarrow>
     go_int (ro_version m) \<and> sorted (map mb_principal (ro_members m)) \<and> distinct (map mb_principal (ro_members m))
     \<and> list_all (\<lambda>e. norm_principal (mb_principal e) = mb_principal e \<and> valid_org_role (mb_role e)) (ro_members m)"

definition roster_rule :: "json option \<Rightarrow> bool" where
  "roster_rule c \<longleftrightarrow> (\<forall>j. c = Some j \<longrightarrow> (\<exists>m. j = encode_members m \<and> canonical_roster m \<and> roster_has_owner m))"

fun roster_request_ok :: "roster_request \<Rightarrow> bool" where
  "roster_request_ok (SetMember p role now) \<longleftrightarrow> norm_principal p = p \<and> valid_org_role role"
| "roster_request_ok r \<longleftrightarrow> True"

lemma set_member_request_ok: "set_member_request is_email p role now = Inr r \<Longrightarrow> roster_request_ok r"
  by (auto simp: set_member_request_def Let_def split: if_splits)

lemma canonical_parse: "canonical_roster m \<Longrightarrow> parse_members (encode_members m) = Some m"
  by (simp add: canonical_roster_def parse_encode_members)

lemma owner_role [simp]: "valid_org_role ''owner''"
  by (simp add: valid_org_role_def)

lemma touch_roster_canonical:
  assumes "go_int (ro_version m)" "distinct (map mb_principal es)"
    "list_all (\<lambda>e. norm_principal (mb_principal e) = mb_principal e \<and> valid_org_role (mb_role e)) es"
  shows "canonical_roster (touch_roster now es m)"
proof -
  have "mset (map mb_principal (sort_key mb_principal es)) = mset (map mb_principal es)" by (simp add: mset_map)
  then have "distinct (map mb_principal (sort_key mb_principal es))" using assms(2) by (metis mset_eq_imp_distinct_iff)
  then show ?thesis using assms by (simp add: canonical_roster_def touch_roster_def sort_members_def list_all_iff)
qed

lemma first_roster_canonical: "canonical_roster (first_roster creator now)"
  by (simp add: canonical_roster_def first_roster_def go_int_def)

lemma canonical_role_updates:
  assumes "canonical_roster m" "norm_principal p = p" "valid_org_role role"
  shows "distinct (map mb_principal (map (\<lambda>e. if norm_principal (mb_principal e) = p then e\<lparr>mb_principal := p, mb_role := role\<rparr> else e) (ro_members m)))"
    "list_all (\<lambda>e. norm_principal (mb_principal e) = mb_principal e \<and> valid_org_role (mb_role e))
       (map (\<lambda>e. if norm_principal (mb_principal e) = p then e\<lparr>mb_principal := p, mb_role := role\<rparr> else e) (ro_members m))"
proof -
  let ?f = "\<lambda>e. if norm_principal (mb_principal e) = p then e\<lparr>mb_principal := p, mb_role := role\<rparr> else e"
  have "map mb_principal (map ?f (ro_members m)) = map mb_principal (ro_members m)"
    using assms(1) by (auto simp: canonical_roster_def list_all_iff)
  then show "distinct (map mb_principal (map ?f (ro_members m)))" using assms(1) by (simp only: canonical_roster_def)
  show "list_all (\<lambda>e. norm_principal (mb_principal e) = mb_principal e \<and> valid_org_role (mb_role e)) (map ?f (ro_members m))"
    using assms by (auto simp: canonical_roster_def list_all_iff)
qed

text \<open>What the decisions make of a canonical roster, with the reading and writing of JSON done.\<close>

lemma bind_owner_canonical:
  "canonical_roster m \<Longrightarrow> bind_owner creator now (Some (encode_members m)) =
     (if is_roster_owner m creator then Inr None
      else if roster_has_owner m then Inl ErrConflict
      else Inr (Some (encode_members (touch_roster now
             (ro_members m @ [\<lparr>mb_principal = norm_principal creator, mb_role = ''owner'', mb_joined_at = now\<rparr>]) m))))"
  by (simp add: bind_owner_def canonical_parse is_roster_owner_def Let_def)

definition set_roles :: "string \<Rightarrow> string \<Rightarrow> string \<Rightarrow> member list \<Rightarrow> member list" where
  "set_roles p role now es =
     (let out = map (\<lambda>e. if norm_principal (mb_principal e) = p then e\<lparr>mb_principal := p, mb_role := role\<rparr> else e) es
      in if list_ex (\<lambda>e. norm_principal (mb_principal e) = p) es then out
         else out @ [\<lparr>mb_principal = p, mb_role = role, mb_joined_at = now\<rparr>])"

lemma set_member_canonical:
  "canonical_roster m \<Longrightarrow> set_member p role now (Some (encode_members m)) =
     Inr (Some (encode_members (touch_roster now (set_roles p role now (ro_members m)) m)))"
  by (simp add: set_member_def canonical_parse set_roles_def Let_def)

lemma remove_member_canonical:
  "canonical_roster m \<Longrightarrow> remove_member p now (Some (encode_members m)) =
     (let kept = filter (\<lambda>e. norm_principal (mb_principal e) \<noteq> norm_principal p) (ro_members m)
      in if is_roster_owner m p \<and> \<not> list_ex (\<lambda>e. mb_role e = ''owner'') kept then Inl ErrConflict
         else Inr (Some (encode_members (touch_roster now kept m))))"
  by (simp add: remove_member_def canonical_parse is_roster_owner_def Let_def)

lemma set_roles_canonical:
  assumes "canonical_roster m" "norm_principal p = p" "valid_org_role role"
  shows "canonical_roster (touch_roster now (set_roles p role now (ro_members m)) m)"
proof (rule touch_roster_canonical)
  note up = canonical_role_updates [OF assms]
  let ?f = "\<lambda>e. if norm_principal (mb_principal e) = p then e\<lparr>mb_principal := p, mb_role := role\<rparr> else e"
  show "go_int (ro_version m)" using assms(1) by (simp add: canonical_roster_def)
  have fresh: "p \<notin> set (map mb_principal (map ?f (ro_members m)))" if "\<not> list_ex (\<lambda>e. norm_principal (mb_principal e) = p) (ro_members m)"
    using that assms(2) by (auto simp: list_ex_iff)
  show "distinct (map mb_principal (set_roles p role now (ro_members m)))"
    using up(1) fresh by (simp add: set_roles_def Let_def del: map_map)
  show "list_all (\<lambda>e. norm_principal (mb_principal e) = mb_principal e \<and> valid_org_role (mb_role e)) (set_roles p role now (ro_members m))"
    using up(2) assms(2,3) by (simp add: set_roles_def Let_def)
qed

text \<open>A request takes the owner role from the last owner.\<close>

fun demotes_last :: "roster_request \<Rightarrow> json option \<Rightarrow> bool" where
  "demotes_last (SetMember p role now) cur \<longleftrightarrow>
     role \<noteq> ''owner''
     \<and> (\<exists>j m. cur = Some j \<and> parse_members j = Some m
          \<and> list_all (\<lambda>e. mb_role e = ''owner'' \<longrightarrow> norm_principal (mb_principal e) = p) (ro_members m))"
| "demotes_last r cur \<longleftrightarrow> False"

lemma touch_roster_owner: "roster_has_owner (touch_roster now es m) \<longleftrightarrow> list_ex (\<lambda>e. mb_role e = ''owner'') es"
  by (simp add: roster_has_owner_def touch_roster_def sort_members_def list_ex_iff)

lemma first_roster_owner: "roster_has_owner (first_roster creator now)"
  by (simp add: roster_has_owner_def first_roster_def)

lemma set_roles_owner:
  assumes "role = ''owner'' \<or> (\<exists>e \<in> set es. mb_role e = ''owner'' \<and> norm_principal (mb_principal e) \<noteq> p)"
  shows "list_ex (\<lambda>e. mb_role e = ''owner'') (set_roles p role now es)"
  using assms
proof
  assume "role = ''owner''"
  show ?thesis
  proof (cases "list_ex (\<lambda>e. norm_principal (mb_principal e) = p) es")
    case True
    let ?f = "\<lambda>e. if norm_principal (mb_principal e) = p then e\<lparr>mb_principal := p, mb_role := role\<rparr> else e"
    have eq: "set_roles p role now es = map ?f es" using True by (simp add: set_roles_def Let_def)
    obtain e where e: "e \<in> set es" "norm_principal (mb_principal e) = p" using True by (auto simp: list_ex_iff)
    then have "?f e \<in> set (map ?f es)" "mb_role (?f e) = ''owner''" using \<open>role = ''owner''\<close> by auto
    then show ?thesis unfolding eq list_ex_iff by blast
  next
    case False
    then show ?thesis using \<open>role = ''owner''\<close> by (simp add: set_roles_def Let_def)
  qed
next
  assume "\<exists>e \<in> set es. mb_role e = ''owner'' \<and> norm_principal (mb_principal e) \<noteq> p"
  then show ?thesis by (auto simp: set_roles_def Let_def list_ex_iff)
qed

interpretation rosters: document_rule decide_roster "\<lambda>r cur. roster_request_ok r \<and> \<not> demotes_last r cur" roster_rule
proof
  show "roster_rule None" by (simp add: roster_rule_def)
next
  fix r cur st ver st' new
  assume ok: "roster_request_ok r \<and> \<not> demotes_last r cur" and rule: "roster_rule cur"
    and step: "decide_roster r st ver cur = (st', Inr (Some new))"
  have good: "roster_rule (Some (encode_members m'))" if "canonical_roster m'" "roster_has_owner m'" for m'
    using that by (auto simp: roster_rule_def)
  show "roster_rule (Some new)"
  proof (cases cur)
    case None
    then show ?thesis
      using step good [OF first_roster_canonical first_roster_owner]
      by (cases r) (auto simp: bind_owner_def set_member_def remove_member_def Let_def first_roster_def)
  next
    case (Some j)
    then obtain m where m: "j = encode_members m" "canonical_roster m" "roster_has_owner m" using rule by (auto simp: roster_rule_def)
    show ?thesis
    proof (cases r)
      case (BindOwner creator now)
      then show ?thesis using step Some m by (auto simp: bind_owner_canonical split: if_splits)
    next
      case (SetMember p role now)
      then have new: "new = encode_members (touch_roster now (set_roles p role now (ro_members m)) m)"
        using step Some m(1) set_member_canonical [OF m(2)] by auto
      have "role = ''owner'' \<or> (\<exists>e \<in> set (ro_members m). mb_role e = ''owner'' \<and> norm_principal (mb_principal e) \<noteq> p)"
        using ok SetMember Some m(1) canonical_parse [OF m(2)] by (auto simp: list_all_iff)
      then show ?thesis
        unfolding new using ok SetMember m(2)
        by (intro good set_roles_canonical) (auto simp: touch_roster_owner set_roles_owner)
    next
      case (RemoveMember p now)
      let ?kept = "filter (\<lambda>e. norm_principal (mb_principal e) \<noteq> norm_principal p) (ro_members m)"
      have new: "new = encode_members (touch_roster now ?kept m)"
        and own: "is_roster_owner m p \<longrightarrow> list_ex (\<lambda>e. mb_role e = ''owner'') ?kept"
        using step RemoveMember Some m(1) remove_member_canonical [OF m(2)] by (auto simp: Let_def split: if_splits)
      have "canonical_roster (touch_roster now ?kept m)"
        by (rule touch_roster_canonical) (use m(2) in \<open>auto simp: canonical_roster_def list_all_iff distinct_map_filter\<close>)
      moreover have "list_ex (\<lambda>e. mb_role e = ''owner'') ?kept"
        using own m(3) by (auto simp: roster_has_owner_def is_roster_owner_def list_ex_iff)
      ultimately show ?thesis unfolding new by (intro good) (simp_all add: touch_roster_owner)
    qed
  qed
qed

text \<open>
  C15: a roster keeps an owner. Let any number of creations, removals and role changes (with a normalised
  principal and a known role, as the request check leaves them) run at once on the roster of an
  organisation that is absent or in normal form with an owner, with lost responses, crashes and deletions
  of the organisation in between, and let no committed request change the role of the only owner to
  another one. Then the roster is, at every moment, either absent or in normal form, one entry per
  principal and sorted, with at least one owner.
\<close>

theorem roster_keeps_owner:
  assumes "doc_run decide_roster rq () (start_world c) w" "roster_rule (map_option snd c)" "\<forall>i. roster_request_ok (rq i)"
    and "\<forall>i st ver cur new. Commit i st ver cur new \<in> set (dw_log w) \<longrightarrow> \<not> demotes_last (rq i) cur"
  shows "roster_rule (content w)"
  by (rule rosters.run_keeps_rule [OF _ assms(2,1)]) (use assms(3,4) in \<open>auto simp: rosters.all_allowed_def\<close>)

text \<open>
  nothing guards the last owner against a role change. From the roster that the creator of an
  organisation is given, a change of the creator's own role, by a request or by accepting an invitation
  as a member, leaves the organisation without an owner; then whoever creates an organisation of the
  same name becomes its owner. When that is the old owner, the request succeeds but the roster has two
  entries for the principal, and the first one decides: the creator may only read.
\<close>

theorem last_owner_demoted:
  assumes "norm_principal ann = ann" "norm_principal eve = eve" "eve \<noteq> ann"
    and "ann \<noteq> []" "rq 0 = SetMember ann ''member'' t" "rq 1 = BindOwner eve t" "rq 2 = BindOwner ann t"
  shows "(\<exists>w m. doc_run decide_roster rq () (start_world (Some (1, encode_members (first_roster ann t)))) w
      \<and> dw_phase w 1 = Finished Written \<and> content w = Some (encode_members m) \<and> is_roster_owner m eve \<and> \<not> is_roster_owner m ann)
    \<and> (\<exists>w m. doc_run decide_roster rq () (start_world (Some (1, encode_members (first_roster ann t)))) w
      \<and> dw_phase w 2 = Finished Written \<and> content w = Some (encode_members m)
      \<and> List.find (\<lambda>e. match_principal (mb_principal e) (login ann)) (ro_members m) = Some \<lparr>mb_principal = ann, mb_role = ''member'', mb_joined_at = t\<rparr>)"
proof -
  let ?m0 = "first_roster ann t" and ?m1 = "\<lparr>ro_version = 2, ro_members = [\<lparr>mb_principal = ann, mb_role = ''member'', mb_joined_at = t\<rparr>], ro_updated_at = t\<rparr>"
  let ?w0 = "start_world (Some (1, encode_members ?m0)) :: unit doc_world"
  let ?m2 = "\<lambda>c. touch_roster t (ro_members ?m1 @ [\<lparr>mb_principal = norm_principal c, mb_role = ''owner'', mb_joined_at = t\<rparr>]) ?m1"
  have m1: "touch_roster t (set_roles ann ''member'' t (ro_members ?m0)) ?m0 = ?m1"
    by (simp add: touch_roster_def sort_members_def set_roles_def first_roster_def next_int_def assms(1))
  have canon: "canonical_roster ?m1"
    by (simp add: canonical_roster_def go_int_def assms(1) valid_org_role_def)
  have demote: "decide_roster (rq 0) () v (Some (encode_members ?m0)) = ((), Inr (Some (encode_members ?m1)))" for v
    using set_member_canonical [OF first_roster_canonical, of ann "''member''" t ann t] m1 by (simp add: assms(5))
  have bind: "bind_owner c t (Some (encode_members ?m1)) = Inr (Some (encode_members (?m2 c)))" for c
    using bind_owner_canonical [OF canon, of c t] by (simp add: is_roster_owner_def roster_has_owner_def)
  obtain w1 where w1: "doc_run decide_roster rq () ?w0 w1" "dw_phase w1 = (dw_phase ?w0)(0 := Finished Written)"
    "dw_cell w1 = Some (dw_changes ?w0 + 1, encode_members ?m1)"
    using lone_update [of ?w0 0 decide_roster rq "()" "()" "encode_members ?m1"] demote by (auto simp: start_world_def)
  have create: "\<exists>w. doc_run decide_roster rq () ?w0 w \<and> dw_phase w i = Finished Written \<and> content w = Some (encode_members (?m2 c))"
    if i: "rq i = BindOwner c t" "i \<noteq> 0" for i c
  proof -
    have "dw_phase w1 i = Idle" using w1(2) i(2) by (simp add: start_world_def)
    moreover have "decide_roster (rq i) () (version_of w1) (content w1) = ((), Inr (Some (encode_members (?m2 c))))"
      using bind w1(3) i(1) by simp
    ultimately obtain w where "doc_run decide_roster rq () w1 w" "dw_phase w = (dw_phase w1)(i := Finished Written)"
      "dw_cell w = Some (dw_changes w1 + 1, encode_members (?m2 c))"
      using lone_update [of w1 i decide_roster rq "()" "()" "encode_members (?m2 c)"] by blast
    then show ?thesis using doc_run_trans [OF w1(1)] by (intro exI [of _ w]) simp
  qed
  have eve: "is_roster_owner (?m2 eve) eve" "\<not> is_roster_owner (?m2 eve) ann"
    using assms(1-3) by (auto simp: is_roster_owner_def touch_roster_def sort_members_def list_ex_iff)
  have two: "ro_members (?m2 ann) = [\<lparr>mb_principal = ann, mb_role = ''member'', mb_joined_at = t\<rparr>, \<lparr>mb_principal = ann, mb_role = ''owner'', mb_joined_at = t\<rparr>]"
    using assms(1) by (simp add: touch_roster_def sort_members_def)
  have "List.find (\<lambda>e. match_principal (mb_principal e) (login ann)) (ro_members (?m2 ann))
        = Some \<lparr>mb_principal = ann, mb_role = ''member'', mb_joined_at = t\<rparr>"
    unfolding two using assms(1,4) by (simp add: match_principal_def login_def Let_def)
  then show ?thesis using create [OF assms(6)] create [OF assms(7)] eve by (metis one_neq_zero zero_neq_numeral)
qed

section \<open>Rules of an access document\<close>

definition normal_access :: "(string \<Rightarrow> bool) \<Rightarrow> access_doc \<Rightarrow> bool" where
  "normal_access is_email doc \<longleftrightarrow>
     go_int (ad_version doc) \<and> normalize_access is_email (ad_visibility doc) (ad_bindings doc) = Inr (ad_visibility doc, ad_bindings doc)"

definition access_rule :: "(string \<Rightarrow> bool) \<Rightarrow> json option \<Rightarrow> bool" where
  "access_rule is_email c \<longleftrightarrow> (\<forall>j. c = Some j \<longrightarrow> (\<exists>doc. j = encode_access doc \<and> normal_access is_email doc))"

fun access_request_ok :: "(string \<Rightarrow> bool) \<Rightarrow> access_request \<Rightarrow> bool" where
  "access_request_ok is_email (PutAccess base vis bs now) \<longleftrightarrow> normalize_access is_email vis bs = Inr (vis, bs)"
| "access_request_ok is_email (AddBinding sub role now fallback) \<longleftrightarrow> go_int (ad_version fallback)"
| "access_request_ok is_email (StripTeam sub now) \<longleftrightarrow> True"

lemma put_access_request_ok: "put_access_request is_email base vis bs now = Inr r \<Longrightarrow> access_request_ok is_email r"
  using normalize_access_normal by (auto simp: put_access_request_def split: sum.splits)

lemma normal_parse: "normal_access is_email doc \<Longrightarrow> parse_access is_email (encode_access doc) = Some doc"
  by (simp add: normal_access_def parse_encode_access)

lemma normal_bindings_subset:
  assumes "normalize_access is_email vis bs = Inr (vis, bs)"
  shows "normalize_access is_email vis (filter P bs) = Inr (vis, filter P bs)"
proof -
  note ok = normalize_access_normal [OF assms]
  have "distinct (map binding_key (filter P bs))" using ok by (simp add: distinct_map_filter)
  moreover have "list_all (canonical_binding is_email) (filter P bs)" using ok by (auto simp: list_all_iff)
  moreover have "sorted (map ab_subject (filter P bs))" using ok by (simp add: sorted_filter)
  ultimately show ?thesis
    using ok normalize_canonical [of is_email "filter P bs" "[]"] by (simp add: normalize_access_def sort_key_id_if_sorted)
qed

lemma store_access_normal:
  assumes "store_access is_email now doc flag = (flag', Inr (Some new))" "go_int (ad_version doc)"
  shows "\<exists>doc'. new = encode_access doc' \<and> normal_access is_email doc'"
  using assms normalize_access_normal [of is_email "ad_visibility doc" "ad_bindings doc"]
  by (fastforce simp: store_access_def normal_access_def split: sum.splits)

lemma add_binding_stores:
  assumes "add_binding is_email sub role now fallback flag cur = (flag', Inr (Some new))" "go_int (ad_version fallback)"
    "access_rule is_email cur"
  shows "\<exists>doc' flag0. store_access is_email now doc' flag0 = (flag', Inr (Some new)) \<and> go_int (ad_version doc')"
proof (cases cur)
  case None
  then show ?thesis using assms(1,2) by (auto simp: add_binding_def)
next
  case (Some j)
  then obtain doc where doc: "j = encode_access doc" "normal_access is_email doc" using assms(3) by (auto simp: access_rule_def)
  then have ver: "go_int (ad_version doc)" by (simp add: normal_access_def)
  show ?thesis
    using assms(1) ver
    by (auto simp: add_binding_def Some doc normal_parse Let_def split: option.splits if_splits)
qed

interpretation accesses: document_rule "decide_access is_email" "\<lambda>r cur. access_request_ok is_email r" "access_rule is_email" for is_email
proof
  show "access_rule is_email None" by (simp add: access_rule_def)
next
  fix r cur st ver st' new
  assume ok: "access_request_ok is_email r" and rule: "access_rule is_email cur"
    and step: "decide_access is_email r st ver cur = (st', Inr (Some new))"
  have doc: "\<exists>doc. cur = Some (encode_access doc) \<and> normal_access is_email doc" if "cur \<noteq> None"
    using rule that by (auto simp: access_rule_def)
  have "\<exists>doc. new = encode_access doc \<and> normal_access is_email doc"
  proof (cases r)
    case (PutAccess base vis bs now)
    show ?thesis
      using step ok doc by (cases cur)
        (auto simp: PutAccess put_access_def normal_access_def parse_encode_access go_int_def next_int_def split: if_splits)
  next
    case (AddBinding sub role now fallback)
    then show ?thesis
      using step ok rule add_binding_stores [of is_email sub role now fallback st cur st' new] store_access_normal by auto
  next
    case (StripTeam sub now)
    then obtain doc where d: "cur = Some (encode_access doc)" "normal_access is_email doc"
      using step doc by (cases cur) (auto simp: strip_team_def)
    then have "new = encode_access \<lparr>ad_version = next_int (ad_version doc), ad_visibility = ad_visibility doc,
        ad_bindings = filter (\<lambda>b. ab_subject b \<noteq> sub) (ad_bindings doc), ad_updated_at = now\<rparr>"
      using step StripTeam by (auto simp: strip_team_def normal_parse split: if_splits)
    then show ?thesis using d(2) normal_bindings_subset by (fastforce simp: normal_access_def)
  qed
  then show "access_rule is_email (Some new)" by (simp add: access_rule_def)
qed

text \<open>
  an access document stays in normal form. However edits of administrators, accepted invitations
  and the removal of deleted teams interleave, the stored document always reads back as the document
  that was written: known visibility, one valid binding per subject, sorted.
\<close>

theorem access_document_stays_normal:
  assumes "doc_run (decide_access is_email) rq False (start_world c) w" "access_rule is_email (map_option snd c)"
    and "\<forall>i. access_request_ok is_email (rq i)"
  shows "content w = None \<or> (\<exists>doc. content w = Some (encode_access doc) \<and> parse_access is_email (encode_access doc) = Some doc
    \<and> normalize_access is_email (ad_visibility doc) (ad_bindings doc) = Inr (ad_visibility doc, ad_bindings doc))"
proof -
  have "access_rule is_email (content w)"
    by (rule accesses.run_keeps_rule [OF _ assms(2,1)]) (use assms(3) in \<open>auto simp: accesses.all_allowed_def\<close>)
  then show ?thesis using normal_parse by (cases "content w") (auto simp: access_rule_def normal_access_def)
qed

lemma normalize_bindings_map: "normalize_bindings is_email seen bs = Inr out \<Longrightarrow> out = map fold_subject bs"
  by (induction is_email seen bs arbitrary: out rule: normalize_bindings.induct)
    (auto simp: Let_def rbind_def split: if_splits sum.splits)

lemma normalize_access_member:
  assumes "normalize_access is_email vis bs = Inr (vis', out)" "b \<in> set bs"
  shows "fold_subject b \<in> set out"
  using assms normalize_bindings_map by (fastforce simp: normalize_access_def rbind_def split: if_splits sum.splits)

text \<open>
  an accepted invitation can be lost. The variable that says the binding was placed lives across
  the attempts of the update. When the first put loses to another edit, the second attempt takes the
  binding for placed and writes the document without it: accepting succeeds and the role is not
  granted, where the same request running alone grants it.
\<close>

theorem accept_retry_drops_binding:
  assumes "normal_access is_email doc" "\<forall>b \<in> set (ad_bindings doc). ab_subject b \<noteq> sub"
    and "normalize_access is_email (ad_visibility doc) (ad_bindings doc @ [\<lparr>ab_subject = sub, ab_role = role\<rparr>]) = Inr (vis1, bs1)"
    and "normalize_access is_email vis bs = Inr (vis, bs)" "\<forall>b \<in> set bs. ab_subject b \<noteq> sub"
    and "sub = ''user:'' @ norm_principal p" "rq 0 = AddBinding sub role t fallback" "rq 1 = PutAccess (Some 1) vis bs t"
  shows "(\<exists>w doc'. doc_run (decide_access is_email) rq False (start_world (Some (1, encode_access doc))) w
      \<and> dw_phase w 0 = Finished Written \<and> content w = Some (encode_access doc') \<and> \<lparr>ab_subject = sub, ab_role = role\<rparr> \<in> set (ad_bindings doc'))
    \<and> (\<exists>w doc'. doc_run (decide_access is_email) rq False (start_world (Some (1, encode_access doc))) w
      \<and> dw_phase w 0 = Finished Written \<and> content w = Some (encode_access doc') \<and> (\<forall>b \<in> set (ad_bindings doc'). ab_subject b \<noteq> sub))"
proof -
  let ?d = "decide_access is_email" and ?j = "encode_access doc" and ?w0 = "start_world (Some (1, encode_access doc)) :: bool doc_world"
  let ?first = "encode_access \<lparr>ad_version = next_int (ad_version doc), ad_visibility = vis1, ad_bindings = bs1, ad_updated_at = t\<rparr>"
  let ?other = "\<lparr>ad_version = next_int (ad_version doc), ad_visibility = vis, ad_bindings = bs, ad_updated_at = t\<rparr>"
  let ?last = "\<lparr>ad_version = next_int (ad_version ?other), ad_visibility = vis, ad_bindings = bs, ad_updated_at = t\<rparr>"
  have other: "normal_access is_email ?other" using assms(1,4) by (simp add: normal_access_def)
  have absent: "List.find (\<lambda>b. ab_subject b = sub) (ad_bindings doc) = None" "List.find (\<lambda>b. ab_subject b = sub) bs = None"
    using assms(2,5) by (auto simp: find_None_iff)
  have dec1: "?d (rq 0) False v (Some ?j) = (True, Inr (Some ?first))" for v
    using assms(1,3,7) absent(1) by (simp add: add_binding_def normal_parse store_access_def)
  have dec2: "?d (rq 1) False (Some 1) (Some ?j) = (False, Inr (Some (encode_access ?other)))"
    using assms(1,8) by (simp add: put_access_def normal_parse)
  have dec3: "?d (rq 0) True v (Some (encode_access ?other)) = (True, Inr (Some (encode_access ?last)))" for v
    using assms(4,7) absent(2) other by (simp add: add_binding_def normal_parse store_access_def)
  have w0: "dw_phase ?w0 i = Idle" "content ?w0 = Some ?j" "version_of ?w0 = Some 1" "dw_changes ?w0 = 1" for i
    by (simp_all add: start_world_def)
  have "fold_subject \<lparr>ab_subject = sub, ab_role = role\<rparr> = \<lparr>ab_subject = sub, ab_role = role\<rparr>"
    using fold_subject_user [of "\<lparr>ab_subject = sub, ab_role = role\<rparr>" "norm_principal p"] assms(6) by simp
  then have granted: "\<lparr>ab_subject = sub, ab_role = role\<rparr> \<in> set bs1"
    using normalize_access_member [OF assms(3), of "\<lparr>ab_subject = sub, ab_role = role\<rparr>"] by simp
  have dec0: "?d (rq 0) False (version_of ?w0) (content ?w0) = (True, Inr (Some ?first))" by (simp only: w0(2) dec1)
  obtain w where alone: "doc_run ?d rq False ?w0 w" "dw_phase w 0 = Finished Written" "content w = Some ?first"
    using lone_update [of ?w0 0 ?d rq False True ?first, OF w0(1) dec0] by auto
  obtain w1 where w1: "doc_run ?d rq False ?w0 w1" "dw_cell w1 = dw_cell ?w0" "dw_changes w1 = dw_changes ?w0"
    "dw_phase w1 = (dw_phase ?w0)(0 := Writing 0 True False (version_of ?w0) (content ?w0) ?first)"
    using begins_and_decides [of ?w0 0 ?d rq False True ?first, OF w0(1) dec0] by blast
  obtain w2 where w2: "doc_run ?d rq False w1 w2" "dw_cell w2 = Some (2, encode_access ?other)"
    "dw_phase w2 = (dw_phase w1)(1 := Finished Written)"
    using lone_update [of w1 1 ?d rq False False "encode_access ?other"] w0 w1(2-4) dec2 by auto
  let ?w3 = "enter 0 (Reading 1 True) w2"
  have p2: "dw_phase w2 0 = Writing 0 True False (Some 1) (Some ?j) ?first" using w1(4) w2(3) w0 by simp
  have w3: "doc_run ?d rq False w2 ?w3"
    using put_stale [OF p2, of ?d rq False] w2(2) by (intro run_step [OF run_start]) (simp add: max_attempts_def)
  let ?w4 = "enter 0 (Writing 1 True True (version_of ?w3) (content ?w3) (encode_access ?last)) ?w3"
  have w4: "doc_run ?d rq False ?w3 ?w4" by (rule reads_and_decides) (use dec3 w2(2) in simp_all)
  obtain w5 where w5: "doc_run ?d rq False ?w4 w5" "dw_phase w5 = (dw_phase ?w4)(0 := Finished Written)"
    "dw_cell w5 = Some (dw_changes ?w4 + 1, encode_access ?last)"
    using puts [of ?w4 0 1 True True "content ?w3" "encode_access ?last" ?d rq False] by auto
  have run: "doc_run ?d rq False ?w0 w5"
    using w1(1) w2(1) w3 w4 w5(1) by (blast intro: doc_run_trans)
  show ?thesis
  proof
    show "\<exists>w doc'. doc_run ?d rq False ?w0 w \<and> dw_phase w 0 = Finished Written \<and> content w = Some (encode_access doc')
        \<and> \<lparr>ab_subject = sub, ab_role = role\<rparr> \<in> set (ad_bindings doc')"
      by (rule exI [of _ w], rule exI [of _ "\<lparr>ad_version = next_int (ad_version doc), ad_visibility = vis1, ad_bindings = bs1, ad_updated_at = t\<rparr>"])
        (use alone granted in simp)
    show "\<exists>w doc'. doc_run ?d rq False ?w0 w \<and> dw_phase w 0 = Finished Written \<and> content w = Some (encode_access doc')
        \<and> (\<forall>b \<in> set (ad_bindings doc'). ab_subject b \<noteq> sub)"
      by (rule exI [of _ w5], rule exI [of _ ?last]) (use run w5(2,3) assms(5) in simp)
  qed
qed

section \<open>Runs\<close>

lemma roster_keeps_owner_witness:
  "\<exists>w. doc_run decide_roster (\<lambda>_. BindOwner ''ann'' []) () (start_world None) w \<and> content w \<noteq> None \<and> roster_rule (content w)"
proof -
  obtain w where "doc_run decide_roster (\<lambda>_. BindOwner ''ann'' []) () (start_world None) w" "content w \<noteq> None"
    using lone_update [of "start_world None" 0 decide_roster "\<lambda>_. BindOwner ''ann'' []" "()" "()"]
    by (fastforce simp: start_world_def bind_owner_def)
  then show ?thesis
    using roster_keeps_owner [of "\<lambda>_. BindOwner ''ann'' []" None w] by (auto simp: roster_rule_def)
qed

lemma last_owner_demoted_witness:
  "\<exists>rq w m. doc_run decide_roster rq () (start_world (Some (1, encode_members (first_roster ''ann'' [])))) w
     \<and> content w = Some (encode_members m) \<and> is_roster_owner m ''eve'' \<and> \<not> is_roster_owner m ''ann''"
proof -
  let ?rq = "\<lambda>i :: nat. if i = 0 then SetMember ''ann'' ''member'' [] else if i = 1 then BindOwner ''eve'' [] else BindOwner ''ann'' []"
  have norm: "norm_principal ''ann'' = ''ann''" "norm_principal ''eve'' = ''eve''" by code_simp+
  show ?thesis using last_owner_demoted [OF norm, of ?rq "[]"] by auto
qed

lemma empty_access_normal: "valid_visibility vis \<Longrightarrow> normalize_access is_email vis [] = Inr (vis, [])"
  by (simp add: normalize_access_def)

lemma access_document_stays_normal_witness:
  "\<exists>w doc. doc_run (decide_access (\<lambda>_. False)) (\<lambda>_. PutAccess None ''private'' [] []) False (start_world None) w
     \<and> content w = Some (encode_access doc) \<and> parse_access (\<lambda>_. False) (encode_access doc) = Some doc"
proof -
  let ?doc = "\<lparr>ad_version = 1, ad_visibility = ''private'', ad_bindings = [], ad_updated_at = []\<rparr>"
  let ?d = "decide_access (\<lambda>_. False)" and ?rq = "\<lambda>_ :: nat. PutAccess None ''private'' [] []"
  obtain w where w: "doc_run ?d ?rq False (start_world None) w" "content w = Some (encode_access ?doc)"
    using lone_update [of "start_world None" 0 ?d ?rq False False "encode_access ?doc"] by (auto simp: start_world_def put_access_def)
  have ok: "\<forall>i. access_request_ok (\<lambda>_. False) (?rq i)" by (simp add: empty_access_normal valid_visibility_def)
  have none: "access_rule (\<lambda>_. False) (map_option snd None)" by (simp add: access_rule_def)
  show ?thesis using access_document_stays_normal [OF w(1) none ok] w by (intro exI [of _ w]) auto
qed

lemma accept_retry_drops_binding_witness:
  "\<exists>rq w doc. doc_run (decide_access (\<lambda>_. False)) rq False
      (start_world (Some (1, encode_access \<lparr>ad_version = 1, ad_visibility = ''public'', ad_bindings = [], ad_updated_at = []\<rparr>))) w
     \<and> rq 0 = AddBinding ''user:bob'' ''write'' [] (default_doc ''acme'' False)
     \<and> dw_phase w 0 = Finished Written \<and> content w = Some (encode_access doc) \<and> (\<forall>b \<in> set (ad_bindings doc). ab_subject b \<noteq> ''user:bob'')"
proof -
  let ?rq = "\<lambda>i :: nat. if i = 0 then AddBinding ''user:bob'' ''write'' [] (default_doc ''acme'' False) else PutAccess (Some 1) ''private'' [] []"
  let ?doc = "\<lparr>ad_version = 1, ad_visibility = ''public'', ad_bindings = [], ad_updated_at = []\<rparr>"
  have vis: "valid_visibility ''private''" "valid_visibility ''public''" by (simp_all add: valid_visibility_def)
  have bob: "''user:bob'' = ''user:'' @ norm_principal ''bob''" by code_simp
  have bind: "normalize_access (\<lambda>_. False) ''public'' [\<lparr>ab_subject = ''user:bob'', ab_role = ''write''\<rparr>]
      = Inr (''public'', [\<lparr>ab_subject = ''user:bob'', ab_role = ''write''\<rparr>])" by code_simp
  have doc: "normal_access (\<lambda>_. False) ?doc" using vis by (simp add: normal_access_def go_int_def empty_access_normal)
  have "(\<exists>w doc'. doc_run (decide_access (\<lambda>_. False)) ?rq False (start_world (Some (1, encode_access ?doc))) w
      \<and> dw_phase w 0 = Finished Written \<and> content w = Some (encode_access doc') \<and> (\<forall>b \<in> set (ad_bindings doc'). ab_subject b \<noteq> ''user:bob''))"
    by (rule accept_retry_drops_binding [OF doc _ _ empty_access_normal [OF vis(1)] _ bob, THEN conjunct2]) (use bind in simp_all)
  then show ?thesis by (intro exI [of _ ?rq]) simp
qed

end
