(* ===== verification/Org_Creation.thy ===== *)
theory Org_Creation
  imports Orgs
begin

text \<open>
  Creating an organisation, \<^verbatim>\<open>CreateOrg\<close> with \<^verbatim>\<open>resumeOrgCreate\<close> and \<^verbatim>\<open>confirmOrgOwner\<close> of
  \<^verbatim>\<open>internal/identity/orgs.go\<close>: the reservation \<^verbatim>\<open>org.json\<close> and the roster \<^verbatim>\<open>members.json\<close> are two
  objects, and no request covers both. Any number of creators of one name run at once, one store
  request per step; a put may be applied and its response lost, any request may fail, and a creator
  may stop at any point. Only the version of the reservation matters here.
\<close>

section \<open>The steps\<close>

datatype create_phase =
  NotStarted
| Seeding nat
| SeedFailed nat
| RollingBack nat
| Confirming
| Resuming nat
| Healing nat "nat option" json
| Rereading
| Created
| CreateFailed

record org_world =
  ow_org :: "nat option"
  ow_members :: "(nat \<times> json) option"
  ow_next :: nat
  ow_phase :: "nat \<Rightarrow> create_phase"

definition goes :: "nat \<Rightarrow> create_phase \<Rightarrow> org_world \<Rightarrow> org_world" where
  "goes i ph w = w\<lparr>ow_phase := (ow_phase w)(i := ph)\<rparr>"

definition put_org :: "org_world \<Rightarrow> org_world" where
  "put_org w = w\<lparr>ow_org := Some (ow_next w), ow_next := ow_next w + 1\<rparr>"

definition put_members :: "json \<Rightarrow> org_world \<Rightarrow> org_world" where
  "put_members j w = w\<lparr>ow_members := Some (ow_next w, j), ow_next := ow_next w + 1\<rparr>"

abbreviation roster_now :: "org_world \<Rightarrow> json option" where
  "roster_now w \<equiv> map_option snd (ow_members w)"

text \<open>\<^verbatim>\<open>getMembers\<close> on an answered request: no roster, or one that does not parse, counts as no roster here.\<close>

definition read_roster :: "org_world \<Rightarrow> roster option" where
  "read_roster w = (case roster_now w of None \<Rightarrow> None | Some j \<Rightarrow> parse_members j)"

inductive create_step :: "(nat \<Rightarrow> string) \<Rightarrow> (nat \<Rightarrow> string) \<Rightarrow> org_world \<Rightarrow> org_world \<Rightarrow> bool"
  for creator :: "nat \<Rightarrow> string" and now :: "nat \<Rightarrow> string" where
  reserve: "ow_phase w i = NotStarted \<Longrightarrow> ow_org w = None \<Longrightarrow> ph = Seeding (ow_next w) \<or> ph = CreateFailed
    \<Longrightarrow> create_step creator now w (goes i ph (put_org w))"
| reserve_taken: "ow_phase w i = NotStarted \<Longrightarrow> ow_org w \<noteq> None \<Longrightarrow> create_step creator now w (goes i (Resuming 0) w)"
| seed: "ow_phase w i = Seeding v \<Longrightarrow> ow_members w = None \<Longrightarrow> ph = Created \<or> ph = SeedFailed v
    \<Longrightarrow> create_step creator now w (goes i ph (put_members (encode_members (first_roster (creator i) (now i))) w))"
| seed_taken: "ow_phase w i = Seeding v \<Longrightarrow> ow_members w \<noteq> None \<Longrightarrow> create_step creator now w (goes i Confirming w)"
| seed_error: "ow_phase w i = Seeding v \<Longrightarrow> create_step creator now w (goes i (SeedFailed v) w)"
| check_roster: "ow_phase w i = SeedFailed v \<Longrightarrow> read_roster w \<noteq> None \<Longrightarrow> create_step creator now w (goes i Confirming w)"
| check_none: "ow_phase w i = SeedFailed v \<Longrightarrow> create_step creator now w (goes i (RollingBack v) w)"
| rollback: "ow_phase w i = RollingBack v
    \<Longrightarrow> create_step creator now w (goes i CreateFailed (if ow_org w = Some v then w\<lparr>ow_org := None\<rparr> else w))"
| confirm_owner: "ow_phase w i = Confirming \<Longrightarrow> read_roster w = Some m \<Longrightarrow> is_roster_owner m (creator i)
    \<Longrightarrow> create_step creator now w (goes i Created w)"
| resume_keep: "ow_phase w i = Resuming k \<Longrightarrow> bind_owner (creator i) (now i) (roster_now w) = Inr None
    \<Longrightarrow> create_step creator now w (goes i Rereading w)"
| resume_write: "ow_phase w i = Resuming k \<Longrightarrow> bind_owner (creator i) (now i) (roster_now w) = Inr (Some new)
    \<Longrightarrow> create_step creator now w (goes i (Healing k (map_option fst (ow_members w)) new) w)"
| heal: "ow_phase w i = Healing k ver new \<Longrightarrow> map_option fst (ow_members w) = ver \<Longrightarrow> ph = Rereading \<or> ph = CreateFailed
    \<Longrightarrow> create_step creator now w (goes i ph (put_members new w))"
| heal_stale: "ow_phase w i = Healing k ver new \<Longrightarrow> map_option fst (ow_members w) \<noteq> ver
    \<Longrightarrow> create_step creator now w (goes i (if k + 1 < max_attempts then Resuming (k + 1) else CreateFailed) w)"
| reread: "ow_phase w i = Rereading \<Longrightarrow> ow_org w \<noteq> None \<Longrightarrow> create_step creator now w (goes i Created w)"
| give_up: "ow_phase w i \<noteq> Created \<Longrightarrow> create_step creator now w (goes i CreateFailed w)"

text \<open>
  \<open>give_up\<close> is a crash, a failed request and every error the code returns: a refused resume, a
  confirmation of someone else's roster, a reservation that is gone at the end.
\<close>

definition no_org :: org_world where
  "no_org = \<lparr>ow_org = None, ow_members = None, ow_next = 1, ow_phase = (\<lambda>_. NotStarted)\<rparr>"

inductive create_run :: "(nat \<Rightarrow> string) \<Rightarrow> (nat \<Rightarrow> string) \<Rightarrow> org_world \<Rightarrow> bool" for creator now where
  create_start: "create_run creator now no_org"
| create_next: "create_run creator now w \<Longrightarrow> create_step creator now w w' \<Longrightarrow> create_run creator now w'"

section \<open>The roster names the winner\<close>

definition won :: "(nat \<Rightarrow> string) \<Rightarrow> (nat \<Rightarrow> string) \<Rightarrow> org_world \<Rightarrow> nat \<Rightarrow> bool" where
  "won creator now w i \<longleftrightarrow>
     (\<exists>v a. ow_members w = Some (v, encode_members (first_roster (creator a) (now a)))
        \<and> norm_principal (creator a) = norm_principal (creator i))"

fun create_inv_phase :: "(nat \<Rightarrow> string) \<Rightarrow> (nat \<Rightarrow> string) \<Rightarrow> org_world \<Rightarrow> nat \<Rightarrow> create_phase \<Rightarrow> bool" where
  "create_inv_phase creator now w i Created \<longleftrightarrow> won creator now w i"
| "create_inv_phase creator now w i Rereading \<longleftrightarrow> won creator now w i"
| "create_inv_phase creator now w i (Healing k ver new) \<longleftrightarrow> ver = None \<and> new = encode_members (first_roster (creator i) (now i))"
| "create_inv_phase creator now w i ph \<longleftrightarrow> True"

definition create_inv :: "(nat \<Rightarrow> string) \<Rightarrow> (nat \<Rightarrow> string) \<Rightarrow> org_world \<Rightarrow> bool" where
  "create_inv creator now w \<longleftrightarrow>
     (\<forall>v j. ow_members w = Some (v, j) \<longrightarrow> (\<exists>a. j = encode_members (first_roster (creator a) (now a))))
     \<and> (\<forall>i. create_inv_phase creator now w i (ow_phase w i))"

lemma first_roster_is_owner: "is_roster_owner (first_roster a t) b \<longleftrightarrow> norm_principal a = norm_principal b"
  by (simp add: is_roster_owner_def first_roster_def)

lemma bind_owner_first:
  "bind_owner b s (Some (encode_members (first_roster a t))) = (if norm_principal a = norm_principal b then Inr None else Inl ErrConflict)"
  by (simp add: bind_owner_canonical first_roster_canonical first_roster_is_owner first_roster_owner)

lemma bind_owner_none: "bind_owner b s None = Inr (Some (encode_members (first_roster b s)))"
  by (simp add: bind_owner_def first_roster_def Let_def)

lemma goes_simps [simp]:
  "ow_org (goes i ph w) = ow_org w" "ow_members (goes i ph w) = ow_members w" "ow_phase (goes i ph w) = (ow_phase w)(i := ph)"
  by (simp_all add: goes_def)

lemma create_inv_phase_goes [simp]: "create_inv_phase creator now (goes i ph w) j q = create_inv_phase creator now w j q"
  by (cases q) (simp_all add: won_def)

lemma create_inv_goes: "create_inv creator now w \<Longrightarrow> create_inv_phase creator now w i ph \<Longrightarrow> create_inv creator now (goes i ph w)"
  by (simp add: create_inv_def)

lemma create_inv_org: "create_inv creator now (w\<lparr>ow_org := v, ow_next := n\<rparr>) \<longleftrightarrow> create_inv creator now w"
  "create_inv_phase creator now (w\<lparr>ow_org := v, ow_next := n\<rparr>) i q \<longleftrightarrow> create_inv_phase creator now w i q"
  "create_inv creator now (w\<lparr>ow_org := v\<rparr>) \<longleftrightarrow> create_inv creator now w"
proof -
  have "create_inv_phase creator now (w\<lparr>ow_org := v, ow_next := n\<rparr>) i q \<longleftrightarrow> create_inv_phase creator now w i q"
    and "create_inv_phase creator now (w\<lparr>ow_org := v\<rparr>) i q \<longleftrightarrow> create_inv_phase creator now w i q" for i q
    by (cases q; simp add: won_def)+
  then show "create_inv creator now (w\<lparr>ow_org := v, ow_next := n\<rparr>) \<longleftrightarrow> create_inv creator now w"
    "create_inv_phase creator now (w\<lparr>ow_org := v, ow_next := n\<rparr>) i q \<longleftrightarrow> create_inv_phase creator now w i q"
    "create_inv creator now (w\<lparr>ow_org := v\<rparr>) \<longleftrightarrow> create_inv creator now w"
    by (simp_all add: create_inv_def)
qed

text \<open>The only roster ever stored is the first one, on an absent roster, so no one has won before.\<close>

lemma create_inv_members:
  assumes "create_inv creator now w" "ow_members w = None"
  shows "create_inv creator now (put_members (encode_members (first_roster (creator a) (now a))) w)"
proof -
  have "create_inv_phase creator now (put_members j w) i (ow_phase w i)" for i j
  proof -
    have "create_inv_phase creator now w i (ow_phase w i)" using assms(1) by (simp add: create_inv_def)
    then show ?thesis using assms(2) by (cases "ow_phase w i") (auto simp: won_def put_members_def)
  qed
  then show ?thesis by (auto simp: create_inv_def put_members_def)
qed

lemma won_put:
  "norm_principal (creator a) = norm_principal (creator i) \<Longrightarrow>
     won creator now (put_members (encode_members (first_roster (creator a) (now a))) w) i"
  by (auto simp: won_def put_members_def)

lemma create_step_inv:
  assumes "create_step creator now w w'" "create_inv creator now w"
  shows "create_inv creator now w'"
  using assms
proof (cases rule: create_step.cases)
  case (reserve i ph)
  then have "create_inv_phase creator now (put_org w) i ph" by auto
  then show ?thesis unfolding reserve(1) using assms(2) by (intro create_inv_goes) (simp_all add: put_org_def create_inv_org)
next
  case (seed i v ph)
  then have "create_inv_phase creator now (put_members (encode_members (first_roster (creator i) (now i))) w) i ph"
    by (auto intro: won_put)
  then show ?thesis unfolding seed(1) by (rule create_inv_goes [OF create_inv_members [OF assms(2) seed(3)]])
next
  case (heal i k ver new ph)
  have "create_inv_phase creator now w i (Healing k ver new)" using assms(2) heal(2) unfolding create_inv_def by metis
  then have new: "ow_members w = None" "new = encode_members (first_roster (creator i) (now i))" using heal(3) by auto
  then have "create_inv_phase creator now (put_members new w) i ph" using heal(4) by (auto intro: won_put)
  then show ?thesis unfolding heal(1) using create_inv_members [OF assms(2) new(1)] new(2) by (intro create_inv_goes) simp_all
next
  case (confirm_owner i m)
  then obtain v a where "ow_members w = Some (v, encode_members (first_roster (creator a) (now a)))" "m = first_roster (creator a) (now a)"
    using assms(2) canonical_parse [OF first_roster_canonical] unfolding create_inv_def read_roster_def
    by (cases "ow_members w") fastforce+
  then have "create_inv_phase creator now w i Created" using confirm_owner(4) by (auto simp: won_def first_roster_is_owner)
  then show ?thesis unfolding confirm_owner(1) by (rule create_inv_goes [OF assms(2)])
next
  case (resume_keep i k)
  have "won creator now w i"
  proof (cases "ow_members w")
    case None
    then show ?thesis using resume_keep(3) by (simp add: bind_owner_none)
  next
    case (Some p)
    then obtain v a where "ow_members w = Some (v, encode_members (first_roster (creator a) (now a)))"
      using assms(2) by (cases p) (auto simp: create_inv_def)
    then show ?thesis using resume_keep(3) by (auto simp: bind_owner_first won_def split: if_splits)
  qed
  then show ?thesis unfolding resume_keep(1) by (intro create_inv_goes [OF assms(2)]) simp
next
  case (resume_write i k new)
  have "ow_members w = None"
  proof (rule ccontr)
    assume "ow_members w \<noteq> None"
    then obtain v a where "ow_members w = Some (v, encode_members (first_roster (creator a) (now a)))"
      using assms(2) by (auto simp: create_inv_def)
    then show False using resume_write(3) by (simp add: bind_owner_first split: if_splits)
  qed
  then show ?thesis unfolding resume_write(1) using resume_write(3) by (intro create_inv_goes [OF assms(2)]) (simp add: bind_owner_none)
next
  case (reread i)
  have "create_inv_phase creator now w i Rereading" using assms(2) reread(2) unfolding create_inv_def by metis
  then show ?thesis unfolding reread(1) by (intro create_inv_goes [OF assms(2)]) simp
qed (auto intro!: create_inv_goes simp: create_inv_org)

text \<open>
  C13: at most one creator wins a name. However the creations of one new organisation interleave (and
  nothing else touches its two objects), with failed requests, lost responses, rollbacks and creators
  that stop half way: all creators that are told of success are the same principal, and the stored
  roster has that principal as its only member and owner.
\<close>

theorem one_creator_wins:
  assumes "create_run creator now w" "ow_phase w i = Created"
  shows "(\<exists>a. roster_now w = Some (encode_members (first_roster (creator a) (now a)))
      \<and> norm_principal (creator a) = norm_principal (creator i))
    \<and> (\<forall>k. ow_phase w k = Created \<longrightarrow> norm_principal (creator k) = norm_principal (creator i))"
proof -
  have inv: "create_inv creator now w"
    using assms(1)
  proof (induction rule: create_run.induct)
    case create_start
    then show ?case by (simp add: create_inv_def no_org_def)
  qed (rule create_step_inv)
  have won: "ow_phase w k = Created \<Longrightarrow> won creator now w k" for k
    using inv unfolding create_inv_def by (metis create_inv_phase.simps(1))
  obtain v a where a: "ow_members w = Some (v, encode_members (first_roster (creator a) (now a)))"
    "norm_principal (creator a) = norm_principal (creator i)" using won [OF assms(2)] by (auto simp: won_def)
  have same: "norm_principal (creator k) = norm_principal (creator i)" if k: "ow_phase w k = Created" for k
  proof -
    obtain b where b: "encode_members (first_roster (creator b) (now b)) = encode_members (first_roster (creator a) (now a))"
      "norm_principal (creator b) = norm_principal (creator k)" using won [OF k] a(1) by (auto simp: won_def)
    have "first_roster (creator b) (now b) = first_roster (creator a) (now a)"
      using b(1) canonical_parse [OF first_roster_canonical] by (metis option.inject)
    then have "norm_principal (creator b) = norm_principal (creator a)" by (simp add: first_roster_def)
    then show ?thesis using a(2) b(2) by simp
  qed
  show ?thesis using a same by auto
qed

lemma one_creator_wins_witness:
  "\<exists>w. create_run (\<lambda>_. ''ann'') (\<lambda>_. []) w \<and> roster_now w = Some (encode_members (first_roster ''ann'' []))"
proof -
  let ?c = "\<lambda>_ :: nat. ''ann''" and ?n = "\<lambda>_ :: nat. []"
  let ?w1 = "goes 0 (Seeding 1) (put_org no_org)"
  let ?w2 = "goes 0 Created (put_members (encode_members (first_roster ''ann'' [])) ?w1)"
  have s1: "create_step ?c ?n no_org ?w1" using reserve [of no_org 0 "Seeding 1" ?c ?n] by (simp add: no_org_def)
  have s2: "create_step ?c ?n ?w1 ?w2" using seed [of ?w1 0 1 Created ?c ?n] by (simp add: no_org_def put_org_def)
  have run: "create_run ?c ?n ?w2" using create_start s1 s2 by (blast intro: create_next)
  show ?thesis using one_creator_wins [OF run, of 0] run by auto
qed

end
