(* ===== verification/Calendar.thy ===== *)
theory Calendar
  imports Prelude
begin

text \<open>
  The civil calendar of Go's package \<^verbatim>\<open>time\<close>, as far as the cron schedules use it: \<^verbatim>\<open>time.Date\<close> with
  its normalisation, the accessors of a time and \<^verbatim>\<open>AddDate\<close>. The lemmas give the bijection of days and
  dates and the spans of the months.
\<close>

section \<open>The calendar\<close>

text \<open>
  Days are counted from the first of January of year 1, a Monday, in the proleptic Gregorian
  calendar. As \<^verbatim>\<open>time.Date\<close> does, a month beyond December counts on into the following years,
  and so do days, hours, minutes and seconds out of their range.
\<close>

definition leap_year :: "int \<Rightarrow> bool" where
  "leap_year y = (y mod 4 = 0 \<and> (y mod 100 \<noteq> 0 \<or> y mod 400 = 0))"

definition days_before_year :: "int \<Rightarrow> int" where
  "days_before_year y = 365 * (y - 1) + (y - 1) div 4 - (y - 1) div 100 + (y - 1) div 400"

definition days_before_month :: "bool \<Rightarrow> int \<Rightarrow> int" where
  "days_before_month leap m =
     [0, 31, 59, 90, 120, 151, 181, 212, 243, 273, 304, 334, 365] ! nat (m - 1)
     + (if leap \<and> 2 < m then 1 else 0)"

definition date_days :: "int \<Rightarrow> int \<Rightarrow> int \<Rightarrow> int" where
  "date_days y m d =
     (let y' = y + (m - 1) div 12
      in days_before_year y' + days_before_month (leap_year y') ((m - 1) mod 12 + 1) + (d - 1))"

definition go_date :: "int \<Rightarrow> int \<Rightarrow> int \<Rightarrow> int \<Rightarrow> int \<Rightarrow> int \<Rightarrow> int" where
  "go_date y m d h mi s = date_days y m d * 86400 + h * 3600 + mi * 60 + s"

definition day_year :: "int \<Rightarrow> int" where
  "day_year d =
     (let n = (d * 400) div 146097 in if days_before_year (n + 2) \<le> d then n + 2 else n + 1)"

definition year_day :: "int \<Rightarrow> int" where
  "year_day d = d - days_before_year (day_year d)"

definition day_month :: "int \<Rightarrow> int" where
  "day_month d =
     int (length (filter (\<lambda>m. days_before_month (leap_year (day_year d)) m \<le> year_day d) [1..12]))"

definition month_day :: "int \<Rightarrow> int" where
  "month_day d = year_day d - days_before_month (leap_year (day_year d)) (day_month d) + 1"

text \<open>The accessors of a time, here a number of seconds since year 1.\<close>

definition sec_day :: "int \<Rightarrow> int" where "sec_day t = t div 86400"
definition sec_hour :: "int \<Rightarrow> int" where "sec_hour t = t mod 86400 div 3600"
definition sec_minute :: "int \<Rightarrow> int" where "sec_minute t = t mod 3600 div 60"
definition sec_second :: "int \<Rightarrow> int" where "sec_second t = t mod 60"
definition sec_weekday :: "int \<Rightarrow> int" where "sec_weekday t = (sec_day t + 1) mod 7"

definition add_date :: "int \<Rightarrow> int \<Rightarrow> int \<Rightarrow> int \<Rightarrow> int" where
  "add_date t years months days =
     go_date (day_year (sec_day t) + years) (day_month (sec_day t) + months) (month_day (sec_day t) + days)
             (sec_hour t) (sec_minute t) (sec_second t)"

lemmas sec_defs = sec_day_def sec_hour_def sec_minute_def sec_second_def

subsection \<open>Facts\<close>

lemma div_mod_step:
  fixes y k :: int
  assumes k: "0 < k"
  shows "(y - 1) mod k + 1 = k \<and> y div k = (y - 1) div k + 1 \<and> y mod k = 0
    \<or> (y - 1) mod k + 1 < k \<and> y div k = (y - 1) div k \<and> y mod k = (y - 1) mod k + 1"
proof (cases "(y - 1) mod k + 1 = k")
  case True
  have "y = (y - 1) div k * k + ((y - 1) mod k + 1)" by simp
  with True have e: "y = ((y - 1) div k + 1) * k" by (simp add: algebra_simps)
  then have "y mod k = 0" by (metis mod_mult_self2_is_0)
  moreover have "y div k = (y - 1) div k + 1"
    using e k by (metis nonzero_mult_div_cancel_right less_numeral_extra(3))
  ultimately show ?thesis using True by simp
next
  case False
  have m: "0 \<le> (y - 1) mod k" "(y - 1) mod k < k" using k by simp_all
  with False have b: "0 \<le> (y - 1) mod k + 1" "(y - 1) mod k + 1 < k" by simp_all
  have y: "y = k * ((y - 1) div k) + ((y - 1) mod k + 1)" by simp
  show ?thesis using int_div_pos_eq [OF y b] int_mod_pos_eq [OF y b] b by simp
qed

lemma days_before_year_step:
  "days_before_year (y + 1) = days_before_year y + 365 + (if leap_year y then 1 else 0)"
proof -
  have q: "y div k = (y - 1) div k + (if y mod k = 0 then 1 else 0)" if k: "0 < k" for k :: int
    using div_mod_step [OF k, of y] pos_mod_sign [OF k, of "y - 1"] by auto
  have i: "y mod 400 = 0 \<longrightarrow> y mod 100 = 0" "y mod 100 = 0 \<longrightarrow> y mod 4 = 0"
    by presburger+
  have l: "(if leap_year y then 1 else 0 :: int)
      = (if y mod 4 = 0 then 1 else 0) - (if y mod 100 = 0 then 1 else 0) + (if y mod 400 = 0 then 1 else 0)"
    using i unfolding leap_year_def by (cases "y mod 4 = 0"; cases "y mod 100 = 0"; cases "y mod 400 = 0"; simp)
  have "days_before_year (y + 1) = 365 * y + y div 4 - y div 100 + y div 400"
    "days_before_year y = 365 * (y - 1) + (y - 1) div 4 - (y - 1) div 100 + (y - 1) div 400"
    by (simp_all only: days_before_year_def add_diff_cancel_right')
  moreover have "y div 4 = (y - 1) div 4 + (if y mod 4 = 0 then 1 else 0)"
    "y div 100 = (y - 1) div 100 + (if y mod 100 = 0 then 1 else 0)"
    "y div 400 = (y - 1) div 400 + (if y mod 400 = 0 then 1 else 0)"
    by (rule q, simp)+
  ultimately show ?thesis unfolding l by (simp only: algebra_simps)
qed

lemma div_bounds:
  fixes k m :: int
  assumes "0 < m"
  shows "m * (k div m) \<le> k" "k < m * (k div m) + m"
  using assms pos_mod_bound [of m k] pos_mod_sign [of m k] mult_div_mod_eq [of m k] by linarith+

lemma year_sum_bounds:
  fixes k a b c :: int
  assumes "4 * a \<le> k" "k < 4 * a + 4" "100 * b \<le> k" "k < 100 * b + 100" "400 * c \<le> k" "k < 400 * c + 400"
  shows "400 * (365 * k + a - b + c) \<le> 146097 * k + 396"
    "146097 * k \<le> 400 * (365 * k + a - b + c) + 699"
proof -
  have "400 * (365 * k + a - b + c) = 146000 * k + 100 * (4 * a) - 4 * (100 * b) + 400 * c"
    by (simp add: algebra_simps)
  moreover have "4 * (100 * b) \<le> 4 * k" "4 * k \<le> 4 * (100 * b) + 396" "100 * (4 * a) \<le> 100 * k"
    "100 * k \<le> 100 * (4 * a) + 300" "k \<le> 400 * c + 399"
    using assms by simp_all
  ultimately show "400 * (365 * k + a - b + c) \<le> 146097 * k + 396"
    "146097 * k \<le> 400 * (365 * k + a - b + c) + 699"
    using assms(5) by linarith+
qed

lemma days_before_year_bounds:
  "400 * days_before_year (k + 1) \<le> 146097 * k + 396"
  "146097 * k \<le> 400 * days_before_year (k + 1) + 699"
  unfolding days_before_year_def add_diff_cancel_right'
  by (rule year_sum_bounds; rule div_bounds; simp)+

lemma day_year_bounds: "days_before_year (day_year d) \<le> d" "d < days_before_year (day_year d + 1)"
proof -
  define n where "n = (d * 400) div 146097"
  have n: "146097 * n \<le> d * 400" "d * 400 < 146097 * n + 146097"
    unfolding n_def by (rule div_bounds, simp)+
  have lo: "days_before_year (n + 1) \<le> d" using days_before_year_bounds(1) [of n] n(1) by linarith
  have "400 * d < 400 * days_before_year (n + 2 + 1)"
    using days_before_year_bounds(2) [of "n + 2"] n(2) by (simp add: algebra_simps)
  then have hi: "d < days_before_year (n + 2 + 1)" by simp
  show "days_before_year (day_year d) \<le> d" "d < days_before_year (day_year d + 1)"
    using lo hi by (auto simp: day_year_def Let_def n_def [symmetric] add.assoc)
qed

lemma days_before_year_mono: "a \<le> b \<Longrightarrow> days_before_year a \<le> days_before_year b"
proof (induction "nat (b - a)" arbitrary: b)
  case (Suc n)
  then have "days_before_year a \<le> days_before_year (b - 1)" by simp
  then show ?case using days_before_year_step [of "b - 1"] by simp
qed simp

lemma day_year_eq: "days_before_year y \<le> d \<Longrightarrow> d < days_before_year (y + 1) \<Longrightarrow> day_year d = y"
proof (rule ccontr)
  assume y: "days_before_year y \<le> d" "d < days_before_year (y + 1)" and ne: "day_year d \<noteq> y"
  then consider "day_year d + 1 \<le> y" | "y + 1 \<le> day_year d" by linarith
  then show False
    using days_before_year_mono [of "day_year d + 1" y] days_before_year_mono [of "y + 1" "day_year d"]
      day_year_bounds [of d] y by (cases; simp)
qed

lemma upto_12: "[1..12] = [1, 2, 3, 4, 5, 6, 7, 8, 9, 10, 11, 12 :: int]"
  by code_simp

lemma month_cases:
  fixes m :: int
  assumes "1 \<le> m" "m \<le> 12"
  obtains "m = 1" | "m = 2" | "m = 3" | "m = 4" | "m = 5" | "m = 6" | "m = 7" | "m = 8" | "m = 9"
    | "m = 10" | "m = 11" | "m = 12"
proof -
  have "m \<in> set [1..12]" using assms by simp
  then show thesis using that unfolding upto_12 by auto
qed

lemma month_count:
  assumes "1 \<le> m" "m \<le> 12" "days_before_month l m \<le> yd" "yd < days_before_month l (m + 1)"
  shows "int (length (filter (\<lambda>k. days_before_month l k \<le> yd) [1..12])) = m"
  using assms(1,2)
proof (cases rule: month_cases)
qed (use assms(3,4) in \<open>cases l; simp add: upto_12 days_before_month_def\<close>)+

lemma days_before_month_1 [simp]: "days_before_month l 1 = 0"
  by (simp add: days_before_month_def)

lemma days_before_month_13: "days_before_month l 13 = 365 + (if l then 1 else 0)"
  by (simp add: days_before_month_def)

lemma year_month_exists:
  assumes "0 \<le> yd" "yd < 365 + (if l then 1 else 0)"
  shows "\<exists>m. 1 \<le> m \<and> m \<le> 12 \<and> days_before_month l m \<le> yd \<and> yd < days_before_month l (m + 1)"
proof -
  have "\<exists>m. 1 \<le> m \<and> m \<le> int n \<and> days_before_month l m \<le> yd \<and> yd < days_before_month l (m + 1)"
    if "yd < days_before_month l (int n + 1)" for n
    using that
  proof (induction n)
    case (Suc n)
    show ?case
    proof (cases "yd < days_before_month l (int n + 1)")
      case True
      with Suc.IH obtain m where "1 \<le> m" "m \<le> int n" "days_before_month l m \<le> yd" "yd < days_before_month l (m + 1)"
        by blast
      then show ?thesis by (intro exI [of _ m]) simp
    next
      case False
      with Suc.prems show ?thesis by (intro exI [of _ "int n + 1"]) (simp add: algebra_simps)
    qed
  qed (use assms(1) in simp)
  from this [of 12] show ?thesis using assms(2) by (simp add: days_before_month_13)
qed

lemma year_day_bounds: "0 \<le> year_day d" "year_day d < 365 + (if leap_year (day_year d) then 1 else 0)"
  using day_year_bounds [of d] days_before_year_step [of "day_year d"] by (simp_all add: year_day_def)

lemma day_month_bounds:
  "1 \<le> day_month d" "day_month d \<le> 12"
  "days_before_month (leap_year (day_year d)) (day_month d) \<le> year_day d"
  "year_day d < days_before_month (leap_year (day_year d)) (day_month d + 1)"
proof -
  obtain m where m: "1 \<le> m" "m \<le> 12" "days_before_month (leap_year (day_year d)) m \<le> year_day d"
    "year_day d < days_before_month (leap_year (day_year d)) (m + 1)"
    using year_month_exists [OF year_day_bounds] by blast
  then have "day_month d = m" by (simp add: day_month_def month_count)
  with m show "1 \<le> day_month d" "day_month d \<le> 12"
    "days_before_month (leap_year (day_year d)) (day_month d) \<le> year_day d"
    "year_day d < days_before_month (leap_year (day_year d)) (day_month d + 1)" by simp_all
qed

lemma date_days_small:
  "1 \<le> m \<Longrightarrow> m \<le> 12 \<Longrightarrow> date_days y m d = days_before_year y + days_before_month (leap_year y) m + (d - 1)"
  by (simp add: date_days_def Let_def)

lemma date_days_13: "date_days y 13 d = days_before_year (y + 1) + (d - 1)"
  by (simp add: date_days_def Let_def)

lemma date_days_next_month:
  "1 \<le> m \<Longrightarrow> m \<le> 12 \<Longrightarrow>
   date_days y (m + 1) d = days_before_year y + days_before_month (leap_year y) (m + 1) + (d - 1)"
  using date_days_small [of "m + 1" y d] date_days_13 [of y d] days_before_year_step [of y]
    days_before_month_13 [of "leap_year y"]
  by (cases "m = 12") simp_all

lemma date_days_civil [simp]: "date_days (day_year d) (day_month d) (month_day d) = d"
  using day_month_bounds [of d] by (simp add: date_days_small month_day_def year_day_def)

lemma days_before_month_mono:
  assumes "1 \<le> m" "m \<le> 12"
  shows "days_before_month l m + 28 \<le> days_before_month l (m + 1)"
    "days_before_month l (m + 1) \<le> days_before_month l m + 31"
    "0 \<le> days_before_month l m" "days_before_month l (m + 1) \<le> 365 + (if l then 1 else 0)"
  using assms by (cases rule: month_cases; simp add: days_before_month_def)+

lemma civil_of_date:
  assumes "1 \<le> m" "m \<le> 12" "date_days y m 1 \<le> d" "d < date_days y (m + 1) 1"
  shows "day_year d = y" "day_month d = m" "month_day d = d - date_days y m 1 + 1"
proof -
  show y: "day_year d = y"
    using assms days_before_month_mono [OF assms(1,2), of "leap_year y"] days_before_year_step [of y]
    by (intro day_year_eq) (simp_all add: date_days_small date_days_next_month)
  have "days_before_month (leap_year y) m \<le> year_day d" "year_day d < days_before_month (leap_year y) (m + 1)"
    using assms y by (simp_all add: date_days_small date_days_next_month year_day_def)
  then show m: "day_month d = m"
    using month_count [OF assms(1,2)] y by (simp add: day_month_def)
  show "month_day d = d - date_days y m 1 + 1"
    using y m assms(1,2) by (simp add: month_day_def year_day_def date_days_small)
qed

lemma date_days_mod: "date_days y m d = date_days (y + (m - 1) div 12) ((m - 1) mod 12 + 1) d"
  by (simp add: date_days_def Let_def)

lemma date_days_mod_next: "date_days y (m + 1) d = date_days (y + (m - 1) div 12) ((m - 1) mod 12 + 1 + 1) d"
  using div_mod_step [of 12 m] by (auto simp: date_days_def Let_def algebra_simps)

text \<open>Every day from the first of a month to before the first of the next is in that month.\<close>

lemma month_of_span:
  assumes "date_days y m 1 \<le> d" "d < date_days y (m + 1) 1"
  shows "day_year d = y + (m - 1) div 12" "day_month d = (m - 1) mod 12 + 1"
    "month_day d = d - date_days y m 1 + 1"
  using civil_of_date [of "(m - 1) mod 12 + 1" "y + (m - 1) div 12" d] assms date_days_mod [of y m 1]
    date_days_mod_next [of y m 1] by simp_all

lemma date_days_step: "date_days y m 1 + 28 \<le> date_days y (m + 1) 1" "date_days y (m + 1) 1 \<le> date_days y m 1 + 31"
proof -
  obtain y' m' where m': "y' = y + (m - 1) div 12" "m' = (m - 1) mod 12 + 1" "1 \<le> m'" "m' \<le> 12" by simp
  have "date_days y m 1 = date_days y' m' 1" "date_days y (m + 1) 1 = date_days y' (m' + 1) 1"
    unfolding m'(1,2) by (rule date_days_mod, rule date_days_mod_next)
  then show "date_days y m 1 + 28 \<le> date_days y (m + 1) 1" "date_days y (m + 1) 1 \<le> date_days y m 1 + 31"
    using days_before_month_mono [OF m'(3,4), of "leap_year y'"] m'(3,4)
    by (simp_all add: date_days_small date_days_next_month)
qed

end
