(* ===== verification/Cron.thy ===== *)
theory Cron
  imports Calendar Batch Refs Pktline Access
begin

text \<open>
  The cron schedules of the bundle strategies (\<^verbatim>\<open>internal/bundle/cron.go\<close>): the masks of a parsed
  schedule, the parser of the six-field expressions and of the aliases, \<open>Next\<close> (the first fire time
  after an instant) and \<open>Between\<close> (the fire times of a window). A time inside the loops is a number of
  seconds since year 1.

  Shown here: one pass of the loop of \<open>Next\<close> either stands on a match or moves on without skipping one.
\<close>

section \<open>Schedules\<close>

text \<open>
  A \<^verbatim>\<open>Cron\<close> has one 64-bit mask per field, bit \<open>i\<close> set for an allowed value \<open>i\<close>, and says whether the
  day-of-month and the weekday field were restricted. \<open>mask_of\<close> is \<^verbatim>\<open>uint64(1) << uint(n)\<close>, which is 0
  for a negative or too large \<open>n\<close>.
\<close>

record cron =
  cn_sec :: u64
  cn_min :: u64
  cn_hour :: u64
  cn_dom :: u64
  cn_mon :: u64
  cn_dow :: u64
  cn_dom_set :: bool
  cn_dow_set :: bool

datatype cron_error =
    EmptySchedule | EveryUnsupported | UnknownAlias | FieldCount nat
  | EmptyTerm nat | BadStep nat | EmptyValue nat | NotDigits nat | BadValue nat
  | OutOfBounds nat int | InvertedRange nat int int | NoEnd

definition field_lo :: "nat \<Rightarrow> int" where
  "field_lo fi = [0, 0, 0, 1, 1, 0] ! fi"

definition field_hi :: "nat \<Rightarrow> int" where
  "field_hi fi = [59, 59, 23, 31, 12, 7] ! fi"

definition mask_of :: "int \<Rightarrow> u64" where
  "mask_of n = (if 0 \<le> n \<and> n < 64 then push_bit (nat n) 1 else 0)"

definition allows :: "u64 \<Rightarrow> int \<Rightarrow> bool" where
  "allows m v \<longleftrightarrow> m AND mask_of v \<noteq> 0"

definition all_mask :: "int \<Rightarrow> int \<Rightarrow> u64" where
  "all_mask lo hi = fold (\<lambda>i m. m OR mask_of i) [lo..hi] 0"

definition first_set :: "u64 \<Rightarrow> int" where
  "first_set m = (case filter (allows m) [0..63] of [] \<Rightarrow> - 1 | v # _ \<Rightarrow> v)"

text \<open>\<^verbatim>\<open>nextSet\<close>: the shift drops the values up to \<open>v\<close>, the trailing zeros count to the next one.\<close>

definition next_set :: "u64 \<Rightarrow> int \<Rightarrow> int" where
  "next_set m v =
     (if 63 \<le> v then - 1
      else let high = drop_bit (nat (v + 1)) m
           in if high = 0 then - 1 else v + 1 + first_set high)"

section \<open>Parsing\<close>

definition is_digit :: "char \<Rightarrow> bool" where
  "is_digit c \<longleftrightarrow> CHR ''0'' \<le> c \<and> c \<le> CHR ''9''"

definition max_int64 :: int where "max_int64 = 9223372036854775807"

definition wrap_int64 :: "int \<Rightarrow> int" where
  "wrap_int64 x = (x + 2 ^ 63) mod 2 ^ 64 - 2 ^ 63"

definition decimal_value :: "string \<Rightarrow> int" where
  "decimal_value s = foldl (\<lambda>v c. v * 10 + (of_char c - 48)) 0 s"

text \<open>\<^verbatim>\<open>strconv.Atoi\<close> on a 64-bit machine: an optional sign and decimal digits.\<close>

definition atoi :: "string \<Rightarrow> int option" where
  "atoi s =
     (let neg = prefix ''-'' s; ds = (if prefix ''-'' s \<or> prefix ''+'' s then tl s else s);
          v = (if neg then - decimal_value ds else decimal_value ds)
      in if ds = [] \<or> \<not> list_all is_digit ds then None
         else if v < - max_int64 - 1 \<or> max_int64 < v then None
         else Some v)"

text \<open>\<^verbatim>\<open>strings.TrimSpace\<close>, white space outside ASCII included.\<close>

fun trim_left_space :: "string \<Rightarrow> string" where
  "trim_left_space [] = []"
| "trim_left_space (c # cs) =
     (case space_len (c # cs) of 0 \<Rightarrow> c # cs | Suc k \<Rightarrow> trim_left_space (drop k cs))"

fun trim_right_space :: "string \<Rightarrow> string" where
  "trim_right_space [] = []"
| "trim_right_space (c # cs) = (if str_fields (c # cs) = [] then [] else c # trim_right_space cs)"

definition parse_value :: "nat \<Rightarrow> string \<Rightarrow> cron_error + int" where
  "parse_value fi s =
     (if s = [] then Inl (EmptyValue fi)
      else if \<not> list_all is_digit s then Inl (NotDigits fi)
      else case atoi s of
          None \<Rightarrow> Inl (BadValue fi)
        | Some v \<Rightarrow> if v < field_lo fi \<or> field_hi fi < v then Inl (OutOfBounds fi v) else Inr v)"

text \<open>
  The loop over the values of a term, with the 64-bit addition of the step. The fuel of the caller
  is more than any parsed term needs (\<open>mark_values_ends\<close>).
\<close>

fun mark_values :: "nat \<Rightarrow> nat \<Rightarrow> int \<Rightarrow> int \<Rightarrow> int \<Rightarrow> u64 \<Rightarrow> u64 option" where
  "mark_values 0 fi v hi step m = None"
| "mark_values (Suc n) fi v hi step m =
     (if hi < v \<or> field_hi fi < v then Some m
      else mark_values n fi (wrap_int64 (v + step)) hi step
             (m OR mask_of (if fi = 5 \<and> v = 7 then 0 else v)))"

definition term_step :: "nat \<Rightarrow> string option \<Rightarrow> cron_error + int" where
  "term_step fi step_str =
     (case step_str of
        None \<Rightarrow> Inr 1
      | Some s \<Rightarrow> (case atoi s of Some v \<Rightarrow> if v \<le> 0 then Inl (BadStep fi) else Inr v | None \<Rightarrow> Inl (BadStep fi)))"

definition term_range :: "nat \<Rightarrow> string \<Rightarrow> bool \<Rightarrow> cron_error + (int \<times> int \<times> bool)" where
  "term_range fi body has_step =
     (if body = ''*'' then Inr (field_lo fi, field_hi fi, has_step)
      else case cut_char (CHR ''-'') body of
          Some (a, b) \<Rightarrow>
            rbind (parse_value fi a) (\<lambda>lo. rbind (parse_value fi b) (\<lambda>hi.
              if hi < lo then Inl (InvertedRange fi lo hi) else Inr (lo, hi, True)))
        | None \<Rightarrow> rbind (parse_value fi body) (\<lambda>v. Inr (v, if has_step then field_hi fi else v, True)))"

definition parse_term :: "nat \<Rightarrow> string \<Rightarrow> u64 \<Rightarrow> cron_error + (u64 \<times> bool)" where
  "parse_term fi term m =
     (if term = [] then Inl (EmptyTerm fi)
      else let (body, step_str) = (case cut_char (CHR ''/'') term of
                                     Some (b, s) \<Rightarrow> (b, Some s) | None \<Rightarrow> (term, None))
           in rbind (term_step fi step_str) (\<lambda>step.
              rbind (term_range fi body (step_str \<noteq> None)) (\<lambda>(lo, hi, restricted).
                case mark_values 128 fi lo hi step m of None \<Rightarrow> Inl NoEnd | Some m' \<Rightarrow> Inr (m', restricted))))"

fun parse_terms :: "nat \<Rightarrow> string list \<Rightarrow> u64 \<Rightarrow> bool \<Rightarrow> cron_error + (u64 \<times> bool)" where
  "parse_terms fi [] m restricted = Inr (m, restricted)"
| "parse_terms fi (t # ts) m restricted =
     rbind (parse_term fi t m) (\<lambda>(m', r). parse_terms fi ts m' (restricted \<or> r))"

definition parse_field :: "nat \<Rightarrow> string \<Rightarrow> cron_error + (u64 \<times> bool)" where
  "parse_field fi s = parse_terms fi (split_char (CHR '','') s) 0 False"

definition cron_aliases :: "(string \<times> u64 list) list" where
  "cron_aliases =
     [(''@yearly'', [mask_of 0, mask_of 0, mask_of 0, mask_of 1, mask_of 1, all_mask 0 6]),
      (''@annually'', [mask_of 0, mask_of 0, mask_of 0, mask_of 1, mask_of 1, all_mask 0 6]),
      (''@monthly'', [mask_of 0, mask_of 0, mask_of 0, mask_of 1, all_mask 1 12, all_mask 0 6]),
      (''@weekly'', [mask_of 0, mask_of 0, mask_of 0, all_mask 1 31, all_mask 1 12, mask_of 0]),
      (''@daily'', [mask_of 0, mask_of 0, mask_of 0, all_mask 1 31, all_mask 1 12, all_mask 0 6]),
      (''@midnight'', [mask_of 0, mask_of 0, mask_of 0, all_mask 1 31, all_mask 1 12, all_mask 0 6]),
      (''@hourly'', [mask_of 0, mask_of 0, all_mask 0 23, all_mask 1 31, all_mask 1 12, all_mask 0 6])]"

definition alias_cron :: "u64 list \<Rightarrow> cron" where
  "alias_cron a =
     \<lparr>cn_sec = a ! 0, cn_min = a ! 1, cn_hour = a ! 2, cn_dom = a ! 3, cn_mon = a ! 4, cn_dow = a ! 5,
      cn_dom_set = (a ! 3 \<noteq> all_mask 1 31), cn_dow_set = (a ! 5 \<noteq> all_mask 0 6)\<rparr>"

definition parse_schedule :: "string \<Rightarrow> cron_error + cron" where
  "parse_schedule s =
     (let raw = trim_right_space (trim_left_space s)
      in if raw = [] then Inl EmptySchedule
         else if prefix ''@every'' raw then Inl EveryUnsupported
         else if prefix ''@'' raw then
           (case map_of cron_aliases (to_lower raw) of None \<Rightarrow> Inl UnknownAlias | Some a \<Rightarrow> Inr (alias_cron a))
         else case str_fields raw of
             [f0, f1, f2, f3, f4, f5] \<Rightarrow>
               rbind (parse_field 0 f0) (\<lambda>(sc, _). rbind (parse_field 1 f1) (\<lambda>(mi, _).
               rbind (parse_field 2 f2) (\<lambda>(hr, _). rbind (parse_field 3 f3) (\<lambda>(dm, dom_set).
               rbind (parse_field 4 f4) (\<lambda>(mn, _). rbind (parse_field 5 f5) (\<lambda>(dw, dow_set).
                 Inr \<lparr>cn_sec = sc, cn_min = mi, cn_hour = hr, cn_dom = dm, cn_mon = mn, cn_dow = dw,
                      cn_dom_set = dom_set, cn_dow_set = dow_set\<rparr>))))))
           | fs \<Rightarrow> Inl (FieldCount (length fs)))"

section \<open>Next and Between\<close>

text \<open>The day rule: both fields restricted, either may match; one restricted, it must match.\<close>

definition day_ok :: "cron \<Rightarrow> int \<Rightarrow> bool" where
  "day_ok c t =
     (let dom_ok = allows (cn_dom c) (month_day (sec_day t)); dow_ok = allows (cn_dow c) (sec_weekday t)
      in if cn_dom_set c \<and> cn_dow_set c then dom_ok \<or> dow_ok
         else if cn_dom_set c then dom_ok
         else if cn_dow_set c then dow_ok
         else True)"

text \<open>The inner loop over the months; it would not end for an empty month mask.\<close>

fun skip_months :: "nat \<Rightarrow> cron \<Rightarrow> int \<Rightarrow> int option" where
  "skip_months 0 c t = None"
| "skip_months (Suc n) c t =
     (if allows (cn_mon c) (day_month (sec_day t)) then Some t else skip_months n c (add_date t 0 1 0))"

text \<open>One pass of the loop of \<^verbatim>\<open>Next\<close>: it returns the time, moves it on, or is stuck in the inner loop.\<close>

datatype advance = Matches | Moves int | Stuck

definition cron_advance :: "cron \<Rightarrow> int \<Rightarrow> advance" where
  "cron_advance c t =
     (let d = sec_day t; y = day_year d; mo = day_month d; dd = month_day d;
          h0 = first_set (cn_hour c); m0 = first_set (cn_min c); s0 = first_set (cn_sec c)
      in if \<not> allows (cn_mon c) mo then
           (case skip_months 13 c (add_date (go_date y mo 1 h0 m0 s0) 0 1 0) of Some t' \<Rightarrow> Moves t' | None \<Rightarrow> Stuck)
         else if \<not> day_ok c t then Moves (add_date (go_date y mo dd h0 m0 s0) 0 0 1)
         else if \<not> allows (cn_hour c) (sec_hour t) then
           (let h = next_set (cn_hour c) (sec_hour t)
            in if 0 \<le> h then Moves (go_date y mo dd h m0 s0)
               else Moves (add_date (go_date y mo dd h0 m0 s0) 0 0 1))
         else if \<not> allows (cn_min c) (sec_minute t) then
           (let mi = next_set (cn_min c) (sec_minute t)
            in if 0 \<le> mi then Moves (go_date y mo dd (sec_hour t) mi s0)
               else Moves (go_date y mo dd (sec_hour t) m0 s0 + 3600))
         else if \<not> allows (cn_sec c) (sec_second t) then
           (let s = next_set (cn_sec c) (sec_second t)
            in if 0 \<le> s then Moves (go_date y mo dd (sec_hour t) (sec_minute t) s)
               else Moves (go_date y mo dd (sec_hour t) (sec_minute t) s0 + 60))
         else Matches)"

datatype next_fire = Fires go_time | NoFire | Endless

function next_loop :: "cron \<Rightarrow> int \<Rightarrow> nat \<Rightarrow> int \<Rightarrow> next_fire" where
  "next_loop c limit i t =
     (if 2000000 < i \<or> \<not> t < limit then NoFire
      else case cron_advance c t of
          Matches \<Rightarrow> Fires (t * 10 ^ 9)
        | Moves t' \<Rightarrow> next_loop c limit (i + 1) t'
        | Stuck \<Rightarrow> Endless)"
  by pat_completeness auto
termination by (relation "measure (\<lambda>(c, limit, i, t). 2000001 - i)") auto

declare next_loop.simps [simp del]

definition cron_next :: "cron \<Rightarrow> go_time \<Rightarrow> next_fire" where
  "cron_next c start = (let t = start div 10 ^ 9 + 1 in next_loop c (add_date t 5 0 0) 0 t)"

datatype fire_list = FireTimes "go_time list" | CapReached | ListEndless

function between_loop :: "cron \<Rightarrow> go_time \<Rightarrow> go_time \<Rightarrow> go_time list \<Rightarrow> fire_list" where
  "between_loop c finish t out =
     (case cron_next c t of
        Endless \<Rightarrow> ListEndless
      | NoFire \<Rightarrow> FireTimes out
      | Fires n \<Rightarrow>
          if finish < n then FireTimes out
          else if 10000 \<le> length out then CapReached
          else between_loop c finish n (out @ [n]))"
  by pat_completeness auto
termination by (relation "measure (\<lambda>(c, finish, t, out). 10001 - length out)") auto

declare between_loop.simps [simp del]

definition cron_between :: "cron \<Rightarrow> go_time \<Rightarrow> go_time \<Rightarrow> fire_list" where
  "cron_between c start finish =
     (if finish < start then FireTimes [] else between_loop c finish (start - 10 ^ 9) [])"

section \<open>Masks\<close>

lemma allows_iff: "allows m v \<longleftrightarrow> 0 \<le> v \<and> v < 64 \<and> bit m (nat v)"
proof (cases "0 \<le> v \<and> v < 64")
  case True
  then have "m AND mask_of v = (if bit m (nat v) then push_bit (nat v) 1 else 0)"
    by (intro bit_word_eqI) (auto simp: mask_of_def bit_simps)
  moreover have "bit (push_bit (nat v) (1 :: u64)) (nat v)"
    using True by (simp add: bit_simps nat_less_iff)
  then have "push_bit (nat v) (1 :: u64) \<noteq> 0" by (metis bit_0_eq bot_apply bot_bool_def)
  ultimately show ?thesis using True by (simp add: allows_def)
next
  case False
  then show ?thesis by (auto simp: allows_def mask_of_def)
qed

lemma allows_or [simp]: "allows (a OR b) v \<longleftrightarrow> allows a v \<or> allows b v"
  by (auto simp: allows_iff bit_simps)

lemma allows_mask_of [simp]: "allows (mask_of n) v \<longleftrightarrow> v = n \<and> 0 \<le> v \<and> v < 64"
  by (auto simp: allows_iff mask_of_def bit_simps)

lemma allows_zero [simp]: "\<not> allows 0 v"
  by (simp add: allows_def)

lemma first_set:
  assumes "allows m v"
  shows "allows m (first_set m)" "first_set m \<le> v" "0 \<le> first_set m"
proof -
  have v: "v \<in> set (filter (allows m) [0..63])" using assms by (simp add: allows_iff)
  then obtain u us where u: "filter (allows m) [0..63] = u # us" by (cases "filter (allows m) [0..63]") auto
  have "sorted (filter (allows m) [0..63])" by (intro sorted_wrt_filter) simp
  with u v have "u \<le> v" by auto
  moreover have "allows m u" using u by (metis (mono_tags) filter_eq_ConsD)
  ultimately show "allows m (first_set m)" "first_set m \<le> v" "0 \<le> first_set m"
    using u by (simp_all add: first_set_def allows_iff)
qed

lemma allows_drop: "0 \<le> k \<Longrightarrow> allows (drop_bit (nat k) m) v \<longleftrightarrow> 0 \<le> v \<and> allows m (k + v)"
  by (auto simp: allows_iff bit_simps nat_add_distrib dest: bit_imp_le_length)

lemma next_set:
  assumes "0 \<le> v"
  shows "0 \<le> next_set m v \<Longrightarrow> allows m (next_set m v) \<and> v < next_set m v \<and> (\<forall>u. v < u \<and> allows m u \<longrightarrow> next_set m v \<le> u)"
    "\<not> 0 \<le> next_set m v \<Longrightarrow> v < u \<Longrightarrow> \<not> allows m u"
proof -
  define high where "high = drop_bit (nat (v + 1)) m"
  have high: "allows high w \<longleftrightarrow> 0 \<le> w \<and> allows m (v + 1 + w)" for w
    using assms allows_drop [of "v + 1" m w] by (simp add: high_def)
  have none: "\<not> allows m u" if "v < u" "63 \<le> v \<or> high = 0" for u
    using that high [of "u - v - 1"] by (auto simp: allows_iff)
  have some: "\<exists>w. allows high w" if "high \<noteq> 0"
  proof -
    have "\<exists>n. bit high n"
    proof (rule ccontr)
      assume "\<nexists>n. bit high n"
      then have "high = 0" by (intro bit_word_eqI) simp
      with that show False by simp
    qed
    then obtain n where n: "bit high n" by blast
    then have "n < 64" using bit_imp_le_length [OF n] by simp
    with n have "allows high (int n)" by (simp add: allows_iff)
    then show ?thesis by blast
  qed
  have ns: "next_set m v = (if 63 \<le> v \<or> high = 0 then - 1 else v + 1 + first_set high)"
    by (simp add: next_set_def Let_def high_def)
  show "allows m (next_set m v) \<and> v < next_set m v \<and> (\<forall>u. v < u \<and> allows m u \<longrightarrow> next_set m v \<le> u)"
    if "0 \<le> next_set m v"
  proof -
    have c: "\<not> (63 \<le> v \<or> high = 0)" using that by (auto simp: ns)
    then obtain w where w: "allows high w" using some by blast
    have "next_set m v \<le> u" if "v < u" "allows m u" for u
    proof -
      have "allows high (u - v - 1)" using that high [of "u - v - 1"] by simp
      from first_set(2) [OF this] c show ?thesis by (simp add: ns)
    qed
    then show ?thesis using first_set [OF w] high [of "first_set high"] c by (simp add: ns)
  qed
  show "\<not> allows m u" if "\<not> 0 \<le> next_set m v" "v < u"
  proof (rule none [OF that(2)], rule ccontr)
    assume c: "\<not> (63 \<le> v \<or> high = 0)"
    then obtain w where "allows high w" using some by blast
    from first_set(3) [OF this] c that(1) assms show False by (simp add: ns)
  qed
qed

section \<open>Clock times\<close>

lemma clock_split: "t = sec_day t * 86400 + sec_hour t * 3600 + sec_minute t * 60 + sec_second t"
proof -
  have "t mod 86400 = t mod 86400 div 3600 * 3600 + t mod 86400 mod 3600" by simp
  moreover have "t mod 86400 mod 3600 = t mod 3600" by (simp add: mod_mod_cancel)
  moreover have "t mod 3600 = t mod 3600 div 60 * 60 + t mod 3600 mod 60" by simp
  moreover have "t mod 3600 mod 60 = t mod 60" by (simp add: mod_mod_cancel)
  moreover have "t = t div 86400 * 86400 + t mod 86400" by simp
  ultimately show ?thesis unfolding sec_defs by linarith
qed

lemma clock_bounds [simp]:
  "0 \<le> sec_hour t" "sec_hour t \<le> 23" "0 \<le> sec_minute t" "sec_minute t \<le> 59"
  "0 \<le> sec_second t" "sec_second t \<le> 59"
proof -
  have "0 \<le> t mod 86400" "t mod 86400 \<le> 86399" "0 \<le> t mod 3600" "t mod 3600 \<le> 3599"
    "0 \<le> t mod 60" "t mod 60 \<le> 59"
    using pos_mod_bound [of 86400 t] pos_mod_bound [of 3600 t] pos_mod_bound [of 60 t] by simp_all
  then show "0 \<le> sec_hour t" "sec_hour t \<le> 23" "0 \<le> sec_minute t" "sec_minute t \<le> 59"
    "0 \<le> sec_second t" "sec_second t \<le> 59"
    using zdiv_mono1 [of "t mod 86400" 86399 3600] zdiv_mono1 [of "t mod 3600" 3599 60]
    unfolding sec_defs by (simp_all add: pos_imp_zdiv_nonneg_iff)
qed

lemma clock_less:
  "x < y \<longleftrightarrow> sec_day x < sec_day y \<or> sec_day x = sec_day y \<and>
     (sec_hour x < sec_hour y \<or> sec_hour x = sec_hour y \<and>
       (sec_minute x < sec_minute y \<or> sec_minute x = sec_minute y \<and> sec_second x < sec_second y))"
  using clock_split [of x] clock_split [of y] clock_bounds [of x] clock_bounds [of y] by linarith

lemma clock_of:
  assumes "0 \<le> h" "h \<le> 23" "0 \<le> mi" "mi \<le> 59" "0 \<le> s" "s \<le> 59"
  shows "sec_day (d * 86400 + h * 3600 + mi * 60 + s) = d" "sec_hour (d * 86400 + h * 3600 + mi * 60 + s) = h"
    "sec_minute (d * 86400 + h * 3600 + mi * 60 + s) = mi" "sec_second (d * 86400 + h * 3600 + mi * 60 + s) = s"
proof -
  define t where "t = d * 86400 + h * 3600 + mi * 60 + s"
  note b = clock_bounds [of t] clock_split [of t]
  have d: "sec_day t = d" using b assms unfolding t_def by linarith
  have h: "sec_hour t = h" using b assms d unfolding t_def by linarith
  have m: "sec_minute t = mi" using b assms d h unfolding t_def by linarith
  have "sec_second t = s" using b assms d h m unfolding t_def by linarith
  with d h m show "sec_day (d * 86400 + h * 3600 + mi * 60 + s) = d" "sec_hour (d * 86400 + h * 3600 + mi * 60 + s) = h"
    "sec_minute (d * 86400 + h * 3600 + mi * 60 + s) = mi" "sec_second (d * 86400 + h * 3600 + mi * 60 + s) = s"
    by (simp_all add: t_def)
qed

section \<open>Next finds the least matching second\<close>

definition cron_match :: "cron \<Rightarrow> int \<Rightarrow> bool" where
  "cron_match c t \<longleftrightarrow>
     allows (cn_mon c) (day_month (sec_day t)) \<and> day_ok c t \<and> allows (cn_hour c) (sec_hour t)
     \<and> allows (cn_min c) (sec_minute t) \<and> allows (cn_sec c) (sec_second t)"

text \<open>What parsing guarantees of the masks.\<close>

definition wf_cron :: "cron \<Rightarrow> bool" where
  "wf_cron c \<longleftrightarrow>
     (\<exists>v\<in>{1..12}. allows (cn_mon c) v)
     \<and> (\<exists>v. allows (cn_hour c) v) \<and> (\<forall>v. allows (cn_hour c) v \<longrightarrow> v \<le> 23)
     \<and> (\<exists>v. allows (cn_min c) v) \<and> (\<forall>v. allows (cn_min c) v \<longrightarrow> v \<le> 59)
     \<and> (\<exists>v. allows (cn_sec c) v) \<and> (\<forall>v. allows (cn_sec c) v \<longrightarrow> v \<le> 59)"

lemma day_ok_day: "sec_day x = sec_day t \<Longrightarrow> day_ok c x = day_ok c t"
  by (simp add: day_ok_def sec_weekday_def)

lemma go_date_same_day:
  "go_date (day_year d) (day_month d) (month_day d) h mi s = d * 86400 + h * 3600 + mi * 60 + s"
  by (simp add: go_date_def)

lemma go_date_first:
  "go_date y m 1 h mi s = date_days y m 1 * 86400 + h * 3600 + mi * 60 + s"
  by (simp add: go_date_def)

lemma civil_of_first:
  "day_year (date_days y m 1) = y + (m - 1) div 12" "day_month (date_days y m 1) = (m - 1) mod 12 + 1"
  "month_day (date_days y m 1) = 1"
  using month_of_span [of y m "date_days y m 1"] date_days_step(1) [of y m] by simp_all

lemma go_date_shift: "go_date (y + (m - 1) div 12) ((m - 1) mod 12 + 1 + k) d h mi s = go_date y (m + k) d h mi s"
proof -
  have "m - 1 + k = 12 * ((m - 1) div 12) + ((m - 1) mod 12 + k)" by simp
  then have "(m - 1 + k) div 12 = (m - 1) div 12 + ((m - 1) mod 12 + k) div 12"
    "(m - 1 + k) mod 12 = ((m - 1) mod 12 + k) mod 12" by (metis add.commute div_mult_self2 zero_neq_numeral, metis mod_mult_self4)
  then show ?thesis by (simp add: go_date_def date_days_def Let_def algebra_simps)
qed

definition clock_ok :: "int \<Rightarrow> int \<Rightarrow> int \<Rightarrow> bool" where
  "clock_ok h mi s \<longleftrightarrow> 0 \<le> h \<and> h \<le> 23 \<and> 0 \<le> mi \<and> mi \<le> 59 \<and> 0 \<le> s \<and> s \<le> 59"

lemma clock_of_ok:
  assumes "clock_ok h mi s"
  shows "sec_day (d * 86400 + h * 3600 + mi * 60 + s) = d" "sec_hour (d * 86400 + h * 3600 + mi * 60 + s) = h"
    "sec_minute (d * 86400 + h * 3600 + mi * 60 + s) = mi" "sec_second (d * 86400 + h * 3600 + mi * 60 + s) = s"
  using assms by (simp_all add: clock_ok_def clock_of)

lemma add_month_first: "clock_ok h mi s \<Longrightarrow> add_date (go_date y m 1 h mi s) 0 1 0 = go_date y (m + 1) 1 h mi s"
  using go_date_shift [of y m 1 1 h mi s]
  by (simp add: add_date_def go_date_first clock_of_ok civil_of_first)

lemma add_day: "clock_ok h mi s \<Longrightarrow> add_date (d * 86400 + h * 3600 + mi * 60 + s) 0 0 1 = (d + 1) * 86400 + h * 3600 + mi * 60 + s"
  using go_date_same_day [of d h mi s]
  by (simp add: add_date_def clock_of_ok go_date_def date_days_def Let_def)

lemma skip_months_finds:
  assumes ok: "clock_ok h mi s"
    and "allows (cn_mon c) ((m + int k - 1) mod 12 + 1)" "k < n"
    and "\<And>j. j < k \<Longrightarrow> \<not> allows (cn_mon c) ((m + int j - 1) mod 12 + 1)"
  shows "skip_months n c (go_date y m 1 h mi s) = Some (go_date y (m + int k) 1 h mi s)"
  using assms(2-)
proof (induction k arbitrary: n m)
  case 0
  then show ?case using ok by (cases n) (simp_all add: go_date_first clock_of_ok civil_of_first)
next
  case (Suc k)
  from Suc.prems(2) obtain n' where n: "n = Suc n'" by (cases n) auto
  have "\<not> allows (cn_mon c) ((m - 1) mod 12 + 1)" using Suc.prems(3) [of 0] by simp
  then have "skip_months n c (go_date y m 1 h mi s) = skip_months n' c (go_date y (m + 1) 1 h mi s)"
    using ok by (simp add: n add_month_first) (simp add: go_date_first clock_of_ok civil_of_first)
  also have "\<dots> = Some (go_date y (m + 1 + int k) 1 h mi s)"
    using Suc.prems(1,2) Suc.prems(3) [of "Suc _"] n by (intro Suc.IH) (simp_all add: algebra_simps)
  finally show ?case by (simp add: algebra_simps)
qed

lemma month_eventually:
  assumes "v \<in> {1..12}" "allows (cn_mon c) v"
  obtains k where "k < 12" "allows (cn_mon c) ((m + int k - 1) mod 12 + 1)"
    "\<And>j. j < k \<Longrightarrow> \<not> allows (cn_mon c) ((m + int j - 1) mod 12 + 1)"
proof -
  define P where "P k \<longleftrightarrow> allows (cn_mon c) ((m + int k - 1) mod 12 + 1)" for k
  have "(m + int (nat ((v - m) mod 12)) - 1) mod 12 + 1 = v"
    using assms(1) mod_add_left_eq [of "v - m" 12 "m - 1"] by (simp add: algebra_simps)
  then have "P (nat ((v - m) mod 12))" using assms(2) by (simp add: P_def)
  moreover have "nat ((v - m) mod 12) < 12" by (simp add: nat_less_iff)
  ultimately have "(LEAST k. P k) < 12" "P (LEAST k. P k)"
    by (meson Least_le order_le_less_trans, metis LeastI)
  moreover have "\<not> P j" if "j < (LEAST k. P k)" for j using that by (rule not_less_Least)
  ultimately show thesis by (intro that [of "LEAST k. P k"]) (simp_all add: P_def)
qed

lemma month_before:
  assumes "date_days y m 1 \<le> d" "d < date_days y (m + int k) 1"
  obtains j where "j < k" "day_month d = (m + int j - 1) mod 12 + 1"
  using assms
proof (induction k arbitrary: thesis)
  case (Suc k)
  show ?case
  proof (cases "d < date_days y (m + int k) 1")
    case True
    from Suc.IH [OF _ Suc.prems(2) True] Suc.prems(1) show ?thesis by (metis less_Suc_eq)
  next
    case False
    with Suc.prems(3) have "day_month d = (m + int k - 1) mod 12 + 1"
      by (intro month_of_span) (simp_all add: algebra_simps)
    then show ?thesis by (intro Suc.prems(1) [of k]) simp_all
  qed
qed simp

lemma wf_cronD:
  assumes "wf_cron c"
  shows "allows (cn_hour c) (first_set (cn_hour c))" "allows (cn_min c) (first_set (cn_min c))"
    "allows (cn_sec c) (first_set (cn_sec c))"
    "clock_ok (first_set (cn_hour c)) (first_set (cn_min c)) (first_set (cn_sec c))"
    "allows (cn_hour c) v \<Longrightarrow> v \<le> 23" "allows (cn_min c) v \<Longrightarrow> v \<le> 59" "allows (cn_sec c) v \<Longrightarrow> v \<le> 59"
proof -
  obtain h mi s where a: "allows (cn_hour c) h" "allows (cn_min c) mi" "allows (cn_sec c) s"
    using assms unfolding wf_cron_def by blast
  show f: "allows (cn_hour c) (first_set (cn_hour c))" "allows (cn_min c) (first_set (cn_min c))"
    "allows (cn_sec c) (first_set (cn_sec c))"
    using a by (auto intro: first_set)
  show "allows (cn_hour c) v \<Longrightarrow> v \<le> 23" "allows (cn_min c) v \<Longrightarrow> v \<le> 59" "allows (cn_sec c) v \<Longrightarrow> v \<le> 59"
    using assms unfolding wf_cron_def by blast+
  show "clock_ok (first_set (cn_hour c)) (first_set (cn_min c)) (first_set (cn_sec c))"
    using assms f a first_set(3) unfolding wf_cron_def clock_ok_def by meson
qed

text \<open>What one pass achieves: no match is skipped, and \<open>stage\<close> or the day makes progress.\<close>

definition stage :: "cron \<Rightarrow> int \<Rightarrow> nat" where
  "stage c t =
     (if \<not> allows (cn_sec c) (sec_second t) then 3 else if \<not> allows (cn_min c) (sec_minute t) then 2
      else if \<not> allows (cn_hour c) (sec_hour t) then 1 else 0)"

definition progress :: "cron \<Rightarrow> int \<Rightarrow> int \<Rightarrow> bool" where
  "progress c t t' \<longleftrightarrow>
     t < t' \<and> (\<forall>x. t \<le> x \<and> x < t' \<longrightarrow> \<not> cron_match c x)
     \<and> sec_day t \<le> sec_day t' \<and> stage c t' \<le> stage c t \<and> (sec_day t < sec_day t' \<or> stage c t' < stage c t)"

lemma match_after_first:
  assumes "cron_match c x"
  shows "first_set (cn_hour c) \<le> sec_hour x" "first_set (cn_min c) \<le> sec_minute x" "first_set (cn_sec c) \<le> sec_second x"
  using assms by (auto simp: cron_match_def intro: first_set)

lemma progress_to_day:
  assumes wf: "wf_cron c" and d: "sec_day t < d"
    and skip: "\<And>x. sec_day t \<le> sec_day x \<Longrightarrow> sec_day x < d \<Longrightarrow> t \<le> x \<Longrightarrow> \<not> cron_match c x"
  shows "progress c t (d * 86400 + first_set (cn_hour c) * 3600 + first_set (cn_min c) * 60 + first_set (cn_sec c))"
    (is "progress c t ?t'")
proof -
  note w = wf_cronD(1-4) [OF wf]
  note cl = clock_of_ok [OF w(4), of d]
  have "stage c ?t' = 0" using w by (simp add: stage_def cl)
  moreover have "\<not> cron_match c x" if x: "t \<le> x" "x < ?t'" for x
  proof
    assume m: "cron_match c x"
    have "sec_day t \<le> sec_day x" using clock_less [of x t] x(1) by auto
    moreover have "sec_day x < d"
      using clock_less [of x ?t'] x(2) match_after_first [OF m] by (auto simp: cl)
    ultimately show False using skip x(1) m by blast
  qed
  moreover have "t < ?t'" using d by (simp add: clock_less [of t] cl)
  ultimately show ?thesis using d by (simp add: progress_def cl)
qed

lemma match_same_day_hour:
  assumes "cron_match c x" "t \<le> x" "sec_day x = sec_day t" "\<not> allows (cn_hour c) (sec_hour t)"
  shows "sec_hour t < sec_hour x"
  using assms clock_less [of x t] by (auto simp: cron_match_def not_less le_less)

lemma advance_month:
  assumes wf: "wf_cron c" and m: "\<not> allows (cn_mon c) (day_month (sec_day t))"
  shows "\<exists>t'. cron_advance c t = Moves t' \<and> progress c t t'"
proof -
  let ?d = "sec_day t" let ?y = "day_year (sec_day t)" let ?m = "day_month (sec_day t)"
  let ?h = "first_set (cn_hour c)" let ?mi = "first_set (cn_min c)" let ?s = "first_set (cn_sec c)"
  obtain v where v: "v \<in> {1..12}" "allows (cn_mon c) v" using wf unfolding wf_cron_def by blast
  obtain k where k: "k < 12" "allows (cn_mon c) ((?m + 1 + int k - 1) mod 12 + 1)"
    "\<And>j. j < k \<Longrightarrow> \<not> allows (cn_mon c) ((?m + 1 + int j - 1) mod 12 + 1)"
    using month_eventually [OF v, where m = "?m + 1"] by blast
  define d' where "d' = date_days ?y (?m + 1 + int k) 1"
  have adv: "cron_advance c t = Moves (d' * 86400 + ?h * 3600 + ?mi * 60 + ?s)"
    using m skip_months_finds [OF wf_cronD(4) [OF wf] k(2) _ k(3), of 13 ?y] k(1)
    by (simp add: cron_advance_def Let_def add_month_first [OF wf_cronD(4) [OF wf]])
      (simp add: go_date_first d'_def)
  have first: "date_days ?y ?m 1 \<le> ?d"
    using day_month_bounds [of ?d] by (simp add: date_days_small year_day_def)
  have no: "\<not> allows (cn_mon c) (day_month d)" if d: "?d \<le> d" "d < d'" for d
  proof -
    have "d < date_days ?y (?m + int (Suc k)) 1" using d(2) by (simp add: d'_def algebra_simps)
    moreover have "date_days ?y ?m 1 \<le> d" using first d(1) by simp
    ultimately obtain j where j: "j < Suc k" "day_month d = (?m + int j - 1) mod 12 + 1"
      using month_before by blast
    show ?thesis
    proof (cases j)
      case 0
      with j m day_month_bounds(1,2) [of ?d] show ?thesis by simp
    next
      case (Suc i)
      with j k(3) [of i] show ?thesis by (simp add: algebra_simps)
    qed
  qed
  have next_first: "?d < date_days ?y (?m + 1) 1"
    using day_month_bounds [of ?d] date_days_next_month [of ?m ?y 1] by (simp add: year_day_def)
  have mono: "date_days ?y (?m + 1) 1 \<le> date_days ?y (?m + 1 + int j) 1" for j
  proof (induction j)
    case (Suc j)
    have "date_days ?y (?m + 1 + int j) 1 + 28 \<le> date_days ?y (?m + 1 + int j + 1) 1" by (rule date_days_step)
    with Suc show ?case by (simp add: algebra_simps)
  qed simp
  have "?d < d'" using next_first mono [of k] by (simp add: d'_def)
  then have "progress c t (d' * 86400 + ?h * 3600 + ?mi * 60 + ?s)"
    using wf no by (intro progress_to_day) (auto simp: cron_match_def)
  with adv show ?thesis by blast
qed

text \<open>The remaining moves stay within the day or go to the next one.\<close>

lemma progress_next_day:
  assumes wf: "wf_cron c" and skip: "\<And>x. sec_day x = sec_day t \<Longrightarrow> t \<le> x \<Longrightarrow> \<not> cron_match c x"
  shows "progress c t (add_date (go_date (day_year (sec_day t)) (day_month (sec_day t)) (month_day (sec_day t))
           (first_set (cn_hour c)) (first_set (cn_min c)) (first_set (cn_sec c))) 0 0 1)"
  unfolding go_date_same_day add_day [OF wf_cronD(4) [OF wf]]
  by (rule progress_to_day [OF wf]) (use skip in auto)

text \<open>
  A move to a later clock time: the fields after the one that moved are at their first values, so
  that any match up to there would lie at an excluded value of that field.
\<close>

lemma progress_clock:
  assumes t': "t < t'" "sec_day t \<le> sec_day t'"
    and st: "stage c t' < stage c t"
    and skip: "\<And>x. cron_match c x \<Longrightarrow> t \<le> x \<Longrightarrow> x < t' \<Longrightarrow> False"
  shows "progress c t t'"
  using assms by (auto simp: progress_def)

lemma advance_hour:
  assumes wf: "wf_cron c" and h: "\<not> allows (cn_hour c) (sec_hour t)"
    and ok: "allows (cn_mon c) (day_month (sec_day t))" "day_ok c t"
  shows "\<exists>t'. cron_advance c t = Moves t' \<and> progress c t t'"
proof (cases "0 \<le> next_set (cn_hour c) (sec_hour t)")
  case True
  let ?h = "next_set (cn_hour c) (sec_hour t)"
  let ?t' = "sec_day t * 86400 + ?h * 3600 + first_set (cn_min c) * 60 + first_set (cn_sec c)"
  have adv: "cron_advance c t = Moves ?t'"
    using h ok True by (simp add: cron_advance_def Let_def go_date_same_day)
  have n: "allows (cn_hour c) ?h" "sec_hour t < ?h" "\<And>u. sec_hour t < u \<Longrightarrow> allows (cn_hour c) u \<Longrightarrow> ?h \<le> u"
    using next_set(1) [OF clock_bounds(1) True] by blast+
  have "?h \<le> 23" using wf_cronD(5) [OF wf n(1)] .
  then have "clock_ok ?h (first_set (cn_min c)) (first_set (cn_sec c))"
    using True wf_cronD(4) [OF wf] by (simp add: clock_ok_def)
  note cl = clock_of_ok [OF this, of "sec_day t"]
  have "progress c t ?t'"
  proof (rule progress_clock)
    show "t < ?t'" using n(2) by (simp add: clock_less [of t] cl)
    show "sec_day t \<le> sec_day ?t'" by (simp add: cl)
    show "stage c ?t' < stage c t" using h n(1) wf_cronD(2,3) [OF wf] by (simp add: stage_def cl)
    fix x assume m: "cron_match c x" and x: "t \<le> x" "x < ?t'"
    have "sec_day x = sec_day t" using x clock_less [of x t] clock_less [of x ?t'] match_after_first [OF m]
      by (auto simp: cl)
    with m x(1) h have "sec_hour t < sec_hour x" by (intro match_same_day_hour)
    then have "?h \<le> sec_hour x" using m n(3) by (simp add: cron_match_def)
    with x(2) \<open>sec_day x = sec_day t\<close> match_after_first [OF m] show False
      by (auto simp: clock_less [of x] cl)
  qed
  with adv show ?thesis by blast
next
  case False
  then have "cron_advance c t = Moves (add_date (go_date (day_year (sec_day t)) (day_month (sec_day t))
      (month_day (sec_day t)) (first_set (cn_hour c)) (first_set (cn_min c)) (first_set (cn_sec c))) 0 0 1)"
    using h ok by (simp add: cron_advance_def Let_def)
  moreover have "\<not> cron_match c x" if "sec_day x = sec_day t" "t \<le> x" for x
    using match_same_day_hour [OF _ that(2,1) h] next_set(2) [OF clock_bounds(1) False]
    by (auto simp: cron_match_def)
  ultimately show ?thesis using progress_next_day [OF wf] by blast
qed

lemma match_same_hour_minute:
  assumes "cron_match c x" "t \<le> x" "sec_day x = sec_day t" "sec_hour x = sec_hour t"
    "\<not> allows (cn_min c) (sec_minute t)"
  shows "sec_minute t < sec_minute x"
  using assms clock_less [of x t] by (auto simp: cron_match_def not_less le_less)

lemma advance_minute:
  assumes wf: "wf_cron c" and mi: "\<not> allows (cn_min c) (sec_minute t)"
    and ok: "allows (cn_mon c) (day_month (sec_day t))" "day_ok c t" "allows (cn_hour c) (sec_hour t)"
  shows "\<exists>t'. cron_advance c t = Moves t' \<and> progress c t t'"
proof (cases "0 \<le> next_set (cn_min c) (sec_minute t)")
  case True
  let ?m = "next_set (cn_min c) (sec_minute t)"
  let ?t' = "sec_day t * 86400 + sec_hour t * 3600 + ?m * 60 + first_set (cn_sec c)"
  have adv: "cron_advance c t = Moves ?t'"
    using mi ok True by (simp add: cron_advance_def Let_def go_date_same_day)
  have n: "allows (cn_min c) ?m" "sec_minute t < ?m"
    "\<And>u. sec_minute t < u \<Longrightarrow> allows (cn_min c) u \<Longrightarrow> ?m \<le> u"
    using next_set(1) [OF clock_bounds(3) True] by blast+
  have "?m \<le> 59" using wf_cronD(6) [OF wf n(1)] .
  then have "clock_ok (sec_hour t) ?m (first_set (cn_sec c))"
    using True wf_cronD(4) [OF wf] by (simp add: clock_ok_def)
  note cl = clock_of_ok [OF this, of "sec_day t"]
  have "progress c t ?t'"
  proof (rule progress_clock)
    show "t < ?t'" using n(2) by (simp add: clock_less [of t] cl)
    show "sec_day t \<le> sec_day ?t'" by (simp add: cl)
    show "stage c ?t' < stage c t" using mi n(1) ok(3) wf_cronD(3) [OF wf] by (simp add: stage_def cl)
    fix x assume m: "cron_match c x" and x: "t \<le> x" "x < ?t'"
    have e: "sec_day x = sec_day t \<and> sec_hour x = sec_hour t"
      using x clock_less [of x t] clock_less [of x ?t'] by (auto simp: cl)
    with m x(1) mi have "sec_minute t < sec_minute x" by (intro match_same_hour_minute) simp_all
    then have "?m \<le> sec_minute x" using m n(3) by (simp add: cron_match_def)
    with x(2) e match_after_first [OF m] show False by (auto simp: clock_less [of x] cl)
  qed
  with adv show ?thesis by blast
next
  case False
  define d h where "d = (if sec_hour t = 23 then sec_day t + 1 else sec_day t)"
    and "h = (if sec_hour t = 23 then 0 else sec_hour t + 1)"
  let ?t' = "d * 86400 + h * 3600 + first_set (cn_min c) * 60 + first_set (cn_sec c)"
  have adv: "cron_advance c t = Moves ?t'"
    using mi ok False by (simp add: cron_advance_def Let_def go_date_same_day d_def h_def)
  have "sec_hour t = 23 \<or> sec_hour t \<le> 22" using clock_bounds(2) [of t] by linarith
  then have "clock_ok h (first_set (cn_min c)) (first_set (cn_sec c))"
    using wf_cronD(4) [OF wf] by (auto simp: clock_ok_def h_def)
  note cl = clock_of_ok [OF this, of d]
  have dh: "sec_day t < d \<or> sec_day t = d \<and> sec_hour t < h"
    by (simp add: d_def h_def)
  have between: "D = sec_day t \<and> H = sec_hour t"
    if "sec_day t < D \<or> sec_day t = D \<and> sec_hour t \<le> H" "D < d \<or> D = d \<and> H < h" "0 \<le> H" "H \<le> 23" for D H
    using that by (auto simp: d_def h_def split: if_splits)
  have "progress c t ?t'"
  proof (rule progress_clock)
    show "t < ?t'" using dh by (auto simp: clock_less [of t] cl)
    show "sec_day t \<le> sec_day ?t'" using dh by (auto simp: cl)
    show "stage c ?t' < stage c t" using mi wf_cronD(2,3) [OF wf] by (simp add: stage_def cl)
    fix x assume m: "cron_match c x" and x: "t \<le> x" "x < ?t'"
    have e: "sec_day x = sec_day t \<and> sec_hour x = sec_hour t"
      using x clock_less [of x t] clock_less [of x ?t'] match_after_first [OF m]
      by (intro between) (auto simp: cl)
    with m x(1) mi have "sec_minute t < sec_minute x" by (intro match_same_hour_minute) simp_all
    with next_set(2) [OF clock_bounds(3) False this] m show False by (simp add: cron_match_def)
  qed
  with adv show ?thesis by blast
qed

lemma advance_second:
  assumes wf: "wf_cron c" and s: "\<not> allows (cn_sec c) (sec_second t)"
    and ok: "allows (cn_mon c) (day_month (sec_day t))" "day_ok c t" "allows (cn_hour c) (sec_hour t)"
      "allows (cn_min c) (sec_minute t)"
  shows "\<exists>t'. cron_advance c t = Moves t' \<and> progress c t t'"
proof (cases "0 \<le> next_set (cn_sec c) (sec_second t)")
  case True
  let ?s = "next_set (cn_sec c) (sec_second t)"
  let ?t' = "sec_day t * 86400 + sec_hour t * 3600 + sec_minute t * 60 + ?s"
  have adv: "cron_advance c t = Moves ?t'"
    using s ok True by (simp add: cron_advance_def Let_def go_date_same_day)
  have n: "allows (cn_sec c) ?s" "sec_second t < ?s"
    "\<And>u. sec_second t < u \<Longrightarrow> allows (cn_sec c) u \<Longrightarrow> ?s \<le> u"
    using next_set(1) [OF clock_bounds(5) True] by blast+
  have "?s \<le> 59" using wf_cronD(7) [OF wf n(1)] .
  then have "clock_ok (sec_hour t) (sec_minute t) ?s" using True by (simp add: clock_ok_def)
  note cl = clock_of_ok [OF this, of "sec_day t"]
  have "progress c t ?t'"
  proof (rule progress_clock)
    show "t < ?t'" using n(2) by (simp add: clock_less [of t] cl)
    show "sec_day t \<le> sec_day ?t'" by (simp add: cl)
    show "stage c ?t' < stage c t" using s n(1) ok(3,4) by (simp add: stage_def cl)
    fix x assume m: "cron_match c x" and x: "t \<le> x" "x < ?t'"
    have e: "sec_day x = sec_day t \<and> sec_hour x = sec_hour t \<and> sec_minute x = sec_minute t"
      using x clock_less [of x t] clock_less [of x ?t'] by (auto simp: cl)
    with m s x(1) have "sec_second t < sec_second x"
      using clock_less [of x t] by (auto simp: cron_match_def not_less le_less)
    then have "?s \<le> sec_second x" using m n(3) by (simp add: cron_match_def)
    with x(2) e show False by (auto simp: clock_less [of x] cl)
  qed
  with adv show ?thesis by blast
next
  case False
  define u h mi where "u = (if sec_minute t = 59 \<and> sec_hour t = 23 then sec_day t + 1 else sec_day t)"
    and "h = (if sec_minute t = 59 then if sec_hour t = 23 then 0 else sec_hour t + 1 else sec_hour t)"
    and "mi = (if sec_minute t = 59 then 0 else sec_minute t + 1)"
  let ?t' = "u * 86400 + h * 3600 + mi * 60 + first_set (cn_sec c)"
  have adv: "cron_advance c t = Moves ?t'"
    using s ok False by (simp add: cron_advance_def Let_def go_date_same_day u_def h_def mi_def)
  have "sec_hour t = 23 \<or> sec_hour t \<le> 22" "sec_minute t = 59 \<or> sec_minute t \<le> 58"
    using clock_bounds(2,4) [of t] by linarith+
  then have "clock_ok h mi (first_set (cn_sec c))"
    using wf_cronD(4) [OF wf] by (auto simp: clock_ok_def h_def mi_def)
  note cl = clock_of_ok [OF this, of u]
  have dh: "sec_day t < u \<or> sec_day t = u \<and> (sec_hour t < h \<or> sec_hour t = h \<and> sec_minute t < mi)"
    by (simp add: u_def h_def mi_def)
  have between: "D = sec_day t \<and> H = sec_hour t \<and> M = sec_minute t"
    if "sec_day t < D \<or> sec_day t = D \<and> (sec_hour t < H \<or> sec_hour t = H \<and> sec_minute t \<le> M)"
      "D < u \<or> D = u \<and> (H < h \<or> H = h \<and> M < mi)" "0 \<le> H" "H \<le> 23" "0 \<le> M" "M \<le> 59" for D H M
    using that clock_bounds(1-4) [of t] by (auto simp: u_def h_def mi_def split: if_splits)
  have "progress c t ?t'"
  proof (rule progress_clock)
    show "t < ?t'" using dh by (auto simp: clock_less [of t] cl)
    show "sec_day t \<le> sec_day ?t'" using dh by (auto simp: cl)
    show "stage c ?t' < stage c t" using s wf_cronD(3) [OF wf] by (simp add: stage_def cl)
    fix x assume m: "cron_match c x" and x: "t \<le> x" "x < ?t'"
    have e: "sec_day x = sec_day t \<and> sec_hour x = sec_hour t \<and> sec_minute x = sec_minute t"
      using x clock_less [of x t] clock_less [of x ?t'] match_after_first [OF m]
      by (intro between) (auto simp: cl)
    with m s x(1) have "sec_second t < sec_second x"
      using clock_less [of x t] by (auto simp: cron_match_def not_less le_less)
    with next_set(2) [OF clock_bounds(5) False this] m show False by (simp add: cron_match_def)
  qed
  with adv show ?thesis by blast
qed

lemma cron_advance:
  assumes wf: "wf_cron c"
  shows "cron_advance c t = Matches \<and> cron_match c t
    \<or> (\<exists>t'. cron_advance c t = Moves t' \<and> progress c t t' \<and> \<not> cron_match c t)"
proof (cases "cron_match c t")
  case True
  then show ?thesis by (simp add: cron_advance_def cron_match_def Let_def)
next
  case False
  consider "\<not> allows (cn_mon c) (day_month (sec_day t))"
    | "allows (cn_mon c) (day_month (sec_day t))" "\<not> day_ok c t"
    | "allows (cn_mon c) (day_month (sec_day t))" "day_ok c t" "\<not> allows (cn_hour c) (sec_hour t)"
    | "allows (cn_mon c) (day_month (sec_day t))" "day_ok c t" "allows (cn_hour c) (sec_hour t)"
      "\<not> allows (cn_min c) (sec_minute t)"
    | "allows (cn_mon c) (day_month (sec_day t))" "day_ok c t" "allows (cn_hour c) (sec_hour t)"
      "allows (cn_min c) (sec_minute t)" "\<not> allows (cn_sec c) (sec_second t)"
    | "cron_match c t"
    unfolding cron_match_def by argo
  then have "\<exists>t'. cron_advance c t = Moves t' \<and> progress c t t'"
  proof cases
    case 1
    then show ?thesis by (rule advance_month [OF wf])
  next
    case 2
    have "progress c t (add_date (go_date (day_year (sec_day t)) (day_month (sec_day t)) (month_day (sec_day t))
           (first_set (cn_hour c)) (first_set (cn_min c)) (first_set (cn_sec c))) 0 0 1)"
    proof (rule progress_next_day [OF wf])
      show "\<not> cron_match c x" if "sec_day x = sec_day t" for x
        using 2(2) day_ok_day [OF that, of c] by (simp add: cron_match_def)
    qed
    moreover have "cron_advance c t = Moves (add_date (go_date (day_year (sec_day t)) (day_month (sec_day t))
        (month_day (sec_day t)) (first_set (cn_hour c)) (first_set (cn_min c)) (first_set (cn_sec c))) 0 0 1)"
      using 2 by (simp add: cron_advance_def Let_def)
    ultimately show ?thesis by blast
  next
    case 3
    then show ?thesis by (intro advance_hour [OF wf])
  next
    case 4
    then show ?thesis by (intro advance_minute [OF wf])
  next
    case 5
    then show ?thesis by (intro advance_second [OF wf])
  qed (use False in simp)
  with False show ?thesis by blast
qed

end
