(* ===== verification/Schedule.thy ===== *)
theory Schedule
  imports Cron
begin

text \<open>
  The properties of the cron schedules (theory \<open>Cron\<close>): parsing always ends and yields masks on which
  \<open>Next\<close> is right, \<open>Next\<close> returns the least fire time of its five-year horizon or none when there is
  none, and \<open>Between\<close> lists exactly the fire times of a window or stops at its cap.
\<close>

section \<open>Next\<close>

definition next_spec :: "cron \<Rightarrow> int \<Rightarrow> int \<Rightarrow> next_fire \<Rightarrow> bool" where
  "next_spec c t limit r =
     (case r of
        Fires n \<Rightarrow> (\<exists>x. n = x * 10 ^ 9 \<and> t \<le> x \<and> x < limit \<and> cron_match c x \<and> (\<forall>y. t \<le> y \<and> y < x \<longrightarrow> \<not> cron_match c y))
      | NoFire \<Rightarrow> (\<forall>y. t \<le> y \<and> y < limit \<longrightarrow> \<not> cron_match c y)
      | Endless \<Rightarrow> False)"

lemma next_spec_skip:
  assumes "next_spec c t' limit r" "t < t'" "\<And>x. t \<le> x \<Longrightarrow> x < t' \<Longrightarrow> \<not> cron_match c x"
  shows "next_spec c t limit r"
proof (cases r)
  case (Fires n)
  with assms(1) obtain x where x: "n = x * 10 ^ 9" "t' \<le> x" "x < limit" "cron_match c x"
    "\<And>y. t' \<le> y \<Longrightarrow> y < x \<Longrightarrow> \<not> cron_match c y"
    unfolding next_spec_def by auto
  have "\<not> cron_match c y" if "t \<le> y" "y < x" for y
    using that assms(3) x(5) by (cases "y < t'") auto
  with x assms(2) Fires show ?thesis unfolding next_spec_def by auto
next
  case NoFire
  then have "\<not> cron_match c y" if "t \<le> y" "y < limit" for y
    using that assms(1,3) unfolding next_spec_def by (cases "y < t'") auto
  with NoFire show ?thesis unfolding next_spec_def by auto
qed (use assms in \<open>simp add: next_spec_def\<close>)

lemma next_loop:
  assumes "wf_cron c" "limit \<le> t \<or> int i + int (stage c t) + (sec_day limit - sec_day t) \<le> 2000000"
  shows "next_spec c t limit (next_loop c limit i t)"
  using assms
proof (induction c limit i t rule: next_loop.induct)
  case (1 c limit i t)
  show ?case
  proof (cases "t < limit")
    case False
    then show ?thesis by (auto simp: next_loop.simps [of c limit i t] next_spec_def)
  next
    case True
    have d: "sec_day t \<le> sec_day limit" using True clock_less [of t limit] by linarith
    with True "1.prems"(2) have i: "\<not> (2000000 < i \<or> \<not> t < limit)" by linarith
    consider "cron_advance c t = Matches" "cron_match c t"
      | t' where "cron_advance c t = Moves t'" "progress c t t'"
      using cron_advance [OF "1.prems"(1), of t] by blast
    then show ?thesis
    proof cases
      case 1
      with i show ?thesis by (auto simp: next_loop.simps [of c limit i t] next_spec_def)
    next
      case (2 t')
      from 2(2) True "1.prems"(2)
      have "int (i + 1) + int (stage c t') + (sec_day limit - sec_day t') \<le> 2000000"
        unfolding progress_def by linarith
      then have "next_spec c t' limit (next_loop c limit (i + 1) t')"
        using "1.IH" [OF i 2(1) "1.prems"(1)] by blast
      moreover have "next_loop c limit i t = next_loop c limit (i + 1) t'"
        using i 2(1) by (simp add: next_loop.simps [of c limit i t])
      ultimately show ?thesis using 2(2) next_spec_skip [of c t'] by (simp add: progress_def)
    qed
  qed
qed

text \<open>The horizon of five years is between 1824 and 1832 days away.\<close>

lemma horizon_days:
  "sec_day t + 1824 \<le> sec_day (add_date t 5 0 0)" "sec_day (add_date t 5 0 0) \<le> sec_day t + 1832"
proof -
  let ?d = "sec_day t" let ?y = "day_year (sec_day t)" let ?m = "day_month (sec_day t)"
  note m = day_month_bounds(1,2) [of ?d]
  have "clock_ok (sec_hour t) (sec_minute t) (sec_second t)" by (simp add: clock_ok_def)
  note cl = clock_of_ok [OF this]
  have e: "sec_day (add_date t 5 0 0) = date_days (?y + 5) ?m (month_day ?d)"
    by (simp add: add_date_def go_date_def cl)
  have y: "days_before_year ?y + 1825 \<le> days_before_year (?y + 5)"
    "days_before_year (?y + 5) \<le> days_before_year ?y + 1830"
    using days_before_year_step [of ?y] days_before_year_step [of "?y + 1"] days_before_year_step [of "?y + 2"]
      days_before_year_step [of "?y + 3"] days_before_year_step [of "?y + 4"]
    by (simp_all add: algebra_simps split: if_splits)
  have b: "days_before_month (leap_year ?y) ?m \<le> days_before_month (leap_year (?y + 5)) ?m + 1"
    "days_before_month (leap_year (?y + 5)) ?m \<le> days_before_month (leap_year ?y) ?m + 1"
    by (simp_all add: days_before_month_def)
  have "?d = days_before_year ?y + days_before_month (leap_year ?y) ?m + (month_day ?d - 1)"
    using date_days_civil [of ?d] date_days_small [OF m, of ?y "month_day ?d"] by simp
  moreover have "sec_day (add_date t 5 0 0)
      = days_before_year (?y + 5) + days_before_month (leap_year (?y + 5)) ?m + (month_day ?d - 1)"
    using e date_days_small [OF m, of "?y + 5" "month_day ?d"] by simp
  ultimately show "?d + 1824 \<le> sec_day (add_date t 5 0 0)" "sec_day (add_date t 5 0 0) \<le> ?d + 1832"
    using y b by linarith+
qed

lemma stage_le: "stage c t \<le> 3"
  by (simp add: stage_def)

lemma cron_next_spec:
  assumes "wf_cron c"
  shows "next_spec c (start div 10 ^ 9 + 1) (add_date (start div 10 ^ 9 + 1) 5 0 0) (cron_next c start)"
  unfolding cron_next_def Let_def
proof (rule next_loop [OF assms])
  let ?t = "start div 10 ^ 9 + 1"
  show "add_date ?t 5 0 0 \<le> ?t \<or> int 0 + int (stage c ?t) + (sec_day (add_date ?t 5 0 0) - sec_day ?t) \<le> 2000000"
    using horizon_days(2) [of ?t] stage_le [of c ?t] by linarith
qed

section \<open>Parsing\<close>

lemma mark_values_bits:
  assumes "mark_values n fi v hi step m = Some m'"
  shows "allows m u \<Longrightarrow> allows m' u" "allows m' u \<Longrightarrow> allows m u \<or> u \<le> hi"
  using assms
proof (induction n fi v hi step m rule: mark_values.induct)
  case (2 n fi v hi step m)
  {
    case 1
    with 2 show ?case by (auto split: if_splits)
  next
    case 2
    with "2.IH"(2) show ?case by (fastforce split: if_splits)
  }
qed simp_all

lemma mark_values_first:
  assumes "mark_values n fi v hi step m = Some m'" "hi \<le> field_hi fi" "0 \<le> v" "v < 64" "v \<le> hi" "fi \<noteq> 5"
  shows "allows m' v"
proof -
  obtain n' where "mark_values n' fi (wrap_int64 (v + step)) hi step (m OR mask_of v) = Some m'"
    using assms by (cases n) auto
  from mark_values_bits(1) [OF this, of v] assms(3,4) show ?thesis by simp
qed

text \<open>The loop over the values ends, whatever the step: at most 128 values are visited.\<close>

lemma wrap_int64_id: "- (2 ^ 63) \<le> x \<Longrightarrow> x < 2 ^ 63 \<Longrightarrow> wrap_int64 x = x"
  by (simp add: wrap_int64_def)

lemma wrap_int64_over:
  assumes "2 ^ 63 \<le> x" "x < 2 ^ 64"
  shows "wrap_int64 x = x - 2 ^ 64"
proof -
  have "(x + 2 ^ 63) mod 2 ^ 64 = (x - 2 ^ 63 + 2 ^ 64) mod 2 ^ 64" by (simp add: add.commute)
  also have "\<dots> = x - 2 ^ 63" unfolding mod_add_self2 using assms by (intro mod_pos_pos_trivial) simp_all
  finally show ?thesis by (simp add: wrap_int64_def)
qed

lemma mark_values_small_step:
  assumes "1 \<le> step" "step \<le> 2 ^ 63 - 64" "hi \<le> 59" "hi + 1 < v + int n" "0 < n" "0 \<le> v"
  shows "mark_values n fi v hi step m \<noteq> None"
  using assms(4-)
proof (induction n arbitrary: v m)
  case (Suc n)
  show ?case
  proof (cases "hi < v")
    case False
    with assms(1-3) Suc.prems have w: "wrap_int64 (v + step) = v + step" by (intro wrap_int64_id) simp_all
    have "mark_values n fi (v + step) hi step m' \<noteq> None" for m'
      by (intro Suc.IH) (use Suc.prems False assms(1-3) in linarith)+
    with w show ?thesis by simp
  qed simp
qed simp

lemma mark_values_large_step:
  assumes "step = 2 ^ 63 - k" "1 \<le> k" "k < 64" "hi \<le> 59" "v \<le> 59" "- 64 \<le> v" "v + 3 \<le> int n" "2 \<le> n"
  shows "mark_values n fi v hi step m \<noteq> None"
  using assms(5-)
proof (induction n arbitrary: v m rule: less_induct)
  case (less n)
  then obtain n' where n: "n = Suc (Suc n')" 
    by (metis add_2_eq_Suc le_Suc_ex)
  show ?case
  proof (cases "hi < v \<or> field_hi fi < v")
    case False
    show ?thesis
    proof (cases "v < k")
      case True
      have "wrap_int64 (v + step) = v + step" 
        using less.prems assms True by (intro wrap_int64_id) simp_all
      moreover have "hi < v + step" using assms less.prems by simp
      ultimately show ?thesis using n by (cases n') simp_all
    next
      case large: False
      have "wrap_int64 (v + step) = v - k - 2 ^ 63"
        using wrap_int64_over [of "v + step"] less.prems assms large by simp
      moreover have "wrap_int64 (v - k - 2 ^ 63 + step) = v - 2 * k"
        using wrap_int64_id [of "v - 2 * k"] less.prems assms large by simp
      moreover have "mark_values n' fi (v - 2 * k) hi step m' \<noteq> None" for m'
        by (rule less.IH) (use n less.prems assms large in linarith)+
      ultimately show ?thesis using n False by simp
    qed
  qed (simp add: n)
qed

lemma mark_values_ends:
  assumes "1 \<le> step" "step \<le> max_int64" "0 \<le> v" "v \<le> 59" "hi \<le> 59"
  shows "mark_values 128 fi v hi step m \<noteq> None"
proof (cases "step \<le> 2 ^ 63 - 64")
  case True
  with assms show ?thesis by (intro mark_values_small_step) simp_all
next
  case False
  with assms show ?thesis
    by (intro mark_values_large_step [where k = "2 ^ 63 - step"]) (simp_all add: max_int64_def)
qed

lemma field_bounds: "fi < 6 \<Longrightarrow> 0 \<le> field_lo fi \<and> field_lo fi \<le> field_hi fi \<and> field_hi fi \<le> 59"
  by (auto simp: field_lo_def field_hi_def less_Suc_eq numeral_eq_Suc)

lemma atoi_bound: "atoi s = Some v \<Longrightarrow> v \<le> max_int64"
  by (auto simp: atoi_def Let_def split: if_splits)

lemma parse_value_bounds: "parse_value fi s = Inr v \<Longrightarrow> field_lo fi \<le> v \<and> v \<le> field_hi fi"
  by (auto simp: parse_value_def split: if_splits option.splits)

lemma term_step_bounds: "term_step fi s = Inr v \<Longrightarrow> 1 \<le> v \<and> v \<le> max_int64"
  using atoi_bound by (auto simp: term_step_def max_int64_def split: option.splits if_splits)

lemma term_range_bounds:
  "fi < 6 \<Longrightarrow> term_range fi body st = Inr (lo, hi, r) \<Longrightarrow> field_lo fi \<le> lo \<and> lo \<le> hi \<and> hi \<le> field_hi fi"
  using field_bounds [of fi]
  by (auto simp: term_range_def rbind_eq_Inr dest!: parse_value_bounds split: if_splits option.splits)

lemma parse_term:
  assumes "parse_term fi t m = Inr (m', r)" "fi < 6"
  shows "allows m u \<Longrightarrow> allows m' u" "allows m' u \<Longrightarrow> allows m u \<or> u \<le> field_hi fi"
    "fi \<noteq> 5 \<Longrightarrow> \<exists>v. field_lo fi \<le> v \<and> v \<le> field_hi fi \<and> allows m' v"
proof -
  obtain body ss step lo hi where r: "term_step fi ss = Inr step" "term_range fi body (ss \<noteq> None) = Inr (lo, hi, r)"
    and mv: "mark_values 128 fi lo hi step m = Some m'"
    using assms(1) by (auto simp: parse_term_def rbind_eq_Inr split: if_splits option.splits prod.splits)
  note b = term_range_bounds [OF assms(2) r(2)]
  show "allows m u \<Longrightarrow> allows m' u" using mark_values_bits(1) [OF mv] .
  show "allows m' u \<Longrightarrow> allows m u \<or> u \<le> field_hi fi" using mark_values_bits(2) [OF mv, of u] b by auto
  show "\<exists>v. field_lo fi \<le> v \<and> v \<le> field_hi fi \<and> allows m' v" if "fi \<noteq> 5"
    using mark_values_first [OF mv _ _ _ _ that] b field_bounds [OF assms(2)] by (intro exI [of _ lo]) auto
qed

lemma parse_term_ends: "fi < 6 \<Longrightarrow> parse_term fi t m \<noteq> Inl NoEnd"
proof
  assume fi: "fi < 6" and e: "parse_term fi t m = Inl NoEnd"
  have "term_step fi ss \<noteq> Inl NoEnd" for ss by (auto simp: term_step_def split: option.splits)
  moreover have "term_range fi body st \<noteq> Inl NoEnd" for body st
    by (auto simp: term_range_def rbind_eq_Inl parse_value_def split: option.splits if_splits)
  ultimately obtain ss step body lo hi r where r: "term_step fi ss = Inr step" "term_range fi body (ss \<noteq> None) = Inr (lo, hi, r)"
    and mv: "mark_values 128 fi lo hi step m = None"
    using e by (auto simp: parse_term_def rbind_eq_Inl split: if_splits option.splits prod.splits)
  from mv show False
    using mark_values_ends [of step lo hi fi m] term_step_bounds [OF r(1)] term_range_bounds [OF fi r(2)] field_bounds [OF fi]
    by simp
qed

lemma parse_terms:
  assumes "parse_terms fi ts m r = Inr (m', r')" "fi < 6"
  shows "(allows m u \<longrightarrow> allows m' u) \<and> (allows m' u \<longrightarrow> allows m u \<or> u \<le> field_hi fi)"
  using assms
proof (induction ts arbitrary: m r)
  case (Cons t ts)
  then obtain m1 r1 where p: "parse_term fi t m = Inr (m1, r1)" "parse_terms fi ts m1 (r \<or> r1) = Inr (m', r')"
    by (auto simp: rbind_eq_Inr)
  from Cons.IH [OF p(2) Cons.prems(2)] parse_term(1,2) [OF p(1) Cons.prems(2), of u] show ?case by blast
qed simp

lemma parse_terms_ends: "fi < 6 \<Longrightarrow> parse_terms fi ts m r \<noteq> Inl NoEnd"
  by (induction fi ts m r rule: parse_terms.induct) (auto simp: rbind_eq_Inl parse_term_ends)

lemma split_char_not_Nil: "split_char c s \<noteq> []"
  by (induction s) (auto split: list.split)

lemma parse_field:
  assumes "parse_field fi s = Inr (m, r)" "fi < 6"
  shows "\<forall>u. allows m u \<longrightarrow> u \<le> field_hi fi"
    "fi \<noteq> 5 \<Longrightarrow> \<exists>v. field_lo fi \<le> v \<and> v \<le> field_hi fi \<and> allows m v"
proof -
  obtain t ts where ts: "split_char (CHR '','') s = t # ts"
    using split_char_not_Nil by (cases "split_char (CHR '','') s") auto
  then obtain m1 r1 where p: "parse_term fi t 0 = Inr (m1, r1)" "parse_terms fi ts m1 r1 = Inr (m, r)"
    using assms(1) by (auto simp: parse_field_def rbind_eq_Inr)
  show "\<forall>u. allows m u \<longrightarrow> u \<le> field_hi fi"
    using parse_terms [OF p(2) assms(2)] parse_term(2) [OF p(1) assms(2)] by auto
  show "\<exists>v. field_lo fi \<le> v \<and> v \<le> field_hi fi \<and> allows m v" if "fi \<noteq> 5"
    using parse_term(3) [OF p(1) assms(2) that] parse_terms [OF p(2) assms(2)] by blast
qed

lemma allows_fold_masks: "allows (fold (\<lambda>i m. m OR mask_of i) is m) v \<longleftrightarrow> allows m v \<or> v \<in> set is \<and> 0 \<le> v \<and> v < 64"
  by (induction "is" arbitrary: m) auto

lemma allows_all_mask [simp]: "allows (all_mask lo hi) v \<longleftrightarrow> lo \<le> v \<and> v \<le> hi \<and> 0 \<le> v \<and> v < 64"
  by (auto simp: all_mask_def allows_fold_masks)

lemma alias_wf:
  assumes "map_of cron_aliases s = Some a"
  shows "wf_cron (alias_cron a)"
proof -
  have "a \<in> set (map snd cron_aliases)" using map_of_SomeD [OF assms] by force
  moreover have "\<exists>v\<ge>1. v \<le> (12 :: int)" by (rule exI [of _ 1]) simp
  ultimately show ?thesis
    by (auto simp: cron_aliases_def wf_cron_def alias_cron_def intro: exI [of _ 0] exI [of _ 1])
qed

lemma parse_schedule_wf:
  assumes "parse_schedule s = Inr c"
  shows "wf_cron c"
proof -
  consider a where "map_of cron_aliases (to_lower (trim_right_space (trim_left_space s))) = Some a" "c = alias_cron a"
    | f0 f1 f2 f3 f4 f5 sc mi hr dm dom_set mn dw dow_set r0 r1 r2 r4
    where "parse_field 0 f0 = Inr (sc, r0)" "parse_field 1 f1 = Inr (mi, r1)" "parse_field 2 f2 = Inr (hr, r2)"
      "parse_field 3 f3 = Inr (dm, dom_set)" "parse_field 4 f4 = Inr (mn, r4)" "parse_field 5 f5 = Inr (dw, dow_set)"
      "c = \<lparr>cn_sec = sc, cn_min = mi, cn_hour = hr, cn_dom = dm, cn_mon = mn, cn_dow = dw,
            cn_dom_set = dom_set, cn_dow_set = dow_set\<rparr>"
    using assms
    by (auto simp: parse_schedule_def Let_def rbind_eq_Inr split: if_splits option.splits list.splits prod.splits)
  then show ?thesis
  proof cases
    case 1
    then show ?thesis by (simp add: alias_wf)
  next
    case 2
    have "field_hi 0 = 59" "field_hi 1 = 59" "field_hi 2 = 23" "field_lo 4 = 1" "field_hi 4 = 12"
      by (simp_all add: field_hi_def field_lo_def)
    with 2(7) parse_field [OF 2(1)] parse_field [OF 2(2)] parse_field [OF 2(3)] parse_field(2) [OF 2(5)]
    show ?thesis by (auto simp: wf_cron_def)
  qed
qed

section \<open>What a field denotes\<close>

text \<open>
  The terms of a field, their text, and the values they stand for; a step that keeps the 64-bit
  addition in range is assumed of a valid term.
\<close>

datatype cron_term =
  EveryValue | EveryStep nat | Single nat | FromStep nat nat | Span nat nat | SpanStep nat nat nat

fun term_text :: "cron_term \<Rightarrow> string" where
  "term_text EveryValue = ''*''"
| "term_text (EveryStep n) = ''*/'' @ decimal n"
| "term_text (Single a) = decimal a"
| "term_text (FromStep a n) = decimal a @ ''/'' @ decimal n"
| "term_text (Span a b) = decimal a @ ''-'' @ decimal b"
| "term_text (SpanStep a b n) = decimal a @ ''-'' @ decimal b @ ''/'' @ decimal n"

fun field_text :: "cron_term list \<Rightarrow> string" where
  "field_text [] = []"
| "field_text [t] = term_text t"
| "field_text (t # ts) = term_text t @ '','' @ field_text ts"

definition stepped :: "int \<Rightarrow> int \<Rightarrow> int \<Rightarrow> int \<Rightarrow> bool" where
  "stepped lo hi n v \<longleftrightarrow> lo \<le> v \<and> v \<le> hi \<and> n dvd v - lo"

fun term_has :: "nat \<Rightarrow> cron_term \<Rightarrow> int \<Rightarrow> bool" where
  "term_has fi EveryValue v = stepped (field_lo fi) (field_hi fi) 1 v"
| "term_has fi (EveryStep n) v = stepped (field_lo fi) (field_hi fi) (int n) v"
| "term_has fi (Single a) v = (v = int a)"
| "term_has fi (FromStep a n) v = stepped (int a) (field_hi fi) (int n) v"
| "term_has fi (Span a b) v = stepped (int a) (int b) 1 v"
| "term_has fi (SpanStep a b n) v = stepped (int a) (int b) (int n) v"

definition value_ok :: "nat \<Rightarrow> nat \<Rightarrow> bool" where
  "value_ok fi a \<longleftrightarrow> field_lo fi \<le> int a \<and> int a \<le> field_hi fi"

definition step_ok :: "nat \<Rightarrow> bool" where
  "step_ok n \<longleftrightarrow> 1 \<le> n \<and> int n \<le> max_int64 - 64"

fun term_ok :: "nat \<Rightarrow> cron_term \<Rightarrow> bool" where
  "term_ok fi EveryValue = True"
| "term_ok fi (EveryStep n) = step_ok n"
| "term_ok fi (Single a) = value_ok fi a"
| "term_ok fi (FromStep a n) = (value_ok fi a \<and> step_ok n)"
| "term_ok fi (Span a b) = (value_ok fi a \<and> value_ok fi b \<and> a \<le> b)"
| "term_ok fi (SpanStep a b n) = (value_ok fi a \<and> value_ok fi b \<and> a \<le> b \<and> step_ok n)"

definition fold_day :: "nat \<Rightarrow> int \<Rightarrow> int" where
  "fold_day fi v = (if fi = 5 \<and> v = 7 then 0 else v)"

lemma stepped_start: "lo \<le> hi \<Longrightarrow> stepped lo hi n v \<longleftrightarrow> v = lo \<or> stepped (lo + n) hi n v" if "1 \<le> n"
proof -
  have "n \<le> v - lo" if "n dvd v - lo" "lo < v" using that by (intro zdvd_imp_le) simp_all
  moreover have "n dvd v - (lo + n) \<longleftrightarrow> n dvd v - lo"
    by (metis diff_diff_eq dvd_diff_commute dvd_minus_iff dvd_triv_left dvd_diff_right_iff dvd_refl)
  ultimately show "stepped lo hi n v \<longleftrightarrow> v = lo \<or> stepped (lo + n) hi n v" if "lo \<le> hi"
    using that \<open>1 \<le> n\<close> unfolding stepped_def by (cases "v = lo") auto
qed

lemma mark_values_stepped:
  assumes "1 \<le> step" "step \<le> max_int64 - 64" "hi \<le> field_hi fi" "hi \<le> 59"
  shows "0 \<le> v \<Longrightarrow> mark_values n fi v hi step m = Some m' \<Longrightarrow>
    allows m' u \<longleftrightarrow> allows m u \<or> (\<exists>w. stepped v hi step w \<and> u = fold_day fi w)"
proof (induction n arbitrary: v m)
  case (Suc n)
  show ?case
  proof (cases "hi < v")
    case True
    then have "\<not> stepped v hi step w" for w by (simp add: stepped_def)
    with True Suc.prems show ?thesis by simp
  next
    case False
    have w: "wrap_int64 (v + step) = v + step"
      using assms False Suc.prems by (intro wrap_int64_id) (simp_all add: max_int64_def)
    have mv: "mark_values n fi (v + step) hi step (m OR mask_of (fold_day fi v)) = Some m'"
      using Suc.prems False assms(3) w by (simp add: fold_day_def)
    have "allows (mask_of (fold_day fi v)) u \<longleftrightarrow> u = fold_day fi v"
      using Suc.prems False assms(4) by (auto simp: fold_day_def)
    with Suc.IH [OF _ mv] stepped_start [OF assms(1), of v hi] False Suc.prems assms(1) show ?thesis by auto
  qed
qed simp

lemma of_char_digit_int: "n < 10 \<Longrightarrow> (of_char (digit n) :: int) = 48 + int n"
  using of_char_digit [of n] by (metis of_nat_add of_nat_numeral of_nat_of_char)

lemma decimal_value_decimal [simp]: "decimal_value (decimal n) = int n"
proof (induction n rule: decimal.induct)
  case (1 n)
  show ?case
  proof (cases "n < 10")
    case True
    then show ?thesis by (simp add: decimal.simps [of n] decimal_value_def of_char_digit_int)
  next
    case False
    with 1 have "decimal_value (decimal (n div 10)) = int (n div 10)" by simp
    moreover have "int (n div 10) * 10 + int (n mod 10) = int n"
      by (metis div_mult_mod_eq of_nat_add of_nat_mult of_nat_numeral)
    ultimately show ?thesis using False
      by (simp add: decimal.simps [of n] decimal_value_def of_char_digit_int)
  qed
qed

lemma is_digit_digit: "n < 10 \<Longrightarrow> is_digit (digit n)"
  by (simp add: is_digit_def less_eq_char_def of_char_digit)

lemma digits_decimal [simp]: "list_all is_digit (decimal n)"
proof (induction n rule: decimal.induct)
  case (1 n)
  then show ?case by (cases "n < 10") (simp_all add: decimal.simps [of n] is_digit_digit)
qed

lemma not_digit_notin: "\<not> is_digit c \<Longrightarrow> c \<notin> set (decimal n)"
  using digits_decimal [of n] by (auto simp: list_all_iff)

lemma not_digits [simp]: "\<not> is_digit (CHR '','')" "\<not> is_digit (CHR ''/'')" "\<not> is_digit (CHR ''-'')"
  "\<not> is_digit (CHR ''*'')" "\<not> is_digit (CHR ''+'')"
  by (simp_all add: is_digit_def less_eq_char_def)

lemma decimal_prefix [simp]: "\<not> prefix ''-'' (decimal n)" "\<not> prefix ''+'' (decimal n)"
  using not_digit_notin [of "CHR ''-''" n] not_digit_notin [of "CHR ''+''" n]
  by (auto simp: prefix_def)

lemma atoi_decimal: "int n \<le> max_int64 \<Longrightarrow> atoi (decimal n) = Some (int n)"
  by (simp add: atoi_def max_int64_def)

lemma cut_char_decimal:
  "\<not> is_digit c \<Longrightarrow> cut_char c (decimal a @ c # s) = Some (decimal a, s)"
  "\<not> is_digit c \<Longrightarrow> cut_char c (decimal a) = None"
  using not_digit_notin [of c a] by (auto simp: cut_char_def takeWhile_tail dropWhile_append)

lemma parse_term_stepped:
  assumes fi: "fi < 6" and t: "term \<noteq> []"
    and cut: "(case cut_char (CHR ''/'') term of Some (b, s) \<Rightarrow> (b, Some s) | None \<Rightarrow> (term, None)) = (body, ss)"
    and st: "term_step fi ss = Inr step" "step \<le> max_int64 - 64"
    and rng: "term_range fi body (ss \<noteq> None) = Inr (lo, hi, r)"
  shows "\<exists>m'. parse_term fi term m = Inr (m', r)
    \<and> (\<forall>u. allows m' u \<longleftrightarrow> allows m u \<or> (\<exists>w. stepped lo hi step w \<and> u = fold_day fi w))"
proof -
  note b = term_range_bounds [OF fi rng] field_bounds [OF fi] term_step_bounds [OF st(1)]
  obtain m' where m': "mark_values 128 fi lo hi step m = Some m'"
    using mark_values_ends [of step lo hi fi m] b by auto
  have "parse_term fi term m = Inr (m', r)"
    using t cut st(1) rng m' by (simp add: parse_term_def)
  moreover have "allows m' u \<longleftrightarrow> allows m u \<or> (\<exists>w. stepped lo hi step w \<and> u = fold_day fi w)" for u
    using mark_values_stepped [OF _ st(2) _ _ _ m'] b by auto
  ultimately show ?thesis by blast
qed

lemma value_ok_max: "fi < 6 \<Longrightarrow> value_ok fi a \<Longrightarrow> int a \<le> max_int64"
  using field_bounds [of fi] by (simp add: value_ok_def max_int64_def)

lemma parse_value_decimal: "fi < 6 \<Longrightarrow> value_ok fi a \<Longrightarrow> parse_value fi (decimal a) = Inr (int a)"
  using value_ok_max [of fi a] by (simp add: parse_value_def atoi_decimal) (simp add: value_ok_def)

lemma term_step_decimal: "step_ok n \<Longrightarrow> term_step fi (Some (decimal n)) = Inr (int n)"
  by (simp add: term_step_def atoi_decimal step_ok_def)

lemma decimal_not_star: "decimal n \<noteq> ''*''" "decimal a @ CHR ''-'' # s \<noteq> ''*''"
  using not_digit_notin [of "CHR ''*''" n] by (auto simp: Cons_eq_append_conv append_eq_Cons_conv)

lemma term_range_text:
  assumes "fi < 6"
  shows "term_range fi ''*'' st = Inr (field_lo fi, field_hi fi, st)"
    "value_ok fi a \<Longrightarrow> term_range fi (decimal a) st = Inr (int a, if st then field_hi fi else int a, True)"
    "value_ok fi a \<Longrightarrow> value_ok fi b \<Longrightarrow> a \<le> b \<Longrightarrow>
       term_range fi (decimal a @ CHR ''-'' # decimal b) st = Inr (int a, int b, True)"
  using assms
  by (simp_all add: term_range_def decimal_not_star cut_char_decimal parse_value_decimal)

lemma parse_term_text:
  assumes fi: "fi < 6" and ok: "term_ok fi t"
  shows "\<exists>m'. parse_term fi (term_text t) m = Inr (m', t \<noteq> EveryValue)
    \<and> (\<forall>u. allows m' u \<longleftrightarrow> allows m u \<or> (\<exists>w. term_has fi t w \<and> u = fold_day fi w))"
proof (cases t)
  case EveryValue
  show ?thesis unfolding EveryValue
    using parse_term_stepped [OF fi, of "''*''" "''*''" None 1 "field_lo fi" "field_hi fi" False m]
    by (simp add: cut_char_def term_step_def term_range_text [OF fi] max_int64_def)
next
  case (EveryStep n)
  have "cut_char (CHR ''/'') (''*/'' @ decimal n) = Some (''*'', decimal n)"
    using not_digit_notin [of "CHR ''/''" n] by (simp add: cut_char_def)
  with ok parse_term_stepped [OF fi, of "''*/'' @ decimal n" "''*''" "Some (decimal n)" "int n" "field_lo fi" "field_hi fi" True m]
  show ?thesis unfolding EveryStep by (simp add: term_step_decimal term_range_text [OF fi] EveryStep step_ok_def)
next
  case (Single a)
  have e: "stepped (int a) (int a) 1 w \<longleftrightarrow> w = int a" for w by (auto simp: stepped_def)
  show ?thesis unfolding Single
    using ok parse_term_stepped [OF fi, of "decimal a" "decimal a" None 1 "int a" "int a" True m]
    by (simp add: Single cut_char_decimal term_step_def term_range_text [OF fi] max_int64_def e)
next
  case (FromStep a n)
  show ?thesis unfolding FromStep
    using ok parse_term_stepped [OF fi, of "decimal a @ CHR ''/'' # decimal n" "decimal a" "Some (decimal n)" "int n"
        "int a" "field_hi fi" True m]
    by (simp add: FromStep cut_char_decimal term_step_decimal term_range_text [OF fi] step_ok_def)
next
  case (Span a b)
  have "CHR ''/'' \<notin> set (decimal a @ CHR ''-'' # decimal b)"
    using not_digit_notin [of "CHR ''/''"] by simp
  then have "cut_char (CHR ''/'') (decimal a @ CHR ''-'' # decimal b) = None" by (simp add: cut_char_def)
  with ok parse_term_stepped [OF fi, of "decimal a @ CHR ''-'' # decimal b" "decimal a @ CHR ''-'' # decimal b" None 1
        "int a" "int b" True m]
  show ?thesis unfolding Span by (simp add: Span term_step_def term_range_text [OF fi] max_int64_def)
next
  case (SpanStep a b n)
  have "CHR ''/'' \<notin> set (decimal a @ CHR ''-'' # decimal b)"
    using not_digit_notin [of "CHR ''/''"] by simp
  from cut_char_at [OF this, of "decimal n"]
  have "cut_char (CHR ''/'') (decimal a @ CHR ''-'' # decimal b @ CHR ''/'' # decimal n)
      = Some (decimal a @ CHR ''-'' # decimal b, decimal n)" by simp
  with ok parse_term_stepped [OF fi, of "decimal a @ CHR ''-'' # decimal b @ CHR ''/'' # decimal n"
        "decimal a @ CHR ''-'' # decimal b" "Some (decimal n)" "int n" "int a" "int b" True m]
  show ?thesis unfolding SpanStep by (simp add: SpanStep term_step_decimal term_range_text [OF fi] step_ok_def)
qed

lemma split_char_none: "c \<notin> set a \<Longrightarrow> split_char c a = [a]"
  by (induction a) auto

lemma comma_notin_term: "CHR '','' \<notin> set (term_text t)"
  using not_digit_notin [of "CHR '',''"] by (cases t) simp_all

lemma split_field_text: "ts \<noteq> [] \<Longrightarrow> split_char (CHR '','') (field_text ts) = map term_text ts"
  by (induction ts rule: field_text.induct)
     (simp_all add: split_char_none split_char_line comma_notin_term)

lemma parse_terms_text:
  assumes fi: "fi < 6"
  shows "list_all (term_ok fi) ts \<Longrightarrow>
    \<exists>m'. parse_terms fi (map term_text ts) m r = Inr (m', r \<or> (\<exists>t\<in>set ts. t \<noteq> EveryValue))
    \<and> (\<forall>u. allows m' u \<longleftrightarrow> allows m u \<or> (\<exists>t\<in>set ts. \<exists>w. term_has fi t w \<and> u = fold_day fi w))"
proof (induction ts arbitrary: m r)
  case (Cons t ts)
  obtain m1 where m1: "parse_term fi (term_text t) m = Inr (m1, t \<noteq> EveryValue)"
    "\<forall>u. allows m1 u \<longleftrightarrow> allows m u \<or> (\<exists>w. term_has fi t w \<and> u = fold_day fi w)"
    using parse_term_text [OF fi, of t m] Cons.prems by auto
  obtain m2 where "parse_terms fi (map term_text ts) m1 (r \<or> t \<noteq> EveryValue)
      = Inr (m2, (r \<or> t \<noteq> EveryValue) \<or> (\<exists>t\<in>set ts. t \<noteq> EveryValue))"
    "\<forall>u. allows m2 u \<longleftrightarrow> allows m1 u \<or> (\<exists>t\<in>set ts. \<exists>w. term_has fi t w \<and> u = fold_day fi w)"
    using Cons.IH [of m1 "r \<or> t \<noteq> EveryValue"] Cons.prems by auto
  with m1 show ?case by (intro exI [of _ m2]) auto
qed simp

text \<open>
  Parsing the text of a field gives exactly the values its terms stand for, Sunday written 7
  folded to 0, and says that the field was restricted unless every term is a plain star.
\<close>

theorem parse_field_denotes:
  assumes "fi < 6" "ts \<noteq> []" "list_all (term_ok fi) ts"
  shows "\<exists>m. parse_field fi (field_text ts) = Inr (m, \<exists>t\<in>set ts. t \<noteq> EveryValue)
    \<and> (\<forall>u. allows m u \<longleftrightarrow> (\<exists>t\<in>set ts. \<exists>w. term_has fi t w \<and> u = fold_day fi w))"
  using parse_terms_text [OF assms(1,3), of 0 False] split_field_text [OF assms(2)]
  by (simp add: parse_field_def)

lemma parse_field_denotes_witness:
  "\<exists>m. parse_field 5 (field_text [Span 1 3, Single 7]) = Inr (m, True)
    \<and> (\<forall>u. allows m u \<longleftrightarrow>
         (\<exists>t\<in>set [Span 1 3, Single 7]. \<exists>w. term_has 5 t w \<and> u = fold_day 5 w))"
  using parse_field_denotes [of 5 "[Span 1 3, Single 7]"]
  by (simp add: value_ok_def field_lo_def field_hi_def)

text \<open>
  The step is added with 64-bit wrap-around: a step near the largest integer steps backwards, and
  a field that starts at 5 also fires at 3 and 1.
\<close>

theorem huge_step_fires_early:
  "parse_field 0 ''5/9223372036854775807'' = Inr (mask_of 5 OR mask_of 3 OR mask_of 1, True)"
  by code_simp

section \<open>The fire times\<close>

definition fires_at :: "cron \<Rightarrow> go_time \<Rightarrow> bool" where
  "fires_at c x \<longleftrightarrow> x mod 10 ^ 9 = 0 \<and> cron_match c (x div 10 ^ 9)"

definition horizon :: "go_time \<Rightarrow> go_time" where
  "horizon start = add_date (start div 10 ^ 9 + 1) 5 0 0 * 10 ^ 9"

lemma fires_atD: "fires_at c x \<Longrightarrow> \<exists>k. x = k * 10 ^ 9 \<and> cron_match c k"
  unfolding fires_at_def by (metis mult_div_mod_eq add.right_neutral mult.commute)

lemma fires_at_whole [simp]: "fires_at c (k * 1000000000) \<longleftrightarrow> cron_match c k"
  by (simp add: fires_at_def)

lemma whole_after: "start < k * 10 ^ 9 \<longleftrightarrow> start div 10 ^ 9 + 1 \<le> (k :: int)"
  using div_bounds [of "10 ^ 9" start] by (auto simp: not_le div_less_iff_less_mult less_eq_iff_succ_less algebra_simps)

text \<open>
  C26: The next fire time of a parsed schedule is the first instant after the given one that the
  schedule matches; there is none exactly when nothing matches before the five-year horizon, and
  the search always ends.
\<close>

theorem next_fire_is_least:
  assumes "parse_schedule s = Inr c"
  shows "case cron_next c start of
      Fires n \<Rightarrow> start < n \<and> n < horizon start \<and> fires_at c n \<and> (\<forall>x. start < x \<and> x < n \<longrightarrow> \<not> fires_at c x)
    | NoFire \<Rightarrow> (\<forall>x. start < x \<and> x < horizon start \<longrightarrow> \<not> fires_at c x)
    | Endless \<Rightarrow> False"
  using cron_next_spec [OF parse_schedule_wf [OF assms], of start]
  by (auto simp: next_spec_def horizon_def whole_after [symmetric] split: next_fire.splits
           dest!: fires_atD)

lemma next_fire_is_least_witness:
  "\<exists>c. parse_schedule ''0 0 23 * * 0'' = Inr c \<and>
     (case cron_next c (go_date 2026 3 4 12 30 10 * 10 ^ 9) of
        Fires n \<Rightarrow> go_date 2026 3 4 12 30 10 * 10 ^ 9 < n \<and> n < horizon (go_date 2026 3 4 12 30 10 * 10 ^ 9) \<and> fires_at c n
          \<and> (\<forall>x. go_date 2026 3 4 12 30 10 * 10 ^ 9 < x \<and> x < n \<longrightarrow> \<not> fires_at c x)
      | NoFire \<Rightarrow> (\<forall>x. go_date 2026 3 4 12 30 10 * 10 ^ 9 < x \<and> x < horizon (go_date 2026 3 4 12 30 10 * 10 ^ 9)
          \<longrightarrow> \<not> fires_at c x)
      | Endless \<Rightarrow> False)"
proof -
  have "parse_schedule ''0 0 23 * * 0''
      = Inr \<lparr>cn_sec = 1, cn_min = 1, cn_hour = 8388608, cn_dom = 4294967294, cn_mon = 8190, cn_dow = 1,
             cn_dom_set = False, cn_dow_set = True\<rparr>" by code_simp
  with next_fire_is_least [OF this] show ?thesis by blast
qed

text \<open>The search of a window of less than five years ends at its end, not at the horizon.\<close>

lemma sec_day_bounds: "sec_day t * 86400 \<le> t" "t \<le> sec_day t * 86400 + 86399"
  using clock_split [of t] clock_bounds [of t] by linarith+

lemma horizon_far: "start + 1823 * 86400 * 10 ^ 9 < horizon start"
proof -
  obtain t where t: "t = start div 10 ^ 9 + 1" by blast
  have "t + 1823 * 86400 < add_date t 5 0 0"
    using horizon_days(1) [of t] sec_day_bounds(1) [of "add_date t 5 0 0"] sec_day_bounds(2) [of t] by linarith
  then have "(t + 1823 * 86400) * 10 ^ 9 < add_date t 5 0 0 * 10 ^ 9" by simp
  moreover have "start < t * 10 ^ 9" unfolding t by (simp only: whole_after)
  ultimately show ?thesis unfolding horizon_def t [symmetric] by simp
qed

lemma cron_next_cases:
  assumes "wf_cron c"
  obtains n where "cron_next c t = Fires n" "t < n" "fires_at c n" "\<And>x. t < x \<Longrightarrow> x < n \<Longrightarrow> \<not> fires_at c x"
  | "cron_next c t = NoFire" "\<And>x. t < x \<Longrightarrow> x < horizon t \<Longrightarrow> \<not> fires_at c x"
proof (cases "cron_next c t")
  case (Fires n)
  with cron_next_spec [OF assms, of t] show thesis
    by (intro that(1) [of n]) (auto simp: next_spec_def whole_after [symmetric] dest!: fires_atD)
next
  case NoFire
  with cron_next_spec [OF assms, of t] show thesis
    by (intro that(2)) (auto simp: next_spec_def horizon_def whole_after [symmetric] dest!: fires_atD)
next
  case Endless
  with cron_next_spec [OF assms, of t] show thesis by (simp add: next_spec_def)
qed

definition window :: "cron \<Rightarrow> go_time \<Rightarrow> go_time \<Rightarrow> go_time set" where
  "window c lo hi = {x. lo < x \<and> x \<le> hi \<and> fires_at c x}"

lemma window_extend:
  assumes "lo \<le> t" "t < n" "fires_at c n" "\<And>x. t < x \<Longrightarrow> x < n \<Longrightarrow> \<not> fires_at c x"
  shows "window c lo n = insert n (window c lo t)"
proof -
  have "x \<le> t \<or> x = n" if "x \<le> n" "fires_at c x" for x using assms(4) [of x] that by (cases "t < x") (auto simp: le_less)
  with assms(1-3) show ?thesis unfolding window_def by fastforce
qed

lemma window_same:
  assumes "t \<le> hi" "\<And>x. t < x \<Longrightarrow> x \<le> hi \<Longrightarrow> \<not> fires_at c x"
  shows "window c lo hi = window c lo t"
proof -
  have "x \<le> t" if "x \<le> hi" "fires_at c x" for x using assms(2) [of x] that by (cases "t < x") auto
  with assms(1) show ?thesis unfolding window_def by auto
qed

definition between_spec :: "cron \<Rightarrow> go_time \<Rightarrow> go_time \<Rightarrow> fire_list \<Rightarrow> bool" where
  "between_spec c lo hi r =
     (case r of
        FireTimes ts \<Rightarrow> sorted_wrt (<) ts \<and> set ts = window c lo hi \<and> length ts \<le> 10000
      | CapReached \<Rightarrow> (\<exists>ts. sorted_wrt (<) ts \<and> set ts \<subseteq> window c lo hi \<and> length ts = 10001)
      | ListEndless \<Rightarrow> False)"

lemma between_loop:
  assumes "wf_cron c" "finish \<le> lo + 1823 * 86400 * 10 ^ 9" "lo \<le> t" "t \<le> finish" "sorted_wrt (<) out"
    "set out = window c lo t" "length out \<le> 10000"
  shows "between_spec c lo finish (between_loop c finish t out)"
  using assms
proof (induction c finish t out rule: between_loop.induct)
  case (1 c finish t out)
  note prems = "1.prems"
  from prems(1) show ?case
  proof (cases rule: cron_next_cases [where t = t])
    case (1 n)
    consider "finish < n" | "n \<le> finish" "10000 \<le> length out" | "n \<le> finish" "length out < 10000"
      by linarith
    then show ?thesis
    proof cases
      case a: 1
      have "window c lo finish = window c lo t" using 1(4) a prems(4) by (intro window_same) auto
      with a 1(1) prems show ?thesis by (simp add: between_loop.simps [of c finish t out] between_spec_def)
    next
      case b: 2
      have w: "window c lo n = insert n (window c lo t)" by (rule window_extend [OF prems(3) 1(2,3,4)])
      have "sorted_wrt (<) (out @ [n])" using prems(5,6) 1(2) by (auto simp: sorted_wrt_append window_def)
      moreover have "set (out @ [n]) \<subseteq> window c lo finish"
        using w prems(6) b(1) unfolding window_def by fastforce
      moreover have "length (out @ [n]) = 10001" using b(2) prems(7) by simp
      ultimately have "\<exists>ts. sorted_wrt (<) ts \<and> set ts \<subseteq> window c lo finish \<and> length ts = 10001" by blast
      with b 1(1) show ?thesis by (simp add: between_loop.simps [of c finish t out] between_spec_def)
    next
      case d: 3
      have w: "window c lo n = insert n (window c lo t)" by (rule window_extend [OF prems(3) 1(2,3,4)])
      have "between_spec c lo finish (between_loop c finish n (out @ [n]))"
        using prems 1(2) d w
        by (intro "1.IH" [OF 1(1)]) (auto simp: sorted_wrt_append window_def)
      with d 1(1) show ?thesis by (simp add: between_loop.simps [of c finish t out])
    qed
  next
    case 2
    have "finish < horizon t" using horizon_far [of t] prems(2,3) by linarith
    then have "window c lo finish = window c lo t" using 2(2) prems(4) by (intro window_same) auto
    with 2(1) prems show ?thesis by (simp add: between_loop.simps [of c finish t out] between_spec_def)
  qed
qed

text \<open>
  On a window of less than five years \<open>Between\<close> lists, in order, exactly the fire times after the
  start less one second and up to the end, or stops at its cap, and then there are more than 10000
  of them. A start within a second therefore also gives the fire time of the second it lies in.
\<close>

theorem between_lists_fire_times:
  assumes "parse_schedule s = Inr c" "start \<le> finish" "finish \<le> start + 1822 * 86400 * 10 ^ 9"
  shows "between_spec c (start - 10 ^ 9) finish (cron_between c start finish)"
proof -
  have "window c (start - 10 ^ 9) (start - 10 ^ 9) = {}" by (auto simp: window_def)
  then have "between_spec c (start - 10 ^ 9) finish (between_loop c finish (start - 10 ^ 9) [])"
    using assms(2,3) by (intro between_loop [OF parse_schedule_wf [OF assms(1)]]) simp_all
  with assms(2) show ?thesis by (simp add: cron_between_def)
qed

lemma between_lists_fire_times_witness:
  "\<exists>c. parse_schedule ''@hourly'' = Inr c
     \<and> between_spec c (go_date 2026 3 4 12 30 10 * 10 ^ 9 - 10 ^ 9) (go_date 2026 3 4 20 0 0 * 10 ^ 9)
         (cron_between c (go_date 2026 3 4 12 30 10 * 10 ^ 9) (go_date 2026 3 4 20 0 0 * 10 ^ 9))"
proof -
  have "parse_schedule ''@hourly''
      = Inr \<lparr>cn_sec = 1, cn_min = 1, cn_hour = 16777215, cn_dom = 4294967294, cn_mon = 8190, cn_dow = 127,
             cn_dom_set = False, cn_dow_set = False\<rparr>" by code_simp
  moreover have "go_date 2026 3 4 12 30 10 = 63908224210" "go_date 2026 3 4 20 0 0 = 63908251200" by code_simp+
  ultimately show ?thesis using between_lists_fire_times [of "''@hourly''" _ "63908224210 * 10 ^ 9" "63908251200 * 10 ^ 9"]
    by simp
qed

end
