(* ===== verification/Bundles.thy ===== *)
theory Bundles
  imports Schedule Catalog_Codec
begin

text \<open>
  The bundle planner (\<^verbatim>\<open>internal/bundle\<close>: strategy.go, resolve.go, plan.go and the list updates of
  list.go): strategies and their validation, which bundle an incremental slot is cut on, the plan
  windows and the state of every slot, retention, and the lists that are served.

  A strategy table is a list, its index by name a search from the end. The walks along the base
  links of a table carry fuel, one more than the number of strategies, and give \<open>None\<close> when they would
  go round for ever; theory \<open>Bundle_Plan\<close> shows that they never do for a validated table. The list is
  never a nil pointer here (the readers pass an empty list for an absent one), and the windows are read
  per strategy, as names are distinct. \<^verbatim>\<open>sort.Slice\<close> is taken as a stable
  sort; its keys are distinct where the order matters.
\<close>

section \<open>Strategies\<close>

record strategy =
  sy_name :: string
  sy_kind :: string
  sy_base :: string
  sy_schedule :: cron
  sy_keep :: int
  sy_backfill_max :: int
  sy_chain :: bool
  sy_filter :: string
  sy_refs :: "string list"
  sy_min_commits :: int

definition kind_full :: string where "kind_full = ''full''"
definition kind_incremental :: string where "kind_incremental = ''incremental''"
definition filter_blob_none :: string where "filter_blob_none = ''blob:none''"
definition default_min_commits :: int where "default_min_commits = 25"
definition default_keep :: int where "default_keep = 2"

definition effective_keep :: "strategy \<Rightarrow> int" where
  "effective_keep s = (if 0 < sy_keep s then sy_keep s else default_keep)"

definition effective_min_commits :: "strategy \<Rightarrow> int \<Rightarrow> int" where
  "effective_min_commits s default_min =
     (if 0 < sy_min_commits s then sy_min_commits s
      else if 0 < default_min then default_min
      else default_min_commits)"

text \<open>A configured strategy, its schedule still a string.\<close>

record bundle_strategy =
  bs_name :: string
  bs_kind :: string
  bs_base :: string
  bs_schedule :: string
  bs_keep :: int
  bs_backfill_max :: int
  bs_chain :: bool
  bs_filter :: string
  bs_refs :: "string list"
  bs_min_commits :: int

datatype strategy_error =
    BadSchedule string cron_error | NameRequired nat | DuplicateName string | BaseRequired string
  | UnknownBase string string | KeepOnIncremental string | BadKind string | NegativeBackfill string
  | NegativeMinCommits string | BadFilter string | EmptyRefGlob string | BaseCycle string string
  | MixedFilters string

definition from_config_strategy :: "bundle_strategy \<Rightarrow> strategy_error + strategy" where
  "from_config_strategy b =
     (case parse_schedule (bs_schedule b) of
        Inl e \<Rightarrow> Inl (BadSchedule (bs_name b) e)
      | Inr c \<Rightarrow> Inr \<lparr>sy_name = bs_name b, sy_kind = bs_kind b, sy_base = bs_base b, sy_schedule = c,
                      sy_keep = bs_keep b, sy_backfill_max = bs_backfill_max b, sy_chain = bs_chain b,
                      sy_filter = bs_filter b, sy_refs = bs_refs b, sy_min_commits = bs_min_commits b\<rparr>)"

text \<open>\<^verbatim>\<open>ByName\<close>: of strategies with the same name the last one counts.\<close>

definition by_name :: "strategy list \<Rightarrow> string \<Rightarrow> strategy option" where
  "by_name strats n = find (\<lambda>s. sy_name s = n) (rev strats)"

fun check_names :: "nat \<Rightarrow> string list \<Rightarrow> strategy list \<Rightarrow> strategy_error option" where
  "check_names i seen [] = None"
| "check_names i seen (s # ss) =
     (if sy_name s = [] then Some (NameRequired i)
      else if sy_name s \<in> set seen then Some (DuplicateName (sy_name s))
      else check_names (i + 1) (sy_name s # seen) ss)"

definition check_strategy :: "strategy list \<Rightarrow> strategy \<Rightarrow> strategy_error option" where
  "check_strategy strats s =
     (let common =
        (if sy_backfill_max s < 0 then Some (NegativeBackfill (sy_name s))
         else if sy_min_commits s < 0 then Some (NegativeMinCommits (sy_name s))
         else if sy_filter s \<noteq> [] \<and> sy_filter s \<noteq> filter_blob_none then Some (BadFilter (sy_name s))
         else if [] \<in> set (sy_refs s) then Some (EmptyRefGlob (sy_name s))
         else None)
      in if sy_kind s = kind_full then common
         else if sy_kind s = kind_incremental then
           (if sy_base s = [] then Some (BaseRequired (sy_name s))
            else if by_name strats (sy_base s) = None then Some (UnknownBase (sy_name s) (sy_base s))
            else if sy_keep s \<noteq> 0 then Some (KeepOnIncremental (sy_name s))
            else common)
         else Some (BadKind (sy_name s)))"

fun check_each :: "strategy list \<Rightarrow> strategy list \<Rightarrow> strategy_error option" where
  "check_each strats [] = None"
| "check_each strats (s # ss) =
     (case check_strategy strats s of Some e \<Rightarrow> Some e | None \<Rightarrow> check_each strats ss)"

text \<open>
  The walk along the base links from one strategy. \<open>None\<close> is the nil dereference of a base that
  names no strategy, which the checks before do not exclude for a full strategy.
\<close>

function check_chain :: "strategy list \<Rightarrow> strategy \<Rightarrow> string list \<Rightarrow> strategy \<Rightarrow> strategy_error option option" where
  "check_chain strats orig seen cur =
     (if sy_base cur = [] then Some None
      else if sy_base cur \<in> set seen then Some (Some (BaseCycle (sy_name orig) (sy_base cur)))
      else case by_name strats (sy_base cur) of
          None \<Rightarrow> None
        | Some b \<Rightarrow>
            if sy_filter orig \<noteq> sy_filter b then Some (Some (MixedFilters (sy_name orig)))
            else check_chain strats orig (sy_base cur # seen) b)"
  by pat_completeness auto

lemma find_SomeD: "find P xs = Some x \<Longrightarrow> x \<in> set xs \<and> P x"
  by (induction xs) (auto split: if_splits)

lemma by_name_Some: "by_name strats n = Some s \<Longrightarrow> s \<in> set strats \<and> sy_name s = n"
  unfolding by_name_def by (drule find_SomeD) simp

lemma filter_length_less:
  assumes "x \<in> set xs" "P x" "\<not> Q x" "\<And>y. Q y \<Longrightarrow> P y"
  shows "length (filter Q xs) < length (filter P xs)"
proof -
  have le: "length (filter Q ys) \<le> length (filter P ys)" for ys
  proof (induction ys)
    case (Cons y ys)
    then show ?case using assms(4) [of y] by (cases "Q y") simp_all
  qed simp
  obtain ys zs where xs: "xs = ys @ x # zs" using split_list [OF assms(1)] by blast
  show ?thesis using le [of ys] le [of zs] assms(2,3) by (simp add: xs)
qed

termination check_chain
proof (relation "measure (\<lambda>(strats, orig, seen, cur). length (filter (\<lambda>s. sy_name s \<notin> set seen) strats))")
  fix strats and orig :: strategy and seen and cur b :: strategy
  assume "sy_base cur \<notin> set seen" "by_name strats (sy_base cur) = Some b"
  then have "length (filter (\<lambda>s. sy_name s \<notin> set (sy_base cur # seen)) strats)
      < length (filter (\<lambda>s. sy_name s \<notin> set seen) strats)"
    using by_name_Some by (intro filter_length_less [of b]) auto
  then show "((strats, orig, sy_base cur # seen, b), strats, orig, seen, cur)
      \<in> measure (\<lambda>(strats, orig, seen, cur). length (filter (\<lambda>s. sy_name s \<notin> set seen) strats))"
    by simp
qed simp

declare check_chain.simps [simp del]

fun check_chains :: "strategy list \<Rightarrow> strategy list \<Rightarrow> strategy_error option option" where
  "check_chains strats [] = Some None"
| "check_chains strats (s # ss) =
     (case check_chain strats s [sy_name s] s of
        None \<Rightarrow> None
      | Some (Some e) \<Rightarrow> Some (Some e)
      | Some None \<Rightarrow> check_chains strats ss)"

text \<open>\<^verbatim>\<open>ValidateStrategies\<close>: \<open>None\<close> a panic, \<open>Some (Some e)\<close> an error, \<open>Some None\<close> accepted.\<close>

definition validate_strategies :: "strategy list \<Rightarrow> strategy_error option option" where
  "validate_strategies strats =
     (case check_names 0 [] strats of
        Some e \<Rightarrow> Some (Some e)
      | None \<Rightarrow> case check_each strats strats of
          Some e \<Rightarrow> Some (Some e)
        | None \<Rightarrow> check_chains strats strats)"

fun convert_strategies :: "bundle_strategy list \<Rightarrow> strategy_error + strategy list" where
  "convert_strategies [] = Inr []"
| "convert_strategies (b # bs) =
     rbind (from_config_strategy b) (\<lambda>s. rbind (convert_strategies bs) (\<lambda>ss. Inr (s # ss)))"

definition from_config :: "bundle_strategy list \<Rightarrow> (strategy_error + strategy list) option" where
  "from_config bs =
     (case convert_strategies bs of
        Inl e \<Rightarrow> Some (Inl e)
      | Inr ss \<Rightarrow> (case validate_strategies ss of
            None \<Rightarrow> None
          | Some (Some e) \<Rightarrow> Some (Inl e)
          | Some None \<Rightarrow> Some (Inr ss)))"

text \<open>\<^verbatim>\<open>DefaultStrategies\<close>; a schedule that does not parse would be the zero one.\<close>

definition schedule_of :: "string \<Rightarrow> cron" where
  "schedule_of s = (case parse_schedule s of Inr c \<Rightarrow> c | Inl e \<Rightarrow> cron.make 0 0 0 0 0 0 False False)"

definition default_strategies :: "strategy list" where
  "default_strategies =
     [\<lparr>sy_name = ''weekly'', sy_kind = kind_full, sy_base = [], sy_schedule = schedule_of ''@weekly'',
       sy_keep = default_keep, sy_backfill_max = 1, sy_chain = False, sy_filter = [], sy_refs = [], sy_min_commits = 0\<rparr>,
      \<lparr>sy_name = ''daily'', sy_kind = kind_incremental, sy_base = ''weekly'', sy_schedule = schedule_of ''@daily'',
       sy_keep = 0, sy_backfill_max = 7, sy_chain = True, sy_filter = [], sy_refs = [], sy_min_commits = 0\<rparr>,
      \<lparr>sy_name = ''hourly'', sy_kind = kind_incremental, sy_base = ''daily'', sy_schedule = schedule_of ''@hourly'',
       sy_keep = 0, sy_backfill_max = 48, sy_chain = False, sy_filter = [], sy_refs = [], sy_min_commits = 0\<rparr>]"

text \<open>\<^verbatim>\<open>ChainRoot\<close>.\<close>

fun chain_root :: "nat \<Rightarrow> strategy list \<Rightarrow> strategy \<Rightarrow> strategy option" where
  "chain_root 0 strats cur = None"
| "chain_root (Suc n) strats cur =
     (if sy_base cur = [] then Some cur
      else case by_name strats (sy_base cur) of None \<Rightarrow> Some cur | Some b \<Rightarrow> chain_root n strats b)"

section \<open>The base of a slot\<close>

text \<open>\<^verbatim>\<open>NewestEntry\<close>: the loop keeps the best entry so far.\<close>

definition better_entry :: "bundle_entry \<Rightarrow> bundle_entry option \<Rightarrow> bool" where
  "better_entry e best =
     (case best of
        None \<Rightarrow> True
      | Some b \<Rightarrow> be_slot b < be_slot e \<or> be_slot e = be_slot b \<and> be_creation_token b < be_creation_token e)"

definition newest_entry :: "bundle_entry list \<Rightarrow> string \<Rightarrow> u64 \<Rightarrow> bool \<Rightarrow> bundle_entry option" where
  "newest_entry bundles strat slot at_most =
     fold (\<lambda>e best. if be_strategy e \<noteq> strat then best
                    else if slot < be_slot e \<or> \<not> at_most \<and> be_slot e = slot then best
                    else if better_entry e best then Some e else best) bundles None"

fun ancestor_entry :: "nat \<Rightarrow> strategy list \<Rightarrow> bundle_entry list \<Rightarrow> u64 \<Rightarrow> string \<Rightarrow> bundle_entry option option" where
  "ancestor_entry 0 strats bundles slot n = None"
| "ancestor_entry (Suc k) strats bundles slot n =
     (if n = [] then Some None
      else case by_name strats n of
          None \<Rightarrow> Some None
        | Some b \<Rightarrow>
            (case newest_entry bundles (sy_name b) slot True of
               Some e \<Rightarrow> Some (Some e)
             | None \<Rightarrow> ancestor_entry k strats bundles slot (sy_base b)))"

definition newest_ancestor_entry :: "strategy list \<Rightarrow> strategy \<Rightarrow> u64 \<Rightarrow> bundle_entry list \<Rightarrow> bundle_entry option option" where
  "newest_ancestor_entry strats s slot bundles = ancestor_entry (Suc (length strats)) strats bundles slot (sy_base s)"

definition base_for :: "strategy list \<Rightarrow> strategy \<Rightarrow> u64 \<Rightarrow> bundle_entry list \<Rightarrow> bundle_entry option option" where
  "base_for strats s slot bundles =
     (case newest_ancestor_entry strats s slot bundles of
        None \<Rightarrow> None
      | Some base \<Rightarrow>
          (case newest_entry bundles (sy_name s) slot False of
             None \<Rightarrow> Some base
           | Some own \<Rightarrow>
               if sy_chain s \<and> (case base of None \<Rightarrow> True | Some b \<Rightarrow> slot = be_slot b \<or> be_slot b < be_slot own)
               then Some (Some own) else Some base))"

text \<open>\<^verbatim>\<open>BaseIDFor\<close>: the inner \<open>None\<close> is \<^verbatim>\<open>ErrBlocked\<close>.\<close>

definition base_id_for :: "strategy list \<Rightarrow> strategy \<Rightarrow> u64 \<Rightarrow> bundle_entry list \<Rightarrow> string option option" where
  "base_id_for strats s slot bundles =
     (if sy_kind s = kind_full then Some (Some [])
      else case base_for strats s slot bundles of
          None \<Rightarrow> None
        | Some None \<Rightarrow> Some None
        | Some (Some b) \<Rightarrow> Some (Some (be_id b)))"

definition entry_by_id :: "bundle_entry list \<Rightarrow> string \<Rightarrow> bundle_entry option" where
  "entry_by_id bundles i = find (\<lambda>e. be_id e = i) bundles"

definition sort_refs :: "ref list \<Rightarrow> ref list" where
  "sort_refs refs = sort_key rf_name refs"

definition tip_oids :: "ref list \<Rightarrow> string list" where
  "tip_oids refs = filter (\<lambda>o1. o1 \<noteq> []) (map rf_oid refs)"

text \<open>\<^verbatim>\<open>SameTips\<close> compares the sorted lists of name, a zero byte, and oid.\<close>

definition tip_key :: "ref \<Rightarrow> string" where
  "tip_key r = rf_name r @ CHR 0x00 # rf_oid r"

definition same_tips :: "ref list \<Rightarrow> ref list \<Rightarrow> bool" where
  "same_tips a b \<longleftrightarrow> length a = length b \<and> sort (map tip_key a) = sort (map tip_key b)"

section \<open>Plan windows\<close>

definition day_ns :: int where "day_ns = 86400 * 10 ^ 9"
definition close_grace :: int where "close_grace = 120 * 10 ^ 9"

definition unix_slot :: "go_time \<Rightarrow> u64" where
  "unix_slot t = word_of_int (t div 10 ^ 9 - unix_epoch)"

definition slot_time :: "u64 \<Rightarrow> go_time" where
  "slot_time slot = (sint slot + unix_epoch) * 10 ^ 9"

text \<open>\<^verbatim>\<open>newestSlots\<close>: the lookback grows fourfold from one day; six rounds pass 400 days.\<close>

fun newest_slots_from :: "nat \<Rightarrow> strategy \<Rightarrow> go_time \<Rightarrow> int \<Rightarrow> int \<Rightarrow> u64 list" where
  "newest_slots_from 0 s now n lookback = []"
| "newest_slots_from (Suc k) s now n lookback =
     (case cron_between (sy_schedule s) (now - lookback) now of
        FireTimes fires \<Rightarrow>
          if n \<le> int (length fires) then map unix_slot (drop (length fires - nat n) fires)
          else if 400 * day_ns < lookback then map unix_slot fires
          else newest_slots_from k s now n (lookback * 4)
      | _ \<Rightarrow> [])"

definition newest_slots :: "strategy \<Rightarrow> go_time \<Rightarrow> int \<Rightarrow> u64 list" where
  "newest_slots s now n = (if n \<le> 0 then [] else newest_slots_from 6 s now n day_ns)"

definition slots_from :: "strategy \<Rightarrow> u64 \<Rightarrow> go_time \<Rightarrow> u64 list" where
  "slots_from s start now =
     (case cron_between (sy_schedule s) (slot_time start) now of
        FireTimes fires \<Rightarrow> map unix_slot fires
      | _ \<Rightarrow> [])"

definition newest_base_bundle :: "strategy list \<Rightarrow> strategy \<Rightarrow> bundle_entry list \<Rightarrow> bundle_entry option option" where
  "newest_base_bundle strats s bundles = ancestor_entry (Suc (length strats)) strats bundles (2 ^ 62) (sy_base s)"

text \<open>The window of one strategy (an absent map entry reads as the empty window); \<open>None\<close> loops.\<close>

definition plan_window :: "strategy list \<Rightarrow> bundle_entry list \<Rightarrow> go_time \<Rightarrow> strategy \<Rightarrow> u64 list option" where
  "plan_window strats bundles now s =
     (if sy_kind s = kind_full then Some (newest_slots s now (effective_keep s))
      else if sy_chain s then
        (case newest_base_bundle strats s bundles of
           None \<Rightarrow> None
         | Some None \<Rightarrow> Some []
         | Some (Some b) \<Rightarrow> Some (slots_from s (be_slot b) now))
      else Some (newest_slots s now 2))"

section \<open>The state of every slot\<close>

record plan_slot =
  ps_strategy :: string
  ps_slot :: u64
  ps_when :: go_time
  ps_state :: string
  ps_detail :: string

definition entry_at :: "bundle_list \<Rightarrow> string \<Rightarrow> u64 \<Rightarrow> bundle_entry option" where
  "entry_at l strat slot = find (\<lambda>e. be_strategy e = strat \<and> be_slot e = slot) (bl_bundles l)"

definition skipped_at :: "bundle_list \<Rightarrow> string \<Rightarrow> u64 \<Rightarrow> skipped_slot option" where
  "skipped_at l strat slot = find (\<lambda>v. sk_strategy v = strat \<and> sk_slot v = slot) (bl_skipped l)"

text \<open>A slot in the future, or within the close grace, is open.\<close>

definition open_slot :: "go_time \<Rightarrow> go_time \<Rightarrow> bool" where
  "open_slot now at_time \<longleftrightarrow> now < at_time \<or> now - at_time \<le> close_grace"

definition slot_state ::
  "strategy list \<Rightarrow> bundle_list \<Rightarrow> go_time \<Rightarrow> go_time option \<Rightarrow> (strategy \<Rightarrow> bool) \<Rightarrow> strategy \<Rightarrow> u64
   \<Rightarrow> (string \<times> string) option" where
  "slot_state strats l now first_state host_fits s slot =
     (let at_time = slot_time slot
      in case entry_at l (sy_name s) slot of
          Some e \<Rightarrow> Some (''built'', be_id e)
        | None \<Rightarrow> (case skipped_at l (sy_name s) slot of
            Some v \<Rightarrow> Some (if prefix ''too-small'' (sk_reason v) then ''too-small'' else ''skipped'', sk_reason v)
          | None \<Rightarrow>
              if \<not> host_fits s then Some (''wrong-host'', [])
              else if (case first_state of Some first \<Rightarrow> at_time < first | None \<Rightarrow> False) then Some (''unavailable'', [])
              else if open_slot now at_time then Some (''pending'', [])
              else if sy_kind s = kind_incremental then
                (case base_id_for strats s slot (bl_bundles l) of
                   None \<Rightarrow> None
                 | Some None \<Rightarrow> Some (''blocked'', [])
                 | Some (Some _) \<Rightarrow> Some (''missing'', []))
              else Some (''missing'', [])))"

definition strategy_states ::
  "strategy list \<Rightarrow> bundle_list \<Rightarrow> go_time \<Rightarrow> go_time option \<Rightarrow> (strategy \<Rightarrow> bool) \<Rightarrow> strategy \<Rightarrow> plan_slot list option" where
  "strategy_states strats l now first_state host_fits s =
     (case plan_window strats (bl_bundles l) now s of
        None \<Rightarrow> None
      | Some win \<Rightarrow> all_some (map (\<lambda>slot. map_option
          (\<lambda>(st, detail). \<lparr>ps_strategy = sy_name s, ps_slot = slot, ps_when = slot_time slot, ps_state = st, ps_detail = detail\<rparr>)
          (slot_state strats l now first_state host_fits s slot)) win))"

definition plan_states ::
  "strategy list \<Rightarrow> bundle_list \<Rightarrow> go_time \<Rightarrow> go_time option \<Rightarrow> (strategy \<Rightarrow> bool) \<Rightarrow> plan_slot list option" where
  "plan_states strats l now first_state host_fits =
     map_option (\<lambda>rows. sort_key ps_strategy (sort_key ps_slot (concat rows)))
       (all_some (map (strategy_states strats l now first_state host_fits) strats))"

text \<open>\<^verbatim>\<open>BackfillPlan\<close>: \<open>n\<close> slots of the strategy are planned already.\<close>

fun backfill_window :: "strategy list \<Rightarrow> bundle_list \<Rightarrow> go_time \<Rightarrow> strategy \<Rightarrow> int \<Rightarrow> u64 list \<Rightarrow> plan_slot list option" where
  "backfill_window strats l now s n [] = Some []"
| "backfill_window strats l now s n (slot # slots) =
     (if entry_at l (sy_name s) slot \<noteq> None \<or> skipped_at l (sy_name s) slot \<noteq> None then
        backfill_window strats l now s n slots
      else if open_slot now (slot_time slot) then backfill_window strats l now s n slots
      else case (if sy_kind s = kind_incremental then base_id_for strats s slot (bl_bundles l) else Some (Some [])) of
          None \<Rightarrow> None
        | Some None \<Rightarrow> backfill_window strats l now s n slots
        | Some (Some _) \<Rightarrow>
            map_option ((#) \<lparr>ps_strategy = sy_name s, ps_slot = slot, ps_when = slot_time slot,
                             ps_state = ''missing'', ps_detail = []\<rparr>)
              (if 0 < sy_backfill_max s \<and> sy_backfill_max s \<le> n + 1 then Some []
               else backfill_window strats l now s (n + 1) slots))"

definition backfill_plan :: "strategy list \<Rightarrow> bundle_list \<Rightarrow> go_time \<Rightarrow> plan_slot list option" where
  "backfill_plan strats l now =
     map_option concat (all_some (map (\<lambda>s. case plan_window strats (bl_bundles l) now s of
         None \<Rightarrow> None
       | Some win \<Rightarrow> backfill_window strats l now s 0 win) strats))"

section \<open>Retention\<close>

definition entries_of_strategy :: "bundle_entry list \<Rightarrow> string \<Rightarrow> bundle_entry list" where
  "entries_of_strategy bundles strat = filter (\<lambda>e. be_strategy e = strat) bundles"

definition newest_first :: "bundle_entry list \<Rightarrow> bundle_entry list" where
  "newest_first es = rev (sort_key be_slot (rev es))"

definition kept_fulls :: "strategy list \<Rightarrow> bundle_entry list \<Rightarrow> string list" where
  "kept_fulls strats bundles =
     concat (map (\<lambda>s. if sy_kind s \<noteq> kind_full then []
                      else map be_id (take (nat (effective_keep s)) (newest_first (entries_of_strategy bundles (sy_name s)))))
                 strats)"

definition chain_entry :: "strategy list \<Rightarrow> bundle_entry \<Rightarrow> bool" where
  "chain_entry strats e \<longleftrightarrow>
     (case by_name strats (be_strategy e) of None \<Rightarrow> False | Some s \<Rightarrow> sy_kind s = kind_incremental \<and> sy_chain s)"

text \<open>One pass over the entries marks those whose base is kept, and says whether it marked any.\<close>

fun chain_pass :: "strategy list \<Rightarrow> bundle_entry list \<Rightarrow> string list \<Rightarrow> string list \<times> bool" where
  "chain_pass strats [] kept = (kept, False)"
| "chain_pass strats (e # es) kept =
     (if be_id e \<in> set kept \<or> be_base_id e = [] then chain_pass strats es kept
      else if \<not> chain_entry strats e then chain_pass strats es kept
      else if be_base_id e \<in> set kept then (fst (chain_pass strats es (be_id e # kept)), True)
      else chain_pass strats es kept)"

lemma chain_pass_grows: "set kept \<subseteq> set (fst (chain_pass strats es kept))"
  by (induction strats es kept rule: chain_pass.induct) auto

lemma chain_pass_marks:
  "snd (chain_pass strats es kept) \<Longrightarrow> \<exists>e\<in>set es. be_id e \<notin> set kept \<and> be_id e \<in> set (fst (chain_pass strats es kept))"
proof (induction strats es kept rule: chain_pass.induct)
  case (2 strats e es kept)
  show ?case
  proof (cases "be_id e \<in> set kept \<or> be_base_id e = [] \<or> \<not> chain_entry strats e \<or> be_base_id e \<notin> set kept")
    case True
    with 2 show ?thesis by auto
  next
    case False
    then show ?thesis using chain_pass_grows [of "be_id e # kept" strats es] by auto
  qed
qed simp

lemma chain_pass_decreases:
  assumes "chain_pass strats es kept = (kept', True)"
  shows "length (filter (\<lambda>e. be_id e \<notin> set kept') es) < length (filter (\<lambda>e. be_id e \<notin> set kept) es)"
proof -
  obtain e where "e \<in> set es" "be_id e \<notin> set kept" "be_id e \<in> set kept'"
    using chain_pass_marks [of strats es kept] assms by auto
  moreover have "set kept \<subseteq> set kept'" using chain_pass_grows [of kept strats es] assms by simp
  ultimately show ?thesis by (intro filter_length_less [of e]) auto
qed

function chain_closure :: "strategy list \<Rightarrow> bundle_entry list \<Rightarrow> string list \<Rightarrow> string list" where
  "chain_closure strats es kept =
     (case chain_pass strats es kept of (kept', changed) \<Rightarrow> if changed then chain_closure strats es kept' else kept')"
  by pat_completeness auto
termination
  by (relation "measure (\<lambda>(strats, es, kept). length (filter (\<lambda>e. be_id e \<notin> set kept) es))")
     (use chain_pass_decreases in \<open>auto simp: eq_commute [of "(_, _)"]\<close>)

declare chain_closure.simps [simp del]

fun kept_others :: "strategy list \<Rightarrow> bundle_entry list \<Rightarrow> string list \<Rightarrow> string list" where
  "kept_others [] bundles kept = kept"
| "kept_others (s # ss) bundles kept =
     (if sy_kind s \<noteq> kind_incremental \<or> sy_chain s then kept_others ss bundles kept
      else let cands = filter (\<lambda>e. be_base_id e \<noteq> [] \<and> be_base_id e \<in> set kept) (entries_of_strategy bundles (sy_name s))
           in kept_others ss bundles (map be_id (take 2 (newest_first cands)) @ kept))"

definition prune_retention :: "strategy list \<Rightarrow> bundle_list \<Rightarrow> bundle_list" where
  "prune_retention strats cur =
     (let kept = kept_others strats (bl_bundles cur)
                   (chain_closure strats (bl_bundles cur) (kept_fulls strats (bl_bundles cur)))
      in cur\<lparr>bl_bundles := filter (\<lambda>e. be_id e \<in> set kept) (bl_bundles cur)\<rparr>)"

text \<open>\<^verbatim>\<open>settleSkipped\<close>; the comment of the code says to leave a record of an unknown strategy alone.\<close>

definition settled :: "strategy list \<Rightarrow> bundle_list \<Rightarrow> (strategy \<Rightarrow> u64 list) \<Rightarrow> skipped_slot \<Rightarrow> bool option" where
  "settled strats cur win v =
     (case by_name strats (sk_strategy v) of
        None \<Rightarrow> Some True
      | Some s \<Rightarrow>
          if entry_at cur (sk_strategy v) (sk_slot v) \<noteq> None then Some True
          else if sk_slot v \<notin> set (win s) then Some True
          else case base_id_for strats s (sk_slot v) (bl_bundles cur) of
              None \<Rightarrow> None
            | Some None \<Rightarrow> Some False
            | Some (Some want) \<Rightarrow> Some (want \<noteq> sk_base_id v))"

fun keep_unsettled :: "strategy list \<Rightarrow> bundle_list \<Rightarrow> (strategy \<Rightarrow> u64 list) \<Rightarrow> skipped_slot list \<Rightarrow> skipped_slot list option" where
  "keep_unsettled strats cur win [] = Some []"
| "keep_unsettled strats cur win (v # vs) =
     (case settled strats cur win v of
        None \<Rightarrow> None
      | Some gone \<Rightarrow> map_option (\<lambda>r. if gone then r else v # r) (keep_unsettled strats cur win vs))"

definition settle_skipped :: "strategy list \<Rightarrow> bundle_list \<Rightarrow> (strategy \<Rightarrow> u64 list) \<Rightarrow> bundle_list option" where
  "settle_skipped strats cur win =
     map_option (\<lambda>vs. cur\<lparr>bl_skipped := vs\<rparr>) (keep_unsettled strats cur win (bl_skipped cur))"

section \<open>List updates and served lists\<close>

text \<open>
  The update functions that \<^verbatim>\<open>updateList\<close> runs on the list it read (\<open>None\<close> an absent list, or an
  update without a write), and the time stamp it adds.
\<close>

definition fresh_list :: bundle_list where
  "fresh_list = bundle_list_zero\<lparr>bl_mode := ''all'', bl_heuristic := ''creationToken''\<rparr>"

definition default_modes :: "bundle_list \<Rightarrow> bundle_list" where
  "default_modes l =
     l\<lparr>bl_mode := (if bl_mode l = [] then ''all'' else bl_mode l),
       bl_heuristic := (if bl_heuristic l = [] then ''creationToken'' else bl_heuristic l)\<rparr>"

fun replace_first :: "('a \<Rightarrow> bool) \<Rightarrow> 'a \<Rightarrow> 'a list \<Rightarrow> 'a list" where
  "replace_first P x [] = [x]"
| "replace_first P x (y # ys) = (if P y then x # ys else y # replace_first P x ys)"

definition upsert_entry :: "go_time \<Rightarrow> bundle_entry \<Rightarrow> bundle_list option \<Rightarrow> bundle_list" where
  "upsert_entry now e cur =
     (let l = default_modes (case cur of None \<Rightarrow> fresh_list | Some l \<Rightarrow> l)
      in l\<lparr>bl_bundles := replace_first (\<lambda>old. be_id old = be_id e) e (bl_bundles l), bl_updated_at := ts_ptr now\<rparr>)"

definition remove_entries :: "go_time \<Rightarrow> string list \<Rightarrow> bundle_list option \<Rightarrow> bundle_list option" where
  "remove_entries now ids cur =
     (case cur of
        None \<Rightarrow> None
      | Some l \<Rightarrow>
          (let kept = filter (\<lambda>e. be_id e \<notin> set ids) (bl_bundles l)
           in if length kept = length (bl_bundles l) then None
              else Some (l\<lparr>bl_bundles := kept, bl_updated_at := ts_ptr now\<rparr>)))"

definition removed_keys :: "bundle_list \<Rightarrow> bundle_list \<Rightarrow> string list" where
  "removed_keys old new =
     map be_key (filter (\<lambda>e. be_key e \<noteq> [] \<and> be_key e \<notin> be_key ` set (bl_bundles new)) (bl_bundles old))"

definition record_verdicts :: "go_time \<Rightarrow> skipped_slot list \<Rightarrow> bundle_list option \<Rightarrow> bundle_list option" where
  "record_verdicts now vs cur =
     (if vs = [] then None else
      let l = (case cur of None \<Rightarrow> fresh_list | Some l \<Rightarrow> l)
      in Some (l\<lparr>bl_skipped := fold (\<lambda>v sk. replace_first
               (\<lambda>old. sk_strategy old = sk_strategy v \<and> sk_slot old = sk_slot v \<and> sk_base_id old = sk_base_id v) v sk)
             vs (bl_skipped l),
           bl_updated_at := ts_ptr now\<rparr>))"

definition settle_and_prune :: "strategy list \<Rightarrow> go_time \<Rightarrow> bundle_list \<Rightarrow> bundle_list option" where
  "settle_and_prune strats now cur =
     (case all_some (map (plan_window strats (bl_bundles cur) now) strats) of
        None \<Rightarrow> None
      | Some _ \<Rightarrow>
          map_option (\<lambda>l. (default_modes (prune_retention strats l))\<lparr>bl_updated_at := ts_ptr now\<rparr>)
            (settle_skipped strats cur (\<lambda>s. case plan_window strats (bl_bundles cur) now s of Some w \<Rightarrow> w | None \<Rightarrow> [])))"

definition non_orphaned :: "(bundle_entry \<Rightarrow> bool) \<Rightarrow> bundle_entry list \<Rightarrow> bundle_entry list" where
  "non_orphaned keep bundles =
     sort_key be_creation_token (filter (\<lambda>e. keep e \<and>
       \<not> (be_kind e = kind_incremental \<and> be_base_id e \<noteq> [] \<and> be_base_id e \<notin> be_id ` set bundles)) bundles)"

definition clone_entries :: "bundle_entry list \<Rightarrow> bundle_entry list" where
  "clone_entries bundles = non_orphaned (\<lambda>e. True) bundles"

definition catchup_entries :: "bundle_entry list \<Rightarrow> bundle_entry list" where
  "catchup_entries bundles = non_orphaned (\<lambda>e. be_kind e \<noteq> kind_full) bundles"

definition family_filter :: "bundle_entry list \<Rightarrow> string \<Rightarrow> bundle_entry list option" where
  "family_filter bundles flt =
     (if flt \<noteq> [] \<and> flt \<noteq> filter_blob_none then None
      else Some (sort_key be_creation_token (filter (\<lambda>e. be_filter e = flt) bundles)))"

definition intersect_ids :: "bundle_entry list \<Rightarrow> bundle_entry list \<Rightarrow> bundle_entry list" where
  "intersect_ids a b = (if b = [] then [] else filter (\<lambda>e. be_id e \<in> be_id ` set b) a)"

text \<open>The entries \<^verbatim>\<open>Render\<close> lists for one family, for clones or for catching up.\<close>

definition rendered_entries :: "bundle_entry list \<Rightarrow> bool \<Rightarrow> string \<Rightarrow> bundle_entry list option" where
  "rendered_entries bundles clone flt =
     map_option (\<lambda>es. intersect_ids es (if clone then clone_entries bundles else catchup_entries bundles))
       (family_filter bundles flt)"

end
