(* ===== verification/Bundle_Plan.thy ===== *)
theory Bundle_Plan
  imports Bundles "HOL-Library.Multiset"
begin

text \<open>
  Properties of the bundle planner: which strategy tables are accepted and that the walks along their
  base links end, what an incremental slot is cut on, which bundles retention keeps, and when the
  served lists are complete.
\<close>

section \<open>Accepted tables\<close>

definition base_link :: "strategy list \<Rightarrow> (strategy \<times> strategy) set" where
  "base_link strats = {(s, b). s \<in> set strats \<and> sy_base s \<noteq> [] \<and> by_name strats (sy_base s) = Some b}"

definition strategy_ok :: "strategy \<Rightarrow> bool" where
  "strategy_ok s \<longleftrightarrow>
     (sy_kind s = kind_full \<or> sy_kind s = kind_incremental \<and> sy_base s \<noteq> [] \<and> sy_keep s = 0)
     \<and> 0 \<le> sy_backfill_max s \<and> 0 \<le> sy_min_commits s
     \<and> (sy_filter s = [] \<or> sy_filter s = filter_blob_none) \<and> [] \<notin> set (sy_refs s)"

definition named_table :: "strategy list \<Rightarrow> bool" where
  "named_table strats \<longleftrightarrow> distinct (map sy_name strats) \<and> [] \<notin> sy_name ` set strats"

definition base_ok :: "strategy list \<Rightarrow> strategy \<Rightarrow> bool" where
  "base_ok strats s \<longleftrightarrow>
     (sy_base s = [] \<or> (\<exists>b. by_name strats (sy_base s) = Some b \<and> sy_filter b = sy_filter s))"

definition valid_table :: "strategy list \<Rightarrow> bool" where
  "valid_table strats \<longleftrightarrow>
     named_table strats \<and> (\<forall>s\<in>set strats. strategy_ok s \<and> base_ok strats s) \<and> acyclic (base_link strats)"

lemma kinds_differ [simp]: "kind_full \<noteq> kind_incremental" "kind_incremental \<noteq> kind_full"
  by (simp_all add: kind_full_def kind_incremental_def)

lemma find_unique: "distinct (map f xs) \<Longrightarrow> x \<in> set xs \<Longrightarrow> find (\<lambda>y. f y = f x) xs = Some x"
proof (induction xs)
  case (Cons y ys)
  then show ?case by (cases "f y = f x") (auto simp: image_iff)
qed simp

lemma by_name_self:
  assumes "named_table strats" "s \<in> set strats"
  shows "by_name strats (sy_name s) = Some s"
proof -
  have "distinct (map sy_name (rev strats))" using assms(1) by (simp add: named_table_def rev_map [symmetric])
  then show ?thesis unfolding by_name_def using assms(2) by (intro find_unique) auto
qed

lemma check_names_iff:
  "check_names i seen ss = None \<longleftrightarrow> distinct (map sy_name ss) \<and> [] \<notin> sy_name ` set ss \<and> set seen \<inter> sy_name ` set ss = {}"
  by (induction i seen ss rule: check_names.induct) auto

lemma check_strategy_iff:
  "check_strategy strats s = None \<longleftrightarrow>
     strategy_ok s \<and> (sy_kind s = kind_incremental \<longrightarrow> by_name strats (sy_base s) \<noteq> None)"
  by (auto simp: check_strategy_def strategy_ok_def Let_def)

lemma check_each_iff: "check_each strats ss = None \<longleftrightarrow> (\<forall>s\<in>set ss. check_strategy strats s = None)"
  by (induction strats ss rule: check_each.induct) (auto split: option.splits)

lemma check_chains_iff:
  "check_chains strats ss = Some None \<longleftrightarrow> (\<forall>s\<in>set ss. check_chain strats s [sy_name s] s = Some None)"
  by (induction strats ss rule: check_chains.induct) (auto split: option.splits)

lemma validate_split:
  "validate_strategies strats = Some None \<longleftrightarrow>
     named_table strats \<and> (\<forall>s\<in>set strats. check_strategy strats s = None)
     \<and> (\<forall>s\<in>set strats. check_chain strats s [sy_name s] s = Some None)"
proof -
  have "check_names 0 [] strats = None \<longleftrightarrow> named_table strats" by (simp add: check_names_iff named_table_def)
  then show ?thesis
    unfolding validate_strategies_def check_each_iff [symmetric] check_chains_iff [symmetric]
    by (cases "check_names 0 [] strats"; cases "check_each strats strats") auto
qed

text \<open>An accepted walk meets neither the names seen nor another filter.\<close>

lemma check_chain_base:
  assumes "check_chain strats orig seen cur = Some None" "sy_base cur \<noteq> []"
  obtains b where "by_name strats (sy_base cur) = Some b" "sy_base cur \<notin> set seen" "sy_filter b = sy_filter orig"
    "check_chain strats orig (sy_base cur # seen) b = Some None"
  using assms by (auto simp: check_chain.simps [of strats orig seen cur] split: if_splits option.splits)

lemma check_chain_reach:
  assumes "(cur, t) \<in> (base_link strats)\<^sup>+" "check_chain strats orig seen cur = Some None"
  shows "sy_name t \<notin> set seen \<and> sy_filter t = sy_filter orig"
  using assms
proof (induction arbitrary: seen rule: converse_trancl_induct)
  case (base cur)
  then have link: "sy_base cur \<noteq> []" "by_name strats (sy_base cur) = Some t" by (auto simp: base_link_def)
  from check_chain_base [OF base.prems link(1)] link(2) by_name_Some [OF link(2)] show ?case by auto
next
  case (step cur b)
  then have link: "sy_base cur \<noteq> []" "by_name strats (sy_base cur) = Some b" by (auto simp: base_link_def)
  then have "check_chain strats orig (sy_base cur # seen) b = Some None"
    using check_chain_base [OF step.prems link(1)] by auto
  with step.IH [of "sy_base cur # seen"] show ?case by simp
qed

lemma trancl_link_in: "(s, t) \<in> (base_link strats)\<^sup>+ \<Longrightarrow> s \<in> set strats \<and> t \<in> set strats"
  by (induction rule: trancl_induct) (auto simp: base_link_def dest: by_name_Some)

text \<open>Links that have no cycle and keep the filter never lead to an error, only to an unknown base.\<close>

definition sound_links :: "strategy list \<Rightarrow> bool" where
  "sound_links strats \<longleftrightarrow>
     acyclic (base_link strats) \<and> (\<forall>(s, b)\<in>base_link strats. sy_filter b = sy_filter s)"

lemma named_inj: "named_table strats \<Longrightarrow> s \<in> set strats \<Longrightarrow> t \<in> set strats \<Longrightarrow> sy_name s = sy_name t \<Longrightarrow> s = t"
  by (metis by_name_self option.inject)

lemma by_name_None: "by_name strats n = None \<longleftrightarrow> n \<notin> sy_name ` set strats"
  by (auto simp: by_name_def find_None_iff)

lemma check_chain_no_error:
  assumes "named_table strats" "sound_links strats" "cur \<in> set strats" "sy_filter cur = sy_filter orig"
    "set seen \<subseteq> sy_name ` set strats" "\<And>t. (cur, t) \<in> (base_link strats)\<^sup>+ \<Longrightarrow> sy_name t \<notin> set seen"
  shows "check_chain strats orig seen cur \<noteq> Some (Some e)"
  using assms
proof (induction strats orig seen cur rule: check_chain.induct)
  case (1 strats orig seen cur)
  note named = \<open>named_table strats\<close> and links = \<open>sound_links strats\<close>
  show ?case
  proof (cases "sy_base cur = [] \<or> by_name strats (sy_base cur) = None")
    case True
    then have "sy_base cur = [] \<or> sy_base cur \<notin> set seen" using "1.prems"(5) by (auto simp: by_name_None)
    with True show ?thesis by (auto simp: check_chain.simps [of strats orig seen cur])
  next
    case False
    then obtain b where b: "by_name strats (sy_base cur) = Some b" by auto
    with "1.prems"(3) False have link: "(cur, b) \<in> base_link strats" by (simp add: base_link_def)
    have name: "sy_name b = sy_base cur" "b \<in> set strats" using by_name_Some [OF b] by auto
    have flt: "sy_filter b = sy_filter cur" using links link by (auto simp: sound_links_def)
    have fresh: "sy_name t \<notin> set (sy_base cur # seen)" if t: "(b, t) \<in> (base_link strats)\<^sup>+" for t
    proof -
      have "t \<noteq> b" using links t by (auto simp: sound_links_def acyclic_def)
      then have "sy_name t \<noteq> sy_name b" using named_inj [OF named] trancl_link_in [OF t] by blast
      moreover have "sy_name t \<notin> set seen" using "1.prems"(6) link t by (meson trancl_into_trancl2)
      ultimately show ?thesis by (simp add: name)
    qed
    have seen: "sy_base cur \<notin> set seen" using "1.prems"(6) [of b] link name by auto
    have "check_chain strats orig (sy_base cur # seen) b \<noteq> Some (Some e)"
    proof (rule "1.IH" [OF _ seen b])
      show "set (sy_base cur # seen) \<subseteq> sy_name ` set strats"
        using "1.prems"(5) name by (auto simp: image_iff intro: bexI [of _ b])
    qed (use named links name flt "1.prems"(4) fresh False in auto)
    with False seen b flt "1.prems"(4) show ?thesis by (simp add: check_chain.simps [of strats orig seen cur])
  qed
qed

lemma check_chain_panic:
  "check_chain strats orig seen cur = None \<Longrightarrow> cur \<in> set strats \<Longrightarrow>
     \<exists>s\<in>set strats. sy_base s \<noteq> [] \<and> by_name strats (sy_base s) = None"
proof (induction strats orig seen cur rule: check_chain.induct)
  case (1 strats orig seen cur)
  then show ?case
    by (auto simp: check_chain.simps [of strats orig seen cur] split: if_splits option.splits dest: by_name_Some)
qed

lemma check_chain_base_ok: "check_chain strats s seen s = Some None \<Longrightarrow> base_ok strats s"
  unfolding base_ok_def using check_chain_base by blast

lemma check_chains_panic:
  "check_chains strats ss = None \<Longrightarrow> \<exists>s\<in>set ss. check_chain strats s [sy_name s] s = None"
  by (induction strats ss rule: check_chains.induct) (auto split: option.splits)

lemma check_chains_error:
  "check_chains strats ss = Some (Some e) \<Longrightarrow> \<exists>s\<in>set ss. check_chain strats s [sy_name s] s = Some (Some e)"
  by (induction strats ss rule: check_chains.induct) (auto split: option.splits)

lemma validate_panic:
  "validate_strategies strats = None \<Longrightarrow> \<exists>s\<in>set strats. sy_base s \<noteq> [] \<and> by_name strats (sy_base s) = None"
  by (auto simp: validate_strategies_def split: option.splits dest!: check_chains_panic check_chain_panic)

lemma validate_no_error:
  assumes "named_table strats" "sound_links strats" "\<And>s. s \<in> set strats \<Longrightarrow> check_strategy strats s = None"
  shows "validate_strategies strats \<noteq> Some (Some e)"
proof -
  have "check_chain strats s [sy_name s] s \<noteq> Some (Some e)" if s: "s \<in> set strats" for s
  proof (rule check_chain_no_error [OF assms(1,2) s])
    fix t
    assume t: "(s, t) \<in> (base_link strats)\<^sup>+"
    then have "t \<noteq> s" using assms(2) by (auto simp: sound_links_def acyclic_def)
    then show "sy_name t \<notin> set [sy_name s]" using named_inj [OF assms(1) s, of t] trancl_link_in [OF t] by auto
  qed (use s in simp_all)
  moreover have "check_each strats strats = None" using assms(3) by (simp add: check_each_iff)
  moreover have "check_names 0 [] strats = None" using assms(1) by (simp add: check_names_iff named_table_def)
  ultimately show ?thesis by (auto simp: validate_strategies_def dest: check_chains_error)
qed

text \<open>
  C27: Validation accepts exactly the tables with distinct, non-empty names and valid fields in which
  every base names a strategy with the same filter, incremental strategies have a base and no keep,
  and the base links have no cycle.
\<close>

theorem validation_accepts_valid_tables:
  "validate_strategies strats = Some None \<longleftrightarrow> valid_table strats"
proof
  assume ok: "validate_strategies strats = Some None"
  then have chain: "check_chain strats s [sy_name s] s = Some None" if "s \<in> set strats" for s
    using that by (simp add: validate_split)
  have "base_ok strats s" if "s \<in> set strats" for s
    using chain [OF that] by (rule check_chain_base_ok)
  moreover have "acyclic (base_link strats)"
    unfolding acyclic_def
  proof (intro allI notI)
    fix s
    assume loop: "(s, s) \<in> (base_link strats)\<^sup>+"
    with chain [of s] trancl_link_in [OF loop] have "sy_name s \<notin> set [sy_name s]"
      by (blast dest: check_chain_reach)
    then show False by simp
  qed
  ultimately show "valid_table strats" using ok by (simp add: validate_split valid_table_def check_strategy_iff)
next
  assume valid: "valid_table strats"
  then have named: "named_table strats" and links: "sound_links strats"
    by (auto simp: valid_table_def sound_links_def base_ok_def base_link_def)
  have ok: "check_strategy strats s = None" if "s \<in> set strats" for s
    using valid that by (auto simp: valid_table_def check_strategy_iff base_ok_def strategy_ok_def)
  have "validate_strategies strats \<noteq> Some (Some e)" for e
    by (rule validate_no_error [OF named links]) (use ok in auto)
  moreover have "validate_strategies strats \<noteq> None"
  proof
    assume "validate_strategies strats = None"
    then obtain s where "s \<in> set strats" "sy_base s \<noteq> []" "by_name strats (sy_base s) = None"
      by (blast dest: validate_panic)
    with valid show False by (auto simp: valid_table_def base_ok_def)
  qed
  ultimately show "validate_strategies strats = Some None" by (metis not_None_eq)
qed

text \<open>
  A full strategy whose base names no strategy, in a table that is otherwise sound, is not an error:
  the walk along the base links dereferences a nil pointer.
\<close>

theorem unknown_base_of_full_panics:
  assumes "named_table strats" "sound_links strats" "\<forall>s\<in>set strats. check_strategy strats s = None"
    "f \<in> set strats" "sy_base f \<noteq> []" "by_name strats (sy_base f) = None"
  shows "validate_strategies strats = None"
proof -
  have "validate_strategies strats \<noteq> Some (Some e)" for e
    by (rule validate_no_error [OF assms(1,2)]) (use assms(3) in blast)
  moreover have "\<not> base_ok strats f" using assms(5,6) by (simp add: base_ok_def)
  then have "validate_strategies strats \<noteq> Some None"
    using assms(4) by (auto simp: validate_split dest: check_chain_base_ok)
  ultimately show ?thesis by (metis not_None_eq)
qed

definition based_full :: strategy where
  "based_full = \<lparr>sy_name = ''nightly'', sy_kind = kind_full, sy_base = ''weekly'', sy_schedule = cron.make 0 0 0 0 0 0 False False,
     sy_keep = 0, sy_backfill_max = 0, sy_chain = False, sy_filter = [], sy_refs = [], sy_min_commits = 0\<rparr>"

lemma unknown_base_of_full_panics_witness: "validate_strategies [based_full] = None"
proof (rule unknown_base_of_full_panics)
  show "named_table [based_full]" by (simp add: named_table_def based_full_def)
  have "base_link [based_full] = {}" by (auto simp: base_link_def by_name_def based_full_def)
  then show "sound_links [based_full]" by (simp add: sound_links_def acyclic_def)
  show "\<forall>s\<in>set [based_full]. check_strategy [based_full] s = None"
    by (simp add: check_strategy_def based_full_def)
  show "based_full \<in> set [based_full]" by simp
  show "sy_base based_full \<noteq> []" by (simp add: based_full_def)
  show "by_name [based_full] (sy_base based_full) = None" by (simp add: by_name_def based_full_def)
qed

section \<open>Walks end\<close>

lemma fresh_shrink:
  assumes "by_name strats n = Some b" "n \<notin> set seen"
  shows "length (filter (\<lambda>s. sy_name s \<notin> set (n # seen)) strats) < length (filter (\<lambda>s. sy_name s \<notin> set seen) strats)"
  using assms by_name_Some [OF assms(1)] by (intro filter_length_less [of b]) auto

lemma ancestor_entry_ends:
  "check_chain strats orig seen cur = Some None \<Longrightarrow> length (filter (\<lambda>s. sy_name s \<notin> set seen) strats) < n \<Longrightarrow>
     ancestor_entry n strats bundles slot (sy_base cur) \<noteq> None"
proof (induction strats orig seen cur arbitrary: n rule: check_chain.induct)
  case (1 strats orig seen cur)
  obtain m where n: "n = Suc m" using "1.prems"(2) by (cases n) auto
  show ?case
  proof (cases "sy_base cur = []")
    case True
    then show ?thesis by (simp add: n)
  next
    case False
    from "1.prems"(1) False obtain b where b: "by_name strats (sy_base cur) = Some b" "sy_base cur \<notin> set seen"
        "sy_filter b = sy_filter orig" "check_chain strats orig (sy_base cur # seen) b = Some None"
      by (rule check_chain_base)
    have "ancestor_entry m strats bundles slot (sy_base b) \<noteq> None"
      using "1.IH" [OF False b(2,1)] b(3,4) fresh_shrink [OF b(1,2)] "1.prems"(2) by (auto simp: n)
    then show ?thesis by (simp add: n False b(1) split: option.splits)
  qed
qed

lemma chain_root_ends:
  "check_chain strats orig seen cur = Some None \<Longrightarrow> length (filter (\<lambda>s. sy_name s \<notin> set seen) strats) < n \<Longrightarrow>
     \<exists>r. chain_root n strats cur = Some r \<and> sy_base r = []"
proof (induction strats orig seen cur arbitrary: n rule: check_chain.induct)
  case (1 strats orig seen cur)
  obtain m where n: "n = Suc m" using "1.prems"(2) by (cases n) auto
  show ?case
  proof (cases "sy_base cur = []")
    case True
    then show ?thesis by (simp add: n)
  next
    case False
    from "1.prems"(1) False obtain b where b: "by_name strats (sy_base cur) = Some b" "sy_base cur \<notin> set seen"
        "sy_filter b = sy_filter orig" "check_chain strats orig (sy_base cur # seen) b = Some None"
      by (rule check_chain_base)
    have "\<exists>r. chain_root m strats b = Some r \<and> sy_base r = []"
      using "1.IH" [OF False b(2,1)] b(3,4) fresh_shrink [OF b(1,2)] "1.prems"(2) by (auto simp: n)
    then show ?thesis by (simp add: n False b(1))
  qed
qed

lemma validated_chain:
  assumes "validate_strategies strats = Some None" "s \<in> set strats"
  shows "check_chain strats s [sy_name s] s = Some None"
    "length (filter (\<lambda>t. sy_name t \<notin> set [sy_name s]) strats) < Suc (length strats)"
  using assms by (auto simp: validate_split le_imp_less_Suc)

lemma ancestors_end:
  assumes "validate_strategies strats = Some None" "s \<in> set strats"
  shows "ancestor_entry (Suc (length strats)) strats bundles slot (sy_base s) \<noteq> None"
  by (rule ancestor_entry_ends [OF validated_chain [OF assms]])

lemma base_id_ends:
  assumes "validate_strategies strats = Some None" "s \<in> set strats"
  shows "base_id_for strats s slot bundles \<noteq> None"
  using ancestors_end [OF assms, of bundles slot]
  by (auto simp: base_id_for_def base_for_def newest_ancestor_entry_def split: option.splits)

lemma plan_window_ends:
  assumes "validate_strategies strats = Some None" "s \<in> set strats"
  shows "plan_window strats bundles now s \<noteq> None"
  using ancestors_end [OF assms, of bundles "2 ^ 62"]
  by (auto simp: plan_window_def newest_base_bundle_def split: option.splits)

lemma all_some_ends: "(\<And>x. x \<in> set xs \<Longrightarrow> f x \<noteq> None) \<Longrightarrow> all_some (map f xs) \<noteq> None"
  by (induction xs) (auto split: option.splits)

lemma slot_state_ends:
  assumes "validate_strategies strats = Some None" "s \<in> set strats"
  shows "slot_state strats l now first_state host_fits s slot \<noteq> None"
  using base_id_ends [OF assms, of slot "bl_bundles l"] by (auto simp: slot_state_def Let_def split: option.splits)

text \<open>
  Under a validated table the classification of all slots ends, whatever the bundle list holds:
  no walk along base links goes round for ever.
\<close>

theorem planning_ends:
  assumes "validate_strategies strats = Some None"
  shows "\<exists>rows. plan_states strats l now first_state host_fits = Some rows"
proof -
  have "strategy_states strats l now first_state host_fits s \<noteq> None" if "s \<in> set strats" for s
    using plan_window_ends [OF assms that, of "bl_bundles l" now]
    by (simp add: strategy_states_def all_some_ends slot_state_ends [OF assms that] del: not_None_eq split: option.splits)
  then have "all_some (map (strategy_states strats l now first_state host_fits) strats) \<noteq> None"
    by (rule all_some_ends)
  then show ?thesis by (auto simp: plan_states_def)
qed

lemma planning_ends_witness:
  "\<exists>rows. plan_states default_strategies bundle_list_zero 0 None (\<lambda>s. True) = Some rows"
proof (rule planning_ends)
  show "validate_strategies default_strategies = Some None"
    by (simp add: validate_strategies_def check_strategy_def check_chain.simps by_name_def default_strategies_def
        kind_full_def kind_incremental_def)
qed

lemma backfill_window_ends:
  assumes "validate_strategies strats = Some None" "s \<in> set strats"
  shows "backfill_window strats l now s n slots \<noteq> None"
  by (induction slots arbitrary: n)
     (auto simp: base_id_ends [OF assms] simp del: not_None_eq split: option.splits)

lemma backfill_ends:
  assumes "validate_strategies strats = Some None"
  shows "backfill_plan strats l now \<noteq> None"
  by (simp add: backfill_plan_def all_some_ends plan_window_ends [OF assms] backfill_window_ends [OF assms]
      del: not_None_eq split: option.splits)

lemma settle_ends:
  assumes "validate_strategies strats = Some None"
  shows "settle_and_prune strats now cur \<noteq> None"
proof -
  have "settled strats cur win v \<noteq> None" for win v
    by (auto simp: settled_def base_id_ends [OF assms] simp del: not_None_eq dest!: by_name_Some split: option.splits)
  then have "keep_unsettled strats cur win vs \<noteq> None" for win vs
    by (induction vs) (simp_all del: not_None_eq split: option.splits)
  moreover have "all_some (map (plan_window strats (bl_bundles cur) now) strats) \<noteq> None"
    by (rule all_some_ends [OF plan_window_ends [OF assms]])
  ultimately show ?thesis by (simp add: settle_and_prune_def settle_skipped_def del: not_None_eq split: option.splits)
qed

section \<open>The base of a slot\<close>

definition eligible :: "string \<Rightarrow> u64 \<Rightarrow> bool \<Rightarrow> bundle_entry \<Rightarrow> bool" where
  "eligible strat slot at_most e \<longleftrightarrow>
     be_strategy e = strat \<and> (if at_most then be_slot e \<le> slot else be_slot e < slot)"

lemma newest_fold:
  assumes "fold (\<lambda>e best. if be_strategy e \<noteq> strat then best
                    else if slot < be_slot e \<or> \<not> at_most \<and> be_slot e = slot then best
                    else if better_entry e best then Some e else best) es best = r"
  shows "case r of
      None \<Rightarrow> best = None \<and> (\<forall>e\<in>set es. \<not> eligible strat slot at_most e)
    | Some b \<Rightarrow> (best = Some b \<or> b \<in> set es \<and> eligible strat slot at_most b)
        \<and> (\<forall>e. best = Some e \<or> e \<in> set es \<and> eligible strat slot at_most e \<longrightarrow> be_slot e \<le> be_slot b)"
  using assms
proof (induction es arbitrary: best)
  case Nil
  then show ?case by (auto split: option.splits)
next
  case (Cons e es)
  define next_best where "next_best = (if eligible strat slot at_most e \<and> better_entry e best then Some e else best)"
  have step: "(if be_strategy e \<noteq> strat then best
       else if slot < be_slot e \<or> \<not> at_most \<and> be_slot e = slot then best
       else if better_entry e best then Some e else best) = next_best"
    by (auto simp: next_best_def eligible_def)
  have keeps: "next_best = None \<Longrightarrow> best = None \<and> \<not> eligible strat slot at_most e"
    by (auto simp: next_best_def better_entry_def split: if_splits)
  have grows: "\<exists>b. next_best = Some b \<and> be_slot c \<le> be_slot b"
    if "best = Some c \<or> c = e \<and> eligible strat slot at_most e" for c
    using that by (auto simp: next_best_def better_entry_def split: option.splits if_splits)
  have from_e: "next_best = Some b \<Longrightarrow> best = Some b \<or> b = e \<and> eligible strat slot at_most e" for b
    by (auto simp: next_best_def split: if_splits)
  have IH: "case r of
      None \<Rightarrow> next_best = None \<and> (\<forall>e\<in>set es. \<not> eligible strat slot at_most e)
    | Some b \<Rightarrow> (next_best = Some b \<or> b \<in> set es \<and> eligible strat slot at_most b)
        \<and> (\<forall>e. next_best = Some e \<or> e \<in> set es \<and> eligible strat slot at_most e \<longrightarrow> be_slot e \<le> be_slot b)"
    using Cons.IH [of next_best] Cons.prems by (simp add: step)
  show ?case
  proof (cases r)
    case None
    with IH keeps show ?thesis by auto
  next
    case (Some b)
    have "be_slot c \<le> be_slot b" if c: "best = Some c \<or> c = e \<and> eligible strat slot at_most e" for c
    proof -
      obtain d where "next_best = Some d" "be_slot c \<le> be_slot d" using grows [OF c] by auto
      then show ?thesis using IH Some by fastforce
    qed
    with IH Some from_e show ?thesis by fastforce
  qed
qed

lemma newest_entry_Some:
  assumes "newest_entry bundles strat slot at_most = Some b"
  shows "b \<in> set bundles" "eligible strat slot at_most b"
    "\<And>e. e \<in> set bundles \<Longrightarrow> eligible strat slot at_most e \<Longrightarrow> be_slot e \<le> be_slot b"
  using newest_fold [OF assms [unfolded newest_entry_def]] by auto

lemma newest_entry_None:
  "newest_entry bundles strat slot at_most = None \<Longrightarrow> e \<in> set bundles \<Longrightarrow> \<not> eligible strat slot at_most e"
  unfolding newest_entry_def by (drule newest_fold) auto

lemma ancestor_entry_Some:
  assumes "ancestor_entry k strats bundles slot (sy_base s) = Some (Some b)" "s \<in> set strats"
  shows "\<exists>a. (s, a) \<in> (base_link strats)\<^sup>+ \<and> newest_entry bundles (sy_name a) slot True = Some b"
  using assms
proof (induction k arbitrary: s)
  case (Suc k)
  from Suc.prems obtain a where a: "sy_base s \<noteq> []" "by_name strats (sy_base s) = Some a"
    by (auto split: if_splits option.splits)
  then have link: "(s, a) \<in> base_link strats" "a \<in> set strats"
    using Suc.prems(2) by (auto simp: base_link_def dest: by_name_Some)
  show ?case
  proof (cases "newest_entry bundles (sy_name a) slot True")
    case None
    with a Suc.prems(1) have "ancestor_entry k strats bundles slot (sy_base a) = Some (Some b)" by simp
    with Suc.IH [OF this link(2)] link(1) show ?thesis by (meson trancl_into_trancl2)
  next
    case (Some e)
    with a Suc.prems(1) link(1) show ?thesis by auto
  qed
qed simp

text \<open>
  The bundle that a slot is cut on is stored, and is either an earlier bundle of the strategy's own
  chain or a bundle of an ancestor strategy not later than the slot; and no bundle of its strategy, nor
  of a chain's own, lies between it and the slot.
\<close>

theorem base_is_latest:
  assumes "base_for strats s slot bundles = Some (Some b)" "s \<in> set strats"
  shows "b \<in> set bundles
    \<and> (sy_chain s \<and> be_strategy b = sy_name s \<and> be_slot b < slot
       \<or> (\<exists>a. (s, a) \<in> (base_link strats)\<^sup>+ \<and> be_strategy b = sy_name a) \<and> be_slot b \<le> slot)
    \<and> (\<forall>e\<in>set bundles. be_strategy e = be_strategy b \<or> sy_chain s \<and> be_strategy e = sy_name s
         \<longrightarrow> be_slot e \<le> be_slot b \<or> slot \<le> be_slot e)"
proof -
  let ?own = "newest_entry bundles (sy_name s) slot False"
  have own: "e \<in> set bundles \<Longrightarrow> be_strategy e = sy_name s \<Longrightarrow> be_slot e < slot \<Longrightarrow> \<exists>o1. ?own = Some o1 \<and> be_slot e \<le> be_slot o1" for e
    using newest_entry_None [of bundles "sy_name s" slot False e] newest_entry_Some(3) [of bundles "sy_name s" slot False _ e]
    by (cases ?own) (auto simp: eligible_def)
  from assms(1) obtain base where base: "newest_ancestor_entry strats s slot bundles = Some base"
    by (auto simp: base_for_def split: option.splits)
  consider (own) "?own = Some b" "sy_chain s"
    | (anc) "base = Some b" "\<And>o1. ?own = Some o1 \<Longrightarrow> sy_chain s \<Longrightarrow> be_slot o1 \<le> be_slot b"
    using assms(1) base by (auto simp: base_for_def not_less split: option.splits if_splits)
  then show ?thesis
  proof cases
    case own
    then show ?thesis using newest_entry_Some [OF own(1)] by (fastforce simp: eligible_def)
  next
    case anc
    obtain a where a: "(s, a) \<in> (base_link strats)\<^sup>+" "newest_entry bundles (sy_name a) slot True = Some b"
      using ancestor_entry_Some base anc(1) assms(2) unfolding newest_ancestor_entry_def by blast
    have "be_slot e \<le> be_slot b \<or> slot \<le> be_slot e"
      if e: "e \<in> set bundles" "be_strategy e = be_strategy b \<or> sy_chain s \<and> be_strategy e = sy_name s" for e
      using e(2)
    proof
      assume "be_strategy e = be_strategy b"
      then show ?thesis using newest_entry_Some(2) [OF a(2)] newest_entry_Some(3) [OF a(2) e(1)]
        by (auto simp: eligible_def)
    next
      assume "sy_chain s \<and> be_strategy e = sy_name s"
      then show ?thesis using own [OF e(1)] anc(2) by force
    qed
    then show ?thesis using a(1) newest_entry_Some [OF a(2)] by (auto simp: eligible_def)
  qed
qed

lemma base_is_latest_witness:
  "\<exists>e. base_for default_strategies (default_strategies ! 1) 700 [bundle_entry_zero\<lparr>be_strategy := ''weekly'', be_slot := 700\<rparr>] = Some (Some e)
     \<and> be_slot e \<le> 700"
proof -
  let ?e = "bundle_entry_zero\<lparr>be_strategy := ''weekly'', be_slot := 700\<rparr>"
  have base: "base_for default_strategies (default_strategies ! 1) 700 [?e] = Some (Some ?e)"
    by (simp add: base_for_def newest_ancestor_entry_def newest_entry_def better_entry_def by_name_def
        default_strategies_def bundle_entry_zero_def)
  have "default_strategies ! 1 \<in> set default_strategies" by (simp add: default_strategies_def)
  from base_is_latest [OF base this] base show ?thesis by auto
qed

section \<open>Tip sets\<close>

definition tip_pair :: "ref \<Rightarrow> string \<times> string" where
  "tip_pair r = (rf_name r, rf_oid r)"

definition split_key :: "string \<Rightarrow> string \<times> string" where
  "split_key k = (takeWhile (\<lambda>c. c \<noteq> CHR 0x00) k, tl (dropWhile (\<lambda>c. c \<noteq> CHR 0x00) k))"

lemma split_tip_key: "CHR 0x00 \<notin> set (rf_name r) \<Longrightarrow> split_key (tip_key r) = tip_pair r"
proof -
  assume "CHR 0x00 \<notin> set (rf_name r)"
  then have "x \<noteq> CHR 0x00" if "x \<in> set (rf_name r)" for x using that by auto
  then show ?thesis
    by (simp add: split_key_def tip_key_def tip_pair_def takeWhile_append2 dropWhile_append2)
qed

lemma sort_eq_iff: "sort xs = sort ys \<longleftrightarrow> mset xs = mset ys" for xs :: "'a::linorder list"
  by (metis mset_sort sorted_list_of_multiset_mset)

text \<open>
  Two tip sets whose ref names hold no zero byte are the same to the unchanged gate exactly when
  they hold the same pairs of name and object id, each as often, in whatever order.
\<close>

theorem same_tips_compares_pairs:
  assumes "\<forall>r\<in>set (a @ b). CHR 0x00 \<notin> set (rf_name r)"
  shows "same_tips a b \<longleftrightarrow> mset (map tip_pair a) = mset (map tip_pair b)"
proof -
  have pairs: "map tip_pair xs = map split_key (map tip_key xs)" if "set xs \<subseteq> set (a @ b)" for xs
    using that assms by (auto simp: split_tip_key)
  have keys: "map tip_key xs = map (\<lambda>(n, i). n @ CHR 0x00 # i) (map tip_pair xs)" for xs
    by (simp add: tip_key_def tip_pair_def)
  show ?thesis
  proof
    assume "same_tips a b"
    then have "mset (map tip_key a) = mset (map tip_key b)" by (simp add: same_tips_def sort_eq_iff)
    then have "mset (map split_key (map tip_key a)) = mset (map split_key (map tip_key b))"
      by (metis mset_map)
    then show "mset (map tip_pair a) = mset (map tip_pair b)" using pairs [of a] pairs [of b] by (simp only: set_append Un_upper1 Un_upper2)
  next
    assume same: "mset (map tip_pair a) = mset (map tip_pair b)"
    then have "mset (map tip_key a) = mset (map tip_key b)" unfolding keys by (metis mset_map)
    moreover have "length a = length b" using mset_eq_length [OF same] by simp
    ultimately show "same_tips a b" by (simp add: same_tips_def sort_eq_iff)
  qed
qed

lemma same_tips_compares_pairs_witness:
  "same_tips [\<lparr>rf_name = ''a'', rf_oid = ''1'', rf_peeled = []\<rparr>, \<lparr>rf_name = ''b'', rf_oid = ''2'', rf_peeled = []\<rparr>]
     [\<lparr>rf_name = ''b'', rf_oid = ''2'', rf_peeled = ''3''\<rparr>, \<lparr>rf_name = ''a'', rf_oid = ''1'', rf_peeled = []\<rparr>]"
  by (subst same_tips_compares_pairs) (simp_all add: tip_pair_def add_mset_commute)

section \<open>Retention\<close>



text \<open>The same over the ids that the first step of the code marks.\<close>

inductive_set kept_chain :: "strategy list \<Rightarrow> bundle_entry list \<Rightarrow> string set"
  for strats bundles where
  full: "i \<in> set (kept_fulls strats bundles) \<Longrightarrow> i \<in> kept_chain strats bundles"
| link: "e \<in> set bundles \<Longrightarrow> chain_entry strats e \<Longrightarrow> be_base_id e \<noteq> [] \<Longrightarrow> be_base_id e \<in> kept_chain strats bundles
    \<Longrightarrow> be_id e \<in> kept_chain strats bundles"

lemma chain_pass_sound:
  "set kept \<subseteq> kept_chain strats bundles \<Longrightarrow> set es \<subseteq> set bundles \<Longrightarrow>
     set (fst (chain_pass strats es kept)) \<subseteq> kept_chain strats bundles"
proof (induction strats es kept rule: chain_pass.induct)
  case (2 strats e es kept)
  show ?case
  proof (cases "be_id e \<in> set kept \<or> be_base_id e = [] \<or> \<not> chain_entry strats e \<or> be_base_id e \<notin> set kept")
    case True
    with 2 show ?thesis by auto
  next
    case False
    with "2.prems" have "be_id e \<in> kept_chain strats bundles" by (intro kept_chain.link) auto
    with False 2 show ?thesis by auto
  qed
qed simp

lemma chain_pass_closed:
  "chain_pass strats es kept = (kept', False) \<Longrightarrow>
     kept' = kept \<and> (\<forall>e\<in>set es. chain_entry strats e \<longrightarrow> be_base_id e \<noteq> [] \<longrightarrow> be_base_id e \<in> set kept \<longrightarrow> be_id e \<in> set kept)"
proof (induction es)
  case (Cons e es)
  have "chain_pass strats es kept = (kept', False)
      \<and> (be_id e \<in> set kept \<or> be_base_id e = [] \<or> \<not> chain_entry strats e \<or> be_base_id e \<notin> set kept)"
    using Cons.prems by (auto split: if_split_asm)
  with Cons.IH show ?case by simp blast
qed simp

lemma chain_closure_sound:
  "set kept \<subseteq> kept_chain strats es \<Longrightarrow> set (chain_closure strats es kept) \<subseteq> kept_chain strats es"
proof (induction strats es kept rule: chain_closure.induct)
  case (1 strats es kept)
  obtain kept' changed where pass: "chain_pass strats es kept = (kept', changed)" by (cases "chain_pass strats es kept")
  with chain_pass_sound [OF "1.prems", of es] have "set kept' \<subseteq> kept_chain strats es" by simp
  with "1.IH" [OF pass [symmetric]] show ?case by (simp add: chain_closure.simps [of strats es kept] pass)
qed

lemma chain_closure_closed:
  "set kept \<subseteq> set (chain_closure strats es kept)
   \<and> (\<forall>e\<in>set es. chain_entry strats e \<longrightarrow> be_base_id e \<noteq> [] \<longrightarrow> be_base_id e \<in> set (chain_closure strats es kept)
        \<longrightarrow> be_id e \<in> set (chain_closure strats es kept))"
proof (induction strats es kept rule: chain_closure.induct)
  case (1 strats es kept)
  obtain kept' changed where pass: "chain_pass strats es kept = (kept', changed)" by (cases "chain_pass strats es kept")
  have grows: "set kept \<subseteq> set kept'" using chain_pass_grows [of kept strats es] pass by simp
  show ?case
  proof (cases changed)
    case True
    with "1.IH" [OF pass [symmetric]] grows show ?thesis
      unfolding chain_closure.simps [of strats es kept] pass by auto
  next
    case False
    with chain_pass_closed [of strats es kept kept'] pass show ?thesis
      unfolding chain_closure.simps [of strats es kept] pass by auto
  qed
qed

lemma chain_closure_kept_chain: "set (chain_closure strats es (kept_fulls strats es)) = kept_chain strats es"
proof
  show "set (chain_closure strats es (kept_fulls strats es)) \<subseteq> kept_chain strats es"
    by (rule chain_closure_sound) (auto intro: kept_chain.full)
  show "kept_chain strats es \<subseteq> set (chain_closure strats es (kept_fulls strats es))"
  proof
    fix i
    assume "i \<in> kept_chain strats es"
    then show "i \<in> set (chain_closure strats es (kept_fulls strats es))"
      by induction (use chain_closure_closed [of "kept_fulls strats es" strats es] in blast)+
  qed
qed

lemma set_newest_first [simp]: "set (newest_first es) = set es"
  by (simp add: newest_first_def)







lemma kept_others_grows: "set kept \<subseteq> set (kept_others ss bundles kept)"
  by (induction ss bundles kept rule: kept_others.induct) (auto simp: Let_def)

lemma kept_others_source:
  "i \<in> set (kept_others ss bundles kept) \<Longrightarrow>
     i \<in> set kept \<or> (\<exists>s\<in>set ss. sy_kind s = kind_incremental \<and> \<not> sy_chain s \<and>
       (\<exists>e\<in>set bundles. be_strategy e = sy_name s \<and> be_id e = i \<and> be_base_id e \<in> set (kept_others ss bundles kept)))"
proof (induction ss bundles kept rule: kept_others.induct)
  case (2 s ss bundles kept)
  show ?case
  proof (cases "sy_kind s \<noteq> kind_incremental \<or> sy_chain s")
    case True
    with 2 show ?thesis by auto
  next
    case False
    define cands where "cands = filter (\<lambda>e. be_base_id e \<noteq> [] \<and> be_base_id e \<in> set kept) (entries_of_strategy bundles (sy_name s))"
    define kept' where "kept' = map be_id (take 2 (newest_first cands)) @ kept"
    have eq: "kept_others (s # ss) bundles kept = kept_others ss bundles kept'"
      using False by (simp add: Let_def kept'_def cands_def)
    have IH: "i \<in> set kept' \<or> (\<exists>s\<in>set ss. sy_kind s = kind_incremental \<and> \<not> sy_chain s \<and>
       (\<exists>e\<in>set bundles. be_strategy e = sy_name s \<and> be_id e = i \<and> be_base_id e \<in> set (kept_others ss bundles kept')))"
      using "2.IH"(2) [OF False cands_def] "2.prems" unfolding eq kept'_def [symmetric] by blast
    have new: "\<exists>e\<in>set bundles. be_strategy e = sy_name s \<and> be_id e = i \<and> be_base_id e \<in> set kept"
      if "i \<in> set kept'" "i \<notin> set kept"
    proof -
      from that obtain e where "e \<in> set (take 2 (newest_first cands))" "be_id e = i" by (auto simp: kept'_def)
      then have "e \<in> set cands" by (metis in_set_takeD set_newest_first)
      with \<open>be_id e = i\<close> show ?thesis by (auto simp: cands_def entries_of_strategy_def)
    qed
    have "set kept \<subseteq> set (kept_others ss bundles kept')"
      using kept_others_grows [of kept' ss bundles] by (auto simp: kept'_def)
    note up = subsetD [OF this]
    from IH show ?thesis
    proof
      assume "i \<in> set kept'"
      with new up False show ?thesis unfolding eq by auto
    qed (unfold eq, simp)
  qed
qed simp

lemma kept_fulls_source:
  assumes "i \<in> set (kept_fulls strats bundles)"
  obtains s e where "s \<in> set strats" "sy_kind s = kind_full" "e \<in> set bundles" "be_strategy e = sy_name s" "be_id e = i"
proof -
  from assms obtain s e where s: "s \<in> set strats" "sy_kind s = kind_full"
      "e \<in> set (take (nat (effective_keep s)) (newest_first (entries_of_strategy bundles (sy_name s))))" "be_id e = i"
    by (auto simp: kept_fulls_def split: if_splits)
  then have "e \<in> set (entries_of_strategy bundles (sy_name s))" by (metis in_set_takeD set_newest_first)
  with s that show thesis by (auto simp: entries_of_strategy_def)
qed

definition kept_ids :: "strategy list \<Rightarrow> bundle_entry list \<Rightarrow> string list" where
  "kept_ids strats bundles = kept_others strats bundles (chain_closure strats bundles (kept_fulls strats bundles))"

lemma pruned_bundles:
  "bl_bundles (prune_retention strats l) = filter (\<lambda>e. be_id e \<in> set (kept_ids strats (bl_bundles l))) (bl_bundles l)"
  by (simp add: prune_retention_def kept_ids_def)

lemma kept_chain_kept: "kept_chain strats bundles \<subseteq> set (kept_ids strats bundles)"
  using kept_others_grows unfolding kept_ids_def chain_closure_kept_chain [symmetric] .

lemma kept_chain_entry: "i \<in> kept_chain strats bundles \<Longrightarrow> i \<in> be_id ` set bundles"
  by (induction rule: kept_chain.induct) (auto elim!: kept_fulls_source)

lemma same_id: "distinct (map be_id es) \<Longrightarrow> e \<in> set es \<Longrightarrow> e' \<in> set es \<Longrightarrow> be_id e = be_id e' \<Longrightarrow> e = e'"
  by (metis distinct_map inj_onD)

lemma kept_ids_source:
  "i \<in> set (kept_ids strats bundles) \<Longrightarrow>
     i \<in> kept_chain strats bundles \<or> (\<exists>s\<in>set strats. sy_kind s = kind_incremental \<and> \<not> sy_chain s \<and>
       (\<exists>e\<in>set bundles. be_strategy e = sy_name s \<and> be_id e = i \<and> be_base_id e \<in> set (kept_ids strats bundles)))"
  unfolding kept_ids_def by (drule kept_others_source) (simp add: chain_closure_kept_chain)

lemma kept_ids_entry: "i \<in> set (kept_ids strats bundles) \<Longrightarrow> i \<in> be_id ` set bundles"
  using kept_ids_source kept_chain_entry by blast


definition kept_example :: bundle_list where
  "kept_example = bundle_list_zero\<lparr>bl_bundles :=
     [bundle_entry_zero\<lparr>be_id := ''w1'', be_strategy := ''weekly'', be_kind := kind_full, be_slot := 100\<rparr>,
      bundle_entry_zero\<lparr>be_id := ''d1'', be_strategy := ''daily'', be_kind := kind_incremental, be_base_id := ''w1'', be_slot := 200\<rparr>]\<rparr>"

definition plain_strategy :: "string \<Rightarrow> string \<Rightarrow> string \<Rightarrow> bool \<Rightarrow> strategy" where
  "plain_strategy n k b chained = \<lparr>sy_name = n, sy_kind = k, sy_base = b, sy_schedule = cron.make 0 0 0 0 0 0 False False,
     sy_keep = 0, sy_backfill_max = 0, sy_chain = chained, sy_filter = [], sy_refs = [], sy_min_commits = 0\<rparr>"

definition plain_table :: "strategy list" where
  "plain_table = [plain_strategy ''weekly'' kind_full [] False, plain_strategy ''daily'' kind_incremental ''weekly'' True]"

lemma plain_named: "named_table plain_table"
  by (simp add: named_table_def plain_table_def plain_strategy_def)

lemma example_entries:
  "bl_bundles kept_example ! 1 \<in> set (bl_bundles kept_example)" "distinct (map be_id (bl_bundles kept_example))"
  "by_name plain_table (be_strategy (bl_bundles kept_example ! 1)) = Some (plain_table ! 1)"
  by (simp_all add: kept_example_def by_name_def plain_table_def plain_strategy_def)


text \<open>An incremental entry kept by retention still has its base.\<close>

lemma pruned_base:
  assumes "named_table strats" "distinct (map be_id (bl_bundles l))" "e \<in> set (bl_bundles (prune_retention strats l))"
    "by_name strats (be_strategy e) = Some s" "sy_kind s = kind_incremental"
  shows "be_base_id e \<in> be_id ` set (bl_bundles (prune_retention strats l))"
proof -
  let ?kept = "set (kept_ids strats (bl_bundles l))"
  have e: "e \<in> set (bl_bundles l)" "be_id e \<in> ?kept" using assms(3) by (auto simp: pruned_bundles)
  have "be_base_id e \<in> ?kept"
    using kept_ids_source [OF e(2)]
  proof (elim disjE bexE conjE)
    assume "be_id e \<in> kept_chain strats (bl_bundles l)"
    then show ?thesis
    proof cases
      case full
      then obtain t e' where t: "t \<in> set strats" "sy_kind t = kind_full" "e' \<in> set (bl_bundles l)"
          "be_strategy e' = sy_name t" "be_id e' = be_id e"
        by (elim kept_fulls_source)
      then have "e' = e" using same_id [OF assms(2)] e(1) by blast
      then have "t = s" using by_name_self [OF assms(1) t(1)] t(4) assms(4) by simp
      with t(2) assms(5) show ?thesis by simp
    next
      case (link e')
      then have "e' = e" using same_id [OF assms(2)] e(1) by simp
      with link kept_chain_kept show ?thesis by auto
    qed
  next
    fix t e'
    assume "e' \<in> set (bl_bundles l)" "be_id e' = be_id e" "be_base_id e' \<in> ?kept"
    with same_id [OF assms(2)] e(1) show ?thesis by metis
  qed
  with kept_ids_entry [OF this] show ?thesis by (auto simp: pruned_bundles)
qed

section \<open>Served lists\<close>

definition kinds_agree :: "strategy list \<Rightarrow> bundle_entry list \<Rightarrow> bool" where
  "kinds_agree strats bundles \<longleftrightarrow>
     (\<forall>e\<in>set bundles. be_kind e = kind_incremental \<longrightarrow>
        (\<exists>s. by_name strats (be_strategy e) = Some s \<and> sy_kind s = kind_incremental))"

lemma clone_entries_iff:
  "e \<in> set (clone_entries bundles) \<longleftrightarrow>
     e \<in> set bundles \<and> \<not> (be_kind e = kind_incremental \<and> be_base_id e \<noteq> [] \<and> be_base_id e \<notin> be_id ` set bundles)"
  by (simp add: clone_entries_def non_orphaned_def)

text \<open>
  After retention the list served to clones is complete: with every incremental bundle it also
  lists the bundle that one was cut on.
\<close>

theorem served_after_retention_complete:
  assumes "named_table strats" "distinct (map be_id (bl_bundles l))" "kinds_agree strats (bl_bundles l)"
    "e \<in> set (clone_entries (bl_bundles (prune_retention strats l)))" "be_kind e = kind_incremental"
  shows "\<exists>b\<in>set (clone_entries (bl_bundles (prune_retention strats l))). be_id b = be_base_id e"
proof -
  let ?pruned = "bl_bundles (prune_retention strats l)"
  have base: "be_base_id x \<in> be_id ` set ?pruned" if x: "x \<in> set ?pruned" "be_kind x = kind_incremental" for x
  proof -
    from x assms(3) obtain s where "by_name strats (be_strategy x) = Some s" "sy_kind s = kind_incremental"
      by (auto simp: pruned_bundles kinds_agree_def)
    with pruned_base [OF assms(1,2) x(1)] show ?thesis by blast
  qed
  from assms(4) have "e \<in> set ?pruned" by (simp add: clone_entries_iff)
  with base assms(5) obtain b where b: "b \<in> set ?pruned" "be_id b = be_base_id e" by fastforce
  moreover have "b \<in> set (clone_entries ?pruned)" using base b(1) by (auto simp: clone_entries_iff)
  ultimately show ?thesis by blast
qed

lemma example_kept: "bl_bundles (prune_retention plain_table kept_example) = bl_bundles kept_example"
  by code_simp

lemma served_after_retention_complete_witness:
  "\<exists>b\<in>set (clone_entries (bl_bundles (prune_retention plain_table kept_example))).
     be_id b = be_base_id (bl_bundles kept_example ! 1)"
proof (rule served_after_retention_complete [OF plain_named example_entries(2)])
  show "kinds_agree plain_table (bl_bundles kept_example)"
    by (simp add: kinds_agree_def kept_example_def by_name_def plain_table_def plain_strategy_def)
  show "bl_bundles kept_example ! 1 \<in> set (clone_entries (bl_bundles (prune_retention plain_table kept_example)))"
    unfolding example_kept by (simp add: clone_entries_iff) (simp add: kept_example_def)
  show "be_kind (bl_bundles kept_example ! 1) = kind_incremental" by (simp add: kept_example_def)
qed

text \<open>
  Without retention it need not be: only entries whose own base is gone are dropped, so the entry
  above a dropped one is served to clones while the bundle it was cut on is not.
\<close>

theorem orphans_descendant_served:
  assumes "distinct (map be_id bundles)" "e \<in> set bundles" "b \<in> set bundles" "be_base_id e = be_id b"
    "be_kind b = kind_incremental" "be_base_id b \<noteq> []" "be_base_id b \<notin> be_id ` set bundles"
  shows "e \<in> set (clone_entries bundles) \<and> be_base_id e \<notin> be_id ` set (clone_entries bundles)"
proof -
  have "e \<in> set (clone_entries bundles)" using assms(2-4) by (simp add: clone_entries_iff)
  moreover have "x = b" if "x \<in> set (clone_entries bundles)" "be_id x = be_id b" for x
    using same_id [OF assms(1), of x b] that assms(3) by (simp add: clone_entries_iff)
  ultimately show ?thesis using assms(4-7) by (auto simp: clone_entries_iff)
qed

lemma orphans_descendant_served_witness:
  "bundle_entry_zero\<lparr>be_id := ''d2'', be_kind := kind_incremental, be_base_id := ''d1''\<rparr>
     \<in> set (clone_entries [bundle_entry_zero\<lparr>be_id := ''d1'', be_kind := kind_incremental, be_base_id := ''w1''\<rparr>,
              bundle_entry_zero\<lparr>be_id := ''d2'', be_kind := kind_incremental, be_base_id := ''d1''\<rparr>])"
  using orphans_descendant_served
    [of "[bundle_entry_zero\<lparr>be_id := ''d1'', be_kind := kind_incremental, be_base_id := ''w1''\<rparr>,
          bundle_entry_zero\<lparr>be_id := ''d2'', be_kind := kind_incremental, be_base_id := ''d1''\<rparr>]"
        "bundle_entry_zero\<lparr>be_id := ''d2'', be_kind := kind_incremental, be_base_id := ''d1''\<rparr>"
        "bundle_entry_zero\<lparr>be_id := ''d1'', be_kind := kind_incremental, be_base_id := ''w1''\<rparr>"]
  by simp

section \<open>Dense schedules\<close>

text \<open>
  The window of a chain strategy is empty as soon as its schedule fires more than ten thousand times
  since the newest base bundle, so nothing is planned until a new base is built.
\<close>

theorem dense_chain_has_empty_window:
  assumes "parse_schedule sched = Inr (sy_schedule s)" "sy_kind s = kind_incremental" "sy_chain s"
    "newest_base_bundle strats s bundles = Some (Some b)"
    "slot_time (be_slot b) \<le> now" "now \<le> slot_time (be_slot b) + 1822 * 86400 * 10 ^ 9"
    "10000 < card (window (sy_schedule s) (slot_time (be_slot b) - 10 ^ 9) now)"
  shows "plan_window strats bundles now s = Some []"
proof -
  have spec: "between_spec (sy_schedule s) (slot_time (be_slot b) - 10 ^ 9) now
      (cron_between (sy_schedule s) (slot_time (be_slot b)) now)"
    by (rule between_lists_fire_times [OF assms(1,5,6)])
  have "slots_from s (be_slot b) now = []"
  proof (cases "cron_between (sy_schedule s) (slot_time (be_slot b)) now")
    case (FireTimes ts)
    with spec have "set ts = window (sy_schedule s) (slot_time (be_slot b) - 10 ^ 9) now" "length ts \<le> 10000"
      by (simp_all add: between_spec_def)
    with assms(7) card_length [of ts] show ?thesis by simp
  qed (simp_all add: slots_from_def)
  with assms(2-4) show ?thesis by (simp add: plan_window_def)
qed

definition hourly :: cron where
  "hourly = alias_cron [mask_of 0, mask_of 0, all_mask 0 23, all_mask 1 31, all_mask 1 12, all_mask 0 6]"

lemma hourly_parsed: "parse_schedule ''@hourly'' = Inr hourly"
proof -
  have "trim_right_space (trim_left_space ''@hourly'') = ''@hourly''" by code_simp
  moreover have "prefix ''@every'' ''@hourly'' = False" "prefix ''@'' ''@hourly'' = True" by code_simp+
  moreover have "to_lower ''@hourly'' = ''@hourly''" by code_simp
  ultimately show ?thesis by (simp add: parse_schedule_def Let_def cron_aliases_def hourly_def)
qed

lemma hourly_matches: "t mod 3600 = 0 \<Longrightarrow> cron_match hourly t"
proof -
  assume hour: "t mod 3600 = 0"
  then have "sec_minute t = 0" "sec_second t = 0" by (auto simp: sec_minute_def sec_second_def mod_eq_0_iff_dvd elim!: dvd_trans [rotated])
  moreover have "sec_hour t < 64" using clock_bounds(2) [of t] by linarith
  ultimately show ?thesis
    using day_month_bounds(1,2) [of "sec_day t"]
    by (simp add: cron_match_def hourly_def alias_cron_def day_ok_def)
qed

lemma hourly_window:
  assumes "lo < start" "start mod 3600 = 0" "start + 3600 * int n \<le> finish + 3600" "0 < n"
  shows "n \<le> card (window hourly (lo * 10 ^ 9) (finish * 10 ^ 9))"
proof -
  let ?at = "\<lambda>k. (start + 3600 * int k) * 10 ^ 9"
  have fires: "fires_at hourly (?at k)" for k
    unfolding fires_at_def using assms(2) by (auto intro!: hourly_matches)
  have "finite (window hourly (lo * 10 ^ 9) (finish * 10 ^ 9))"
    by (rule finite_subset [of _ "{lo * 10 ^ 9..finish * 10 ^ 9}"]) (auto simp: window_def)
  moreover have "?at ` {..<n} \<subseteq> window hourly (lo * 10 ^ 9) (finish * 10 ^ 9)"
    using assms(1,3) fires unfolding window_def by auto
  moreover have "card (?at ` {..<n}) = n" by (subst card_image) (auto simp: inj_on_def)
  ultimately show ?thesis by (metis card_mono)
qed

definition dense_table :: "strategy list" where
  "dense_table = [plain_strategy ''weekly'' kind_full [] False,
     (plain_strategy ''often'' kind_incremental ''weekly'' True)\<lparr>sy_schedule := hourly\<rparr>]"

lemma dense_chain_has_empty_window_witness:
  "plan_window dense_table [bundle_entry_zero\<lparr>be_strategy := ''weekly'', be_slot := 0\<rparr>]
     (slot_time 0 + 10000 * 3600 * 10 ^ 9) (dense_table ! 1) = Some []"
proof (rule dense_chain_has_empty_window)
  let ?b = "bundle_entry_zero\<lparr>be_strategy := ''weekly'', be_slot := 0\<rparr>"
  show "parse_schedule ''@hourly'' = Inr (sy_schedule (dense_table ! 1))"
    by (simp add: hourly_parsed dense_table_def)
  show "sy_kind (dense_table ! 1) = kind_incremental" "sy_chain (dense_table ! 1)"
    by (simp_all add: dense_table_def plain_strategy_def)
  show "newest_base_bundle dense_table (dense_table ! 1) [?b] = Some (Some ?b)"
    by (simp add: newest_base_bundle_def newest_entry_def better_entry_def by_name_def dense_table_def
        plain_strategy_def bundle_entry_zero_def)
  show "slot_time (be_slot ?b) \<le> slot_time 0 + 10000 * 3600 * 10 ^ 9" by simp
  show "slot_time 0 + 10000 * 3600 * 10 ^ 9 \<le> slot_time (be_slot ?b) + 1822 * 86400 * 10 ^ 9" by simp
  have "unix_epoch mod 3600 = 0" by (simp add: unix_epoch_def)
  then have "10001 \<le> card (window hourly ((unix_epoch - 1) * 10 ^ 9) ((unix_epoch + 10000 * 3600) * 10 ^ 9))"
    using hourly_window [of "unix_epoch - 1" unix_epoch 10001 "unix_epoch + 10000 * 3600"] by simp
  moreover have "(unix_epoch - 1) * 10 ^ 9 = slot_time (be_slot ?b) - 10 ^ 9"
    "(unix_epoch + 10000 * 3600) * 10 ^ 9 = slot_time 0 + 10000 * 3600 * 10 ^ 9"
    by (simp_all add: slot_time_def algebra_simps)
  ultimately show "10000 < card (window (sy_schedule (dense_table ! 1)) (slot_time (be_slot ?b) - 10 ^ 9)
      (slot_time 0 + 10000 * 3600 * 10 ^ 9))"
    by (simp add: dense_table_def)
qed

end
