(* ===== verification/Spec2Isabelle.thy ===== *)
theory Spec2Isabelle
  imports Codecs Frames Store Keys Striped Refs Batch Handle Sidecar Publish Logread Checkpoint Writers Protocol Policy_File Org_Creation Schedule Bundle_Plan
begin

text \<open>
  walhub keeps git repositories in an object store. The truth about a repository is a write-ahead
  log of ref transactions in the bucket, \<^verbatim>\<open>log/<seq>.pb\<close>, and one manifest, \<^verbatim>\<open>manifest.pb\<close>, which
  lists the segments of the log, the live packs and the last checkpoint and is replaced only by a
  compare-and-swap. Every server holds a local copy of the refs that it catches up by replaying the
  log; a push is a new segment followed by a swap of the manifest.

  \<^bold>\<open>Theories\<close>, from the bottom up:

  \<^item> \<open>Prelude\<close>: bytes, words, association lists, error sums.
  \<^item> \<open>Wire\<close>, \<open>Message\<close>: the protobuf primitives of \<^verbatim>\<open>internal/store/proto/codec.go\<close> and the
    generic encoder and decoder loop of a message.
  \<^item> \<open>Manifest_Codec\<close>, \<open>Log_Codec\<close>, \<open>Catalog_Codec\<close>: the twenty stored messages, each with the
    record of \<^verbatim>\<open>types.go\<close>, its size, its writer and its reader; \<open>Codecs\<close> has their properties.
  \<^item> \<open>Frames\<close>: length-prefixed entries, the format of a log segment (\<^verbatim>\<open>frame.go\<close>, \<^verbatim>\<open>codec.go\<close>).
  \<^item> \<open>Store\<close>: the interface of \<^verbatim>\<open>internal/store/store.go\<close> as the locale \<open>object_store\<close>, its errors,
    the memory backend and the prefix wrapper; \<open>Keys\<close>: \<^verbatim>\<open>keys.go\<close>; \<open>Striped\<close>: \<^verbatim>\<open>striped.go\<close>, with
    \<open>store_api\<close>, the record of operations the engine calls.
  \<^item> \<open>Refs\<close>: ref names, packed-refs, the ref cache and offline transactions of
    \<^verbatim>\<open>internal/git/refs.go\<close>.
  \<^item> \<open>Batch\<close>: the pure part of \<^verbatim>\<open>internal/wal/publish.go\<close>: verifying a batch, building its entries and
    the next manifest; \<open>Sidecar\<close>: the JSON size hint.
  \<^item> \<open>Handle\<close>: the open repository and its sync (\<^verbatim>\<open>handle.go\<close>, \<^verbatim>\<open>sync.go\<close>), with the locale
    \<open>engine_store\<close> that states what the engine needs of a store.
  \<^item> \<open>Publish\<close>: the ladder of \<^verbatim>\<open>runBatch\<close>: uploads, slot claim, manifest swap, commit and sweep.
  \<^item> \<open>Logread\<close>: the log and the refs at a point in time (\<^verbatim>\<open>logreader.go\<close>); \<open>Checkpoint\<close>: when and how a
    checkpoint is written and the manifest trimmed (\<^verbatim>\<open>checkpoint.go\<close>).
  \<^item> \<open>Writers\<close>: any number of publishers on one bucket. The ladder is cut at its store requests, and a
    step relation interleaves them, with crashes and lost responses.
  \<^item> \<open>Pktline\<close>: git's packets and side bands (\<^verbatim>\<open>internal/git/pktline.go\<close>); \<open>Protocol\<close>: advertisements,
    ls-refs, the parser and the report of a push, and the fetch guards (\<^verbatim>\<open>advert.go\<close>, \<^verbatim>\<open>receive.go\<close>,
    \<^verbatim>\<open>upload.go\<close>).
  \<^item> \<open>Policy\<close>: globs, actor spellings, groups and the verdicts of the push rules of \<^verbatim>\<open>internal/policy\<close>;
    \<open>Policy_File\<close>: reading \<^verbatim>\<open>policy.json\<close> from its JSON value, the checks at load and the expansion of
    team and role references.
  \<^item> \<open>Access\<close>: who may read, push to and administer a repository (\<^verbatim>\<open>internal/identity\<close>): user names, access
    documents, the resolution of a role, the gates, and the expansion of teams and roles, with the locale
    \<open>expander\<close> that states what a policy document needs of it.
  \<^item> \<open>Documents\<close>: \<^verbatim>\<open>casUpdate\<close>, the update loop of every JSON document, as a step relation over any number
    of requests, and the locale \<open>document_rule\<close> for rules that updates keep; \<open>Orgs\<close>: rosters, teams and
    access documents with their decisions, interpreted there; \<open>Org_Creation\<close>: creating an organisation
    over two objects.
  \<^item> \<open>Calendar\<close>: dates and times as Go's package \<^verbatim>\<open>time\<close> has them; \<open>Cron\<close>: the schedules of the bundle
    strategies (\<^verbatim>\<open>internal/bundle/cron.go\<close>), parsing, \<open>Next\<close> and \<open>Between\<close>; \<open>Schedule\<close>: their properties.
  \<^item> \<open>Bundles\<close>: the bundle planner of \<^verbatim>\<open>internal/bundle\<close> (strategies, base resolution, plan windows, slot
    states, retention, list updates and served lists); \<open>Bundle_Plan\<close>: its properties.

  \<^bold>\<open>What is shown.\<close> Stored messages and log segments survive the wire, decoders never panic or hang, and the
  boundaries where they are not exact are stated. A put under compare-and-swap has one winner. A
  batch sees the refs that a replay of its entries produces, and commits as one segment that extends
  the log; a sync then reaches exactly the replay of the whole log, also when a
  checkpoint trimmed it, and the refs at an earlier sequence number are the replay up to there. Interleaved publishers keep
  the log when sweeps and recoveries do not race a commit, and the race is shown. Burned slots are swept without
  touching listed segments. A push request and its report survive the wire, and ls-refs answers
  with exactly the refs asked for. The verdict of a push policy and the gates of a repository are
  characterised; updates of a shared document are serial, keep the rules of rosters and access
  documents, and one creator wins an organisation. A cron field denotes the values its terms stand for,
  and the next fire time is the least match of the schedule. The accepted tables of bundle strategies are
  characterised, planning over them ends, a slot is cut on the latest bundle it may be cut on, and
  retention keeps whole chains, so that the list served after it is complete. Where the code gives up, loops or panics, a theorem says so.

  \<^bold>\<open>Conventions.\<close> A Go string is a list of characters in byte order, a byte slice a list of 8-bit
  words, a sized integer a word of its width, a pointer an option, an error a value of a sum. Error
  texts are dropped. Times are integers, in nanoseconds, with 0 for the zero time; the clock is an
  argument. Loops without a bound take fuel, and \<open>None\<close> means it ran out; the theorems give the fuel
  that is enough. Operations the code runs in parallel are run in sequence.

  \<^bold>\<open>Not modelled.\<close> Locks, contexts and goroutines; the local files behind the git directory, except
  for their contents; running git; the filesystem and S3 backends; the pack phase of a sync; and the
  packages above the engine other than policy, access control and the bundle planner (its builds, leases and ref selection
  included; HTTP and SSH servers, issues,
  pulls, notifications and the rest).
\<close>

end
